(* ===== verification/Prelude.thy ===== *)
theory Prelude
  imports Main "HOL-Library.Monad_Syntax"
begin

text \<open>
  Shared vocabulary of the development: panics and results as values of a sum type, the
  checked accesses to vectors that every component uses, identifiers of bounded width, and
  the list facts that the component theories rely on.
\<close>

section \<open>Results and panics\<close>

text \<open>
  A Rust operation that may panic returns \<open>panic + 'a\<close>.  The constructor tells which kind of
  failure the source raises: an index outside a slice, \<open>unwrap\<close> or \<open>expect\<close> on \<open>None\<close>, a
  failed \<open>assert\<close>, an identifier that does not fit its integer type
  (\<open>NumericId::from_usize\<close>), an explicit \<open>panic!\<close>, or an addition that
  overflows its integer type.  The last panics where overflow checks are on, as in the
  workspace's \<open>dev\<close> profile, and would wrap around silently where they are off: a theorem
  that an operation returns \<open>Ok\<close> shows that neither happens.
\<close>

datatype panic = IndexOutOfBounds | UnwrapNone | AssertFailed | IdOverflow | ExplicitPanic | ArithOverflow

type_synonym 'a result = "panic + 'a"

abbreviation Ok :: "'a \<Rightarrow> 'e + 'a" where
  "Ok \<equiv> Inr"

abbreviation Err :: "'e \<Rightarrow> 'e + 'a" where
  "Err \<equiv> Inl"

text \<open>The question-mark operator and \<open>Result::and_then\<close>: stop at the first error.\<close>

definition and_then :: "'e + 'a \<Rightarrow> ('a \<Rightarrow> 'e + 'b) \<Rightarrow> 'e + 'b" where
  "and_then m f = (case m of Inl e \<Rightarrow> Inl e | Inr x \<Rightarrow> f x)"

lemma and_then_simps [simp]:
  "and_then (Inl e) f = Inl e"
  "and_then (Inr x) f = f x"
  by (simp_all add: and_then_def)

lemma and_then_eq_Ok_iff: "and_then m f = Inr y \<longleftrightarrow> (\<exists>x. m = Inr x \<and> f x = Inr y)"
  by (cases m) simp_all

lemma and_then_OkE:
  assumes "and_then m f = Inr y"
  obtains x where "m = Inr x" "f x = Inr y"
  using assms by (auto simp: and_then_eq_Ok_iff)

lemma and_then_cong [fundef_cong]:
  assumes "m = m'" "\<And>x. m' = Inr x \<Longrightarrow> f x = g x"
  shows "and_then m f = and_then m' g"
  using assms by (cases m') (simp_all add: and_then_def)

text \<open>
  A loop of the source that may run forever is a \<open>partial_function (option)\<close>, with \<open>None\<close> for
  not returning.  \<open>run_then\<close> sequences two such computations.
\<close>

type_synonym 'a comp = "'a result option"

definition run_then :: "('e + 'a) option \<Rightarrow> ('a \<Rightarrow> ('e + 'b) option) \<Rightarrow> ('e + 'b) option" where
  "run_then m f = (case m of None \<Rightarrow> None | Some (Inl e) \<Rightarrow> Some (Inl e) | Some (Inr x) \<Rightarrow> f x)"

lemma run_then_simps [simp]:
  "run_then None f = None"
  "run_then (Some (Inl e)) f = Some (Inl e)"
  "run_then (Some (Inr x)) f = f x"
  by (simp_all add: run_then_def)

lemma run_then_bind:
  "run_then m f = Option.bind m (\<lambda>r. case r of Inl e \<Rightarrow> Some (Inl e) | Inr x \<Rightarrow> f x)"
  by (auto simp: run_then_def split: option.splits sum.splits)

lemma run_then_mono [partial_function_mono]:
  assumes "mono_option B" "\<And>y. mono_option (\<lambda>f. C y f)"
  shows "mono_option (\<lambda>f. run_then (B f) (\<lambda>y. C y f))"
  unfolding run_then_bind
proof (rule bind_mono [OF assms(1)])
  show "mono_option (\<lambda>f. case r of Inl e \<Rightarrow> Some (Inl e) | Inr x \<Rightarrow> C x f)" for r
    using assms(2) by (cases r) (auto simp: monotone_def flat_ord_def)
qed

text \<open>\<open>Option::ok_or\<close>.\<close>

definition ok_or :: "'a option \<Rightarrow> 'e \<Rightarrow> 'e + 'a" where
  "ok_or x e = (case x of None \<Rightarrow> Inl e | Some v \<Rightarrow> Inr v)"

lemma ok_or_simps [simp]:
  "ok_or None e = Inl e"
  "ok_or (Some v) e = Inr v"
  by (simp_all add: ok_or_def)

lemma ok_or_eq_Ok_iff [simp]: "ok_or x e = Inr v \<longleftrightarrow> x = Some v"
  by (cases x) simp_all

section \<open>Checked vector access\<close>

definition vec_get :: "'a list \<Rightarrow> nat \<Rightarrow> 'a result" where
  "vec_get xs i = (if i < length xs then Ok (xs ! i) else Err IndexOutOfBounds)"

definition vec_set :: "'a list \<Rightarrow> nat \<Rightarrow> 'a \<Rightarrow> 'a list result" where
  "vec_set xs i v = (if i < length xs then Ok (xs[i := v]) else Err IndexOutOfBounds)"

text \<open>The slice \<open>&xs[lo..hi]\<close>, which panics unless \<open>lo \<le> hi \<le> len\<close>.\<close>

definition vec_slice :: "'a list \<Rightarrow> nat \<Rightarrow> nat \<Rightarrow> 'a list result" where
  "vec_slice xs lo hi =
     (if lo \<le> hi \<and> hi \<le> length xs then Ok (take (hi - lo) (drop lo xs)) else Err IndexOutOfBounds)"

text \<open>\<open>slice::get\<close>, which does not panic.\<close>

definition get_opt :: "'a list \<Rightarrow> nat \<Rightarrow> 'a option" where
  "get_opt xs i = (if i < length xs then Some (xs ! i) else None)"

lemma vec_get_ok [simp]: "i < length xs \<Longrightarrow> vec_get xs i = Ok (xs ! i)"
  by (simp add: vec_get_def)

lemma vec_get_eq_Ok_iff: "vec_get xs i = Inr x \<longleftrightarrow> i < length xs \<and> x = xs ! i"
  by (auto simp: vec_get_def)

lemma vec_set_ok [simp]: "i < length xs \<Longrightarrow> vec_set xs i v = Ok (xs[i := v])"
  by (simp add: vec_set_def)

lemma vec_slice_ok [simp]:
  "lo \<le> hi \<Longrightarrow> hi \<le> length xs \<Longrightarrow> vec_slice xs lo hi = Ok (take (hi - lo) (drop lo xs))"
  by (simp add: vec_slice_def)

lemma get_opt_Some_iff: "get_opt xs i = Some x \<longleftrightarrow> i < length xs \<and> xs ! i = x"
  by (auto simp: get_opt_def)

section \<open>Identifiers of bounded width\<close>

text \<open>
  Identifiers made by \<open>define_id!\<close> over \<open>u32\<close> are natural numbers here; the conversion
  \<open>from_usize\<close> asserts that the index fits, and that assertion is the overflow check.
\<close>

definition u32_max :: nat where
  "u32_max = 2 ^ 32 - 1"

definition from_usize_u32 :: "nat \<Rightarrow> nat result" where
  "from_usize_u32 i = (if i \<le> u32_max then Ok i else Err IdOverflow)"

lemma from_usize_u32_ok [simp]: "i \<le> u32_max \<Longrightarrow> from_usize_u32 i = Ok i"
  by (simp add: from_usize_u32_def)

lemma from_usize_u32_eq_Ok_iff: "from_usize_u32 i = Inr j \<longleftrightarrow> i \<le> u32_max \<and> j = i"
  by (auto simp: from_usize_u32_def)

text \<open>Addition of two \<open>u32\<close> counters held as natural numbers.\<close>

definition add_u32 :: "nat \<Rightarrow> nat \<Rightarrow> nat result" where
  "add_u32 a b = (if a + b \<le> u32_max then Ok (a + b) else Err ArithOverflow)"

lemma add_u32_ok [simp]: "a + b \<le> u32_max \<Longrightarrow> add_u32 a b = Ok (a + b)"
  by (simp add: add_u32_def)

lemma add_u32_eq_Ok_iff: "add_u32 a b = Inr c \<longleftrightarrow> a + b \<le> u32_max \<and> c = a + b"
  by (auto simp: add_u32_def)

lemma add_u32_eq_Err_iff: "add_u32 a b = Inl e \<longleftrightarrow> u32_max < a + b \<and> e = ArithOverflow"
  by (auto simp: add_u32_def)

section \<open>List facts\<close>

lemma nth_list_update_if:
  "i < length xs \<Longrightarrow> (xs[j := v]) ! i = (if i = j then v else xs ! i)"
  by (auto simp: nth_list_update)

end
