(* ===== verification/Canonical.thy ===== *)
theory Canonical
  imports Prelude
begin

text \<open>
  The contract every union-find of the workspace implements, whatever its representation:
  a canonical map that sends an id to the least id of its class, and a merge step whose
  effect on that map is \<open>union_rep\<close>.  The locale \<open>canonical_merge\<close> states the contract; its
  lemmas show that a batch of merges computes the equivalence closure of the batch, and that
  the canonical map does not depend on the order of the batch.
\<close>

section \<open>Canonical maps\<close>

definition canonical :: "(nat \<Rightarrow> nat) \<Rightarrow> bool" where
  "canonical r \<longleftrightarrow> (\<forall>x. r x \<le> x) \<and> (\<forall>x. r (r x) = r x)"

definition ker :: "(nat \<Rightarrow> nat) \<Rightarrow> (nat \<times> nat) set" where
  "ker r = {(x, y). r x = r y}"

text \<open>The canonical map after the classes of \<open>a\<close> and \<open>b\<close> were merged, the smaller id winning.\<close>

definition union_rep :: "(nat \<Rightarrow> nat) \<Rightarrow> nat \<Rightarrow> nat \<Rightarrow> nat \<Rightarrow> nat" where
  "union_rep r a b x = (if r x = r a \<or> r x = r b then min (r a) (r b) else r x)"

text \<open>The least equivalence relation that contains \<open>R\<close>.\<close>

definition eq_closure :: "('a \<times> 'a) set \<Rightarrow> ('a \<times> 'a) set" where
  "eq_closure R = (R \<union> R\<inverse>)\<^sup>*"

lemma eq_closure_refl [simp]: "(x, x) \<in> eq_closure R"
  by (simp add: eq_closure_def)

lemma eq_closure_base: "p \<in> R \<Longrightarrow> p \<in> eq_closure R"
  by (cases p) (auto simp: eq_closure_def)

lemma eq_closure_sym: "(x, y) \<in> eq_closure R \<Longrightarrow> (y, x) \<in> eq_closure R"
proof -
  have "sym ((R \<union> R\<inverse>)\<^sup>*)" by (rule sym_rtrancl) (auto simp: sym_def)
  then show "(x, y) \<in> eq_closure R \<Longrightarrow> (y, x) \<in> eq_closure R"
    by (auto simp: eq_closure_def dest: symD)
qed

lemma eq_closure_trans [trans]:
  "(x, y) \<in> eq_closure R \<Longrightarrow> (y, z) \<in> eq_closure R \<Longrightarrow> (x, z) \<in> eq_closure R"
  by (auto simp: eq_closure_def)

lemma eq_closure_mono: "R \<subseteq> S \<Longrightarrow> eq_closure R \<subseteq> eq_closure S"
  unfolding eq_closure_def by (rule rtrancl_mono) auto

lemma eq_closure_least:
  assumes "R \<subseteq> E" "equiv UNIV E"
  shows "eq_closure R \<subseteq> E"
proof -
  from assms have "R \<union> R\<inverse> \<subseteq> E" by (auto simp: equiv_def dest: symD)
  then have "eq_closure R \<subseteq> E\<^sup>*" unfolding eq_closure_def by (rule rtrancl_mono)
  also have "E\<^sup>* = E"
    using assms(2) by (auto simp: equiv_def refl_on_def intro: rtrancl_trans elim: rtrancl_induct dest: transD)
  finally show ?thesis .
qed

lemma equiv_eq_closure: "equiv UNIV (eq_closure R)"
  by (auto simp: equiv_def refl_on_def sym_def trans_def intro: eq_closure_sym eq_closure_trans)

lemma eq_closure_absorb: "eq_closure (eq_closure R \<union> S) = eq_closure (R \<union> S)"
proof
  show "eq_closure (eq_closure R \<union> S) \<subseteq> eq_closure (R \<union> S)"
    by (rule eq_closure_least [OF _ equiv_eq_closure])
      (auto intro: eq_closure_base subsetD [OF eq_closure_mono [of R]])
  show "eq_closure (R \<union> S) \<subseteq> eq_closure (eq_closure R \<union> S)"
    by (rule eq_closure_mono) (auto intro: eq_closure_base)
qed

lemma equiv_ker: "equiv UNIV (ker r)"
  by (auto simp: equiv_def ker_def refl_on_def sym_def trans_def)

lemma eq_closure_ker [simp]: "eq_closure (ker r) = ker r"
  using eq_closure_least [OF subset_refl equiv_ker] by (auto intro: eq_closure_base)

lemma canonical_union_rep: "canonical r \<Longrightarrow> canonical (union_rep r a b)"
  unfolding canonical_def union_rep_def min_def by (auto; metis le_trans nat_le_linear)

lemma ker_union_rep:
  assumes "canonical r"
  shows "ker (union_rep r a b) = eq_closure (ker r \<union> {(a, b)})"
proof
  show "eq_closure (ker r \<union> {(a, b)}) \<subseteq> ker (union_rep r a b)"
    by (rule eq_closure_least [OF _ equiv_ker]) (auto simp: ker_def union_rep_def)
  show "ker (union_rep r a b) \<subseteq> eq_closure (ker r \<union> {(a, b)})"
  proof clarify
    fix x y
    let ?C = "eq_closure (ker r \<union> {(a, b)})"
    assume xy: "(x, y) \<in> ker (union_rep r a b)"
    have ab: "(a, b) \<in> ?C" by (rule eq_closure_base) simp
    have near: "(z, a) \<in> ?C" if "r z = r a \<or> r z = r b" for z
    proof -
      from that have "(z, a) \<in> ker r \<or> (z, b) \<in> ker r" by (auto simp: ker_def)
      then have "(z, a) \<in> ?C \<or> (z, b) \<in> ?C" by (auto intro: eq_closure_base)
      with ab show ?thesis by (blast intro: eq_closure_trans eq_closure_sym)
    qed
    from xy consider "r x = r y" | "r x = r a \<or> r x = r b" "r y = r a \<or> r y = r b"
      by (auto simp: ker_def union_rep_def min_def split: if_splits)
    then show "(x, y) \<in> ?C"
    proof cases
      case 1
      then show ?thesis by (intro eq_closure_base) (auto simp: ker_def)
    next
      case 2
      then show ?thesis by (blast intro: near eq_closure_trans eq_closure_sym)
    qed
  qed
qed

text \<open>A canonical map is determined by its classes, because it picks the least member.\<close>

lemma canonical_ker_unique:
  assumes "canonical r" "canonical s" "ker r = ker s"
  shows "r = s"
proof
  fix x
  have le: "f x \<le> g x" if "canonical f" "canonical g" "ker f = ker g" for f g :: "nat \<Rightarrow> nat"
  proof -
    have "(x, g x) \<in> ker g" using that(2) by (simp add: ker_def canonical_def)
    then have "f x = f (g x)" using that(3) by (auto simp: ker_def)
    then show ?thesis using that(1) by (simp add: canonical_def)
  qed
  from le [of r s] le [of s r] assms show "r x = s x" by (auto intro: antisym)
qed

lemma canonical_least:
  assumes "canonical r" "(x, y) \<in> ker r"
  shows "r x \<le> y"
  using assms by (auto simp: canonical_def ker_def)

section \<open>Batches of merges\<close>

fun batch :: "('u \<Rightarrow> nat \<Rightarrow> nat \<Rightarrow> 'u \<Rightarrow> bool) \<Rightarrow> (nat \<times> nat) list \<Rightarrow> 'u \<Rightarrow> 'u \<Rightarrow> bool" where
  "batch step [] u v \<longleftrightarrow> v = u"
| "batch step ((a, b) # ps) u v \<longleftrightarrow> (\<exists>w. step u a b w \<and> batch step ps w v)"

locale canonical_merge =
  fixes invar :: "'u \<Rightarrow> bool"
    and rep :: "'u \<Rightarrow> nat \<Rightarrow> nat"
    and step :: "'u \<Rightarrow> nat \<Rightarrow> nat \<Rightarrow> 'u \<Rightarrow> bool"
  assumes rep_canonical: "invar u \<Longrightarrow> canonical (rep u)"
    and step_invar: "invar u \<Longrightarrow> step u a b v \<Longrightarrow> invar v"
    and step_rep: "invar u \<Longrightarrow> step u a b v \<Longrightarrow> rep v = union_rep (rep u) a b"
    and step_total: "invar u \<Longrightarrow> \<exists>v. step u a b v"
begin

lemma batch_closure:
  "invar u \<Longrightarrow> batch step ps u v \<Longrightarrow> invar v \<and> ker (rep v) = eq_closure (ker (rep u) \<union> set ps)"
proof (induction ps arbitrary: u)
  case Nil
  then show ?case by simp
next
  case (Cons p ps)
  obtain a b where p: "p = (a, b)" by (cases p)
  with Cons.prems(2) obtain w where w: "step u a b w" "batch step ps w v" by auto
  from Cons.prems(1) w(1) have "invar w" by (rule step_invar)
  with Cons.IH w(2) have "invar v" "ker (rep v) = eq_closure (ker (rep w) \<union> set ps)" by auto
  moreover have "ker (rep w) = eq_closure (ker (rep u) \<union> {(a, b)})"
    using Cons.prems(1) w(1) by (simp add: step_rep ker_union_rep rep_canonical)
  ultimately show ?case by (simp add: p eq_closure_absorb)
qed

lemma batch_total: "invar u \<Longrightarrow> \<exists>v. batch step ps u v"
proof (induction ps arbitrary: u)
  case Nil
  then show ?case by simp
next
  case (Cons p ps)
  obtain a b where p: "p = (a, b)" by (cases p)
  from step_total [OF Cons.prems] obtain w where "step u a b w" by blast
  with Cons.IH [of w] step_invar [OF Cons.prems] show ?case by (auto simp: p)
qed

lemma batch_order_irrelevant:
  assumes "invar u" "batch step ps u v" "batch step qs u w" "set ps = set qs"
  shows "rep v = rep w"
  using batch_closure [OF assms(1,2)] batch_closure [OF assms(1,3)] assms(4)
  by (intro canonical_ker_unique) (simp_all add: rep_canonical)

end

end
