(* ===== verification/UnionFind.thy ===== *)
theory UnionFind
  imports Canonical
begin

text \<open>
  The serial union-find of \<open>egglog/union-find/src/lib.rs\<close>: a parent vector, path halving in
  \<open>find\<close>, and union by minimum id.  The theory shows that every operation returns, that
  compression is invisible, that the representative is the least id of its class, and that
  the canonical map after a batch of unions is the same for every order of the batch.
\<close>

section \<open>Model\<close>

record union_find =
  parents :: "nat list"

definition uf_default :: union_find where
  "uf_default = \<lparr>parents = []\<rparr>"

text \<open>\<open>reset\<close> writes \<open>from_usize(i)\<close> at every index \<open>i\<close>.\<close>

definition uf_reset :: "union_find \<Rightarrow> union_find" where
  "uf_reset uf = uf\<lparr>parents := [0..<length (parents uf)]\<rparr>"

definition uf_reserve :: "union_find \<Rightarrow> nat \<Rightarrow> union_find" where
  "uf_reserve uf v =
     (if v \<ge> length (parents uf)
      then uf\<lparr>parents := parents uf @ [length (parents uf)..<Suc v]\<rparr>
      else uf)"

text \<open>The loop of \<open>find\<close>: the parent of \<open>cur\<close> becomes its grandparent on the way up.\<close>

partial_function (option) find_loop :: "nat list \<Rightarrow> nat \<Rightarrow> (nat \<times> nat list) comp" where
  "find_loop ps cur =
     (if \<not> cur < length ps then Some (Err IndexOutOfBounds)
      else if cur = ps ! cur then Some (Ok (cur, ps))
      else if \<not> ps ! cur < length ps then Some (Err IndexOutOfBounds)
      else find_loop (ps[cur := ps ! (ps ! cur)]) (ps ! (ps ! cur)))"

definition uf_find :: "union_find \<Rightarrow> nat \<Rightarrow> (nat \<times> union_find) comp" where
  "uf_find uf v =
     (let uf = uf_reserve uf v in
      run_then (find_loop (parents uf) v) (\<lambda>(r, ps). Some (Ok (r, uf\<lparr>parents := ps\<rparr>))))"

partial_function (option) find_naive_loop :: "nat list \<Rightarrow> nat \<Rightarrow> nat comp" where
  "find_naive_loop ps cur =
     (if \<not> cur < length ps then Some (Err IndexOutOfBounds)
      else if cur = ps ! cur then Some (Ok cur)
      else find_naive_loop ps (ps ! cur))"

definition uf_find_naive :: "union_find \<Rightarrow> nat \<Rightarrow> nat comp" where
  "uf_find_naive uf v =
     (if length (parents uf) \<le> v then Some (Ok v) else find_naive_loop (parents uf) v)"

text \<open>\<open>union\<close> returns the pair of the parent and the child.\<close>

definition uf_union :: "union_find \<Rightarrow> nat \<Rightarrow> nat \<Rightarrow> ((nat \<times> nat) \<times> union_find) comp" where
  "uf_union uf a b =
     (let uf = uf_reserve (uf_reserve uf a) b in
      run_then (uf_find uf a) (\<lambda>(a, uf).
      run_then (uf_find uf b) (\<lambda>(b, uf).
        if a \<noteq> b
        then (let parent = min a b; child = max a b in
              case vec_set (parents uf) child parent of
                Inl e \<Rightarrow> Some (Inl e)
              | Inr ps \<Rightarrow> Some (Ok ((parent, child), uf\<lparr>parents := ps\<rparr>)))
        else Some (Ok ((a, a), uf)))))"

section \<open>Well-formedness and representatives\<close>

text \<open>Links never point to a larger id: the invariant union by minimum maintains.\<close>

definition uf_wf :: "union_find \<Rightarrow> bool" where
  "uf_wf uf \<longleftrightarrow> (\<forall>i < length (parents uf). parents uf ! i \<le> i)"

fun root :: "nat list \<Rightarrow> nat \<Rightarrow> nat" where
  "root ps i = (if i < length ps \<and> ps ! i < i then root ps (ps ! i) else i)"

declare root.simps [simp del]

definition uf_rep :: "union_find \<Rightarrow> nat \<Rightarrow> nat" where
  "uf_rep uf i = root (parents uf) i"

text \<open>The equivalence relation a union-find stands for; ids it has never seen are singletons.\<close>

definition uf_rel :: "union_find \<Rightarrow> (nat \<times> nat) set" where
  "uf_rel uf = {(a, b). uf_rep uf a = uf_rep uf b}"

lemma root_le: "root ps i \<le> i"
  by (induction ps i rule: root.induct) (subst root.simps, auto)

lemma root_beyond: "length ps \<le> i \<Longrightarrow> root ps i = i"
  by (subst root.simps) simp

lemma root_self: "i < length ps \<Longrightarrow> ps ! i = i \<Longrightarrow> root ps i = i"
  by (subst root.simps) simp

lemma root_less_length: "i < length ps \<Longrightarrow> root ps i < length ps"
  using root_le [of ps i] by simp

lemma root_idem [simp]: "root ps (root ps i) = root ps i"
proof (induction ps i rule: root.induct)
  case (1 ps i)
  then show ?case
    by (cases "i < length ps \<and> ps ! i < i") (auto simp: root.simps [of ps i])
qed

text \<open>The invariant on the bare parent vector.\<close>

definition links_down :: "nat list \<Rightarrow> bool" where
  "links_down ps \<longleftrightarrow> (\<forall>i < length ps. ps ! i \<le> i)"

lemma uf_wf_links_down: "uf_wf uf \<longleftrightarrow> links_down (parents uf)"
  by (simp add: uf_wf_def links_down_def)

lemma links_downD: "links_down ps \<Longrightarrow> i < length ps \<Longrightarrow> ps ! i \<le> i"
  by (simp add: links_down_def)

lemma root_step: "links_down ps \<Longrightarrow> i < length ps \<Longrightarrow> root ps (ps ! i) = root ps i"
  by (subst (2) root.simps) (auto simp: root_self dest: links_downD)

lemma root_parent_fix: "links_down ps \<Longrightarrow> i < length ps \<Longrightarrow> ps ! root ps i = root ps i"
proof (induction i rule: less_induct)
  case (less i)
  show ?case
  proof (cases "ps ! i < i")
    case True
    with less show ?thesis by (simp flip: root_step [of ps i])
  next
    case False
    with less.prems have "ps ! i = i" by (simp add: links_downD order.antisym)
    with less.prems show ?thesis by (simp add: root_self)
  qed
qed

text \<open>Redirecting \<open>i\<close> to a smaller member of its own class changes no representative.\<close>

lemma root_compress:
  assumes "links_down ps" "i < length ps" "j < i" "root ps j = root ps i"
  shows "root (ps[i := j]) x = root ps x"
proof (induction x rule: less_induct)
  case (less x)
  show ?case
  proof (cases "x = i")
    case True
    with assms less show ?thesis by (subst root.simps) simp
  next
    case False
    with less show ?thesis by (subst (1 2) root.simps) (simp add: nth_list_update)
  qed
qed

lemma links_down_update: "links_down ps \<Longrightarrow> j \<le> i \<Longrightarrow> links_down (ps[i := j])"
  by (auto simp: links_down_def nth_list_update_if)

text \<open>Linking the root \<open>c\<close> below a smaller id \<open>p\<close> moves exactly the class of \<open>c\<close>.\<close>

lemma root_link_below:
  assumes "links_down ps" "c < length ps" "ps ! c = c" "p < c"
  shows "root (ps[c := p]) x = (if root ps x = c then root ps p else root ps x)"
proof (induction x rule: less_induct)
  case (less x)
  have "root ps p \<noteq> c" using assms(4) root_le [of ps p] by simp
  show ?case
  proof (cases "x = c")
    case True
    with assms less [of p] \<open>root ps p \<noteq> c\<close> show ?thesis by (subst root.simps) (simp add: root_self)
  next
    case False
    show ?thesis
    proof (cases "x < length ps \<and> ps ! x < x")
      case True
      with False less [of "ps ! x"] assms(1) show ?thesis
        by (subst root.simps) (simp add: nth_list_update root_step)
    next
      case n: False
      then have "root ps x = x" by (subst root.simps) auto
      moreover from n False have "root (ps[c := p]) x = x"
        by (subst root.simps) (auto simp: nth_list_update)
      ultimately show ?thesis using False by simp
    qed
  qed
qed

lemma root_link:
  assumes "links_down ps" "c < length ps" "ps ! c = c" "p < c" "root ps p = p"
  shows "root (ps[c := p]) x = (if root ps x = c then p else root ps x)"
  using root_link_below [OF assms(1-4)] assms(5) by simp

lemma root_extend: "root (ps @ [length ps..<n]) x = root ps x"
proof (induction x rule: less_induct)
  case (less x)
  show ?case
  proof (cases "x < length ps")
    case True
    with less show ?thesis by (subst (1 2) root.simps) (simp add: nth_append)
  next
    case False
    then show ?thesis by (subst (1 2) root.simps) (auto simp: nth_append)
  qed
qed

lemma links_down_extend: "links_down ps \<Longrightarrow> links_down (ps @ [length ps..<n])"
  by (auto simp: links_down_def nth_append)

section \<open>The loops return the representative\<close>

lemma find_naive_loop_root:
  "links_down ps \<Longrightarrow> i < length ps \<Longrightarrow> find_naive_loop ps i = Some (Ok (root ps i))"
proof (induction i rule: less_induct)
  case (less i)
  show ?case
  proof (cases "ps ! i = i")
    case True
    with less.prems show ?thesis by (subst find_naive_loop.simps) (simp add: root_self)
  next
    case False
    with less.prems have lt: "ps ! i < i" by (simp add: links_downD order.not_eq_order_implies_strict)
    with less.prems have "find_naive_loop ps (ps ! i) = Some (Ok (root ps (ps ! i)))"
      by (intro less.IH) auto
    with less.prems False show ?thesis
      by (subst find_naive_loop.simps) (simp add: root_step)
  qed
qed

text \<open>What path halving may do to a parent vector: nothing that a client can observe.\<close>

definition same_roots :: "nat list \<Rightarrow> nat list \<Rightarrow> bool" where
  "same_roots ps qs \<longleftrightarrow> links_down qs \<and> length qs = length ps \<and> (\<forall>x. root qs x = root ps x)"

lemma find_loop_root:
  "links_down ps \<Longrightarrow> i < length ps \<Longrightarrow>
   \<exists>qs. find_loop ps i = Some (Ok (root ps i, qs)) \<and> same_roots ps qs"
proof (induction i arbitrary: ps rule: less_induct)
  case (less i)
  let ?p = "ps ! i"
  let ?g = "ps ! ?p"
  show ?case
  proof (cases "?p = i")
    case True
    with less.prems show ?thesis
      by (subst find_loop.simps) (simp add: root_self same_roots_def)
  next
    case False
    with less.prems have p: "?p < i" by (simp add: links_downD order.not_eq_order_implies_strict)
    with less.prems have g: "?g \<le> ?p" by (simp add: links_downD)
    let ?qs = "ps[i := ?g]"
    from less.prems p have "root ps ?g = root ps i" by (simp add: root_step)
    with less.prems p g have same: "root ?qs x = root ps x" for x by (intro root_compress) auto
    from less.prems p g have "links_down ?qs" by (intro links_down_update) auto
    with p g less.prems obtain rs where "find_loop ?qs ?g = Some (Ok (root ?qs ?g, rs))"
      "same_roots ?qs rs" using less.IH [of ?g ?qs] by auto
    with False p g less.prems same \<open>root ps ?g = root ps i\<close> show ?thesis
      by (subst find_loop.simps) (simp add: same_roots_def)
  qed
qed

section \<open>Operations against their specification\<close>

lemma uf_wf_default [simp]: "uf_wf uf_default"
  by (simp add: uf_wf_def uf_default_def)

lemma uf_rep_default [simp]: "uf_rep uf_default i = i"
  by (simp add: uf_rep_def uf_default_def root_beyond)

lemma uf_rep_le: "uf_rep uf i \<le> i"
  by (simp add: uf_rep_def root_le)

lemma uf_rep_idem [simp]: "uf_rep uf (uf_rep uf i) = uf_rep uf i"
  by (simp add: uf_rep_def)

lemma uf_reserve_props:
  assumes "uf_wf uf"
  shows "uf_wf (uf_reserve uf v)" "uf_rep (uf_reserve uf v) x = uf_rep uf x"
    "v < length (parents (uf_reserve uf v))"
    "length (parents uf) \<le> length (parents (uf_reserve uf v))"
  using assms
  by (auto simp: uf_reserve_def uf_wf_links_down uf_rep_def root_extend links_down_extend
      simp del: upt_Suc)

lemma uf_reset_props:
  "uf_wf (uf_reset uf)" "uf_rep (uf_reset uf) x = x"
  using root_extend [of "[]" "length (parents uf)" x]
  by (auto simp: uf_reset_def uf_wf_def uf_rep_def root_beyond)

lemma uf_find_naive_rep: "uf_wf uf \<Longrightarrow> uf_find_naive uf v = Some (Ok (uf_rep uf v))"
  by (simp add: uf_find_naive_def uf_wf_links_down uf_rep_def root_beyond find_naive_loop_root)

lemma uf_find_rep:
  assumes "uf_wf uf"
  obtains uf' where "uf_find uf v = Some (Ok (uf_rep uf v, uf'))" "uf_wf uf'"
    "\<And>x. uf_rep uf' x = uf_rep uf x"
    "length (parents uf') = length (parents (uf_reserve uf v))"
proof -
  let ?uf = "uf_reserve uf v"
  note res = uf_reserve_props [OF assms]
  obtain qs where "find_loop (parents ?uf) v = Some (Ok (root (parents ?uf) v, qs))"
    "same_roots (parents ?uf) qs"
    using find_loop_root [of "parents ?uf" v] res(1,3) by (auto simp: uf_wf_links_down)
  with res(2) show ?thesis
    by (intro that [of "?uf\<lparr>parents := qs\<rparr>"])
      (auto simp: uf_find_def Let_def uf_rep_def uf_wf_links_down same_roots_def)
qed

text \<open>The contract of \<open>union\<close>: its result, and the representatives afterwards.\<close>

lemma uf_union_rep:
  assumes "uf_wf uf"
  obtains uf' where
    "uf_union uf a b = Some (Ok ((min (uf_rep uf a) (uf_rep uf b), max (uf_rep uf a) (uf_rep uf b)), uf'))"
    "uf_wf uf'" "\<And>x. uf_rep uf' x = union_rep (uf_rep uf) a b x"
proof -
  let ?uf = "uf_reserve (uf_reserve uf a) b"
  note r1 = uf_reserve_props [OF assms, of a]
  note r2 = uf_reserve_props [OF r1(1), of b]
  obtain u1 where u1: "uf_find ?uf a = Some (Ok (uf_rep ?uf a, u1))" "uf_wf u1"
    "\<And>x. uf_rep u1 x = uf_rep ?uf x" "length (parents u1) = length (parents (uf_reserve ?uf a))"
    using uf_find_rep [OF r2(1)] by blast
  obtain u2 where u2: "uf_find u1 b = Some (Ok (uf_rep u1 b, u2))" "uf_wf u2"
    "\<And>x. uf_rep u2 x = uf_rep u1 x" "length (parents u2) = length (parents (uf_reserve u1 b))"
    using uf_find_rep [OF u1(2)] by blast
  define ra rb where "ra = uf_rep uf a" and "rb = uf_rep uf b"
  have rep: "uf_rep u2 x = uf_rep uf x" for x by (simp add: u2(3) u1(3) r2(2) r1(2))
  have len: "a < length (parents u2)" "b < length (parents u2)"
    using uf_reserve_props(3,4) [OF r2(1), of a] uf_reserve_props(3,4) [OF u1(2), of b] u1(4) u2(4)
    by auto
  have bounds: "ra \<le> a" "rb \<le> b" by (simp_all add: ra_def rb_def uf_rep_le)
  have fix_root: "parents u2 ! ra = ra" "parents u2 ! rb = rb" "root (parents u2) ra = ra" "root (parents u2) rb = rb"
    using root_parent_fix [of "parents u2" a] root_parent_fix [of "parents u2" b] u2(2) len rep
    by (simp_all add: uf_wf_links_down uf_rep_def ra_def rb_def flip: rep)
  show ?thesis
  proof (cases "ra = rb")
    case True
    then show ?thesis using u1 u2 rep r1(2) r2(2)
      by (intro that [of u2]) (auto simp: uf_union_def Let_def union_rep_def ra_def rb_def)
  next
    case False
    let ?p = "min ra rb" and ?c = "max ra rb"
    have pc: "?p < ?c" "?c < length (parents u2)" "parents u2 ! ?c = ?c" "root (parents u2) ?p = ?p"
      using False bounds len fix_root by (auto simp: min_def max_def)
    let ?u = "u2\<lparr>parents := (parents u2)[?c := ?p]\<rparr>"
    have "uf_rep ?u x = union_rep (uf_rep uf) a b x" for x
      using root_link [of "parents u2" ?c ?p x] pc u2(2) rep [of x] False
      by (auto simp: uf_wf_links_down uf_rep_def union_rep_def ra_def rb_def min_def max_def
          split: if_splits)
    moreover have "uf_wf ?u"
      using u2(2) pc by (auto simp: uf_wf_links_down intro!: links_down_update)
    moreover have "uf_union uf a b = Some (Ok ((?p, ?c), ?u))"
      using u1 u2 r1(2) r2(2) pc False
      by (simp add: uf_union_def Let_def ra_def rb_def)
    ultimately show ?thesis by (intro that) (auto simp: ra_def rb_def)
  qed
qed

section \<open>The union-find implements the canonical-merge contract\<close>

definition uf_step :: "union_find \<Rightarrow> nat \<Rightarrow> nat \<Rightarrow> union_find \<Rightarrow> bool" where
  "uf_step uf a b uf' \<longleftrightarrow> (\<exists>pc. uf_union uf a b = Some (Ok (pc, uf')))"

lemma uf_rep_canonical: "canonical (uf_rep uf)"
  by (simp add: canonical_def uf_rep_le)

lemma uf_step_rep:
  assumes "uf_wf uf" "uf_step uf a b uf'"
  shows "uf_wf uf'" "uf_rep uf' = union_rep (uf_rep uf) a b"
proof -
  obtain v where v: "uf_union uf a b =
      Some (Ok ((min (uf_rep uf a) (uf_rep uf b), max (uf_rep uf a) (uf_rep uf b)), v))"
    "uf_wf v" "\<And>x. uf_rep v x = union_rep (uf_rep uf) a b x"
    by (rule uf_union_rep [OF assms(1), of a b]) simp
  with assms(2) show "uf_wf uf'" "uf_rep uf' = union_rep (uf_rep uf) a b"
    by (auto simp: uf_step_def)
qed

lemma uf_step_total: "uf_wf uf \<Longrightarrow> \<exists>uf'. uf_step uf a b uf'"
  unfolding uf_step_def by (rule uf_union_rep [of uf a b]) blast+

interpretation serial_uf: canonical_merge uf_wf uf_rep uf_step
  by unfold_locales (simp_all add: uf_rep_canonical uf_step_rep uf_step_total)

lemma uf_rel_ker: "uf_rel uf = ker (uf_rep uf)"
  by (simp add: uf_rel_def ker_def)

text \<open>Running \<open>union\<close> on every pair of a list, as a caller does.\<close>

fun uf_unions :: "union_find \<Rightarrow> (nat \<times> nat) list \<Rightarrow> union_find comp" where
  "uf_unions uf [] = Some (Ok uf)"
| "uf_unions uf ((a, b) # ps) = run_then (uf_union uf a b) (\<lambda>(_, uf'). uf_unions uf' ps)"

lemma uf_unions_batch:
  "uf_wf uf \<Longrightarrow> \<exists>uf'. uf_unions uf ps = Some (Ok uf') \<and> batch uf_step ps uf uf'"
proof (induction uf ps rule: uf_unions.induct)
  case (2 uf a b ps)
  obtain uf' where st: "uf_step uf a b uf'" using uf_step_total [OF 2(2)] by blast
  then obtain pc where u: "uf_union uf a b = Some (Ok (pc, uf'))" by (auto simp: uf_step_def)
  from uf_step_rep(1) [OF 2(2) st] 2(1) [of uf'] obtain uf''
    where "uf_unions uf' ps = Some (Ok uf'')" "batch uf_step ps uf' uf''"
    by auto
  with u st show ?case by auto
qed simp

section \<open>Properties\<close>

lemma uf_rep_Least: "uf_rep uf v = (LEAST x. (v, x) \<in> uf_rel uf)"
proof (rule sym, rule Least_equality)
  show "(v, uf_rep uf v) \<in> uf_rel uf" by (simp add: uf_rel_def)
  show "uf_rep uf v \<le> y" if "(v, y) \<in> uf_rel uf" for y
    using canonical_least [OF uf_rep_canonical] that by (simp add: uf_rel_ker)
qed

text \<open>
  C19: On a well-formed union-find \<open>find\<close> always returns, its result is the least id of the
  class of its argument and the same as that of \<open>find_naive\<close>, and the path halving it does on
  the way changes neither well-formedness nor any class.
\<close>

theorem find_least_and_invisible:
  assumes "uf_wf uf"
  shows "\<exists>uf'. uf_find uf v = Some (Ok ((LEAST x. (v, x) \<in> uf_rel uf), uf'))
    \<and> uf_find_naive uf v = Some (Ok (LEAST x. (v, x) \<in> uf_rel uf))
    \<and> uf_wf uf' \<and> uf_rel uf' = uf_rel uf"
proof -
  obtain uf' where "uf_find uf v = Some (Ok (uf_rep uf v, uf'))" "uf_wf uf'"
    "\<And>x. uf_rep uf' x = uf_rep uf x"
    by (rule uf_find_rep [OF assms, of v]) simp
  moreover from this have "uf_rel uf' = uf_rel uf" by (simp add: uf_rel_def)
  ultimately show ?thesis
    using uf_find_naive_rep [OF assms] by (auto simp: uf_rep_Least [symmetric])
qed

definition uf_chain :: union_find where
  "uf_chain = \<lparr>parents = [0, 0, 1, 2]\<rparr>"

theorem find_least_and_invisible_witness:
  "uf_wf uf_chain \<and> uf_find uf_chain 3 = Some (Ok (0, \<lparr>parents = [0, 0, 1, 1]\<rparr>))
   \<and> (LEAST x. (3, x) \<in> uf_rel uf_chain) = 0"
proof -
  have wf: "uf_wf uf_chain" by (simp add: uf_wf_def uf_chain_def less_Suc_eq numeral_eq_Suc)
  have "uf_find uf_chain 3 = Some (Ok (0, \<lparr>parents = [0, 0, 1, 1]\<rparr>))"
    by (simp add: uf_chain_def uf_find_def uf_reserve_def find_loop.simps)
  with find_least_and_invisible [OF wf, of 3] wf show ?thesis by auto
qed

text \<open>
  C18: On a well-formed union-find \<open>union\<close> always returns.  It reports the smaller of the two
  representatives as the parent and the larger as the child (the same id twice when the
  operands were equal already), keeps the union-find well formed, and its relation afterwards
  is the least equivalence that contains the old one and the new pair.
\<close>

theorem union_correct:
  assumes "uf_wf uf"
  shows "\<exists>uf'. uf_union uf a b = Some (Ok ((min (uf_rep uf a) (uf_rep uf b), max (uf_rep uf a) (uf_rep uf b)), uf'))
    \<and> uf_wf uf' \<and> uf_rel uf' = eq_closure (uf_rel uf \<union> {(a, b)})
    \<and> (\<forall>x. uf_rep uf' x = (if uf_rep uf x = max (uf_rep uf a) (uf_rep uf b)
                          then min (uf_rep uf a) (uf_rep uf b) else uf_rep uf x))"
proof -
  obtain uf' where u: "uf_union uf a b =
      Some (Ok ((min (uf_rep uf a) (uf_rep uf b), max (uf_rep uf a) (uf_rep uf b)), uf'))"
    "uf_wf uf'" "\<And>x. uf_rep uf' x = union_rep (uf_rep uf) a b x"
    by (rule uf_union_rep [OF assms, of a b]) simp
  then have "uf_rep uf' = union_rep (uf_rep uf) a b" by blast
  then have "uf_rel uf' = eq_closure (uf_rel uf \<union> {(a, b)})"
    by (simp add: uf_rel_ker ker_union_rep uf_rep_canonical)
  with u show ?thesis by (auto simp: union_rep_def min_def max_def)
qed

theorem union_correct_witness:
  "\<exists>uf'. uf_union uf_default 5 3 = Some (Ok ((3, 5), uf')) \<and> (3, 5) \<in> uf_rel uf'"
proof -
  have "(3, 5) \<in> eq_closure (uf_rel uf_default \<union> {(5, 3)})"
    by (rule eq_closure_sym) (auto intro: eq_closure_base)
  with union_correct [of uf_default 5 3] show ?thesis by (simp add: min_def max_def) blast
qed

text \<open>
  A sequence of unions never fails, and the representatives it leaves depend only on the
  set of pairs: any other list with the same pairs, in any order and with any repetitions,
  leaves the same canonical map, the one of the equivalence closure.
\<close>

theorem unions_confluent:
  assumes "uf_wf uf" "set ps = set qs"
  shows "\<exists>u v. uf_unions uf ps = Some (Ok u) \<and> uf_unions uf qs = Some (Ok v)
    \<and> uf_rep u = uf_rep v \<and> uf_rel u = eq_closure (uf_rel uf \<union> set ps)"
proof -
  obtain u where u: "uf_unions uf ps = Some (Ok u)" "batch uf_step ps uf u"
    using uf_unions_batch [OF assms(1)] by blast
  obtain v where v: "uf_unions uf qs = Some (Ok v)" "batch uf_step qs uf v"
    using uf_unions_batch [OF assms(1)] by blast
  from serial_uf.batch_order_irrelevant [OF assms(1) u(2) v(2) assms(2)]
    serial_uf.batch_closure [OF assms(1) u(2)] u(1) v(1)
  show ?thesis by (auto simp: uf_rel_ker)
qed

theorem unions_confluent_witness:
  "\<exists>u v. uf_unions uf_default [(1, 2), (0, 2)] = Some (Ok u) \<and>
         uf_unions uf_default [(0, 2), (1, 2), (0, 2)] = Some (Ok v) \<and> uf_rep u = uf_rep v"
  using unions_confluent [of uf_default "[(1, 2), (0, 2)]" "[(0, 2), (1, 2), (0, 2)]"] by auto

end
