(* ===== verification/ConcurrentUnionFind.thy ===== *)
theory ConcurrentUnionFind
  imports UnionFind "HOL-Library.Multiset"
begin

text \<open>
  The lock-free union of \<open>egglog/union-find/src/concurrent/uf.rs\<close> on a fixed-capacity parent
  slice, as \<open>UnionFind::with_atomic_access\<close> hands it to the workers of a parallel merge.
  Every atomic access is one step of a transition system, and the steps of all operations
  interleave freely.  Loads are relaxed: a load may return any value the cell has held, so
  the theorems do not assume sequential consistency.
\<close>

section \<open>Model\<close>

text \<open>A cell is its history of values, newest first; a compare-exchange acts on the newest.\<close>

type_synonym cells = "nat list list"

definition latest :: "cells \<Rightarrow> nat list" where
  "latest m = map hd m"

datatype side = SideL | SideR

text \<open>
  The program counter of one \<open>merge_impl_with_order\<close> call.  \<open>LoadNext\<close>, \<open>LoadGrand\<close> and
  \<open>CasSplit\<close> are the accesses of \<open>find_impl_with_order\<close>, run first for the left and then for
  the right operand; \<open>Link\<close> is the comparison and the linking compare-exchange.
\<close>

datatype pc =
    LoadNext side nat
  | LoadGrand side nat nat
  | CasSplit side nat nat nat
  | Link
  | Return nat nat
  | Panicked

record union_op =
  arg_l :: nat
  arg_r :: nat
  cur_l :: nat
  cur_r :: nat
  pc :: pc

record cstate =
  cells :: cells
  ops :: "union_op list"

text \<open>The call asserts that both operands are inside the slice before it starts its loop.\<close>

definition start_op :: "nat \<Rightarrow> nat \<times> nat \<Rightarrow> union_op" where
  "start_op n = (\<lambda>(l, r). \<lparr>arg_l = l, arg_r = r, cur_l = l, cur_r = r,
     pc = (if max l r < n then LoadNext SideL l else Panicked)\<rparr>)"

definition start_state :: "nat list \<Rightarrow> (nat \<times> nat) list \<Rightarrow> cstate" where
  "start_state ps reqs =
     \<lparr>cells = map (\<lambda>v. [v]) ps, ops = map (start_op (length ps)) reqs\<rparr>"

text \<open>\<open>find\<close> returned \<open>r\<close> for one operand.\<close>

definition find_returns :: "side \<Rightarrow> nat \<Rightarrow> union_op \<Rightarrow> union_op" where
  "find_returns s r x =
     (case s of
        SideL \<Rightarrow> x\<lparr>cur_l := r, pc := LoadNext SideR (cur_r x)\<rparr>
      | SideR \<Rightarrow> x\<lparr>cur_r := r, pc := Link\<rparr>)"

definition set_op :: "nat \<Rightarrow> union_op \<Rightarrow> cstate \<Rightarrow> cstate" where
  "set_op t x \<sigma> = \<sigma>\<lparr>ops := (ops \<sigma>)[t := x]\<rparr>"

definition store_cell :: "nat \<Rightarrow> nat \<Rightarrow> cstate \<Rightarrow> cstate" where
  "store_cell i v \<sigma> = \<sigma>\<lparr>cells := (cells \<sigma>)[i := v # cells \<sigma> ! i]\<rparr>"

inductive cstep :: "cstate \<Rightarrow> cstate \<Rightarrow> bool" where
  load_next:
    "t < length (ops \<sigma>) \<Longrightarrow> x = ops \<sigma> ! t \<Longrightarrow> pc x = LoadNext s cur \<Longrightarrow> v \<in> set (cells \<sigma> ! cur) \<Longrightarrow>
     cstep \<sigma> (set_op t (x\<lparr>pc := LoadGrand s cur v\<rparr>) \<sigma>)"
| load_grand_root:
    "t < length (ops \<sigma>) \<Longrightarrow> x = ops \<sigma> ! t \<Longrightarrow> pc x = LoadGrand s cur nxt \<Longrightarrow> nxt \<in> set (cells \<sigma> ! nxt) \<Longrightarrow>
     cstep \<sigma> (set_op t (find_returns s nxt x) \<sigma>)"
| load_grand_up:
    "t < length (ops \<sigma>) \<Longrightarrow> x = ops \<sigma> ! t \<Longrightarrow> pc x = LoadGrand s cur nxt \<Longrightarrow> v \<in> set (cells \<sigma> ! nxt) \<Longrightarrow>
     v \<noteq> nxt \<Longrightarrow> cstep \<sigma> (set_op t (x\<lparr>pc := CasSplit s cur nxt v\<rparr>) \<sigma>)"
| split_succeeds:
    "t < length (ops \<sigma>) \<Longrightarrow> x = ops \<sigma> ! t \<Longrightarrow> pc x = CasSplit s cur nxt grand \<Longrightarrow>
     hd (cells \<sigma> ! cur) = nxt \<Longrightarrow>
     cstep \<sigma> (set_op t (x\<lparr>pc := LoadNext s nxt\<rparr>) (store_cell cur grand \<sigma>))"
| split_fails:
    "t < length (ops \<sigma>) \<Longrightarrow> x = ops \<sigma> ! t \<Longrightarrow> pc x = CasSplit s cur nxt grand \<Longrightarrow>
     v \<in> set (cells \<sigma> ! cur) \<Longrightarrow> v \<noteq> nxt \<Longrightarrow>
     cstep \<sigma> (set_op t (x\<lparr>pc := LoadNext s nxt\<rparr>) \<sigma>)"
| link_same:
    "t < length (ops \<sigma>) \<Longrightarrow> x = ops \<sigma> ! t \<Longrightarrow> pc x = Link \<Longrightarrow> cur_l x = cur_r x \<Longrightarrow>
     cstep \<sigma> (set_op t (x\<lparr>pc := Return (cur_l x) (cur_l x)\<rparr>) \<sigma>)"
| link_succeeds:
    "t < length (ops \<sigma>) \<Longrightarrow> x = ops \<sigma> ! t \<Longrightarrow> pc x = Link \<Longrightarrow> cur_l x \<noteq> cur_r x \<Longrightarrow>
     parent = min (cur_l x) (cur_r x) \<Longrightarrow> child = max (cur_l x) (cur_r x) \<Longrightarrow>
     hd (cells \<sigma> ! child) = child \<Longrightarrow>
     cstep \<sigma> (set_op t (x\<lparr>pc := Return parent child\<rparr>) (store_cell child parent \<sigma>))"
| link_fails:
    "t < length (ops \<sigma>) \<Longrightarrow> x = ops \<sigma> ! t \<Longrightarrow> pc x = Link \<Longrightarrow> cur_l x \<noteq> cur_r x \<Longrightarrow>
     child = max (cur_l x) (cur_r x) \<Longrightarrow> v \<in> set (cells \<sigma> ! child) \<Longrightarrow> v \<noteq> child \<Longrightarrow>
     cstep \<sigma> (set_op t (x\<lparr>pc := LoadNext SideL (cur_l x)\<rparr>) \<sigma>)"

inductive creach :: "cstate \<Rightarrow> cstate \<Rightarrow> bool" for \<sigma>\<^sub>0 :: cstate where
  creach_refl: "creach \<sigma>\<^sub>0 \<sigma>\<^sub>0"
| creach_step: "creach \<sigma>\<^sub>0 \<sigma> \<Longrightarrow> cstep \<sigma> \<tau> \<Longrightarrow> creach \<sigma>\<^sub>0 \<tau>"

definition all_returned :: "cstate \<Rightarrow> bool" where
  "all_returned \<sigma> = list_all (\<lambda>x. case pc x of Return p c \<Rightarrow> True | _ \<Rightarrow> False) (ops \<sigma>)"

text \<open>The children of the successful links, which the caller publishes as displaced.\<close>

definition linked_child :: "union_op \<Rightarrow> nat list" where
  "linked_child x = (case pc x of Return p c \<Rightarrow> (if p \<noteq> c then [c] else []) | _ \<Rightarrow> [])"

definition returned_children :: "cstate \<Rightarrow> nat list" where
  "returned_children \<sigma> = concat (map linked_child (ops \<sigma>))"

section \<open>Invariants\<close>

abbreviation crep :: "cells \<Rightarrow> nat \<Rightarrow> nat" where
  "crep m \<equiv> root (latest m)"

text \<open>Every value a cell has held is a smaller or equal member of the cell's class.\<close>

definition mem_ok :: "cells \<Rightarrow> bool" where
  "mem_ok m \<longleftrightarrow> (\<forall>i < length m. m ! i \<noteq> [] \<and> (\<forall>v \<in> set (m ! i). v \<le> i \<and> crep m v = crep m i))"

definition side_val :: "side \<Rightarrow> union_op \<Rightarrow> nat" where
  "side_val s x = (case s of SideL \<Rightarrow> cur_l x | SideR \<Rightarrow> cur_r x)"

fun pc_ok :: "cells \<Rightarrow> union_op \<Rightarrow> pc \<Rightarrow> bool" where
  "pc_ok m x (LoadNext s cur) \<longleftrightarrow> cur < length m \<and> crep m cur = crep m (side_val s x)"
| "pc_ok m x (LoadGrand s cur nxt) \<longleftrightarrow>
     cur < length m \<and> nxt \<le> cur \<and> crep m cur = crep m (side_val s x) \<and> crep m nxt = crep m cur"
| "pc_ok m x (CasSplit s cur nxt grand) \<longleftrightarrow>
     cur < length m \<and> nxt \<le> cur \<and> grand < nxt \<and> crep m cur = crep m (side_val s x) \<and>
     crep m nxt = crep m cur \<and> crep m grand = crep m cur"
| "pc_ok m x Link \<longleftrightarrow> True"
| "pc_ok m x (Return p c) \<longleftrightarrow>
     crep m (arg_l x) = crep m (arg_r x) \<and> (p \<noteq> c \<longrightarrow> p < c \<and> c < length m \<and> hd (m ! c) < c)"
| "pc_ok m x Panicked \<longleftrightarrow> False"

definition op_ok :: "cells \<Rightarrow> union_op \<Rightarrow> bool" where
  "op_ok m x \<longleftrightarrow>
     cur_l x < length m \<and> cur_r x < length m \<and> crep m (cur_l x) = crep m (arg_l x) \<and>
     crep m (cur_r x) = crep m (arg_r x) \<and> pc_ok m x (pc x)"


text \<open>How the memory may evolve: classes only grow together, and a link is never undone.\<close>

definition grows :: "cells \<Rightarrow> cells \<Rightarrow> bool" where
  "grows m m' \<longleftrightarrow> length m' = length m \<and> ker (crep m) \<subseteq> ker (crep m') \<and>
     (\<forall>c < length m. hd (m ! c) < c \<longrightarrow> hd (m' ! c) < c)"

lemma grows_refl [simp]: "grows m m"
  by (simp add: grows_def)

lemma growsD: "grows m m' \<Longrightarrow> crep m x = crep m y \<Longrightarrow> crep m' x = crep m' y"
  by (auto simp: grows_def ker_def)

lemma latest_simps [simp]:
  "length (latest m) = length m"
  "i < length m \<Longrightarrow> latest m ! i = hd (m ! i)"
  "latest (m[i := v # h]) = (latest m)[i := v]"
  by (simp_all add: latest_def map_update)

lemma mem_ok_links_down: "mem_ok m \<Longrightarrow> links_down (latest m)"
  by (auto simp: mem_ok_def links_down_def)

lemma mem_okD:
  assumes "mem_ok m" "i < length m"
  shows "m ! i \<noteq> []" "v \<in> set (m ! i) \<Longrightarrow> v \<le> i" "v \<in> set (m ! i) \<Longrightarrow> crep m v = crep m i"
  using assms by (auto simp: mem_ok_def)

lemma op_ok_grows:
  assumes "op_ok m x" "grows m m'"
  shows "op_ok m' x"
proof -
  have "length m' = length m" "\<And>c. c < length m \<Longrightarrow> hd (m ! c) < c \<Longrightarrow> hd (m' ! c) < c"
    using assms(2) by (auto simp: grows_def)
  with assms(1) show ?thesis
    by (cases "pc x") (auto simp: op_ok_def intro!: growsD [OF assms(2)])
qed

lemma mem_ok_push:
  assumes "mem_ok m" "i < length m" "v \<le> i" "grows m (m[i := v # m ! i])"
    "crep (m[i := v # m ! i]) v = crep (m[i := v # m ! i]) i"
  shows "mem_ok (m[i := v # m ! i])"
proof -
  let ?m = "m[i := v # m ! i]"
  have "?m ! j \<noteq> [] \<and> (\<forall>w \<in> set (?m ! j). w \<le> j \<and> crep ?m w = crep ?m j)" if "j < length m" for j
  proof (intro conjI ballI)
    show "?m ! j \<noteq> []" using that assms(1) by (auto simp: nth_list_update_if mem_ok_def)
    fix w assume w: "w \<in> set (?m ! j)"
    show "w \<le> j" "crep ?m w = crep ?m j"
    proof (atomize (full), cases "j = i \<and> w = v")
      case True
      with assms(3,5) show "w \<le> j \<and> crep ?m w = crep ?m j" by simp
    next
      case False
      with w that have "w \<in> set (m ! j)" by (auto simp: nth_list_update_if split: if_splits)
      with mem_okD [OF assms(1) that] growsD [OF assms(4)] show "w \<le> j \<and> crep ?m w = crep ?m j"
        by blast
    qed
  qed
  then show ?thesis by (simp add: mem_ok_def)
qed

text \<open>Path splitting is invisible.\<close>

lemma split_cell:
  assumes "mem_ok m" "i < length m" "v < i" "crep m v = crep m i"
  defines "m' \<equiv> m[i := v # m ! i]"
  shows "mem_ok m'" "grows m m'" "crep m' = crep m"
proof -
  show same: "crep m' = crep m"
    using root_compress [OF mem_ok_links_down, of m i v] assms by (auto simp: m'_def)
  then show grows: "grows m m'"
    using assms(3) by (auto simp: m'_def grows_def nth_list_update_if)
  from mem_ok_push [OF assms(1,2)] grows same assms(3,4) show "mem_ok m'" by (simp add: m'_def)
qed

text \<open>A successful link moves the class of the child, and only that class.\<close>

lemma link_cell:
  assumes "mem_ok m" "c < length m" "p < c" "hd (m ! c) = c"
  defines "m' \<equiv> m[c := p # m ! c]"
  shows "mem_ok m'" "grows m m'" "crep m' x = (if crep m x = c then crep m p else crep m x)"
proof -
  show R: "crep m' x = (if crep m x = c then crep m p else crep m x)" for x
    using root_link_below [OF mem_ok_links_down, of m c p x] assms by (simp add: m'_def)
  show grows: "grows m m'"
  proof -
    have "ker (crep m) \<subseteq> ker (crep m')" by (auto simp: ker_def R)
    moreover have "\<forall>i < length m. hd (m ! i) < i \<longrightarrow> hd (m' ! i) < i"
      using assms(3) by (simp add: m'_def nth_list_update_if)
    ultimately show ?thesis by (simp add: grows_def m'_def)
  qed
  have "crep m c = c" using assms by (intro root_self) auto
  moreover from this have "crep m p \<noteq> c" using root_le [of "latest m" p] assms(3) by auto
  ultimately have "crep m' p = crep m' c" by (simp add: R)
  with mem_ok_push [OF assms(1,2)] grows assms(3) show "mem_ok m'" by (simp add: m'_def)
qed

section \<open>The invariant of the interleaving\<close>

text \<open>The ids that were representatives at the start and are none any more.\<close>

definition lost_roots :: "nat list \<Rightarrow> cells \<Rightarrow> nat set" where
  "lost_roots ps m = {c. c < length ps \<and> root ps c = c \<and> crep m c \<noteq> c}"

definition conc_inv :: "nat list \<Rightarrow> (nat \<times> nat) list \<Rightarrow> cstate \<Rightarrow> bool" where
  "conc_inv ps reqs \<sigma> \<longleftrightarrow>
     length (cells \<sigma>) = length ps \<and> mem_ok (cells \<sigma>) \<and>
     map (\<lambda>x. (arg_l x, arg_r x)) (ops \<sigma>) = reqs \<and>
     (\<forall>x \<in> set (ops \<sigma>). op_ok (cells \<sigma>) x) \<and>
     ker (root ps) \<subseteq> ker (crep (cells \<sigma>)) \<and>
     ker (crep (cells \<sigma>)) \<subseteq> eq_closure (ker (root ps) \<union> set reqs) \<and>
     distinct (returned_children \<sigma>) \<and>
     set (returned_children \<sigma>) = lost_roots ps (cells \<sigma>)"

lemma mset_concat_update:
  assumes "t < length xs" "f (xs ! t) = []"
  shows "mset (concat (map f (xs[t := y]))) = mset (f y @ concat (map f xs))"
proof -
  have "concat (map f xs) = concat (map f (take t xs)) @ f (xs ! t) @ concat (map f (drop (Suc t) xs))"
    by (subst id_take_nth_drop [OF assms(1)]) simp
  then show ?thesis using assms by (simp add: upd_conv_take_nth_drop)
qed

lemma returned_children_update:
  assumes "t < length (ops \<sigma>)" "linked_child (ops \<sigma> ! t) = []"
  shows "mset (returned_children (set_op t x \<sigma>)) = mset (linked_child x @ returned_children \<sigma>)"
  using mset_concat_update [of t "ops \<sigma>" linked_child x] assms by (simp add: returned_children_def set_op_def)

lemma store_cell_sel [simp]:
  "cells (store_cell i v \<sigma>) = (cells \<sigma>)[i := v # cells \<sigma> ! i]"
  "ops (store_cell i v \<sigma>) = ops \<sigma>"
  "cells (set_op t x \<sigma>) = cells \<sigma>"
  "ops (set_op t x \<sigma>) = (ops \<sigma>)[t := x]"
  "returned_children (store_cell i v \<sigma>) = returned_children \<sigma>"
  by (simp_all add: store_cell_def set_op_def returned_children_def)

text \<open>One operation moves on while the memory evolves; what is left to show is about the memory.\<close>

lemma conc_inv_move:
  assumes inv: "conc_inv ps reqs \<sigma>" and t: "t < length (ops \<sigma>)" "x = ops \<sigma> ! t"
    and quiet: "linked_child x = []"
    and mem: "ops \<tau> = ops \<sigma>" "mem_ok (cells \<tau>)" "grows (cells \<sigma>) (cells \<tau>)"
    and x': "op_ok (cells \<tau>) x'" "arg_l x' = arg_l x" "arg_r x' = arg_r x"
    and upper: "ker (crep (cells \<tau>)) \<subseteq> eq_closure (ker (root ps) \<union> set reqs)"
    and lost: "lost_roots ps (cells \<tau>) = lost_roots ps (cells \<sigma>) \<union> set (linked_child x')"
    and fresh: "distinct (linked_child x')" "set (linked_child x') \<inter> lost_roots ps (cells \<sigma>) = {}"
  shows "conc_inv ps reqs (set_op t x' \<tau>)"
proof -
  let ?R = "returned_children"
  have ms: "mset (?R (set_op t x' \<tau>)) = mset (linked_child x' @ ?R \<sigma>)"
    using returned_children_update [of t \<tau> x'] t quiet mem(1) by (simp add: returned_children_def)
  have "distinct (?R (set_op t x' \<tau>)) \<longleftrightarrow> distinct (linked_child x' @ ?R \<sigma>)"
    using ms by (rule mset_eq_imp_distinct_iff)
  moreover have "set (?R (set_op t x' \<tau>)) = set (linked_child x' @ ?R \<sigma>)"
    using ms by (rule mset_eq_setD)
  moreover have "map (\<lambda>x. (arg_l x, arg_r x)) ((ops \<sigma>)[t := x']) = map (\<lambda>x. (arg_l x, arg_r x)) (ops \<sigma>)"
    using t x'(2,3) by (simp add: map_update list_update_same_conv)
  moreover have "\<forall>y \<in> set ((ops \<sigma>)[t := x']). op_ok (cells \<tau>) y"
    using inv x'(1) mem(3) set_update_subset_insert [of "ops \<sigma>" t x']
    by (auto simp: conc_inv_def intro: op_ok_grows)
  ultimately show ?thesis
    using inv mem upper lost fresh by (auto simp: conc_inv_def grows_def)
qed

text \<open>A step that only reads.\<close>

lemma conc_inv_local:
  assumes "conc_inv ps reqs \<sigma>" "t < length (ops \<sigma>)" "x = ops \<sigma> ! t" "linked_child x = []"
    "op_ok (cells \<sigma>) x'" "arg_l x' = arg_l x" "arg_r x' = arg_r x" "linked_child x' = []"
  shows "conc_inv ps reqs (set_op t x' \<sigma>)"
  using assms by (intro conc_inv_move [of ps reqs \<sigma> t x \<sigma> x']) (auto simp: conc_inv_def)

text \<open>A step that splits a path.\<close>

lemma conc_inv_split:
  assumes inv: "conc_inv ps reqs \<sigma>" and t: "t < length (ops \<sigma>)" "x = ops \<sigma> ! t"
    and pc: "pc x = CasSplit s cur nxt grand"
  shows "conc_inv ps reqs (set_op t (x\<lparr>pc := LoadNext s nxt\<rparr>) (store_cell cur grand \<sigma>))"
proof -
  let ?m = "cells \<sigma>"
  from inv t have ok: "op_ok ?m x" and mem: "mem_ok ?m" by (auto simp: conc_inv_def)
  from ok pc have f: "cur < length ?m" "nxt \<le> cur" "grand < cur" "crep ?m grand = crep ?m cur"
    "crep ?m nxt = crep ?m (side_val s x)"
    by (auto simp: op_ok_def)
  note sp = split_cell [OF mem f(1) f(3) f(4)]
  have "op_ok (?m[cur := grand # ?m ! cur]) (x\<lparr>pc := LoadNext s nxt\<rparr>)"
    using op_ok_grows [OF ok sp(2)] f sp(3) by (auto simp: op_ok_def side_val_def split: side.splits)
  moreover have "lost_roots ps (?m[cur := grand # ?m ! cur]) = lost_roots ps ?m"
    unfolding lost_roots_def sp(3) ..
  moreover have "ker (crep (?m[cur := grand # ?m ! cur])) \<subseteq> eq_closure (ker (root ps) \<union> set reqs)"
    unfolding sp(3) using inv by (simp add: conc_inv_def)
  ultimately show ?thesis using inv t pc sp(1,2)
    by (intro conc_inv_move [of ps reqs \<sigma> t x]) (simp_all add: linked_child_def)
qed

text \<open>Linking: the new kernel, and the one representative it costs.\<close>

lemma link_kernel:
  assumes mem: "mem_ok m" "c < length m" "p < c" "hd (m ! c) = c" "(c, p) \<in> eq_closure S"
    "ker (crep m) \<subseteq> eq_closure S"
  shows "ker (crep (m[c := p # m ! c])) \<subseteq> eq_closure S"
proof (intro subrelI)
  fix x y assume xy: "(x, y) \<in> ker (crep (m[c := p # m ! c]))"
  note R = link_cell(3) [OF mem(1-4)]
  have near: "(z, crep (m[c := p # m ! c]) z) \<in> eq_closure S" for z
  proof -
    have z: "(z, crep m z) \<in> eq_closure S" "(p, crep m p) \<in> eq_closure S"
      using mem(6) by (auto simp: ker_def)
    with mem(5) show ?thesis
      by (auto simp: R simp del: latest_simps(3) intro: eq_closure_trans)
  qed
  from near [of x] near [of y] xy show "(x, y) \<in> eq_closure S"
    by (auto simp: ker_def intro: eq_closure_trans eq_closure_sym)
qed

lemma link_lost_roots:
  assumes mem: "mem_ok m" "c < length m" "p < c" "hd (m ! c) = c"
    and ps: "length m = length ps" "ker (root ps) \<subseteq> ker (crep m)"
  shows "lost_roots ps (m[c := p # m ! c]) = insert c (lost_roots ps m)" "c \<notin> lost_roots ps m"
proof -
  note R = link_cell(3) [OF mem]
  have c: "crep m c = c" using mem by (intro root_self) auto
  then show "c \<notin> lost_roots ps m" by (simp add: lost_roots_def)
  have "(root ps c, c) \<in> ker (crep m)" by (rule subsetD [OF ps(2)]) (simp add: ker_def)
  with c have "crep m (root ps c) = c" by (simp add: ker_def)
  then have rc: "root ps c = c" using root_le [of "latest m" "root ps c"] root_le [of ps c] by simp
  have "crep m p < c" using root_le [of "latest m" p] mem(3) by simp
  then have "crep (m[c := p # m ! c]) y \<noteq> y \<longleftrightarrow> y = c \<or> crep m y \<noteq> y" for y
    using R [of y] c root_le [of "latest m" y] root_le [of "latest m" p] by auto
  then show "lost_roots ps (m[c := p # m ! c]) = insert c (lost_roots ps m)"
    using mem(2) rc ps(1) by (auto simp: lost_roots_def)
qed

lemma conc_inv_link:
  assumes inv: "conc_inv ps reqs \<sigma>" and t: "t < length (ops \<sigma>)" "x = ops \<sigma> ! t"
    and pc: "pc x = Link" "cur_l x \<noteq> cur_r x"
    and pcs: "p = min (cur_l x) (cur_r x)" "c = max (cur_l x) (cur_r x)" "hd (cells \<sigma> ! c) = c"
  shows "conc_inv ps reqs (set_op t (x\<lparr>pc := Return p c\<rparr>) (store_cell c p \<sigma>))"
proof -
  let ?m = "cells \<sigma>" and ?m' = "(cells \<sigma>)[c := p # cells \<sigma> ! c]"
  let ?C = "eq_closure (ker (root ps) \<union> set reqs)"
  let ?x = "x\<lparr>pc := Return p c\<rparr>"
  from inv t have ok: "op_ok ?m x" and mem: "mem_ok ?m" and len: "length ?m = length ps"
    and ker: "ker (root ps) \<subseteq> ker (crep ?m)" "ker (crep ?m) \<subseteq> ?C"
    by (auto simp: conc_inv_def)
  from ok pcs pc have pc': "c < length ?m" "p < c" by (auto simp: op_ok_def min_def max_def)
  note lk = link_cell [OF mem pc' pcs(3)]
  have "(arg_l x, arg_r x) \<in> set reqs" using inv t by (auto simp: conc_inv_def)
  then have "(arg_l x, arg_r x) \<in> ?C" by (intro eq_closure_base) simp
  moreover have "(cur_l x, arg_l x) \<in> ?C" "(cur_r x, arg_r x) \<in> ?C"
    using ok ker(2) by (auto simp: op_ok_def ker_def)
  ultimately have lr: "(cur_l x, cur_r x) \<in> ?C"
    by (blast intro: eq_closure_trans eq_closure_sym)
  then have cp: "(c, p) \<in> ?C" using pcs by (auto simp: min_def max_def intro: eq_closure_sym)
  have c: "crep ?m c = c" using mem pc' pcs(3) by (intro root_self) auto
  have "crep ?m' c = crep ?m' p" using lk(3) [of c] lk(3) [of p] c by simp
  then have "crep ?m' (cur_l x) = crep ?m' (cur_r x)"
    using pcs(1,2) by (auto simp: min_def max_def split: if_splits)
  moreover have ok': "op_ok ?m' x" by (rule op_ok_grows [OF ok lk(2)])
  ultimately have "crep ?m' (arg_l x) = crep ?m' (arg_r x)" unfolding op_ok_def by metis
  with ok' pc' have okx: "op_ok ?m' ?x" by (auto simp: op_ok_def)
  note lost = link_lost_roots [OF mem pc' pcs(3) len ker(1)]
  have lc: "linked_child ?x = [c]" "linked_child x = []" using pc'(2) pc(1) by (simp_all add: linked_child_def)
  show ?thesis
  proof (rule conc_inv_move [OF inv t lc(2)])
    show "ker (crep (cells (store_cell c p \<sigma>))) \<subseteq> ?C"
      using link_kernel [OF mem pc' pcs(3) cp ker(2)] by simp
  qed (use lk(1,2) okx lost lc in simp_all)
qed

lemma linked_child_simps:
  "pc x = LoadNext s i \<Longrightarrow> linked_child x = []"
  "pc x = LoadGrand s i j \<Longrightarrow> linked_child x = []"
  "pc x = CasSplit s i j k \<Longrightarrow> linked_child x = []"
  "pc x = Link \<Longrightarrow> linked_child x = []"
  "linked_child (y\<lparr>pc := Return i i\<rparr>) = []"
  "linked_child (find_returns s i x) = []"
  by (simp_all add: linked_child_def find_returns_def split: side.splits)

lemma find_returns_args [simp]:
  "arg_l (find_returns s r x) = arg_l x" "arg_r (find_returns s r x) = arg_r x"
  by (simp_all add: find_returns_def split: side.splits)

lemma op_ok_reads:
  assumes "mem_ok m" "op_ok m x"
  shows
    "pc x = LoadNext s cur \<Longrightarrow> v \<in> set (m ! cur) \<Longrightarrow> op_ok m (x\<lparr>pc := LoadGrand s cur v\<rparr>)"
    "pc x = LoadGrand s cur nxt \<Longrightarrow> op_ok m (find_returns s nxt x)"
    "pc x = LoadGrand s cur nxt \<Longrightarrow> v \<in> set (m ! nxt) \<Longrightarrow> v \<noteq> nxt \<Longrightarrow>
       op_ok m (x\<lparr>pc := CasSplit s cur nxt v\<rparr>)"
    "pc x = CasSplit s cur nxt grand \<Longrightarrow> op_ok m (x\<lparr>pc := LoadNext s nxt\<rparr>)"
    "pc x = Link \<Longrightarrow> cur_l x = cur_r x \<Longrightarrow> op_ok m (x\<lparr>pc := Return i i\<rparr>)"
    "pc x = Link \<Longrightarrow> op_ok m (x\<lparr>pc := LoadNext SideL (cur_l x)\<rparr>)"
proof -
  note mem = mem_okD(2,3) [OF assms(1)]
  show "op_ok m (x\<lparr>pc := LoadGrand s cur v\<rparr>)" if "pc x = LoadNext s cur" "v \<in> set (m ! cur)"
    using that assms(2) mem [of cur v] by (auto simp: op_ok_def side_val_def split: side.splits)
  show "op_ok m (find_returns s nxt x)" if "pc x = LoadGrand s cur nxt"
    using that assms(2) by (cases s) (auto simp: op_ok_def side_val_def find_returns_def)
  show "op_ok m (x\<lparr>pc := CasSplit s cur nxt v\<rparr>)"
    if "pc x = LoadGrand s cur nxt" "v \<in> set (m ! nxt)" "v \<noteq> nxt"
    using that assms(2) mem [of nxt v] by (auto simp: op_ok_def side_val_def split: side.splits)
  show "op_ok m (x\<lparr>pc := LoadNext s nxt\<rparr>)" if "pc x = CasSplit s cur nxt grand"
    using that assms(2) by (auto simp: op_ok_def side_val_def split: side.splits)
qed (use assms(2) in \<open>auto simp: op_ok_def side_val_def\<close>)

lemma conc_inv_step: "cstep \<sigma> \<tau> \<Longrightarrow> conc_inv ps reqs \<sigma> \<Longrightarrow> conc_inv ps reqs \<tau>"
proof (induction rule: cstep.induct)
  case (split_succeeds t \<sigma> x s cur nxt grand)
  then show ?case by (intro conc_inv_split)
next
  case (link_succeeds t \<sigma> x parent child)
  then show ?case by (intro conc_inv_link)
qed (rule conc_inv_local; auto simp: linked_child_simps conc_inv_def intro: op_ok_reads; fail)+

lemma conc_inv_start:
  assumes "links_down ps" "\<forall>(l, r) \<in> set reqs. max l r < length ps"
  shows "conc_inv ps reqs (start_state ps reqs)"
proof -
  have latest: "latest (map (\<lambda>v. [v]) ps) = ps" by (simp add: latest_def comp_def)
  have "linked_child (start_op n p) = []" for n p
    by (cases p) (simp add: linked_child_def start_op_def)
  then have "returned_children (start_state ps reqs) = []"
    by (auto simp: returned_children_def start_state_def)
  with assms show ?thesis
    by (auto simp: conc_inv_def start_state_def mem_ok_def latest op_ok_def start_op_def
        side_val_def lost_roots_def root_step links_down_def intro: eq_closure_base intro!: map_idI)
qed

lemma conc_inv_reach:
  assumes "links_down ps" "\<forall>(l, r) \<in> set reqs. max l r < length ps" "creach (start_state ps reqs) \<sigma>"
  shows "conc_inv ps reqs \<sigma>"
  using assms(3)
proof (induction rule: creach.induct)
  case creach_refl
  show ?case using assms(1,2) by (rule conc_inv_start)
next
  case (creach_step \<sigma> \<tau>)
  then show ?case by (blast intro: conc_inv_step)
qed

section \<open>The view borrowed from a serial union-find\<close>

text \<open>
  \<open>with_atomic_access\<close> reserves up to \<open>max_id\<close>, runs the unions of its workers on the borrowed
  slice and hands the slice back when all of them have returned.
\<close>

definition atomic_start :: "union_find \<Rightarrow> nat \<Rightarrow> (nat \<times> nat) list \<Rightarrow> cstate" where
  "atomic_start uf max_id reqs = start_state (parents (uf_reserve uf max_id)) reqs"

definition atomic_finish :: "union_find \<Rightarrow> cstate \<Rightarrow> union_find" where
  "atomic_finish uf \<sigma> = uf\<lparr>parents := latest (cells \<sigma>)\<rparr>"

lemma atomic_inv:
  assumes "uf_wf uf" "\<forall>(l, r) \<in> set reqs. max l r \<le> max_id" "creach (atomic_start uf max_id reqs) \<sigma>"
  shows "conc_inv (parents (uf_reserve uf max_id)) reqs \<sigma>"
  using uf_reserve_props(1,3) [OF assms(1), of max_id] assms(2,3)
  by (intro conc_inv_reach) (auto simp: atomic_start_def uf_wf_links_down)

lemma atomic_rep: "uf_rep (atomic_finish uf \<sigma>) = crep (cells \<sigma>)"
  by (auto simp: uf_rep_def atomic_finish_def)

lemma reserve_root: "uf_wf uf \<Longrightarrow> root (parents (uf_reserve uf v)) = uf_rep uf"
  using uf_reserve_props(2) [of uf v] by (auto simp: uf_rep_def)

lemma all_returned_iff: "all_returned \<sigma> \<longleftrightarrow> (\<forall>x \<in> set (ops \<sigma>). \<exists>p c. pc x = Return p c)"
proof -
  have "(case q of Return p c \<Rightarrow> True | _ \<Rightarrow> False) \<longleftrightarrow> (\<exists>p c. q = Return p c)" for q
    by (cases q) simp_all
  then show ?thesis by (simp add: all_returned_def list_all_iff)
qed

lemma conc_inv_returned:
  assumes "conc_inv ps reqs \<sigma>" "all_returned \<sigma>"
  shows "ker (crep (cells \<sigma>)) = eq_closure (ker (root ps) \<union> set reqs)"
proof
  show "ker (crep (cells \<sigma>)) \<subseteq> eq_closure (ker (root ps) \<union> set reqs)"
    using assms(1) by (simp add: conc_inv_def)
  have "set reqs \<subseteq> ker (crep (cells \<sigma>))"
  proof (intro subrelI)
    fix l r assume "(l, r) \<in> set reqs"
    then obtain x where x: "x \<in> set (ops \<sigma>)" "l = arg_l x" "r = arg_r x"
      using assms(1) by (auto simp: conc_inv_def)
    moreover from x assms obtain p c where "pc x = Return p c" "op_ok (cells \<sigma>) x"
      by (auto simp: all_returned_iff conc_inv_def)
    ultimately show "(l, r) \<in> ker (crep (cells \<sigma>))" by (simp add: op_ok_def ker_def)
  qed
  then show "eq_closure (ker (root ps) \<union> set reqs) \<subseteq> ker (crep (cells \<sigma>))"
    using assms(1) by (intro eq_closure_least equiv_ker) (auto simp: conc_inv_def)
qed

lemma lost_roots_rep:
  assumes "length m = length ps"
  shows "lost_roots ps m = {c. root ps c = c \<and> crep m c \<noteq> c}"
  using assms by (auto simp: lost_roots_def) (metis latest_simps(1) not_le root_beyond)

section \<open>Schedules\<close>

text \<open>
  The next access of operation \<open>t\<close> when its loads are up to date.  A list of operation numbers
  is a schedule, and running it is a way to execute the transition system.
\<close>

definition sched_step :: "nat \<Rightarrow> cstate \<Rightarrow> cstate" where
  "sched_step t \<sigma> =
     (if t < length (ops \<sigma>) then
        (let x = ops \<sigma> ! t; m = cells \<sigma> in
         case pc x of
           LoadNext s cur \<Rightarrow> set_op t (x\<lparr>pc := LoadGrand s cur (hd (m ! cur))\<rparr>) \<sigma>
         | LoadGrand s cur nxt \<Rightarrow>
             (if hd (m ! nxt) = nxt then set_op t (find_returns s nxt x) \<sigma>
              else set_op t (x\<lparr>pc := CasSplit s cur nxt (hd (m ! nxt))\<rparr>) \<sigma>)
         | CasSplit s cur nxt grand \<Rightarrow>
             set_op t (x\<lparr>pc := LoadNext s nxt\<rparr>)
               (if hd (m ! cur) = nxt then store_cell cur grand \<sigma> else \<sigma>)
         | Link \<Rightarrow>
             (let parent = min (cur_l x) (cur_r x); child = max (cur_l x) (cur_r x) in
              if cur_l x = cur_r x then set_op t (x\<lparr>pc := Return (cur_l x) (cur_l x)\<rparr>) \<sigma>
              else if hd (m ! child) = child
              then set_op t (x\<lparr>pc := Return parent child\<rparr>) (store_cell child parent \<sigma>)
              else set_op t (x\<lparr>pc := LoadNext SideL (cur_l x)\<rparr>) \<sigma>)
         | _ \<Rightarrow> \<sigma>)
      else \<sigma>)"

definition run_schedule :: "nat list \<Rightarrow> cstate \<Rightarrow> cstate" where
  "run_schedule ts \<sigma> = fold sched_step ts \<sigma>"

lemma sched_step_cstep:
  assumes inv: "conc_inv ps reqs \<sigma>" and t: "t < length (ops \<sigma>)" "\<nexists>p c. pc (ops \<sigma> ! t) = Return p c"
  shows "cstep \<sigma> (sched_step t \<sigma>)"
proof -
  define x where "x = ops \<sigma> ! t"
  from inv t have ok: "op_ok (cells \<sigma>) x" and mem: "mem_ok (cells \<sigma>)"
    by (auto simp: conc_inv_def x_def)
  have hd_in: "hd (cells \<sigma> ! i) \<in> set (cells \<sigma> ! i)" if "i < length (cells \<sigma>)" for i
    using mem_okD(1) [OF mem that] by simp
  note st = sched_step_def Let_def x_def [symmetric]
  show ?thesis
  proof (cases "pc x")
    case (LoadNext s cur)
    with ok have "cur < length (cells \<sigma>)" by (simp add: op_ok_def)
    from cstep.load_next [OF t(1) x_def LoadNext hd_in [OF this]] LoadNext t(1) show ?thesis
      by (simp add: st)
  next
    case (LoadGrand s cur nxt)
    with ok have "nxt < length (cells \<sigma>)" by (simp add: op_ok_def)
    from hd_in [OF this] cstep.load_grand_root [OF t(1) x_def LoadGrand]
      cstep.load_grand_up [OF t(1) x_def LoadGrand] LoadGrand t(1)
    show ?thesis by (auto simp: st)
  next
    case (CasSplit s cur nxt grand)
    with ok have "cur < length (cells \<sigma>)" by (simp add: op_ok_def)
    from hd_in [OF this] cstep.split_succeeds [OF t(1) x_def CasSplit]
      cstep.split_fails [OF t(1) x_def CasSplit] CasSplit t(1)
    show ?thesis by (auto simp: st)
  next
    case Link
    let ?c = "max (cur_l x) (cur_r x)"
    from ok have "?c < length (cells \<sigma>)" by (simp add: op_ok_def)
    from hd_in [OF this] cstep.link_same [OF t(1) x_def Link]
      cstep.link_succeeds [OF t(1) x_def Link _ refl refl] cstep.link_fails [OF t(1) x_def Link _ refl]
      Link t(1)
    show ?thesis by (auto simp: st)
  next
    case (Return p c)
    with t(2) show ?thesis by (simp add: x_def)
  next
    case Panicked
    with ok show ?thesis by (simp add: op_ok_def)
  qed
qed

lemma sched_step_stutter: "\<exists>p c. pc (ops \<sigma> ! t) = Return p c \<Longrightarrow> sched_step t \<sigma> = \<sigma>"
  by (auto simp: sched_step_def Let_def)

lemma run_schedule_reach:
  assumes "creach \<sigma>\<^sub>0 \<sigma>" "conc_inv ps reqs \<sigma>"
  shows "creach \<sigma>\<^sub>0 (run_schedule ts \<sigma>)"
  using assms
proof (induction ts arbitrary: \<sigma>)
  case (Cons t ts)
  have "creach \<sigma>\<^sub>0 (sched_step t \<sigma>) \<and> conc_inv ps reqs (sched_step t \<sigma>)"
  proof (cases "t < length (ops \<sigma>) \<and> (\<nexists>p c. pc (ops \<sigma> ! t) = Return p c)")
    case True
    with Cons.prems show ?thesis
      by (blast intro: sched_step_cstep conc_inv_step creach_step)
  next
    case False
    then have "sched_step t \<sigma> = \<sigma>" by (cases "t < length (ops \<sigma>)")
      (simp add: sched_step_stutter, simp add: sched_step_def)
    with Cons.prems show ?thesis by simp
  qed
  with Cons.IH [of "sched_step t \<sigma>"] show ?case by (simp add: run_schedule_def)
qed (simp add: run_schedule_def)

lemma atomic_schedule_reach:
  assumes "uf_wf uf" "\<forall>(l, r) \<in> set reqs. max l r \<le> max_id"
  shows "creach (atomic_start uf max_id reqs) (run_schedule ts (atomic_start uf max_id reqs))"
  using atomic_inv [OF assms creach_refl] by (intro run_schedule_reach creach_refl)

lemma cstep_progress:
  assumes inv: "conc_inv ps reqs \<sigma>" and open_op: "\<not> all_returned \<sigma>"
  shows "\<exists>\<tau>. cstep \<sigma> \<tau>"
proof -
  obtain t where "t < length (ops \<sigma>)" "\<nexists>p c. pc (ops \<sigma> ! t) = Return p c"
    using open_op by (auto simp: all_returned_iff in_set_conv_nth)
  from sched_step_cstep [OF inv this] show ?thesis ..
qed

section \<open>The outcome of a parallel phase\<close>

lemma parallel_unions_outcome:
  assumes "uf_wf uf" "\<forall>(l, r) \<in> set reqs. max l r \<le> max_id"
    and "creach (atomic_start uf max_id reqs) \<sigma>" "all_returned \<sigma>"
  shows "uf_wf (atomic_finish uf \<sigma>)
    \<and> uf_rel (atomic_finish uf \<sigma>) = eq_closure (uf_rel uf \<union> set reqs)
    \<and> (\<exists>v. uf_unions uf reqs = Some (Ok v) \<and> uf_rep (atomic_finish uf \<sigma>) = uf_rep v)
    \<and> distinct (returned_children \<sigma>)
    \<and> set (returned_children \<sigma>) = {c. uf_rep uf c = c \<and> uf_rep (atomic_finish uf \<sigma>) c \<noteq> c}"
proof -
  note inv = atomic_inv [OF assms(1-3)]
  have wf: "uf_wf (atomic_finish uf \<sigma>)"
    using inv by (simp add: uf_wf_links_down atomic_finish_def conc_inv_def mem_ok_links_down)
  have rel: "uf_rel (atomic_finish uf \<sigma>) = eq_closure (uf_rel uf \<union> set reqs)"
    using conc_inv_returned [OF inv assms(4)] by (simp add: uf_rel_ker atomic_rep reserve_root assms(1))
  obtain v where v: "uf_unions uf reqs = Some (Ok v)" "batch uf_step reqs uf v"
    using uf_unions_batch [OF assms(1)] by blast
  with serial_uf.batch_closure [OF assms(1)] rel
  have "ker (uf_rep (atomic_finish uf \<sigma>)) = ker (uf_rep v)" by (simp add: uf_rel_ker)
  then have "uf_rep (atomic_finish uf \<sigma>) = uf_rep v"
    by (intro canonical_ker_unique uf_rep_canonical)
  moreover have "set (returned_children \<sigma>) = {c. uf_rep uf c = c \<and> uf_rep (atomic_finish uf \<sigma>) c \<noteq> c}"
    using inv lost_roots_rep by (simp add: conc_inv_def atomic_rep reserve_root assms(1))
  ultimately show ?thesis using wf rel v inv by (auto simp: conc_inv_def)
qed

section \<open>Properties\<close>

text \<open>
  C13: Whatever the interleaving of the workers and however stale their relaxed loads, once all
  unions of a parallel phase have returned, the union-find that \<open>with_atomic_access\<close> hands back
  is well formed, its equivalence relation is the closure of the old one and the requested
  pairs, its representatives are exactly those the serial \<open>union\<close> calls compute, and the
  children reported by the workers are, each exactly once, the representatives that were lost.
\<close>

theorem parallel_unions_correct:
  assumes "uf_wf uf" "\<forall>(l, r) \<in> set reqs. max l r \<le> max_id"
    and "creach (atomic_start uf max_id reqs) \<sigma>" "all_returned \<sigma>"
  shows "uf_wf (atomic_finish uf \<sigma>)
    \<and> uf_rel (atomic_finish uf \<sigma>) = eq_closure (uf_rel uf \<union> set reqs)
    \<and> (\<exists>v. uf_unions uf reqs = Some (Ok v) \<and> uf_rep (atomic_finish uf \<sigma>) = uf_rep v)
    \<and> distinct (returned_children \<sigma>)
    \<and> set (returned_children \<sigma>) = {c. uf_rep uf c = c \<and> uf_rep (atomic_finish uf \<sigma>) c \<noteq> c}"
  using assms by (rule parallel_unions_outcome)

theorem parallel_unions_correct_witness:
  "uf_rel (atomic_finish uf_default
     (run_schedule [0,1,1,0,0,1,1,0,1,0,1,1,1,1,1,0,0,0,0,0,0,0,0,1,1] (atomic_start uf_default 2 [(0, 2), (2, 1)])))
   = eq_closure (uf_rel uf_default \<union> {(0, 2), (2, 1)})"
proof -
  let ?s = "atomic_start uf_default 2 [(0, 2), (2, 1)]"
  let ?r = "run_schedule [0,1,1,0,0,1,1,0,1,0,1,1,1,1,1,0,0,0,0,0,0,0,0,1,1] ?s"
  have "all_returned ?r" by code_simp
  moreover have "creach ?s ?r" by (rule atomic_schedule_reach) simp_all
  ultimately show ?thesis
    using parallel_unions_correct [of uf_default "[(0, 2), (2, 1)]" 2 ?r] by simp
qed

text \<open>
  C16: At every moment of a parallel phase, before the workers are done, no union has panicked (at
  the assertion on entry that the ids fit the slice, the only step of the model that can; that the
  accesses after it stay in the slice is part of its being well formed),
  the parent slice is well formed, it relates what was related before and nothing beyond the
  closure of the requests, and the operands of every union that has returned are in one class.
  Unless all unions have returned, some step is enabled.
\<close>

theorem parallel_unions_safe:
  assumes "uf_wf uf" "\<forall>(l, r) \<in> set reqs. max l r \<le> max_id"
    and "creach (atomic_start uf max_id reqs) \<sigma>"
  shows "(\<forall>x \<in> set (ops \<sigma>). pc x \<noteq> Panicked)
    \<and> uf_wf (atomic_finish uf \<sigma>)
    \<and> uf_rel uf \<subseteq> uf_rel (atomic_finish uf \<sigma>)
    \<and> uf_rel (atomic_finish uf \<sigma>) \<subseteq> eq_closure (uf_rel uf \<union> set reqs)
    \<and> (\<forall>x \<in> set (ops \<sigma>). \<forall>p c. pc x = Return p c \<longrightarrow> (arg_l x, arg_r x) \<in> uf_rel (atomic_finish uf \<sigma>))
    \<and> (all_returned \<sigma> \<or> (\<exists>\<tau>. cstep \<sigma> \<tau>))"
proof -
  note inv = atomic_inv [OF assms]
  have "\<forall>x \<in> set (ops \<sigma>). op_ok (cells \<sigma>) x" using inv by (simp add: conc_inv_def)
  then have "\<forall>x \<in> set (ops \<sigma>). pc x \<noteq> Panicked"
    "\<forall>x \<in> set (ops \<sigma>). \<forall>p c. pc x = Return p c \<longrightarrow> (arg_l x, arg_r x) \<in> uf_rel (atomic_finish uf \<sigma>)"
    by (auto simp: op_ok_def uf_rel_def atomic_rep)
  moreover have "uf_wf (atomic_finish uf \<sigma>)"
    using inv by (simp add: uf_wf_links_down atomic_finish_def conc_inv_def mem_ok_links_down)
  moreover have "uf_rel uf \<subseteq> uf_rel (atomic_finish uf \<sigma>)"
    "uf_rel (atomic_finish uf \<sigma>) \<subseteq> eq_closure (uf_rel uf \<union> set reqs)"
    using inv by (simp_all add: conc_inv_def uf_rel_ker atomic_rep reserve_root assms(1))
  moreover have "all_returned \<sigma> \<or> (\<exists>\<tau>. cstep \<sigma> \<tau>)" using cstep_progress [OF inv] by blast
  ultimately show ?thesis by blast
qed

theorem parallel_unions_safe_witness:
  "\<exists>\<tau>. cstep (run_schedule [0,1,1,0] (atomic_start uf_default 2 [(0, 2), (2, 1)])) \<tau>"
proof -
  let ?s = "atomic_start uf_default 2 [(0, 2), (2, 1)]"
  have "\<not> all_returned (run_schedule [0,1,1,0] ?s)" by code_simp
  moreover have "creach ?s (run_schedule [0,1,1,0] ?s)" by (rule atomic_schedule_reach) simp_all
  ultimately show ?thesis
    using parallel_unions_safe [of uf_default "[(0, 2), (2, 1)]" 2] by auto
qed

end
