(* ===== verification/NumericId.thy ===== *)
theory NumericId
  imports Prelude
begin

text \<open>
  The dense containers of \<open>egglog/numeric-id/src/lib.rs\<close>: \<open>DenseIdMap\<close> (a vector of optional
  values indexed by id), \<open>IdVec\<close> (a vector indexed by id) and \<open>DenseIdMapWithReuse\<close> (a dense
  map with a free list).  A key is a natural number and \<open>kmax\<close> is the largest index its integer
  type holds, so that \<open>from_usize\<close> and its overflow assertion are the only partial step of a
  push.  The maps are related to partial functions, and the three ways to allocate an id are
  shown to implement one contract, the locale \<open>slot_allocator\<close>.
\<close>

section \<open>Ids\<close>

text \<open>\<open>define_id!\<close>: the assertion of \<open>from_usize\<close>, and \<open>NumericId::inc\<close>.\<close>

definition from_usize :: "nat \<Rightarrow> nat \<Rightarrow> nat result" where
  "from_usize kmax i = (if i \<le> kmax then Ok i else Err IdOverflow)"

definition id_inc :: "nat \<Rightarrow> nat \<Rightarrow> nat result" where
  "id_inc kmax i = from_usize kmax (i + 1)"

definition id_range :: "nat \<Rightarrow> nat \<Rightarrow> nat list" where
  "id_range low high = [low..<high]"

lemma from_usize_eq_Ok_iff [simp]: "from_usize kmax i = Inr k \<longleftrightarrow> i \<le> kmax \<and> k = i"
  by (auto simp: from_usize_def)

section \<open>DenseIdMap\<close>

record 'v dense_id_map =
  map_data :: "'v option list"

definition dim_new :: "'v dense_id_map" where
  "dim_new = \<lparr>map_data = []\<rparr>"

definition dim_clear :: "'v dense_id_map \<Rightarrow> 'v dense_id_map" where
  "dim_clear d = d\<lparr>map_data := []\<rparr>"

definition dim_n_ids :: "'v dense_id_map \<Rightarrow> nat" where
  "dim_n_ids d = length (map_data d)"

definition dim_reserve_space :: "'v dense_id_map \<Rightarrow> nat \<Rightarrow> 'v dense_id_map" where
  "dim_reserve_space d key =
     (if length (map_data d) \<le> key
      then d\<lparr>map_data := map_data d @ replicate (key + 1 - length (map_data d)) None\<rparr>
      else d)"

definition dim_with_capacity :: "nat \<Rightarrow> nat \<Rightarrow> 'v dense_id_map result" where
  "dim_with_capacity kmax n =
     and_then (from_usize kmax (n - 1)) (\<lambda>k. Ok (dim_reserve_space dim_new k))"

text \<open>\<open>Option::replace\<close> returns the old value; the index cannot be out of range here.\<close>

definition dim_insert :: "'v dense_id_map \<Rightarrow> nat \<Rightarrow> 'v \<Rightarrow> ('v option \<times> 'v dense_id_map) result" where
  "dim_insert d key v =
     (let d = dim_reserve_space d key in
      and_then (vec_get (map_data d) key) (\<lambda>old.
      and_then (vec_set (map_data d) key (Some v)) (\<lambda>xs. Ok (old, d\<lparr>map_data := xs\<rparr>))))"

definition dim_next_id :: "nat \<Rightarrow> 'v dense_id_map \<Rightarrow> nat result" where
  "dim_next_id kmax d = from_usize kmax (length (map_data d))"

definition dim_push :: "nat \<Rightarrow> 'v dense_id_map \<Rightarrow> 'v \<Rightarrow> (nat \<times> 'v dense_id_map) result" where
  "dim_push kmax d v =
     and_then (dim_next_id kmax d) (\<lambda>k. Ok (k, d\<lparr>map_data := map_data d @ [Some v]\<rparr>))"

definition dim_get :: "'v dense_id_map \<Rightarrow> nat \<Rightarrow> 'v option" where
  "dim_get d key = Option.bind (get_opt (map_data d) key) (\<lambda>v. v)"

definition dim_contains_key :: "'v dense_id_map \<Rightarrow> nat \<Rightarrow> bool" where
  "dim_contains_key d key = (case get_opt (map_data d) key of None \<Rightarrow> False | Some v \<Rightarrow> v \<noteq> None)"

text \<open>\<open>get_mut\<close> grows the table before it looks; a write through the reference is \<open>f\<close>.\<close>

definition dim_get_mut :: "'v dense_id_map \<Rightarrow> nat \<Rightarrow> ('v \<Rightarrow> 'v) \<Rightarrow> 'v option \<times> 'v dense_id_map" where
  "dim_get_mut d key f =
     (let d = dim_reserve_space d key in
      case dim_get d key of
        None \<Rightarrow> (None, d)
      | Some v \<Rightarrow> (Some v, d\<lparr>map_data := (map_data d)[key := Some (f v)]\<rparr>))"

definition dim_take :: "'v dense_id_map \<Rightarrow> nat \<Rightarrow> ('v option \<times> 'v dense_id_map) result" where
  "dim_take d key =
     (let d = dim_reserve_space d key in
      and_then (ok_or (get_opt (map_data d) key) UnwrapNone) (\<lambda>old.
      Ok (old, d\<lparr>map_data := (map_data d)[key := None]\<rparr>)))"

definition dim_unwrap_val :: "'v dense_id_map \<Rightarrow> nat \<Rightarrow> ('v \<times> 'v dense_id_map) result" where
  "dim_unwrap_val d key =
     and_then (dim_take d key) (\<lambda>(old, d). and_then (ok_or old UnwrapNone) (\<lambda>v. Ok (v, d)))"

definition dim_get_or_insert :: "'v dense_id_map \<Rightarrow> nat \<Rightarrow> 'v \<Rightarrow> ('v \<times> 'v dense_id_map) result" where
  "dim_get_or_insert d key v =
     (let d = dim_reserve_space d key in
      and_then (vec_get (map_data d) key) (\<lambda>old.
        case old of
          Some w \<Rightarrow> Ok (w, d)
        | None \<Rightarrow> Ok (v, d\<lparr>map_data := (map_data d)[key := Some v]\<rparr>)))"

definition dim_iter :: "'v dense_id_map \<Rightarrow> (nat \<times> 'v) list" where
  "dim_iter d = List.map_filter (\<lambda>(i, v). map_option (Pair i) v) (enumerate 0 (map_data d))"

definition dim_drain :: "'v dense_id_map \<Rightarrow> (nat \<times> 'v) list \<times> 'v dense_id_map" where
  "dim_drain d = (dim_iter d, d\<lparr>map_data := []\<rparr>)"

definition dim_retain :: "'v dense_id_map \<Rightarrow> (nat \<Rightarrow> 'v \<Rightarrow> bool) \<Rightarrow> 'v dense_id_map" where
  "dim_retain d f =
     d\<lparr>map_data := map (\<lambda>(i, v). case v of Some w \<Rightarrow> (if f i w then v else None) | None \<Rightarrow> None)
        (enumerate 0 (map_data d))\<rparr>"

definition dim_len :: "'v dense_id_map \<Rightarrow> nat" where
  "dim_len d = length (filter (\<lambda>v. v \<noteq> None) (map_data d))"

definition dim_is_empty :: "'v dense_id_map \<Rightarrow> bool" where
  "dim_is_empty d = list_all (\<lambda>v. v = None) (map_data d)"

text \<open>The \<open>Index\<close> instance panics on an absent key.\<close>

definition dim_index :: "'v dense_id_map \<Rightarrow> nat \<Rightarrow> 'v result" where
  "dim_index d key = ok_or (dim_get d key) UnwrapNone"

fun dim_from_iter_loop :: "'v dense_id_map \<Rightarrow> (nat \<times> 'v) list \<Rightarrow> 'v dense_id_map result" where
  "dim_from_iter_loop d [] = Ok d"
| "dim_from_iter_loop d ((k, v) # kvs) =
     and_then (dim_insert d k v) (\<lambda>(_, d). dim_from_iter_loop d kvs)"

definition dim_from_iter :: "(nat \<times> 'v) list \<Rightarrow> 'v dense_id_map result" where
  "dim_from_iter kvs = dim_from_iter_loop dim_new kvs"

section \<open>DenseIdMapWithReuse\<close>

record 'v reuse_map =
  slots :: "'v dense_id_map"
  free :: "nat list"

definition rm_default :: "'v reuse_map" where
  "rm_default = \<lparr>slots = dim_new, free = []\<rparr>"

text \<open>The free list is a vector used as a stack: \<open>pop\<close> takes its last element.\<close>

definition rm_reserve_slot :: "nat \<Rightarrow> 'v reuse_map \<Rightarrow> (nat \<times> 'v reuse_map) result" where
  "rm_reserve_slot kmax d =
     (if free d \<noteq> [] then Ok (last (free d), d\<lparr>free := butlast (free d)\<rparr>)
      else and_then (dim_next_id kmax (slots d))
        (\<lambda>k. Ok (k, d\<lparr>slots := dim_reserve_space (slots d) k\<rparr>)))"

definition rm_insert :: "'v reuse_map \<Rightarrow> nat \<Rightarrow> 'v \<Rightarrow> ('v option \<times> 'v reuse_map) result" where
  "rm_insert d key v = and_then (dim_insert (slots d) key v) (\<lambda>(old, s). Ok (old, d\<lparr>slots := s\<rparr>))"

definition rm_push :: "nat \<Rightarrow> 'v reuse_map \<Rightarrow> 'v \<Rightarrow> (nat \<times> 'v reuse_map) result" where
  "rm_push kmax d v =
     and_then (rm_reserve_slot kmax d) (\<lambda>(k, d).
     and_then (rm_insert d k v) (\<lambda>(_, d). Ok (k, d)))"

definition rm_take :: "'v reuse_map \<Rightarrow> nat \<Rightarrow> ('v option \<times> 'v reuse_map) result" where
  "rm_take d key =
     and_then (dim_take (slots d) key) (\<lambda>(res, s).
     Ok (res, if res \<noteq> None then d\<lparr>slots := s, free := free d @ [key]\<rparr> else d\<lparr>slots := s\<rparr>))"

definition rm_index :: "'v reuse_map \<Rightarrow> nat \<Rightarrow> 'v result" where
  "rm_index d key = dim_index (slots d) key"

section \<open>IdVec\<close>

record 'v id_vec =
  vec_data :: "'v list"

definition iv_default :: "'v id_vec" where
  "iv_default = \<lparr>vec_data = []\<rparr>"

definition iv_push :: "nat \<Rightarrow> 'v id_vec \<Rightarrow> 'v \<Rightarrow> (nat \<times> 'v id_vec) result" where
  "iv_push kmax d v =
     and_then (from_usize kmax (length (vec_data d))) (\<lambda>k. Ok (k, d\<lparr>vec_data := vec_data d @ [v]\<rparr>))"

definition iv_get :: "'v id_vec \<Rightarrow> nat \<Rightarrow> 'v option" where
  "iv_get d key = get_opt (vec_data d) key"

definition iv_index :: "'v id_vec \<Rightarrow> nat \<Rightarrow> 'v result" where
  "iv_index d key = vec_get (vec_data d) key"

definition iv_set :: "'v id_vec \<Rightarrow> nat \<Rightarrow> 'v \<Rightarrow> 'v id_vec result" where
  "iv_set d key v = and_then (vec_set (vec_data d) key v) (\<lambda>xs. Ok (d\<lparr>vec_data := xs\<rparr>))"

definition iv_resize_with :: "'v id_vec \<Rightarrow> nat \<Rightarrow> 'v \<Rightarrow> 'v id_vec" where
  "iv_resize_with d n v =
     d\<lparr>vec_data := (if n \<le> length (vec_data d) then take n (vec_data d)
                   else vec_data d @ replicate (n - length (vec_data d)) v)\<rparr>"

definition iv_iter :: "'v id_vec \<Rightarrow> (nat \<times> 'v) list" where
  "iv_iter d = enumerate 0 (vec_data d)"

section \<open>A dense map is a partial function\<close>

lemma dim_get_reserve [simp]: "dim_get (dim_reserve_space d k) i = dim_get d i"
  by (auto simp: dim_get_def dim_reserve_space_def get_opt_def nth_append split: if_splits)

lemma length_reserve: "k < length (map_data (dim_reserve_space d k))"
  "length (map_data d) \<le> length (map_data (dim_reserve_space d k))"
  by (auto simp: dim_reserve_space_def)

lemma dim_get_nth: "i < length (map_data d) \<Longrightarrow> dim_get d i = map_data d ! i"
  by (simp add: dim_get_def get_opt_def)

lemma dim_get_beyond: "length (map_data d) \<le> i \<Longrightarrow> dim_get d i = None"
  by (simp add: dim_get_def get_opt_def)

lemma dim_get_update:
  "k < length (map_data d) \<Longrightarrow> dim_get (d\<lparr>map_data := (map_data d)[k := v]\<rparr>) = (dim_get d)(k := v)"
  by (auto simp: dim_get_def get_opt_def nth_list_update_if fun_eq_iff)

text \<open>The effect \<open>insert\<close>, \<open>take\<close> and \<open>get_or_insert\<close> share: grow, then write one slot.\<close>

definition dim_put :: "'v dense_id_map \<Rightarrow> nat \<Rightarrow> 'v option \<Rightarrow> 'v dense_id_map" where
  "dim_put d k v =
     (dim_reserve_space d k)\<lparr>map_data := (map_data (dim_reserve_space d k))[k := v]\<rparr>"

lemma dim_get_put [simp]: "dim_get (dim_put d k v) = (dim_get d)(k := v)"
  unfolding dim_put_def by (subst dim_get_update) (simp_all add: length_reserve fun_eq_iff)

lemma length_put: "length (map_data (dim_put d k v)) = max (length (map_data d)) (Suc k)"
  by (simp add: dim_put_def dim_reserve_space_def)

lemma dim_insert_eq [simp]: "dim_insert d k v = Ok (dim_get d k, dim_put d k (Some v))"
  using length_reserve(1) [of k d] dim_get_nth [of k "dim_reserve_space d k"]
  by (simp add: dim_insert_def dim_put_def Let_def)

lemma dim_take_eq [simp]: "dim_take d k = Ok (dim_get d k, dim_put d k None)"
  using length_reserve(1) [of k d] dim_get_nth [of k "dim_reserve_space d k"]
  by (simp add: dim_take_def dim_put_def Let_def get_opt_def)

lemma dim_get_or_insert_eq:
  "dim_get_or_insert d k v =
     (case dim_get d k of Some w \<Rightarrow> Ok (w, dim_reserve_space d k) | None \<Rightarrow> Ok (v, dim_put d k (Some v)))"
  using length_reserve(1) [of k d] dim_get_nth [of k "dim_reserve_space d k"]
  by (auto simp: dim_get_or_insert_def dim_put_def Let_def split: option.splits)

lemma dim_get_retain:
  "dim_get (dim_retain d f) k =
     (case dim_get d k of Some w \<Rightarrow> (if f k w then Some w else None) | None \<Rightarrow> None)"
  by (auto simp: dim_get_def get_opt_def dim_retain_def nth_enumerate_eq split: option.splits)

lemma dim_get_new [simp]: "dim_get dim_new = Map.empty" "dim_get (dim_clear d) = Map.empty"
  by (auto simp: dim_get_def get_opt_def dim_new_def dim_clear_def)

lemma dim_get_push:
  "dim_get (d\<lparr>map_data := map_data d @ [Some v]\<rparr>) = (dim_get d)(length (map_data d) \<mapsto> v)"
  by (auto simp: dim_get_def get_opt_def nth_append fun_eq_iff)

subsection \<open>Iteration\<close>

lemma dim_iter_Nil [simp]: "dim_iter \<lparr>map_data = []\<rparr> = []"
  by (simp add: dim_iter_def)

lemma map_filter_enumerate_mem:
  "(k, v) \<in> set (List.map_filter (\<lambda>(i, v). map_option (Pair i) v) (enumerate n xs)) \<longleftrightarrow>
   n \<le> k \<and> k < n + length xs \<and> xs ! (k - n) = Some v"
proof (induction xs arbitrary: n)
  case (Cons x xs)
  have "k - n = Suc (k - Suc n)" if "Suc n \<le> k" using that by simp
  with Cons [of "Suc n"] show ?case
    by (cases "k = n") (auto simp: map_filter_simps split: option.splits)
qed (simp add: map_filter_simps)

lemma map_filter_enumerate_keys:
  "map fst (List.map_filter (\<lambda>(i, v). map_option (Pair i) v) (enumerate n xs)) =
   filter (\<lambda>i. xs ! (i - n) \<noteq> None) [n..<n + length xs]"
proof (induction xs arbitrary: n)
  case (Cons x xs)
  have "filter (\<lambda>i. (x # xs) ! (i - n) \<noteq> None) [Suc n..<Suc n + length xs] =
        filter (\<lambda>i. xs ! (i - Suc n) \<noteq> None) [Suc n..<Suc n + length xs]"
    by (rule filter_cong) (auto simp: nth_Cons')
  moreover have "[n..<n + length (x # xs)] = n # [Suc n..<Suc n + length xs]"
    by (simp add: upt_conv_Cons del: upt_Suc)
  ultimately show ?case using Cons [of "Suc n"]
    by (cases x) (simp_all add: map_filter_simps del: upt_Suc)
qed (simp add: map_filter_simps)

lemma dim_iter_keys: "map fst (dim_iter d) = filter (\<lambda>i. dim_get d i \<noteq> None) [0..<length (map_data d)]"
  unfolding dim_iter_def map_filter_enumerate_keys
  by (rule filter_cong) (auto simp: dim_get_nth)

lemma dim_iter_sorted: "sorted (map fst (dim_iter d))" "distinct (map fst (dim_iter d))"
  unfolding dim_iter_keys by (simp_all add: sorted_wrt_filter)

lemma dim_iter_map_of: "map_of (dim_iter d) = dim_get d"
proof
  fix k
  show "map_of (dim_iter d) k = dim_get d k"
  proof (cases "map_of (dim_iter d) k")
    case None
    then have "k \<notin> set (map fst (dim_iter d))" by (simp add: map_of_eq_None_iff)
    then show ?thesis
      unfolding dim_iter_keys using None dim_get_beyond [of d k] by (auto simp: not_le)
  next
    case (Some v)
    then have "(k, v) \<in> set (dim_iter d)" by (rule map_of_SomeD)
    then show ?thesis using Some
      by (simp add: dim_iter_def map_filter_enumerate_mem dim_get_nth)
  qed
qed

lemma dim_len_iter: "dim_len d = length (dim_iter d)"
proof -
  have "length (List.map_filter (\<lambda>(i, v). map_option (Pair i) v) (enumerate n xs)) =
      length (filter (\<lambda>v. v \<noteq> None) xs)" for n and xs :: "'a option list"
    by (induction xs arbitrary: n) (auto simp: map_filter_simps split: option.splits)
  then show ?thesis by (simp add: dim_len_def dim_iter_def)
qed

lemma dim_len_card: "dim_len d = card (dom (dim_get d))"
proof -
  have "dom (dim_get d) = set (map fst (dim_iter d))"
    by (simp flip: dim_iter_map_of add: dom_map_of_conv_image_fst)
  then show ?thesis
    using distinct_card [OF dim_iter_sorted(2), of d] by (simp only: dim_len_iter length_map)
qed

lemma dim_from_iter_loop_get:
  "\<exists>d'. dim_from_iter_loop d kvs = Ok d' \<and> dim_get d' = dim_get d ++ map_of (rev kvs)"
proof (induction kvs arbitrary: d)
  case (Cons kv kvs)
  obtain k v where kv: "kv = (k, v)" by (cases kv)
  have "dim_get (dim_put d k (Some v)) ++ map_of (rev kvs) = dim_get d ++ map_of (rev (kv # kvs))"
    by (rule ext) (simp add: kv map_add_def split: option.splits)
  with Cons [of "dim_put d k (Some v)"] show ?case by (auto simp: kv simp del: dim_get_put)
qed simp

section \<open>Allocating ids\<close>

text \<open>
  What every client of the three containers relies on when it allocates: a push succeeds only
  with a key that was not in use, stores the value there and leaves every other key alone.
\<close>

locale slot_allocator =
  fixes invar :: "'m \<Rightarrow> bool"
    and lookup :: "'m \<Rightarrow> nat \<rightharpoonup> 'v"
    and push :: "'m \<Rightarrow> 'v \<Rightarrow> (nat \<times> 'm) result"
  assumes push_fresh: "invar d \<Longrightarrow> push d v = Ok (k, d') \<Longrightarrow> lookup d k = None"
    and push_lookup: "invar d \<Longrightarrow> push d v = Ok (k, d') \<Longrightarrow> lookup d' = (lookup d)(k \<mapsto> v)"
    and push_invar: "invar d \<Longrightarrow> push d v = Ok (k, d') \<Longrightarrow> invar d'"
begin

fun push_all :: "'m \<Rightarrow> 'v list \<Rightarrow> (nat list \<times> 'm) result" where
  "push_all d [] = Ok ([], d)"
| "push_all d (v # vs) =
     and_then (push d v) (\<lambda>(k, d'). and_then (push_all d' vs) (\<lambda>(ks, d''). Ok (k # ks, d'')))"

lemma push_all_lookup:
  "invar d \<Longrightarrow> push_all d vs = Ok (ks, d') \<Longrightarrow>
   invar d' \<and> length ks = length vs \<and> distinct ks \<and> set ks \<inter> dom (lookup d) = {} \<and>
   lookup d' = lookup d ++ map_of (zip ks vs)"
proof (induction vs arbitrary: d ks)
  case (Cons v vs)
  then obtain k d1 ks' where k: "push d v = Ok (k, d1)" "push_all d1 vs = Ok (ks', d')" "ks = k # ks'"
    by (auto elim!: and_then_OkE)
  have IH: "invar d'" "length ks' = length vs" "distinct ks'" "set ks' \<inter> dom (lookup d1) = {}"
    "lookup d' = lookup d1 ++ map_of (zip ks' vs)"
    using Cons.IH [OF push_invar [OF Cons.prems(1) k(1)] k(2)] by auto
  note d1 = push_lookup [OF Cons.prems(1) k(1)]
  have notin: "k \<notin> set ks'" "set ks' \<inter> dom (lookup d) = {}" using IH(4) d1 by auto
  then have "k \<notin> dom (map_of (zip ks' vs))" by (auto dest: map_of_SomeD set_zip_leftD)
  then have "lookup d' = lookup d ++ map_of (zip ks (v # vs))"
    by (simp add: IH(5) d1 k(3) map_add_upd_left)
  moreover have "invar d' \<and> length ks = length (v # vs) \<and> distinct ks \<and> set ks \<inter> dom (lookup d) = {}"
    using IH(1-3) notin k push_fresh [OF Cons.prems(1) k(1)] by (simp add: domIff)
  ultimately show ?case by blast
qed auto

end

lemma dim_push_eq_Ok_iff:
  "dim_push kmax d v = Ok (k, d') \<longleftrightarrow>
   length (map_data d) \<le> kmax \<and> k = length (map_data d) \<and> d' = d\<lparr>map_data := map_data d @ [Some v]\<rparr>"
  by (auto simp: dim_push_def dim_next_id_def and_then_eq_Ok_iff)

interpretation dense_alloc: slot_allocator "\<lambda>d. True" dim_get "dim_push kmax" for kmax
  by unfold_locales (auto simp: dim_push_eq_Ok_iff dim_get_beyond dim_get_push)

lemma iv_get_push: "iv_get (d\<lparr>vec_data := vec_data d @ [v]\<rparr>) = (iv_get d)(length (vec_data d) \<mapsto> v)"
  by (auto simp: iv_get_def get_opt_def nth_append fun_eq_iff)

interpretation id_vec_alloc: slot_allocator "\<lambda>d. True" iv_get "iv_push kmax" for kmax
  by unfold_locales (auto simp: iv_push_def and_then_eq_Ok_iff iv_get_push, auto simp: iv_get_def get_opt_def)

subsection \<open>The free list\<close>

text \<open>Free keys are listed once, are inside the table and hold nothing.\<close>

definition rm_wf :: "'v reuse_map \<Rightarrow> bool" where
  "rm_wf d \<longleftrightarrow> distinct (free d) \<and>
     (\<forall>k \<in> set (free d). k < dim_n_ids (slots d) \<and> dim_get (slots d) k = None)"

abbreviation rm_get :: "'v reuse_map \<Rightarrow> nat \<rightharpoonup> 'v" where
  "rm_get d \<equiv> dim_get (slots d)"

lemma rm_wf_default [simp]: "rm_wf rm_default"
  by (simp add: rm_wf_def rm_default_def)

lemma rm_reserve_slot_ok:
  assumes "rm_wf d" "rm_reserve_slot kmax d = Ok (k, d')"
  shows "rm_wf d'" "rm_get d' = rm_get d" "rm_get d k = None" "k \<notin> set (free d')"
    "k < dim_n_ids (slots d')"
proof -
  have "rm_wf d' \<and> rm_get d' = rm_get d \<and> rm_get d k = None \<and> k \<notin> set (free d') \<and> k < dim_n_ids (slots d')"
  proof (cases "free d = []")
    case True
    with assms show ?thesis
      using length_reserve(1) [of "dim_n_ids (slots d)" "slots d"]
      by (auto simp: rm_reserve_slot_def rm_wf_def dim_next_id_def and_then_eq_Ok_iff dim_n_ids_def
          dim_get_beyond fun_eq_iff)
  next
    case False
    then obtain fs where "free d = fs @ [last (free d)]" by (metis append_butlast_last_id)
    with assms False show ?thesis
      by (auto simp: rm_reserve_slot_def rm_wf_def)
  qed
  then show "rm_wf d'" "rm_get d' = rm_get d" "rm_get d k = None" "k \<notin> set (free d')"
    "k < dim_n_ids (slots d')" by auto
qed

lemma rm_push_ok:
  assumes "rm_wf d" "rm_push kmax d v = Ok (k, d')"
  shows "rm_wf d'" "rm_get d' = (rm_get d)(k \<mapsto> v)" "rm_get d k = None"
proof -
  from assms(2) obtain d1 where d1: "rm_reserve_slot kmax d = Ok (k, d1)"
    "d' = d1\<lparr>slots := dim_put (slots d1) k (Some v)\<rparr>"
    by (auto simp: rm_push_def rm_insert_def elim!: and_then_OkE)
  note r = rm_reserve_slot_ok [OF assms(1) d1(1)]
  show "rm_get d' = (rm_get d)(k \<mapsto> v)" "rm_get d k = None" using r d1(2) by simp_all
  show "rm_wf d'" using r d1(2) by (auto simp: rm_wf_def dim_n_ids_def length_put less_max_iff_disj)
qed

lemma rm_take_ok:
  assumes "rm_wf d"
  shows "\<exists>d'. rm_take d k = Ok (rm_get d k, d') \<and> rm_wf d' \<and> rm_get d' = (rm_get d)(k := None)
    \<and> set (free d') = set (free d) \<union> (if rm_get d k = None then {} else {k})"
proof (cases "rm_get d k")
  case None
  with assms show ?thesis
    by (auto simp: rm_take_def rm_wf_def dim_n_ids_def length_put less_max_iff_disj)
next
  case (Some v)
  then have "k \<notin> set (free d)" using assms by (auto simp: rm_wf_def)
  with assms Some show ?thesis
    by (auto simp: rm_take_def rm_wf_def dim_n_ids_def length_put less_max_iff_disj)
qed

interpretation reuse_alloc: slot_allocator rm_wf rm_get "rm_push kmax" for kmax
  by unfold_locales (auto simp: rm_push_ok)

section \<open>Properties\<close>

text \<open>
  A dense map behaves as a partial function on ids: growing it on access is invisible,
  \<open>insert\<close> and \<open>take\<close> never panic and return the previous value, \<open>get_or_insert\<close> keeps a
  present value, \<open>retain\<close> restricts the function, and a write through \<open>get_mut\<close> changes the
  slot of its key only.
\<close>

theorem dense_map_refines_function:
  "dim_get dim_new = Map.empty \<and> dim_get (dim_reserve_space d k) = dim_get d
   \<and> (\<exists>d'. dim_insert d k v = Ok (dim_get d k, d') \<and> dim_get d' = (dim_get d)(k \<mapsto> v))
   \<and> (\<exists>d'. dim_take d k = Ok (dim_get d k, d') \<and> dim_get d' = (dim_get d)(k := None))
   \<and> (\<exists>d'. dim_get_or_insert d k v = Ok (case dim_get d k of Some w \<Rightarrow> w | None \<Rightarrow> v, d')
        \<and> dim_get d' = (dim_get d)(k \<mapsto> (case dim_get d k of Some w \<Rightarrow> w | None \<Rightarrow> v)))
   \<and> dim_get (dim_retain d f) = (\<lambda>i. Option.bind (dim_get d i) (\<lambda>w. if f i w then Some w else None))
   \<and> fst (dim_get_mut d k g) = dim_get d k
   \<and> dim_get (snd (dim_get_mut d k g)) = (dim_get d)(k := map_option g (dim_get d k))
   \<and> dim_contains_key d k = (k \<in> dom (dim_get d))"
proof -
  have len: "k < length (map_data (dim_reserve_space d k))" by (rule length_reserve)
  have res: "dim_get (dim_reserve_space d k) = dim_get d" by (rule ext) simp
  have "dim_get (snd (dim_get_mut d k g)) = (dim_get d)(k := map_option g (dim_get d k))"
    "fst (dim_get_mut d k g) = dim_get d k"
    using dim_get_update [OF len] by (auto simp: dim_get_mut_def Let_def res split: option.splits)
  moreover have "dim_get (dim_retain d f) = (\<lambda>i. Option.bind (dim_get d i) (\<lambda>w. if f i w then Some w else None))"
    by (rule ext) (simp add: dim_get_retain split: option.splits bind_split)
  moreover have "\<exists>d'. dim_get_or_insert d k v = Ok (case dim_get d k of Some w \<Rightarrow> w | None \<Rightarrow> v, d')
        \<and> dim_get d' = (dim_get d)(k \<mapsto> (case dim_get d k of Some w \<Rightarrow> w | None \<Rightarrow> v))"
    by (cases "dim_get d k") (auto simp: dim_get_or_insert_eq res fun_upd_idem)
  moreover have "dim_contains_key d k = (k \<in> dom (dim_get d))"
    by (auto simp: dim_contains_key_def dim_get_def get_opt_def)
  ultimately show ?thesis using res by simp
qed

text \<open>
  Iterating a dense map visits exactly the present ids, each once and in ascending order;
  \<open>len\<close> counts them, \<open>is_empty\<close> says there is none, and collecting the iteration into a new
  map gives a map with the same contents.
\<close>

theorem dense_map_iteration:
  "map_of (dim_iter d) = dim_get d \<and> sorted (map fst (dim_iter d)) \<and> distinct (map fst (dim_iter d))
   \<and> dim_len d = card (dom (dim_get d)) \<and> dim_is_empty d = (dom (dim_get d) = {})
   \<and> (\<exists>d'. dim_from_iter (dim_iter d) = Ok d' \<and> dim_get d' = dim_get d)"
proof -
  have "dim_is_empty d = (dim_len d = 0)"
    by (auto simp: dim_is_empty_def dim_len_def list_all_iff filter_empty_conv)
  moreover have "finite (dom (dim_get d))" by (simp flip: dim_iter_map_of add: finite_dom_map_of)
  moreover have "map_of (rev (dim_iter d)) = dim_get d"
    using map_of_inject_set [of "rev (dim_iter d)" "dim_iter d"]
    by (simp add: dim_iter_sorted dim_iter_map_of rev_map [symmetric])
  then have "\<exists>d'. dim_from_iter (dim_iter d) = Ok d' \<and> dim_get d' = dim_get d"
    using dim_from_iter_loop_get [of dim_new "dim_iter d"] by (simp add: dim_from_iter_def)
  ultimately show ?thesis
    by (simp add: dim_iter_sorted dim_iter_map_of dim_len_card)
qed

text \<open>
  C37: A map with slot reuse never hands out a key that is in use.  From a well-formed map,
  pushing a list of values, if the id type does not overflow, gives pairwise distinct keys
  none of which was live, under which exactly the pushed values are found, and keeps the map
  well formed; taking a key returns its value, forgets it and makes it available again.
\<close>

theorem reuse_map_allocates_fresh:
  assumes "rm_wf d"
  shows "(reuse_alloc.push_all kmax d vs = Ok (ks, d') \<longrightarrow>
      rm_wf d' \<and> length ks = length vs \<and> distinct ks \<and> set ks \<inter> dom (rm_get d) = {} \<and>
      rm_get d' = rm_get d ++ map_of (zip ks vs))
    \<and> (\<exists>e. rm_take d k = Ok (rm_get d k, e) \<and> rm_wf e \<and> rm_get e = (rm_get d)(k := None)
        \<and> (rm_get d k \<noteq> None \<longrightarrow> k \<in> set (free e)))"
  using reuse_alloc.push_all_lookup [OF assms] rm_take_ok [OF assms, of k] by fastforce

definition rm_sample :: "nat reuse_map" where
  "rm_sample = \<lparr>slots = \<lparr>map_data = [Some 7, None, Some 9]\<rparr>, free = [1]\<rparr>"

theorem reuse_map_allocates_fresh_witness:
  "rm_wf rm_sample \<and> (\<exists>d'. reuse_alloc.push_all 255 rm_sample [4, 5] = Ok ([1, 3], d') \<and>
     rm_get d' = rm_get rm_sample ++ map_of (zip [1, 3] [4, 5]))"
proof -
  have wf: "rm_wf rm_sample" by (simp add: rm_wf_def rm_sample_def dim_n_ids_def dim_get_def get_opt_def)
  have "\<exists>d'. reuse_alloc.push_all 255 rm_sample [4, 5] = Ok ([1, 3], d')"
    by (simp add: rm_push_def rm_reserve_slot_def rm_insert_def rm_sample_def dim_next_id_def
        dim_put_def dim_reserve_space_def from_usize_def)
  with reuse_map_allocates_fresh [OF wf, of 255 "[4, 5]" "[1, 3]"] wf show ?thesis by blast
qed

end
