(* ===== verification/Offsets.thy ===== *)
theory Offsets
  imports NumericId "HOL-Library.Multiset"
begin

text \<open>
  Row subsets of \<open>egglog/core-relations/src/offsets/mod.rs\<close>: dense ranges and sorted vectors of
  row ids, the galloping search, the four cases of \<open>Subset::intersect\<close> with their in-place
  loops, \<open>retain\<close>, \<open>add_row_sorted\<close> and the chunked iteration \<open>iter_bounded\<close>.

  The library call \<open>slice::binary_search\<close> may return any matching index, so it is a parameter
  \<open>bs\<close>, and the locale \<open>slice_search\<close> is its documented contract.  An index of type \<open>usize\<close>
  is a natural number: no index here exceeds three times the length of a slice.
\<close>

section \<open>The library search\<close>

text \<open>\<open>Ok i\<close>: a match at \<open>i\<close>; \<open>Err i\<close>: no match, and \<open>i\<close> is the insertion point.\<close>

type_synonym search = "nat list \<Rightarrow> nat \<Rightarrow> nat + nat"

locale slice_search =
  fixes bs :: search
  assumes found: "sorted xs \<Longrightarrow> bs xs t = Ok i \<Longrightarrow> i < length xs \<and> xs ! i = t"
    and not_found: "sorted xs \<Longrightarrow> bs xs t = Err i \<Longrightarrow>
      i \<le> length xs \<and> (\<forall>j < i. xs ! j < t) \<and> (\<forall>j. i \<le> j \<longrightarrow> j < length xs \<longrightarrow> t < xs ! j)"

text \<open>A search by halving that keeps the contract.\<close>

function halving :: "nat list \<Rightarrow> nat \<Rightarrow> nat \<Rightarrow> nat \<Rightarrow> nat + nat" where
  "halving xs t lo hi =
     (if lo < hi then
        (let mid = (lo + hi) div 2 in
         if xs ! mid = t then Ok mid
         else if xs ! mid < t then halving xs t (mid + 1) hi
         else halving xs t lo mid)
      else Err lo)"
  by pat_completeness auto
termination
  by (relation "measure (\<lambda>(xs, t, lo, hi). hi - lo)") auto

declare halving.simps [simp del]

definition std_binary_search :: search where
  "std_binary_search xs t = halving xs t 0 (length xs)"

lemma halving_correct:
  assumes "sorted xs" "lo \<le> hi" "hi \<le> length xs"
    "\<forall>j < lo. xs ! j < t" "\<forall>j. hi \<le> j \<longrightarrow> j < length xs \<longrightarrow> t < xs ! j"
  shows "(case halving xs t lo hi of
      Inr i \<Rightarrow> i < length xs \<and> xs ! i = t
    | Inl i \<Rightarrow> i \<le> length xs \<and> (\<forall>j < i. xs ! j < t) \<and> (\<forall>j. i \<le> j \<longrightarrow> j < length xs \<longrightarrow> t < xs ! j))"
  using assms
proof (induction xs t lo hi rule: halving.induct)
  case (1 xs t lo hi)
  let ?mid = "(lo + hi) div 2"
  show ?case
  proof (cases "lo < hi")
    case False
    then have "halving xs t lo hi = Err lo" by (subst halving.simps) simp
    with False "1.prems" show ?thesis by simp
  next
    case lh: True
    then have mid: "lo \<le> ?mid" "?mid < hi" by auto
    consider "xs ! ?mid = t" | "xs ! ?mid < t" | "t < xs ! ?mid" by linarith
    then show ?thesis
    proof cases
      case 1
      then show ?thesis using lh mid \<open>hi \<le> length xs\<close> by (simp add: halving.simps [of xs t lo hi] Let_def)
    next
      case 2
      have "xs ! j < t" if "j < ?mid + 1" for j
        using that 2 mid \<open>hi \<le> length xs\<close> sorted_nth_mono [OF \<open>sorted xs\<close>, of j ?mid] by simp
      with 2 lh mid "1.IH"(1) [OF lh refl] "1.prems" show ?thesis
        by (simp add: halving.simps [of xs t lo hi] Let_def)
    next
      case 3
      have "t < xs ! j" if "?mid \<le> j" "j < length xs" for j
        using that 3 sorted_nth_mono [OF \<open>sorted xs\<close>, of ?mid j] by simp
      moreover from 3 lh have "halving xs t lo hi = halving xs t lo ?mid"
        by (subst halving.simps) (simp add: Let_def)
      moreover from 3 have "xs ! ?mid \<noteq> t" "\<not> xs ! ?mid < t" by auto
      ultimately show ?thesis using mid "1.IH"(2) [OF lh refl] "1.prems" by simp
    qed
  qed
qed

lemma slice_search_std: "slice_search std_binary_search"
proof
  fix xs :: "nat list" and t i
  assume "sorted xs"
  note c = halving_correct [OF this, of 0 "length xs" t]
  show "i < length xs \<and> xs ! i = t" if "std_binary_search xs t = Ok i"
    using c that by (simp add: std_binary_search_def)
  show "i \<le> length xs \<and> (\<forall>j < i. xs ! j < t) \<and> (\<forall>j. i \<le> j \<longrightarrow> j < length xs \<longrightarrow> t < xs ! j)"
    if "std_binary_search xs t = Err i"
    using c that by (simp add: std_binary_search_def)
qed

interpretation std_search: slice_search std_binary_search
  by (rule slice_search_std)

section \<open>Model\<close>

record offset_range =
  range_start :: nat
  range_end :: nat

type_synonym sorted_vec = "nat list"

datatype subset = Dense offset_range | Sparse sorted_vec

text \<open>\<open>OffsetRange::new\<close>; its check is a \<open>debug_assert\<close>.\<close>

definition range_new :: "nat \<Rightarrow> nat \<Rightarrow> offset_range" where
  "range_new s e = \<lparr>range_start = s, range_end = e\<rparr>"

definition range_size :: "offset_range \<Rightarrow> nat" where
  "range_size r = range_end r - range_start r"

text \<open>\<open>offsets\<close>: the row ids in the order the callback sees them.\<close>

definition range_offsets :: "offset_range \<Rightarrow> nat list" where
  "range_offsets r = id_range (range_start r) (range_end r)"

definition rows :: "subset \<Rightarrow> nat list" where
  "rows s = (case s of Dense r \<Rightarrow> range_offsets r | Sparse v \<Rightarrow> v)"

definition slice_bounds :: "nat list \<Rightarrow> (nat \<times> nat) option result" where
  "slice_bounds v =
     (if v = [] then Ok None
      else and_then (from_usize u32_max (last v + 1)) (\<lambda>e. Ok (Some (hd v, e))))"

definition bounds :: "subset \<Rightarrow> (nat \<times> nat) option result" where
  "bounds s = (case s of Dense r \<Rightarrow> Ok (Some (range_start r, range_end r)) | Sparse v \<Rightarrow> slice_bounds v)"

definition subset_size :: "subset \<Rightarrow> nat" where
  "subset_size s = (case s of Dense r \<Rightarrow> range_size r | Sparse v \<Rightarrow> length v)"

text \<open>\<open>SortedOffsetVector::push\<close> asserts the order.\<close>

definition vec_push :: "sorted_vec \<Rightarrow> nat \<Rightarrow> sorted_vec result" where
  "vec_push v x = (if v = [] \<or> last v \<le> x then Ok (v @ [x]) else Err AssertFailed)"

definition extend_nonoverlapping :: "sorted_vec \<Rightarrow> nat list \<Rightarrow> sorted_vec result" where
  "extend_nonoverlapping v other =
     (if other = [] then Ok v
      else if v = [] then Ok (v @ other)
      else if last v \<le> hd other then Ok (v @ other)
      else Err ExplicitPanic)"

definition fill_from_dense :: "offset_range \<Rightarrow> sorted_vec" where
  "fill_from_dense r = [range_start r..<range_end r]"

subsection \<open>Searching\<close>

text \<open>The loops that walk back over duplicates of the target, not below \<open>low\<close>.\<close>

fun walk_back :: "nat list \<Rightarrow> nat \<Rightarrow> nat \<Rightarrow> nat \<Rightarrow> nat" where
  "walk_back xs low t 0 = 0"
| "walk_back xs low t (Suc i) = (if low < Suc i \<and> xs ! i = t then walk_back xs low t i else Suc i)"

definition binary_search_from :: "search \<Rightarrow> nat list \<Rightarrow> nat \<Rightarrow> nat \<Rightarrow> nat result" where
  "binary_search_from bs xs s t =
     and_then (vec_slice xs s (length xs)) (\<lambda>suffix.
       case bs suffix t of
         Inr i \<Rightarrow> Ok (walk_back xs 0 t (i + s))
       | Inl i \<Rightarrow> Ok (s + i))"

definition binary_search_by_id :: "search \<Rightarrow> nat list \<Rightarrow> nat \<Rightarrow> nat result" where
  "binary_search_by_id bs xs t = binary_search_from bs xs 0 t"

text \<open>
  The galloping loop of \<open>scan_for_offset\<close>.  It ends with an early return (\<open>Inl\<close>) or with the
  narrowed range (\<open>Inr\<close>).
\<close>

partial_function (option) gallop :: "nat list \<Rightarrow> nat \<Rightarrow> nat \<Rightarrow> nat \<Rightarrow> nat \<Rightarrow> (nat + nat \<times> nat) option" where
  "gallop xs s t lo step =
     (let probe = lo + step in
      if length xs \<le> probe then Some (Inr (lo, length xs))
      else if xs ! probe < t then gallop xs s t probe (step * 2)
      else if xs ! probe = t then Some (Inl (walk_back xs s t probe))
      else Some (Inr (lo, probe)))"

definition scan_for_offset :: "search \<Rightarrow> nat list \<Rightarrow> nat \<Rightarrow> nat \<Rightarrow> (nat + nat) comp" where
  "scan_for_offset bs xs s t =
     (if length xs \<le> s then Some (Ok (Err (length xs)))
      else if xs ! s = t then Some (Ok (Ok s))
      else if t < xs ! s then Some (Ok (Err s))
      else case gallop xs s t s 1 of
        None \<Rightarrow> None
      | Some (Inl i) \<Rightarrow> Some (Ok (Ok i))
      | Some (Inr (lo, hi)) \<Rightarrow>
          Some (and_then (vec_slice xs (lo + 1) hi) (\<lambda>mid.
            case bs mid t of
              Inr i \<Rightarrow> Ok (Ok (walk_back xs s t (i + (lo + 1))))
            | Inl i \<Rightarrow> Ok (Err (lo + 1 + i)))))"

subsection \<open>Intersection\<close>

text \<open>Two sorted vectors of similar size; the matches are compacted in place.\<close>

function skip_below :: "nat list \<Rightarrow> nat \<Rightarrow> nat \<Rightarrow> nat" where
  "skip_below ys t oi = (if oi < length ys \<and> ys ! oi < t then skip_below ys t (Suc oi) else oi)"
  by pat_completeness auto
termination
  by (relation "measure (\<lambda>(ys, t, oi). length ys - oi)") auto

declare skip_below.simps [simp del]

function two_pointer :: "nat \<Rightarrow> nat list \<Rightarrow> nat list \<Rightarrow> nat \<Rightarrow> nat \<Rightarrow> nat \<Rightarrow> (nat list \<times> nat) result" where
  "two_pointer cur_len cur other ci oi write =
     (if ci < cur_len then
        and_then (vec_get cur ci) (\<lambda>target.
          let oi = skip_below other target oi in
          if oi = length other then Ok (cur, write)
          else and_then (vec_get other oi) (\<lambda>y.
            if y = target
            then and_then (vec_set cur write target) (\<lambda>cur.
                   two_pointer cur_len cur other (Suc ci) (oi + 1) (write + 1))
            else two_pointer cur_len cur other (Suc ci) oi write))
      else Ok (cur, write))"
  by pat_completeness auto
termination
  by (relation "measure (\<lambda>(n, cur, other, ci, oi, w). n - ci)") auto

declare two_pointer.simps [simp del]

text \<open>The other vector is much smaller: walk it and gallop in the rest of the current one.\<close>

function gallop_cur :: "search \<Rightarrow> nat \<Rightarrow> nat list \<Rightarrow> nat list \<Rightarrow> nat \<Rightarrow> nat \<Rightarrow> nat \<Rightarrow> (nat list \<times> nat) comp" where
  "gallop_cur bs cur_len cur other oi ci write =
     (if oi < length other then
        (if cur_len \<le> ci then Some (Ok (cur, write))
         else
           (let target = other ! oi in
            case vec_slice cur ci (length cur) of
              Inl e \<Rightarrow> Some (Err e)
            | Inr suffix \<Rightarrow>
                run_then (scan_for_offset bs suffix 0 target) (\<lambda>res.
                  case res of
                    Inr f \<Rightarrow>
                      (case vec_set cur write target of
                         Inl e \<Rightarrow> Some (Err e)
                       | Inr cur \<Rightarrow>
                           gallop_cur bs cur_len cur other (Suc oi) (ci + f + 1) (write + 1))
                  | Inl next_ci \<Rightarrow> gallop_cur bs cur_len cur other (Suc oi) (ci + next_ci) write)))
      else Some (Ok (cur, write)))"
  by pat_completeness auto
termination
  by (relation "measure (\<lambda>(bs, n, cur, other, oi, ci, w). length other - oi)") auto

declare gallop_cur.simps [simp del]

text \<open>The current vector is much smaller: \<open>retain\<close> it, galloping in the other one.\<close>

fun retain_gallop :: "search \<Rightarrow> nat list \<Rightarrow> nat list \<Rightarrow> nat \<Rightarrow> nat list comp" where
  "retain_gallop bs [] other off = Some (Ok [])"
| "retain_gallop bs (x # xs) other off =
     run_then (scan_for_offset bs other off x) (\<lambda>res.
       case res of
         Inr f \<Rightarrow> run_then (retain_gallop bs xs other (f + 1)) (\<lambda>ys. Some (Ok (x # ys)))
       | Inl next_off \<Rightarrow> retain_gallop bs xs other next_off)"

definition intersect_sparse :: "search \<Rightarrow> nat list \<Rightarrow> nat list \<Rightarrow> nat list comp" where
  "intersect_sparse bs cur other =
     (let cur_len = length cur; other_len = length other in
      if (cur_len \<le> 16 \<and> other_len \<le> 16) \<or> (cur_len div 4 \<le> other_len \<and> other_len \<le> cur_len * 4)
      then run_then (Some (two_pointer cur_len cur other 0 0 0)) (\<lambda>(v, w). Some (Ok (take w v)))
      else if other_len < cur_len
      then run_then (gallop_cur bs cur_len cur other 0 0 0) (\<lambda>(v, w). Some (Ok (take w v)))
      else retain_gallop bs cur other 0)"

text \<open>\<open>copy_within(l..r, 0)\<close> followed by \<open>truncate(r - l)\<close>; the copy panics unless \<open>l \<le> r\<close>.\<close>

definition copy_within_truncate :: "nat list \<Rightarrow> nat \<Rightarrow> nat \<Rightarrow> nat list result" where
  "copy_within_truncate v l r =
     and_then (vec_slice v l r) (\<lambda>mid. Ok (take (r - l) (mid @ drop (r - l) v)))"

fun intersect :: "search \<Rightarrow> subset \<Rightarrow> subset \<Rightarrow> subset comp" where
  "intersect bs (Dense cur) (Dense other) =
     (let resl = max (range_start cur) (range_start other);
          resr = min (range_end cur) (range_end other) in
      Some (Ok (Dense (if resr \<le> resl then range_new resl resl else range_new resl resr))))"
| "intersect bs (Dense cur) (Sparse v) =
     Some (and_then (slice_bounds v) (\<lambda>b.
       if b \<noteq> None then
         and_then (binary_search_by_id bs v (range_start cur)) (\<lambda>l.
         and_then (binary_search_by_id bs v (range_end cur)) (\<lambda>r.
           if r \<le> l then Ok (Dense (range_new 0 0))
           else and_then (vec_slice v l r) (\<lambda>sub.
                and_then (extend_nonoverlapping [] sub) (\<lambda>res. Ok (Sparse res)))))
       else Ok (Dense (range_new 0 0))))"
| "intersect bs (Sparse v) (Dense d) =
     Some (and_then (binary_search_by_id bs v (range_start d)) (\<lambda>l.
       and_then (binary_search_from bs v l (range_end d)) (\<lambda>r.
         if l = 0 then Ok (Sparse (take r v))
         else and_then (copy_within_truncate v l r) (\<lambda>v. Ok (Sparse v)))))"
| "intersect bs (Sparse cur) (Sparse other) =
     run_then (intersect_sparse bs cur other) (\<lambda>v. Some (Ok (Sparse v)))"

subsection \<open>Growing, filtering and iterating\<close>

definition subset_empty :: subset where
  "subset_empty = Dense (range_new 0 0)"

definition add_row_sorted :: "subset \<Rightarrow> nat \<Rightarrow> subset result" where
  "add_row_sorted s row =
     (case s of
        Dense r \<Rightarrow>
          if range_end r = range_start r
          then and_then (id_inc u32_max row) (\<lambda>e. Ok (Dense (r\<lparr>range_start := row, range_end := e\<rparr>)))
          else if range_end r = row
          then and_then (id_inc u32_max row) (\<lambda>e. Ok (Dense (r\<lparr>range_end := e\<rparr>)))
          else and_then (vec_push (fill_from_dense r) row) (\<lambda>v. Ok (Sparse v))
      | Sparse v \<Rightarrow> and_then (vec_push v row) (\<lambda>v. Ok (Sparse v)))"

fun retain_dense :: "(nat \<Rightarrow> bool) \<Rightarrow> nat list \<Rightarrow> subset \<Rightarrow> subset result" where
  "retain_dense f [] res = Ok res"
| "retain_dense f (row # rs) res =
     (if f row then and_then (add_row_sorted res row) (retain_dense f rs) else retain_dense f rs res)"

definition retain :: "subset \<Rightarrow> (nat \<Rightarrow> bool) \<Rightarrow> subset result" where
  "retain s f =
     (case s of
        Dense r \<Rightarrow> retain_dense f (range_offsets r) subset_empty
      | Sparse v \<Rightarrow> Ok (Sparse (filter f v)))"

text \<open>The rows the callback sees, and where to resume.\<close>

definition iter_bounded :: "subset \<Rightarrow> nat \<Rightarrow> nat \<Rightarrow> (nat list \<times> nat option) result" where
  "iter_bounded s st en =
     (case s of
        Dense r \<Rightarrow>
          (let vis = [range_start r + st..<min (range_start r + en) (range_end r)];
               cur = st + length vis in
           Ok (vis, if cur + range_start r < range_end r then Some cur else None))
      | Sparse v \<Rightarrow>
          (let en = min (length v) en;
               nxt = (if en = length v then None else Some en) in
           and_then (vec_slice v st en) (\<lambda>vis. Ok (vis, nxt))))"

section \<open>Searches return the lower bound\<close>

definition lower_bound :: "nat list \<Rightarrow> nat \<Rightarrow> nat \<Rightarrow> nat \<Rightarrow> bool" where
  "lower_bound xs s t i \<longleftrightarrow>
     s \<le> i \<and> i \<le> length xs \<and> (\<forall>j. s \<le> j \<longrightarrow> j < i \<longrightarrow> xs ! j < t) \<and>
     (\<forall>j. i \<le> j \<longrightarrow> j < length xs \<longrightarrow> t \<le> xs ! j)"

lemma lower_bound_dropWhile:
  assumes "lower_bound xs s t i"
  shows "dropWhile (\<lambda>y. y < t) (drop s xs) = drop i xs"
proof -
  have "drop i xs = drop (i - s) (drop s xs)" using assms by (simp add: lower_bound_def)
  then have "drop s xs = take (i - s) (drop s xs) @ drop i xs" by (metis append_take_drop_id)
  moreover have "\<forall>y \<in> set (take (i - s) (drop s xs)). y < t"
    using assms by (auto simp: lower_bound_def in_set_conv_nth)
  moreover have "dropWhile (\<lambda>y. y < t) (drop i xs) = drop i xs"
    using assms by (cases "i < length xs") (auto simp: lower_bound_def not_less simp flip: Cons_nth_drop_Suc)
  ultimately show ?thesis by (metis dropWhile_append2)
qed

lemma walk_back_props:
  "low \<le> i \<Longrightarrow> low \<le> walk_back xs low t i \<and> walk_back xs low t i \<le> i"
  "walk_back xs low t i \<le> j \<Longrightarrow> j < i \<Longrightarrow> xs ! j = t"
  "low < walk_back xs low t i \<Longrightarrow> xs ! (walk_back xs low t i - 1) \<noteq> t"
proof -
  show "low \<le> i \<Longrightarrow> low \<le> walk_back xs low t i \<and> walk_back xs low t i \<le> i"
    by (induction i) auto
  show "walk_back xs low t i \<le> j \<Longrightarrow> j < i \<Longrightarrow> xs ! j = t"
    by (induction i) (auto simp: less_Suc_eq split: if_splits)
  show "low < walk_back xs low t i \<Longrightarrow> xs ! (walk_back xs low t i - 1) \<noteq> t"
    by (induction i) (auto split: if_splits)
qed

lemma walk_back_lower_bound:
  assumes "sorted xs" "low \<le> i" "i < length xs" "xs ! i = t"
  defines "k \<equiv> walk_back xs low t i"
  shows "lower_bound xs low t k" "k < length xs" "xs ! k = t"
proof -
  have k: "low \<le> k" "k \<le> i" using walk_back_props(1) [OF assms(2)] by (auto simp: k_def)
  show "k < length xs" using k assms(3) by simp
  show kt: "xs ! k = t" using walk_back_props(2) [of xs low t i k] k assms(4) by (cases "k = i") (auto simp: k_def)
  have "xs ! j < t" if "low \<le> j" "j < k" for j
  proof -
    have "xs ! (k - 1) \<le> xs ! k" "xs ! j \<le> xs ! (k - 1)"
      using that k assms(3) by (auto intro!: sorted_nth_mono [OF assms(1)])
    moreover have "xs ! (k - 1) \<noteq> t" using walk_back_props(3) [of low xs t i] that by (simp add: k_def)
    ultimately show ?thesis using kt by simp
  qed
  moreover have "t \<le> xs ! j" if "k \<le> j" "j < length xs" for j
    using sorted_nth_mono [OF assms(1), of k j] that kt by simp
  ultimately show "lower_bound xs low t k" using k assms(3) by (simp add: lower_bound_def)
qed

text \<open>The galloping loop returns, for every positive step.\<close>

lemma gallop_returns:
  assumes "sorted xs" "s \<le> lo" "lo < length xs" "xs ! lo < t" "0 < step"
  shows "\<exists>r. gallop xs s t lo step = Some r \<and>
     (case r of
        Inl i \<Rightarrow> lower_bound xs s t i \<and> i < length xs \<and> xs ! i = t
      | Inr (lo', hi) \<Rightarrow> s \<le> lo' \<and> lo' < hi \<and> hi \<le> length xs \<and> xs ! lo' < t \<and>
          (\<forall>j. hi \<le> j \<longrightarrow> j < length xs \<longrightarrow> t < xs ! j))"
  using assms(2-)
proof (induction "length xs - lo" arbitrary: lo step rule: less_induct)
  case less
  let ?p = "lo + step"
  consider "length xs \<le> ?p" | "?p < length xs" "xs ! ?p < t" | "?p < length xs" "xs ! ?p = t"
    | "?p < length xs" "t < xs ! ?p" by linarith
  then show ?case
  proof cases
    case 1
    with less.prems show ?thesis by (subst gallop.simps) simp
  next
    case 2
    with less.prems less.hyps [of ?p "step * 2"] show ?thesis by (subst gallop.simps) simp
  next
    case 3
    with less.prems walk_back_lower_bound [OF assms(1), of s ?p t] show ?thesis
      by (subst gallop.simps) simp
  next
    case 4
    then have "t < xs ! j" if "?p \<le> j" "j < length xs" for j
      using that sorted_nth_mono [OF assms(1), of ?p j] by simp
    moreover from 4 have "\<not> xs ! ?p < t" "xs ! ?p \<noteq> t" by auto
    ultimately show ?thesis using 4(1) less.prems by (subst gallop.simps) simp
  qed
qed

text \<open>What a search reports: the lower bound, and whether the target is there.\<close>

definition scan_result :: "nat list \<Rightarrow> nat \<Rightarrow> nat \<Rightarrow> nat + nat \<Rightarrow> bool" where
  "scan_result xs s t res =
     (case res of
        Inr i \<Rightarrow> lower_bound xs s t i \<and> i < length xs \<and> xs ! i = t
      | Inl i \<Rightarrow> lower_bound xs s t i \<and> (i < length xs \<longrightarrow> t < xs ! i))"

context slice_search
begin

lemma binary_search_from_ok:
  assumes "sorted xs" "s \<le> length xs" "\<forall>j < s. xs ! j < t"
  shows "\<exists>i. binary_search_from bs xs s t = Ok i \<and> lower_bound xs s t i \<and> lower_bound xs 0 t i"
proof -
  have srt: "sorted (drop s xs)" using assms(1) by (simp add: sorted_wrt_drop)
  have ext: "lower_bound xs 0 t i" if "lower_bound xs s t i" for i
    using that assms(3) unfolding lower_bound_def by (metis le0 not_le)
  show ?thesis
  proof (cases "bs (drop s xs) t")
    case (Inr i)
    with found [OF srt] assms(2) have i: "i + s < length xs" "xs ! (i + s) = t"
      by (auto simp: less_diff_conv add.commute)
    let ?k = "walk_back xs 0 t (i + s)"
    have k: "lower_bound xs 0 t ?k" "xs ! ?k = t" using walk_back_lower_bound [OF assms(1) _ i] by auto
    with assms(3) have "s \<le> ?k" by (metis less_irrefl not_le)
    with k have "lower_bound xs s t ?k" by (auto simp: lower_bound_def)
    with Inr k assms(2) show ?thesis by (simp add: binary_search_from_def)
  next
    case (Inl i)
    note nf = not_found [OF srt Inl]
    have "xs ! j < t" if "s \<le> j" "j < s + i" for j
      using nf that by (elim conjE allE [of _ "j - s"]) (auto simp: less_diff_conv2)
    moreover have "t \<le> xs ! j" if "s + i \<le> j" "j < length xs" for j
      using nf that assms(2) by (elim conjE allE [of _ "j - s"]) auto
    ultimately have "lower_bound xs s t (s + i)" using nf assms(2) by (auto simp: lower_bound_def)
    with Inl ext assms(2) show ?thesis by (auto simp: binary_search_from_def)
  qed
qed

lemma scan_for_offset_ok:
  assumes "sorted xs" "s \<le> length xs"
  shows "\<exists>r. scan_for_offset bs xs s t = Some (Ok r) \<and> scan_result xs s t r"
proof -
  have mono: "i \<le> j \<Longrightarrow> j < length xs \<Longrightarrow> xs ! i \<le> xs ! j" for i j
    by (rule sorted_nth_mono [OF assms(1)])
  consider "length xs \<le> s" | "s < length xs" "xs ! s = t" | "s < length xs" "t < xs ! s"
    | "s < length xs" "xs ! s < t" by linarith
  then show ?thesis
  proof cases
    case 4
    then obtain r where r: "gallop xs s t s 1 = Some r"
      "(case r of
        Inl i \<Rightarrow> lower_bound xs s t i \<and> i < length xs \<and> xs ! i = t
      | Inr (lo', hi) \<Rightarrow> s \<le> lo' \<and> lo' < hi \<and> hi \<le> length xs \<and> xs ! lo' < t \<and>
          (\<forall>j. hi \<le> j \<longrightarrow> j < length xs \<longrightarrow> t < xs ! j))"
      using gallop_returns [OF assms(1), of s s t 1] by auto
    show ?thesis
    proof (cases r)
      case (Inl i)
      with r 4 show ?thesis by (simp add: scan_for_offset_def scan_result_def)
    next
      case (Inr p)
      obtain lo hi where p: "p = (lo, hi)" by (cases p)
      with r(2) Inr have b: "s \<le> lo" "lo < hi" "hi \<le> length xs" "xs ! lo < t"
        "\<And>j. hi \<le> j \<Longrightarrow> j < length xs \<Longrightarrow> t < xs ! j" by auto
      let ?mid = "take (hi - (lo + 1)) (drop (lo + 1) xs)"
      have srt: "sorted ?mid" using assms(1) by (simp add: sorted_wrt_drop sorted_wrt_take)
      have scan: "scan_for_offset bs xs s t =
          Some (case bs ?mid t of
              Inr i \<Rightarrow> Ok (Ok (walk_back xs s t (i + (lo + 1))))
            | Inl i \<Rightarrow> Ok (Err (lo + 1 + i)))"
        using 4 r(1) Inr p b by (simp add: scan_for_offset_def)
      show ?thesis
      proof (cases "bs ?mid t")
        case (Inr i)
        with found [OF srt, of t i] have f: "i < length ?mid" "?mid ! i = t" by auto
        then have "i + (lo + 1) < length xs" using b by simp
        moreover from f b have "xs ! (lo + 1 + i) = t" by (metis nth_drop nth_take length_take min_less_iff_conj less_imp_le_nat Suc_eq_plus1 Suc_leI le_trans)
        moreover have "i + (lo + 1) = lo + 1 + i" by simp
        ultimately have "i + (lo + 1) < length xs" "xs ! (i + (lo + 1)) = t" by metis+
        with walk_back_lower_bound [OF assms(1), of s "i + (lo + 1)" t] b Inr scan show ?thesis
          by (simp add: scan_result_def)
      next
        case (Inl i)
        note nf = not_found [OF srt Inl]
        have "xs ! j < t" if "s \<le> j" "j < lo + 1 + i" for j
        proof (cases "j \<le> lo")
          case True
          with b mono [of j lo] show ?thesis by simp
        next
          case False
          with nf that b show ?thesis by (elim conjE allE [of _ "j - (lo + 1)"]) auto
        qed
        moreover have "t < xs ! j" if "lo + 1 + i \<le> j" "j < length xs" for j
        proof (cases "hi \<le> j")
          case True
          with b that show ?thesis by simp
        next
          case False
          with nf that b show ?thesis by (elim conjE allE [of _ "j - (lo + 1)"]) auto
        qed
        ultimately have "lower_bound xs s t (lo + 1 + i)" "lo + 1 + i < length xs \<longrightarrow> t < xs ! (lo + 1 + i)"
          using nf b by (auto simp: lower_bound_def intro: less_imp_le)
        with Inl scan show ?thesis by (simp add: scan_result_def)
      qed
    qed
  qed (use assms(2) mono in \<open>auto simp: scan_for_offset_def scan_result_def lower_bound_def
      intro: less_imp_le [THEN order_trans]\<close>)
qed

end

section \<open>The loops compute the sorted intersection\<close>

text \<open>The reference: the first list filtered by the second, each element consumed once.\<close>

fun sorted_inter :: "nat list \<Rightarrow> nat list \<Rightarrow> nat list" where
  "sorted_inter [] ys = []"
| "sorted_inter (x # xs) ys =
     (case dropWhile (\<lambda>y. y < x) ys of
        [] \<Rightarrow> []
      | y # ys' \<Rightarrow> if y = x then x # sorted_inter xs ys' else sorted_inter xs (y # ys'))"

lemma mset_dropWhile_inter:
  fixes x :: nat
  assumes "\<forall>a \<in># M. x \<le> a"
  shows "M \<inter># mset (dropWhile (\<lambda>y. y < x) ys) = M \<inter># mset ys"
proof (induction ys)
  case (Cons y ys)
  have "y \<notin># M" if "y < x" using assms that by (meson leD)
  with Cons show ?case by (simp add: inter_add_right1)
qed simp

lemma sorted_inter_mset:
  "sorted xs \<Longrightarrow> sorted ys \<Longrightarrow> mset (sorted_inter xs ys) = mset xs \<inter># mset ys"
proof (induction xs arbitrary: ys)
  case (Cons x xs)
  let ?zs = "dropWhile (\<lambda>y. y < x) ys"
  have sz: "sorted ?zs" using Cons.prems(2) by (rule sorted_dropWhile)
  have eq: "mset (x # xs) \<inter># mset ys = mset (x # xs) \<inter># mset ?zs"
    using Cons.prems(1) by (intro mset_dropWhile_inter [symmetric]) auto
  show ?case
  proof (cases ?zs)
    case Nil
    then have "sorted_inter (x # xs) ys = []" by (simp only: sorted_inter.simps list.case)
    moreover have "mset (x # xs) \<inter># mset ys = {#}" using eq unfolding Nil by simp
    ultimately show ?thesis by (simp only: mset.simps)
  next
    case (Cons y ys')
    then have "\<not> y < x" by (metis hd_dropWhile list.discI list.sel(1))
    moreover from this have "x \<notin># mset (y # ys')" if "y \<noteq> x" using that Cons sz by auto
    ultimately show ?thesis using Cons sz Cons.IH [of ys'] Cons.IH [of "y # ys'"] Cons.prems(1) eq
      by (auto simp: inter_add_left1)
  qed
qed simp

lemma sorted_inter_sorted: "sorted xs \<Longrightarrow> sorted (sorted_inter xs ys) \<and> set (sorted_inter xs ys) \<subseteq> set xs"
proof (induction xs arbitrary: ys)
  case (Cons x xs)
  have IH: "sorted (sorted_inter xs zs)" "set (sorted_inter xs zs) \<subseteq> set xs" for zs
    using Cons.IH [of zs] Cons.prems by auto
  have "sorted (x # sorted_inter xs zs)" for zs using IH [of zs] Cons.prems by auto
  then show ?case using IH Cons.prems by (cases "dropWhile (\<lambda>y. y < x) ys") (auto simp del: dropWhile_eq_Nil_conv, blast+)
qed simp

lemma sorted_inter_commute:
  assumes "sorted xs" "sorted ys"
  shows "sorted_inter xs ys = sorted_inter ys xs"
proof -
  have "mset (sorted_inter xs ys) = mset (sorted_inter ys xs)"
    using assms by (simp add: sorted_inter_mset subset_mset.inf_commute)
  with assms show ?thesis
    by (metis properties_for_sort sorted_inter_sorted)
qed

lemma sorted_inter_miss:
  assumes "dropWhile (\<lambda>y. y < x) ys = zs" "zs \<noteq> [] \<Longrightarrow> hd zs \<noteq> x"
  shows "sorted_inter (x # xs) ys = sorted_inter xs zs"
proof (cases zs)
  case Nil
  then have "sorted_inter (x # xs) ys = []" by (simp only: sorted_inter.simps assms(1) list.case)
  with Nil show ?thesis by (cases xs) simp_all
qed (use assms in simp)

lemma skip_below_drop: "oi \<le> length ys \<Longrightarrow> drop (skip_below ys t oi) ys = dropWhile (\<lambda>y. y < t) (drop oi ys)
   \<and> skip_below ys t oi \<le> length ys"
proof (induction ys t oi rule: skip_below.induct)
  case (1 ys t oi)
  show ?case
  proof (cases "oi < length ys \<and> ys ! oi < t")
    case True
    then have "skip_below ys t oi = skip_below ys t (Suc oi)" by (subst skip_below.simps) simp
    with True 1 show ?thesis by (simp flip: Cons_nth_drop_Suc)
  next
    case False
    then have "dropWhile (\<lambda>y. y < t) (drop oi ys) = drop oi ys"
      by (cases "oi < length ys") (auto simp flip: Cons_nth_drop_Suc)
    moreover from False have "skip_below ys t oi = oi" by (subst skip_below.simps) auto
    ultimately show ?thesis using 1(2) by simp
  qed
qed

lemma take_Suc_update: "w < length xs \<Longrightarrow> take (Suc w) (xs[w := t]) = take w xs @ [t]"
  by (simp add: take_Suc_conv_app_nth)

lemma two_pointer_inter:
  assumes "ci \<le> length cur" "oi \<le> length other" "wr \<le> ci"
  shows "\<exists>v w. two_pointer (length cur) cur other ci oi wr = Ok (v, w) \<and> w \<le> length v \<and>
     take w v = take wr cur @ sorted_inter (drop ci cur) (drop oi other)"
  using assms
proof (induction "length cur - ci" arbitrary: cur ci oi wr)
  case 0
  then show ?case by (subst two_pointer.simps) simp
next
  case (Suc n)
  then have ci: "ci < length cur" by simp
  let ?t = "cur ! ci" and ?oi = "skip_below other (cur ! ci) oi"
  note sk = skip_below_drop [OF Suc.prems(2), of ?t]
  have dc: "drop ci cur = ?t # drop (Suc ci) cur" using ci by (simp add: Cons_nth_drop_Suc)
  show ?case
  proof (cases "?oi = length other")
    case True
    with sk have "dropWhile (\<lambda>y. y < ?t) (drop oi other) = []" by simp
    with True ci Suc.prems dc show ?thesis
      by (subst two_pointer.simps) (simp add: Let_def del: dropWhile_eq_Nil_conv)
  next
    case False
    with sk have oi: "?oi < length other" by simp
    then have dro: "dropWhile (\<lambda>y. y < ?t) (drop oi other) = other ! ?oi # drop (Suc ?oi) other"
      using sk by (simp add: Cons_nth_drop_Suc)
    show ?thesis
    proof (cases "other ! ?oi = ?t")
      case True
      let ?c = "cur[wr := ?t]"
      have "\<exists>v w. two_pointer (length ?c) ?c other (Suc ci) (Suc ?oi) (Suc wr) = Ok (v, w) \<and> w \<le> length v \<and>
          take w v = take (Suc wr) ?c @ sorted_inter (drop (Suc ci) ?c) (drop (Suc ?oi) other)"
        using Suc.prems Suc.hyps(2) ci oi by (intro Suc.hyps(1)) auto
      with True ci oi dro dc Suc.prems show ?thesis
        by (subst two_pointer.simps) (simp add: Let_def take_Suc_update)
    next
      case False
      have "\<exists>v w. two_pointer (length cur) cur other (Suc ci) ?oi wr = Ok (v, w) \<and> w \<le> length v \<and>
          take w v = take wr cur @ sorted_inter (drop (Suc ci) cur) (drop ?oi other)"
        using Suc.prems Suc.hyps(2) ci oi by (intro Suc.hyps(1)) auto
      moreover have "sorted_inter (drop ci cur) (drop oi other) = sorted_inter (drop (Suc ci) cur) (drop ?oi other)"
        unfolding dc using hd_drop_conv_nth [OF oi] sk False by (intro sorted_inter_miss) auto
      ultimately show ?thesis using False ci oi
        by (subst two_pointer.simps) (simp add: Let_def)
    qed
  qed
qed

lemma scan_result_dropWhile:
  "scan_result xs s t (Inr i) \<Longrightarrow> dropWhile (\<lambda>y. y < t) (drop s xs) = t # drop (Suc i) xs"
  "scan_result xs s t (Inl i) \<Longrightarrow> dropWhile (\<lambda>y. y < t) (drop s xs) = drop i xs
     \<and> (i < length xs \<longrightarrow> xs ! i \<noteq> t)"
  by (auto simp: scan_result_def lower_bound_dropWhile simp flip: Cons_nth_drop_Suc)

lemma scan_result_le: "scan_result xs s t (Inr i) \<Longrightarrow> i < length xs" "scan_result xs s t (Inl i) \<Longrightarrow> i \<le> length xs"
  by (auto simp: scan_result_def lower_bound_def)

context slice_search
begin

lemma retain_gallop_inter:
  assumes "sorted other" "off \<le> length other"
  shows "retain_gallop bs xs other off = Some (Ok (sorted_inter xs (drop off other)))"
  using assms(2)
proof (induction xs arbitrary: off)
  case (Cons x xs)
  obtain r where r: "scan_for_offset bs other off x = Some (Ok r)" "scan_result other off x r"
    using scan_for_offset_ok [OF assms(1) Cons.prems] by blast
  show ?case
  proof (cases r)
    case (Inr i)
    with r scan_result_dropWhile(1) [of other off x i]
    have "sorted_inter (x # xs) (drop off other) = x # sorted_inter xs (drop (Suc i) other)" by simp
    with Inr r scan_result_le(1) [of other off x i] Cons.IH [of "Suc i"] show ?thesis by simp
  next
    case (Inl i)
    with r scan_result_dropWhile(2) [of other off x i] scan_result_le(2) [of other off x i]
    have "sorted_inter (x # xs) (drop off other) = sorted_inter xs (drop i other)"
      by (intro sorted_inter_miss) (auto simp: hd_drop_conv_nth)
    with Inl r scan_result_le(2) [of other off x i] Cons.IH [of i] show ?thesis by simp
  qed
qed simp

lemma gallop_cur_inter:
  assumes "ci \<le> length cur" "oi \<le> length other" "wr \<le> ci" "sorted (drop ci cur)"
  shows "\<exists>v w. gallop_cur bs (length cur) cur other oi ci wr = Some (Ok (v, w)) \<and> w \<le> length v \<and>
     take w v = take wr cur @ sorted_inter (drop oi other) (drop ci cur)"
  using assms
proof (induction "length other - oi" arbitrary: cur ci oi wr)
  case 0
  then show ?case by (subst gallop_cur.simps) simp
next
  case (Suc n)
  then have oi: "oi < length other" by simp
  let ?t = "other ! oi"
  have dro: "drop oi other = ?t # drop (Suc oi) other" using oi by (simp add: Cons_nth_drop_Suc)
  show ?case
  proof (cases "ci < length cur")
    case False
    with oi Suc.prems dro show ?thesis by (subst gallop_cur.simps) simp
  next
    case ci: True
    obtain r where r: "scan_for_offset bs (drop ci cur) 0 ?t = Some (Ok r)" "scan_result (drop ci cur) 0 ?t r"
      using scan_for_offset_ok [OF Suc.prems(4), of 0] by auto
    show ?thesis
    proof (cases r)
      case (Inr i)
      with r(2) have dw: "dropWhile (\<lambda>y. y < ?t) (drop ci cur) = ?t # drop (Suc (ci + i)) cur"
        and i: "ci + i < length cur"
        using scan_result_dropWhile(1) [of "drop ci cur" 0 ?t i] scan_result_le(1) [of "drop ci cur" 0 ?t i]
        by (simp_all add: add.commute)
      let ?c = "cur[wr := ?t]"
      have "sorted (drop (Suc (ci + i)) cur)"
        using sorted_wrt_drop [OF Suc.prems(4), of "Suc i"] by (simp add: add.commute)
      then have "\<exists>v w. gallop_cur bs (length ?c) ?c other (Suc oi) (Suc (ci + i)) (Suc wr) = Some (Ok (v, w)) \<and>
          w \<le> length v \<and> take w v = take (Suc wr) ?c @ sorted_inter (drop (Suc oi) other) (drop (Suc (ci + i)) ?c)"
        using Suc.prems Suc.hyps(2) i oi by (intro Suc.hyps(1)) auto
      with Inr r(1) ci oi dro dw Suc.prems(3) show ?thesis
        by (subst gallop_cur.simps) (simp add: Let_def take_Suc_update)
    next
      case (Inl i)
      with r(2) have dw: "dropWhile (\<lambda>y. y < ?t) (drop ci cur) = drop (ci + i) cur"
        and i: "ci + i \<le> length cur" "ci + i < length cur \<longrightarrow> cur ! (ci + i) \<noteq> ?t"
        using scan_result_dropWhile(2) [of "drop ci cur" 0 ?t i] scan_result_le(2) [of "drop ci cur" 0 ?t i] ci
        by (auto simp: add.commute)
      have miss: "sorted_inter (drop oi other) (drop ci cur) = sorted_inter (drop (Suc oi) other) (drop (ci + i) cur)"
        unfolding dro using dw i by (intro sorted_inter_miss) (auto simp: hd_drop_conv_nth)
      have "sorted (drop (ci + i) cur)"
        using sorted_wrt_drop [OF Suc.prems(4), of i] by (simp add: add.commute)
      then have "\<exists>v w. gallop_cur bs (length cur) cur other (Suc oi) (ci + i) wr = Some (Ok (v, w)) \<and>
          w \<le> length v \<and> take w v = take wr cur @ sorted_inter (drop (Suc oi) other) (drop (ci + i) cur)"
        using Suc.prems Suc.hyps(2) i oi by (intro Suc.hyps(1)) auto
      with Inl r(1) ci oi miss show ?thesis
        by (subst gallop_cur.simps) (simp add: Let_def)
    qed
  qed
qed

lemma intersect_sparse_inter:
  assumes "sorted cur" "sorted other"
  shows "intersect_sparse bs cur other = Some (Ok (sorted_inter cur other))"
proof -
  obtain v w where v: "two_pointer (length cur) cur other 0 0 0 = Ok (v, w)" "take w v = sorted_inter cur other"
    using two_pointer_inter [of 0 cur 0 other 0] by auto
  obtain v' w' where v': "gallop_cur bs (length cur) cur other 0 0 0 = Some (Ok (v', w'))"
    "take w' v' = sorted_inter cur other"
    using gallop_cur_inter [of 0 cur 0 other 0] assms sorted_inter_commute [OF assms] by auto
  from v v' retain_gallop_inter [OF assms(2), of 0 cur] show ?thesis
    by (simp add: intersect_sparse_def Let_def)
qed

end

section \<open>Well-formed subsets\<close>

definition subset_wf :: "subset \<Rightarrow> bool" where
  "subset_wf s =
     (case s of
        Dense r \<Rightarrow> range_start r \<le> range_end r \<and> range_end r \<le> u32_max
      | Sparse v \<Rightarrow> sorted v \<and> (\<forall>x \<in> set v. x < u32_max))"

lemma subset_wf_simps [simp]:
  "subset_wf (Dense r) \<longleftrightarrow> range_start r \<le> range_end r \<and> range_end r \<le> u32_max"
  "subset_wf (Sparse v) \<longleftrightarrow> sorted v \<and> (\<forall>x \<in> set v. x < u32_max)"
  by (simp_all add: subset_wf_def)

lemma rows_simps [simp]:
  "rows (Dense r) = [range_start r..<range_end r]"
  "rows (Sparse v) = v"
  by (simp_all add: rows_def range_offsets_def id_range_def)

lemma sorted_rows: "subset_wf s \<Longrightarrow> sorted (rows s)"
  by (cases s) simp_all

lemma lower_bound_mono:
  assumes "lower_bound v 0 a l" "lower_bound v 0 b r" "a \<le> b"
  shows "l \<le> r"
  using assms unfolding lower_bound_def by (metis le0 le_trans not_le nat_le_linear)

lemma lower_bound_slice:
  assumes "lower_bound v 0 a l" "lower_bound v 0 b r" "a \<le> b"
  shows "take (r - l) (drop l v) = filter (\<lambda>x. a \<le> x \<and> x < b) v"
proof -
  have lr: "l \<le> r" using assms by (rule lower_bound_mono)
  have "drop r v = drop (r - l) (drop l v)" using lr by simp
  then have v: "v = take l v @ take (r - l) (drop l v) @ drop r v" by (metis append_take_drop_id)
  have "\<forall>x \<in> set (take l v). x < a" "\<forall>x \<in> set (drop r v). b \<le> x"
    using assms(1,2) by (auto simp: in_set_conv_nth lower_bound_def)
  then have "filter (\<lambda>x. a \<le> x \<and> x < b) (take l v) = []" "filter (\<lambda>x. a \<le> x \<and> x < b) (drop r v) = []"
    by (auto simp: filter_empty_conv leD)
  moreover have "filter (\<lambda>x. a \<le> x \<and> x < b) (take (r - l) (drop l v)) = take (r - l) (drop l v)"
    using assms(1,2) by (auto simp: filter_id_conv in_set_conv_nth lower_bound_def)
  ultimately show ?thesis using arg_cong [OF v, of "filter (\<lambda>x. a \<le> x \<and> x < b)"] by simp
qed

lemma set_sorted_inter:
  "sorted xs \<Longrightarrow> sorted ys \<Longrightarrow> set (sorted_inter xs ys) = set xs \<inter> set ys"
  by (metis sorted_inter_mset set_mset_inter set_mset_mset)

lemma distinct_sorted_inter:
  "sorted xs \<Longrightarrow> distinct xs \<Longrightarrow> distinct (sorted_inter xs ys)"
proof (induction xs arbitrary: ys)
  case (Cons x xs)
  have "x \<notin> set (sorted_inter xs zs)" for zs using sorted_inter_sorted [of xs zs] Cons.prems by auto
  with Cons show ?case by (cases "dropWhile (\<lambda>y. y < x) ys") (auto simp del: dropWhile_eq_Nil_conv)
qed simp

context slice_search
begin

lemma by_id_ok: "sorted v \<Longrightarrow> \<exists>i. binary_search_by_id bs v t = Ok i \<and> lower_bound v 0 t i"
  using binary_search_from_ok [of v 0 t] by (auto simp: binary_search_by_id_def)

lemma intersect_dense_sparse:
  assumes "subset_wf (Dense d)" "subset_wf (Sparse v)"
  shows "\<exists>s. intersect bs (Dense d) (Sparse v) = Some (Ok s) \<and>
     rows s = filter (\<lambda>x. range_start d \<le> x \<and> x < range_end d) v \<and> subset_wf s"
proof (cases "v = []")
  case True
  then show ?thesis by (simp add: slice_bounds_def range_new_def)
next
  case False
  then have b: "slice_bounds v = Ok (Some (hd v, last v + 1))"
    using assms(2) by (simp add: slice_bounds_def from_usize_def Suc_le_eq)
  obtain l r where l: "binary_search_by_id bs v (range_start d) = Ok l" "lower_bound v 0 (range_start d) l"
    and r: "binary_search_by_id bs v (range_end d) = Ok r" "lower_bound v 0 (range_end d) r"
    using by_id_ok assms(2) by (metis subset_wf_simps(2))
  let ?f = "filter (\<lambda>x. range_start d \<le> x \<and> x < range_end d) v"
  have slice: "take (r - l) (drop l v) = ?f"
    using l(2) r(2) assms(1) by (intro lower_bound_slice) auto
  have wf: "subset_wf (Sparse ?f)" using assms(2) by (simp add: sorted_wrt_filter)
  show ?thesis
  proof (cases "r \<le> l")
    case True
    with slice have "?f = []" by simp
    with True show ?thesis using b l(1) r(1) by (simp add: range_new_def)
  next
    case lt: False
    then have "vec_slice v l r = Ok ?f" using r(2) slice by (simp add: lower_bound_def)
    with lt show ?thesis using b l(1) r(1) wf by (simp add: extend_nonoverlapping_def)
  qed
qed

lemma intersect_sparse_dense:
  assumes "subset_wf (Sparse v)" "subset_wf (Dense d)"
  shows "\<exists>s. intersect bs (Sparse v) (Dense d) = Some (Ok s) \<and>
     rows s = filter (\<lambda>x. range_start d \<le> x \<and> x < range_end d) v \<and> subset_wf s"
proof -
  have srt: "sorted v" using assms(1) by simp
  obtain l where l: "binary_search_by_id bs v (range_start d) = Ok l" "lower_bound v 0 (range_start d) l"
    using by_id_ok [OF srt] by blast
  have below: "\<forall>j < l. v ! j < range_end d" "l \<le> length v"
    using l(2) assms(2) by (auto simp: lower_bound_def intro: less_le_trans)
  obtain r where r: "binary_search_from bs v l (range_end d) = Ok r" "lower_bound v 0 (range_end d) r"
    "lower_bound v l (range_end d) r"
    using binary_search_from_ok [OF srt below(2,1)] by blast
  let ?f = "filter (\<lambda>x. range_start d \<le> x \<and> x < range_end d) v"
  have slice: "take (r - l) (drop l v) = ?f"
    using l(2) r(2) assms(2) by (intro lower_bound_slice) auto
  have lr: "l \<le> r" "r \<le> length v" using r(3) by (simp_all add: lower_bound_def)
  then have "length ?f = r - l" by (simp flip: slice)
  moreover have "vec_slice v l r = Ok ?f" using lr slice by simp
  ultimately have "copy_within_truncate v l r = Ok ?f" by (simp add: copy_within_truncate_def)
  moreover have "subset_wf (Sparse ?f)" using assms(1) by (simp add: sorted_wrt_filter)
  ultimately show ?thesis using l(1) r(1) slice by (cases "l = 0") simp_all
qed

lemma intersect_ok:
  assumes "subset_wf s" "subset_wf s'"
  shows "\<exists>t. intersect bs s s' = Some (Ok t) \<and> subset_wf t \<and> set (rows t) = set (rows s) \<inter> set (rows s')
    \<and> (distinct (rows s) \<longrightarrow> distinct (rows s') \<longrightarrow> distinct (rows t))"
proof (cases s; cases s')
  fix a b assume "s = Dense a" "s' = Dense b"
  with assms show ?thesis by (auto simp: Let_def range_new_def)
next
  fix a b assume "s = Dense a" "s' = Sparse b"
  with assms intersect_dense_sparse [of a b] show ?thesis by fastforce
next
  fix a b assume "s = Sparse a" "s' = Dense b"
  with assms intersect_sparse_dense [of a b] show ?thesis by fastforce
next
  fix a b assume "s = Sparse a" "s' = Sparse b"
  with assms show ?thesis
    using set_sorted_inter [of a b] sorted_inter_sorted [of a b] distinct_sorted_inter [of a b]
    by (auto simp: intersect_sparse_inter)
qed

end

subsection \<open>Growing and filtering\<close>

lemma add_row_sorted_ok:
  assumes "subset_wf s" "\<forall>x \<in> set (rows s). x \<le> row" "row < u32_max"
  shows "\<exists>t. add_row_sorted s row = Ok t \<and> subset_wf t \<and> rows t = rows s @ [row]"
proof (cases s)
  case (Dense r)
  consider "range_end r = range_start r" | "range_start r < range_end r" "range_end r = row"
    | "range_start r < range_end r" "range_end r \<noteq> row"
    using assms(1) Dense by fastforce
  then show ?thesis
  proof cases
    case 3
    with assms Dense have "last [range_start r..<range_end r] \<le> row" by (auto simp: last_conv_nth)
    moreover have "sorted ([range_start r..<range_end r] @ [row])"
      using assms(2) Dense by (simp add: sorted_append)
    ultimately show ?thesis using Dense assms 3
      by (auto simp: add_row_sorted_def fill_from_dense_def vec_push_def)
  qed (use Dense assms in \<open>auto simp: add_row_sorted_def id_inc_def from_usize_def\<close>)
next
  case (Sparse v)
  with assms have "v = [] \<or> last v \<le> row" by (cases v) auto
  with Sparse assms show ?thesis by (auto simp: add_row_sorted_def vec_push_def sorted_append)
qed

lemma retain_dense_ok:
  assumes "subset_wf s" "sorted rs" "\<forall>x \<in> set rs. x < u32_max" "\<forall>x \<in> set (rows s). \<forall>y \<in> set rs. x \<le> y"
  shows "\<exists>t. retain_dense f rs s = Ok t \<and> subset_wf t \<and> rows t = rows s @ filter f rs"
  using assms
proof (induction rs arbitrary: s)
  case (Cons r rs)
  show ?case
  proof (cases "f r")
    case True
    obtain t where t: "add_row_sorted s r = Ok t" "subset_wf t" "rows t = rows s @ [r]"
      using add_row_sorted_ok [of s r] Cons.prems by auto
    with Cons.IH [of t] Cons.prems True show ?thesis by auto
  next
    case False
    with Cons.IH [of s] Cons.prems show ?thesis by auto
  qed
qed simp

lemma iter_bounded_ok:
  assumes "subset_wf s" "st \<le> en" "st \<le> length (rows s)"
  shows "iter_bounded s st en =
     Ok (take (en - st) (drop st (rows s)), if en < length (rows s) then Some en else None)"
proof (cases s)
  case (Dense r)
  let ?vis = "[range_start r + st..<min (range_start r + en) (range_end r)]"
  have "?vis = take (en - st) (drop st (rows s))"
    using assms(2) Dense by (auto simp: min_def take_upt drop_upt)
  moreover have "st + length ?vis = min en (length (rows s))"
    using assms Dense by (auto simp: min_def)
  ultimately show ?thesis using Dense by (auto simp: iter_bounded_def Let_def min_def)
next
  case (Sparse v)
  with assms show ?thesis by (auto simp: iter_bounded_def Let_def min_def)
qed

text \<open>A caller that drains a subset in chunks of \<open>n\<close> rows, resuming where the last one stopped.\<close>

partial_function (option) chunks :: "subset \<Rightarrow> nat \<Rightarrow> nat \<Rightarrow> nat list list comp" where
  "chunks s n st =
     run_then (Some (iter_bounded s st (st + n))) (\<lambda>(vis, nxt).
       case nxt of
         None \<Rightarrow> Some (Ok [vis])
       | Some st' \<Rightarrow> run_then (chunks s n st') (\<lambda>vs. Some (Ok (vis # vs))))"

lemma chunks_ok:
  assumes "subset_wf s" "0 < n" "st \<le> length (rows s)"
  shows "\<exists>vs. chunks s n st = Some (Ok vs) \<and> concat vs = drop st (rows s) \<and> (\<forall>v \<in> set vs. length v \<le> n)"
  using assms(3)
proof (induction "length (rows s) - st" arbitrary: st rule: less_induct)
  case less
  note it = iter_bounded_ok [OF assms(1) _ less.prems, of "st + n"]
  show ?case
  proof (cases "st + n < length (rows s)")
    case False
    with it show ?thesis by (subst chunks.simps) simp
  next
    case True
    then have "length (rows s) - (st + n) < length (rows s) - st" "st + n \<le> length (rows s)"
      using assms(2) by auto
    from less.hyps [OF this] obtain vs where vs: "chunks s n (st + n) = Some (Ok vs)" "concat vs = drop (st + n) (rows s)"
      "\<forall>v \<in> set vs. length v \<le> n"
      by blast
    have "take n (drop st (rows s)) @ drop (st + n) (rows s) = drop st (rows s)"
      by (metis append_take_drop_id drop_drop add.commute)
    with vs it True show ?thesis by (subst chunks.simps) simp
  qed
qed

text \<open>
  A row below the upper bound of a dense range does not make \<open>add_row_sorted\<close> panic: the last row
  is accepted again and repeated.
\<close>

lemma add_row_sorted_repeats:
  "add_row_sorted (Dense \<lparr>range_start = 3, range_end = 5\<rparr>) 4 = Ok (Sparse [3, 4, 4])"
  by (simp add: add_row_sorted_def fill_from_dense_def vec_push_def upt_rec)

lemma retain_filters:
  assumes "subset_wf s"
  shows "\<exists>t. retain s f = Ok t \<and> subset_wf t \<and> rows t = filter f (rows s)"
proof (cases s)
  case (Dense r)
  have e: "subset_wf subset_empty" "rows subset_empty = []" by (auto simp: subset_empty_def range_new_def)
  with retain_dense_ok [OF e(1), of "rows s" f] Dense assms show ?thesis
    by (auto simp: retain_def range_offsets_def id_range_def)
next
  case (Sparse v)
  with assms show ?thesis by (auto simp: retain_def sorted_wrt_filter)
qed

section \<open>Properties\<close>

text \<open>
  The galloping search returns for every sorted slice and every start inside it, whatever
  match the library's binary search picks among duplicates.  It reports the first position at or
  after the start that holds the target, or else the position of the first larger element.
\<close>

theorem scan_for_offset_lower_bound:
  assumes "slice_search bs" "sorted xs" "s \<le> length xs"
  shows "\<exists>r. scan_for_offset bs xs s t = Some (Ok r) \<and>
    (case r of
       Inr i \<Rightarrow> s \<le> i \<and> i < length xs \<and> xs ! i = t \<and> (\<forall>j. s \<le> j \<longrightarrow> j < i \<longrightarrow> xs ! j < t)
     | Inl i \<Rightarrow> s \<le> i \<and> i \<le> length xs \<and> (\<forall>j. s \<le> j \<longrightarrow> j < i \<longrightarrow> xs ! j < t)
         \<and> (\<forall>j. i \<le> j \<longrightarrow> j < length xs \<longrightarrow> t < xs ! j))"
proof -
  obtain r where r: "scan_for_offset bs xs s t = Some (Ok r)" "scan_result xs s t r"
    using slice_search.scan_for_offset_ok [OF assms] by blast
  have "t < xs ! j" if "i \<le> j" "j < length xs" "t < xs ! i" for i j
    using sorted_nth_mono [OF assms(2), of i j] that by simp
  with r show ?thesis
    by (intro exI [of _ r]) (auto simp: scan_result_def lower_bound_def split: sum.splits)
qed

theorem scan_for_offset_lower_bound_witness:
  "\<exists>r. scan_for_offset std_binary_search [2, 3, 5, 5, 5, 8, 9, 13] 1 5 = Some (Ok r) \<and>
    (case r of Inr i \<Rightarrow> 1 \<le> i \<and> i < 8 \<and> (\<forall>j. 1 \<le> j \<longrightarrow> j < i \<longrightarrow> [2, 3, 5, 5, 5, 8, 9, 13] ! j < (5::nat)) | Inl i \<Rightarrow> True)"
  using scan_for_offset_lower_bound [OF slice_search_std, of "[2, 3, 5, 5, 5, 8, 9, 13]" 1 5]
  by (auto split: sum.splits)

text \<open>
  C36: Intersecting two well-formed subsets, dense or sparse and of any relative sizes, returns
  without a panic a well-formed subset with exactly the common rows; when neither operand
  repeats a row, its rows are those of the first operand, in order, that are in the second.
\<close>

theorem intersect_correct:
  assumes "slice_search bs" "subset_wf s" "subset_wf other"
  shows "\<exists>t. intersect bs s other = Some (Ok t) \<and> subset_wf t
    \<and> set (rows t) = set (rows s) \<inter> set (rows other)
    \<and> (distinct (rows s) \<and> distinct (rows other) \<longrightarrow> rows t = filter (\<lambda>x. x \<in> set (rows other)) (rows s))"
proof -
  obtain t where t: "intersect bs s other = Some (Ok t)" "subset_wf t"
    "set (rows t) = set (rows s) \<inter> set (rows other)"
    "distinct (rows s) \<longrightarrow> distinct (rows other) \<longrightarrow> distinct (rows t)"
    using slice_search.intersect_ok [OF assms] by blast
  moreover have "rows t = filter (\<lambda>x. x \<in> set (rows other)) (rows s)"
    if "distinct (rows s)" "distinct (rows other)"
    using t that sorted_rows [OF t(2)] sorted_rows [OF assms(2)]
    by (intro sorted_distinct_set_unique) (auto simp: sorted_wrt_filter)
  ultimately show ?thesis by blast
qed

theorem intersect_correct_witness:
  "\<exists>t. intersect std_binary_search (Sparse [2, 4, 7]) (Dense \<lparr>range_start = 3, range_end = 9\<rparr>) = Some (Ok t)
     \<and> rows t = [4, 7]"
  using intersect_correct [OF slice_search_std, of "Sparse [2, 4, 7]" "Dense \<lparr>range_start = 3, range_end = 9\<rparr>"]
  by (auto simp: u32_max_def)

text \<open>
  Appending a row that is not below the present ones keeps a subset well formed and adds
  exactly that row, whether the subset stays dense or turns sparse; filtering a subset with
  \<open>retain\<close> never panics and leaves exactly the rows that pass, in order.
\<close>

theorem add_row_and_retain:
  assumes "subset_wf s" "\<forall>x \<in> set (rows s). x \<le> row" "row < u32_max"
  shows "(\<exists>t. add_row_sorted s row = Ok t \<and> subset_wf t \<and> rows t = rows s @ [row])
    \<and> (\<exists>t. retain s f = Ok t \<and> subset_wf t \<and> rows t = filter f (rows s))"
proof
  show "\<exists>t. add_row_sorted s row = Ok t \<and> subset_wf t \<and> rows t = rows s @ [row]"
    using assms by (rule add_row_sorted_ok)
  show "\<exists>t. retain s f = Ok t \<and> subset_wf t \<and> rows t = filter f (rows s)"
    using assms(1) by (rule retain_filters)
qed

theorem add_row_and_retain_witness:
  "\<exists>t. add_row_sorted (Dense \<lparr>range_start = 3, range_end = 5\<rparr>) 8 = Ok t \<and> rows t = [3, 4, 8]"
  using add_row_and_retain [of "Dense \<lparr>range_start = 3, range_end = 5\<rparr>" 8 "\<lambda>_. True"]
  by (auto simp: u32_max_def)

text \<open>
  Draining a well-formed subset in chunks through \<open>iter_bounded\<close>, each call resuming at the
  position the previous one returned, ends after finitely many calls; no chunk exceeds its
  bound and the chunks together are the rows of the subset, in order and without repetition.
\<close>

theorem iter_bounded_chunks:
  assumes "subset_wf s" "0 < n"
  shows "\<exists>vs. chunks s n 0 = Some (Ok vs) \<and> concat vs = rows s \<and> (\<forall>v \<in> set vs. length v \<le> n)"
  using chunks_ok [OF assms, of 0] by simp

theorem iter_bounded_chunks_witness:
  "\<exists>vs. chunks (Sparse [2, 4, 7]) 2 0 = Some (Ok vs) \<and> concat vs = [2, 4, 7]"
  using iter_bounded_chunks [of "Sparse [2, 4, 7]" 2] by (auto simp: u32_max_def)

end
