(* ===== verification/TermDag.thy ===== *)
theory TermDag
  imports Prelude "HOL-Library.List_Lexorder" "HOL-Library.Char_ord" "HOL-Library.Sublist"
begin

text \<open>
  Hash-consed terms: \<open>egglog/src/termdag.rs\<close> and the expressions and literals of
  \<open>egglog/egglog-ast/src/generic_ast.rs\<close>.  A term DAG is the list of its nodes in insertion
  order (an \<open>IndexSet\<close>), and an expression, without source spans, is the tree a node unfolds to.
  The theory shows that ids and trees correspond one to one, that interning and reading back
  are inverse, and that the worklist comparison \<open>ast_cmp\<close> is a total order on trees.
\<close>

section \<open>Literals, expressions and terms\<close>

text \<open>
  A float is represented by its position in the total order of \<open>OrderedFloat\<close>, the only thing
  about it that the code below observes.
\<close>

datatype literal = IntL int | FloatL int | StringL string | BoolL bool | UnitL

datatype ('h, 'l) generic_expr =
    EVar 'l
  | ECall 'h "('h, 'l) generic_expr list"
  | ELit literal

datatype ('h, 'l) generic_term = Lit literal | Var 'l | App 'h "nat list"

record ('h, 'l) term_dag =
  nodes :: "('h, 'l) generic_term list"

definition dag_default :: "('h, 'l) term_dag" where
  "dag_default = \<lparr>nodes = []\<rparr>"

text \<open>The derived order on literals: by constructor, then by payload.\<close>

fun lit_rank :: "literal \<Rightarrow> nat" where
  "lit_rank (IntL _) = 0"
| "lit_rank (FloatL _) = 1"
| "lit_rank (StringL _) = 2"
| "lit_rank (BoolL _) = 3"
| "lit_rank UnitL = 4"

fun literal_le :: "literal \<Rightarrow> literal \<Rightarrow> bool" where
  "literal_le (IntL a) (IntL b) = (a \<le> b)"
| "literal_le (FloatL a) (FloatL b) = (a \<le> b)"
| "literal_le (StringL a) (StringL b) = (a \<le> b)"
| "literal_le (BoolL a) (BoolL b) = (a \<le> b)"
| "literal_le x y = (lit_rank x \<le> lit_rank y)"

lemma literal_le_refl: "literal_le x x"
  by (cases x) simp_all

lemma literal_le_linear: "literal_le x y \<or> literal_le y x"
  by (cases x; cases y) auto

lemma literal_le_antisym: "literal_le x y \<Longrightarrow> literal_le y x \<Longrightarrow> x = y"
  by (cases x; cases y) auto

lemma literal_le_trans: "literal_le x y \<Longrightarrow> literal_le y z \<Longrightarrow> literal_le x z"
  by (cases x; cases y; cases z) auto

instantiation literal :: linorder
begin

definition less_eq_literal :: "literal \<Rightarrow> literal \<Rightarrow> bool" where
  "x \<le> y \<longleftrightarrow> literal_le x y"

definition less_literal :: "literal \<Rightarrow> literal \<Rightarrow> bool" where
  "x < y \<longleftrightarrow> literal_le x y \<and> \<not> literal_le y x"

instance
  by standard
    (auto simp: less_eq_literal_def less_literal_def literal_le_refl literal_le_linear
      intro: literal_le_antisym literal_le_trans)

end

section \<open>Operations of the DAG\<close>

text \<open>\<open>IndexSet::get_index_of\<close>.\<close>

fun index_of :: "'a list \<Rightarrow> 'a \<Rightarrow> nat option" where
  "index_of [] x = None"
| "index_of (y # ys) x = (if y = x then Some 0 else map_option Suc (index_of ys x))"

definition dag_size :: "('h, 'l) term_dag \<Rightarrow> nat" where
  "dag_size d = length (nodes d)"

definition dag_lookup :: "('h, 'l) term_dag \<Rightarrow> ('h, 'l) generic_term \<Rightarrow> nat result" where
  "dag_lookup d n = ok_or (index_of (nodes d) n) UnwrapNone"

definition dag_get :: "('h, 'l) term_dag \<Rightarrow> nat \<Rightarrow> ('h, 'l) generic_term result" where
  "dag_get d i = ok_or (get_opt (nodes d) i) UnwrapNone"

definition dag_nodes :: "('h, 'l) term_dag \<Rightarrow> (nat \<times> ('h, 'l) generic_term) list" where
  "dag_nodes d = enumerate 0 (nodes d)"

definition add_node :: "('h, 'l) term_dag \<Rightarrow> ('h, 'l) generic_term \<Rightarrow> nat \<times> ('h, 'l) term_dag" where
  "add_node d n =
     (case index_of (nodes d) n of
        Some i \<Rightarrow> (i, d)
      | None \<Rightarrow> (length (nodes d), d\<lparr>nodes := nodes d @ [n]\<rparr>))"

definition dag_app :: "('h, 'l) term_dag \<Rightarrow> 'h \<Rightarrow> nat list \<Rightarrow> nat \<times> ('h, 'l) term_dag" where
  "dag_app d f cs = add_node d (App f cs)"

definition dag_lit :: "('h, 'l) term_dag \<Rightarrow> literal \<Rightarrow> nat \<times> ('h, 'l) term_dag" where
  "dag_lit d l = add_node d (Lit l)"

definition dag_var :: "('h, 'l) term_dag \<Rightarrow> 'l \<Rightarrow> nat \<times> ('h, 'l) term_dag" where
  "dag_var d v = add_node d (Var v)"

fun expr_to_term :: "('h, 'l) term_dag \<Rightarrow> ('h, 'l) generic_expr \<Rightarrow> nat \<times> ('h, 'l) term_dag"
  and exprs_to_terms :: "('h, 'l) term_dag \<Rightarrow> ('h, 'l) generic_expr list \<Rightarrow> nat list \<times> ('h, 'l) term_dag"
where
  "expr_to_term d (ELit l) = add_node d (Lit l)"
| "expr_to_term d (EVar v) = add_node d (Var v)"
| "expr_to_term d (ECall f es) = (let (cs, d) = exprs_to_terms d es in add_node d (App f cs))"
| "exprs_to_terms d [] = ([], d)"
| "exprs_to_terms d (e # es) =
     (let (c, d) = expr_to_term d e; (cs, d) = exprs_to_terms d es in (c # cs, d))"

text \<open>Reading a term back recurses over ids, so it runs on fuel; \<open>None\<close> is running out of it.\<close>

fun term_to_expr :: "nat \<Rightarrow> ('h, 'l) term_dag \<Rightarrow> nat \<Rightarrow> ('h, 'l) generic_expr comp"
  and terms_to_exprs :: "nat \<Rightarrow> ('h, 'l) term_dag \<Rightarrow> nat list \<Rightarrow> ('h, 'l) generic_expr list comp"
where
  "term_to_expr 0 d i = None"
| "term_to_expr (Suc k) d i =
     run_then (Some (dag_get d i)) (\<lambda>t.
       case t of
         Lit l \<Rightarrow> Some (Ok (ELit l))
       | Var v \<Rightarrow> Some (Ok (EVar v))
       | App f cs \<Rightarrow> run_then (terms_to_exprs k d cs) (\<lambda>es. Some (Ok (ECall f es))))"
| "terms_to_exprs k d [] = Some (Ok [])"
| "terms_to_exprs k d (c # cs) =
     run_then (term_to_expr k d c) (\<lambda>e. run_then (terms_to_exprs k d cs) (\<lambda>es. Some (Ok (e # es))))"

text \<open>The worklist of \<open>ast_cmp\<close>, a stack of pairs whose top is the head of the list.\<close>

datatype ordering = Less | Equal | Greater

definition cmp :: "'a :: linorder \<Rightarrow> 'a \<Rightarrow> ordering" where
  "cmp x y = (if x < y then Less else if x = y then Equal else Greater)"

definition then_with :: "ordering \<Rightarrow> ordering \<Rightarrow> ordering" where
  "then_with o1 o2 = (case o1 of Equal \<Rightarrow> o2 | _ \<Rightarrow> o1)"

text \<open>Comparing two different nodes either decides or pushes the pairs of children.\<close>

definition node_cmp :: "('h :: linorder, 'l :: linorder) generic_term \<Rightarrow> ('h, 'l) generic_term \<Rightarrow>
    ordering + (nat \<times> nat) list" where
  "node_cmp s t =
     (case (s, t) of
        (Lit x, Lit y) \<Rightarrow> Inl (cmp x y)
      | (Lit _, _) \<Rightarrow> Inl Less
      | (_, Lit _) \<Rightarrow> Inl Greater
      | (Var x, Var y) \<Rightarrow> Inl (cmp x y)
      | (Var _, _) \<Rightarrow> Inl Less
      | (_, Var _) \<Rightarrow> Inl Greater
      | (App f xs, App g ys) \<Rightarrow>
          (case then_with (cmp f g) (cmp (length xs) (length ys)) of
             Equal \<Rightarrow> Inr (zip xs ys)
           | r \<Rightarrow> Inl r))"

partial_function (option) ast_cmp_loop ::
  "(string, string) term_dag \<Rightarrow> (nat \<times> nat) list \<Rightarrow> ordering comp" where
  "ast_cmp_loop d w =
     (case w of
        [] \<Rightarrow> Some (Ok Equal)
      | (a, b) # w \<Rightarrow>
          if a = b then ast_cmp_loop d w
          else run_then (Some (dag_get d a)) (\<lambda>s.
               run_then (Some (dag_get d b)) (\<lambda>t.
                 case node_cmp s t of
                   Inl r \<Rightarrow> if r \<noteq> Equal then Some (Ok r) else ast_cmp_loop d w
                 | Inr ps \<Rightarrow> ast_cmp_loop d (ps @ w))))"

definition ast_cmp :: "(string, string) term_dag \<Rightarrow> nat \<Rightarrow> nat \<Rightarrow> ordering comp" where
  "ast_cmp d a b = ast_cmp_loop d [(a, b)]"

section \<open>Well-formed DAGs and the trees of their nodes\<close>

fun children :: "('h, 'l) generic_term \<Rightarrow> nat list" where
  "children (App f cs) = cs"
| "children _ = []"

definition dag_wf :: "('h, 'l) term_dag \<Rightarrow> bool" where
  "dag_wf d \<longleftrightarrow> distinct (nodes d) \<and> (\<forall>i < length (nodes d). \<forall>c \<in> set (children (nodes d ! i)). c < i)"

text \<open>The tree below a node; ids that are not of the DAG are mapped to the unit literal.\<close>

fun tree :: "('h, 'l) term_dag \<Rightarrow> nat \<Rightarrow> ('h, 'l) generic_expr" where
  "tree d i =
     (if i < length (nodes d)
      then (case nodes d ! i of
              Lit l \<Rightarrow> ELit l
            | Var v \<Rightarrow> EVar v
            | App f cs \<Rightarrow> ECall f (map (\<lambda>c. if c < i then tree d c else ELit UnitL) cs))
      else ELit UnitL)"

declare tree.simps [simp del]

text \<open>The tree of a node whose children are in the DAG.\<close>

definition node_tree :: "('h, 'l) term_dag \<Rightarrow> ('h, 'l) generic_term \<Rightarrow> ('h, 'l) generic_expr" where
  "node_tree d n = (case n of Lit l \<Rightarrow> ELit l | Var v \<Rightarrow> EVar v | App f cs \<Rightarrow> ECall f (map (tree d) cs))"

definition extends :: "('h, 'l) term_dag \<Rightarrow> ('h, 'l) term_dag \<Rightarrow> bool" where
  "extends d d' \<longleftrightarrow> prefix (nodes d) (nodes d')"

lemma dag_wfD: "dag_wf d \<Longrightarrow> i < length (nodes d) \<Longrightarrow> c \<in> set (children (nodes d ! i)) \<Longrightarrow> c < i"
  by (simp add: dag_wf_def)

lemma tree_node:
  assumes "dag_wf d" "i < length (nodes d)"
  shows "tree d i = node_tree d (nodes d ! i)"
  using assms dag_wfD [OF assms] by (subst tree.simps) (auto simp: node_tree_def split: generic_term.splits)

lemma dag_wf_default [simp]: "dag_wf dag_default"
  by (simp add: dag_wf_def dag_default_def)

lemma index_of_Some_iff: "distinct xs \<Longrightarrow> index_of xs x = Some i \<longleftrightarrow> i < length xs \<and> xs ! i = x"
proof (induction xs arbitrary: i)
  case (Cons y ys)
  then show ?case by (cases i) (auto simp: in_set_conv_nth)
qed simp

lemma index_of_None_iff: "index_of xs x = None \<longleftrightarrow> x \<notin> set xs"
  by (induction xs) auto

text \<open>Hash-consing: distinct ids stand for distinct trees.\<close>

lemma tree_inject:
  assumes "dag_wf d" "i < length (nodes d)" "j < length (nodes d)" "tree d i = tree d j"
  shows "i = j"
  using assms(2-)
proof (induction i arbitrary: j rule: less_induct)
  case (less i)
  note ti = tree_node [OF assms(1) less.prems(1)] and tj = tree_node [OF assms(1) less.prems(2)]
  have "nodes d ! i = nodes d ! j"
  proof (cases "nodes d ! i")
    case (App f cs)
    with ti tj less.prems(3) obtain ds where ds: "nodes d ! j = App f ds" "map (tree d) cs = map (tree d) ds"
      by (cases "nodes d ! j") (auto simp: node_tree_def)
    have "cs ! k = ds ! k" if "k < length cs" for k
    proof -
      have l: "length cs = length ds" using ds(2) by (metis length_map)
      have "cs ! k < i" "ds ! k < j"
        using dag_wfD [OF assms(1) less.prems(1)] dag_wfD [OF assms(1) less.prems(2)] App ds(1) that l by auto
      moreover have "tree d (cs ! k) = tree d (ds ! k)" using ds(2) that l by (metis nth_map)
      ultimately show ?thesis using less.IH less.prems by auto
    qed
    with ds(2) have "cs = ds" by (metis length_map nth_equalityI)
    with App ds(1) show ?thesis by simp
  qed (use ti tj less.prems(3) in \<open>cases "nodes d ! j"; simp add: node_tree_def\<close>)+
  with less.prems assms(1) show ?case by (simp add: dag_wf_def nth_eq_iff_index_eq)
qed

section \<open>Growing a DAG\<close>

lemma extends_refl [simp]: "extends d d"
  by (simp add: extends_def)

lemma extends_trans [trans]: "extends d d' \<Longrightarrow> extends d' d'' \<Longrightarrow> extends d d''"
  unfolding extends_def by (rule prefix_order.trans)

lemma extends_length: "extends d d' \<Longrightarrow> length (nodes d) \<le> length (nodes d')"
  by (simp add: extends_def prefix_length_le)

lemma extends_less: "extends d d' \<Longrightarrow> i < length (nodes d) \<Longrightarrow> i < length (nodes d')"
  using extends_length by fastforce

lemma extends_nth: "extends d d' \<Longrightarrow> i < length (nodes d) \<Longrightarrow> nodes d' ! i = nodes d ! i"
  by (auto simp: extends_def prefix_def nth_append)

lemma tree_extends: "extends d d' \<Longrightarrow> i < length (nodes d) \<Longrightarrow> tree d' i = tree d i"
proof (induction i rule: less_induct)
  case (less i)
  then have "nodes d' ! i = nodes d ! i" "i < length (nodes d')" by (simp_all add: extends_nth extends_less)
  moreover have "tree d' c = tree d c" if "c < i" for c using less that by simp
  ultimately show ?case using less.prems
    by (subst (1 2) tree.simps) (auto split: generic_term.splits)
qed

text \<open>What every operation that interns does: it keeps the DAG and its trees.\<close>

definition interns :: "('h, 'l) term_dag \<Rightarrow> ('h, 'l) generic_expr \<Rightarrow> nat \<times> ('h, 'l) term_dag \<Rightarrow> bool" where
  "interns d e r \<longleftrightarrow> (case r of (i, d') \<Rightarrow>
     dag_wf d' \<and> extends d d' \<and> i < length (nodes d') \<and> tree d' i = e)"

lemma add_node_interns:
  assumes wf: "dag_wf d" and cs: "\<forall>c \<in> set (children n). c < length (nodes d)"
  shows "interns d (node_tree d n) (add_node d n)"
proof (cases "index_of (nodes d) n")
  case None
  let ?d = "d\<lparr>nodes := nodes d @ [n]\<rparr>"
  have ext: "extends d ?d" by (simp add: extends_def)
  have wf': "dag_wf ?d" using wf cs None
    by (auto simp: dag_wf_def index_of_None_iff nth_append less_Suc_eq)
  have "tree ?d (length (nodes d)) = node_tree ?d n" using wf' by (subst tree_node) simp_all
  also have "\<dots> = node_tree d n"
    using cs tree_extends [OF ext] by (auto simp: node_tree_def split: generic_term.splits)
  finally show ?thesis using None wf' ext by (simp add: add_node_def interns_def)
next
  case (Some i)
  then have "i < length (nodes d)" "nodes d ! i = n"
    using wf by (auto simp: dag_wf_def index_of_Some_iff)
  with Some wf show ?thesis by (auto simp: add_node_def interns_def tree_node)
qed

lemma internsD:
  "interns d e (i, d') \<Longrightarrow> dag_wf d' \<and> extends d d' \<and> i < length (nodes d') \<and> tree d' i = e"
  by (simp add: interns_def)

lemma expr_to_term_interns:
  fixes d :: "('h, 'l) term_dag"
  shows "dag_wf d \<Longrightarrow> interns d e (expr_to_term d e)"
    "dag_wf d \<Longrightarrow> exprs_to_terms d es = (cs, d') \<Longrightarrow>
      dag_wf d' \<and> extends d d' \<and> (\<forall>c \<in> set cs. c < length (nodes d')) \<and> map (tree d') cs = es"
proof (induction d e and d es arbitrary: and cs d' rule: expr_to_term_exprs_to_terms.induct)
  case (1 d l)
  then show ?case using add_node_interns [of d "Lit l"] by (simp add: node_tree_def)
next
  case (2 d v)
  then show ?case using add_node_interns [of d "Var v"] by (simp add: node_tree_def)
next
  case (3 d f es)
  obtain cs d' where r: "exprs_to_terms d es = (cs, d')" by fastforce
  with 3 have IH: "dag_wf d'" "extends d d'" "\<forall>c \<in> set cs. c < length (nodes d')" "map (tree d') cs = es"
    by auto
  obtain i d'' where a: "add_node d' (App f cs) = (i, d'')" by fastforce
  have "interns d' (ECall f es) (i, d'')"
    using add_node_interns [OF IH(1), of "App f cs"] IH(3,4) by (simp add: a node_tree_def)
  with IH(2) show ?case by (auto simp: r a interns_def intro: extends_trans)
next
  case (4 d)
  then show ?case by simp
next
  case (5 d e es)
  obtain c d1 where c: "expr_to_term d e = (c, d1)" by fastforce
  obtain ks d2 where k: "exprs_to_terms d1 es = (ks, d2)" by fastforce
  from 5(1) 5(3) c have i: "dag_wf d1" "extends d d1" "c < length (nodes d1)" "tree d1 c = e"
    by (auto dest: internsD)
  from 5(2) [OF c [symmetric] refl i(1) k]
  have j: "dag_wf d2" "extends d1 d2" "\<forall>c \<in> set ks. c < length (nodes d2)" "map (tree d2) ks = es" by auto
  from 5(4) c k have "cs = c # ks" "d' = d2" by auto
  with i j show ?case by (auto simp: tree_extends intro: extends_trans dest: extends_less)
qed

section \<open>Reading terms back\<close>

lemma dag_get_ok [simp]: "i < length (nodes d) \<Longrightarrow> dag_get d i = Ok (nodes d ! i)"
  by (simp add: dag_get_def get_opt_def)

lemma term_to_expr_tree:
  "dag_wf d \<Longrightarrow> i < length (nodes d) \<Longrightarrow> i < k \<Longrightarrow> term_to_expr k d i = Some (Ok (tree d i))"
  "dag_wf d \<Longrightarrow> \<forall>c \<in> set cs. c < length (nodes d) \<and> c < k \<Longrightarrow>
     terms_to_exprs k d cs = Some (Ok (map (tree d) cs))"
proof (induction k d i and k d cs rule: term_to_expr_terms_to_exprs.induct)
  case (2 k d i)
  show ?case
  proof (cases "nodes d ! i")
    case (App f cs)
    with 2 have "terms_to_exprs k d cs = Some (Ok (map (tree d) cs))"
      using dag_wfD [OF 2(2,3)] by fastforce
    with App 2 show ?thesis by (simp add: tree_node node_tree_def)
  qed (use 2 in \<open>simp_all add: tree_node node_tree_def\<close>)
qed auto

section \<open>The structural order\<close>

fun tree_cmp :: "('h :: linorder, 'l :: linorder) generic_expr \<Rightarrow> ('h, 'l) generic_expr \<Rightarrow> ordering"
  and trees_cmp :: "('h :: linorder, 'l :: linorder) generic_expr list \<Rightarrow> ('h, 'l) generic_expr list \<Rightarrow> ordering"
where
  "tree_cmp (ELit x) (ELit y) = cmp x y"
| "tree_cmp (ELit x) _ = Less"
| "tree_cmp _ (ELit y) = Greater"
| "tree_cmp (EVar x) (EVar y) = cmp x y"
| "tree_cmp (EVar x) _ = Less"
| "tree_cmp _ (EVar y) = Greater"
| "tree_cmp (ECall f xs) (ECall g ys) =
     then_with (cmp f g) (then_with (cmp (length xs) (length ys)) (trees_cmp xs ys))"
| "trees_cmp (x # xs) (y # ys) = then_with (tree_cmp x y) (trees_cmp xs ys)"
| "trees_cmp _ _ = Equal"

lemma cmp_simps [simp]:
  "cmp x y = Less \<longleftrightarrow> x < y" "cmp x y = Equal \<longleftrightarrow> x = y" "cmp x y = Greater \<longleftrightarrow> y < x"
  "cmp x x = Equal"
  by (auto simp: cmp_def)

lemma then_with_simps [simp]:
  "then_with Less r = Less" "then_with Equal r = r" "then_with Greater r = Greater"
  by (simp_all add: then_with_def)

lemma then_with_iff:
  "then_with r s = Equal \<longleftrightarrow> r = Equal \<and> s = Equal"
  "then_with r s = Less \<longleftrightarrow> r = Less \<or> r = Equal \<and> s = Less"
  by (cases r; simp)+

lemma then_with_assoc: "then_with (then_with r s) t = then_with r (then_with s t)"
  by (cases r) simp_all

lemma tree_cmp_eq_iff:
  fixes s t :: "('h :: linorder, 'l :: linorder) generic_expr" and xs ys :: "('h, 'l) generic_expr list"
  shows "tree_cmp s t = Equal \<longleftrightarrow> s = t"
  "length xs = length ys \<Longrightarrow> trees_cmp xs ys = Equal \<longleftrightarrow> xs = ys"
proof (induction s t and xs ys rule: tree_cmp_trees_cmp.induct)
qed (auto simp: then_with_iff)

lemma tree_cmp_refl [simp]: "tree_cmp t t = Equal"
  by (simp add: tree_cmp_eq_iff)

lemma trees_cmp_append:
  "length xs = length ys \<Longrightarrow>
   trees_cmp (xs @ xs') (ys @ ys') = then_with (trees_cmp xs ys) (trees_cmp xs' ys')"
  by (induction xs ys rule: list_induct2) (simp_all add: then_with_assoc)

fun flip_ord :: "ordering \<Rightarrow> ordering" where
  "flip_ord Less = Greater" | "flip_ord Equal = Equal" | "flip_ord Greater = Less"

lemma flip_then_with: "flip_ord (then_with r s) = then_with (flip_ord r) (flip_ord s)"
  by (cases r) simp_all

lemma flip_cmp: "flip_ord (cmp x y) = cmp y x"
  by (auto simp: cmp_def)

lemma tree_cmp_flip:
  fixes s t :: "('h :: linorder, 'l :: linorder) generic_expr" and xs ys :: "('h, 'l) generic_expr list"
  shows "tree_cmp t s = flip_ord (tree_cmp s t)"
  "trees_cmp ys xs = flip_ord (trees_cmp xs ys)"
  by (induction s t and xs ys rule: tree_cmp_trees_cmp.induct) (simp_all add: flip_then_with flip_cmp)

lemma trees_cmp_trans:
  assumes "\<And>x y z. x \<in> set xs \<Longrightarrow> tree_cmp x y = Less \<Longrightarrow> tree_cmp y z = Less \<Longrightarrow> tree_cmp x z = Less"
    "length xs = length ys" "length ys = length zs" "trees_cmp xs ys = Less" "trees_cmp ys zs = Less"
  shows "trees_cmp xs zs = Less"
  using assms(2,3,1,4,5)
proof (induction xs ys zs rule: list_induct3)
  case (Cons x xs y ys z zs)
  then show ?case by (auto simp: then_with_iff tree_cmp_eq_iff)
qed simp

lemma tree_cmp_trans:
  "tree_cmp s t = Less \<Longrightarrow> tree_cmp t u = Less \<Longrightarrow> tree_cmp s u = Less"
proof (induction s arbitrary: t u)
  case (EVar x)
  then show ?case by (cases t; cases u) auto
next
  case (ELit x)
  then show ?case by (cases t; cases u) auto
next
  case (ECall f xs)
  from ECall.prems obtain g ys h zs where tu: "t = ECall g ys" "u = ECall h zs" by (cases t; cases u) auto
  have tr: "trees_cmp xs zs = Less" if "length xs = length ys" "length ys = length zs"
      "trees_cmp xs ys = Less" "trees_cmp ys zs = Less"
    using ECall.IH that by (rule trees_cmp_trans)
  have facts: "f < g \<or> f = g \<and> (length xs < length ys \<or> length xs = length ys \<and> trees_cmp xs ys = Less)"
    "g < h \<or> g = h \<and> (length ys < length zs \<or> length ys = length zs \<and> trees_cmp ys zs = Less)"
    using ECall.prems tu by (simp_all add: then_with_iff)
  show ?case
  proof (cases "f = g \<and> g = h")
    case False
    with facts have "f < h" by auto
    with tu show ?thesis by (simp add: then_with_iff)
  next
    case eq: True
    show ?thesis
    proof (cases "length xs = length ys \<and> length ys = length zs")
      case False
      with facts eq have "length xs < length zs" by auto
      with tu eq show ?thesis by (simp add: then_with_iff)
    next
      case True
      with facts eq have "trees_cmp xs zs = Less" by (intro tr) auto
      with True tu eq show ?thesis by (simp add: then_with_iff)
    qed
  qed
qed

text \<open>The worklist computes the lexicographic comparison of its pairs.\<close>

definition pairs_cmp :: "(string, string) term_dag \<Rightarrow> (nat \<times> nat) list \<Rightarrow> ordering" where
  "pairs_cmp d w = trees_cmp (map (tree d \<circ> fst) w) (map (tree d \<circ> snd) w)"

lemma node_cmp_tree:
  "tree_cmp (node_tree d s) (node_tree d t) =
     (case node_cmp s t of Inl r \<Rightarrow> r | Inr ps \<Rightarrow> trees_cmp (map (tree d \<circ> fst) ps) (map (tree d \<circ> snd) ps))"
proof (cases "\<exists>f xs g ys. s = App f xs \<and> t = App g ys")
  case True
  then obtain f xs g ys where st: "s = App f xs" "t = App g ys" by blast
  show ?thesis
  proof (cases "then_with (cmp f g) (cmp (length xs) (length ys))")
    case Equal
    then have "length xs = length ys" by (simp add: then_with_iff)
    then have "map (tree d \<circ> fst) (zip xs ys) = map (tree d) xs" "map (tree d \<circ> snd) (zip xs ys) = map (tree d) ys"
      by (simp_all flip: map_map)
    with Equal show ?thesis by (simp add: st node_cmp_def node_tree_def flip: then_with_assoc)
  qed (simp_all add: st node_cmp_def node_tree_def flip: then_with_assoc)
next
  case False
  then show ?thesis by (cases s; cases t) (simp_all add: node_cmp_def node_tree_def)
qed

lemma node_cmp_children:
  "node_cmp s t = Inr ps \<Longrightarrow> length (children s) = length (children t) \<and> ps = zip (children s) (children t)"
  by (cases s; cases t) (auto simp: node_cmp_def then_with_iff split: ordering.splits)

lemma ast_cmp_loop_pairs:
  assumes "dag_wf d" "\<forall>(a, b) \<in> set w. a < length (nodes d) \<and> b < length (nodes d)"
  shows "ast_cmp_loop d w = Some (Ok (pairs_cmp d w))"
  using assms(2)
proof (induction "size_list (\<lambda>(a, b). size (tree d a)) w" arbitrary: w rule: less_induct)
  case less
  show ?case
  proof (cases w)
    case Nil
    then show ?thesis by (subst ast_cmp_loop.simps) (simp add: pairs_cmp_def)
  next
    case (Cons p w')
    obtain a b where p: "p = (a, b)" by (cases p)
    with less.prems Cons have ab: "a < length (nodes d)" "b < length (nodes d)"
      and w': "\<forall>(a, b) \<in> set w'. a < length (nodes d) \<and> b < length (nodes d)" by auto
    have IH: "ast_cmp_loop d w' = Some (Ok (pairs_cmp d w'))"
      using less.hyps [of w'] w' by (simp add: Cons p)
    let ?s = "nodes d ! a" and ?t = "nodes d ! b"
    have split: "pairs_cmp d w = then_with (tree_cmp (node_tree d ?s) (node_tree d ?t)) (pairs_cmp d w')"
      using ab by (simp add: pairs_cmp_def Cons p tree_node [OF assms(1)])
    show ?thesis
    proof (cases "a = b")
      case True
      with IH split show ?thesis by (subst ast_cmp_loop.simps) (simp add: Cons p)
    next
      case ne: False
      show ?thesis
      proof (cases "node_cmp ?s ?t")
        case (Inl r)
        with ne IH split ab show ?thesis
          by (subst ast_cmp_loop.simps) (cases r; simp add: Cons p node_cmp_tree)
      next
        case (Inr ps)
        note ch = node_cmp_children [OF Inr]
        have ids: "\<forall>(a, b) \<in> set (ps @ w'). a < length (nodes d) \<and> b < length (nodes d)"
          using ch w' ab dag_wfD [OF assms(1) ab(1)] dag_wfD [OF assms(1) ab(2)]
          by (fastforce dest: set_zip_leftD set_zip_rightD)
        have "size_list (\<lambda>(a, b). size (tree d a)) (zip xs ys) = size_list (size \<circ> tree d) xs"
          if "length xs = length ys" for xs ys :: "nat list"
          using that by (induction xs ys rule: list_induct2) auto
        moreover have "size_list (size \<circ> tree d) (children ?s) < size (tree d a) + 1"
          using tree_node [OF assms(1) ab(1)] by (cases ?s) (simp_all add: node_tree_def size_list_map)
        ultimately have "ast_cmp_loop d (ps @ w') = Some (Ok (pairs_cmp d (ps @ w')))"
          using ids ch by (intro less.hyps) (simp_all add: Cons p)
        moreover have "pairs_cmp d (ps @ w') =
            then_with (trees_cmp (map (tree d \<circ> fst) ps) (map (tree d \<circ> snd) ps)) (pairs_cmp d w')"
          by (simp add: pairs_cmp_def trees_cmp_append)
        then have "pairs_cmp d (ps @ w') = pairs_cmp d w" by (simp add: split node_cmp_tree Inr)
        ultimately show ?thesis using ne ab Inr
          by (subst ast_cmp_loop.simps) (simp add: Cons p)
      qed
    qed
  qed
qed

section \<open>Interning what is already there\<close>

lemma exprs_to_terms_present:
  "\<forall>c \<in> set cs. expr_to_term d (tree d c) = (c, d) \<Longrightarrow> exprs_to_terms d (map (tree d) cs) = (cs, d)"
  by (induction cs) auto

lemma add_node_present:
  "dag_wf d \<Longrightarrow> i < length (nodes d) \<Longrightarrow> add_node d (nodes d ! i) = (i, d)"
  using index_of_Some_iff [of "nodes d" "nodes d ! i" i] by (simp add: add_node_def dag_wf_def)

lemma expr_to_term_present:
  "dag_wf d \<Longrightarrow> i < length (nodes d) \<Longrightarrow> expr_to_term d (tree d i) = (i, d)"
proof (induction i rule: less_induct)
  case (less i)
  note add = add_node_present [OF less.prems] and t = tree_node [OF less.prems]
  show ?case
  proof (cases "nodes d ! i")
    case (App f cs)
    have "\<forall>c \<in> set cs. expr_to_term d (tree d c) = (c, d)"
      using less dag_wfD [OF less.prems] App by (metis children.simps(1) less_trans)
    with App t add show ?thesis by (simp add: node_tree_def exprs_to_terms_present)
  qed (use t add in \<open>simp_all add: node_tree_def\<close>)
qed

lemma term_to_expr_size:
  "dag_wf d \<Longrightarrow> i < dag_size d \<Longrightarrow> term_to_expr (dag_size d) d i = Some (Ok (tree d i))"
  by (simp add: dag_size_def term_to_expr_tree)

section \<open>Properties\<close>

text \<open>
  C33: Interning an expression and reading the resulting id back gives the expression, within a
  recursion depth bounded by the number of nodes.  Interning keeps the DAG well formed and every
  id that was there before still reads back as the same expression.
\<close>

theorem intern_read_back:
  assumes "dag_wf d" "expr_to_term d e = (i, d')"
  shows "dag_wf d' \<and> i < dag_size d' \<and> term_to_expr (dag_size d') d' i = Some (Ok e)
    \<and> (\<forall>j < dag_size d. term_to_expr (dag_size d') d' j = term_to_expr (dag_size d) d j)"
proof -
  have d': "dag_wf d'" "extends d d'" "i < dag_size d'" "tree d' i = e"
    using expr_to_term_interns(1) [OF assms(1), of e] assms(2) by (auto simp: dag_size_def dest: internsD)
  have "term_to_expr (dag_size d') d' j = term_to_expr (dag_size d) d j" if "j < dag_size d" for j
    using that extends_less [OF d'(2), of j] tree_extends [OF d'(2), of j] assms(1) d'(1)
    by (simp add: dag_size_def term_to_expr_tree)
  with d' show ?thesis by (auto simp: term_to_expr_size)
qed

theorem intern_read_back_witness:
  "\<exists>i d'. expr_to_term dag_default (ECall ''f'' [EVar ''x'', ELit (IntL 3), EVar ''x'']) = (i, d') \<and>
     dag_size d' = 3 \<and> term_to_expr 3 d' i = Some (Ok (ECall ''f'' [EVar ''x'', ELit (IntL 3), EVar ''x'']))"
proof -
  let ?e = "ECall ''f'' [EVar ''x'', ELit (IntL 3), EVar ''x''] :: (string, string) generic_expr"
  have "\<exists>i d'. expr_to_term dag_default ?e = (i, d') \<and> dag_size d' = 3"
    by (simp add: add_node_def dag_default_def dag_size_def)
  with intern_read_back [of dag_default ?e] show ?thesis by fastforce
qed

text \<open>
  In a well-formed DAG ids and terms correspond one to one: two ids read back as the same
  expression only if they are equal, and interning an expression that an id reads back as
  returns that id and leaves the DAG unchanged.
\<close>

theorem ids_unique:
  assumes "dag_wf d" "i < dag_size d" "j < dag_size d"
  shows "(term_to_expr (dag_size d) d i = term_to_expr (dag_size d) d j \<longleftrightarrow> i = j)
    \<and> (\<exists>e. term_to_expr (dag_size d) d i = Some (Ok e) \<and> expr_to_term d e = (i, d))"
  using assms tree_inject [of d i j] expr_to_term_present [of d i]
  by (auto simp: term_to_expr_size) (simp add: dag_size_def)+

definition dag_sample :: "(string, string) term_dag" where
  "dag_sample = \<lparr>nodes = [Lit (IntL 1), App ''f'' [0], App ''f'' [0, 0], App ''g'' [1]]\<rparr>"

lemma dag_sample_wf: "dag_wf dag_sample"
  by (simp add: dag_wf_def dag_sample_def less_Suc_eq numeral_eq_Suc)

theorem ids_unique_witness:
  "term_to_expr (dag_size dag_sample) dag_sample 1 \<noteq> term_to_expr (dag_size dag_sample) dag_sample 3"
  using ids_unique [OF dag_sample_wf, of 1 3] by (simp add: dag_size_def dag_sample_def)

text \<open>
  C35: On the ids of a well-formed DAG \<open>ast_cmp\<close> always returns, whatever the sharing, and it is
  a total order: it answers equal exactly for equal ids, exchanging the arguments exchanges
  less and greater, and it is transitive.
\<close>

theorem ast_cmp_total_order:
  assumes "dag_wf d" "a < dag_size d" "b < dag_size d" "c < dag_size d"
  shows "(\<exists>r. ast_cmp d a b = Some (Ok r) \<and> ast_cmp d b a = Some (Ok (flip_ord r)) \<and> (r = Equal \<longleftrightarrow> a = b))
    \<and> (ast_cmp d a b = Some (Ok Less) \<and> ast_cmp d b c = Some (Ok Less) \<longrightarrow> ast_cmp d a c = Some (Ok Less))"
proof -
  have eq: "ast_cmp d i j = Some (Ok (tree_cmp (tree d i) (tree d j)))" if "i < dag_size d" "j < dag_size d" for i j
    using ast_cmp_loop_pairs [OF assms(1), of "[(i, j)]"] that
    by (simp add: ast_cmp_def pairs_cmp_def dag_size_def then_with_def split: ordering.splits)
  have "tree_cmp (tree d a) (tree d b) = Equal \<longleftrightarrow> a = b"
    using tree_inject [OF assms(1), of a b] assms(2,3) by (auto simp: tree_cmp_eq_iff dag_size_def)
  then show ?thesis using assms(2-4) by (auto simp: eq tree_cmp_flip(1) [of "tree d b"] intro: tree_cmp_trans)
qed

theorem ast_cmp_total_order_witness: "\<exists>r. ast_cmp dag_sample 1 2 = Some (Ok r) \<and> r \<noteq> Equal"
  using ast_cmp_total_order [OF dag_sample_wf, of 1 2 3] by (auto simp: dag_size_def dag_sample_def)

end
