(* ===== verification/ProofFormat.thy ===== *)
theory ProofFormat
  imports TermDag NumericId
begin

text \<open>
  The data that proofs and proof checking are about: resolved calls and expressions
  (\<open>egglog/src/core.rs\<close>), the actions, facts, rules and commands of a normalized program
  (\<open>egglog/egglog-ast/src/generic_ast.rs\<close>, \<open>egglog/src/ast/mod.rs\<close>), and propositions, proofs and
  the proof store (\<open>egglog/src/proofs/proof_format.rs\<close>).  Source spans, sorts and the options
  of a rule that do not influence proofs are left out.
\<close>

section \<open>Resolved programs\<close>

type_synonym dag = "(string, string) term_dag"

text \<open>
  A validator recomputes a primitive on term ids; it may intern new terms.  Validators belong
  to the primitives that an e-graph is configured with and are a parameter of the model.
\<close>

type_synonym validator = "dag \<Rightarrow> nat list \<Rightarrow> nat option \<times> dag"

datatype function_subtype = Constructor | Custom

record func_type =
  ft_name :: string
  ft_subtype :: function_subtype

text \<open>\<open>is_eq_container\<close> is the answer of \<open>output().is_eq_container_sort()\<close>.\<close>

record specialized_primitive =
  prim_name :: string
  prim_validator :: "validator option"
  is_eq_container :: bool

datatype resolved_call = Func func_type | Primitive specialized_primitive | Values

type_synonym resolved_expr = "(resolved_call, string) generic_expr"

definition call_name :: "resolved_call \<Rightarrow> string" where
  "call_name c =
     (case c of Func f \<Rightarrow> ft_name f | Primitive p \<Rightarrow> prim_name p | Values \<Rightarrow> ''values'')"

definition is_custom_func :: "resolved_call \<Rightarrow> bool" where
  "is_custom_func c = (case c of Func f \<Rightarrow> ft_subtype f = Custom | _ \<Rightarrow> False)"

text \<open>The variables of an expression, in the order of their occurrences.\<close>

fun expr_vars :: "('h, 'l) generic_expr \<Rightarrow> 'l list" where
  "expr_vars (ELit l) = []"
| "expr_vars (EVar v) = [v]"
| "expr_vars (ECall f es) = concat (map expr_vars es)"

datatype fact = EqFact resolved_expr resolved_expr | Fact resolved_expr

datatype action =
    Let string resolved_expr
  | Set resolved_call "resolved_expr list" resolved_expr
  | Change resolved_call "resolved_expr list"
  | Union resolved_expr resolved_expr
  | Panic string
  | Expr resolved_expr

record rule =
  rule_head :: "action list"
  rule_body :: "fact list"
  rule_name :: string

record generic_merge =
  merge_actions :: "action list"
  merge_result :: resolved_expr

record function_decl =
  fd_name :: string
  fd_merge :: "generic_merge option"

text \<open>The commands proof checking looks at; every other command is \<open>OtherCommand\<close>.\<close>

datatype ncommand =
    CoreAction action
  | NormRule rule
  | Function function_decl
  | OtherCommand

section \<open>Propositions and proofs\<close>

datatype propn = Proposition (prop_lhs: nat) (prop_rhs: nat)

datatype justification =
    Fiat
  | Rule string "nat list" "(string \<times> nat) list"
  | MergeFn string nat nat
  | Trans nat nat
  | Sym nat
  | Congr nat nat nat
  | Proj nat nat
  | ContainerNormalize nat
  | Eval

record proof_node =
  claim :: propn
  justified_by :: justification

definition proof_lhs :: "proof_node \<Rightarrow> nat" where
  "proof_lhs p = prop_lhs (claim p)"

definition proof_rhs :: "proof_node \<Rightarrow> nat" where
  "proof_rhs p = prop_rhs (claim p)"

text \<open>
  The part of a proof store that checking uses: its DAG, its proofs by id, the container
  normalizers by constructor head and the heads of self-evident value terms.
\<close>

record proof_store =
  store_dag :: dag
  id_to_proof :: "proof_node dense_id_map"
  container_normalizers :: "string \<rightharpoonup> validator"
  prim_value_constructors :: "string set"

section \<open>Failures\<close>

text \<open>
  A check ends with an error of the source, a panic, or, in the model only, without fuel.
  Where the source renders terms into an error message, the model keeps their ids.
\<close>

datatype (plugins only: code) error_kind =
    TermMismatch nat nat nat nat nat
  | TransitivityMismatch nat nat nat
  | CongruenceBaseNotApp nat
  | CongruenceChildIndexOutOfBounds nat nat nat
  | CongruenceChildMismatch nat nat nat nat
  | CongruenceResultMismatch nat nat nat
  | CongruenceLhsMismatch nat
  | ProjectionBaseNotApp nat
  | ProjectionChildIndexOutOfBounds nat nat nat
  | ProjectionResultMismatch nat nat nat nat nat
  | RulePremiseCountMismatch nat string nat nat
  | UnboundVariable string string
  | FunctionFactMismatch string nat nat nat
  | EqualityFactMismatch string fact nat nat nat nat
  | FactMismatch string fact nat nat
  | RuleHeadMismatch string nat nat
  | PrimitiveValidatorFailed string
  | PrimitiveNoValidator string
  | RuleNotFound string
  | FunctionNotFound string
  | InvalidFiat nat nat nat
  | MergeFnFunctionMismatch nat string string
  | MergeFnEmptyArgs nat string
  | MergeFnInputMismatch nat
  | MergeFnNotApp nat nat nat
  | MergeFnResultMismatch nat nat nat
  | MergeFnNotReflexive nat string nat nat
  | DuplicateRuleName string
  | ContainerNormalizeMismatch nat nat nat nat bool
  | EvalOutsideSideCondition nat
  | SideConditionMismatch string fact nat nat
  | SideConditionUnbound string fact
  | PrimitiveNonNormalArg string resolved_expr
  | ContainerPrimitiveNotSideCondition string resolved_expr

datatype failure = Check error_kind | Panicked panic | OutOfFuel

type_synonym 'a checked = "failure + 'a"

text \<open>A panic of a called operation is a panic of the check.\<close>

definition lift_panic :: "'a result \<Rightarrow> 'a checked" where
  "lift_panic r = (case r of Inl e \<Rightarrow> Err (Panicked e) | Inr x \<Rightarrow> Ok x)"

lemma lift_panic_simps [simp]:
  "lift_panic (Inl e) = Inl (Panicked e)" "lift_panic (Inr x) = Inr x"
  by (simp_all add: lift_panic_def)

lemma lift_panic_eq_Ok_iff [simp]: "lift_panic r = Inr x \<longleftrightarrow> r = Inr x"
  by (cases r) simp_all

section \<open>Lookups in a program\<close>

definition gather_global_actions :: "ncommand list \<Rightarrow> action list" where
  "gather_global_actions prog =
     List.map_filter (\<lambda>cmd. case cmd of CoreAction a \<Rightarrow> Some a | _ \<Rightarrow> None) prog"

fun find_rule :: "ncommand list \<Rightarrow> string \<Rightarrow> rule option" where
  "find_rule [] n = None"
| "find_rule (cmd # prog) n =
     (case cmd of
        NormRule r \<Rightarrow> if rule_name r = n then Some r else find_rule prog n
      | _ \<Rightarrow> find_rule prog n)"

text \<open>The merge body of the first declaration of a function.\<close>

fun find_merge :: "ncommand list \<Rightarrow> string \<Rightarrow> generic_merge checked" where
  "find_merge [] f = Err (Check (FunctionNotFound f))"
| "find_merge (cmd # prog) f =
     (case cmd of
        Function d \<Rightarrow>
          if fd_name d = f then ok_or (fd_merge d) (Check (FunctionNotFound f)) else find_merge prog f
      | _ \<Rightarrow> find_merge prog f)"

fun duplicate_rule_name :: "string set \<Rightarrow> ncommand list \<Rightarrow> string option" where
  "duplicate_rule_name seen [] = None"
| "duplicate_rule_name seen (cmd # prog) =
     (case cmd of
        NormRule r \<Rightarrow>
          if rule_name r \<in> seen then Some (rule_name r)
          else duplicate_rule_name (insert (rule_name r) seen) prog
      | _ \<Rightarrow> duplicate_rule_name seen prog)"

section \<open>Normalizing containers\<close>

definition normalize_container :: "proof_store \<Rightarrow> nat \<Rightarrow> (nat \<times> proof_store) checked" where
  "normalize_container s i =
     and_then (lift_panic (dag_get (store_dag s) i)) (\<lambda>t.
       case t of
         App head args \<Rightarrow>
           (case container_normalizers s head of
              None \<Rightarrow> Ok (i, s)
            | Some v \<Rightarrow>
                (let (r, d) = v (store_dag s) args in
                 Ok (case r of Some j \<Rightarrow> j | None \<Rightarrow> i, s\<lparr>store_dag := d\<rparr>)))
       | _ \<Rightarrow> Ok (i, s))"

section \<open>Subexpressions by position\<close>

text \<open>
  The pre-order walk of \<open>subexpr_at_index\<close>: it threads the counter of visited nodes and stops at
  the target.
\<close>

fun walk :: "('h, 'l) generic_expr \<Rightarrow> nat \<Rightarrow> nat \<Rightarrow> ('h, 'l) generic_expr option \<times> nat"
  and walk_args :: "('h, 'l) generic_expr list \<Rightarrow> nat \<Rightarrow> nat \<Rightarrow> ('h, 'l) generic_expr option \<times> nat"
where
  "walk e target counter =
     (if counter = target then (Some e, counter)
      else case e of
        ECall f es \<Rightarrow> walk_args es target (Suc counter)
      | _ \<Rightarrow> (None, Suc counter))"
| "walk_args [] target counter = (None, counter)"
| "walk_args (e # es) target counter =
     (case walk e target counter of
        (Some r, counter) \<Rightarrow> (Some r, counter)
      | (None, counter) \<Rightarrow> walk_args es target counter)"

definition subexpr_at_index :: "('h, 'l) generic_expr \<Rightarrow> nat \<Rightarrow> ('h, 'l) generic_expr option" where
  "subexpr_at_index e i = fst (walk e i 0)"

text \<open>The pre-order listing of the subexpressions.\<close>

fun preorder :: "('h, 'l) generic_expr \<Rightarrow> ('h, 'l) generic_expr list" where
  "preorder (ECall f es) = ECall f es # concat (map preorder es)"
| "preorder e = [e]"

lemma preorder_nonempty [simp]: "preorder e \<noteq> []"
  by (cases e) simp_all

lemma walk_preorder:
  fixes e :: "('h, 'l) generic_expr" and es :: "('h, 'l) generic_expr list"
  shows "c \<le> t \<Longrightarrow> walk e t c =
      (if t < c + length (preorder e) then (Some (preorder e ! (t - c)), t)
       else (None, c + length (preorder e)))"
    "c \<le> t \<Longrightarrow> walk_args es t c =
      (let ps = concat (map preorder es) in
       if t < c + length ps then (Some (ps ! (t - c)), t) else (None, c + length ps))"
proof (induction e t c and es t c rule: walk_walk_args.induct)
  case (1 e t c)
  show ?case
  proof (cases "c = t")
    case True
    then show ?thesis by (cases e) simp_all
  next
    case False
    with 1 have ct: "Suc c \<le> t" by simp
    then have sub: "t - c = Suc (t - Suc c)" by simp
    show ?thesis
    proof (cases e)
      case (ECall f es)
      with 1(1) [OF False ECall ct] False ct sub show ?thesis by (simp add: Let_def)
    qed (use False ct in auto)
  qed
next
  case (2 t c)
  then show ?case by simp
next
  case (3 e es t c)
  let ?p = "preorder e" and ?ps = "concat (map preorder es)"
  show ?case
  proof (cases "t < c + length ?p")
    case True
    with 3(3) have "t - c < length ?p" by simp
    with True 3(1) [OF 3(3)] show ?thesis by (simp add: Let_def nth_append del: walk.simps)
  next
    case False
    with 3(1) [OF 3(3)] have w: "walk e t c = (None, c + length ?p)" by simp
    have IH: "walk_args es t (c + length ?p) =
        (if t < c + length ?p + length ?ps then (Some (?ps ! (t - (c + length ?p))), t)
         else (None, c + length ?p + length ?ps))"
      using 3(2) [OF w [symmetric] refl] False by (simp add: Let_def)
    from False w IH show ?thesis by (auto simp: Let_def nth_append simp del: walk.simps)
  qed
qed

text \<open>
  \<open>subexpr_at_index\<close> returns the subexpression at the given position of the pre-order listing
  of an expression, the whole expression at position 0, and nothing beyond the last position.
\<close>

theorem subexpr_at_index_preorder:
  "subexpr_at_index e i = get_opt (preorder e) i \<and> subexpr_at_index e 0 = Some e"
proof -
  have "subexpr_at_index e j = get_opt (preorder e) j" for j
    using walk_preorder(1) [of 0 j e] by (auto simp: subexpr_at_index_def get_opt_def)
  moreover have "get_opt (preorder e) 0 = Some e" by (cases e) (simp_all add: get_opt_def)
  ultimately show ?thesis by simp
qed

end
