(* ===== verification/ProofEval.thy ===== *)
theory ProofEval
  imports ProofFormat
begin

text \<open>
  Evaluation in \<open>egglog/src/proofs/proof_checker.rs\<close>: expressions under a substitution, with the
  reflexive equalities they establish, and sequences of actions.  Each function is related to a
  semantics on trees, in which terms are values and not ids.
\<close>

section \<open>Model\<close>

type_synonym subst = "string \<rightharpoonup> nat"

text \<open>The depth-first walk with its \<open>seen\<close> set; the fuel bounds the depth of the recursion.\<close>

fun add_refl :: "nat \<Rightarrow> dag \<Rightarrow> nat \<Rightarrow> propn set \<Rightarrow> nat set \<Rightarrow> (propn set \<times> nat set) checked"
  and add_refls :: "nat \<Rightarrow> dag \<Rightarrow> nat list \<Rightarrow> propn set \<Rightarrow> nat set \<Rightarrow> (propn set \<times> nat set) checked"
where
  "add_refl 0 d i P seen = Err OutOfFuel"
| "add_refl (Suc k) d i P seen =
     (if i \<in> seen then Ok (P, seen)
      else
        and_then (lift_panic (dag_get d i)) (\<lambda>t.
          case t of
            App f cs \<Rightarrow> add_refls k d cs (insert (Proposition i i) P) (insert i seen)
          | _ \<Rightarrow> Ok (insert (Proposition i i) P, insert i seen)))"
| "add_refls k d [] P seen = Ok (P, seen)"
| "add_refls k d (c # cs) P seen =
     and_then (add_refl k d c P seen) (\<lambda>(P, seen). add_refls k d cs P seen)"

definition add_subterm_reflexive_equalities :: "nat \<Rightarrow> dag \<Rightarrow> propn set \<Rightarrow> propn set checked" where
  "add_subterm_reflexive_equalities i d P =
     and_then (add_refl (Suc (dag_size d)) d i P {}) (\<lambda>(P, _). Ok P)"

definition with_refl :: "nat \<Rightarrow> propn set \<Rightarrow> dag \<Rightarrow> (nat \<times> propn set \<times> dag) checked" where
  "with_refl i P d = and_then (add_subterm_reflexive_equalities i d P) (\<lambda>P. Ok (i, P, d))"

text \<open>The free function \<open>eval_expr_with_subst\<close>, which collects propositions.\<close>

fun eval_expr :: "string \<Rightarrow> resolved_expr \<Rightarrow> dag \<Rightarrow> subst \<Rightarrow> (nat \<times> propn set \<times> dag) checked"
  and eval_args :: "string \<Rightarrow> resolved_expr list \<Rightarrow> dag \<Rightarrow> subst \<Rightarrow> (nat list \<times> propn set \<times> dag) checked"
where
  "eval_expr rn (ELit l) d \<sigma> = (let (i, d) = dag_lit d l in with_refl i {} d)"
| "eval_expr rn (EVar x) d \<sigma> =
     and_then (ok_or (\<sigma> x) (Check (UnboundVariable rn x))) (\<lambda>i. with_refl i {} d)"
| "eval_expr rn (ECall h es) d \<sigma> =
     (case h of
        Func f \<Rightarrow>
          and_then (eval_args rn es d \<sigma>) (\<lambda>(ts, P, d).
            let (i, d) = dag_app d (call_name h) ts in with_refl i P d)
      | Primitive p \<Rightarrow>
          and_then (eval_args rn es d \<sigma>) (\<lambda>(ts, P, d).
          and_then (ok_or (prim_validator p) (Panicked UnwrapNone)) (\<lambda>v.
            case v d ts of
              (None, _) \<Rightarrow> Err (Check (PrimitiveValidatorFailed (prim_name p)))
            | (Some i, d) \<Rightarrow> with_refl i P d))
      | Values \<Rightarrow> Err (Panicked ExplicitPanic))"
| "eval_args rn [] d \<sigma> = Ok ([], {}, d)"
| "eval_args rn (e # es) d \<sigma> =
     and_then (eval_expr rn e d \<sigma>) (\<lambda>(t, P, d).
     and_then (eval_args rn es d \<sigma>) (\<lambda>(ts, Q, d). Ok (t # ts, P \<union> Q, d)))"

record action_context =
  var_bindings :: subst
  propositions :: "propn set"

text \<open>One iteration of the loop of \<open>process_actions\<close>.\<close>

definition process_action :: "string \<Rightarrow> action \<Rightarrow> action_context \<Rightarrow> dag \<Rightarrow> (action_context \<times> dag) checked" where
  "process_action rn a ctx d =
     (let \<sigma> = var_bindings ctx; learn = (\<lambda>P. ctx\<lparr>propositions := propositions ctx \<union> P\<rparr>) in
      case a of
        Let x e \<Rightarrow>
          and_then (eval_expr rn e d \<sigma>) (\<lambda>(i, P, d).
            Ok ((learn P)\<lparr>var_bindings := \<sigma>(x \<mapsto> i)\<rparr>, d))
      | Union l r \<Rightarrow>
          and_then (eval_expr rn l d \<sigma>) (\<lambda>(i, P, d).
          and_then (eval_expr rn r d \<sigma>) (\<lambda>(j, Q, d).
            Ok (learn (P \<union> Q \<union> {Proposition i j, Proposition j i}), d)))
      | Set f args rhs \<Rightarrow>
          and_then (eval_expr rn (ECall f (args @ [rhs])) d \<sigma>) (\<lambda>(i, P, d). Ok (learn P, d))
      | Expr e \<Rightarrow> and_then (eval_expr rn e d \<sigma>) (\<lambda>(i, P, d). Ok (learn P, d))
      | Panic m \<Rightarrow> Ok (ctx, d)
      | Change f args \<Rightarrow> Ok (ctx, d))"

fun process_actions_loop :: "string \<Rightarrow> action list \<Rightarrow> action_context \<Rightarrow> dag \<Rightarrow> (action_context \<times> dag) checked" where
  "process_actions_loop rn [] ctx d = Ok (ctx, d)"
| "process_actions_loop rn (a # as) ctx d =
     and_then (process_action rn a ctx d) (\<lambda>(ctx, d). process_actions_loop rn as ctx d)"

definition process_actions :: "string \<Rightarrow> subst \<Rightarrow> action list \<Rightarrow> dag \<Rightarrow> (action_context \<times> dag) checked" where
  "process_actions rn \<sigma> as d =
     process_actions_loop rn as \<lparr>var_bindings = \<sigma>, propositions = {}\<rparr> d"

definition gather_globals :: "ncommand list \<Rightarrow> dag \<Rightarrow> (subst \<times> dag) checked" where
  "gather_globals prog d =
     and_then (process_actions ''global_action'' Map.empty (gather_global_actions prog) d)
       (\<lambda>(ctx, d). Ok (var_bindings ctx, d))"

text \<open>A merge body sees \<open>old\<close>, \<open>new\<close> and the globals it mentions.\<close>

definition merge_subst :: "resolved_expr \<Rightarrow> subst \<Rightarrow> nat \<Rightarrow> nat \<Rightarrow> subst" where
  "merge_subst e globals old new x =
     (if x \<in> set (expr_vars e)
      then (if x = ''old'' then Some old else if x = ''new'' then Some new else globals x)
      else None)"

definition eval_merge_expr ::
  "dag \<Rightarrow> resolved_expr \<Rightarrow> subst \<Rightarrow> nat \<Rightarrow> nat \<Rightarrow> (nat \<times> propn set \<times> dag) checked" where
  "eval_merge_expr d e globals old new =
     eval_expr ''merge_function'' e d (merge_subst e globals old new)"

definition run_merge ::
  "dag \<Rightarrow> string \<Rightarrow> ncommand list \<Rightarrow> subst \<Rightarrow> nat \<Rightarrow> nat \<Rightarrow> (nat \<times> propn set \<times> dag) checked" where
  "run_merge d f prog globals old new =
     and_then (find_merge prog f) (\<lambda>m. eval_merge_expr d (merge_result m) globals old new)"

text \<open>Lifting runs only a subexpression of a merge body.\<close>

definition run_merge_subexpr ::
  "dag \<Rightarrow> string \<Rightarrow> ncommand list \<Rightarrow> subst \<Rightarrow> nat \<Rightarrow> nat \<Rightarrow> nat \<Rightarrow> (nat \<times> propn set \<times> dag) checked" where
  "run_merge_subexpr d f prog globals old new i =
     and_then (find_merge prog f) (\<lambda>m.
     and_then (ok_or (subexpr_at_index (merge_result m) i) (Check (FunctionNotFound f))) (\<lambda>e.
       eval_merge_expr d e globals old new))"

section \<open>Semantics on trees\<close>

type_synonym tm = "(string, string) generic_expr"
type_synonym valuation = "string \<rightharpoonup> tm"
type_synonym prim_sem = "specialized_primitive \<Rightarrow> tm list \<Rightarrow> tm option"

text \<open>The value of an expression, for a meaning \<open>psem\<close> of the primitives.\<close>

fun teval :: "prim_sem \<Rightarrow> valuation \<Rightarrow> resolved_expr \<Rightarrow> tm option"
  and tevals :: "prim_sem \<Rightarrow> valuation \<Rightarrow> resolved_expr list \<Rightarrow> tm list option"
where
  "teval psem \<nu> (ELit l) = Some (ELit l)"
| "teval psem \<nu> (EVar x) = \<nu> x"
| "teval psem \<nu> (ECall h es) =
     (case h of
        Func f \<Rightarrow> map_option (ECall (ft_name f)) (tevals psem \<nu> es)
      | Primitive p \<Rightarrow> Option.bind (tevals psem \<nu> es) (psem p)
      | Values \<Rightarrow> None)"
| "tevals psem \<nu> [] = Some []"
| "tevals psem \<nu> (e # es) =
     Option.bind (teval psem \<nu> e) (\<lambda>v. map_option (Cons v) (tevals psem \<nu> es))"

text \<open>The terms that exist once an expression was evaluated: the subterms of its values.\<close>

fun texists :: "prim_sem \<Rightarrow> valuation \<Rightarrow> resolved_expr \<Rightarrow> tm set"
  and texists_args :: "prim_sem \<Rightarrow> valuation \<Rightarrow> resolved_expr list \<Rightarrow> tm set"
where
  "texists psem \<nu> (ELit l) = {ELit l}"
| "texists psem \<nu> (EVar x) = (case \<nu> x of None \<Rightarrow> {} | Some v \<Rightarrow> set (preorder v))"
| "texists psem \<nu> (ECall h es) =
     texists_args psem \<nu> es \<union>
     (case teval psem \<nu> (ECall h es) of None \<Rightarrow> {} | Some v \<Rightarrow> set (preorder v))"
| "texists_args psem \<nu> [] = {}"
| "texists_args psem \<nu> (e # es) = texists psem \<nu> e \<union> texists_args psem \<nu> es"

text \<open>The bindings and equalities a sequence of actions leaves behind.\<close>

fun taction :: "prim_sem \<Rightarrow> action \<Rightarrow> valuation \<times> (tm \<times> tm) set \<Rightarrow> (valuation \<times> (tm \<times> tm) set) option" where
  "taction psem (Let x e) (\<nu>, Y) =
     map_option (\<lambda>v. (\<nu>(x \<mapsto> v), Y \<union> Id_on (texists psem \<nu> e))) (teval psem \<nu> e)"
| "taction psem (Union l r) (\<nu>, Y) =
     Option.bind (teval psem \<nu> l) (\<lambda>a. map_option (\<lambda>b.
       (\<nu>, Y \<union> (Id_on (texists psem \<nu> l) \<union> Id_on (texists psem \<nu> r) \<union> {(a, b), (b, a)}))) (teval psem \<nu> r))"
| "taction psem (Set f args rhs) (\<nu>, Y) =
     map_option (\<lambda>v. (\<nu>, Y \<union> Id_on (texists psem \<nu> (ECall f (args @ [rhs])))))
       (teval psem \<nu> (ECall f (args @ [rhs])))"
| "taction psem (Expr e) (\<nu>, Y) =
     map_option (\<lambda>v. (\<nu>, Y \<union> Id_on (texists psem \<nu> e))) (teval psem \<nu> e)"
| "taction psem (Panic m) s = Some s"
| "taction psem (Change f args) s = Some s"

fun tactions :: "prim_sem \<Rightarrow> action list \<Rightarrow> valuation \<times> (tm \<times> tm) set \<Rightarrow> (valuation \<times> (tm \<times> tm) set) option" where
  "tactions psem [] s = Some s"
| "tactions psem (a # as) s = Option.bind (taction psem a s) (tactions psem as)"

text \<open>What a validator is relied on for: it interns the value that the semantics prescribes.\<close>

definition lawful_validator :: "validator \<Rightarrow> (tm list \<Rightarrow> tm option) \<Rightarrow> bool" where
  "lawful_validator v sem \<longleftrightarrow>
     (\<forall>d args r d'. dag_wf d \<longrightarrow> (\<forall>a \<in> set args. a < dag_size d) \<longrightarrow> v d args = (r, d') \<longrightarrow>
        dag_wf d' \<and> extends d d' \<and>
        (\<forall>i. r = Some i \<longrightarrow> i < dag_size d' \<and> sem (map (tree d) args) = Some (tree d' i)))"

lemma lawful_validatorD:
  assumes "lawful_validator v sem" "dag_wf d" "\<forall>a \<in> set args. a < dag_size d" "v d args = (r, d')"
  shows "dag_wf d'" "extends d d'"
    "r = Some i \<Longrightarrow> i < dag_size d' \<and> sem (map (tree d) args) = Some (tree d' i)"
  using assms unfolding lawful_validator_def by blast+

fun expr_prims :: "resolved_expr \<Rightarrow> specialized_primitive set" where
  "expr_prims (ECall h es) =
     (case h of Primitive p \<Rightarrow> {p} | _ \<Rightarrow> {}) \<union> (\<Union>e \<in> set es. expr_prims e)"
| "expr_prims e = {}"

definition lawful_prims :: "prim_sem \<Rightarrow> specialized_primitive set \<Rightarrow> bool" where
  "lawful_prims psem ps \<longleftrightarrow>
     (\<forall>p \<in> ps. \<forall>v. prim_validator p = Some v \<longrightarrow> lawful_validator v (psem p))"

lemma lawful_prims_Un [simp]: "lawful_prims psem (A \<union> B) \<longleftrightarrow> lawful_prims psem A \<and> lawful_prims psem B"
  by (auto simp: lawful_prims_def)

lemma lawful_prims_subset: "lawful_prims psem B \<Longrightarrow> A \<subseteq> B \<Longrightarrow> lawful_prims psem A"
  by (auto simp: lawful_prims_def)

section \<open>The reflexive closure walk\<close>

lemma preorder_self [simp]: "e \<in> set (preorder e)"
  by (cases e) simp_all

lemma preorder_trans: "s \<in> set (preorder t) \<Longrightarrow> set (preorder s) \<subseteq> set (preorder t)"
proof (induction t)
  case (ECall f es)
  then show ?case by fastforce
qed simp_all

text \<open>The ids of the subterms of a term.\<close>

definition desc :: "dag \<Rightarrow> nat \<Rightarrow> nat set" where
  "desc d i = {c. c < dag_size d \<and> tree d c \<in> set (preorder (tree d i))}"

lemma desc_closed: "c \<in> desc d i \<Longrightarrow> desc d c \<subseteq> desc d i"
  using preorder_trans by (fastforce simp: desc_def)

lemma desc_node:
  assumes "dag_wf d" "i < dag_size d"
  shows "desc d i = insert i (\<Union>c \<in> set (children (nodes d ! i)). desc d c)"
proof -
  have eq: "tree d c = tree d i \<longleftrightarrow> c = i" if "c < dag_size d" for c
    using tree_inject [OF assms(1), of c i] that assms(2) by (auto simp: dag_size_def)
  have t: "tree d i = node_tree d (nodes d ! i)" using assms by (simp add: tree_node dag_size_def)
  show ?thesis
  proof (cases "nodes d ! i")
    case (App f cs)
    with t have "tree d i = ECall f (map (tree d) cs)" by (simp add: node_tree_def)
    then have "set (preorder (tree d i)) = insert (tree d i) (\<Union>c \<in> set cs. set (preorder (tree d c)))" by simp
    with App eq assms(2) show ?thesis by (auto simp: desc_def)
  next
    case (Lit l)
    with t have "set (preorder (tree d i)) = {tree d i}" by (simp add: node_tree_def)
    with Lit eq assms(2) show ?thesis by (auto simp: desc_def)
  next
    case (Var v)
    with t have "set (preorder (tree d i)) = {tree d i}" by (simp add: node_tree_def)
    with Var eq assms(2) show ?thesis by (auto simp: desc_def)
  qed
qed

text \<open>While the walk is below \<open>k\<close>, everything it has seen there is finished.\<close>

definition finished_below :: "dag \<Rightarrow> nat \<Rightarrow> nat set \<Rightarrow> bool" where
  "finished_below d k S \<longleftrightarrow> (\<forall>s \<in> S. s < k \<longrightarrow> desc d s \<subseteq> S)"

abbreviation refls :: "nat set \<Rightarrow> propn set" where
  "refls S \<equiv> (\<lambda>c. Proposition c c) ` S"

lemma finished_below_Un: "finished_below d k S \<Longrightarrow> finished_below d k (S \<union> desc d i)"
  using desc_closed by (fastforce simp: finished_below_def)

lemma finished_below_mono: "finished_below d k S \<Longrightarrow> j \<le> k \<Longrightarrow> finished_below d j S"
  by (auto simp: finished_below_def)

lemma add_refl_desc:
  "dag_wf d \<Longrightarrow> i < dag_size d \<Longrightarrow> i < k \<Longrightarrow> finished_below d (Suc i) S \<Longrightarrow>
     add_refl k d i P S = Ok (P \<union> refls (desc d i - S), S \<union> desc d i)"
  "dag_wf d \<Longrightarrow> \<forall>c \<in> set cs. c < dag_size d \<and> c < k \<and> c < b \<Longrightarrow> finished_below d b S \<Longrightarrow>
     add_refls k d cs P S = Ok (P \<union> refls ((\<Union>c \<in> set cs. desc d c) - S), S \<union> (\<Union>c \<in> set cs. desc d c))"
proof (induction k d i P S and k d cs P S arbitrary: and b rule: add_refl_add_refls.induct)
  case (2 k d i P S)
  show ?case
  proof (cases "i \<in> S")
    case True
    with 2 have "desc d i \<subseteq> S" by (auto simp: finished_below_def)
    with True show ?thesis by (simp add: Un_absorb2 Diff_eq_empty_iff [THEN iffD2])
  next
    case False
    note dn = desc_node [OF 2(2,3)]
    have g: "dag_get d i = Ok (nodes d ! i)" using 2(3) by (simp add: dag_size_def)
    show ?thesis
    proof (cases "nodes d ! i")
      case (App f cs)
      let ?U = "\<Union>c \<in> set cs. desc d c"
      have cs: "\<forall>c \<in> set cs. c < dag_size d \<and> c < k \<and> c < i"
        using dag_wfD [OF 2(2), of i] 2(3,4) App by (fastforce simp: dag_size_def)
      have fin: "finished_below d i (insert i S)" using 2(5) by (auto simp: finished_below_def)
      have "add_refls k d cs (insert (Proposition i i) P) (insert i S) =
          Ok (insert (Proposition i i) P \<union> refls (?U - insert i S), insert i S \<union> ?U)"
        using 2(1) [OF False _ App 2(2) cs fin] g by simp
      moreover have "insert (Proposition i i) P \<union> refls (?U - insert i S) = P \<union> refls (insert i ?U - S)"
        using False by auto
      ultimately show ?thesis using False g App dn by simp
    qed (use False g dn in auto)
  qed
next
  case (4 k d c cs P S)
  let ?U = "\<Union>c \<in> set cs. desc d c"
  have c: "c < dag_size d" "c < k" "Suc c \<le> b" using 4(4) by auto
  have first: "add_refl k d c P S = Ok (P \<union> refls (desc d c - S), S \<union> desc d c)"
    using 4(1) [OF 4(3) c(1,2) finished_below_mono [OF 4(5) c(3)]] .
  have "add_refls k d cs (P \<union> refls (desc d c - S)) (S \<union> desc d c) =
     Ok (P \<union> refls (desc d c - S) \<union> refls (?U - (S \<union> desc d c)), S \<union> desc d c \<union> ?U)"
    using 4(2) [OF first refl 4(3) _ finished_below_Un [OF 4(5)]] 4(4) by simp
  moreover have "P \<union> refls (desc d c - S) \<union> refls (?U - (S \<union> desc d c)) = P \<union> refls (desc d c \<union> ?U - S)"
    by auto
  ultimately show ?case using first by (simp add: Un_assoc)
qed auto

lemma add_subterm_desc:
  "dag_wf d \<Longrightarrow> i < dag_size d \<Longrightarrow>
   add_subterm_reflexive_equalities i d P = Ok (P \<union> refls (desc d i))"
  using add_refl_desc(1) [of d i "Suc (dag_size d)" "{}" P]
  by (simp add: add_subterm_reflexive_equalities_def finished_below_def)

section \<open>Propositions on ids and equalities on trees\<close>

definition terms :: "dag \<Rightarrow> tm set" where
  "terms d = tree d ` {..<dag_size d}"

definition covered :: "dag \<Rightarrow> (tm \<times> tm) set \<Rightarrow> bool" where
  "covered d Y \<longleftrightarrow> (\<forall>(s, t) \<in> Y. s \<in> terms d \<and> t \<in> terms d)"

text \<open>The propositions on ids of \<open>d\<close> that stand for the equalities \<open>Y\<close>.\<close>

definition ids_of :: "dag \<Rightarrow> (tm \<times> tm) set \<Rightarrow> propn set" where
  "ids_of d Y = {Proposition i j |i j. i < dag_size d \<and> j < dag_size d \<and> (tree d i, tree d j) \<in> Y}"

lemma ids_of_iff:
  "Proposition i j \<in> ids_of d Y \<longleftrightarrow> i < dag_size d \<and> j < dag_size d \<and> (tree d i, tree d j) \<in> Y"
  by (auto simp: ids_of_def)

lemma ids_of_Un: "ids_of d (Y \<union> Z) = ids_of d Y \<union> ids_of d Z" "ids_of d {} = {}"
  by (auto simp: ids_of_def)

lemma covered_Un [simp]: "covered d (Y \<union> Z) \<longleftrightarrow> covered d Y \<and> covered d Z" "covered d {}"
  by (auto simp: covered_def)

lemma terms_extends: "extends d d' \<Longrightarrow> terms d \<subseteq> terms d'"
proof
  fix t assume "extends d d'" "t \<in> terms d"
  then obtain i where "i < dag_size d" "t = tree d i" by (auto simp: terms_def)
  with \<open>extends d d'\<close> show "t \<in> terms d'"
    by (auto simp: terms_def dag_size_def tree_extends extends_less intro!: image_eqI [of _ _ i])
qed

lemma covered_extends: "covered d Y \<Longrightarrow> extends d d' \<Longrightarrow> covered d' Y"
  using terms_extends [of d d'] by (auto simp: covered_def)

lemma dag_size_extends: "extends d d' \<Longrightarrow> i < dag_size d \<Longrightarrow> i < dag_size d'"
  by (simp add: dag_size_def extends_less)

lemma tree_extends_size: "extends d d' \<Longrightarrow> i < dag_size d \<Longrightarrow> tree d' i = tree d i"
  by (simp add: dag_size_def tree_extends)

lemma tree_id_old:
  assumes "extends d d'" "dag_wf d'" "i < dag_size d'" "tree d' i \<in> terms d"
  shows "i < dag_size d"
proof -
  obtain j where j: "j < dag_size d" "tree d' i = tree d j" using assms(4) by (auto simp: terms_def)
  then have "tree d' i = tree d' j" "j < dag_size d'" using assms(1) by (simp_all add: tree_extends_size dag_size_extends)
  then have "i = j" using tree_inject [OF assms(2)] assms(3) by (simp add: dag_size_def)
  with j show ?thesis by simp
qed

lemma ids_of_extends:
  assumes "extends d d'" "dag_wf d'" "covered d Y"
  shows "ids_of d' Y = ids_of d Y"
proof -
  have "i < dag_size d \<and> j < dag_size d \<and> (tree d i, tree d j) \<in> Y"
    if "i < dag_size d'" "j < dag_size d'" "(tree d' i, tree d' j) \<in> Y" for i j
  proof -
    from assms(3) that have "tree d' i \<in> terms d" "tree d' j \<in> terms d" by (auto simp: covered_def)
    then have "i < dag_size d" "j < dag_size d" using tree_id_old [OF assms(1,2)] that by auto
    with that assms(1) show ?thesis by (simp add: tree_extends_size)
  qed
  moreover have "i < dag_size d' \<and> j < dag_size d' \<and> (tree d' i, tree d' j) \<in> Y"
    if "i < dag_size d" "j < dag_size d" "(tree d i, tree d j) \<in> Y" for i j
    using that assms(1) by (simp add: tree_extends_size dag_size_extends)
  ultimately have "x \<in> ids_of d' Y \<longleftrightarrow> x \<in> ids_of d Y" for x by (cases x) (metis ids_of_iff)
  then show ?thesis by blast
qed

lemma refls_desc:
  assumes "dag_wf d" "i < dag_size d"
  shows "refls (desc d i) = ids_of d (Id_on (set (preorder (tree d i))))"
proof -
  have "Proposition a b \<in> refls (desc d i) \<longleftrightarrow> Proposition a b \<in> ids_of d (Id_on (set (preorder (tree d i))))" for a b
  proof -
    have eq: "tree d a = tree d b \<longleftrightarrow> a = b" if "a < dag_size d" "b < dag_size d"
      using tree_inject [OF assms(1), of a b] that by (auto simp: dag_size_def)
    have "Proposition a b \<in> refls (desc d i) \<longleftrightarrow> a = b \<and> a < dag_size d \<and> tree d a \<in> set (preorder (tree d i))"
      by (auto simp: desc_def)
    also have "\<dots> \<longleftrightarrow> a < dag_size d \<and> b < dag_size d \<and> tree d a = tree d b \<and> tree d a \<in> set (preorder (tree d i))"
      using eq by blast
    also have "\<dots> \<longleftrightarrow> Proposition a b \<in> ids_of d (Id_on (set (preorder (tree d i))))"
      unfolding ids_of_iff Id_on_iff by blast
    finally show ?thesis .
  qed
  then have "x \<in> refls (desc d i) \<longleftrightarrow> x \<in> ids_of d (Id_on (set (preorder (tree d i))))" for x by (cases x) blast
  then show ?thesis by blast
qed

lemma subtree_terms:
  assumes "dag_wf d"
  shows "i < dag_size d \<Longrightarrow> set (preorder (tree d i)) \<subseteq> terms d"
proof (induction i rule: less_induct)
  case (less i)
  have i: "tree d i \<in> terms d" using less.prems by (auto simp: terms_def)
  have t: "tree d i = node_tree d (nodes d ! i)" using assms less.prems by (simp add: tree_node dag_size_def)
  show ?case
  proof (cases "nodes d ! i")
    case (App f cs)
    have "set (preorder (tree d c)) \<subseteq> terms d" if "c \<in> set cs" for c
      using less dag_wfD [OF assms, of i c] App that by (simp add: dag_size_def)
    with i t App show ?thesis by (auto simp: node_tree_def)
  qed (use i t in \<open>simp_all add: node_tree_def\<close>)
qed

lemma covered_preorder: "dag_wf d \<Longrightarrow> i < dag_size d \<Longrightarrow> covered d (Id_on (set (preorder (tree d i))))"
  using subtree_terms [of d i] by (auto simp: covered_def)

section \<open>Evaluation is exact\<close>

definition subst_ok :: "dag \<Rightarrow> subst \<Rightarrow> bool" where
  "subst_ok d \<sigma> \<longleftrightarrow> (\<forall>x i. \<sigma> x = Some i \<longrightarrow> i < dag_size d)"

definition val :: "dag \<Rightarrow> subst \<Rightarrow> valuation" where
  "val d \<sigma> x = map_option (tree d) (\<sigma> x)"

lemma subst_ok_extends: "subst_ok d \<sigma> \<Longrightarrow> extends d d' \<Longrightarrow> subst_ok d' \<sigma>"
  by (auto simp: subst_ok_def dag_size_extends)

lemma val_extends: "subst_ok d \<sigma> \<Longrightarrow> extends d d' \<Longrightarrow> val d' \<sigma> = val d \<sigma>"
proof
  fix x assume "subst_ok d \<sigma>" "extends d d'"
  then show "val d' \<sigma> x = val d \<sigma> x"
    by (cases "\<sigma> x") (simp_all add: val_def subst_ok_def tree_extends_size)
qed

lemma subst_ok_upd: "subst_ok d \<sigma> \<Longrightarrow> i < dag_size d \<Longrightarrow> subst_ok d (\<sigma>(x \<mapsto> i))"
  by (auto simp: subst_ok_def)

lemma val_upd: "val d (\<sigma>(x \<mapsto> i)) = (val d \<sigma>)(x \<mapsto> tree d i)"
  by (auto simp: val_def)

text \<open>What a successful evaluation of \<open>e\<close> in \<open>d\<close> has returned.\<close>

definition evaluates :: "prim_sem \<Rightarrow> dag \<Rightarrow> subst \<Rightarrow> resolved_expr \<Rightarrow> nat \<Rightarrow> propn set \<Rightarrow> dag \<Rightarrow> bool" where
  "evaluates psem d \<sigma> e i P d' \<longleftrightarrow>
     dag_wf d' \<and> extends d d' \<and> i < dag_size d' \<and> teval psem (val d \<sigma>) e = Some (tree d' i) \<and>
     covered d' (Id_on (texists psem (val d \<sigma>) e)) \<and> P = ids_of d' (Id_on (texists psem (val d \<sigma>) e))"

definition evaluates_args :: "prim_sem \<Rightarrow> dag \<Rightarrow> subst \<Rightarrow> resolved_expr list \<Rightarrow> nat list \<Rightarrow> propn set \<Rightarrow> dag \<Rightarrow> bool" where
  "evaluates_args psem d \<sigma> es is P d' \<longleftrightarrow>
     dag_wf d' \<and> extends d d' \<and> (\<forall>i \<in> set is. i < dag_size d') \<and>
     tevals psem (val d \<sigma>) es = Some (map (tree d') is) \<and>
     covered d' (Id_on (texists_args psem (val d \<sigma>) es)) \<and>
     P = ids_of d' (Id_on (texists_args psem (val d \<sigma>) es))"

lemma with_refl_ok:
  "dag_wf d \<Longrightarrow> i < dag_size d \<Longrightarrow>
   with_refl i P d = Ok (i, P \<union> ids_of d (Id_on (set (preorder (tree d i)))), d)"
  by (simp add: with_refl_def add_subterm_desc refls_desc)

lemma Id_on_Un: "Id_on (A \<union> B) = Id_on A \<union> Id_on B"
  by auto

text \<open>A call interned or computed as \<open>i\<close> after its arguments.\<close>

lemma evaluates_call:
  assumes args: "evaluates_args psem d \<sigma> es is Q d1"
    and call: "dag_wf d2" "extends d1 d2" "i < dag_size d2" "teval psem (val d \<sigma>) (ECall h es) = Some (tree d2 i)"
    and res: "with_refl i Q d2 = Ok (j, P, d')"
  shows "evaluates psem d \<sigma> (ECall h es) j P d'"
proof -
  let ?A = "Id_on (texists_args psem (val d \<sigma>) es)"
  have cov: "covered d1 ?A" and Q: "Q = ids_of d1 ?A" using args by (auto simp: evaluates_args_def)
  from res with_refl_ok [OF call(1,3)] have eq: "j = i" "d' = d2"
    "P = Q \<union> ids_of d2 (Id_on (set (preorder (tree d2 i))))" by auto
  moreover have "ids_of d2 ?A = Q" using ids_of_extends [OF call(2,1) cov] Q by simp
  moreover have "covered d2 ?A" using cov call(2) by (rule covered_extends)
  ultimately show ?thesis
    using args call covered_preorder [OF call(1,3)]
    by (auto simp: evaluates_def evaluates_args_def Id_on_Un ids_of_Un intro: extends_trans)
qed

lemma eval_expr_evaluates:
  "dag_wf d \<Longrightarrow> subst_ok d \<sigma> \<Longrightarrow> lawful_prims psem (expr_prims e) \<Longrightarrow>
     eval_expr rn e d \<sigma> = Ok (i, P, d') \<Longrightarrow> evaluates psem d \<sigma> e i P d'"
  "dag_wf d \<Longrightarrow> subst_ok d \<sigma> \<Longrightarrow> lawful_prims psem (\<Union>e \<in> set es. expr_prims e) \<Longrightarrow>
     eval_args rn es d \<sigma> = Ok (is, P, d') \<Longrightarrow> evaluates_args psem d \<sigma> es is P d'"
proof (induction rn e d \<sigma> and rn es d \<sigma> arbitrary: i P d' and "is" P d' rule: eval_expr_eval_args.induct)
  case (1 rn l d \<sigma>)
  obtain j d1 where a: "dag_lit d l = (j, d1)" by fastforce
  have "interns d (ELit l) (j, d1)"
    using add_node_interns [OF 1(1), of "Lit l"] a by (simp add: dag_lit_def node_tree_def)
  then have w: "dag_wf d1" "extends d d1" "j < dag_size d1" "tree d1 j = ELit l"
    by (auto simp: dag_size_def dest: internsD)
  then have "with_refl j {} d1 = Ok (j, ids_of d1 (Id_on {ELit l}), d1)"
    using with_refl_ok [OF w(1,3), of "{}"] by simp
  with 1(4) a have "i = j" "d' = d1" "P = ids_of d1 (Id_on {ELit l})" by auto
  with w covered_preorder [OF w(1,3)] show ?case by (simp add: evaluates_def)
next
  case (2 rn x d \<sigma>)
  then obtain j where j: "\<sigma> x = Some j" "with_refl j {} d = Ok (i, P, d')" by (auto simp: and_then_eq_Ok_iff)
  then have "j < dag_size d" using 2(2) by (auto simp: subst_ok_def)
  with j with_refl_ok [OF 2(1)] covered_preorder [OF 2(1)] 2(1) show ?case
    by (auto simp: evaluates_def val_def)
next
  case (3 rn h es d \<sigma>)
  show ?case
  proof (cases h)
    case (Func f)
    with 3(6) obtain ts Q d1 where a: "eval_args rn es d \<sigma> = Ok (ts, Q, d1)"
      "(let (i, d) = dag_app d1 (call_name h) ts in with_refl i Q d) = Ok (i, P, d')"
      by (auto elim!: and_then_OkE)
    have args: "evaluates_args psem d \<sigma> es ts Q d1"
      using 3(1) [OF Func 3(3,4) _ a(1)] 3(5) by simp
    obtain j d2 where b: "dag_app d1 (call_name h) ts = (j, d2)" by fastforce
    have "interns d1 (ECall (ft_name f) (map (tree d1) ts)) (j, d2)"
      using add_node_interns [of d1 "App (ft_name f) ts"] args b Func
      by (auto simp: dag_app_def node_tree_def evaluates_args_def dag_size_def call_name_def)
    then have w: "dag_wf d2" "extends d1 d2" "j < dag_size d2"
      "tree d2 j = ECall (ft_name f) (map (tree d1) ts)"
      by (auto simp: dag_size_def dest: internsD)
    show ?thesis
      by (rule evaluates_call [OF args w(1-3)]) (use a b w Func args in \<open>auto simp: evaluates_args_def\<close>)
  next
    case (Primitive p)
    with 3(6) obtain ts Q d1 v j d2 where a: "eval_args rn es d \<sigma> = Ok (ts, Q, d1)"
      "prim_validator p = Some v" "v d1 ts = (Some j, d2)" "with_refl j Q d2 = Ok (i, P, d')"
      by (auto elim!: and_then_OkE split: prod.splits option.splits)
    have args: "evaluates_args psem d \<sigma> es ts Q d1"
      using 3(2) [OF Primitive 3(3,4) _ a(1)] 3(5) by simp
    have "lawful_validator v (psem p)" using 3(5) a(2) Primitive by (simp add: lawful_prims_def)
    then have w: "dag_wf d2" "extends d1 d2" "j < dag_size d2" "psem p (map (tree d1) ts) = Some (tree d2 j)"
      using lawful_validatorD [of v "psem p" d1 ts "Some j" d2] a(3) args by (simp_all add: evaluates_args_def)
    show ?thesis
      by (rule evaluates_call [OF args w(1-3) _ a(4)]) (use w args Primitive in \<open>auto simp: evaluates_args_def\<close>)
  next
    case Values
    with 3(6) show ?thesis by simp
  qed
next
  case (4 rn d \<sigma>)
  then show ?case by (simp add: evaluates_args_def ids_of_Un)
next
  case (5 rn e es d \<sigma>)
  from 5(6) obtain j Q d1 js R d2 where a: "eval_expr rn e d \<sigma> = Ok (j, Q, d1)"
    "eval_args rn es d1 \<sigma> = Ok (js, R, d2)" "is = j # js" "P = Q \<union> R" "d' = d2"
    by (auto elim!: and_then_OkE)
  have h: "evaluates psem d \<sigma> e j Q d1" using 5(1) [OF 5(3,4) _ a(1)] 5(5) by simp
  then have d1: "dag_wf d1" "extends d d1" by (simp_all add: evaluates_def)
  note so = subst_ok_extends [OF 5(4) d1(2)] and vl = val_extends [OF 5(4) d1(2)]
  have t: "evaluates_args psem d1 \<sigma> es js R d2"
    using 5(2) [OF a(1) refl refl d1(1) so _ a(2)] 5(5) by simp
  then have d2: "dag_wf d2" "extends d1 d2" by (simp_all add: evaluates_args_def)
  let ?E = "Id_on (texists psem (val d \<sigma>) e)"
  have "ids_of d2 ?E = Q" "covered d2 ?E" "tree d2 j = tree d1 j" "j < dag_size d2"
    using h ids_of_extends [OF d2(2,1), of ?E] covered_extends [OF _ d2(2), of ?E]
      tree_extends_size [OF d2(2), of j] dag_size_extends [OF d2(2), of j]
    by (auto simp: evaluates_def)
  with h t a d1 d2 show ?case
    by (auto simp: evaluates_def evaluates_args_def vl Id_on_Un ids_of_Un intro: extends_trans)
qed

section \<open>Actions are exact\<close>

fun action_prims :: "action \<Rightarrow> specialized_primitive set" where
  "action_prims (Let x e) = expr_prims e"
| "action_prims (Union l r) = expr_prims l \<union> expr_prims r"
| "action_prims (Set f args rhs) = expr_prims (ECall f (args @ [rhs]))"
| "action_prims (Expr e) = expr_prims e"
| "action_prims (Panic m) = {}"
| "action_prims (Change f args) = {}"

text \<open>A context that stands for bindings and equalities on trees.\<close>

definition ctx_means :: "dag \<Rightarrow> action_context \<Rightarrow> valuation \<times> (tm \<times> tm) set \<Rightarrow> bool" where
  "ctx_means d ctx s \<longleftrightarrow> (case s of (\<nu>, Y) \<Rightarrow>
     subst_ok d (var_bindings ctx) \<and> val d (var_bindings ctx) = \<nu> \<and> covered d Y \<and>
     propositions ctx = ids_of d Y)"

lemma ctx_means_learn:
  assumes "ctx_means d ctx (\<nu>, Y)" "evaluates psem d (var_bindings ctx) e i P d'"
  shows "ctx_means d' (ctx\<lparr>propositions := propositions ctx \<union> P\<rparr>) (\<nu>, Y \<union> Id_on (texists psem \<nu> e))"
  using assms ids_of_extends [of d d' Y] covered_extends [of d Y d'] val_extends [of d "var_bindings ctx" d']
    subst_ok_extends [of d "var_bindings ctx" d']
  by (simp add: ctx_means_def evaluates_def ids_of_Un)

lemma ids_of_pair:
  assumes "dag_wf d" "i < dag_size d" "j < dag_size d"
  shows "ids_of d {(tree d i, tree d j), (tree d j, tree d i)} = {Proposition i j, Proposition j i}"
proof -
  have eq: "tree d a = tree d b \<longleftrightarrow> a = b" if "a < dag_size d" "b < dag_size d" for a b
    using tree_inject [OF assms(1), of a b] that by (auto simp: dag_size_def)
  have "Proposition a b \<in> ids_of d {(tree d i, tree d j), (tree d j, tree d i)} \<longleftrightarrow>
      Proposition a b \<in> {Proposition i j, Proposition j i}" for a b
    unfolding ids_of_iff using assms(2,3) eq [of a i] eq [of b j] eq [of a j] eq [of b i] by auto
  then have "x \<in> ids_of d {(tree d i, tree d j), (tree d j, tree d i)} \<longleftrightarrow> x \<in> {Proposition i j, Proposition j i}" for x
    by (metis propn.exhaust)
  then show ?thesis by blast
qed

lemma process_action_means:
  assumes "dag_wf d" "ctx_means d ctx s" "lawful_prims psem (action_prims a)"
    "process_action rn a ctx d = Ok (ctx', d')"
  shows "\<exists>s'. taction psem a s = Some s' \<and> dag_wf d' \<and> extends d d' \<and> ctx_means d' ctx' s'"
proof -
  obtain \<nu> Y where s: "s = (\<nu>, Y)" by (cases s)
  let ?\<sigma> = "var_bindings ctx"
  have so: "subst_ok d ?\<sigma>" and vl: "val d ?\<sigma> = \<nu>" using assms(2) s by (auto simp: ctx_means_def)
  have simple: "\<exists>s'. map_option (\<lambda>v. (\<nu>, Y \<union> Id_on (texists psem \<nu> e))) (teval psem \<nu> e) = Some s' \<and>
      dag_wf d' \<and> extends d d' \<and> ctx_means d' ctx' s'"
    if "lawful_prims psem (expr_prims e)"
      "and_then (eval_expr rn e d ?\<sigma>) (\<lambda>(i, P, d). Ok (ctx\<lparr>propositions := propositions ctx \<union> P\<rparr>, d)) = Ok (ctx', d')"
    for e
  proof -
    from that(2) obtain i P where ev: "eval_expr rn e d ?\<sigma> = Ok (i, P, d')"
      "ctx' = ctx\<lparr>propositions := propositions ctx \<union> P\<rparr>" by (auto elim!: and_then_OkE)
    from eval_expr_evaluates(1) [OF assms(1) so that(1) ev(1)]
    have "evaluates psem d ?\<sigma> e i P d'" .
    with ctx_means_learn [OF assms(2) [unfolded s] this] ev(2) vl show ?thesis
      by (auto simp: evaluates_def)
  qed
  show ?thesis
  proof (cases a)
    case (Let x e)
    with assms(4) obtain i P where ev: "eval_expr rn e d ?\<sigma> = Ok (i, P, d')"
      "ctx' = ctx\<lparr>propositions := propositions ctx \<union> P, var_bindings := ?\<sigma>(x \<mapsto> i)\<rparr>"
      by (auto simp: process_action_def Let_def elim!: and_then_OkE)
    have e: "evaluates psem d ?\<sigma> e i P d'"
      using eval_expr_evaluates(1) [OF assms(1) so _ ev(1)] assms(3) Let by simp
    with ctx_means_learn [OF assms(2) [unfolded s] e] ev(2) vl Let s show ?thesis
      by (auto simp: evaluates_def ctx_means_def subst_ok_upd val_upd)
  next
    case (Union l r)
    with assms(4) obtain i P d1 j Q where ev: "eval_expr rn l d ?\<sigma> = Ok (i, P, d1)"
      "eval_expr rn r d1 ?\<sigma> = Ok (j, Q, d')"
      "ctx' = ctx\<lparr>propositions := propositions ctx \<union> (P \<union> Q \<union> {Proposition i j, Proposition j i})\<rparr>"
      by (auto simp: process_action_def Let_def elim!: and_then_OkE)
    have e1: "evaluates psem d ?\<sigma> l i P d1"
      using eval_expr_evaluates(1) [OF assms(1) so _ ev(1)] assms(3) Union by simp
    note c1 = ctx_means_learn [OF assms(2) [unfolded s] e1]
    have d1: "dag_wf d1" "extends d d1" "i < dag_size d1" using e1 by (simp_all add: evaluates_def)
    have e2: "evaluates psem d1 ?\<sigma> r j Q d'"
      using eval_expr_evaluates(1) [OF d1(1) subst_ok_extends [OF so d1(2)] _ ev(2)] assms(3) Union by simp
    have d2: "dag_wf d'" "extends d1 d'" "j < dag_size d'" using e2 by (simp_all add: evaluates_def)
    have i: "i < dag_size d'" "tree d' i = tree d1 i"
      using d1(3) d2(2) by (simp_all add: dag_size_extends tree_extends_size)
    have vl1: "val d1 ?\<sigma> = \<nu>" using val_extends [OF so d1(2)] vl by simp
    note c2 = ctx_means_learn [OF c1, of psem r j Q d']
    have ev1: "teval psem \<nu> l = Some (tree d' i)" "teval psem \<nu> r = Some (tree d' j)"
      using e1 e2 i vl vl1 by (simp_all add: evaluates_def)
    moreover have "ctx_means d' ctx' (\<nu>, Y \<union> (Id_on (texists psem \<nu> l) \<union> Id_on (texists psem \<nu> r) \<union>
        {(tree d' i, tree d' j), (tree d' j, tree d' i)}))"
    proof -
      let ?pair = "{(tree d' i, tree d' j), (tree d' j, tree d' i)}"
      have "covered d' ?pair" using i(1) d2(3) by (auto simp: covered_def terms_def)
      with c2 e2 ev(3) show ?thesis
        unfolding ctx_means_def
        by (simp add: ids_of_Un ids_of_pair [OF d2(1) i(1) d2(3)] flip: Un_assoc del: Un_insert_right Un_insert_left)
    qed
    ultimately show ?thesis using Union s d2 d1(2) by (auto intro: extends_trans)
  next
    case (Set f args rhs)
    with simple [of "ECall f (args @ [rhs])"] assms(3,4) s show ?thesis
      by (simp add: process_action_def Let_def)
  next
    case (Expr e)
    with simple [of e] assms(3,4) s show ?thesis by (simp add: process_action_def Let_def)
  qed (use assms in \<open>auto simp: process_action_def Let_def\<close>)
qed

lemma process_actions_loop_means:
  "dag_wf d \<Longrightarrow> ctx_means d ctx s \<Longrightarrow> lawful_prims psem (\<Union>a \<in> set as. action_prims a) \<Longrightarrow>
   process_actions_loop rn as ctx d = Ok (ctx', d') \<Longrightarrow>
   \<exists>s'. tactions psem as s = Some s' \<and> dag_wf d' \<and> extends d d' \<and> ctx_means d' ctx' s'"
proof (induction as arbitrary: ctx d s)
  case (Cons a as)
  from Cons.prems(4) obtain c1 d1 where a: "process_action rn a ctx d = Ok (c1, d1)"
    "process_actions_loop rn as c1 d1 = Ok (ctx', d')" by (auto elim!: and_then_OkE)
  have "lawful_prims psem (action_prims a)" "lawful_prims psem (\<Union>a \<in> set as. action_prims a)"
    using Cons.prems(3) by (simp_all add: lawful_prims_def)
  moreover from process_action_means [OF Cons.prems(1,2) this(1) a(1)] obtain s1 where
    s1: "taction psem a s = Some s1" "dag_wf d1" "extends d d1" "ctx_means d1 c1 s1" by blast
  ultimately show ?case using Cons.IH [OF s1(2,4) _ a(2)] s1 by (auto intro: extends_trans)
qed auto

lemma process_actions_means:
  assumes "dag_wf d" "subst_ok d \<sigma>" "lawful_prims psem (\<Union>a \<in> set as. action_prims a)"
    "process_actions rn \<sigma> as d = Ok (ctx, d')"
  shows "\<exists>s'. tactions psem as (val d \<sigma>, {}) = Some s' \<and> dag_wf d' \<and> extends d d' \<and> ctx_means d' ctx s'"
  using process_actions_loop_means [of d "\<lparr>var_bindings = \<sigma>, propositions = {}\<rparr>" "(val d \<sigma>, {})" psem as rn ctx d'] assms
  by (simp add: process_actions_def ctx_means_def ids_of_Un)

section \<open>Properties\<close>

text \<open>
  The reflexive walk is exact: it adds the equality of a term with itself for the subterms of
  the given term, and for no other term of the DAG.
\<close>

theorem reflexive_walk_exact:
  assumes "dag_wf d" "i < dag_size d"
  shows "\<exists>Q. add_subterm_reflexive_equalities i d P = Ok (P \<union> Q) \<and>
    (\<forall>a b. Proposition a b \<in> Q \<longleftrightarrow> a = b \<and> a < dag_size d \<and> tree d a \<in> set (preorder (tree d i)))"
  using add_subterm_desc [OF assms] by (intro exI [of _ "refls (desc d i)"]) (auto simp: desc_def)

definition walk_dag :: dag where
  "walk_dag = \<lparr>nodes = [App ''a'' [], Var ''x'', App ''f'' [0, 0]]\<rparr>"

lemma walk_dag_wf: "dag_wf walk_dag"
  by (auto simp: dag_wf_def walk_dag_def less_Suc_eq nth_Cons')

theorem reflexive_walk_exact_witness:
  "\<exists>Q. add_subterm_reflexive_equalities 2 walk_dag {} = Ok Q \<and> Proposition 0 0 \<in> Q \<and> Proposition 1 1 \<notin> Q"
proof -
  have t: "tree walk_dag 0 \<in> set (preorder (tree walk_dag 2))" "tree walk_dag 1 \<notin> set (preorder (tree walk_dag 2))"
    by code_simp+
  have "2 < dag_size walk_dag" by (simp add: dag_size_def walk_dag_def)
  from reflexive_walk_exact [OF walk_dag_wf this, of "{}"] t show ?thesis
    by (fastforce simp: dag_size_def walk_dag_def)
qed

text \<open>
  C3: Actions are exact: a run of \<open>process_actions\<close> computes the bindings and the equalities that
  the actions have on trees.  A proposition on two ids is in the result if and only if the pair of
  their terms is among the equalities, and no equality is lost for want of an id.
\<close>

theorem process_actions_exact:
  assumes "dag_wf d" "\<forall>x i. \<sigma> x = Some i \<longrightarrow> i < dag_size d" "lawful_prims psem (\<Union>a \<in> set as. action_prims a)"
    "process_actions rn \<sigma> as d = Ok (ctx, d')"
  shows "\<exists>\<nu> Y. tactions psem as (val d \<sigma>, {}) = Some (\<nu>, Y) \<and> val d' (var_bindings ctx) = \<nu> \<and>
    (\<forall>i j. Proposition i j \<in> propositions ctx \<longleftrightarrow> i < dag_size d' \<and> j < dag_size d' \<and> (tree d' i, tree d' j) \<in> Y) \<and>
    (\<forall>(s, t) \<in> Y. \<exists>i j. i < dag_size d' \<and> j < dag_size d' \<and> s = tree d' i \<and> t = tree d' j)"
proof -
  have "subst_ok d \<sigma>" using assms(2) by (auto simp: subst_ok_def)
  from process_actions_means [OF assms(1) this assms(3,4)] obtain \<nu> Y where
    Y: "tactions psem as (val d \<sigma>, {}) = Some (\<nu>, Y)" "ctx_means d' ctx (\<nu>, Y)" by auto
  then show ?thesis by (fastforce simp: ctx_means_def ids_of_iff covered_def terms_def)
qed

definition plain_call :: "string \<Rightarrow> resolved_expr list \<Rightarrow> resolved_expr" where
  "plain_call f es = ECall (Func \<lparr>ft_name = f, ft_subtype = Constructor\<rparr>) es"

definition plain_actions :: "action list" where
  "plain_actions = [Let ''x'' (plain_call ''a'' []), Union (EVar ''x'') (plain_call ''b'' [])]"

theorem process_actions_exact_witness:
  "\<exists>ctx d'. process_actions ''r'' Map.empty plain_actions dag_default = Ok (ctx, d') \<and>
     val d' (var_bindings ctx) = [''x'' \<mapsto> ECall ''a'' []]"
proof -
  have "(case process_actions ''r'' Map.empty plain_actions dag_default of Inl e \<Rightarrow> False | Inr r \<Rightarrow> True)"
    by code_simp
  then obtain ctx d' where run: "process_actions ''r'' Map.empty plain_actions dag_default = Ok (ctx, d')"
    by (auto split: sum.splits)
  have law: "lawful_prims (\<lambda>_ _. None) (\<Union>a \<in> set plain_actions. action_prims a)"
    by (simp add: plain_actions_def plain_call_def lawful_prims_def)
  have "val dag_default Map.empty = Map.empty" by (auto simp: val_def)
  with process_actions_exact [OF dag_wf_default _ law run] run show ?thesis
    by (auto simp: plain_actions_def plain_call_def)
qed

end
