(* ===== verification/ProofChecker.thy ===== *)
theory ProofChecker
  imports ProofEval
begin

text \<open>
  The proof checker of \<open>egglog/src/proofs/proof_checker.rs\<close>: the context built from the global
  actions, the checks of rule bodies and heads, and the recursive check of a proof with its
  cache.  The recursion over proof ids runs on fuel.
\<close>

section \<open>Model\<close>

definition is_container_primitive :: "resolved_expr \<Rightarrow> bool" where
  "is_container_primitive e =
     (case e of ECall (Primitive p) es \<Rightarrow> is_eq_container p | _ \<Rightarrow> False)"

definition is_container_side_condition :: "fact \<Rightarrow> bool" where
  "is_container_side_condition f =
     (case f of
        EqFact l r \<Rightarrow> is_container_primitive l \<or> is_container_primitive r
      | Fact e \<Rightarrow> is_container_primitive e)"

record check_context =
  global_equalities :: "propn set"
  global_bindings :: subst
  checked_proofs :: "nat \<rightharpoonup> propn"

definition context_new :: "ncommand list \<Rightarrow> dag \<Rightarrow> (check_context \<times> dag) checked" where
  "context_new prog d =
     (case duplicate_rule_name {} prog of
        Some n \<Rightarrow> Err (Check (DuplicateRuleName n))
      | None \<Rightarrow>
          and_then (process_actions ''global_actions'' Map.empty (gather_global_actions prog) d) (\<lambda>(a, d).
            Ok (\<lparr>global_equalities = propositions a, global_bindings = var_bindings a,
                 checked_proofs = Map.empty\<rparr>, d)))"

definition in_globals :: "check_context \<Rightarrow> nat \<Rightarrow> nat \<Rightarrow> bool" where
  "in_globals c l r \<longleftrightarrow> Proposition l r \<in> global_equalities c"

fun reflexive_value_term :: "nat \<Rightarrow> proof_store \<Rightarrow> nat \<Rightarrow> bool checked"
  and reflexive_value_terms :: "nat \<Rightarrow> proof_store \<Rightarrow> nat list \<Rightarrow> bool checked"
where
  "reflexive_value_term 0 s i = Err OutOfFuel"
| "reflexive_value_term (Suc k) s i =
     and_then (lift_panic (dag_get (store_dag s) i)) (\<lambda>t.
       case t of
         Lit l \<Rightarrow> Ok True
       | Var v \<Rightarrow> Ok False
       | App h cs \<Rightarrow>
           if h \<in> prim_value_constructors s then reflexive_value_terms k s cs else Ok False)"
| "reflexive_value_terms k s [] = Ok True"
| "reflexive_value_terms k s (c # cs) =
     and_then (reflexive_value_term k s c) (\<lambda>b. if b then reflexive_value_terms k s cs else Ok False)"

text \<open>The method \<open>ProofStore::eval_expr_with_subst\<close>, which computes the term only.\<close>

fun store_eval :: "string \<Rightarrow> resolved_expr \<Rightarrow> dag \<Rightarrow> subst \<Rightarrow> (nat \<times> dag) checked"
  and store_evals :: "string \<Rightarrow> resolved_expr list \<Rightarrow> dag \<Rightarrow> subst \<Rightarrow> (nat list \<times> dag) checked"
where
  "store_eval rn (ELit l) d \<sigma> = Ok (dag_lit d l)"
| "store_eval rn (EVar x) d \<sigma> = and_then (ok_or (\<sigma> x) (Check (UnboundVariable rn x))) (\<lambda>i. Ok (i, d))"
| "store_eval rn (ECall h es) d \<sigma> =
     and_then (store_evals rn es d \<sigma>) (\<lambda>(ts, d).
       case h of
         Primitive p \<Rightarrow>
           (case prim_validator p of
              Some v \<Rightarrow>
                (case v d ts of
                   (None, _) \<Rightarrow> Err (Check (PrimitiveValidatorFailed (prim_name p)))
                 | (Some i, d) \<Rightarrow> Ok (i, d))
            | None \<Rightarrow> Err (Check (PrimitiveNoValidator (prim_name p))))
       | Func f \<Rightarrow>
           (case ft_subtype f of
              Constructor \<Rightarrow> Ok (dag_app d (ft_name f) ts)
            | Custom \<Rightarrow> Err (Panicked ExplicitPanic))
       | Values \<Rightarrow> Err (Panicked ExplicitPanic))"
| "store_evals rn [] d \<sigma> = Ok ([], d)"
| "store_evals rn (e # es) d \<sigma> =
     and_then (store_eval rn e d \<sigma>) (\<lambda>(t, d).
     and_then (store_evals rn es d \<sigma>) (\<lambda>(ts, d). Ok (t # ts, d)))"

subsection \<open>Rule bodies\<close>

definition eval_side :: "string \<Rightarrow> resolved_expr \<Rightarrow> dag \<Rightarrow> subst \<Rightarrow> (nat option \<times> dag) checked" where
  "eval_side rn e d \<sigma> =
     (case e of
        EVar x \<Rightarrow> Ok (\<sigma> x, d)
      | _ \<Rightarrow> and_then (eval_expr rn e d \<sigma>) (\<lambda>(i, _, d). Ok (Some i, d)))"

text \<open>The match on both sides and their values; \<open>Inl\<close> is a variable to bind, \<open>Inr\<close> a comparison.\<close>

fun side_outcome :: "resolved_expr \<Rightarrow> nat option \<Rightarrow> resolved_expr \<Rightarrow> nat option \<Rightarrow> (string \<times> nat + nat \<times> nat) option" where
  "side_outcome (EVar x) None r (Some v) = Some (Inl (x, v))"
| "side_outcome l (Some v) (EVar x) None = Some (Inl (x, v))"
| "side_outcome l (Some a) r (Some b) = Some (Inr (a, b))"
| "side_outcome l a r b = None"

definition check_side_condition :: "string \<Rightarrow> fact \<Rightarrow> dag \<Rightarrow> subst \<Rightarrow> (subst \<times> dag) checked" where
  "check_side_condition rn f d \<sigma> =
     (case f of
        Fact e \<Rightarrow> and_then (eval_expr rn e d \<sigma>) (\<lambda>(_, _, d). Ok (\<sigma>, d))
      | EqFact l r \<Rightarrow>
          and_then (eval_side rn l d \<sigma>) (\<lambda>(a, d).
          and_then (eval_side rn r d \<sigma>) (\<lambda>(b, d).
            case side_outcome l a r b of
              Some (Inl (x, v)) \<Rightarrow> Ok (\<sigma>(x \<mapsto> v), d)
            | Some (Inr (i, j)) \<Rightarrow>
                if i \<noteq> j then Err (Check (SideConditionMismatch rn f i j)) else Ok (\<sigma>, d)
            | None \<Rightarrow> Err (Check (SideConditionUnbound rn f)))))"

fun normal_form_expr :: "string \<Rightarrow> resolved_expr \<Rightarrow> unit checked"
  and normal_form_args :: "string \<Rightarrow> resolved_call \<Rightarrow> resolved_expr list \<Rightarrow> unit checked"
where
  "normal_form_expr rn (ECall h es) = normal_form_args rn h es"
| "normal_form_expr rn (ELit l) = Ok ()"
| "normal_form_expr rn (EVar x) = Ok ()"
| "normal_form_args rn h [] = Ok ()"
| "normal_form_args rn h (e # es) =
     (case (h, e) of
        (Primitive p, ECall (Func f) xs) \<Rightarrow> Err (Check (PrimitiveNonNormalArg rn e))
      | (Func f, ECall (Primitive p) xs) \<Rightarrow>
          if is_eq_container p then Err (Check (ContainerPrimitiveNotSideCondition rn e))
          else and_then (normal_form_expr rn e) (\<lambda>_. normal_form_args rn h es)
      | _ \<Rightarrow> and_then (normal_form_expr rn e) (\<lambda>_. normal_form_args rn h es))"

definition assert_body_proof_normal_form :: "string \<Rightarrow> fact \<Rightarrow> unit checked" where
  "assert_body_proof_normal_form rn f =
     (case f of
        EqFact l r \<Rightarrow> and_then (normal_form_expr rn l) (\<lambda>_. normal_form_expr rn r)
      | Fact e \<Rightarrow> normal_form_expr rn e)"

text \<open>\<open>(= (f args) v)\<close> for a custom function \<open>f\<close>.\<close>

definition custom_fact :: "fact \<Rightarrow> (resolved_call \<times> resolved_expr list \<times> string) option" where
  "custom_fact f =
     (case f of
        EqFact (ECall h es) (EVar v) \<Rightarrow> if is_custom_func h then Some (h, es, v) else None
      | _ \<Rightarrow> None)"

definition check_fact_matches :: "string \<Rightarrow> fact \<Rightarrow> propn \<Rightarrow> dag \<Rightarrow> subst \<Rightarrow> dag checked" where
  "check_fact_matches rn f p d \<sigma> =
     (case custom_fact f of
        Some (h, es, v) \<Rightarrow>
          and_then (ok_or (\<sigma> v) (Check (UnboundVariable rn v))) (\<lambda>out.
          and_then (store_evals rn es d \<sigma>) (\<lambda>(ts, d).
            let (i, d) = dag_app d (call_name h) (ts @ [out]) in
            if prop_lhs p \<noteq> i \<or> prop_rhs p \<noteq> i
            then Err (Check (FunctionFactMismatch rn i (prop_lhs p) (prop_rhs p)))
            else Ok d))
      | None \<Rightarrow>
          (case f of
             EqFact l r \<Rightarrow>
               and_then (store_eval rn l d \<sigma>) (\<lambda>(i, d).
               and_then (store_eval rn r d \<sigma>) (\<lambda>(j, d).
                 if i \<noteq> prop_lhs p \<or> j \<noteq> prop_rhs p
                 then Err (Check (EqualityFactMismatch rn f i j (prop_lhs p) (prop_rhs p)))
                 else Ok d))
           | Fact e \<Rightarrow>
               and_then (store_eval rn e d \<sigma>) (\<lambda>(i, d).
                 if i \<noteq> prop_rhs p then Err (Check (FactMismatch rn f (prop_rhs p) i)) else Ok d)))"

definition check_rule_produces_equality :: "string \<Rightarrow> rule \<Rightarrow> propn \<Rightarrow> dag \<Rightarrow> subst \<Rightarrow> dag checked" where
  "check_rule_produces_equality rn r p d \<sigma> =
     and_then (process_actions rn \<sigma> (rule_head r) d) (\<lambda>(a, d).
       if p \<in> propositions a then Ok d
       else Err (Check (RuleHeadMismatch rn (prop_lhs p) (prop_rhs p))))"

subsection \<open>The last step of each justification\<close>

text \<open>
  Each function below gets the propositions of the sub-proofs, already checked, and decides
  about the claim of the proof.
\<close>

definition check_fiat :: "nat \<Rightarrow> proof_node \<Rightarrow> proof_store \<Rightarrow> check_context \<Rightarrow> propn checked" where
  "check_fiat pid pr s c =
     (let l = proof_lhs pr; r = proof_rhs pr in
      and_then (if l = r then reflexive_value_term (Suc l) s l else Ok False) (\<lambda>b.
        if b \<or> in_globals c l r then Ok (Proposition l r) else Err (Check (InvalidFiat pid l r))))"

definition check_trans :: "nat \<Rightarrow> proof_node \<Rightarrow> propn \<Rightarrow> propn \<Rightarrow> propn checked" where
  "check_trans pid pr p q =
     (if prop_rhs p \<noteq> prop_lhs q then Err (Check (TransitivityMismatch pid (prop_rhs p) (prop_lhs q)))
      else if proof_lhs pr \<noteq> prop_lhs p \<or> proof_rhs pr \<noteq> prop_rhs q
      then Err (Check (TermMismatch pid (proof_lhs pr) (proof_rhs pr) (prop_lhs p) (prop_rhs q)))
      else Ok (Proposition (proof_lhs pr) (proof_rhs pr)))"

definition check_sym :: "nat \<Rightarrow> proof_node \<Rightarrow> propn \<Rightarrow> propn checked" where
  "check_sym pid pr p =
     (if proof_lhs pr \<noteq> prop_rhs p \<or> proof_rhs pr \<noteq> prop_lhs p
      then Err (Check (TermMismatch pid (proof_lhs pr) (proof_rhs pr) (prop_rhs p) (prop_lhs p)))
      else Ok (Proposition (proof_lhs pr) (proof_rhs pr)))"

definition check_congr :: "nat \<Rightarrow> proof_node \<Rightarrow> nat \<Rightarrow> propn \<Rightarrow> propn \<Rightarrow> dag \<Rightarrow> (propn \<times> dag) checked" where
  "check_congr pid pr k base child d =
     and_then (lift_panic (dag_get d (prop_rhs base))) (\<lambda>t.
       case t of
         App f cs \<Rightarrow>
           if length cs \<le> k then Err (Check (CongruenceChildIndexOutOfBounds pid k (length cs)))
           else if cs ! k \<noteq> prop_lhs child
           then Err (Check (CongruenceChildMismatch pid (prop_lhs child) (cs ! k) k))
           else
             (let (e, d) = dag_app d f (cs[k := prop_rhs child]) in
              if proof_rhs pr \<noteq> e then Err (Check (CongruenceResultMismatch pid (proof_rhs pr) e))
              else if proof_lhs pr \<noteq> prop_lhs base then Err (Check (CongruenceLhsMismatch pid))
              else Ok (Proposition (proof_lhs pr) (proof_rhs pr), d))
       | _ \<Rightarrow> Err (Check (CongruenceBaseNotApp pid)))"

definition check_proj :: "nat \<Rightarrow> proof_node \<Rightarrow> nat \<Rightarrow> propn \<Rightarrow> dag \<Rightarrow> propn checked" where
  "check_proj pid pr k base d =
     and_then (lift_panic (dag_get d (prop_rhs base))) (\<lambda>t.
       case t of
         App f cs \<Rightarrow>
           (case get_opt cs k of
              None \<Rightarrow> Err (Check (ProjectionChildIndexOutOfBounds pid k (length cs)))
            | Some b \<Rightarrow>
                if proof_lhs pr \<noteq> b \<or> proof_rhs pr \<noteq> b
                then Err (Check (ProjectionResultMismatch pid (proof_lhs pr) (proof_rhs pr) b k))
                else Ok (Proposition b b))
       | _ \<Rightarrow> Err (Check (ProjectionBaseNotApp pid)))"

definition check_normalize :: "nat \<Rightarrow> proof_node \<Rightarrow> propn \<Rightarrow> proof_store \<Rightarrow> (propn \<times> proof_store) checked" where
  "check_normalize pid pr p s =
     and_then (normalize_container s (prop_rhs p)) (\<lambda>(n, s).
       let lhs_ok = (proof_lhs pr = prop_lhs p) in
       if \<not> lhs_ok \<or> proof_rhs pr \<noteq> n
       then Err (Check (ContainerNormalizeMismatch pid (prop_rhs p) n (proof_rhs pr) lhs_ok))
       else Ok (Proposition (proof_lhs pr) (proof_rhs pr), s))"

text \<open>The two view terms of a merge: the old and new output, the head and the common inputs.\<close>

definition merge_views :: "nat \<Rightarrow> propn \<Rightarrow> propn \<Rightarrow> dag \<Rightarrow> (nat \<times> nat \<times> string \<times> nat list) checked" where
  "merge_views pid old new d =
     (if prop_lhs old \<noteq> prop_rhs old
      then Err (Check (MergeFnNotReflexive pid ''old'' (prop_lhs old) (prop_rhs old)))
      else if prop_lhs new \<noteq> prop_rhs new
      then Err (Check (MergeFnNotReflexive pid ''new'' (prop_lhs new) (prop_rhs new)))
      else
        and_then (lift_panic (dag_get d (prop_rhs old))) (\<lambda>s.
        and_then (lift_panic (dag_get d (prop_rhs new))) (\<lambda>t.
          case (s, t) of
            (App f as, App g bs) \<Rightarrow>
              if f \<noteq> g then Err (Check (MergeFnFunctionMismatch pid f g))
              else if as = [] then Err (Check (MergeFnEmptyArgs pid ''old''))
              else if bs = [] then Err (Check (MergeFnEmptyArgs pid ''new''))
              else if length (butlast as) \<noteq> length bs - 1 \<or>
                list_ex (\<lambda>(a, b). a \<noteq> b) (zip (butlast as) (butlast bs))
              then Err (Check (MergeFnInputMismatch pid))
              else Ok (last as, last bs, f, butlast as)
          | _ \<Rightarrow> Err (Check (MergeFnNotApp pid (prop_rhs old) (prop_rhs new))))))"

definition check_merge ::
  "nat \<Rightarrow> proof_node \<Rightarrow> string \<Rightarrow> propn \<Rightarrow> propn \<Rightarrow> ncommand list \<Rightarrow> check_context \<Rightarrow> dag \<Rightarrow> (propn \<times> dag) checked" where
  "check_merge pid pr f old new prog c d =
     and_then (merge_views pid old new d) (\<lambda>(old_term, new_term, head, inputs).
     and_then (run_merge d f prog (global_bindings c) old_term new_term) (\<lambda>(m, P, d).
       let (v, d) = dag_app d head (inputs @ [m]) in
       if Proposition (proof_lhs pr) (proof_rhs pr) \<in> insert (Proposition v v) P
       then Ok (Proposition (proof_lhs pr) (proof_rhs pr), d)
       else Err (Check (MergeFnResultMismatch pid (proof_lhs pr) (proof_rhs pr)))))"

text \<open>Recorded substitutions override the globals of the same name.\<close>

definition working_subst :: "check_context \<Rightarrow> (string \<times> nat) list \<Rightarrow> subst" where
  "working_subst c sub = global_bindings c ++ map_of (rev sub)"

subsection \<open>The recursive check\<close>

text \<open>
  \<open>check_body\<close> is the loop over the premises and \<open>check_just\<close> the match on the justification; \<open>chk\<close>
  is the recursive call.
\<close>

type_synonym checker =
  "nat \<Rightarrow> proof_store \<Rightarrow> check_context \<Rightarrow> (propn \<times> proof_store \<times> check_context) checked"

fun check_body :: "checker \<Rightarrow> string \<Rightarrow> (fact \<times> nat) list \<Rightarrow> subst \<Rightarrow> proof_store \<Rightarrow> check_context \<Rightarrow>
    (subst \<times> proof_store \<times> check_context) checked" where
  "check_body chk n [] \<sigma> s c = Ok (\<sigma>, s, c)"
| "check_body chk n ((f, pid) # fs) \<sigma> s c =
     and_then (assert_body_proof_normal_form n f) (\<lambda>_.
       if is_container_side_condition f
       then
         and_then (check_side_condition n f (store_dag s) \<sigma>) (\<lambda>(\<sigma>, d).
           check_body chk n fs \<sigma> (s\<lparr>store_dag := d\<rparr>) c)
       else
         and_then (chk pid s c) (\<lambda>(p, s, c).
         and_then (check_fact_matches n f p (store_dag s) \<sigma>) (\<lambda>d.
           check_body chk n fs \<sigma> (s\<lparr>store_dag := d\<rparr>) c)))"

definition check_just :: "checker \<Rightarrow> ncommand list \<Rightarrow> nat \<Rightarrow> proof_node \<Rightarrow> proof_store \<Rightarrow> check_context \<Rightarrow>
    (propn \<times> proof_store \<times> check_context) checked" where
  "check_just chk prog pid pr s c =
     (case justified_by pr of
        Fiat \<Rightarrow> and_then (check_fiat pid pr s c) (\<lambda>p. Ok (p, s, c))
      | Rule n premises sub \<Rightarrow>
          and_then (ok_or (find_rule prog n) (Check (RuleNotFound n))) (\<lambda>r.
            if length (rule_body r) \<noteq> length premises
            then Err (Check (RulePremiseCountMismatch pid n (length (rule_body r)) (length premises)))
            else
              and_then (check_body chk n (zip (rule_body r) premises) (working_subst c sub) s c) (\<lambda>(\<sigma>, s, c).
              and_then (check_rule_produces_equality n r (claim pr) (store_dag s) \<sigma>) (\<lambda>d.
                Ok (Proposition (proof_lhs pr) (proof_rhs pr), s\<lparr>store_dag := d\<rparr>, c))))
      | MergeFn f old new \<Rightarrow>
          and_then (chk old s c) (\<lambda>(p, s, c).
          and_then (chk new s c) (\<lambda>(q, s, c).
          and_then (check_merge pid pr f p q prog c (store_dag s)) (\<lambda>(r, d).
            Ok (r, s\<lparr>store_dag := d\<rparr>, c))))
      | Trans a b \<Rightarrow>
          and_then (chk a s c) (\<lambda>(p, s, c).
          and_then (chk b s c) (\<lambda>(q, s, c).
          and_then (check_trans pid pr p q) (\<lambda>r. Ok (r, s, c))))
      | Sym a \<Rightarrow>
          and_then (chk a s c) (\<lambda>(p, s, c).
          and_then (check_sym pid pr p) (\<lambda>r. Ok (r, s, c)))
      | Congr a i b \<Rightarrow>
          and_then (chk a s c) (\<lambda>(p, s, c).
          and_then (chk b s c) (\<lambda>(q, s, c).
          and_then (check_congr pid pr i p q (store_dag s)) (\<lambda>(r, d). Ok (r, s\<lparr>store_dag := d\<rparr>, c))))
      | Proj a i \<Rightarrow>
          and_then (chk a s c) (\<lambda>(p, s, c).
          and_then (check_proj pid pr i p (store_dag s)) (\<lambda>r. Ok (r, s, c)))
      | ContainerNormalize a \<Rightarrow>
          and_then (chk a s c) (\<lambda>(p, s, c).
          and_then (check_normalize pid pr p s) (\<lambda>(r, s). Ok (r, s, c)))
      | Eval \<Rightarrow> Err (Check (EvalOutsideSideCondition pid)))"

fun check_proof_ctx :: "nat \<Rightarrow> ncommand list \<Rightarrow> checker" where
  "check_proof_ctx 0 prog pid s c = Err OutOfFuel"
| "check_proof_ctx (Suc k) prog pid s c =
     (case checked_proofs c pid of
        Some p \<Rightarrow> Ok (p, s, c)
      | None \<Rightarrow>
          and_then (lift_panic (dim_index (id_to_proof s) pid)) (\<lambda>pr.
          and_then (check_just (check_proof_ctx k prog) prog pid pr s c) (\<lambda>(p, s, c).
            Ok (p, s, c\<lparr>checked_proofs := (checked_proofs c)(pid \<mapsto> p)\<rparr>))))"

definition check_proof :: "nat \<Rightarrow> proof_store \<Rightarrow> nat \<Rightarrow> ncommand list \<Rightarrow> (propn \<times> proof_store) checked" where
  "check_proof k s pid prog =
     and_then (context_new prog (store_dag s)) (\<lambda>(c, d).
     and_then (check_proof_ctx k prog pid (s\<lparr>store_dag := d\<rparr>) c) (\<lambda>(p, s, _). Ok (p, s)))"

fun check_proofs_loop :: "nat \<Rightarrow> proof_store \<Rightarrow> nat list \<Rightarrow> ncommand list \<Rightarrow> check_context \<Rightarrow> (propn list \<times> proof_store) checked" where
  "check_proofs_loop k s [] prog c = Ok ([], s)"
| "check_proofs_loop k s (pid # pids) prog c =
     and_then (check_proof_ctx k prog pid s c) (\<lambda>(p, s, c).
     and_then (check_proofs_loop k s pids prog c) (\<lambda>(ps, s). Ok (p # ps, s)))"

definition check_proofs :: "nat \<Rightarrow> proof_store \<Rightarrow> nat list \<Rightarrow> ncommand list \<Rightarrow> (propn list \<times> proof_store) checked" where
  "check_proofs k s pids prog =
     and_then (context_new prog (store_dag s)) (\<lambda>(c, d).
       check_proofs_loop k (s\<lparr>store_dag := d\<rparr>) pids prog c)"

end
