(* ===== verification/ProofSoundness.thy ===== *)
theory ProofSoundness
  imports ProofChecker
begin

text \<open>
  What a checked proof means.  \<open>derivable\<close> is the set of equalities between terms that a program
  establishes: those of its global actions, of its rules and merge functions, closed under the
  axioms of proofs.  The checker is sound for it, provided that no recorded substitution rebinds a
  global and that a merge names the function of its rows; two examples show that the checker
  itself does not enforce these two conditions.
\<close>

section \<open>Derivable equalities\<close>

fun value_tree :: "string set \<Rightarrow> tm \<Rightarrow> bool" where
  "value_tree pvc (ELit l) = True"
| "value_tree pvc (EVar x) = False"
| "value_tree pvc (ECall h ts) = (h \<in> pvc \<and> list_all (value_tree pvc) ts)"

definition fact_matches :: "prim_sem \<Rightarrow> valuation \<Rightarrow> fact \<Rightarrow> tm \<Rightarrow> tm \<Rightarrow> bool" where
  "fact_matches psem \<nu> f a b =
     (case custom_fact f of
        Some (h, es, v) \<Rightarrow>
          (\<exists>ts out. tevals psem \<nu> es = Some ts \<and> \<nu> v = Some out \<and> a = ECall (call_name h) (ts @ [out]) \<and> b = a)
      | None \<Rightarrow>
          (case f of
             EqFact l r \<Rightarrow> teval psem \<nu> l = Some a \<and> teval psem \<nu> r = Some b
           | Fact e \<Rightarrow> teval psem \<nu> e = Some b))"

definition side_holds :: "prim_sem \<Rightarrow> valuation \<Rightarrow> fact \<Rightarrow> bool" where
  "side_holds psem \<nu> f =
     (case f of
        EqFact l r \<Rightarrow> (\<exists>v. teval psem \<nu> l = Some v \<and> teval psem \<nu> r = Some v)
      | Fact e \<Rightarrow> (\<exists>v. teval psem \<nu> e = Some v))"

definition tglobals :: "prim_sem \<Rightarrow> ncommand list \<Rightarrow> (valuation \<times> (tm \<times> tm) set) option" where
  "tglobals psem prog = tactions psem (gather_global_actions prog) (Map.empty, {})"

inductive derivable :: "ncommand list \<Rightarrow> prim_sem \<Rightarrow> (string \<Rightarrow> tm list \<Rightarrow> tm option) \<Rightarrow> string set \<Rightarrow> tm \<Rightarrow> tm \<Rightarrow> bool"
  for prog psem cnorm pvc where
  d_global: "tglobals psem prog = Some (\<nu>\<^sub>0, Y) \<Longrightarrow> (s, t) \<in> Y \<Longrightarrow> derivable prog psem cnorm pvc s t"
| d_value: "value_tree pvc t \<Longrightarrow> derivable prog psem cnorm pvc t t"
| d_rule: "tglobals psem prog = Some (\<nu>\<^sub>0, Y) \<Longrightarrow> find_rule prog n = Some r \<Longrightarrow> \<nu>\<^sub>0 \<subseteq>\<^sub>m \<nu> \<Longrightarrow>
    \<forall>f \<in> set (rule_body r). is_container_side_condition f \<and> side_holds psem \<nu> f \<or>
      (\<exists>a b. derivable prog psem cnorm pvc a b \<and> fact_matches psem \<nu> f a b) \<Longrightarrow>
    tactions psem (rule_head r) (\<nu>, {}) = Some (\<nu>', Z) \<Longrightarrow> (s, t) \<in> Z \<Longrightarrow>
    derivable prog psem cnorm pvc s t"
| d_merge: "tglobals psem prog = Some (\<nu>\<^sub>0, Y) \<Longrightarrow> find_merge prog f = Ok m \<Longrightarrow>
    derivable prog psem cnorm pvc (ECall f (ins @ [old])) (ECall f (ins @ [old])) \<Longrightarrow>
    derivable prog psem cnorm pvc (ECall f (ins @ [new])) (ECall f (ins @ [new])) \<Longrightarrow>
    teval psem (\<nu>\<^sub>0(''new'' \<mapsto> new, ''old'' \<mapsto> old)) (merge_result m) = Some v \<Longrightarrow>
    t = ECall f (ins @ [v]) \<or> t \<in> texists psem (\<nu>\<^sub>0(''new'' \<mapsto> new, ''old'' \<mapsto> old)) (merge_result m) \<Longrightarrow>
    derivable prog psem cnorm pvc t t"
| d_trans: "derivable prog psem cnorm pvc s t \<Longrightarrow> derivable prog psem cnorm pvc t u \<Longrightarrow> derivable prog psem cnorm pvc s u"
| d_sym: "derivable prog psem cnorm pvc s t \<Longrightarrow> derivable prog psem cnorm pvc t s"
| d_congr: "derivable prog psem cnorm pvc s (ECall f ts) \<Longrightarrow> k < length ts \<Longrightarrow>
    derivable prog psem cnorm pvc (ts ! k) u \<Longrightarrow> derivable prog psem cnorm pvc s (ECall f (ts[k := u]))"
| d_proj: "derivable prog psem cnorm pvc s (ECall f ts) \<Longrightarrow> t \<in> set ts \<Longrightarrow> derivable prog psem cnorm pvc t t"
| d_norm: "derivable prog psem cnorm pvc s (ECall h ts) \<Longrightarrow> cnorm h ts = Some u \<Longrightarrow> derivable prog psem cnorm pvc s u"

section \<open>Valuations\<close>

lemma teval_cong:
  "\<forall>x \<in> set (expr_vars e). \<nu> x = \<nu>' x \<Longrightarrow> teval psem \<nu> e = teval psem \<nu>' e"
  "\<forall>e \<in> set es. \<forall>x \<in> set (expr_vars e). \<nu> x = \<nu>' x \<Longrightarrow> tevals psem \<nu> es = tevals psem \<nu>' es"
proof (induction psem \<nu> e and psem \<nu> es rule: teval_tevals.induct)
  case (5 psem \<nu> e es)
  then show ?case by (cases "teval psem \<nu>' e") auto
qed (auto split: resolved_call.splits)

lemma texists_cong:
  "\<forall>x \<in> set (expr_vars e). \<nu> x = \<nu>' x \<Longrightarrow> texists psem \<nu> e = texists psem \<nu>' e"
  "\<forall>e \<in> set es. \<forall>x \<in> set (expr_vars e). \<nu> x = \<nu>' x \<Longrightarrow> texists_args psem \<nu> es = texists_args psem \<nu>' es"
proof (induction psem \<nu> e and psem \<nu> es rule: texists_texists_args.induct)
  case (3 psem \<nu> h es)
  then have "teval psem \<nu> (ECall h es) = teval psem \<nu>' (ECall h es)" by (intro teval_cong)
  with 3 show ?case by (simp del: teval.simps)
qed auto

lemma teval_mono:
  "\<nu> \<subseteq>\<^sub>m \<nu>' \<Longrightarrow> teval psem \<nu> e = Some v \<Longrightarrow> teval psem \<nu>' e = Some v"
  "\<nu> \<subseteq>\<^sub>m \<nu>' \<Longrightarrow> tevals psem \<nu> es = Some vs \<Longrightarrow> tevals psem \<nu>' es = Some vs"
proof (induction psem \<nu> e and psem \<nu> es arbitrary: v and vs rule: teval_tevals.induct)
  case (2 psem \<nu> x)
  then show ?case by (auto simp: map_le_def dom_def)
next
  case (3 psem \<nu> h es)
  then show ?case by (cases h) (auto simp: bind_eq_Some_conv)
next
  case (5 psem \<nu> e es)
  then show ?case by (auto simp: bind_eq_Some_conv)
qed auto

lemma fact_matches_mono: "\<nu> \<subseteq>\<^sub>m \<nu>' \<Longrightarrow> fact_matches psem \<nu> f a b \<Longrightarrow> fact_matches psem \<nu>' f a b"
  using teval_mono [of \<nu> \<nu>' psem] by (auto simp: fact_matches_def map_le_def dom_def split: option.splits fact.splits)

lemma side_holds_mono: "\<nu> \<subseteq>\<^sub>m \<nu>' \<Longrightarrow> side_holds psem \<nu> f \<Longrightarrow> side_holds psem \<nu>' f"
  by (auto simp: side_holds_def split: fact.splits dest: teval_mono(1))

lemma val_map_le: "\<sigma> \<subseteq>\<^sub>m \<sigma>' \<Longrightarrow> val d \<sigma> \<subseteq>\<^sub>m val d \<sigma>'"
  by (auto simp: map_le_def val_def dom_def)

section \<open>The building blocks\<close>

lemma store_eval_evaluates:
  "dag_wf d \<Longrightarrow> subst_ok d \<sigma> \<Longrightarrow> lawful_prims psem (expr_prims e) \<Longrightarrow> store_eval rn e d \<sigma> = Ok (i, d') \<Longrightarrow>
     dag_wf d' \<and> extends d d' \<and> i < dag_size d' \<and> teval psem (val d \<sigma>) e = Some (tree d' i)"
  "dag_wf d \<Longrightarrow> subst_ok d \<sigma> \<Longrightarrow> lawful_prims psem (\<Union>e \<in> set es. expr_prims e) \<Longrightarrow>
     store_evals rn es d \<sigma> = Ok (is, d') \<Longrightarrow>
     dag_wf d' \<and> extends d d' \<and> (\<forall>i \<in> set is. i < dag_size d') \<and> tevals psem (val d \<sigma>) es = Some (map (tree d') is)"
proof (induction rn e d \<sigma> and rn es d \<sigma> arbitrary: i d' and "is" d' rule: store_eval_store_evals.induct)
  case (1 rn l d \<sigma>)
  have "interns d (ELit l) (i, d')"
    using add_node_interns [OF 1(1), of "Lit l"] 1(4) by (simp add: dag_lit_def node_tree_def)
  then show ?case by (auto simp: dag_size_def dest: internsD)
next
  case (2 rn x d \<sigma>)
  then show ?case by (auto simp: subst_ok_def val_def elim!: and_then_OkE)
next
  case (3 rn h es d \<sigma>)
  from 3(5) obtain ts d1 where a: "store_evals rn es d \<sigma> = Ok (ts, d1)" by (auto elim!: and_then_OkE)
  have l: "lawful_prims psem (\<Union>e \<in> set es. expr_prims e)" using 3(4) by simp
  have IH: "dag_wf d1" "extends d d1" "\<forall>i \<in> set ts. i < dag_size d1"
    "tevals psem (val d \<sigma>) es = Some (map (tree d1) ts)"
    using 3(1) [OF 3(2,3) l a] by auto
  show ?case
  proof (cases h)
    case (Func f)
    with 3(5) a have app: "dag_app d1 (ft_name f) ts = (i, d')"
      by (simp split: function_subtype.splits)
    have "interns d1 (ECall (ft_name f) (map (tree d1) ts)) (i, d')"
      using add_node_interns [OF IH(1), of "App (ft_name f) ts"] IH(3) app
      by (auto simp: dag_app_def node_tree_def dag_size_def)
    then show ?thesis using IH Func by (auto simp: dag_size_def dest: internsD intro: extends_trans)
  next
    case (Primitive p)
    with 3(5) a obtain v where v: "prim_validator p = Some v" "v d1 ts = (Some i, d')"
      by (auto split: option.splits prod.splits)
    have "lawful_validator v (psem p)" using 3(4) v(1) Primitive by (simp add: lawful_prims_def)
    from lawful_validatorD [OF this IH(1,3) v(2)] IH Primitive show ?thesis by (auto intro: extends_trans)
  next
    case Values
    with 3(5) a show ?thesis by simp
  qed
next
  case (4 rn d \<sigma>)
  then show ?case by simp
next
  case (5 rn e es d \<sigma>)
  from 5(6) obtain j d1 js where a: "store_eval rn e d \<sigma> = Ok (j, d1)"
    "store_evals rn es d1 \<sigma> = Ok (js, d')" "is = j # js" by (auto elim!: and_then_OkE)
  have h: "dag_wf d1" "extends d d1" "j < dag_size d1" "teval psem (val d \<sigma>) e = Some (tree d1 j)"
    using 5(1) [OF 5(3,4) _ a(1)] 5(5) by auto
  note so = subst_ok_extends [OF 5(4) h(2)] and vl = val_extends [OF 5(4) h(2)]
  have t: "dag_wf d'" "extends d1 d'" "\<forall>i \<in> set js. i < dag_size d'"
    "tevals psem (val d \<sigma>) es = Some (map (tree d') js)"
    using 5(2) [OF a(1) refl h(1) so _ a(2)] 5(5) vl by auto
  from h t a(3) show ?case by (auto simp: dag_size_extends tree_extends_size intro: extends_trans)
qed

lemma eval_side_ok:
  assumes "dag_wf d" "subst_ok d \<sigma>" "lawful_prims psem (expr_prims e)" "eval_side rn e d \<sigma> = Ok (r, d')"
  shows "dag_wf d'" "extends d d'"
    "r = Some i \<Longrightarrow> i < dag_size d' \<and> teval psem (val d \<sigma>) e = Some (tree d' i)"
    "r = None \<Longrightarrow> \<exists>x. e = EVar x \<and> \<sigma> x = None"
proof -
  have "dag_wf d' \<and> extends d d' \<and>
    (\<forall>i. r = Some i \<longrightarrow> i < dag_size d' \<and> teval psem (val d \<sigma>) e = Some (tree d' i)) \<and>
    (r = None \<longrightarrow> (\<exists>x. e = EVar x \<and> \<sigma> x = None))"
  proof (cases "\<exists>x. e = EVar x")
    case True
    with assms show ?thesis by (auto simp: eval_side_def subst_ok_def val_def)
  next
    case False
    with assms(4) obtain i P where ev: "eval_expr rn e d \<sigma> = Ok (i, P, d')" "r = Some i"
      by (cases e) (auto simp: eval_side_def simp del: eval_expr.simps elim!: and_then_OkE)
    from eval_expr_evaluates(1) [OF assms(1-3) ev(1)] ev(2) show ?thesis by (auto simp: evaluates_def)
  qed
  then show "dag_wf d'" "extends d d'"
    "r = Some i \<Longrightarrow> i < dag_size d' \<and> teval psem (val d \<sigma>) e = Some (tree d' i)"
    "r = None \<Longrightarrow> \<exists>x. e = EVar x \<and> \<sigma> x = None" by auto
qed

fun fact_prims :: "fact \<Rightarrow> specialized_primitive set" where
  "fact_prims (EqFact l r) = expr_prims l \<union> expr_prims r"
| "fact_prims (Fact e) = expr_prims e"

lemma side_outcome_cases:
  assumes "side_outcome l a r b = Some z"
  obtains x v where "z = Inl (x, v)" "l = EVar x" "a = None" "b = Some v"
  | x v where "z = Inl (x, v)" "r = EVar x" "b = None" "a = Some v"
  | i j where "z = Inr (i, j)" "a = Some i" "b = Some j"
  using assms by (induction l a r b rule: side_outcome.induct) auto

lemma check_side_condition_ok:
  assumes "dag_wf d" "subst_ok d \<sigma>" "lawful_prims psem (fact_prims f)"
    "check_side_condition rn f d \<sigma> = Ok (\<sigma>', d')"
  shows "dag_wf d' \<and> extends d d' \<and> subst_ok d' \<sigma>' \<and> \<sigma> \<subseteq>\<^sub>m \<sigma>' \<and> side_holds psem (val d' \<sigma>') f"
proof (cases f)
  case (Fact e)
  with assms(4) obtain i P where ev: "eval_expr rn e d \<sigma> = Ok (i, P, d')" "\<sigma>' = \<sigma>"
    by (auto simp: check_side_condition_def elim!: and_then_OkE)
  from eval_expr_evaluates(1) [OF assms(1,2) _ ev(1)] assms(3) Fact
  have "evaluates psem d \<sigma> e i P d'" by simp
  with Fact ev(2) subst_ok_extends [OF assms(2)] val_extends [OF assms(2), of d'] show ?thesis
    by (auto simp: evaluates_def side_holds_def)
next
  case (EqFact l r)
  with assms(4) obtain a d1 b z where a: "eval_side rn l d \<sigma> = Ok (a, d1)" and b: "eval_side rn r d1 \<sigma> = Ok (b, d')"
    and z: "side_outcome l a r b = Some z"
    and fin: "(case z of Inl (x, v) \<Rightarrow> \<sigma>' = \<sigma>(x \<mapsto> v) | Inr (i, j) \<Rightarrow> i = j \<and> \<sigma>' = \<sigma>)"
    by (fastforce simp: check_side_condition_def elim!: and_then_OkE split: option.splits sum.splits prod.splits if_splits)
  have law: "lawful_prims psem (expr_prims l)" "lawful_prims psem (expr_prims r)" using assms(3) EqFact by simp_all
  note ea = eval_side_ok [OF assms(1,2) law(1) a]
  note so1 = subst_ok_extends [OF assms(2) ea(2)] and vl1 = val_extends [OF assms(2) ea(2)]
  note eb = eval_side_ok [OF ea(1) so1 law(2) b]
  have ext: "extends d d'" using ea(2) eb(2) by (rule extends_trans)
  have so: "subst_ok d' \<sigma>" and vl: "val d' \<sigma> = val d \<sigma>"
    using subst_ok_extends [OF assms(2) ext] val_extends [OF assms(2) ext] by auto
  have ta: "i < dag_size d' \<and> teval psem (val d' \<sigma>) l = Some (tree d' i)" if "a = Some i" for i
    using ea(3) [OF that] eb(2) vl by (auto simp: dag_size_extends tree_extends_size)
  have tb: "i < dag_size d' \<and> teval psem (val d' \<sigma>) r = Some (tree d' i)" if "b = Some i" for i
    using eb(3) [OF that] vl vl1 by auto
  have bind: ?thesis if "\<sigma> x = None" "v < dag_size d'" "\<sigma>' = \<sigma>(x \<mapsto> v)"
    "l = EVar x \<and> teval psem (val d' \<sigma>) r = Some (tree d' v) \<or> r = EVar x \<and> teval psem (val d' \<sigma>) l = Some (tree d' v)"
    for x v
  proof -
    have le: "\<sigma> \<subseteq>\<^sub>m \<sigma>'" using that(1,3) by (auto simp: map_le_def)
    have "teval psem (val d' \<sigma>') (EVar x) = Some (tree d' v)" using that(3) by (simp add: val_def)
    moreover have "teval psem (val d' \<sigma>) e = Some u \<Longrightarrow> teval psem (val d' \<sigma>') e = Some u" for e u
      by (rule teval_mono(1) [OF val_map_le [OF le]])
    ultimately have "side_holds psem (val d' \<sigma>') f" using that(4) by (auto simp: side_holds_def EqFact)
    with le that so ext eb(1) show ?thesis by (simp add: subst_ok_upd)
  qed
  from z show ?thesis
  proof (cases rule: side_outcome_cases)
    case (1 x v)
    with ea(4) tb [of v] fin show ?thesis by (intro bind [of x v]) auto
  next
    case (2 x v)
    with eb(4) ta [of v] fin show ?thesis by (intro bind [of x v]) auto
  next
    case (3 i j)
    with fin ta [of i] tb [of j] so ext eb(1) EqFact show ?thesis by (auto simp: side_holds_def)
  qed
qed

lemma check_fact_matches_ok:
  assumes "dag_wf d" "subst_ok d \<sigma>" "lawful_prims psem (fact_prims f)"
    "prop_lhs p < dag_size d" "prop_rhs p < dag_size d" "check_fact_matches rn f p d \<sigma> = Ok d'"
  shows "dag_wf d' \<and> extends d d' \<and> fact_matches psem (val d \<sigma>) f (tree d (prop_lhs p)) (tree d (prop_rhs p))"
proof (cases "custom_fact f")
  case (Some q)
  obtain h es v where q: "q = (h, es, v)" by (cases q)
  with Some assms(6) obtain out ts d1 i where o: "\<sigma> v = Some out" "store_evals rn es d \<sigma> = Ok (ts, d1)"
    "dag_app d1 (call_name h) (ts @ [out]) = (i, d')" "prop_lhs p = i" "prop_rhs p = i"
    by (auto simp: check_fact_matches_def elim!: and_then_OkE split: prod.splits if_splits)
  have f: "f = EqFact (ECall h es) (EVar v)" "is_custom_func h"
    using Some q by (auto simp: custom_fact_def split: fact.splits generic_expr.splits if_splits)
  have t: "dag_wf d1" "extends d d1" "\<forall>i \<in> set ts. i < dag_size d1" "tevals psem (val d \<sigma>) es = Some (map (tree d1) ts)"
    using store_eval_evaluates(2) [OF assms(1,2) _ o(2)] assms(3) f by auto
  have out: "out < dag_size d" using assms(2) o(1) by (auto simp: subst_ok_def)
  have "interns d1 (ECall (call_name h) (map (tree d1) (ts @ [out]))) (i, d')"
    using add_node_interns [OF t(1), of "App (call_name h) (ts @ [out])"] t(3) out o(3) dag_size_extends [OF t(2) out]
    by (auto simp: dag_app_def node_tree_def dag_size_def)
  then have d': "dag_wf d'" "extends d1 d'" "tree d' i = ECall (call_name h) (map (tree d1) ts @ [tree d out])"
    using tree_extends_size [OF t(2) out] by (auto simp: dag_size_def dest: internsD)
  have ext: "extends d d'" using t(2) d'(2) by (rule extends_trans)
  have "tree d i = tree d' i" using tree_extends_size [OF ext, of i] assms(4) o(4) by simp
  with d' ext t o show ?thesis by (auto simp: fact_matches_def Some q val_def)
next
  case None
  show ?thesis
  proof (cases f)
    case (EqFact l r)
    with None assms(6) obtain i d1 j where o: "store_eval rn l d \<sigma> = Ok (i, d1)" "store_eval rn r d1 \<sigma> = Ok (j, d')"
      "prop_lhs p = i" "prop_rhs p = j"
      by (auto simp: check_fact_matches_def elim!: and_then_OkE split: if_splits)
    have a: "dag_wf d1" "extends d d1" "teval psem (val d \<sigma>) l = Some (tree d1 i)"
      using store_eval_evaluates(1) [OF assms(1,2) _ o(1)] assms(3) EqFact by auto
    have b: "dag_wf d'" "extends d1 d'" "teval psem (val d \<sigma>) r = Some (tree d' j)"
      using store_eval_evaluates(1) [OF a(1) subst_ok_extends [OF assms(2) a(2)] _ o(2)]
        val_extends [OF assms(2) a(2)] assms(3) EqFact by auto
    have ext: "extends d d'" using a(2) b(2) by (rule extends_trans)
    have "tree d1 i = tree d i" "tree d' j = tree d j"
      using tree_extends_size [OF a(2), of i] tree_extends_size [OF ext, of j] assms(4,5) o(3,4) by simp_all
    with a b ext o EqFact None show ?thesis by (simp add: fact_matches_def)
  next
    case (Fact e)
    with None assms(6) obtain i where o: "store_eval rn e d \<sigma> = Ok (i, d')" "prop_rhs p = i"
      by (auto simp: check_fact_matches_def elim!: and_then_OkE split: if_splits)
    have a: "dag_wf d'" "extends d d'" "teval psem (val d \<sigma>) e = Some (tree d' i)"
      using store_eval_evaluates(1) [OF assms(1,2) _ o(1)] assms(3) Fact by auto
    have "tree d' i = tree d i" using tree_extends_size [OF a(2), of i] assms(5) o(2) by simp
    with a o Fact None show ?thesis by (simp add: fact_matches_def)
  qed
qed

section \<open>The state of a sound check\<close>

fun command_prims :: "ncommand \<Rightarrow> specialized_primitive set" where
  "command_prims (CoreAction a) = action_prims a"
| "command_prims (NormRule r) = (\<Union>a \<in> set (rule_head r). action_prims a) \<union> (\<Union>f \<in> set (rule_body r). fact_prims f)"
| "command_prims (Function d) = (case fd_merge d of None \<Rightarrow> {} | Some m \<Rightarrow> expr_prims (merge_result m))"
| "command_prims OtherCommand = {}"

definition program_prims :: "ncommand list \<Rightarrow> specialized_primitive set" where
  "program_prims prog = (\<Union>c \<in> set prog. command_prims c)"

definition global_names :: "ncommand list \<Rightarrow> string set" where
  "global_names prog = {x. \<exists>e. Let x e \<in> set (gather_global_actions prog)}"

text \<open>The ids a proof mentions are terms of the DAG.\<close>

definition ids_valid :: "dag \<Rightarrow> proof_node \<Rightarrow> bool" where
  "ids_valid d pr \<longleftrightarrow> proof_lhs pr < dag_size d \<and> proof_rhs pr < dag_size d \<and>
     (\<forall>n ps sub. justified_by pr = Rule n ps sub \<longrightarrow> (\<forall>(x, i) \<in> set sub. i < dag_size d))"

text \<open>
  The two conditions the checker does not enforce: a substitution does not rebind a global, and
  a merge names the function whose rows it merges.
\<close>

definition keeps_globals :: "ncommand list \<Rightarrow> proof_node \<Rightarrow> bool" where
  "keeps_globals prog pr \<longleftrightarrow>
     (\<forall>n ps sub. justified_by pr = Rule n ps sub \<longrightarrow> fst ` set sub \<inter> global_names prog = {})"

definition merges_own_rows :: "proof_store \<Rightarrow> proof_node \<Rightarrow> bool" where
  "merges_own_rows s pr \<longleftrightarrow>
     (\<forall>f old new po. justified_by pr = MergeFn f old new \<longrightarrow> dim_get (id_to_proof s) old = Some po \<longrightarrow>
        (\<exists>ts. tree (store_dag s) (proof_rhs po) = ECall f ts))"

text \<open>A store whose proofs are about its own terms, with lawful validators.\<close>

definition store_ok :: "ncommand list \<Rightarrow> prim_sem \<Rightarrow> (string \<Rightarrow> tm list \<Rightarrow> tm option) \<Rightarrow> proof_store \<Rightarrow> bool" where
  "store_ok prog psem cnorm s \<longleftrightarrow>
     dag_wf (store_dag s) \<and> lawful_prims psem (program_prims prog) \<and>
     (\<forall>h v. container_normalizers s h = Some v \<longrightarrow> lawful_validator v (cnorm h)) \<and>
     (\<forall>pid pr. dim_get (id_to_proof s) pid = Some pr \<longrightarrow>
        ids_valid (store_dag s) pr \<and> keeps_globals prog pr \<and> merges_own_rows s pr)"

definition proved :: "ncommand list \<Rightarrow> prim_sem \<Rightarrow> (string \<Rightarrow> tm list \<Rightarrow> tm option) \<Rightarrow> proof_store \<Rightarrow> propn \<Rightarrow> bool" where
  "proved prog psem cnorm s p \<longleftrightarrow>
     prop_lhs p < dag_size (store_dag s) \<and> prop_rhs p < dag_size (store_dag s) \<and>
     derivable prog psem cnorm (prim_value_constructors s)
       (tree (store_dag s) (prop_lhs p)) (tree (store_dag s) (prop_rhs p))"

definition globals_ok :: "ncommand list \<Rightarrow> prim_sem \<Rightarrow> dag \<Rightarrow> check_context \<Rightarrow> bool" where
  "globals_ok prog psem d c \<longleftrightarrow>
     (\<exists>\<nu> Y. tglobals psem prog = Some (\<nu>, Y) \<and>
        ctx_means d \<lparr>var_bindings = global_bindings c, propositions = global_equalities c\<rparr> (\<nu>, Y))"

definition cache_ok :: "ncommand list \<Rightarrow> prim_sem \<Rightarrow> (string \<Rightarrow> tm list \<Rightarrow> tm option) \<Rightarrow> proof_store \<Rightarrow> check_context \<Rightarrow> bool" where
  "cache_ok prog psem cnorm s c \<longleftrightarrow>
     (\<forall>pid p. checked_proofs c pid = Some p \<longrightarrow>
        (\<exists>pr. dim_get (id_to_proof s) pid = Some pr \<and> claim pr = p) \<and> proved prog psem cnorm s p)"

definition good :: "ncommand list \<Rightarrow> prim_sem \<Rightarrow> (string \<Rightarrow> tm list \<Rightarrow> tm option) \<Rightarrow> proof_store \<Rightarrow> check_context \<Rightarrow> bool" where
  "good prog psem cnorm s c \<longleftrightarrow>
     store_ok prog psem cnorm s \<and> globals_ok prog psem (store_dag s) c \<and> cache_ok prog psem cnorm s c"

text \<open>Checking only ever adds terms to the DAG of a store.\<close>

definition grown :: "proof_store \<Rightarrow> dag \<Rightarrow> bool" where
  "grown s d \<longleftrightarrow> dag_wf d \<and> extends (store_dag s) d"

lemma grown_refl: "store_ok prog psem cnorm s \<Longrightarrow> grown s (store_dag s)"
  by (simp add: grown_def store_ok_def)

lemma store_ok_grown:
  assumes "store_ok prog psem cnorm s" "grown s d"
  shows "store_ok prog psem cnorm (s\<lparr>store_dag := d\<rparr>)"
proof -
  have "ids_valid d pr \<and> keeps_globals prog pr \<and> merges_own_rows (s\<lparr>store_dag := d\<rparr>) pr"
    if pr: "dim_get (id_to_proof s) pid = Some pr" for pid pr
  proof -
    have v: "ids_valid (store_dag s) pr" "keeps_globals prog pr" "merges_own_rows s pr"
      using assms(1) pr by (auto simp: store_ok_def)
    have ext: "extends (store_dag s) d" using assms(2) by (simp add: grown_def)
    have "proof_rhs po < dag_size (store_dag s)" if "dim_get (id_to_proof s) old = Some po" for old po
      using assms(1) that by (auto simp: store_ok_def ids_valid_def)
    then have "tree d (proof_rhs po) = tree (store_dag s) (proof_rhs po)"
      if "dim_get (id_to_proof s) old = Some po" for old po
      using tree_extends_size [OF ext] that by blast
    with v(3) have "merges_own_rows (s\<lparr>store_dag := d\<rparr>) pr"
      unfolding merges_own_rows_def by simp
    moreover have "ids_valid d pr"
      using v(1) dag_size_extends [OF ext] unfolding ids_valid_def by blast
    ultimately show ?thesis using v(2) by simp
  qed
  with assms show ?thesis by (auto simp: store_ok_def grown_def)
qed

lemma proved_grown: "proved prog psem cnorm s p \<Longrightarrow> grown s d \<Longrightarrow> proved prog psem cnorm (s\<lparr>store_dag := d\<rparr>) p"
  using dag_size_extends [of "store_dag s" d] tree_extends_size [of "store_dag s" d]
  by (simp add: proved_def grown_def)

lemma globals_ok_grown:
  assumes "globals_ok prog psem (store_dag s) c" "grown s d"
  shows "globals_ok prog psem d c"
proof -
  have ext: "extends (store_dag s) d" "dag_wf d" using assms(2) by (simp_all add: grown_def)
  show ?thesis
    using assms(1) ids_of_extends [OF ext] covered_extends [OF _ ext(1)] val_extends [OF _ ext(1)]
      subst_ok_extends [OF _ ext(1)]
    by (auto simp: globals_ok_def ctx_means_def)
qed

lemma good_grown: "good prog psem cnorm s c \<Longrightarrow> grown s d \<Longrightarrow> good prog psem cnorm (s\<lparr>store_dag := d\<rparr>) c"
  by (auto simp: good_def store_ok_grown globals_ok_grown cache_ok_def proved_grown)

lemma globals_ok_val:
  "globals_ok prog psem d c \<Longrightarrow> \<exists>Y. tglobals psem prog = Some (val d (global_bindings c), Y) \<and>
     subst_ok d (global_bindings c) \<and> covered d Y \<and> global_equalities c = ids_of d Y"
  by (auto simp: globals_ok_def ctx_means_def)

section \<open>The last step of each justification\<close>

lemma claim_sides [simp]: "prop_lhs (claim pr) = proof_lhs pr" "prop_rhs (claim pr) = proof_rhs pr"
  by (simp_all add: proof_lhs_def proof_rhs_def)

lemma claim_eq_iff [simp]:
  "Proposition l r = claim pr \<longleftrightarrow> l = proof_lhs pr \<and> r = proof_rhs pr"
  "claim pr = Proposition l r \<longleftrightarrow> l = proof_lhs pr \<and> r = proof_rhs pr"
  by (cases "claim pr"; auto simp: proof_lhs_def proof_rhs_def)+

lemma reflexive_value_term_tree:
  assumes "dag_wf (store_dag s)"
  shows "i < dag_size (store_dag s) \<Longrightarrow> i < k \<Longrightarrow>
     reflexive_value_term k s i = Ok (value_tree (prim_value_constructors s) (tree (store_dag s) i))"
    and "\<forall>c \<in> set cs. c < dag_size (store_dag s) \<and> c < k \<Longrightarrow>
     reflexive_value_terms k s cs = Ok (list_all (value_tree (prim_value_constructors s)) (map (tree (store_dag s)) cs))"
  using assms
proof (induction k s i and k s cs rule: reflexive_value_term_reflexive_value_terms.induct)
  case (2 k s i)
  note t = tree_node [OF 2(4), of i]
  show ?case
  proof (cases "nodes (store_dag s) ! i")
    case (App f cs)
    have cs: "\<forall>c \<in> set cs. c < dag_size (store_dag s) \<and> c < k"
      using dag_wfD [OF 2(4), of i] 2(2,3) App by (fastforce simp: dag_size_def)
    with App 2 t show ?thesis
      by (auto simp: node_tree_def dag_size_def)
  qed (use 2 t in \<open>auto simp: node_tree_def dag_size_def\<close>)
next
  case (4 k s c cs)
  then show ?case by auto
qed auto

lemma check_fiat_proved:
  assumes "good prog psem cnorm s c" "ids_valid (store_dag s) pr" "check_fiat pid pr s c = Ok p"
  shows "p = claim pr \<and> proved prog psem cnorm s p"
proof -
  let ?d = "store_dag s" and ?l = "proof_lhs pr" and ?r = "proof_rhs pr"
  have wf: "dag_wf ?d" using assms(1) by (simp add: good_def store_ok_def)
  have v: "?l < dag_size ?d" "?r < dag_size ?d" using assms(2) by (simp_all add: ids_valid_def)
  obtain Y where Y: "tglobals psem prog = Some (val ?d (global_bindings c), Y)" "global_equalities c = ids_of ?d Y"
    using assms(1) globals_ok_val [of prog psem ?d c] by (auto simp: good_def)
  have p: "p = claim pr" and
    or: "?l = ?r \<and> value_tree (prim_value_constructors s) (tree ?d ?l) \<or> Proposition ?l ?r \<in> ids_of ?d Y"
    using assms(3) reflexive_value_term_tree(1) [OF wf v(1), of "Suc ?l"] Y(2)
    by (auto simp: check_fiat_def Let_def in_globals_def simp del: reflexive_value_term.simps split: if_splits)
  from or have "derivable prog psem cnorm (prim_value_constructors s) (tree ?d ?l) (tree ?d ?r)"
    by (auto simp: ids_of_iff intro: d_value d_global [OF Y(1)])
  with p v show ?thesis by (simp add: proved_def)
qed

lemma check_trans_proved:
  assumes "proved prog psem cnorm s p" "proved prog psem cnorm s q" "check_trans pid pr p q = Ok r"
  shows "r = claim pr \<and> proved prog psem cnorm s r"
proof -
  have "r = claim pr" "prop_lhs r = prop_lhs p" "prop_rhs r = prop_rhs q" "prop_rhs p = prop_lhs q"
    using assms(3) by (auto simp: check_trans_def split: if_splits)
  with assms(1,2) show ?thesis by (auto simp: proved_def intro: d_trans)
qed

lemma check_sym_proved:
  assumes "proved prog psem cnorm s p" "check_sym pid pr p = Ok r"
  shows "r = claim pr \<and> proved prog psem cnorm s r"
proof -
  have "r = claim pr" "prop_lhs r = prop_rhs p" "prop_rhs r = prop_lhs p"
    using assms(2) by (auto simp: check_sym_def split: if_splits)
  with assms(1) show ?thesis by (auto simp: proved_def intro: d_sym)
qed

lemma tree_App:
  assumes "dag_wf d" "i < dag_size d" "dag_get d i = Ok (App f cs)"
  shows "tree d i = ECall f (map (tree d) cs)" "\<forall>c \<in> set cs. c < dag_size d"
proof -
  have n: "nodes d ! i = App f cs" "i < length (nodes d)" using assms(2,3) by (simp_all add: dag_size_def)
  with assms(1) show "tree d i = ECall f (map (tree d) cs)" by (simp add: tree_node node_tree_def)
  show "\<forall>c \<in> set cs. c < dag_size d"
    using dag_wfD [OF assms(1) n(2)] n by (fastforce simp: dag_size_def)
qed

lemma dag_app_interns:
  assumes "dag_wf d" "\<forall>c \<in> set cs. c < dag_size d" "dag_app d f cs = (i, d')"
  shows "dag_wf d'" "extends d d'" "i < dag_size d'" "tree d' i = ECall f (map (tree d) cs)"
  using add_node_interns [OF assms(1), of "App f cs"] assms(2,3)
  by (auto simp: dag_app_def node_tree_def dag_size_def dest: internsD)

lemma check_congr_proved:
  assumes ok: "store_ok prog psem cnorm s" and base: "proved prog psem cnorm s p" and child: "proved prog psem cnorm s q"
    and v: "ids_valid (store_dag s) pr" and chk: "check_congr pid pr k p q (store_dag s) = Ok (r, d)"
  shows "r = claim pr \<and> grown s d \<and> proved prog psem cnorm s r"
proof -
  let ?d = "store_dag s"
  have wf: "dag_wf ?d" using ok by (simp add: store_ok_def)
  from chk obtain f cs e where a: "dag_get ?d (prop_rhs p) = Ok (App f cs)" "k < length cs" "cs ! k = prop_lhs q"
    "dag_app ?d f (cs[k := prop_rhs q]) = (e, d)" "proof_rhs pr = e" "proof_lhs pr = prop_lhs p" "r = claim pr"
    by (auto simp: check_congr_def not_le elim!: and_then_OkE split: generic_term.splits if_splits prod.splits)
  have p: "prop_lhs p < dag_size ?d" "prop_rhs p < dag_size ?d" and q: "prop_rhs q < dag_size ?d"
    using base child by (simp_all add: proved_def)
  note t = tree_App [OF wf p(2) a(1)]
  have cs: "\<forall>c \<in> set (cs[k := prop_rhs q]). c < dag_size ?d"
    using t(2) q by (auto dest!: set_update_subset_insert [THEN subsetD])
  note i = dag_app_interns [OF wf cs a(4)]
  have "tree ?d (proof_rhs pr) = ECall f ((map (tree ?d) cs)[k := tree ?d (prop_rhs q)])"
    using i(4) tree_extends_size [OF i(2), of e] v a(5) by (simp add: ids_valid_def map_update)
  moreover have "derivable prog psem cnorm (prim_value_constructors s) (tree ?d (prop_lhs p))
      (ECall f ((map (tree ?d) cs)[k := tree ?d (prop_rhs q)]))"
    using base child a(2,3) t(1) by (intro d_congr) (simp_all add: proved_def)
  ultimately show ?thesis using a i v by (simp add: grown_def proved_def ids_valid_def)
qed

lemma check_proj_proved:
  assumes ok: "store_ok prog psem cnorm s" and base: "proved prog psem cnorm s p"
    and chk: "check_proj pid pr k p (store_dag s) = Ok r"
  shows "r = claim pr \<and> proved prog psem cnorm s r"
proof -
  let ?d = "store_dag s"
  have wf: "dag_wf ?d" using ok by (simp add: store_ok_def)
  from chk obtain f cs where a: "dag_get ?d (prop_rhs p) = Ok (App f cs)" "k < length cs"
    "proof_lhs pr = cs ! k" "proof_rhs pr = cs ! k" "r = Proposition (cs ! k) (cs ! k)"
    by (auto simp: check_proj_def get_opt_def elim!: and_then_OkE split: generic_term.splits if_splits)
  have p: "prop_rhs p < dag_size ?d" using base by (simp add: proved_def)
  note t = tree_App [OF wf p a(1)]
  have "derivable prog psem cnorm (prim_value_constructors s) (tree ?d (cs ! k)) (tree ?d (cs ! k))"
    using base t(1) a(2) by (intro d_proj [of _ _ _ _ "tree ?d (prop_lhs p)" f "map (tree ?d) cs"]) (auto simp: proved_def)
  moreover have "r = claim pr" using a by simp
  ultimately show ?thesis using a t(2) by (simp add: proved_def)
qed

lemma check_normalize_proved:
  assumes ok: "store_ok prog psem cnorm s" and base: "proved prog psem cnorm s p"
    and v: "ids_valid (store_dag s) pr" and chk: "check_normalize pid pr p s = Ok (r, s')"
  shows "r = claim pr \<and> s' = s\<lparr>store_dag := store_dag s'\<rparr> \<and> grown s (store_dag s') \<and> proved prog psem cnorm s r"
proof -
  let ?d = "store_dag s"
  have wf: "dag_wf ?d" using ok by (simp add: store_ok_def)
  from chk obtain n where n: "normalize_container s (prop_rhs p) = Ok (n, s')" "proof_lhs pr = prop_lhs p"
    "proof_rhs pr = n" "r = claim pr"
    by (auto simp: check_normalize_def Let_def elim!: and_then_OkE split: if_splits)
  have p: "prop_rhs p < dag_size ?d" using base by (simp add: proved_def)
  from n(1) obtain t where t: "dag_get ?d (prop_rhs p) = Ok t" by (auto simp: normalize_container_def elim!: and_then_OkE)
  show ?thesis
  proof (cases "\<exists>h cs f. t = App h cs \<and> container_normalizers s h = Some f")
    case False
    with n(1) t have "n = prop_rhs p" "s' = s"
      by (auto simp: normalize_container_def split: generic_term.splits option.splits)
    with n base grown_refl [OF ok] show ?thesis by (simp add: proved_def)
  next
    case True
    then obtain h cs f where h: "t = App h cs" "container_normalizers s h = Some f" by blast
    obtain x d where x: "f ?d cs = (x, d)" by fastforce
    from n(1) t h x have s': "s' = s\<lparr>store_dag := d\<rparr>" "n = (case x of Some j \<Rightarrow> j | None \<Rightarrow> prop_rhs p)"
      by (auto simp: normalize_container_def)
    note tt = tree_App [OF wf p, of h cs]
    have law: "lawful_validator f (cnorm h)" using ok h(2) by (simp add: store_ok_def)
    note l = lawful_validatorD [OF law wf _ x]
    have g: "grown s d" using l(1,2) tt(2) t h(1) by (simp add: grown_def)
    have "derivable prog psem cnorm (prim_value_constructors s) (tree ?d (prop_lhs p)) (tree ?d n)"
    proof (cases x)
      case None
      with s' base show ?thesis by (simp add: proved_def)
    next
      case (Some j)
      with s'(2) have nj: "n = j" by simp
      have "cnorm h (map (tree ?d) cs) = Some (tree d j)" using l(3) [OF _ Some] tt(2) t h(1) by simp
      moreover have "tree d j = tree ?d j"
        using tree_extends_size [of ?d d j] g v n(3) nj by (simp add: grown_def ids_valid_def)
      ultimately show ?thesis using base tt(1) t h(1) nj by (auto simp: proved_def intro: d_norm)
    qed
    with s' g n v base show ?thesis by (simp add: proved_def ids_valid_def)
  qed
qed

end
