(* ===== verification/ProofVerdict.thy ===== *)
theory ProofVerdict
  imports ProofSoundness
begin

text \<open>
  The recursive proof check: in a store that meets \<open>store_ok\<close>, which has two conditions on the recorded
  proofs that the checker does not enforce, an accepted proof establishes its claim.  A locale states what the
  recursive call promises; the lemmas about rule bodies and justifications are proved from that
  contract, and the check itself is its interpretation.
\<close>

section \<open>Merge functions\<close>

lemma list_ex_zip_differ: "length xs = length ys \<Longrightarrow> \<not> list_ex (\<lambda>(a, b). a \<noteq> b) (zip xs ys) \<Longrightarrow> xs = ys"
  by (induction xs ys rule: list_induct2) auto

lemma merge_views_rows:
  assumes "merge_views pid p q d = Ok (old, new, g, ins)"
  shows "prop_lhs p = prop_rhs p" "prop_lhs q = prop_rhs q"
    "dag_get d (prop_rhs p) = Ok (App g (ins @ [old]))" "dag_get d (prop_rhs q) = Ok (App g (ins @ [new]))"
proof -
  have refl: "prop_lhs p = prop_rhs p" "prop_lhs q = prop_rhs q"
    using assms by (auto simp: merge_views_def split: if_splits)
  with assms obtain s t where st: "dag_get d (prop_rhs p) = Ok s" "dag_get d (prop_rhs q) = Ok t"
    by (auto simp: merge_views_def elim!: and_then_OkE)
  with assms refl obtain g' as bs where s: "s = App g' as" "t = App g' bs"
    by (cases s; cases t) (auto simp: merge_views_def split: if_splits)
  with assms refl st have a: "as \<noteq> []" "bs \<noteq> []" "length (butlast as) = length (butlast bs)"
    "\<not> list_ex (\<lambda>(a, b). a \<noteq> b) (zip (butlast as) (butlast bs))"
    "g' = g" "old = last as" "new = last bs" "ins = butlast as"
    by (simp_all add: merge_views_def split: if_splits)
  have "butlast as = butlast bs" using a(3,4) by (rule list_ex_zip_differ)
  with a(1,2,5-8) have "as = ins @ [old]" "bs = ins @ [new]" by (metis append_butlast_last_id)+
  with refl st s a(5) show "prop_lhs p = prop_rhs p" "prop_lhs q = prop_rhs q"
    "dag_get d (prop_rhs p) = Ok (App g (ins @ [old]))" "dag_get d (prop_rhs q) = Ok (App g (ins @ [new]))"
    by simp_all
qed

lemma find_merge_prims: "find_merge prog f = Ok m \<Longrightarrow> expr_prims (merge_result m) \<subseteq> program_prims prog"
  by (induction prog) (auto simp: program_prims_def split: ncommand.splits if_splits option.splits)

lemma find_rule_prims:
  "find_rule prog n = Some r \<Longrightarrow>
   (\<Union>a \<in> set (rule_head r). action_prims a) \<subseteq> program_prims prog \<and> (\<Union>f \<in> set (rule_body r). fact_prims f) \<subseteq> program_prims prog"
  by (induction prog) (auto simp: program_prims_def split: ncommand.splits if_splits)

lemma run_merge_means:
  assumes "dag_wf d" "subst_ok d \<sigma>" "old < dag_size d" "new < dag_size d" "lawful_prims psem (program_prims prog)"
    "run_merge d f prog \<sigma> old new = Ok (i, P, d')"
  shows "\<exists>m. find_merge prog f = Ok m \<and> dag_wf d' \<and> extends d d' \<and> i < dag_size d' \<and>
    teval psem ((val d \<sigma>)(''new'' \<mapsto> tree d new, ''old'' \<mapsto> tree d old)) (merge_result m) = Some (tree d' i) \<and>
    P = ids_of d' (Id_on (texists psem ((val d \<sigma>)(''new'' \<mapsto> tree d new, ''old'' \<mapsto> tree d old)) (merge_result m)))"
proof -
  from assms(6) obtain m where m: "find_merge prog f = Ok m"
    "eval_expr ''merge_function'' (merge_result m) d (merge_subst (merge_result m) \<sigma> old new) = Ok (i, P, d')"
    by (auto simp: run_merge_def eval_merge_expr_def elim!: and_then_OkE)
  let ?e = "merge_result m" and ?\<tau> = "merge_subst (merge_result m) \<sigma> old new"
  let ?\<nu> = "(val d \<sigma>)(''new'' \<mapsto> tree d new, ''old'' \<mapsto> tree d old)"
  have so: "subst_ok d ?\<tau>" using assms(2-4) by (auto simp: subst_ok_def merge_subst_def split: if_splits)
  have agree: "\<forall>x \<in> set (expr_vars ?e). val d ?\<tau> x = ?\<nu> x" by (auto simp: val_def merge_subst_def)
  from find_merge_prims [OF m(1)] have "lawful_prims psem (expr_prims ?e)"
    by (rule lawful_prims_subset [OF assms(5)])
  from eval_expr_evaluates(1) [OF assms(1) so this m(2)] show ?thesis
    using m(1) teval_cong(1) [OF agree, of psem] texists_cong(1) [OF agree, of psem]
    unfolding evaluates_def by (auto simp del: fun_upd_apply)
qed

lemma check_merge_proved:
  assumes good: "good prog psem cnorm s c" and p: "proved prog psem cnorm s p" and q: "proved prog psem cnorm s q"
    and v: "ids_valid (store_dag s) pr" and own: "tree (store_dag s) (prop_rhs p) = ECall f ts"
    and chk: "check_merge pid pr f p q prog c (store_dag s) = Ok (r, d)"
  shows "r = claim pr \<and> grown s d \<and> proved prog psem cnorm s r"
proof -
  let ?d = "store_dag s" and ?D = "derivable prog psem cnorm (prim_value_constructors s)"
  have wf: "dag_wf ?d" and law: "lawful_prims psem (program_prims prog)" using good by (simp_all add: good_def store_ok_def)
  obtain Y where Y: "tglobals psem prog = Some (val ?d (global_bindings c), Y)" "subst_ok ?d (global_bindings c)"
    using good globals_ok_val [of prog psem ?d c] by (auto simp: good_def)
  from chk obtain old new g ins where mv: "merge_views pid p q ?d = Ok (old, new, g, ins)"
    by (auto simp: check_merge_def elim!: and_then_OkE)
  with chk obtain i P d1 where rm: "run_merge ?d f prog (global_bindings c) old new = Ok (i, P, d1)"
    by (auto simp: check_merge_def elim!: and_then_OkE)
  obtain w d2 where w: "dag_app d1 g (ins @ [i]) = (w, d2)" by fastforce
  with chk mv rm have r: "r = claim pr" "d2 = d" and
    cl: "Proposition (proof_lhs pr) (proof_rhs pr) = Proposition w w \<or> Proposition (proof_lhs pr) (proof_rhs pr) \<in> P"
    by (auto simp: check_merge_def Let_def split: if_splits)
  note w = w [unfolded r(2)]
  note rows = merge_views_rows [OF mv]
  have ps: "prop_rhs p < dag_size ?d" "prop_rhs q < dag_size ?d" using p q by (simp_all add: proved_def)
  note tp = tree_App [OF wf ps(1) rows(3)] and tq = tree_App [OF wf ps(2) rows(4)]
  have g: "g = f" using tp(1) own by simp
  have ids: "old < dag_size ?d" "new < dag_size ?d" "\<forall>c \<in> set ins. c < dag_size ?d" using tp(2) tq(2) by auto
  let ?ins = "map (tree ?d) ins"
  obtain m where m: "find_merge prog f = Ok m" and d1: "dag_wf d1" "extends ?d d1" "i < dag_size d1"
    and ev: "teval psem ((val ?d (global_bindings c))(''new'' \<mapsto> tree ?d new, ''old'' \<mapsto> tree ?d old)) (merge_result m) = Some (tree d1 i)"
    and P: "P = ids_of d1 (Id_on (texists psem ((val ?d (global_bindings c))(''new'' \<mapsto> tree ?d new, ''old'' \<mapsto> tree ?d old)) (merge_result m)))"
    using run_merge_means [OF wf Y(2) ids(1,2) law rm] by blast
  have args: "\<forall>c \<in> set (ins @ [i]). c < dag_size d1" using ids(3) d1 by (auto simp: dag_size_extends)
  note ap = dag_app_interns [OF d1(1) args w]
  have same: "tree d1 j = tree ?d j" "tree d j = tree ?d j" if "j < dag_size ?d" for j
    using tree_extends_size [OF d1(2) that] tree_extends_size [OF extends_trans [OF d1(2) ap(2)] that] by auto
  have l: "proof_lhs pr < dag_size ?d" and rr: "proof_rhs pr < dag_size ?d" using v by (simp_all add: ids_valid_def)
  have D: "?D t t" if "t = ECall f (?ins @ [tree d1 i]) \<or>
      t \<in> texists psem ((val ?d (global_bindings c))(''new'' \<mapsto> tree ?d new, ''old'' \<mapsto> tree ?d old)) (merge_result m)" for t
    by (rule d_merge [OF Y(1) m _ _ ev that]) (use p q rows(1,2) tp(1) tq(1) g in \<open>simp_all add: proved_def\<close>)
  have "?D (tree ?d (proof_lhs pr)) (tree ?d (proof_rhs pr))"
    using cl
  proof
    assume "Proposition (proof_lhs pr) (proof_rhs pr) = Proposition w w"
    then have ww: "proof_lhs pr = w" "proof_rhs pr = w" by simp_all
    have "tree d w = ECall f (?ins @ [tree d1 i])" using ap(4) g ids(3) same(1) by simp
    with ww same(2) [OF l] D show ?thesis by simp
  next
    assume "Proposition (proof_lhs pr) (proof_rhs pr) \<in> P"
    with P D same(1) l rr show ?thesis by (auto simp: ids_of_iff)
  qed
  with l rr r ap(1) extends_trans [OF d1(2) ap(2)] show ?thesis by (simp add: proved_def grown_def)
qed

section \<open>The contract of the recursive call\<close>

text \<open>A check that leaves a good state, grows the DAG only and keeps the globals.\<close>

definition advances :: "ncommand list \<Rightarrow> prim_sem \<Rightarrow> (string \<Rightarrow> tm list \<Rightarrow> tm option) \<Rightarrow>
    proof_store \<Rightarrow> check_context \<Rightarrow> proof_store \<Rightarrow> check_context \<Rightarrow> bool" where
  "advances prog psem cnorm s c s' c' \<longleftrightarrow>
     good prog psem cnorm s' c' \<and> s' = s\<lparr>store_dag := store_dag s'\<rparr> \<and> grown s (store_dag s') \<and>
     global_bindings c' = global_bindings c \<and> global_equalities c' = global_equalities c"

lemma advances_refl: "good prog psem cnorm s c \<Longrightarrow> advances prog psem cnorm s c s c"
  by (auto simp: advances_def good_def grown_refl)

lemma advances_trans:
  assumes "advances prog psem cnorm s c s' c'" "advances prog psem cnorm s' c' s'' c''"
  shows "advances prog psem cnorm s c s'' c''"
proof -
  have "s'' = s\<lparr>store_dag := store_dag s''\<rparr>" using assms by (metis (no_types) advances_def proof_store.update_convs(1) proof_store.surjective proof_store.select_convs)
  with assms show ?thesis by (auto simp: advances_def grown_def intro: extends_trans)
qed

lemma advances_dag:
  "good prog psem cnorm s c \<Longrightarrow> grown s d \<Longrightarrow> advances prog psem cnorm s c (s\<lparr>store_dag := d\<rparr>) c"
  by (auto simp: advances_def good_grown)

lemma advances_good: "advances prog psem cnorm s c s' c' \<Longrightarrow> good prog psem cnorm s' c'"
  by (simp add: advances_def)

lemma advances_keep:
  assumes "advances prog psem cnorm s c s' c'"
  shows "id_to_proof s' = id_to_proof s" "prim_value_constructors s' = prim_value_constructors s"
    "extends (store_dag s) (store_dag s')" "proved prog psem cnorm s p \<Longrightarrow> proved prog psem cnorm s' p"
proof -
  have s': "s' = s\<lparr>store_dag := store_dag s'\<rparr>" and g: "grown s (store_dag s')" using assms by (simp_all add: advances_def)
  show "id_to_proof s' = id_to_proof s" "prim_value_constructors s' = prim_value_constructors s" by (subst s', simp)+
  show "extends (store_dag s) (store_dag s')" using g by (simp add: grown_def)
  show "proved prog psem cnorm s p \<Longrightarrow> proved prog psem cnorm s' p" using proved_grown [OF _ g] s' by metis
qed

text \<open>What a call that accepts has established.\<close>

definition accepted :: "ncommand list \<Rightarrow> prim_sem \<Rightarrow> (string \<Rightarrow> tm list \<Rightarrow> tm option) \<Rightarrow> nat \<Rightarrow>
    proof_store \<Rightarrow> check_context \<Rightarrow> propn \<Rightarrow> proof_store \<Rightarrow> check_context \<Rightarrow> bool" where
  "accepted prog psem cnorm pid s c p s' c' \<longleftrightarrow>
     advances prog psem cnorm s c s' c' \<and> proved prog psem cnorm s' p \<and>
     (\<exists>pr. dim_get (id_to_proof s) pid = Some pr \<and> claim pr = p)"

text \<open>The premise of a rule instance for one fact of its body.\<close>

definition premise_holds :: "ncommand list \<Rightarrow> prim_sem \<Rightarrow> (string \<Rightarrow> tm list \<Rightarrow> tm option) \<Rightarrow> string set \<Rightarrow> valuation \<Rightarrow> fact \<Rightarrow> bool" where
  "premise_holds prog psem cnorm pvc \<nu> f \<longleftrightarrow>
     is_container_side_condition f \<and> side_holds psem \<nu> f \<or>
     (\<exists>a b. derivable prog psem cnorm pvc a b \<and> fact_matches psem \<nu> f a b)"

lemma premise_holds_mono:
  "\<nu> \<subseteq>\<^sub>m \<nu>' \<Longrightarrow> premise_holds prog psem cnorm pvc \<nu> f \<Longrightarrow> premise_holds prog psem cnorm pvc \<nu>' f"
  using side_holds_mono fact_matches_mono unfolding premise_holds_def by blast

lemma taction_dom:
  "taction psem a (\<nu>, Y) = Some (\<nu>', Y') \<Longrightarrow> dom \<nu>' \<subseteq> dom \<nu> \<union> {x. \<exists>e. a = Let x e}"
  by (cases a) (auto simp: bind_eq_Some_conv split: if_splits)

lemma tactions_dom:
  "tactions psem as (\<nu>, Y) = Some (\<nu>', Y') \<Longrightarrow> dom \<nu>' \<subseteq> dom \<nu> \<union> {x. \<exists>e. Let x e \<in> set as}"
proof (induction as arbitrary: \<nu> Y)
  case (Cons a as)
  then obtain \<nu>1 Y1 where a: "taction psem a (\<nu>, Y) = Some (\<nu>1, Y1)" "tactions psem as (\<nu>1, Y1) = Some (\<nu>', Y')"
    by (auto simp: bind_eq_Some_conv)
  from taction_dom [OF a(1)] Cons.IH [OF a(2)] show ?case by (simp only: list.set) blast
qed auto

lemma working_subst_ok:
  assumes "good prog psem cnorm s c" "ids_valid (store_dag s) pr" "keeps_globals prog pr" "justified_by pr = Rule n ps sub"
  shows "subst_ok (store_dag s) (working_subst c sub)" "global_bindings c \<subseteq>\<^sub>m working_subst c sub"
proof -
  obtain Y where Y: "tglobals psem prog = Some (val (store_dag s) (global_bindings c), Y)" "subst_ok (store_dag s) (global_bindings c)"
    using assms(1) globals_ok_val [of prog psem "store_dag s" c] by (auto simp: good_def)
  have new: "map_of (rev sub) x = None" if "global_bindings c x = Some i" for x i
  proof -
    have "x \<in> dom (val (store_dag s) (global_bindings c))" using that by (auto simp: val_def)
    with tactions_dom [OF Y(1) [unfolded tglobals_def]] have "x \<in> global_names prog" by (auto simp: global_names_def)
    with assms(3,4) show ?thesis by (auto simp: keeps_globals_def map_of_eq_None_iff)
  qed
  have "working_subst c sub x = Some i" if "global_bindings c x = Some i" for x i
    using that new [OF that] by (simp add: working_subst_def map_add_def)
  then show "global_bindings c \<subseteq>\<^sub>m working_subst c sub" by (force simp: map_le_def)
  have "\<forall>(x, i) \<in> set sub. i < dag_size (store_dag s)" using assms(2,4) by (simp add: ids_valid_def)
  with Y(2) show "subst_ok (store_dag s) (working_subst c sub)"
    by (auto simp: subst_ok_def working_subst_def map_add_Some_iff dest!: map_of_SomeD)
qed

locale sound_checker =
  fixes prog :: "ncommand list" and psem :: prim_sem and cnorm :: "string \<Rightarrow> tm list \<Rightarrow> tm option" and chk :: checker
  assumes chk_accepted: "good prog psem cnorm s c \<Longrightarrow> chk pid s c = Ok (p, s', c') \<Longrightarrow> accepted prog psem cnorm pid s c p s' c'"
begin

lemma chk_advances:
  assumes "good prog psem cnorm s c" "chk pid s c = Ok (p, s', c')"
  shows "advances prog psem cnorm s c s' c'" "good prog psem cnorm s' c'" "proved prog psem cnorm s' p"
  using chk_accepted [OF assms] by (auto simp: accepted_def advances_good)

lemma check_body_premises:
  assumes "good prog psem cnorm s c" "subst_ok (store_dag s) \<sigma>" "\<forall>(f, pid) \<in> set fs. lawful_prims psem (fact_prims f)"
    "check_body chk n fs \<sigma> s c = Ok (\<sigma>', s', c')"
  shows "advances prog psem cnorm s c s' c' \<and> subst_ok (store_dag s') \<sigma>' \<and> \<sigma> \<subseteq>\<^sub>m \<sigma>' \<and>
    (\<forall>(f, pid) \<in> set fs. premise_holds prog psem cnorm (prim_value_constructors s) (val (store_dag s') \<sigma>') f)"
  using assms
proof (induction fs arbitrary: \<sigma> s c)
  case Nil
  then show ?case by (simp add: advances_refl)
next
  case (Cons g fs)
  obtain f pid where g: "g = (f, pid)" by (cases g)
  have law: "lawful_prims psem (fact_prims f)" "\<forall>(f, pid) \<in> set fs. lawful_prims psem (fact_prims f)"
    using Cons.prems(3) g by auto
  have wf: "dag_wf (store_dag s)" using Cons.prems(1) by (simp add: good_def store_ok_def)
  have step: ?case
    if adv: "advances prog psem cnorm s c s1 c1" and so: "subst_ok (store_dag s1) \<sigma>1" and le: "\<sigma> \<subseteq>\<^sub>m \<sigma>1"
      and ph: "premise_holds prog psem cnorm (prim_value_constructors s) (val (store_dag s1) \<sigma>1) f"
      and rest: "check_body chk n fs \<sigma>1 s1 c1 = Ok (\<sigma>', s', c')" for \<sigma>1 s1 c1
  proof -
    from Cons.IH [OF advances_good [OF adv] so law(2) rest]
    have IH: "advances prog psem cnorm s1 c1 s' c'" "subst_ok (store_dag s') \<sigma>'" "\<sigma>1 \<subseteq>\<^sub>m \<sigma>'"
      "\<forall>(f, pid) \<in> set fs. premise_holds prog psem cnorm (prim_value_constructors s) (val (store_dag s') \<sigma>') f"
      using advances_keep(2) [OF adv] by auto
    have "val (store_dag s1) \<sigma>1 = val (store_dag s') \<sigma>1" using val_extends [OF so advances_keep(3) [OF IH(1)]] by simp
    then have "val (store_dag s1) \<sigma>1 \<subseteq>\<^sub>m val (store_dag s') \<sigma>'" using val_map_le [OF IH(3)] by simp
    from premise_holds_mono [OF this ph] IH(4) g advances_trans [OF adv IH(1)] IH(2) map_le_trans [OF le IH(3)]
    show ?thesis by simp
  qed
  show ?case
  proof (cases "is_container_side_condition f")
    case True
    with Cons.prems(4) g obtain \<sigma>1 d where a: "check_side_condition n f (store_dag s) \<sigma> = Ok (\<sigma>1, d)"
      "check_body chk n fs \<sigma>1 (s\<lparr>store_dag := d\<rparr>) c = Ok (\<sigma>', s', c')" by (auto elim!: and_then_OkE)
    from check_side_condition_ok [OF wf Cons.prems(2) law(1) a(1)] True
    have "grown s d" "subst_ok d \<sigma>1" "\<sigma> \<subseteq>\<^sub>m \<sigma>1" "premise_holds prog psem cnorm (prim_value_constructors s) (val d \<sigma>1) f"
      by (auto simp: grown_def premise_holds_def)
    with a(2) advances_dag [OF Cons.prems(1)] show ?thesis by (intro step) auto
  next
    case False
    with Cons.prems(4) g obtain p s1 c1 d where a: "chk pid s c = Ok (p, s1, c1)"
      "check_fact_matches n f p (store_dag s1) \<sigma> = Ok d"
      "check_body chk n fs \<sigma> (s1\<lparr>store_dag := d\<rparr>) c1 = Ok (\<sigma>', s', c')" by (auto elim!: and_then_OkE)
    note ck = chk_advances [OF Cons.prems(1) a(1)]
    have wf1: "dag_wf (store_dag s1)" using ck(2) by (simp add: good_def store_ok_def)
    have so1: "subst_ok (store_dag s1) \<sigma>" by (rule subst_ok_extends [OF Cons.prems(2) advances_keep(3) [OF ck(1)]])
    have "dag_wf d \<and> extends (store_dag s1) d \<and>
      fact_matches psem (val (store_dag s1) \<sigma>) f (tree (store_dag s1) (prop_lhs p)) (tree (store_dag s1) (prop_rhs p))"
      by (rule check_fact_matches_ok [OF wf1 so1 law(1) _ _ a(2)]) (use ck(3) in \<open>simp_all add: proved_def\<close>)
    then have d: "grown s1 d" "fact_matches psem (val d \<sigma>) f (tree (store_dag s1) (prop_lhs p)) (tree (store_dag s1) (prop_rhs p))"
      using val_extends [OF so1, of d] by (simp_all add: grown_def)
    then have "premise_holds prog psem cnorm (prim_value_constructors s) (val d \<sigma>) f"
      using ck(3) advances_keep(2) [OF ck(1)] by (auto simp: premise_holds_def proved_def)
    moreover have "advances prog psem cnorm s c (s1\<lparr>store_dag := d\<rparr>) c1"
      using ck(1) advances_dag [OF ck(2) d(1)] by (rule advances_trans)
    moreover have "subst_ok d \<sigma>" using subst_ok_extends [OF so1] d(1) by (simp add: grown_def)
    ultimately show ?thesis using a(3) by (intro step) auto
  qed
qed

lemma check_rule_accepted:
  assumes good: "good prog psem cnorm s c" and pr: "ids_valid (store_dag s) pr" "keeps_globals prog pr"
    and just: "justified_by pr = Rule n ps sub" and chk: "check_just chk prog pid pr s c = Ok (p, s', c')"
  shows "p = claim pr \<and> advances prog psem cnorm s c s' c' \<and> proved prog psem cnorm s' p"
proof -
  from chk just obtain r \<sigma> s1 d where r: "find_rule prog n = Some r" "length (rule_body r) = length ps"
    and body: "check_body chk n (zip (rule_body r) ps) (working_subst c sub) s c = Ok (\<sigma>, s1, c')"
    and head: "check_rule_produces_equality n r (claim pr) (store_dag s1) \<sigma> = Ok d"
    and res: "p = claim pr" "s' = s1\<lparr>store_dag := d\<rparr>"
    by (auto simp: check_just_def elim!: and_then_OkE split: if_splits)
  have law: "lawful_prims psem (program_prims prog)" using good by (simp add: good_def store_ok_def)
  note prims = find_rule_prims [OF r(1)] and ws = working_subst_ok [OF good pr just]
  have "\<forall>(f, pid) \<in> set (zip (rule_body r) ps). lawful_prims psem (fact_prims f)"
    using prims by (auto dest!: set_zip_leftD intro!: lawful_prims_subset [OF law])
  note b = check_body_premises [OF good ws(1) this body]
  then have adv: "advances prog psem cnorm s c s1 c'" and so: "subst_ok (store_dag s1) \<sigma>" and le: "working_subst c sub \<subseteq>\<^sub>m \<sigma>"
    and prem: "\<forall>f \<in> set (rule_body r). premise_holds prog psem cnorm (prim_value_constructors s) (val (store_dag s1) \<sigma>) f"
    using r(2) by (auto simp: set_zip in_set_conv_nth, blast)
  note good1 = advances_good [OF adv]
  have wf1: "dag_wf (store_dag s1)" using good1 by (simp add: good_def store_ok_def)
  from head obtain a where a: "process_actions n \<sigma> (rule_head r) (store_dag s1) = Ok (a, d)" "claim pr \<in> propositions a"
    by (auto simp: check_rule_produces_equality_def elim!: and_then_OkE split: if_splits)
  from process_actions_means [OF wf1 so lawful_prims_subset [OF law conjunct1 [OF prims]] a(1)] obtain \<nu> Z where
    Z: "tactions psem (rule_head r) (val (store_dag s1) \<sigma>, {}) = Some (\<nu>, Z)" "grown s1 d" "propositions a = ids_of d Z"
    by (auto simp: ctx_means_def grown_def)
  obtain Y where Y: "tglobals psem prog = Some (val (store_dag s1) (global_bindings c'), Y)"
    using good1 globals_ok_val [of prog psem "store_dag s1" c'] by (auto simp: good_def)
  have "global_bindings c' \<subseteq>\<^sub>m \<sigma>" using map_le_trans [OF ws(2) le] adv by (simp add: advances_def)
  note le' = val_map_le [OF this, of "store_dag s1"]
  have "claim pr = Proposition (proof_lhs pr) (proof_rhs pr)" by simp
  then have "Proposition (proof_lhs pr) (proof_rhs pr) \<in> ids_of d Z" using a(2) Z(3) by (simp only:)
  then have cl: "proof_lhs pr < dag_size d" "proof_rhs pr < dag_size d" "(tree d (proof_lhs pr), tree d (proof_rhs pr)) \<in> Z"
    by (simp_all add: ids_of_iff)
  have "derivable prog psem cnorm (prim_value_constructors s) (tree d (proof_lhs pr)) (tree d (proof_rhs pr))"
    using prem by (intro d_rule [OF Y r(1) le' _ Z(1) cl(3)]) (auto simp: premise_holds_def)
  with cl(1,2) res advances_keep(2) [OF adv] have "proved prog psem cnorm s' p" by (simp add: proved_def)
  moreover have "advances prog psem cnorm s c s' c'"
    using advances_trans [OF adv advances_dag [OF good1 Z(2)]] res(2) by simp
  ultimately show ?thesis using res(1) by simp
qed

lemma check_just_accepted:
  assumes good: "good prog psem cnorm s c" and pr: "dim_get (id_to_proof s) pid = Some pr"
    and chk: "check_just chk prog pid pr s c = Ok (p, s', c')"
  shows "p = claim pr \<and> advances prog psem cnorm s c s' c' \<and> proved prog psem cnorm s' p"
proof -
  have ok: "ids_valid (store_dag s) pr" "keeps_globals prog pr" "merges_own_rows s pr"
    using good pr by (auto simp: good_def store_ok_def)
  have one: "advances prog psem cnorm s c s1 c1 \<and> good prog psem cnorm s1 c1 \<and> store_ok prog psem cnorm s1 \<and>
      proved prog psem cnorm s1 q \<and> ids_valid (store_dag s1) pr"
    if "chk a s c = Ok (q, s1, c1)" for a q s1 c1
  proof -
    have "ids_valid (store_dag s1) pr"
      using advances_good [OF chk_advances(1) [OF good that]] advances_keep(1) [OF chk_advances(1) [OF good that]] pr
      by (auto simp: good_def store_ok_def)
    with chk_advances [OF good that] show ?thesis by (simp add: good_def)
  qed
  have two: "advances prog psem cnorm s c s2 c2 \<and> good prog psem cnorm s2 c2 \<and> store_ok prog psem cnorm s2 \<and>
      proved prog psem cnorm s2 q \<and> proved prog psem cnorm s2 q' \<and> ids_valid (store_dag s2) pr"
    if "chk a s c = Ok (q, s1, c1)" "chk b s1 c1 = Ok (q', s2, c2)" for a q s1 c1 b q' s2 c2
  proof -
    note o = chk_advances [OF good that(1)]
    note t = chk_advances [OF o(2) that(2)]
    have adv: "advances prog psem cnorm s c s2 c2" using o(1) t(1) by (rule advances_trans)
    have "ids_valid (store_dag s2) pr"
      using advances_good [OF adv] advances_keep(1) [OF adv] pr by (auto simp: good_def store_ok_def)
    with adv t advances_keep(4) [OF t(1) o(3)] show ?thesis by (simp add: good_def)
  qed
  have grow: "p = claim pr \<and> advances prog psem cnorm s c s' c' \<and> proved prog psem cnorm s' p"
    if "advances prog psem cnorm s c s1 c'" "good prog psem cnorm s1 c'"
      "p = claim pr \<and> grown s1 d \<and> proved prog psem cnorm s1 p" "s' = s1\<lparr>store_dag := d\<rparr>" for s1 d
    using that advances_trans [OF that(1) advances_dag [OF that(2)], of d] proved_grown [of prog psem cnorm s1 p d] by blast
  show ?thesis
  proof (cases "justified_by pr")
    case Fiat
    with chk obtain q where "check_fiat pid pr s c = Ok p" "s' = s" "c' = c"
      by (auto simp: check_just_def elim!: and_then_OkE)
    with check_fiat_proved [OF good ok(1)] advances_refl [OF good] show ?thesis by blast
  next
    case (Rule n ps sub)
    from check_rule_accepted [OF good ok(1,2) Rule chk] show ?thesis .
  next
    case (MergeFn f a b)
    with chk obtain q s1 c1 q' s2 d where e: "chk a s c = Ok (q, s1, c1)" "chk b s1 c1 = Ok (q', s2, c')"
      "check_merge pid pr f q q' prog c' (store_dag s2) = Ok (p, d)" "s' = s2\<lparr>store_dag := d\<rparr>"
      by (auto simp: check_just_def elim!: and_then_OkE)
    note t = two [OF e(1,2)]
    obtain po where po: "dim_get (id_to_proof s) a = Some po" "claim po = q"
      using chk_accepted [OF good e(1)] by (auto simp: accepted_def)
    have "merges_own_rows s2 pr" "id_to_proof s2 = id_to_proof s"
      using t advances_keep(1) [of prog psem cnorm s c s2 c'] pr by (auto simp: store_ok_def)
    with MergeFn po obtain ts where "tree (store_dag s2) (prop_rhs q) = ECall f ts"
      by (auto simp: merges_own_rows_def)
    with t check_merge_proved [of prog psem cnorm s2 c' q q' pr f ts pid p d] e(3,4) show ?thesis by (intro grow) auto
  next
    case (Trans a b)
    with chk obtain q s1 c1 q' where e: "chk a s c = Ok (q, s1, c1)" "chk b s1 c1 = Ok (q', s', c')"
      "check_trans pid pr q q' = Ok p" by (auto simp: check_just_def elim!: and_then_OkE)
    with two [OF e(1,2)] check_trans_proved [OF _ _ e(3)] show ?thesis by blast
  next
    case (Sym a)
    with chk obtain q where e: "chk a s c = Ok (q, s', c')" "check_sym pid pr q = Ok p"
      by (auto simp: check_just_def elim!: and_then_OkE)
    with one [OF e(1)] check_sym_proved [OF _ e(2)] show ?thesis by blast
  next
    case (Congr a i b)
    with chk obtain q s1 c1 q' s2 d where e: "chk a s c = Ok (q, s1, c1)" "chk b s1 c1 = Ok (q', s2, c')"
      "check_congr pid pr i q q' (store_dag s2) = Ok (p, d)" "s' = s2\<lparr>store_dag := d\<rparr>"
      by (auto simp: check_just_def elim!: and_then_OkE)
    with two [OF e(1,2)] check_congr_proved [of prog psem cnorm s2 q q' pr pid i p d] show ?thesis by (intro grow) auto
  next
    case (Proj a i)
    with chk obtain q where e: "chk a s c = Ok (q, s', c')" "check_proj pid pr i q (store_dag s') = Ok p"
      by (auto simp: check_just_def elim!: and_then_OkE)
    with one [OF e(1)] check_proj_proved [OF _ _ e(2)] show ?thesis by blast
  next
    case (ContainerNormalize a)
    with chk obtain q s1 where e: "chk a s c = Ok (q, s1, c')" "check_normalize pid pr q s1 = Ok (p, s')"
      by (auto simp: check_just_def elim!: and_then_OkE)
    with one [OF e(1)] check_normalize_proved [of prog psem cnorm s1 q pr pid p s'] show ?thesis
      by (intro grow [of s1 "store_dag s'"]) auto
  next
    case Eval
    with chk show ?thesis by (simp add: check_just_def)
  qed
qed

end

section \<open>An example\<close>

lemma dim_get_in: "dim_get m i = Some x \<Longrightarrow> Some x \<in> set (map_data m)"
  by (auto simp: dim_get_def get_opt_def bind_eq_Some_conv split: if_splits) (metis nth_mem)

text \<open>
  A program that unites \<open>a\<close> and \<open>b\<close>, adds \<open>f(a)\<close> and has a rule \<open>f(x) = g(x)\<close>, with proofs of
  \<open>f(a) = f(a)\<close>, \<open>f(a) = g(a)\<close>, \<open>a = b\<close>, \<open>f(a) = g(b)\<close> and \<open>g(b) = f(a)\<close>.
\<close>

definition constructor_call :: "string \<Rightarrow> resolved_expr list \<Rightarrow> resolved_expr" where
  "constructor_call f es = ECall (Func \<lparr>ft_name = f, ft_subtype = Constructor\<rparr>) es"

definition sample_rule :: rule where
  "sample_rule = \<lparr>rule_head = [Union (constructor_call ''f'' [EVar ''x'']) (constructor_call ''g'' [EVar ''x''])],
     rule_body = [Fact (constructor_call ''f'' [EVar ''x''])], rule_name = ''r''\<rparr>"

definition sample_program :: "ncommand list" where
  "sample_program =
     [CoreAction (Union (constructor_call ''a'' []) (constructor_call ''b'' [])),
      CoreAction (Expr (constructor_call ''f'' [constructor_call ''a'' []])), NormRule sample_rule]"

definition sample_store :: proof_store where
  "sample_store = \<lparr>
     store_dag = \<lparr>nodes = [App ''a'' [], App ''b'' [], App ''f'' [0], App ''g'' [0], App ''g'' [1]]\<rparr>,
     id_to_proof = \<lparr>map_data =
       [Some \<lparr>claim = Proposition 2 2, justified_by = Fiat\<rparr>,
        Some \<lparr>claim = Proposition 2 3, justified_by = Rule ''r'' [0] [(''x'', 0)]\<rparr>,
        Some \<lparr>claim = Proposition 0 1, justified_by = Fiat\<rparr>,
        Some \<lparr>claim = Proposition 2 4, justified_by = Congr 1 0 2\<rparr>,
        Some \<lparr>claim = Proposition 4 2, justified_by = Sym 3\<rparr>]\<rparr>,
     container_normalizers = Map.empty, prim_value_constructors = {}\<rparr>"

lemma sample_store_ok: "store_ok sample_program (\<lambda>_ _. None) (\<lambda>_ _. None) sample_store"
proof -
  have "ids_valid (store_dag sample_store) pr \<and> keeps_globals sample_program pr \<and> merges_own_rows sample_store pr"
    if "dim_get (id_to_proof sample_store) pid = Some pr" for pid pr
    using dim_get_in [OF that]
    by (auto simp: sample_store_def ids_valid_def keeps_globals_def merges_own_rows_def dag_size_def
        proof_lhs_def proof_rhs_def global_names_def sample_program_def gather_global_actions_def
        simp del: claim_sides claim_eq_iff)
  then show ?thesis
    by (auto simp: store_ok_def dag_wf_def sample_store_def less_Suc_eq nth_Cons' lawful_prims_def program_prims_def
        sample_program_def sample_rule_def constructor_call_def)
qed

lemma sample_trees:
  "tree (store_dag sample_store) 4 = ECall ''g'' [ECall ''b'' []]" "tree (store_dag sample_store) 2 = ECall ''f'' [ECall ''a'' []]"
  "tree (store_dag sample_store) 3 = ECall ''g'' [ECall ''a'' []]" "prim_value_constructors sample_store = {}"
  by code_simp+

lemma sample_check:
  "(case check_proof 5 sample_store 4 sample_program of Inl e \<Rightarrow> False | Inr (p, s) \<Rightarrow> p = Proposition 4 2)"
  by code_simp

lemma sample_checks:
  "(case check_proofs 5 sample_store [1, 4] sample_program of Inl e \<Rightarrow> False | Inr (ps, s) \<Rightarrow> ps = [Proposition 2 3, Proposition 4 2])"
  by code_simp

section \<open>The check is sound\<close>

lemma accepted_cache:
  assumes "advances prog psem cnorm s c s' c'" "proved prog psem cnorm s' p"
    "dim_get (id_to_proof s) pid = Some pr" "claim pr = p"
  shows "advances prog psem cnorm s c s' (c'\<lparr>checked_proofs := (checked_proofs c')(pid \<mapsto> p)\<rparr>)"
proof -
  have "dim_get (id_to_proof s') pid = Some pr" using assms(3) advances_keep(1) [OF assms(1)] by simp
  with advances_good [OF assms(1)] assms(2,4)
  have "good prog psem cnorm s' (c'\<lparr>checked_proofs := (checked_proofs c')(pid \<mapsto> p)\<rparr>)"
    by (simp add: good_def globals_ok_def cache_ok_def)
  with assms(1) show ?thesis unfolding advances_def by simp
qed

lemma check_proof_ctx_sound: "sound_checker prog psem cnorm (check_proof_ctx k prog)"
proof (induction k)
  case 0
  show ?case by unfold_locales simp
next
  case (Suc k)
  show ?case
  proof
    fix s c pid p s' c'
    assume good: "good prog psem cnorm s c" and run: "check_proof_ctx (Suc k) prog pid s c = Ok (p, s', c')"
    show "accepted prog psem cnorm pid s c p s' c'"
    proof (cases "checked_proofs c pid")
      case (Some q)
      with good run advances_refl [OF good] show ?thesis by (auto simp: accepted_def good_def cache_ok_def)
    next
      case None
      with run obtain pr c1 where e: "dim_index (id_to_proof s) pid = Ok pr"
        "check_just (check_proof_ctx k prog) prog pid pr s c = Ok (p, s', c1)"
        "c' = c1\<lparr>checked_proofs := (checked_proofs c1)(pid \<mapsto> p)\<rparr>"
        by (auto elim!: and_then_OkE)
      have pr: "dim_get (id_to_proof s) pid = Some pr" using e(1) by (simp add: dim_index_def)
      have j: "p = claim pr" "advances prog psem cnorm s c s' c1" "proved prog psem cnorm s' p"
        using sound_checker.check_just_accepted [OF Suc good pr e(2)] by blast+
      from accepted_cache [OF j(2,3) pr] j e(3) pr show ?thesis unfolding accepted_def by blast
    qed
  qed
qed

interpretation recursive_check: sound_checker prog psem cnorm "check_proof_ctx k prog" for prog psem cnorm k
  by (rule check_proof_ctx_sound)

lemma val_empty [simp]: "val d Map.empty = Map.empty"
  by (auto simp: val_def)

lemma global_action_prims: "(\<Union>b \<in> set (gather_global_actions prog). action_prims b) \<subseteq> program_prims prog"
  by (auto simp: gather_global_actions_def program_prims_def List.map_filter_def split: ncommand.splits)

lemma context_new_good:
  assumes "store_ok prog psem cnorm s" "context_new prog (store_dag s) = Ok (c, d)"
  shows "grown s d" "good prog psem cnorm (s\<lparr>store_dag := d\<rparr>) c"
proof -
  have wf: "dag_wf (store_dag s)" and law: "lawful_prims psem (program_prims prog)" using assms(1) by (simp_all add: store_ok_def)
  from assms(2) obtain a where a: "process_actions ''global_actions'' Map.empty (gather_global_actions prog) (store_dag s) = Ok (a, d)"
    "c = \<lparr>global_equalities = propositions a, global_bindings = var_bindings a, checked_proofs = Map.empty\<rparr>"
    by (auto simp: context_new_def elim!: and_then_OkE split: option.splits)
  from process_actions_means [OF wf _ lawful_prims_subset [OF law global_action_prims] a(1)] obtain \<nu> Y where
    Y: "tglobals psem prog = Some (\<nu>, Y)" "grown s d" "ctx_means d a (\<nu>, Y)"
    by (auto simp: subst_ok_def tglobals_def grown_def)
  show "grown s d" by fact
  have "globals_ok prog psem d c"
    using Y(1,3) a(2) unfolding globals_ok_def ctx_means_def by simp
  then show "good prog psem cnorm (s\<lparr>store_dag := d\<rparr>) c"
    using store_ok_grown [OF assms(1) Y(2)] a(2) by (simp add: good_def cache_ok_def)
qed

text \<open>An accepted claim is about terms the store already had.\<close>

lemma accepted_original:
  assumes "store_ok prog psem cnorm s" "grown s d" "accepted prog psem cnorm pid (s\<lparr>store_dag := d\<rparr>) c p s' c'"
  shows "\<exists>pr. dim_get (id_to_proof s) pid = Some pr \<and> p = claim pr \<and> proved prog psem cnorm s p"
proof -
  from assms(3) obtain pr where pr: "dim_get (id_to_proof s) pid = Some pr" "claim pr = p"
    and adv: "advances prog psem cnorm (s\<lparr>store_dag := d\<rparr>) c s' c'" and pv: "proved prog psem cnorm s' p"
    by (auto simp: accepted_def)
  have ext: "extends (store_dag s) (store_dag s')"
    using assms(2) advances_keep(3) [OF adv] by (auto simp: grown_def intro: extends_trans)
  have "prop_lhs p < dag_size (store_dag s)" "prop_rhs p < dag_size (store_dag s)"
    using assms(1) pr by (auto simp: store_ok_def ids_valid_def)
  with pv tree_extends_size [OF ext] advances_keep(2) [OF adv] have "proved prog psem cnorm s p" by (simp add: proved_def)
  with pr show ?thesis by blast
qed

text \<open>Where no proof of the store has a gap, an accepted claim is derivable.\<close>

lemma check_proof_ok_sound:
  assumes "store_ok prog psem cnorm s" "check_proof k s pid prog = Ok (p, s')"
  shows "\<exists>pr. dim_get (id_to_proof s) pid = Some pr \<and> p = claim pr \<and>
    derivable prog psem cnorm (prim_value_constructors s) (tree (store_dag s) (prop_lhs p)) (tree (store_dag s) (prop_rhs p))"
proof -
  from assms(2) obtain c d c' where e: "context_new prog (store_dag s) = Ok (c, d)"
    "check_proof_ctx k prog pid (s\<lparr>store_dag := d\<rparr>) c = Ok (p, s', c')"
    by (auto simp: check_proof_def elim!: and_then_OkE)
  note g = context_new_good [OF assms(1) e(1)]
  from accepted_original [OF assms(1) g(1) recursive_check.chk_accepted [OF g(2) e(2)]]
  show ?thesis by (auto simp: proved_def)
qed

lemma check_proofs_loop_sound:
  "good prog psem cnorm s c \<Longrightarrow> check_proofs_loop k s pids prog c = Ok (ps, s') \<Longrightarrow>
   list_all2 (\<lambda>pid p. \<exists>s1 c1 s2 c2. advances prog psem cnorm s c s1 c1 \<and> accepted prog psem cnorm pid s1 c1 p s2 c2) pids ps"
proof (induction pids arbitrary: s c ps)
  case (Cons pid pids)
  then obtain p s1 c1 ps' where e: "check_proof_ctx k prog pid s c = Ok (p, s1, c1)"
    "check_proofs_loop k s1 pids prog c1 = Ok (ps', s')" "ps = p # ps'"
    by (auto simp del: check_proof_ctx.simps elim!: and_then_OkE)
  note acc = recursive_check.chk_accepted [OF Cons.prems(1) e(1)]
  then have adv: "advances prog psem cnorm s c s1 c1" by (simp add: accepted_def)
  have "list_all2 (\<lambda>pid p. \<exists>s1 c1 s2 c2. advances prog psem cnorm s c s1 c1 \<and> accepted prog psem cnorm pid s1 c1 p s2 c2) pids ps'"
    by (rule list_all2_mono [OF Cons.IH [OF advances_good [OF adv] e(2)]]) (blast intro: advances_trans [OF adv])
  with acc advances_refl [OF Cons.prems(1)] e(3) show ?case by auto
qed simp

lemma check_proofs_ok_sound:
  assumes "store_ok prog psem cnorm s" "check_proofs k s pids prog = Ok (ps, s')"
  shows "list_all2 (\<lambda>pid p. \<exists>pr. dim_get (id_to_proof s) pid = Some pr \<and> p = claim pr \<and>
    derivable prog psem cnorm (prim_value_constructors s) (tree (store_dag s) (prop_lhs p)) (tree (store_dag s) (prop_rhs p))) pids ps"
proof -
  from assms(2) obtain c d where e: "context_new prog (store_dag s) = Ok (c, d)"
    "check_proofs_loop k (s\<lparr>store_dag := d\<rparr>) pids prog c = Ok (ps, s')"
    by (auto simp: check_proofs_def elim!: and_then_OkE)
  note g = context_new_good [OF assms(1) e(1)]
  show ?thesis
  proof (rule list_all2_mono [OF check_proofs_loop_sound [OF g(2) e(2)]])
    fix pid p
    assume "\<exists>s1 c1 s2 c2. advances prog psem cnorm (s\<lparr>store_dag := d\<rparr>) c s1 c1 \<and> accepted prog psem cnorm pid s1 c1 p s2 c2"
    then obtain s2 c2 where "accepted prog psem cnorm pid (s\<lparr>store_dag := d\<rparr>) c p s2 c2"
      unfolding accepted_def by (metis advances_keep(1) advances_trans)
    from accepted_original [OF assms(1) g(1) this]
    show "\<exists>pr. dim_get (id_to_proof s) pid = Some pr \<and> p = claim pr \<and>
      derivable prog psem cnorm (prim_value_constructors s) (tree (store_dag s) (prop_lhs p)) (tree (store_dag s) (prop_rhs p))"
      by (auto simp: proved_def)
  qed
qed

end
