(* ===== verification/ProofTermination.thy ===== *)
theory ProofTermination
  imports ProofVerdict
begin

text \<open>
  The recursion of the proof check ends.  In a store in which every proof refers to proofs of
  smaller ids, fuel above the id of the checked proof never runs out, so the fuel of the model
  does not influence any verdict.
\<close>

section \<open>Computations that do not run out of fuel\<close>

definition decided :: "'a checked \<Rightarrow> bool" where
  "decided r \<longleftrightarrow> r \<noteq> Err OutOfFuel"

lemma decided_simps [simp]: "decided (Inr x)" "decided (Inl (Check e))" "decided (Inl (Panicked q))" "\<not> decided (Inl OutOfFuel)"
  by (simp_all add: decided_def)

lemma decided_and_then: "decided x \<Longrightarrow> (\<And>v. x = Ok v \<Longrightarrow> decided (f v)) \<Longrightarrow> decided (and_then x f)"
  by (cases x) (auto simp: decided_def)

lemma decided_lift_panic [simp]: "decided (lift_panic r)"
  by (cases r) simp_all

lemma decided_ok_or [simp]: "decided (ok_or x (Check e))" "decided (ok_or x (Panicked q))"
  by (cases x; simp)+

lemma with_refl_decided: "dag_wf d \<Longrightarrow> i < dag_size d \<Longrightarrow> decided (with_refl i P d)"
  by (simp add: with_refl_ok)

lemma eval_expr_decided:
  "dag_wf d \<Longrightarrow> subst_ok d \<sigma> \<Longrightarrow> lawful_prims psem (expr_prims e) \<Longrightarrow> decided (eval_expr rn e d \<sigma>)"
  "dag_wf d \<Longrightarrow> subst_ok d \<sigma> \<Longrightarrow> lawful_prims psem (\<Union>e \<in> set es. expr_prims e) \<Longrightarrow> decided (eval_args rn es d \<sigma>)"
proof (induction rn e d \<sigma> and rn es d \<sigma> rule: eval_expr_eval_args.induct)
  case (1 rn l d \<sigma>)
  obtain j d1 where a: "dag_lit d l = (j, d1)" by fastforce
  have "interns d (ELit l) (j, d1)"
    using add_node_interns [OF 1(1), of "Lit l"] a by (simp add: dag_lit_def node_tree_def)
  with a show ?case by (auto simp: dag_size_def intro!: with_refl_decided dest: internsD)
next
  case (2 rn x d \<sigma>)
  then show ?case by (auto simp: subst_ok_def intro!: decided_and_then with_refl_decided)
next
  case (3 rn h es d \<sigma>)
  show ?case
  proof (cases h)
    case (Func f)
    have "decided (let (i, d) = dag_app d1 (call_name h) ts in with_refl i P d)"
      if "eval_args rn es d \<sigma> = Ok (ts, P, d1)" for ts P d1
    proof -
      have e: "evaluates_args psem d \<sigma> es ts P d1" using eval_expr_evaluates(2) [OF 3(3,4) _ that] 3(5) by simp
      obtain i d2 where a: "dag_app d1 (call_name h) ts = (i, d2)" by fastforce
      with dag_app_interns [of d1 ts "call_name h" i d2] e show ?thesis
        by (auto simp: evaluates_args_def intro!: with_refl_decided)
    qed
    with 3 Func show ?thesis by (auto intro!: decided_and_then)
  next
    case (Primitive p)
    have "decided (case v d1 ts of (None, _) \<Rightarrow> Err (Check (PrimitiveValidatorFailed (prim_name p))) | (Some i, d) \<Rightarrow> with_refl i P d)"
      if "eval_args rn es d \<sigma> = Ok (ts, P, d1)" "prim_validator p = Some v" for ts P d1 v
    proof -
      have e: "evaluates_args psem d \<sigma> es ts P d1" using eval_expr_evaluates(2) [OF 3(3,4) _ that(1)] 3(5) by simp
      have "lawful_validator v (psem p)" using 3(5) that(2) Primitive by (simp add: lawful_prims_def)
      obtain x d2 where x: "v d1 ts = (x, d2)" by fastforce
      with e lawful_validatorD [OF \<open>lawful_validator v (psem p)\<close>, of d1 ts x d2] have "dag_wf d2" "x = Some i \<Longrightarrow> i < dag_size d2" for i
        by (simp_all add: evaluates_args_def)
      with x show ?thesis by (cases x) (auto intro!: with_refl_decided)
    qed
    moreover have "decided (eval_args rn es d \<sigma>)" using 3 Primitive by (simp add: lawful_prims_def)
    ultimately show ?thesis using Primitive by (auto intro!: decided_and_then)
  next
    case Values
    then show ?thesis by simp
  qed
next
  case (4 rn d \<sigma>)
  then show ?case by simp
next
  case (5 rn e es d \<sigma>)
  show ?case
  proof (simp del: eval_expr.simps, intro decided_and_then)
    show "decided (eval_expr rn e d \<sigma>)" using 5 by simp
    fix v
    assume v: "eval_expr rn e d \<sigma> = Ok v"
    obtain i P d1 where w: "v = (i, P, d1)" by (cases v)
    have "evaluates psem d \<sigma> e i P d1" using eval_expr_evaluates(1) [OF 5(3,4)] v w 5(5) by simp
    then have "decided (eval_args rn es d1 \<sigma>)"
      using 5(2) [OF v [unfolded w] refl refl] 5(4,5) subst_ok_extends [of d \<sigma> d1] by (simp add: evaluates_def)
    with w show "decided (case v of (t, P, d) \<Rightarrow> and_then (eval_args rn es d \<sigma>) (\<lambda>(ts, Q, d). Ok (t # ts, P \<union> Q, d)))"
      by (auto intro!: decided_and_then)
  qed
qed

lemma store_eval_decided [simp]: "decided (store_eval rn e d \<sigma>)" "decided (store_evals rn es d \<sigma>)"
proof (induction rn e d \<sigma> and rn es d \<sigma> rule: store_eval_store_evals.induct)
  case (3 rn h es d \<sigma>)
  then show ?case
    by (auto intro!: decided_and_then split: resolved_call.split option.split prod.split function_subtype.split)
qed (auto intro!: decided_and_then)

lemma normal_form_decided [simp]: "decided (normal_form_expr rn e)" "decided (normal_form_args rn h es)"
proof (induction rn e and rn h es rule: normal_form_expr_normal_form_args.induct)
  case (5 rn h e es)
  then show ?case by (auto intro!: decided_and_then split: resolved_call.split generic_expr.split)
qed auto

lemma check_fact_matches_decided [simp]: "decided (check_fact_matches rn f p d \<sigma>)"
  by (auto simp: check_fact_matches_def Let_def intro!: decided_and_then split: option.split fact.split prod.split)

lemma assert_body_decided [simp]: "decided (assert_body_proof_normal_form rn f)"
  by (auto simp: assert_body_proof_normal_form_def intro!: decided_and_then split: fact.split)

lemma eval_side_decided:
  "dag_wf d \<Longrightarrow> subst_ok d \<sigma> \<Longrightarrow> lawful_prims psem (expr_prims e) \<Longrightarrow> decided (eval_side rn e d \<sigma>)"
  using eval_expr_decided(1) [of d \<sigma> psem e rn]
  by (cases e) (auto simp: eval_side_def simp del: eval_expr.simps intro!: decided_and_then)

lemma check_side_condition_decided:
  assumes "dag_wf d" "subst_ok d \<sigma>" "lawful_prims psem (fact_prims f)"
  shows "decided (check_side_condition rn f d \<sigma>)"
proof (cases f)
  case (EqFact l r)
  have law: "lawful_prims psem (expr_prims l)" "lawful_prims psem (expr_prims r)" using assms(3) EqFact by simp_all
  have "decided (eval_side rn r d1 \<sigma>)" if "eval_side rn l d \<sigma> = Ok (a, d1)" for a d1
  proof -
    note e = eval_side_ok(1,2) [OF assms(1,2) law(1) that]
    show ?thesis by (rule eval_side_decided [OF e(1) subst_ok_extends [OF assms(2) e(2)] law(2)])
  qed
  with eval_side_decided [OF assms(1,2) law(1)] EqFact show ?thesis
    by (auto simp: check_side_condition_def intro!: decided_and_then split: option.split sum.split)
next
  case (Fact e)
  with eval_expr_decided(1) [OF assms(1,2), of psem e rn] assms(3) show ?thesis
    by (auto simp: check_side_condition_def simp del: eval_expr.simps intro!: decided_and_then)
qed

lemma process_action_decided:
  assumes "dag_wf d" "subst_ok d (var_bindings ctx)" "lawful_prims psem (action_prims a)"
  shows "decided (process_action rn a ctx d)"
proof (cases a)
  case (Union l r)
  have law: "lawful_prims psem (expr_prims l)" "lawful_prims psem (expr_prims r)" using assms(3) Union by simp_all
  have "decided (eval_expr rn r d1 (var_bindings ctx))" if "eval_expr rn l d (var_bindings ctx) = Ok (i, P, d1)" for i P d1
  proof -
    have e: "dag_wf d1" "extends d d1"
      using eval_expr_evaluates(1) [OF assms(1,2) law(1) that] by (simp_all add: evaluates_def)
    show ?thesis by (rule eval_expr_decided(1) [OF e(1) subst_ok_extends [OF assms(2) e(2)] law(2)])
  qed
  with eval_expr_decided(1) [OF assms(1,2) law(1)] Union show ?thesis
    by (auto simp: process_action_def Let_def simp del: eval_expr.simps intro!: decided_and_then)
qed (use assms eval_expr_decided(1) [OF assms(1,2)] in
  \<open>auto simp: process_action_def Let_def simp del: eval_expr.simps intro!: decided_and_then\<close>)

lemma process_actions_decided:
  assumes "dag_wf d" "subst_ok d \<sigma>" "lawful_prims psem (\<Union>a \<in> set as. action_prims a)"
  shows "decided (process_actions rn \<sigma> as d)"
proof -
  have "dag_wf d \<Longrightarrow> ctx_means d ctx st \<Longrightarrow> lawful_prims psem (\<Union>a \<in> set as. action_prims a) \<Longrightarrow>
      decided (process_actions_loop rn as ctx d)" for ctx st
  proof (induction as arbitrary: ctx d st)
    case (Cons a as)
    have l: "lawful_prims psem (action_prims a)" "lawful_prims psem (\<Union>a \<in> set as. action_prims a)"
      using Cons.prems(3) by (simp_all add: lawful_prims_def)
    have "decided (process_actions_loop rn as c1 d1)" if "process_action rn a ctx d = Ok (c1, d1)" for c1 d1
      using process_action_means [OF Cons.prems(1,2) l(1) that] Cons.IH l(2) by blast
    moreover have "decided (process_action rn a ctx d)"
      using process_action_decided [OF Cons.prems(1) _ l(1)] Cons.prems(2) by (auto simp: ctx_means_def split: prod.splits)
    ultimately show ?case by (auto intro!: decided_and_then)
  qed simp
  from this [of "\<lparr>var_bindings = \<sigma>, propositions = {}\<rparr>" "(val d \<sigma>, {})"] assms
  show ?thesis by (simp add: process_actions_def ctx_means_def ids_of_Un)
qed

lemma run_merge_decided:
  assumes "dag_wf d" "subst_ok d \<sigma>" "old < dag_size d" "new < dag_size d" "lawful_prims psem (program_prims prog)"
  shows "decided (run_merge d f prog \<sigma> old new)"
proof -
  have "decided (find_merge prog f)" by (induction prog) (auto split: ncommand.split)
  moreover have "decided (eval_merge_expr d (merge_result m) \<sigma> old new)" if "find_merge prog f = Ok m" for m
  proof -
    have "subst_ok d (merge_subst (merge_result m) \<sigma> old new)"
      using assms(2-4) by (auto simp: subst_ok_def merge_subst_def split: if_splits)
    from eval_expr_decided(1) [OF assms(1) this lawful_prims_subset [OF assms(5) find_merge_prims [OF that]]]
    show ?thesis by (simp add: eval_merge_expr_def)
  qed
  ultimately show ?thesis by (auto simp: run_merge_def intro!: decided_and_then)
qed

lemma check_merge_decided:
  assumes good: "good prog psem cnorm s c" and p: "proved prog psem cnorm s p" and q: "proved prog psem cnorm s q"
  shows "decided (check_merge pid pr f p q prog c (store_dag s))"
proof -
  let ?d = "store_dag s"
  have wf: "dag_wf ?d" and law: "lawful_prims psem (program_prims prog)" using good by (simp_all add: good_def store_ok_def)
  have so: "subst_ok ?d (global_bindings c)"
    using good globals_ok_val [of prog psem ?d c] by (auto simp: good_def)
  have "decided (merge_views pid p q ?d)"
    by (auto simp: merge_views_def intro!: decided_and_then split: generic_term.split)
  moreover have "decided (run_merge ?d f prog (global_bindings c) old new)"
    if "merge_views pid p q ?d = Ok (old, new, g, ins)" for old new g ins
  proof -
    note rows = merge_views_rows [OF that]
    have ps: "prop_rhs p < dag_size ?d" "prop_rhs q < dag_size ?d" using p q by (simp_all add: proved_def)
    from tree_App(2) [OF wf ps(1) rows(3)] tree_App(2) [OF wf ps(2) rows(4)]
    show ?thesis by (intro run_merge_decided [OF wf so _ _ law]) auto
  qed
  ultimately show ?thesis by (auto simp: check_merge_def Let_def intro!: decided_and_then split: prod.split)
qed

lemma last_steps_decided [simp]:
  "decided (check_trans pid pr p q)" "decided (check_sym pid pr p)" "decided (check_congr pid pr k p q d)"
  "decided (check_proj pid pr k p d)" "decided (check_normalize pid pr p s)"
  by (auto simp: check_trans_def check_sym_def check_congr_def check_proj_def check_normalize_def normalize_container_def
      Let_def intro!: decided_and_then split: generic_term.split option.split prod.split)

lemma check_fiat_decided:
  assumes "good prog psem cnorm s c" "ids_valid (store_dag s) pr"
  shows "decided (check_fiat pid pr s c)"
proof -
  have "dag_wf (store_dag s)" "proof_lhs pr < dag_size (store_dag s)" using assms by (simp_all add: good_def store_ok_def ids_valid_def)
  from reflexive_value_term_tree(1) [OF this, of "Suc (proof_lhs pr)"] show ?thesis
    by (auto simp: check_fiat_def Let_def simp del: reflexive_value_term.simps)
qed

section \<open>Enough fuel\<close>

text \<open>The proofs a proof refers to.\<close>

definition sub_proofs :: "justification \<Rightarrow> nat set" where
  "sub_proofs j =
     (case j of
        Rule n ps sub \<Rightarrow> set ps
      | MergeFn f a b \<Rightarrow> {a, b}
      | Trans a b \<Rightarrow> {a, b}
      | Sym a \<Rightarrow> {a}
      | Congr a i b \<Rightarrow> {a, b}
      | Proj a i \<Rightarrow> {a}
      | ContainerNormalize a \<Rightarrow> {a}
      | _ \<Rightarrow> {})"

text \<open>Proofs are added to a store after the proofs they refer to.\<close>

definition ordered_store :: "proof_store \<Rightarrow> bool" where
  "ordered_store s \<longleftrightarrow>
     (\<forall>pid pr. dim_get (id_to_proof s) pid = Some pr \<longrightarrow> (\<forall>q \<in> sub_proofs (justified_by pr). q < pid))"

locale deciding_checker = sound_checker +
  fixes bound :: nat
  assumes chk_decided: "good prog psem cnorm s c \<Longrightarrow> ordered_store s \<Longrightarrow> pid < bound \<Longrightarrow> decided (chk pid s c)"
begin

lemma check_body_decided:
  assumes "good prog psem cnorm s c" "ordered_store s" "subst_ok (store_dag s) \<sigma>"
    "\<forall>(f, pid) \<in> set fs. lawful_prims psem (fact_prims f) \<and> pid < bound"
  shows "decided (check_body chk n fs \<sigma> s c)"
  using assms
proof (induction fs arbitrary: \<sigma> s c)
  case (Cons g fs)
  obtain f pid where g: "g = (f, pid)" by (cases g)
  have law: "lawful_prims psem (fact_prims f)" "pid < bound" using Cons.prems(4) g by auto
  have rest: "\<forall>(f, pid) \<in> set fs. lawful_prims psem (fact_prims f) \<and> pid < bound" using Cons.prems(4) by simp
  have wf: "dag_wf (store_dag s)" using Cons.prems(1) by (simp add: good_def store_ok_def)
  show ?case
  proof (cases "is_container_side_condition f")
    case True
    have "decided (check_body chk n fs \<sigma>' (s\<lparr>store_dag := d\<rparr>) c)"
      if "check_side_condition n f (store_dag s) \<sigma> = Ok (\<sigma>', d)" for \<sigma>' d
    proof -
      from check_side_condition_ok [OF wf Cons.prems(3) law(1) that] have "grown s d" "subst_ok d \<sigma>'" by (auto simp: grown_def)
      with Cons.IH [OF good_grown [OF Cons.prems(1)] _ _ rest, of d \<sigma>'] Cons.prems(2) show ?thesis by (simp add: ordered_store_def)
    qed
    with True g check_side_condition_decided [OF wf Cons.prems(3) law(1)] show ?thesis by (auto intro!: decided_and_then)
  next
    case False
    have "decided (check_body chk n fs \<sigma> (s1\<lparr>store_dag := d\<rparr>) c1)"
      if "chk pid s c = Ok (p, s1, c1)" "check_fact_matches n f p (store_dag s1) \<sigma> = Ok d" for p s1 c1 d
    proof -
      note ck = chk_advances [OF Cons.prems(1) that(1)]
      have wf1: "dag_wf (store_dag s1)" using ck(2) by (simp add: good_def store_ok_def)
      have so1: "subst_ok (store_dag s1) \<sigma>" by (rule subst_ok_extends [OF Cons.prems(3) advances_keep(3) [OF ck(1)]])
      have d: "grown s1 d"
        using check_fact_matches_ok [OF wf1 so1 law(1) _ _ that(2)] ck(3) by (simp add: proved_def grown_def)
      then have "subst_ok d \<sigma>" using subst_ok_extends [OF so1] by (simp add: grown_def)
      with Cons.IH [OF good_grown [OF ck(2) d] _ _ rest, of \<sigma>] Cons.prems(2) advances_keep(1) [OF ck(1)]
      show ?thesis by (simp add: ordered_store_def)
    qed
    with False g chk_decided [OF Cons.prems(1,2) law(2)] show ?thesis by (auto intro!: decided_and_then)
  qed
qed simp

lemma check_just_decided:
  assumes good: "good prog psem cnorm s c" and ord: "ordered_store s" and pr: "dim_get (id_to_proof s) pid = Some pr" "pid \<le> bound"
  shows "decided (check_just chk prog pid pr s c)"
proof -
  have ids: "ids_valid (store_dag s) pr" "keeps_globals prog pr" using good pr by (auto simp: good_def store_ok_def)
  have sub: "a < bound" if "a \<in> sub_proofs (justified_by pr)" for a using ord pr that by (fastforce simp: ordered_store_def)
  have one: "decided (chk a s c)" if "a \<in> sub_proofs (justified_by pr)" for a
    using chk_decided [OF good ord sub [OF that]] .
  have two: "decided (chk b s1 c1)" if "b \<in> sub_proofs (justified_by pr)" "chk a s c = Ok (q, s1, c1)" for a b q s1 c1
  proof -
    note ck = chk_advances [OF good that(2)]
    have "ordered_store s1" using ord advances_keep(1) [OF ck(1)] by (simp add: ordered_store_def)
    from chk_decided [OF ck(2) this sub [OF that(1)]] show ?thesis .
  qed
  show ?thesis
  proof (cases "justified_by pr")
    case Fiat
    with check_fiat_decided [OF good ids(1)] show ?thesis by (auto simp: check_just_def intro!: decided_and_then)
  next
    case (Rule n ps subst)
    have law: "lawful_prims psem (program_prims prog)" using good by (simp add: good_def store_ok_def)
    note ws = working_subst_ok [OF good ids Rule]
    have facts: "lawful_prims psem (fact_prims f)" if "find_rule prog n = Some r" "f \<in> set (rule_body r)" for r f
      using find_rule_prims [OF that(1)] that(2) by (auto intro!: lawful_prims_subset [OF law])
    have "decided (check_body chk n (zip (rule_body r) ps) (working_subst c subst) s c)" if "find_rule prog n = Some r" for r
      by (rule check_body_decided [OF good ord ws(1)])
        (use facts [OF that] sub Rule in \<open>auto simp: sub_proofs_def dest: set_zip_rightD set_zip_leftD\<close>)
    moreover have "decided (check_rule_produces_equality n r (claim pr) (store_dag s1) \<sigma>)"
      if r: "find_rule prog n = Some r"
        and b: "check_body chk n (zip (rule_body r) ps) (working_subst c subst) s c = Ok (\<sigma>, s1, c1)" for r \<sigma> s1 c1
    proof -
      have "\<forall>(f, pid) \<in> set (zip (rule_body r) ps). lawful_prims psem (fact_prims f)"
        using facts [OF r] by (auto dest: set_zip_leftD)
      from check_body_premises [OF good ws(1) this b] have "good prog psem cnorm s1 c1" "subst_ok (store_dag s1) \<sigma>"
        by (auto simp: advances_good)
      then have "dag_wf (store_dag s1)" "subst_ok (store_dag s1) \<sigma>" by (simp_all add: good_def store_ok_def)
      from process_actions_decided [OF this lawful_prims_subset [OF law conjunct1 [OF find_rule_prims [OF r]]]]
      show ?thesis by (auto simp: check_rule_produces_equality_def intro!: decided_and_then)
    qed
    ultimately show ?thesis using Rule by (auto simp: check_just_def intro!: decided_and_then)
  next
    case (MergeFn f a b)
    have "decided (check_merge pid pr f p q prog c2 (store_dag s2))"
      if "chk a s c = Ok (p, s1, c1)" "chk b s1 c1 = Ok (q, s2, c2)" for p s1 c1 q s2 c2
    proof -
      note o = chk_advances [OF good that(1)]
      note t = chk_advances [OF o(2) that(2)]
      show ?thesis by (rule check_merge_decided [OF t(2) advances_keep(4) [OF t(1) o(3)] t(3)])
    qed
    with MergeFn one [of a] two [of b a] show ?thesis
      by (auto simp: check_just_def sub_proofs_def intro!: decided_and_then)
  next
    case (Trans a b)
    with one [of a] two [of b a] show ?thesis by (auto simp: check_just_def sub_proofs_def intro!: decided_and_then)
  next
    case (Congr a i b)
    with one [of a] two [of b a] show ?thesis by (auto simp: check_just_def sub_proofs_def intro!: decided_and_then)
  qed (use one in \<open>auto simp: check_just_def sub_proofs_def intro!: decided_and_then\<close>)
qed

end

lemma check_proof_ctx_decides: "deciding_checker prog psem cnorm (check_proof_ctx k prog) k"
proof (induction k)
  case 0
  show ?case by (intro_locales) (auto simp: deciding_checker_axioms_def intro: check_proof_ctx_sound)
next
  case (Suc k)
  have "decided (check_proof_ctx (Suc k) prog pid s c)"
    if "good prog psem cnorm s c" "ordered_store s" "pid < Suc k" for pid s c
    using that deciding_checker.check_just_decided [OF Suc that(1,2), of pid]
    by (auto simp: dim_index_def intro!: decided_and_then split: option.split)
  with check_proof_ctx_sound show ?case
    by (auto simp: deciding_checker_def deciding_checker_axioms_def simp del: check_proof_ctx.simps)
qed

interpretation bounded_check: deciding_checker prog psem cnorm "check_proof_ctx k prog" k for prog psem cnorm k
  by (rule check_proof_ctx_decides)

section \<open>The fuel does not influence the verdict\<close>

definition agrees :: "checker \<Rightarrow> checker \<Rightarrow> bool" where
  "agrees chk chk' \<longleftrightarrow> (\<forall>pid s c. decided (chk pid s c) \<longrightarrow> chk' pid s c = chk pid s c)"

lemma and_then_agrees:
  assumes "decided (and_then x f)" "decided x \<Longrightarrow> x' = x" "\<And>v. x = Ok v \<Longrightarrow> decided (f v) \<Longrightarrow> f' v = f v"
  shows "and_then x' f' = and_then x f"
  using assms by (cases x) (auto simp: decided_def)

lemma check_body_agrees:
  "agrees chk chk' \<Longrightarrow> decided (check_body chk n fs \<sigma> s c) \<Longrightarrow> check_body chk' n fs \<sigma> s c = check_body chk n fs \<sigma> s c"
proof (induction fs arbitrary: \<sigma> s c)
  case (Cons g fs)
  obtain f pid where g: "g = (f, pid)" by (cases g)
  have body: "and_then (chk' pid s c) (\<lambda>(p, s, c). and_then (check_fact_matches n f p (store_dag s) \<sigma>) (\<lambda>d.
          check_body chk' n fs \<sigma> (s\<lparr>store_dag := d\<rparr>) c)) =
        and_then (chk pid s c) (\<lambda>(p, s, c). and_then (check_fact_matches n f p (store_dag s) \<sigma>) (\<lambda>d.
          check_body chk n fs \<sigma> (s\<lparr>store_dag := d\<rparr>) c))"
    if "decided (and_then (chk pid s c) (\<lambda>(p, s, c). and_then (check_fact_matches n f p (store_dag s) \<sigma>) (\<lambda>d.
          check_body chk n fs \<sigma> (s\<lparr>store_dag := d\<rparr>) c)))"
    using that
  proof (rule and_then_agrees)
    show "decided (chk pid s c) \<Longrightarrow> chk' pid s c = chk pid s c" using Cons.prems(1) by (simp add: agrees_def)
  qed (auto intro!: and_then_agrees Cons.IH [OF Cons.prems(1)])
  have side: "and_then (check_side_condition n f (store_dag s) \<sigma>) (\<lambda>(\<sigma>, d). check_body chk' n fs \<sigma> (s\<lparr>store_dag := d\<rparr>) c) =
        and_then (check_side_condition n f (store_dag s) \<sigma>) (\<lambda>(\<sigma>, d). check_body chk n fs \<sigma> (s\<lparr>store_dag := d\<rparr>) c)"
    if "decided (and_then (check_side_condition n f (store_dag s) \<sigma>) (\<lambda>(\<sigma>, d). check_body chk n fs \<sigma> (s\<lparr>store_dag := d\<rparr>) c))"
    using that by (rule and_then_agrees) (auto intro: Cons.IH [OF Cons.prems(1)])
  show ?case
    using Cons.prems(2) body side unfolding g check_body.simps
    by (cases "is_container_side_condition f"; cases "assert_body_proof_normal_form n f") auto
qed simp

lemma check_just_agrees:
  assumes ag: "agrees chk chk'" and dec: "decided (check_just chk prog pid pr s c)"
  shows "check_just chk' prog pid pr s c = check_just chk prog pid pr s c"
proof -
  have ck: "decided (chk a s c) \<Longrightarrow> chk' a s c = chk a s c" for a s c using ag by (simp add: agrees_def)
  show ?thesis
    using dec
    by (cases "justified_by pr")
      (auto simp: check_just_def intro!: and_then_agrees ck check_body_agrees [OF ag] split: if_splits)
qed

lemma check_proof_ctx_agrees: "k \<le> k' \<Longrightarrow> agrees (check_proof_ctx k prog) (check_proof_ctx k' prog)"
proof (induction k arbitrary: k')
  case 0
  then show ?case by (simp add: agrees_def)
next
  case (Suc k)
  then obtain j where j: "k' = Suc j" "k \<le> j" by (cases k') auto
  have "check_proof_ctx k' prog pid s c = check_proof_ctx (Suc k) prog pid s c"
    if "decided (check_proof_ctx (Suc k) prog pid s c)" for pid s c
    using that unfolding j(1) check_proof_ctx.simps
    by (auto split: option.splits intro!: and_then_agrees check_just_agrees [OF Suc.IH [OF j(2)]])
  then show ?case unfolding agrees_def by blast
qed

lemma check_proof_decided:
  assumes "store_ok prog psem cnorm s" "ordered_store s" "pid < k"
  shows "decided (check_proof k s pid prog)"
proof -
  have "decided (context_new prog (store_dag s))"
  proof -
    have l: "lawful_prims psem (\<Union>b \<in> set (gather_global_actions prog). action_prims b)"
      using assms(1) by (auto simp: store_ok_def intro: lawful_prims_subset [OF _ global_action_prims])
    have "decided (process_actions ''global_actions'' Map.empty (gather_global_actions prog) (store_dag s))"
      using assms(1) by (intro process_actions_decided [OF _ _ l]) (simp_all add: store_ok_def subst_ok_def)
    then show ?thesis by (auto simp: context_new_def intro!: decided_and_then split: option.split)
  qed
  moreover have "decided (check_proof_ctx k prog pid (s\<lparr>store_dag := d\<rparr>) c)" if "context_new prog (store_dag s) = Ok (c, d)" for c d
    using bounded_check.chk_decided [OF context_new_good(2) [OF assms(1) that]] assms(2,3) by (simp add: ordered_store_def)
  ultimately show ?thesis by (auto simp: check_proof_def simp del: check_proof_ctx.simps intro!: decided_and_then)
qed

text \<open>
  C2: Checking terminates with a verdict.  In a store as above whose proofs refer to proofs of
  smaller ids, any fuel above the id of the proof gives a verdict, the same for every such fuel.
\<close>

theorem check_proof_verdict:
  assumes "store_ok prog psem cnorm s" "ordered_store s" "pid < k"
  shows "check_proof k s pid prog \<noteq> Err OutOfFuel \<and>
    (\<forall>k'. pid < k' \<longrightarrow> check_proof k' s pid prog = check_proof k s pid prog)"
proof -
  have le: "check_proof k2 s pid prog = check_proof k1 s pid prog" if "pid < k1" "k1 \<le> k2" for k1 k2
    using check_proof_decided [OF assms(1,2) that(1)] check_proof_ctx_agrees [OF that(2), of prog]
    unfolding check_proof_def agrees_def by (auto intro!: and_then_agrees simp del: check_proof_ctx.simps)
  then have "check_proof k' s pid prog = check_proof k s pid prog" if "pid < k'" for k'
    using that assms(3) nat_le_linear [of k k'] by metis
  with check_proof_decided [OF assms] show ?thesis by (simp add: decided_def)
qed

lemma sample_store_ordered: "ordered_store sample_store"
proof -
  have "\<forall>q \<in> sub_proofs (justified_by pr). q < pid" if "dim_get (id_to_proof sample_store) pid = Some pr" for pid pr
  proof -
    have "pid < 5" using that by (auto simp: sample_store_def dim_get_def get_opt_def split: if_splits)
    then consider "pid = 0" | "pid = 1" | "pid = 2" | "pid = 3" | "pid = 4" by linarith
    then show ?thesis using that by cases (auto simp: sample_store_def dim_get_def get_opt_def sub_proofs_def)
  qed
  then show ?thesis by (simp add: ordered_store_def)
qed

theorem check_proof_verdict_witness:
  "check_proof 5 sample_store 4 sample_program \<noteq> Err OutOfFuel \<and>
   check_proof 100 sample_store 4 sample_program = check_proof 5 sample_store 4 sample_program"
proof -
  have "4 < (5 :: nat)" "4 < (100 :: nat)" by simp_all
  with check_proof_verdict [OF sample_store_ok sample_store_ordered this(1)] show ?thesis by blast
qed

end

