(* ===== verification/ProofUses.thy ===== *)
theory ProofUses
  imports ProofTermination
begin

text \<open>
  Soundness of the proof check without assumptions on the recorded proofs.  The check follows a proof
  to the proofs it uses and reads no other, so its verdict is the one on the store cut down to them.
  Two conditions on a proof are not enforced by the code: its substitution may rebind a global, and a
  merge may name another function than that of its rows.  The theorems say that an accepted claim is
  derivable unless one of the proofs it uses does one of the two; \<open>ProofGaps\<close> shows that both happen.
\<close>

section \<open>The proofs a proof uses\<close>

inductive_set uses :: "proof_store \<Rightarrow> nat \<Rightarrow> nat set" for s :: proof_store and pid :: nat where
  uses_self: "pid \<in> uses s pid"
| uses_sub: "q \<in> uses s pid \<Longrightarrow> dim_get (id_to_proof s) q = Some pr \<Longrightarrow> a \<in> sub_proofs (justified_by pr) \<Longrightarrow> a \<in> uses s pid"

text \<open>What the checker does not compare.\<close>

definition rebinds_global :: "ncommand list \<Rightarrow> proof_node \<Rightarrow> bool" where
  "rebinds_global prog pr \<longleftrightarrow>
     (\<exists>n ps sub x i. justified_by pr = Rule n ps sub \<and> (x, i) \<in> set sub \<and> x \<in> global_names prog)"

definition merges_other_rows :: "proof_store \<Rightarrow> proof_node \<Rightarrow> bool" where
  "merges_other_rows s pr \<longleftrightarrow>
     (\<exists>f old new po. justified_by pr = MergeFn f old new \<and> dim_get (id_to_proof s) old = Some po \<and>
        (\<forall>ts. tree (store_dag s) (proof_rhs po) \<noteq> ECall f ts))"

definition has_gap :: "ncommand list \<Rightarrow> proof_store \<Rightarrow> nat \<Rightarrow> bool" where
  "has_gap prog s pid \<longleftrightarrow>
     (\<exists>q \<in> uses s pid. \<exists>pr. dim_get (id_to_proof s) q = Some pr \<and> (rebinds_global prog pr \<or> merges_other_rows s pr))"

lemma rebinds_global_iff: "rebinds_global prog pr \<longleftrightarrow> \<not> keeps_globals prog pr"
proof -
  have "fst ` set sub \<inter> G = {} \<longleftrightarrow> \<not> (\<exists>x i. (x, i) \<in> set sub \<and> x \<in> G)" for sub :: "(string \<times> nat) list" and G
    by (auto simp: disjoint_iff)
  then show ?thesis by (auto simp: rebinds_global_def keeps_globals_def)
qed

lemma merges_other_rows_iff: "merges_other_rows s pr \<longleftrightarrow> \<not> merges_own_rows s pr"
  unfolding merges_other_rows_def merges_own_rows_def by blast

text \<open>A store whose proofs mention terms of its DAG, with lawful validators.\<close>

definition store_wf :: "ncommand list \<Rightarrow> prim_sem \<Rightarrow> (string \<Rightarrow> tm list \<Rightarrow> tm option) \<Rightarrow> proof_store \<Rightarrow> bool" where
  "store_wf prog psem cnorm s \<longleftrightarrow>
     dag_wf (store_dag s) \<and> lawful_prims psem (program_prims prog) \<and>
     (\<forall>h v. container_normalizers s h = Some v \<longrightarrow> lawful_validator v (cnorm h)) \<and>
     (\<forall>pid pr. dim_get (id_to_proof s) pid = Some pr \<longrightarrow> ids_valid (store_dag s) pr)"

lemma store_ok_wf: "store_ok prog psem cnorm s \<Longrightarrow> store_wf prog psem cnorm s"
  by (simp add: store_ok_def store_wf_def)

section \<open>Cutting a store down\<close>

definition prune_map :: "nat set \<Rightarrow> 'v dense_id_map \<Rightarrow> 'v dense_id_map" where
  "prune_map R m = m\<lparr>map_data := map (\<lambda>i. if i \<in> R then map_data m ! i else None) [0..<length (map_data m)]\<rparr>"

lemma dim_get_prune: "dim_get (prune_map R m) i = (if i \<in> R then dim_get m i else None)"
  by (simp add: dim_get_def get_opt_def prune_map_def)

abbreviation prune :: "nat set \<Rightarrow> proof_store \<Rightarrow> proof_store" where
  "prune R s \<equiv> s\<lparr>id_to_proof := prune_map R (id_to_proof s)\<rparr>"

lemma prune_dag [simp]: "s\<lparr>id_to_proof := m, store_dag := d\<rparr> = s\<lparr>store_dag := d, id_to_proof := m\<rparr>"
  by (cases s) simp

text \<open>A result on the cut store, from the result on the whole store.\<close>

definition pruned :: "nat set \<Rightarrow> ('a \<times> proof_store \<times> 'c) checked \<Rightarrow> ('a \<times> proof_store \<times> 'c) checked" where
  "pruned R r = and_then r (\<lambda>(x, s, c). Ok (x, prune R s, c))"

lemma pruned_simps [simp]: "pruned R (Inl e) = Inl e" "pruned R (Inr (x, s, c)) = Inr (x, prune R s, c)"
  by (simp_all add: pruned_def)

lemma pruned_OkE:
  assumes "pruned R r = Inr (x, t, c)"
  obtains s where "r = Inr (x, s, c)" "t = prune R s"
  using assms by (auto simp: pruned_def elim!: and_then_OkE)

text \<open>The two runs go on alike after a step that keeps the proofs.\<close>

definition alike :: "nat set \<Rightarrow> proof_store \<Rightarrow> ('a \<times> proof_store \<times> 'c) checked \<Rightarrow> ('a \<times> proof_store \<times> 'c) checked \<Rightarrow> bool" where
  "alike R s r' r \<longleftrightarrow> r' = pruned R r \<and> (\<forall>x t c. r = Ok (x, t, c) \<longrightarrow> id_to_proof t = id_to_proof s)"

lemma alike_Err [simp]: "alike R s (Inl e) (Inl e)"
  by (simp add: alike_def)

lemma alike_Ok [simp]: "alike R s (Inr (x', t', c')) (Inr (x, t, c)) \<longleftrightarrow>
    x' = x \<and> c' = c \<and> t' = prune R t \<and> id_to_proof t = id_to_proof s"
  by (auto simp: alike_def)

lemma alike_and_then:
  assumes "alike R s m' m" "\<And>x t c. m = Ok (x, t, c) \<Longrightarrow> id_to_proof t = id_to_proof s \<Longrightarrow> alike R s (f (x, prune R t, c)) (g (x, t, c))"
  shows "alike R s (and_then m' f) (and_then m g)"
  using assms by (cases m) (auto simp: alike_def)

lemma alike_check: "(\<And>x. m = Ok x \<Longrightarrow> alike R s (f x) (g x)) \<Longrightarrow> alike R s (and_then m f) (and_then m g)"
  by (cases m) simp_all

lemma alike_same: "id_to_proof t = id_to_proof s \<Longrightarrow> alike R t r' r \<Longrightarrow> alike R s r' r"
  by (simp add: alike_def)

lemma reflexive_value_proofs [simp]:
  "reflexive_value_term k (s\<lparr>id_to_proof := m\<rparr>) i = reflexive_value_term k s i"
  "reflexive_value_terms k (s\<lparr>id_to_proof := m\<rparr>) is = reflexive_value_terms k s is"
proof (induction k s i and k s "is" rule: reflexive_value_term_reflexive_value_terms.induct)
  case (2 k s i)
  then show ?case by (cases "dag_get (store_dag s) i") (auto split: generic_term.split)
next
  case (4 k s c cs)
  then show ?case by (auto simp: and_then_def split: sum.split)
qed simp_all

lemma check_normalize_alike:
  assumes "id_to_proof t = id_to_proof s"
  shows "alike R s (and_then (check_normalize pid pr p (prune R t)) (\<lambda>(r, s). Ok (r, s, c)))
    (and_then (check_normalize pid pr p t) (\<lambda>(r, s). Ok (r, s, c)))"
proof (cases "dag_get (store_dag t) (prop_rhs p)")
  case (Inr n)
  then show ?thesis using assms
    by (auto simp: check_normalize_def normalize_container_def Let_def split: generic_term.split option.split prod.split)
qed (simp add: check_normalize_def normalize_container_def)

text \<open>With a proof, \<open>R\<close> has the proofs it refers to.\<close>

definition closed_proofs :: "nat set \<Rightarrow> proof_store \<Rightarrow> bool" where
  "closed_proofs R s \<longleftrightarrow> (\<forall>q \<in> R. \<forall>pr. dim_get (id_to_proof s) q = Some pr \<longrightarrow> sub_proofs (justified_by pr) \<subseteq> R)"

lemma closed_proofs_same: "id_to_proof t = id_to_proof s \<Longrightarrow> closed_proofs R t \<longleftrightarrow> closed_proofs R s"
  by (simp add: closed_proofs_def)

text \<open>A checker that reads no proof outside \<open>R\<close> when it checks one in \<open>R\<close>.\<close>

locale local_checker =
  fixes chk :: checker and R :: "nat set"
  assumes chk_alike: "closed_proofs R s \<Longrightarrow> pid \<in> R \<Longrightarrow> alike R s (chk pid (prune R s) c) (chk pid s c)"
begin

lemma step_alike:
  "closed_proofs R s \<Longrightarrow> pid \<in> R \<Longrightarrow> id_to_proof t = id_to_proof s \<Longrightarrow> alike R s (chk pid (prune R t) c) (chk pid t c)"
  using closed_proofs_same [of t s R] by (intro alike_same [OF _ chk_alike]) simp_all

lemma check_body_alike:
  "closed_proofs R s \<Longrightarrow> snd ` set fs \<subseteq> R \<Longrightarrow> alike R s (check_body chk n fs \<sigma> (prune R s) c) (check_body chk n fs \<sigma> s c)"
proof (induction fs arbitrary: \<sigma> s c)
  case (Cons g fs)
  obtain f pid where g: "g = (f, pid)" by (cases g)
  have IH: "alike R s (check_body chk n fs \<sigma> (prune R t\<lparr>store_dag := d\<rparr>) c) (check_body chk n fs \<sigma> (t\<lparr>store_dag := d\<rparr>) c)"
    if "id_to_proof t = id_to_proof s" for \<sigma> t d c
    using Cons.IH [of "t\<lparr>store_dag := d\<rparr>" \<sigma> c] Cons.prems that closed_proofs_same [of "t\<lparr>store_dag := d\<rparr>" s R] by (simp add: alike_def)
  from Cons.prems g have "pid \<in> R" by simp
  note chk_alike [OF Cons.prems(1) this]
  with g IH show ?case by (auto intro!: alike_check alike_and_then)
qed simp

lemma check_just_alike:
  assumes closed: "closed_proofs R s" and "sub_proofs (justified_by pr) \<subseteq> R"
  shows "alike R s (check_just chk prog pid pr (prune R s) c) (check_just chk prog pid pr s c)"
proof -
  show ?thesis
  proof (cases "justified_by pr")
    case (Rule n ps sub)
    have "alike R s (check_body chk n (zip fs ps) \<sigma> (prune R s) c) (check_body chk n (zip fs ps) \<sigma> s c)" for fs \<sigma>
      using assms Rule by (intro check_body_alike) (auto simp: sub_proofs_def dest: set_zip_rightD)
    with Rule show ?thesis by (auto simp: check_just_def intro!: alike_check alike_and_then)
  next
    case (MergeFn f a b)
    with assms have "a \<in> R" "b \<in> R" by (simp_all add: sub_proofs_def)
    with MergeFn show ?thesis by (auto simp: check_just_def intro!: alike_check alike_and_then step_alike closed)
  next
    case (Trans a b)
    with assms have "a \<in> R" "b \<in> R" by (simp_all add: sub_proofs_def)
    with Trans show ?thesis by (auto simp: check_just_def intro!: alike_check alike_and_then step_alike closed)
  next
    case (Congr a i b)
    with assms have "a \<in> R" "b \<in> R" by (simp_all add: sub_proofs_def)
    with Congr show ?thesis by (auto simp: check_just_def intro!: alike_check alike_and_then step_alike closed)
  next
    case (ContainerNormalize a)
    with assms have "a \<in> R" by (simp add: sub_proofs_def)
    with ContainerNormalize show ?thesis
      by (auto simp: check_just_def intro!: alike_and_then step_alike closed check_normalize_alike)
  qed (use assms in \<open>auto simp: sub_proofs_def check_just_def check_fiat_def Let_def simp del: reflexive_value_term.simps
      intro!: alike_check alike_and_then step_alike closed\<close>)
qed

end

section \<open>The check reads no other proof\<close>

lemma check_proof_ctx_local: "local_checker (check_proof_ctx k prog) R"
proof (induction k)
  case 0
  show ?case by unfold_locales simp
next
  case (Suc k)
  show ?case
  proof
    fix s pid c
    assume a: "closed_proofs R s" "pid \<in> R"
    have same: "dim_index (id_to_proof (prune R s)) pid = dim_index (id_to_proof s) pid"
      using a(2) by (simp add: dim_index_def dim_get_prune)
    have "sub_proofs (justified_by pr) \<subseteq> R" if "dim_index (id_to_proof s) pid = Ok pr" for pr
      using a that by (auto simp: dim_index_def closed_proofs_def)
    note just = local_checker.check_just_alike [OF Suc a(1) this]
    show "alike R s (check_proof_ctx (Suc k) prog pid (prune R s) c) (check_proof_ctx (Suc k) prog pid s c)"
    proof (cases "checked_proofs c pid")
      case None
      show ?thesis
      proof (cases "dim_index (id_to_proof s) pid")
        case (Inr pr)
        with None same just [of pr] show ?thesis by (auto intro!: alike_and_then)
      qed (use None same in simp)
    qed simp
  qed
qed

interpretation proof_check: local_checker "check_proof_ctx k prog" R for k prog R
  by (rule check_proof_ctx_local)

lemma check_proof_pruned:
  assumes "closed_proofs R s" "pid \<in> R" "check_proof k s pid prog = Ok (p, s')"
  shows "check_proof k (prune R s) pid prog = Ok (p, prune R s')"
proof -
  from assms(3) obtain c d c' where e: "context_new prog (store_dag s) = Ok (c, d)"
    "check_proof_ctx k prog pid (s\<lparr>store_dag := d\<rparr>) c = Ok (p, s', c')"
    by (auto simp: check_proof_def elim!: and_then_OkE)
  have "closed_proofs R (s\<lparr>store_dag := d\<rparr>)" using assms(1) by (simp add: closed_proofs_def)
  from proof_check.chk_alike [OF this assms(2), of k prog c] e show ?thesis by (simp add: check_proof_def alike_def)
qed

lemma check_proofs_loop_pruned:
  "closed_proofs R s \<Longrightarrow> set pids \<subseteq> R \<Longrightarrow> check_proofs_loop k s pids prog c = Ok (ps, s') \<Longrightarrow>
   check_proofs_loop k (prune R s) pids prog c = Ok (ps, prune R s')"
proof (induction pids arbitrary: s c ps)
  case (Cons pid pids)
  then obtain p t c' qs where e: "check_proof_ctx k prog pid s c = Ok (p, t, c')"
    "check_proofs_loop k t pids prog c' = Ok (qs, s')" "ps = p # qs"
    by (auto simp del: check_proof_ctx.simps elim!: and_then_OkE)
  from Cons.prems proof_check.chk_alike [of R s pid k prog c] e(1) have t: "closed_proofs R t"
    "check_proof_ctx k prog pid (prune R s) c = Ok (p, prune R t, c')"
    by (simp_all add: alike_def closed_proofs_def del: check_proof_ctx.simps)
  with Cons.IH [OF t(1) _ e(2)] Cons.prems(2) e(3) show ?case by (simp del: check_proof_ctx.simps)
qed simp

lemma check_proofs_pruned:
  assumes "closed_proofs R s" "set pids \<subseteq> R" "check_proofs k s pids prog = Ok (ps, s')"
  shows "check_proofs k (prune R s) pids prog = Ok (ps, prune R s')"
proof -
  from assms(3) obtain c d where e: "context_new prog (store_dag s) = Ok (c, d)"
    "check_proofs_loop k (s\<lparr>store_dag := d\<rparr>) pids prog c = Ok (ps, s')"
    by (auto simp: check_proofs_def elim!: and_then_OkE)
  have "closed_proofs R (s\<lparr>store_dag := d\<rparr>)" using assms(1) by (simp add: closed_proofs_def)
  from check_proofs_loop_pruned [OF this assms(2) e(2)] e(1) show ?thesis by (simp add: check_proofs_def)
qed

section \<open>The cut store is sound\<close>

lemma uses_closed: "closed_proofs (\<Union>pid \<in> P. uses s pid) s"
  unfolding closed_proofs_def by (blast intro: uses_sub)

lemma prune_ok:
  assumes "store_wf prog psem cnorm s"
    "\<forall>q \<in> R. \<forall>pr. dim_get (id_to_proof s) q = Some pr \<longrightarrow> \<not> rebinds_global prog pr \<and> \<not> merges_other_rows s pr"
  shows "store_ok prog psem cnorm (prune R s)"
proof -
  have "merges_own_rows (prune R s) pr" if "merges_own_rows s pr" for pr
    using that by (auto simp: merges_own_rows_def dim_get_prune split: if_splits)
  with assms show ?thesis
    by (auto simp: store_ok_def store_wf_def dim_get_prune rebinds_global_iff merges_other_rows_iff)
qed

lemma no_gap_ok:
  assumes "store_wf prog psem cnorm s" "\<forall>pid \<in> P. \<not> has_gap prog s pid"
  shows "store_ok prog psem cnorm (prune (\<Union>pid \<in> P. uses s pid) s)"
  using assms unfolding has_gap_def by (intro prune_ok) blast+

lemma ok_no_gap: "store_ok prog psem cnorm s \<Longrightarrow> \<not> has_gap prog s pid"
  unfolding has_gap_def rebinds_global_iff merges_other_rows_iff store_ok_def by blast

section \<open>Properties\<close>

text \<open>
  C1: What an accepted proof proves.  In a store whose proofs mention terms of its DAG and whose
  validators compute what the primitives mean, a proof that \<open>check_proof\<close> accepts has the returned
  proposition as its claim, and the equality of the two terms is derivable from the program, unless the
  proof or one it uses, directly or not, has a gap: a substitution that rebinds a global, or a merge
  that names another function than that of its rows.  The checker enforces neither condition, and no
  other way to accept a claim that does not follow exists; C38 and C39 show that each of the two is one.
  Proofs of the store that the accepted one does not use do not matter.
\<close>

theorem check_proof_sound:
  assumes "store_wf prog psem cnorm s" "check_proof k s pid prog = Ok (p, s')"
  shows "has_gap prog s pid \<or> (\<exists>pr. dim_get (id_to_proof s) pid = Some pr \<and> p = claim pr \<and>
    derivable prog psem cnorm (prim_value_constructors s) (tree (store_dag s) (prop_lhs p)) (tree (store_dag s) (prop_rhs p)))"
proof (cases "has_gap prog s pid")
  case False
  with no_gap_ok [OF assms(1), of "{pid}"] have ok: "store_ok prog psem cnorm (prune (uses s pid) s)" by simp
  have "closed_proofs (uses s pid) s" using uses_closed [of s "{pid}"] by simp
  from check_proof_ok_sound [OF ok check_proof_pruned [OF this uses_self assms(2)]] show ?thesis
    by (auto simp: dim_get_prune split: if_splits)
qed simp

theorem check_proof_sound_witness:
  "derivable sample_program (\<lambda>_ _. None) (\<lambda>_ _. None) {}
     (ECall ''g'' [ECall ''b'' []]) (ECall ''f'' [ECall ''a'' []])"
proof -
  from sample_check obtain s where "check_proof 5 sample_store 4 sample_program = Ok (Proposition 4 2, s)"
    by (auto split: sum.splits)
  from check_proof_sound [OF store_ok_wf [OF sample_store_ok] this] ok_no_gap [OF sample_store_ok, of 4] show ?thesis
    by (auto simp: sample_trees)
qed

text \<open>
  C32: What checking several proofs with a shared cache proves: if \<open>check_proofs\<close> accepts and none of
  the proofs has a gap as in C1 (a rebound global or a merge of another function's rows, among itself
  and the proofs it uses), it returns one proposition per proof, each the claim of its proof and
  derivable from the program.  The checker does not enforce the absence of gaps (C38, C39).
\<close>

theorem check_proofs_sound:
  assumes "store_wf prog psem cnorm s" "check_proofs k s pids prog = Ok (ps, s')"
  shows "(\<exists>pid \<in> set pids. has_gap prog s pid) \<or> list_all2 (\<lambda>pid p. \<exists>pr. dim_get (id_to_proof s) pid = Some pr \<and> p = claim pr \<and>
    derivable prog psem cnorm (prim_value_constructors s) (tree (store_dag s) (prop_lhs p)) (tree (store_dag s) (prop_rhs p))) pids ps"
proof (cases "\<exists>pid \<in> set pids. has_gap prog s pid")
  case False
  let ?R = "\<Union>pid \<in> set pids. uses s pid"
  from no_gap_ok [OF assms(1), of "set pids"] False have ok: "store_ok prog psem cnorm (prune ?R s)" by simp
  have "set pids \<subseteq> ?R" by (blast intro: uses_self)
  from check_proofs_ok_sound [OF ok check_proofs_pruned [OF uses_closed this assms(2)]]
  show ?thesis by (intro disjI2) (erule list_all2_mono, auto simp: dim_get_prune split: if_splits)
qed simp

theorem check_proofs_sound_witness:
  "derivable sample_program (\<lambda>_ _. None) (\<lambda>_ _. None) {}
     (ECall ''f'' [ECall ''a'' []]) (ECall ''g'' [ECall ''a'' []]) \<and>
   derivable sample_program (\<lambda>_ _. None) (\<lambda>_ _. None) {}
     (ECall ''g'' [ECall ''b'' []]) (ECall ''f'' [ECall ''a'' []])"
proof -
  from sample_checks obtain s where "check_proofs 5 sample_store [1, 4] sample_program = Ok ([Proposition 2 3, Proposition 4 2], s)"
    by (auto split: sum.splits)
  from check_proofs_sound [OF store_ok_wf [OF sample_store_ok] this] ok_no_gap [OF sample_store_ok] show ?thesis
    by (auto simp: sample_trees)
qed

end
