(* ===== verification/ProofGaps.thy ===== *)
theory ProofGaps
  imports ProofUses
begin

text \<open>
  The two exceptions in the soundness of the checker do occur: with a proof that rebinds a global, and
  with one that merges rows with the merge of another function, it accepts claims that do not follow from
  the program.
\<close>

section \<open>A merge that names another function\<close>

text \<open>
  The program sets \<open>f\<close> to 1 and to 2, with a merge that keeps the old value; \<open>g\<close> has a merge that
  makes a constructor term.  The proof merges the two rows of \<open>f\<close> with the merge of \<open>g\<close>.
\<close>

definition lit :: "int \<Rightarrow> ('h, string) generic_expr" where
  "lit n = ELit (IntL n)"

definition merge_program :: "ncommand list" where
  "merge_program =
     [CoreAction (Expr (constructor_call ''f'' [lit 1])), CoreAction (Expr (constructor_call ''f'' [lit 2])),
      Function \<lparr>fd_name = ''f'', fd_merge = Some \<lparr>merge_actions = [], merge_result = EVar ''old''\<rparr>\<rparr>,
      Function \<lparr>fd_name = ''g'', fd_merge = Some \<lparr>merge_actions = [], merge_result = constructor_call ''c'' []\<rparr>\<rparr>]"

definition merge_store :: proof_store where
  "merge_store = \<lparr>
     store_dag = \<lparr>nodes = [Lit (IntL 1), App ''f'' [0], Lit (IntL 2), App ''f'' [2], App ''c'' [], App ''f'' [4]]\<rparr>,
     id_to_proof = \<lparr>map_data =
       [Some \<lparr>claim = Proposition 1 1, justified_by = Fiat\<rparr>,
        Some \<lparr>claim = Proposition 3 3, justified_by = Fiat\<rparr>,
        Some \<lparr>claim = Proposition 5 5, justified_by = MergeFn ''g'' 0 1\<rparr>]\<rparr>,
     container_normalizers = Map.empty, prim_value_constructors = {}\<rparr>"

definition merge_terms :: "tm set" where
  "merge_terms = {ECall ''f'' [lit 1], ECall ''f'' [lit 2]} \<union> range ELit"

lemma merge_globals:
  "tglobals psem merge_program = Some (Map.empty, Id_on {ECall ''f'' [lit 1], lit 1, ECall ''f'' [lit 2], lit 2})"
  by (auto simp: tglobals_def merge_program_def gather_global_actions_def List.map_filter_def constructor_call_def lit_def)

lemma merge_derivable:
  assumes "derivable merge_program psem (\<lambda>_ _. None) {} s t"
  shows "s = t \<and> s \<in> merge_terms"
  using assms
proof induction
  case (d_global \<nu>\<^sub>0 Y s t)
  then show ?case by (auto simp: merge_globals merge_terms_def lit_def)
next
  case (d_value t)
  then show ?case by (cases t) (auto simp: merge_terms_def)
next
  case (d_rule \<nu>\<^sub>0 Y n r \<nu> \<nu>' Z s t)
  then show ?case by (simp add: merge_program_def)
next
  case (d_merge \<nu>\<^sub>0 Y f m ins old new v t)
  then have "f = ''f''" "ins = []" by (auto simp: merge_terms_def)
  with d_merge show ?case by (auto simp: merge_program_def merge_terms_def lit_def)
next
  case (d_congr s f ts k u)
  then show ?case by (metis list_update_id)
next
  case (d_proj s f ts t)
  then show ?case by (auto simp: merge_terms_def lit_def)
qed auto

lemma merge_check:
  "(case check_proof 3 merge_store 2 merge_program of Inl e \<Rightarrow> False | Inr (p, s) \<Rightarrow> p = Proposition 5 5)"
  by code_simp

text \<open>
  C38: The check of a merge does not compare the function the proof names with the rows it merges:
  a proof that merges two rows of \<open>f\<close> with the merge body of \<open>g\<close> is accepted, and its claim is not
  derivable from the program.
\<close>

theorem merge_function_not_compared:
  "(\<exists>s. check_proof 3 merge_store 2 merge_program = Ok (Proposition 5 5, s)) \<and>
   tree (store_dag merge_store) 5 = ECall ''f'' [ECall ''c'' []] \<and>
   \<not> derivable merge_program psem (\<lambda>_ _. None) {} (ECall ''f'' [ECall ''c'' []]) (ECall ''f'' [ECall ''c'' []])"
proof (intro conjI)
  show "\<exists>s. check_proof 3 merge_store 2 merge_program = Ok (Proposition 5 5, s)"
    using merge_check by (auto split: sum.splits)
  show "tree (store_dag merge_store) 5 = ECall ''f'' [ECall ''c'' []]" by code_simp
  show "\<not> derivable merge_program psem (\<lambda>_ _. None) {} (ECall ''f'' [ECall ''c'' []]) (ECall ''f'' [ECall ''c'' []])"
    using merge_derivable [of psem "ECall ''f'' [ECall ''c'' []]"] by (auto simp: merge_terms_def lit_def)
qed

section \<open>A substitution that rebinds a global\<close>

text \<open>The program binds \<open>x\<close> to \<open>a\<close> and has a rule that adds \<open>f(x)\<close>; the proof rebinds \<open>x\<close> to \<open>b\<close>.\<close>

definition rebind_program :: "ncommand list" where
  "rebind_program =
     [CoreAction (Let ''x'' (constructor_call ''a'' [])),
      NormRule \<lparr>rule_head = [Expr (constructor_call ''f'' [EVar ''x''])], rule_body = [], rule_name = ''r''\<rparr>]"

definition rebind_store :: proof_store where
  "rebind_store = \<lparr>
     store_dag = \<lparr>nodes = [App ''b'' [], App ''f'' [0]]\<rparr>,
     id_to_proof = \<lparr>map_data = [Some \<lparr>claim = Proposition 1 1, justified_by = Rule ''r'' [] [(''x'', 0)]\<rparr>]\<rparr>,
     container_normalizers = Map.empty, prim_value_constructors = {}\<rparr>"

definition rebind_terms :: "tm set" where
  "rebind_terms = {ECall ''a'' [], ECall ''f'' [ECall ''a'' []]} \<union> range ELit"

lemma rebind_globals:
  "tglobals psem rebind_program = Some ([''x'' \<mapsto> ECall ''a'' []], Id_on {ECall ''a'' []})"
  by (auto simp: tglobals_def rebind_program_def gather_global_actions_def List.map_filter_def constructor_call_def)

lemma rebind_derivable:
  assumes "derivable rebind_program psem (\<lambda>_ _. None) {} s t"
  shows "s = t \<and> s \<in> rebind_terms"
  using assms
proof induction
  case (d_global \<nu>\<^sub>0 Y s t)
  then show ?case by (auto simp: rebind_globals rebind_terms_def)
next
  case (d_value t)
  then show ?case by (cases t) (auto simp: rebind_terms_def)
next
  case (d_rule \<nu>\<^sub>0 Y n r \<nu> \<nu>' Z s t)
  then have "\<nu> ''x'' = Some (ECall ''a'' [])" by (auto simp: rebind_globals map_le_def)
  with d_rule show ?case by (auto simp: rebind_program_def rebind_terms_def constructor_call_def split: if_splits)
next
  case (d_merge \<nu>\<^sub>0 Y f m ins old new v t)
  then show ?case by (simp add: rebind_program_def)
next
  case (d_congr s f ts k u)
  then show ?case by (metis list_update_id)
next
  case (d_proj s f ts t)
  then show ?case by (auto simp: rebind_terms_def)
qed auto

lemma rebind_check:
  "(case check_proof 1 rebind_store 0 rebind_program of Inl e \<Rightarrow> False | Inr (p, s) \<Rightarrow> p = Proposition 1 1)"
  by code_simp

text \<open>
  C39: A recorded substitution overrides the globals of the same name: a rule proof that rebinds a
  global is accepted, and its claim is not derivable from the program.
\<close>

theorem substitution_rebinds_global:
  "(\<exists>s. check_proof 1 rebind_store 0 rebind_program = Ok (Proposition 1 1, s)) \<and>
   tree (store_dag rebind_store) 1 = ECall ''f'' [ECall ''b'' []] \<and>
   \<not> derivable rebind_program psem (\<lambda>_ _. None) {} (ECall ''f'' [ECall ''b'' []]) (ECall ''f'' [ECall ''b'' []])"
proof (intro conjI)
  show "\<exists>s. check_proof 1 rebind_store 0 rebind_program = Ok (Proposition 1 1, s)"
    using rebind_check by (auto split: sum.splits)
  show "tree (store_dag rebind_store) 1 = ECall ''f'' [ECall ''b'' []]" by code_simp
  show "\<not> derivable rebind_program psem (\<lambda>_ _. None) {} (ECall ''f'' [ECall ''b'' []]) (ECall ''f'' [ECall ''b'' []])"
    using rebind_derivable [of psem "ECall ''f'' [ECall ''b'' []]"] by (auto simp: rebind_terms_def)
qed

end
