(* ===== verification/RowBuffer.thy ===== *)
theory RowBuffer
  imports Offsets
begin

text \<open>
  The row buffers of \<open>egglog/core-relations/src/row_buffer/mod.rs\<close>: rows of one arity laid out in a
  single vector, and the tagged variant that stores a source row id behind every row.  The
  representation is the flat vector of the source; \<open>buf_rows\<close> is the list of rows it stands for.

  Values and row ids are natural numbers below $2^{32}$; the largest one marks stale rows.
\<close>

section \<open>Model\<close>

type_synonym val = nat
type_synonym row = "val list"

definition stale :: val where
  "stale = u32_max"

definition is_stale :: "val \<Rightarrow> bool" where
  "is_stale v \<longleftrightarrow> v = u32_max"

record row_buffer =
  n_columns :: nat
  total_rows :: nat
  buf_data :: "val list"

definition buf_new :: "nat \<Rightarrow> row_buffer result" where
  "buf_new n = (if n = 0 then Err AssertFailed else Ok \<lparr>n_columns = n, total_rows = 0, buf_data = []\<rparr>)"

definition buf_arity :: "row_buffer \<Rightarrow> nat" where
  "buf_arity b = n_columns b"

definition buf_len :: "row_buffer \<Rightarrow> nat" where
  "buf_len b = total_rows b"

definition buf_clear :: "row_buffer \<Rightarrow> row_buffer" where
  "buf_clear b = b\<lparr>buf_data := [], total_rows := 0\<rparr>"

text \<open>\<open>slice::chunks\<close>; the last chunk may be shorter.\<close>

function slice_chunks :: "nat \<Rightarrow> 'a list \<Rightarrow> 'a list list" where
  "slice_chunks n xs = (if n = 0 \<or> xs = [] then [] else take n xs # slice_chunks n (drop n xs))"
  by pat_completeness auto
termination
  by (relation "measure (\<lambda>(n, xs). length xs)") auto

declare slice_chunks.simps [simp del]

text \<open>\<open>chunks\<close> panics on the chunk size 0.\<close>

definition buf_iter :: "row_buffer \<Rightarrow> row list result" where
  "buf_iter b = (if n_columns b = 0 then Err ExplicitPanic else Ok (slice_chunks (n_columns b) (buf_data b)))"

definition buf_get_row :: "row_buffer \<Rightarrow> nat \<Rightarrow> row result" where
  "buf_get_row b i = vec_slice (buf_data b) (i * n_columns b) ((i + 1) * n_columns b)"

text \<open>\<open>get_row_mut\<close> with the edit \<open>f\<close> its caller makes; an edit keeps the length of the slice.\<close>

definition buf_edit_row :: "row_buffer \<Rightarrow> nat \<Rightarrow> (row \<Rightarrow> 'a \<times> row) \<Rightarrow> ('a \<times> row_buffer) result" where
  "buf_edit_row b i f =
     and_then (buf_get_row b i) (\<lambda>r.
       let (x, r') = f r in
       Ok (x, b\<lparr>buf_data := take (i * n_columns b) (buf_data b) @ r' @ drop ((i + 1) * n_columns b) (buf_data b)\<rparr>))"

text \<open>The filter reads the first column of every chunk.\<close>

definition buf_non_stale :: "row_buffer \<Rightarrow> row list result" where
  "buf_non_stale b = and_then (buf_iter b) (\<lambda>rs. Ok (filter (\<lambda>r. \<not> is_stale (r ! 0)) rs))"

text \<open>\<open>row[0]\<close> panics on a row without columns.\<close>

definition buf_set_stale :: "row_buffer \<Rightarrow> nat \<Rightarrow> (bool \<times> row_buffer) result" where
  "buf_set_stale b i =
     and_then (buf_get_row b i) (\<lambda>r.
     and_then (vec_get r 0) (\<lambda>v.
       buf_edit_row b i (\<lambda>r. (is_stale v, r[0 := stale]))))"

definition buf_add_row :: "row_buffer \<Rightarrow> row \<Rightarrow> (nat \<times> row_buffer) result" where
  "buf_add_row b r =
     and_then (from_usize_u32 (total_rows b)) (\<lambda>i.
       Ok (i, b\<lparr>buf_data := buf_data b @ r, total_rows := total_rows b + 1\<rparr>))"

text \<open>
  \<open>remove_stale\<close>: one pass of \<open>Vec::retain\<close> over the entries.  The state is that of the closure;
  \<open>remaps\<close> collects the calls of \<open>remap\<close>.
\<close>

record retain_state =
  within_row :: nat
  row_in :: nat
  row_out :: nat
  keep_row :: bool
  scratch :: row
  remaps :: "(row \<times> nat \<times> nat) list"

definition retain_entry :: "nat \<Rightarrow> val \<Rightarrow> retain_state \<Rightarrow> retain_state result" where
  "retain_entry n v s =
     and_then
       (if within_row s = 0
        then let k = \<not> is_stale v in
             and_then (if k then add_u32 (row_out s) 1 else Ok (row_out s)) (\<lambda>new_out.
             and_then (add_u32 (row_in s) 1) (\<lambda>new_in.
               Ok (s\<lparr>keep_row := k, scratch := (if k then scratch s @ [v] else scratch s),
                     row_out := new_out, row_in := new_in\<rparr>)))
        else Ok (if keep_row s then s\<lparr>scratch := scratch s @ [v]\<rparr> else s))
       (\<lambda>s. let s = s\<lparr>within_row := within_row s + 1\<rparr> in
            Ok (if within_row s = n
                then (if keep_row s
                      then s\<lparr>within_row := 0, remaps := remaps s @ [(scratch s, row_in s - 1, row_out s - 1)], scratch := []\<rparr>
                      else s\<lparr>within_row := 0\<rparr>)
                else s))"

fun retain_entries :: "nat \<Rightarrow> val list \<Rightarrow> retain_state \<Rightarrow> (val list \<times> retain_state) result" where
  "retain_entries n [] s = Ok ([], s)"
| "retain_entries n (v # vs) s =
     and_then (retain_entry n v s) (\<lambda>s.
     and_then (retain_entries n vs s) (\<lambda>(kept, s'). Ok (if keep_row s then v # kept else kept, s')))"

definition retain_start :: retain_state where
  "retain_start = \<lparr>within_row = 0, row_in = 0, row_out = 0, keep_row = True, scratch = [], remaps = []\<rparr>"

definition buf_remove_stale :: "row_buffer \<Rightarrow> (row_buffer \<times> (row \<times> nat \<times> nat) list) result" where
  "buf_remove_stale b =
     and_then (retain_entries (n_columns b) (buf_data b) retain_start) (\<lambda>(kept, s).
       Ok (b\<lparr>buf_data := kept, total_rows := row_out s\<rparr>, remaps s))"

subsection \<open>Tagged buffers\<close>

type_synonym tagged_buffer = row_buffer

definition tag_new :: "nat \<Rightarrow> tagged_buffer result" where
  "tag_new n = buf_new (n + 1)"

definition base_arity :: "tagged_buffer \<Rightarrow> nat" where
  "base_arity b = n_columns b - 1"

definition tag_is_empty :: "tagged_buffer \<Rightarrow> bool" where
  "tag_is_empty b \<longleftrightarrow> buf_len b = 0"

definition tag_add_row :: "tagged_buffer \<Rightarrow> nat \<Rightarrow> row \<Rightarrow> (nat \<times> tagged_buffer) result" where
  "tag_add_row b i r =
     and_then (from_usize_u32 (total_rows b)) (\<lambda>j.
       Ok (j, b\<lparr>buf_data := (buf_data b @ r) @ [i], total_rows := total_rows b + 1\<rparr>))"

text \<open>The patch sees the copied row at the end of the vector, without the tag behind it.\<close>

definition tag_add_row_with :: "tagged_buffer \<Rightarrow> nat \<Rightarrow> row \<Rightarrow> (row \<Rightarrow> row) \<Rightarrow> (nat \<times> tagged_buffer) result" where
  "tag_add_row_with b i r patch =
     and_then (from_usize_u32 (total_rows b)) (\<lambda>j.
       let vals = (buf_data b @ r) @ [i];
           e = length vals - 1 in
       and_then (vec_slice vals (e - length r) e) (\<lambda>dst.
         Ok (j, b\<lparr>buf_data := take (e - length r) vals @ patch dst @ drop e vals, total_rows := total_rows b + 1\<rparr>)))"

definition unwrap_row :: "nat \<Rightarrow> row \<Rightarrow> (nat \<times> row) result" where
  "unwrap_row n r = and_then (vec_get r n) (\<lambda>i. and_then (vec_slice r 0 n) (\<lambda>r'. Ok (i, r')))"

definition tag_get_row :: "tagged_buffer \<Rightarrow> nat \<Rightarrow> (nat \<times> row) result" where
  "tag_get_row b i = and_then (buf_get_row b i) (unwrap_row (base_arity b))"

fun map_result :: "('a \<Rightarrow> 'b result) \<Rightarrow> 'a list \<Rightarrow> 'b list result" where
  "map_result f [] = Ok []"
| "map_result f (x # xs) = and_then (f x) (\<lambda>y. and_then (map_result f xs) (\<lambda>ys. Ok (y # ys)))"

definition tag_iter :: "tagged_buffer \<Rightarrow> (nat \<times> row) list result" where
  "tag_iter b = and_then (buf_iter b) (map_result (unwrap_row (base_arity b)))"

definition tag_non_stale :: "tagged_buffer \<Rightarrow> (nat \<times> row) list result" where
  "tag_non_stale b = and_then (buf_non_stale b) (map_result (unwrap_row (base_arity b)))"

text \<open>\<open>get_row_mut\<close> of a tagged buffer: the edit sees the row without its tag.\<close>

definition tag_edit_row :: "tagged_buffer \<Rightarrow> nat \<Rightarrow> (nat \<Rightarrow> row \<Rightarrow> 'a \<times> row) \<Rightarrow> ('a \<times> tagged_buffer) result" where
  "tag_edit_row b i f =
     and_then (tag_get_row b i) (\<lambda>(tag, r).
       buf_edit_row b i (\<lambda>full. let (x, r') = f tag r in (x, r' @ drop (base_arity b) full)))"

section \<open>Rows of a flat vector\<close>

lemma slice_concat:
  assumes "\<forall>r \<in> set rs. length r = n" "i < length rs"
  shows "take n (drop (i * n) (concat rs)) = rs ! i" "(i + 1) * n \<le> length (concat rs)"
proof -
  have len: "length (concat ys) = length ys * n" if "\<forall>r \<in> set ys. length r = n" for ys :: "'a list list"
    using that by (induction ys) auto
  have split: "concat rs = concat (take i rs) @ rs ! i @ concat (drop (Suc i) rs)"
    using id_take_nth_drop [OF assms(2)] by (metis concat.simps(2) concat_append)
  have a: "length (concat (take i rs)) = i * n" using len [of "take i rs"] assms by (auto dest: in_set_takeD)
  have b: "length (rs ! i) = n" using assms by simp
  from a b show "take n (drop (i * n) (concat rs)) = rs ! i" by (subst split) simp
  show "(i + 1) * n \<le> length (concat rs)" using len [OF assms(1)] assms(2) by (metis Suc_eq_plus1 Suc_leI mult_le_mono1)
qed

lemma length_concat_uniform: "\<forall>r \<in> set rs. length r = n \<Longrightarrow> length (concat rs) = length rs * n"
  by (induction rs) auto

lemma slice_chunks_concat: "0 < n \<Longrightarrow> \<forall>r \<in> set rs. length r = n \<Longrightarrow> slice_chunks n (concat rs) = rs"
proof (induction rs)
  case (Cons r rs)
  then have "r \<noteq> []" "length r = n" by auto
  with Cons show ?case by (subst slice_chunks.simps) auto
qed (simp add: slice_chunks.simps)

lemma concat_update:
  assumes "\<forall>r \<in> set rs. length r = n" "i < length rs"
  shows "take (i * n) (concat rs) @ r' @ drop ((i + 1) * n) (concat rs) = concat (rs[i := r'])"
proof -
  have split: "concat rs = concat (take i rs) @ rs ! i @ concat (drop (Suc i) rs)"
    using id_take_nth_drop [OF assms(2)] by (metis concat.simps(2) concat_append)
  have a: "length (concat (take i rs)) = i * n"
    using length_concat_uniform [of "take i rs" n] assms by (auto dest: in_set_takeD)
  have b: "length (rs ! i) = n" using assms by simp
  have "concat (rs[i := r']) = concat (take i rs) @ r' @ concat (drop (Suc i) rs)"
    using assms(2) by (simp add: upd_conv_take_nth_drop)
  moreover have "take (i * n) (concat rs) = concat (take i rs)" by (subst split) (simp add: a)
  moreover have "drop ((i + 1) * n) (concat rs) = concat (drop (Suc i) rs)" by (subst split) (simp add: a b)
  ultimately show ?thesis by simp
qed

text \<open>A buffer that holds the rows \<open>rs\<close>.\<close>

definition holds :: "row_buffer \<Rightarrow> row list \<Rightarrow> bool" where
  "holds b rs \<longleftrightarrow>
     0 < n_columns b \<and> total_rows b = length rs \<and> (\<forall>r \<in> set rs. length r = n_columns b) \<and> buf_data b = concat rs"

definition buf_rows :: "row_buffer \<Rightarrow> row list" where
  "buf_rows b = slice_chunks (n_columns b) (buf_data b)"

definition buf_wf :: "row_buffer \<Rightarrow> bool" where
  "buf_wf b \<longleftrightarrow> holds b (buf_rows b)"

lemma holds_rows: "holds b rs \<Longrightarrow> buf_rows b = rs"
  by (simp add: holds_def buf_rows_def slice_chunks_concat)

lemma holds_wf: "holds b rs \<longleftrightarrow> buf_wf b \<and> buf_rows b = rs"
  by (auto simp: buf_wf_def holds_rows)

lemma get_row_holds:
  assumes "holds b rs"
  shows "buf_get_row b i = (if i < length rs then Ok (rs ! i) else Err IndexOutOfBounds)"
proof (cases "i < length rs")
  case True
  with assms slice_concat [of rs "n_columns b" i] show ?thesis by (simp add: holds_def buf_get_row_def)
next
  case False
  then have "length rs * n_columns b < (i + 1) * n_columns b"
    using assms by (intro mult_less_mono1) (auto simp: holds_def)
  with False assms show ?thesis using length_concat_uniform [of rs "n_columns b"] by (simp add: holds_def buf_get_row_def vec_slice_def)
qed

lemma edit_row_holds:
  assumes "holds b rs" "i < length rs" "f (rs ! i) = (x, r')" "length r' = n_columns b"
  shows "\<exists>b'. buf_edit_row b i f = Ok (x, b') \<and> holds b' (rs[i := r']) \<and> n_columns b' = n_columns b"
  using assms get_row_holds [OF assms(1), of i] concat_update [of rs "n_columns b" i r']
  by (auto simp: buf_edit_row_def holds_def dest!: set_update_subset_insert [THEN subsetD])

lemma add_row_holds:
  assumes "holds b rs" "length r = n_columns b" "length rs \<le> u32_max"
  shows "\<exists>b'. buf_add_row b r = Ok (length rs, b') \<and> holds b' (rs @ [r]) \<and> n_columns b' = n_columns b"
  using assms by (auto simp: buf_add_row_def holds_def)

lemma set_stale_holds:
  assumes "holds b rs" "i < length rs"
  shows "\<exists>b'. buf_set_stale b i = Ok (is_stale (rs ! i ! 0), b') \<and> holds b' (rs[i := (rs ! i)[0 := stale]])"
proof -
  have len: "length (rs ! i) = n_columns b" "0 < n_columns b" using assms by (simp_all add: holds_def)
  with edit_row_holds [OF assms, of "\<lambda>r. (is_stale (rs ! i ! 0), r[0 := stale])" "is_stale (rs ! i ! 0)"]
  show ?thesis by (auto simp: buf_set_stale_def get_row_holds [OF assms(1)] assms(2))
qed

section \<open>Removing stale rows\<close>

text \<open>The state of the pass after the rest \<open>xs\<close> of a row.\<close>

definition row_end :: "retain_state \<Rightarrow> row \<Rightarrow> retain_state" where
  "row_end s xs =
     (if keep_row s
      then s\<lparr>within_row := 0, remaps := remaps s @ [(scratch s @ xs, row_in s - 1, row_out s - 1)], scratch := []\<rparr>
      else s\<lparr>within_row := 0\<rparr>)"

definition keep_result :: "bool \<Rightarrow> row \<Rightarrow> (val list \<times> retain_state) result \<Rightarrow> (val list \<times> retain_state) result" where
  "keep_result k xs res = and_then res (\<lambda>(kept, s). Ok (if k then xs @ kept else kept, s))"

lemma keep_result_simps [simp]:
  "keep_result k xs (Inl e) = Inl e"
  "keep_result k xs (Inr (kept, s)) = Inr (if k then xs @ kept else kept, s)"
  by (simp_all add: keep_result_def)

lemma keep_result_Cons:
  "keep_result k [x] (keep_result k xs res) = keep_result k (x # xs) res"
  by (cases res) auto

lemma retain_entries_step:
  "retain_entry n v s = Ok s' \<Longrightarrow> retain_entries n (v # vs) s = keep_result (keep_row s') [v] (retain_entries n vs s')"
  by (cases "retain_entries n vs s'") auto

lemma retain_rest_of_row:
  "0 < within_row s \<Longrightarrow> xs \<noteq> [] \<Longrightarrow> within_row s + length xs = n \<Longrightarrow>
   retain_entries n (xs @ vs) s = keep_result (keep_row s) xs (retain_entries n vs (row_end s xs))"
proof (induction xs arbitrary: s)
  case (Cons x xs)
  show ?case
  proof (cases "xs = []")
    case True
    have e: "retain_entry n x s = Ok (row_end s [x])" using True Cons.prems
      by (cases s) (auto simp: retain_entry_def row_end_def Let_def)
    have k: "keep_row (row_end s [x]) = keep_row s" by (simp add: row_end_def)
    show ?thesis using retain_entries_step [OF e, of vs] unfolding True k by (simp del: retain_entries.simps)
  next
    case False
    let ?s = "if keep_row s then s\<lparr>scratch := scratch s @ [x], within_row := within_row s + 1\<rparr> else s\<lparr>within_row := within_row s + 1\<rparr>"
    have e: "retain_entry n x s = Ok ?s" using Cons.prems False by (cases s) (auto simp: retain_entry_def Let_def)
    have r: "row_end ?s xs = row_end s (x # xs)" by (simp add: row_end_def)
    have k: "keep_row ?s = keep_row s" by simp
    have "retain_entries n (xs @ vs) ?s = keep_result (keep_row ?s) xs (retain_entries n vs (row_end ?s xs))"
      using Cons.prems False by (intro Cons.IH) auto
    then have "retain_entries n (x # xs @ vs) s = keep_result (keep_row s) [x] (keep_result (keep_row s) xs (retain_entries n vs (row_end s (x # xs))))"
      using retain_entries_step [OF e] unfolding k r by simp
    then show ?thesis by (simp only: keep_result_Cons append_Cons)
  qed
qed simp

definition row_done :: "row \<Rightarrow> retain_state \<Rightarrow> retain_state" where
  "row_done r s =
     (if is_stale (hd r) then s\<lparr>keep_row := False, row_in := row_in s + 1\<rparr>
      else s\<lparr>keep_row := True, row_in := row_in s + 1, row_out := row_out s + 1,
             remaps := remaps s @ [(r, row_in s, row_out s)]\<rparr>)"

lemma retain_row:
  assumes "within_row s = 0" "scratch s = []" "length r = n" "0 < n" "row_out s \<le> row_in s"
  shows "retain_entries n (r @ vs) s =
    (if row_in s < u32_max then keep_result (\<not> is_stale (hd r)) r (retain_entries n vs (row_done r s)) else Err ArithOverflow)"
proof -
  obtain v xs where r: "r = v # xs" using assms by (cases r) auto
  let ?m = "if is_stale v then s\<lparr>keep_row := False, row_in := row_in s + 1\<rparr>
    else s\<lparr>keep_row := True, row_in := row_in s + 1, row_out := row_out s + 1, scratch := [v]\<rparr>"
  consider "\<not> row_in s < u32_max" | "row_in s < u32_max" "xs = []" | "row_in s < u32_max" "xs \<noteq> []" by blast
  then show ?thesis
  proof cases
    case 1
    then have "retain_entry n v s = Err ArithOverflow" using assms(1) by (simp add: retain_entry_def add_u32_def Let_def)
    with 1 r show ?thesis by simp
  next
    case 2
    with assms r have n: "n = 1" by simp
    have e: "retain_entry n v s = Ok (row_done r s)" using 2 r assms n
      by (cases s) (simp add: retain_entry_def row_done_def Let_def)
    have k: "keep_row (row_done r s) \<longleftrightarrow> \<not> is_stale v" using r by (simp add: row_done_def)
    from retain_entries_step [OF e, of vs] k 2 r show ?thesis by (simp del: retain_entries.simps)
  next
    case 3
    let ?s = "?m\<lparr>within_row := 1\<rparr>"
    have e: "retain_entry n v s = Ok ?s" using assms 3 r by (cases s) (auto simp: retain_entry_def Let_def)
    have k: "keep_row ?s \<longleftrightarrow> \<not> is_stale v" by simp
    have d: "row_end ?s xs = row_done r s" using assms r by (cases s) (simp add: row_end_def row_done_def)
    have "retain_entries n (xs @ vs) ?s = keep_result (keep_row ?s) xs (retain_entries n vs (row_end ?s xs))"
      using assms r 3 by (intro retain_rest_of_row) auto
    then have "retain_entries n (v # xs @ vs) s = keep_result (\<not> is_stale v) [v] (keep_result (\<not> is_stale v) xs (retain_entries n vs (row_done r s)))"
      using retain_entries_step [OF e] unfolding k d by simp
    then show ?thesis using 3 r by (simp only: keep_result_Cons append_Cons list.sel if_True)
  qed
qed

text \<open>The calls of \<open>remap\<close>: the kept rows with their old and new positions.\<close>

fun remapped :: "nat \<Rightarrow> nat \<Rightarrow> row list \<Rightarrow> (row \<times> nat \<times> nat) list" where
  "remapped i j [] = []"
| "remapped i j (r # rs) =
     (if is_stale (hd r) then remapped (Suc i) j rs else (r, i, j) # remapped (Suc i) (Suc j) rs)"

lemma row_done_between:
  assumes "within_row s = 0" "scratch s = []" "row_out s \<le> row_in s"
  shows "within_row (row_done r s) = 0" "scratch (row_done r s) = []" "row_out (row_done r s) \<le> row_in (row_done r s)"
    "row_in (row_done r s) = Suc (row_in s)"
  using assms by (simp_all add: row_done_def)

lemma retain_rows:
  "0 < n \<Longrightarrow> \<forall>r \<in> set rs. length r = n \<Longrightarrow> within_row s = 0 \<Longrightarrow> scratch s = [] \<Longrightarrow> row_out s \<le> row_in s \<Longrightarrow>
   row_in s + length rs \<le> u32_max \<Longrightarrow>
   (\<exists>s'. retain_entries n (concat rs) s = Ok (concat (filter (\<lambda>r. \<not> is_stale (hd r)) rs), s') \<and>
      row_out s' = row_out s + length (filter (\<lambda>r. \<not> is_stale (hd r)) rs) \<and>
      remaps s' = remaps s @ remapped (row_in s) (row_out s) rs)"
proof (induction rs arbitrary: s)
  case (Cons r rs)
  note d = row_done_between [OF Cons.prems(3-5), of r]
  have len: "length r = n" using Cons.prems by simp
  from Cons.IH [OF Cons.prems(1) _ d(1-3)] Cons.prems(2,6) d(4)
  obtain s' where "retain_entries n (concat rs) (row_done r s) = Ok (concat (filter (\<lambda>r. \<not> is_stale (hd r)) rs), s')"
    "row_out s' = row_out (row_done r s) + length (filter (\<lambda>r. \<not> is_stale (hd r)) rs)"
    "remaps s' = remaps (row_done r s) @ remapped (row_in (row_done r s)) (row_out (row_done r s)) rs"
    by auto
  with retain_row [OF Cons.prems(3,4) len Cons.prems(1,5), of "concat rs"] Cons.prems(6) show ?case
    by (auto simp: row_done_def)
qed simp

text \<open>Counting more rows than \<open>u32\<close> holds overflows.\<close>

lemma retain_rows_overflow:
  "0 < n \<Longrightarrow> \<forall>r \<in> set rs. length r = n \<Longrightarrow> within_row s = 0 \<Longrightarrow> scratch s = [] \<Longrightarrow> row_out s \<le> row_in s \<Longrightarrow>
   row_in s \<le> u32_max \<Longrightarrow> u32_max < row_in s + length rs \<Longrightarrow> retain_entries n (concat rs) s = Err ArithOverflow"
proof (induction rs arbitrary: s)
  case (Cons r rs)
  note d = row_done_between [OF Cons.prems(3-5), of r]
  have len: "length r = n" using Cons.prems by simp
  note row = retain_row [OF Cons.prems(3,4) len Cons.prems(1,5), of "concat rs"]
  show ?case
  proof (cases "row_in s < u32_max")
    case True
    with Cons.IH [OF Cons.prems(1) _ d(1-3)] Cons.prems(2,7) d(4) row show ?thesis by simp
  next
    case False
    with row show ?thesis by simp
  qed
qed simp

lemma remapped_nth:
  "set (remapped i j rs) = {(rs ! k, i + k, j + length (filter (\<lambda>r. \<not> is_stale (hd r)) (take k rs))) |k.
     k < length rs \<and> \<not> is_stale (hd (rs ! k))}"
proof (induction i j rs rule: remapped.induct)
  case (2 i j r rs)
  have shift: "{f k |k. k < Suc m \<and> P k} = (if P 0 then {f 0} else {}) \<union> {f (Suc k) |k. k < m \<and> P (Suc k)}"
    for f :: "nat \<Rightarrow> 'a" and P m
    by (auto simp: less_Suc_eq_0_disj)
  show ?case
    using 2 by (cases "is_stale (hd r)") (simp_all add: shift)
qed simp

lemma remove_stale_holds:
  assumes "holds b rs" "length rs \<le> u32_max"
  shows "\<exists>b'. buf_remove_stale b = Ok (b', remapped 0 0 rs) \<and> holds b' (filter (\<lambda>r. \<not> is_stale (hd r)) rs) \<and>
    n_columns b' = n_columns b"
proof -
  obtain s' where "retain_entries (n_columns b) (concat rs) retain_start = Ok (concat (filter (\<lambda>r. \<not> is_stale (hd r)) rs), s')"
    "row_out s' = length (filter (\<lambda>r. \<not> is_stale (hd r)) rs)" "remaps s' = remapped 0 0 rs"
    using retain_rows [of "n_columns b" rs retain_start] assms by (auto simp: retain_start_def holds_def)
  with assms show ?thesis by (auto simp: buf_remove_stale_def holds_def)
qed

lemma remove_stale_overflow:
  assumes "holds b rs" "u32_max < length rs"
  shows "buf_remove_stale b = Err ArithOverflow"
  using retain_rows_overflow [of "n_columns b" rs retain_start] assms
  by (simp add: buf_remove_stale_def holds_def retain_start_def)

text \<open>The list of the calls.\<close>

lemma remapped_fst: "map fst (remapped i j rs) = filter (\<lambda>r. \<not> is_stale (hd r)) rs"
  by (induction i j rs rule: remapped.induct) auto

lemma remapped_new:
  "map (\<lambda>(r, i, j). j) (remapped i j rs) = [j..<j + length (filter (\<lambda>r. \<not> is_stale (hd r)) rs)]"
  by (induction i j rs rule: remapped.induct) (auto simp: upt_conv_Cons simp del: upt_Suc)

lemma filter_nth_take:
  assumes "k < length rs" "P (rs ! k)"
  shows "filter P rs ! length (filter P (take k rs)) = rs ! k"
proof -
  have "filter P rs = filter P (take k rs) @ rs ! k # filter P (drop (Suc k) rs)"
    by (subst id_take_nth_drop [OF assms(1)]) (simp add: assms(2))
  then show ?thesis by simp
qed

section \<open>Appending to a buffer\<close>

text \<open>
  The interface of a buffer for code that only appends: adding an entry returns its position,
  puts it last and keeps what entries fit.
\<close>

locale appender =
  fixes invar :: "'b \<Rightarrow> bool"
    and content :: "'b \<Rightarrow> 'r list"
    and fits :: "'b \<Rightarrow> 'r \<Rightarrow> bool"
    and add :: "'b \<Rightarrow> 'r \<Rightarrow> (nat \<times> 'b) result"
  assumes add_content: "invar b \<Longrightarrow> fits b r \<Longrightarrow> length (content b) \<le> u32_max \<Longrightarrow>
      \<exists>b'. add b r = Ok (length (content b), b') \<and> invar b' \<and> content b' = content b @ [r] \<and> fits b' = fits b"
begin

primrec add_all :: "'r list \<Rightarrow> 'b \<Rightarrow> 'b result" where
  "add_all [] b = Ok b"
| "add_all (r # rs) b = and_then (add b r) (\<lambda>(i, b). add_all rs b)"

lemma add_all_content:
  "invar b \<Longrightarrow> \<forall>r \<in> set rs. fits b r \<Longrightarrow> length (content b) + length rs \<le> Suc u32_max \<Longrightarrow>
   \<exists>b'. add_all rs b = Ok b' \<and> invar b' \<and> content b' = content b @ rs \<and> fits b' = fits b"
proof (induction rs arbitrary: b)
  case (Cons r rs)
  from add_content [of b r] Cons.prems obtain b1 where
    "add b r = Ok (length (content b), b1)" "invar b1" "content b1 = content b @ [r]" "fits b1 = fits b"
    by auto
  with Cons.IH [of b1] Cons.prems show ?case by auto
qed simp

end

interpretation plain_rows: appender buf_wf buf_rows "\<lambda>b r. length r = n_columns b" buf_add_row
proof
  fix b and r :: row
  assume "buf_wf b" "length r = n_columns b" "length (buf_rows b) \<le> u32_max"
  with add_row_holds [of b "buf_rows b" r]
  show "\<exists>b'. buf_add_row b r = Ok (length (buf_rows b), b') \<and> buf_wf b' \<and> buf_rows b' = buf_rows b @ [r] \<and>
      (\<lambda>r. length r = n_columns b') = (\<lambda>r. length r = n_columns b)"
    by (auto simp: holds_wf)
qed

definition tag_rows :: "tagged_buffer \<Rightarrow> (nat \<times> row) list" where
  "tag_rows b = map (\<lambda>r. (last r, butlast r)) (buf_rows b)"

lemma tag_add_row_buf: "tag_add_row b i r = buf_add_row b (r @ [i])"
  by (simp add: tag_add_row_def buf_add_row_def)

lemma tag_add_row_with_patch: "tag_add_row_with b i r patch = tag_add_row b i (patch r)"
  by (auto simp: tag_add_row_with_def tag_add_row_def and_then_def Let_def split: sum.split)

interpretation tagged_rows: appender buf_wf tag_rows "\<lambda>b (i, r). length r + 1 = n_columns b" "\<lambda>b (i, r). tag_add_row b i r"
proof
  fix b and e :: "nat \<times> row"
  assume a: "buf_wf b" "case e of (i, r) \<Rightarrow> length r + 1 = n_columns b" "length (tag_rows b) \<le> u32_max"
  obtain i r where e: "e = (i, r)" by (cases e)
  from a e add_row_holds [of b "buf_rows b" "r @ [i]"] obtain b' where
    "tag_add_row b i r = Ok (length (buf_rows b), b')" "buf_wf b'" "buf_rows b' = buf_rows b @ [r @ [i]]" "n_columns b' = n_columns b"
    by (auto simp: holds_wf tag_rows_def tag_add_row_buf)
  with e show "\<exists>b'. (case e of (i, r) \<Rightarrow> tag_add_row b i r) = Ok (length (tag_rows b), b') \<and> buf_wf b' \<and> tag_rows b' = tag_rows b @ [e] \<and>
      (\<lambda>(i, r). length r + 1 = n_columns b') = (\<lambda>(i, r). length r + 1 = n_columns b)"
    by (auto simp: tag_rows_def)
qed

lemma unwrap_row_last: "length r = n + 1 \<Longrightarrow> unwrap_row n r = Ok (last r, butlast r)"
  by (cases r rule: rev_cases) (auto simp: unwrap_row_def vec_slice_def)

lemma map_result_Ok: "(\<And>x. x \<in> set xs \<Longrightarrow> f x = Ok (g x)) \<Longrightarrow> map_result f xs = Ok (map g xs)"
  by (induction xs) auto

lemma buf_wf_lengths: "buf_wf b \<Longrightarrow> r \<in> set (buf_rows b) \<Longrightarrow> length r = n_columns b" "buf_wf b \<Longrightarrow> 0 < n_columns b"
  by (simp_all add: buf_wf_def holds_def)

lemma buf_iter_rows: "buf_wf b \<Longrightarrow> buf_iter b = Ok (buf_rows b)"
  by (simp add: buf_iter_def buf_rows_def buf_wf_lengths(2))

lemma tag_iter_rows: "buf_wf b \<Longrightarrow> tag_iter b = Ok (tag_rows b)"
  using map_result_Ok [of "buf_rows b" "unwrap_row (base_arity b)" "\<lambda>r. (last r, butlast r)"]
  by (simp add: tag_iter_def buf_iter_rows tag_rows_def base_arity_def unwrap_row_last buf_wf_lengths)

lemma tag_get_row_rows:
  "buf_wf b \<Longrightarrow> tag_get_row b i = (if i < length (tag_rows b) then Ok (tag_rows b ! i) else Err IndexOutOfBounds)"
  using get_row_holds [of b "buf_rows b" i]
  by (auto simp: tag_get_row_def tag_rows_def base_arity_def buf_wf_def [symmetric] unwrap_row_last buf_wf_lengths)

section \<open>Properties\<close>

text \<open>
  A row buffer is a list of rows of its arity.  A row that is added comes last, under the
  old number of rows as its id, and iteration and lookup see exactly the rows added; a lookup
  beyond them panics.  Marking a row stale reports whether it was stale and changes the
  first column of that row only.
\<close>

theorem row_buffer_is_list:
  assumes "buf_wf b" "length r = n_columns b" "buf_len b \<le> u32_max"
  shows "\<exists>b'. buf_add_row b r = Ok (buf_len b, b') \<and> buf_wf b' \<and> buf_iter b' = Ok (buf_rows b @ [r]) \<and>
    (\<forall>i. buf_get_row b' i = (if i < buf_len b then Ok (buf_rows b ! i) else if i = buf_len b then Ok r else Err IndexOutOfBounds)) \<and>
    (\<forall>i \<le> buf_len b. \<exists>b''. buf_set_stale b' i = Ok (is_stale ((buf_rows b @ [r]) ! i ! 0), b'') \<and> buf_wf b'' \<and>
       buf_rows b'' = (buf_rows b @ [r])[i := ((buf_rows b @ [r]) ! i)[0 := stale]])"
proof -
  have h: "holds b (buf_rows b)" "length (buf_rows b) = buf_len b" using assms(1) by (simp_all add: buf_wf_def holds_def buf_len_def)
  from add_row_holds [OF h(1) assms(2)] assms(3) h(2) obtain b' where
    b': "buf_add_row b r = Ok (buf_len b, b')" "holds b' (buf_rows b @ [r])" by auto
  with buf_iter_rows [of b'] get_row_holds [OF b'(2)] set_stale_holds [OF b'(2)] h(2) show ?thesis
    by (intro exI [of _ b']) (auto simp: holds_wf nth_append)
qed

definition two_rows :: row_buffer where
  "two_rows = \<lparr>n_columns = 2, total_rows = 2, buf_data = [1, 2, 3, 4]\<rparr>"

lemma two_rows_wf: "buf_wf two_rows" "buf_rows two_rows = [[1, 2], [3, 4]]"
  by (simp_all add: buf_wf_def holds_def buf_rows_def two_rows_def slice_chunks.simps)

theorem row_buffer_is_list_witness:
  "\<exists>b. buf_add_row two_rows [5, 6] = Ok (2, b) \<and> buf_iter b = Ok [[1, 2], [3, 4], [5, 6]]"
proof -
  have "length [5, 6 :: nat] = n_columns two_rows" "buf_len two_rows \<le> u32_max" "buf_len two_rows = 2"
    by (simp_all add: two_rows_def buf_len_def u32_max_def)
  from row_buffer_is_list [OF two_rows_wf(1) this(1,2)] this(3) two_rows_wf(2) show ?thesis by auto
qed

text \<open>
  C31: The single pass of \<open>remove_stale\<close> over the flat vector, with its two \<open>u32\<close> row counters.  On
  a buffer of at most \<open>u32_max\<close> rows it does not overflow, keeps exactly the rows that are not stale,
  in their order, and calls \<open>remap\<close> once for each of them, with the position it had and the position
  it has now.  On a larger one, which \<open>add_row\<close> allows to reach (row ids end at \<open>u32_max\<close>, so a buffer
  has up to one row more), counting the rows overflows.
\<close>

theorem remove_stale_compacts:
  assumes "buf_wf b"
  shows "if buf_len b \<le> u32_max
    then \<exists>b' calls. buf_remove_stale b = Ok (b', calls) \<and>
      buf_wf b' \<and> buf_rows b' = filter (\<lambda>r. \<not> is_stale (hd r)) (buf_rows b) \<and> buf_len b' = length (buf_rows b') \<and>
      map fst calls = buf_rows b' \<and> map (\<lambda>(r, i, j). j) calls = [0..<buf_len b'] \<and>
      (\<forall>(r, i, j) \<in> set calls. i < buf_len b \<and> buf_rows b ! i = r \<and> buf_rows b' ! j = r)
    else buf_remove_stale b = Err ArithOverflow"
proof -
  have h: "holds b (buf_rows b)" "buf_len b = length (buf_rows b)" using assms by (simp_all add: buf_wf_def holds_def buf_len_def)
  show ?thesis
  proof (cases "buf_len b \<le> u32_max")
    case True
    with remove_stale_holds [OF h(1)] h(2) obtain b' where
      b': "buf_remove_stale b = Ok (b', remapped 0 0 (buf_rows b))" "holds b' (filter (\<lambda>r. \<not> is_stale (hd r)) (buf_rows b))" by auto
    then have "buf_len b' = length (filter (\<lambda>r. \<not> is_stale (hd r)) (buf_rows b))" by (simp add: holds_def buf_len_def)
    with True b' h(2) show ?thesis by (auto simp: holds_wf remapped_nth remapped_fst remapped_new filter_nth_take)
  next
    case False
    with remove_stale_overflow [OF h(1)] h(2) show ?thesis by simp
  qed
qed

definition half_stale :: row_buffer where
  "half_stale = \<lparr>n_columns = 2, total_rows = 3, buf_data = [1, 2, stale, 4, 5, 6]\<rparr>"

definition full_buffer :: row_buffer where
  "full_buffer = \<lparr>n_columns = 1, total_rows = Suc u32_max, buf_data = replicate (Suc u32_max) 7\<rparr>"

lemma full_buffer_wf: "buf_wf full_buffer" "buf_len full_buffer = Suc u32_max"
proof -
  have "replicate n 7 = concat (replicate n [7])" for n by (induction n) simp_all
  then have "holds full_buffer (replicate (Suc u32_max) [7])" unfolding holds_def full_buffer_def by simp
  then show "buf_wf full_buffer" by (simp add: holds_wf)
qed (simp add: full_buffer_def buf_len_def)

text \<open>A buffer with a stale row in the middle, and one with every row id in use.\<close>

theorem remove_stale_compacts_witness:
  "(\<exists>b'. buf_remove_stale half_stale = Ok (b', [([1, 2], 0, 0), ([5, 6], 2, 1)]) \<and> buf_rows b' = [[1, 2], [5, 6]]) \<and>
    buf_remove_stale full_buffer = Err ArithOverflow"
proof -
  have wf: "buf_wf half_stale" "buf_rows half_stale = [[1, 2], [stale, 4], [5, 6]]" "buf_len half_stale \<le> u32_max"
    by (simp_all add: buf_wf_def holds_def buf_rows_def buf_len_def half_stale_def slice_chunks.simps u32_max_def)
  have "holds half_stale [[1, 2], [stale, 4], [5, 6]]" "length [[1, 2], [stale, 4], [5, 6]] \<le> u32_max"
    using wf by (simp_all add: buf_wf_def u32_max_def)
  from remove_stale_holds [OF this] obtain b' where
    run: "buf_remove_stale half_stale = Ok (b', [([1, 2], 0, 0), ([5, 6], 2, 1)])"
    by (auto simp: is_stale_def stale_def u32_max_def)
  have "buf_rows b' = filter (\<lambda>r. \<not> is_stale (hd r)) (buf_rows half_stale)"
    using remove_stale_compacts [OF wf(1)] wf(3) run by auto
  moreover have "buf_remove_stale full_buffer = Err ArithOverflow"
    using remove_stale_compacts [OF full_buffer_wf(1)] full_buffer_wf(2) by simp
  ultimately show ?thesis using run by (simp add: wf(2) is_stale_def stale_def u32_max_def)
qed

text \<open>
  A tagged buffer gives back the source id and the row that were added, and adding a row with
  a patch is the same as adding the patched row.
\<close>

theorem tagged_round_trip:
  assumes "buf_wf b" "length r = base_arity b" "buf_len b \<le> u32_max"
  shows "(\<exists>b'. tag_add_row b i r = Ok (buf_len b, b') \<and> buf_wf b' \<and> tag_get_row b' (buf_len b) = Ok (i, r) \<and>
      tag_iter b' = Ok (tag_rows b @ [(i, r)]) \<and> (\<forall>j < buf_len b. tag_get_row b' j = tag_get_row b j)) \<and>
    tag_add_row_with b i q patch = tag_add_row b i (patch q)"
proof -
  have len: "length (tag_rows b) = buf_len b" using assms(1) by (simp add: tag_rows_def buf_wf_def holds_def buf_len_def)
  have "length r + 1 = n_columns b" using assms(1,2) buf_wf_lengths(2) [of b] by (simp add: base_arity_def)
  with tagged_rows.add_content [OF assms(1), of "(i, r)"] assms(3) len obtain b' where
    "tag_add_row b i r = Ok (buf_len b, b')" "buf_wf b'" "tag_rows b' = tag_rows b @ [(i, r)]" by auto
  with tag_get_row_rows [of b'] tag_get_row_rows [OF assms(1)] tag_iter_rows [of b'] len show ?thesis
    by (auto simp: tag_add_row_with_patch nth_append)
qed

theorem tagged_round_trip_witness:
  "\<exists>b'. tag_add_row two_rows 9 [7] = Ok (2, b') \<and> tag_get_row b' 2 = Ok (9, [7])"
proof -
  have "length [7 :: nat] = base_arity two_rows" "buf_len two_rows \<le> u32_max" "buf_len two_rows = 2"
    by (simp_all add: two_rows_def buf_len_def base_arity_def u32_max_def)
  from conjunct1 [OF tagged_round_trip [OF two_rows_wf(1) this(1,2), of 9 "[]" id]] this(3) show ?thesis by auto
qed

end
