(* ===== verification/Constraints.thy ===== *)
theory Constraints
  imports RowBuffer
begin

text \<open>
  The constraints on rows of \<open>egglog/core-relations/src/table_spec.rs\<close> and their evaluation, which every
  table implements in the same way.
\<close>

section \<open>Model\<close>

datatype constrnt =
    CEq nat nat
  | CEqConst nat val
  | CLtConst nat val
  | CGtConst nat val
  | CLeConst nat val
  | CGeConst nat val

definition eval_constraint :: "row \<Rightarrow> constrnt \<Rightarrow> bool result" where
  "eval_constraint vals c =
     (case c of
        CEq l r \<Rightarrow> and_then (vec_get vals l) (\<lambda>x. and_then (vec_get vals r) (\<lambda>y. Ok (x = y)))
      | CEqConst col v \<Rightarrow> and_then (vec_get vals col) (\<lambda>x. Ok (x = v))
      | CLtConst col v \<Rightarrow> and_then (vec_get vals col) (\<lambda>x. Ok (x < v))
      | CGtConst col v \<Rightarrow> and_then (vec_get vals col) (\<lambda>x. Ok (x > v))
      | CLeConst col v \<Rightarrow> and_then (vec_get vals col) (\<lambda>x. Ok (x \<le> v))
      | CGeConst col v \<Rightarrow> and_then (vec_get vals col) (\<lambda>x. Ok (x \<ge> v)))"

section \<open>Satisfaction\<close>

text \<open>The constraints on the first \<open>n\<close> columns of a row, and the rows that satisfy them.\<close>

definition on_columns :: "nat \<Rightarrow> constrnt \<Rightarrow> bool" where
  "on_columns n c =
     (case c of CEq l r \<Rightarrow> l < n \<and> r < n | CEqConst col _ \<Rightarrow> col < n | CLtConst col _ \<Rightarrow> col < n
      | CGtConst col _ \<Rightarrow> col < n | CLeConst col _ \<Rightarrow> col < n | CGeConst col _ \<Rightarrow> col < n)"

definition satisfies :: "row \<Rightarrow> constrnt \<Rightarrow> bool" where
  "satisfies r c =
     (case c of CEq l s \<Rightarrow> r ! l = r ! s | CEqConst col v \<Rightarrow> r ! col = v | CLtConst col v \<Rightarrow> r ! col < v
      | CGtConst col v \<Rightarrow> v < r ! col | CLeConst col v \<Rightarrow> r ! col \<le> v | CGeConst col v \<Rightarrow> v \<le> r ! col)"

lemma eval_constraint_satisfies: "on_columns (length r) c \<Longrightarrow> eval_constraint r c = Ok (satisfies r c)"
  by (cases c) (auto simp: eval_constraint_def on_columns_def satisfies_def)

end
