(* ===== verification/DisplacedTable.thy ===== *)
theory DisplacedTable
  imports ConcurrentUnionFind Constraints
begin

text \<open>
  The table of displaced ids of \<open>egglog/core-relations/src/uf/mod.rs\<close>: a union-find, the rows of ids
  that ceased to be canonical with the time they did, and an index from ids to rows.  The theory
  models inserting, merging staged writes (serially and in parallel groups), lookups, scans, the
  fast subsets for constraints, and the canonicalizer that rebuilds other tables.

  The library call \<open>binary_search_by_key\<close> is the parameter \<open>bs\<close>, as in the theory of offsets; the number of
  threads is a parameter of a merge.
\<close>

section \<open>Model\<close>

record displaced_table =
  dt_uf :: union_find
  displaced :: "(val \<times> val) list"
  dt_changed :: bool
  lookup_table :: "val \<rightharpoonup> nat"
  buffered_writes :: "row_buffer list"

definition dt_default :: displaced_table where
  "dt_default = \<lparr>dt_uf = uf_default, displaced = [], dt_changed = False, lookup_table = Map.empty, buffered_writes = []\<rparr>"

text \<open>A clone does not share the staged writes.\<close>

definition dt_clone :: "displaced_table \<Rightarrow> displaced_table" where
  "dt_clone t = t\<lparr>buffered_writes := []\<rparr>"

definition dt_clear :: "displaced_table \<Rightarrow> displaced_table" where
  "dt_clear t = t\<lparr>dt_uf := uf_reset (dt_uf t), displaced := []\<rparr>"

definition dt_len :: "displaced_table \<Rightarrow> nat" where
  "dt_len t = length (displaced t)"

definition dt_all :: "displaced_table \<Rightarrow> subset result" where
  "dt_all t = and_then (from_usize_u32 (dt_len t)) (\<lambda>n. Ok (Dense (range_new 0 n)))"

text \<open>The major and the minor version.\<close>

definition dt_version :: "displaced_table \<Rightarrow> nat \<times> nat" where
  "dt_version t = (0, dt_len t)"

definition dt_updates_since :: "displaced_table \<Rightarrow> nat \<Rightarrow> subset result" where
  "dt_updates_since t off =
     and_then (from_usize_u32 off) (\<lambda>s. and_then (from_usize_u32 (dt_len t)) (\<lambda>e. Ok (Dense (range_new s e))))"

definition dt_expand :: "displaced_table \<Rightarrow> nat \<Rightarrow> row comp" where
  "dt_expand t i =
     run_then (Some (vec_get (displaced t) i)) (\<lambda>(child, ts).
     run_then (uf_find_naive (dt_uf t) child) (\<lambda>r. Some (Ok [child, r, ts])))"

definition dt_eval :: "displaced_table \<Rightarrow> constrnt \<Rightarrow> nat \<Rightarrow> bool comp" where
  "dt_eval t c i = run_then (dt_expand t i) (\<lambda>vals. Some (eval_constraint vals c))"

text \<open>\<open>cs.iter().all(...)\<close>, which stops at the first constraint that fails.\<close>

fun dt_eval_all :: "displaced_table \<Rightarrow> constrnt list \<Rightarrow> nat \<Rightarrow> bool comp" where
  "dt_eval_all t [] i = Some (Ok True)"
| "dt_eval_all t (c # cs) i = run_then (dt_eval t c i) (\<lambda>b. if b then dt_eval_all t cs i else Some (Ok False))"

text \<open>The rows a scan hands to its callback.\<close>

fun dt_visit :: "displaced_table \<Rightarrow> constrnt list \<Rightarrow> nat list \<Rightarrow> (nat \<times> row) list comp" where
  "dt_visit t cs [] = Some (Ok [])"
| "dt_visit t cs (i # is) =
     run_then (dt_eval_all t cs i) (\<lambda>b.
       if b
       then run_then (dt_expand t i) (\<lambda>vals. run_then (dt_visit t cs is) (\<lambda>out. Some (Ok ((i, vals) # out))))
       else dt_visit t cs is)"

definition dt_scan :: "displaced_table \<Rightarrow> subset \<Rightarrow> nat \<Rightarrow> nat \<Rightarrow> constrnt list \<Rightarrow> ((nat \<times> row) list \<times> nat option) comp" where
  "dt_scan t s start n cs =
     run_then (Some (iter_bounded s start (start + n))) (\<lambda>(vis, nxt).
     run_then (dt_visit t cs vis) (\<lambda>out. Some (Ok (out, nxt))))"

text \<open>\<open>retain\<close> calls \<open>eval\<close> on the rows of the subset in order.\<close>

fun dt_eval_rows :: "displaced_table \<Rightarrow> constrnt \<Rightarrow> nat list \<Rightarrow> unit comp" where
  "dt_eval_rows t c [] = Some (Ok ())"
| "dt_eval_rows t c (i # is) = run_then (dt_eval t c i) (\<lambda>_. dt_eval_rows t c is)"

definition dt_refine_one :: "displaced_table \<Rightarrow> subset \<Rightarrow> constrnt \<Rightarrow> subset comp" where
  "dt_refine_one t s c =
     run_then (dt_eval_rows t c (rows s)) (\<lambda>_. Some (retain s (\<lambda>i. dt_eval t c i = Some (Ok True))))"

text \<open>The loop that walks forward over equal timestamps.\<close>

function walk_on :: "nat list \<Rightarrow> nat \<Rightarrow> nat \<Rightarrow> nat" where
  "walk_on xs t i = (if i < length xs \<and> xs ! i = t then walk_on xs t (Suc i) else i)"
  by pat_completeness auto
termination
  by (relation "measure (\<lambda>(xs, t, i). length xs - i)") auto

declare walk_on.simps [simp del]

definition timestamp_bounds :: "search \<Rightarrow> displaced_table \<Rightarrow> val \<Rightarrow> (nat + nat \<times> nat) result" where
  "timestamp_bounds bs t v =
     (let ts = map snd (displaced t) in
      case bs ts v of
        Inr off \<Rightarrow>
          and_then (from_usize_u32 (walk_back ts 0 v off)) (\<lambda>s.
          and_then (from_usize_u32 (walk_on ts v off)) (\<lambda>e. Ok (Inr (s, e))))
      | Inl off \<Rightarrow> and_then (from_usize_u32 off) (\<lambda>s. Ok (Inl s)))"

definition dt_fast_subset :: "search \<Rightarrow> displaced_table \<Rightarrow> constrnt \<Rightarrow> subset option result" where
  "dt_fast_subset bs t c =
     (case c of
        CEq l r \<Rightarrow> Ok None
      | CEqConst col v \<Rightarrow>
          if col = 1 then Ok None
          else if col = 0 then
            (case lookup_table t v of
               Some i \<Rightarrow> and_then (from_usize_u32 (i + 1)) (\<lambda>e. Ok (Some (Dense (range_new i e))))
             | None \<Rightarrow> Ok (Some subset_empty))
          else and_then (timestamp_bounds bs t v) (\<lambda>b.
            case b of Inr (s, e) \<Rightarrow> Ok (Some (Dense (range_new s e))) | Inl _ \<Rightarrow> Ok None)
      | CLtConst col v \<Rightarrow>
          if col \<noteq> 2 then Ok None
          else and_then (timestamp_bounds bs t v) (\<lambda>b.
            Ok (Some (Dense (range_new 0 (case b of Inl s \<Rightarrow> s | Inr (s, e) \<Rightarrow> s)))))
      | CGtConst col v \<Rightarrow>
          if col \<noteq> 2 then Ok None
          else and_then (timestamp_bounds bs t v) (\<lambda>b.
               and_then (from_usize_u32 (dt_len t)) (\<lambda>n.
            Ok (Some (Dense (range_new (case b of Inl s \<Rightarrow> s | Inr (s, e) \<Rightarrow> e) n)))))
      | CLeConst col v \<Rightarrow>
          if col \<noteq> 2 then Ok None
          else and_then (timestamp_bounds bs t v) (\<lambda>b.
            Ok (Some (Dense (range_new 0 (case b of Inl s \<Rightarrow> s | Inr (s, e) \<Rightarrow> e)))))
      | CGeConst col v \<Rightarrow>
          if col \<noteq> 2 then Ok None
          else and_then (timestamp_bounds bs t v) (\<lambda>b.
               and_then (from_usize_u32 (dt_len t)) (\<lambda>n.
            Ok (Some (Dense (range_new (case b of Inl s \<Rightarrow> s | Inr (s, e) \<Rightarrow> s) n))))))"

definition dt_get_row :: "displaced_table \<Rightarrow> val list \<Rightarrow> (nat \<times> row) option comp" where
  "dt_get_row t key =
     (if length key \<noteq> 1 then Some (Err AssertFailed)
      else case lookup_table t (key ! 0) of
        None \<Rightarrow> Some (Ok None)
      | Some i \<Rightarrow> run_then (dt_expand t i) (\<lambda>vals. Some (Ok (Some (i, vals)))))"

definition dt_get_row_column :: "displaced_table \<Rightarrow> val list \<Rightarrow> nat \<Rightarrow> val option comp" where
  "dt_get_row_column t key col =
     (if length key \<noteq> 1 then Some (Err AssertFailed)
      else if col = 1 then run_then (uf_find_naive (dt_uf t) (key ! 0)) (\<lambda>r. Some (Ok (Some r)))
      else case lookup_table t (key ! 0) of
        None \<Rightarrow> Some (Ok None)
      | Some i \<Rightarrow> run_then (dt_expand t i) (\<lambda>vals. run_then (Some (vec_get vals col)) (\<lambda>v. Some (Ok (Some v)))))"

subsection \<open>Inserting\<close>

definition publish_displaced :: "displaced_table \<Rightarrow> val \<Rightarrow> val \<Rightarrow> displaced_table result" where
  "publish_displaced t child ts =
     (if displaced t \<noteq> [] \<and> \<not> snd (last (displaced t)) \<le> ts then Err AssertFailed
      else and_then (from_usize_u32 (dt_len t)) (\<lambda>i.
        Ok (t\<lparr>displaced := displaced t @ [(child, ts)], lookup_table := (lookup_table t)(child \<mapsto> i)\<rparr>)))"

definition insert_impl :: "displaced_table \<Rightarrow> row \<Rightarrow> ((val \<times> val) option \<times> displaced_table) comp" where
  "insert_impl t r =
     (if length r \<noteq> 3 then Some (Err AssertFailed)
      else
        run_then (uf_find (dt_uf t) (r ! 0)) (\<lambda>(a, u).
        run_then (uf_find u (r ! 1)) (\<lambda>(b, u).
          if a = b then Some (Ok (None, t\<lparr>dt_uf := u\<rparr>))
          else
            run_then (uf_union u (r ! 0) (r ! 1)) (\<lambda>((parent, child), u).
            run_then (uf_find u parent) (\<lambda>(_, u).
            run_then (uf_find u child) (\<lambda>(_, u).
            run_then (Some (publish_displaced (t\<lparr>dt_uf := u\<rparr>) child (r ! 2))) (\<lambda>t.
              Some (Ok (Some (parent, child), t)))))))))"

text \<open>The loop body of a serial merge.\<close>

fun insert_rows :: "displaced_table \<Rightarrow> row list \<Rightarrow> displaced_table comp" where
  "insert_rows t [] = Some (Ok t)"
| "insert_rows t (r # rs) =
     run_then (insert_impl t r) (\<lambda>(res, t). insert_rows (t\<lparr>dt_changed := dt_changed t \<or> res \<noteq> None\<rparr>) rs)"

fun insert_buffers :: "displaced_table \<Rightarrow> row_buffer list \<Rightarrow> displaced_table comp" where
  "insert_buffers t [] = Some (Ok t)"
| "insert_buffers t (b # bs) =
     run_then (Some (buf_iter b)) (\<lambda>rs. run_then (insert_rows t rs) (\<lambda>t. insert_buffers t bs))"

text \<open>The change flag is taken: it is reset and returned.\<close>

definition take_change :: "displaced_table \<Rightarrow> bool \<times> displaced_table" where
  "take_change t = (dt_changed t, t\<lparr>dt_changed := False\<rparr>)"

text \<open>A merge that stays serial: one thread, or few staged rows.\<close>

definition merge_serial :: "displaced_table \<Rightarrow> (bool \<times> displaced_table) comp" where
  "merge_serial t =
     run_then (insert_buffers (t\<lparr>buffered_writes := []\<rparr>) (buffered_writes t)) (\<lambda>t. Some (Ok (take_change t)))"

subsection \<open>Parallel merges\<close>

record union_chunk =
  uc_buffer :: nat
  uc_start :: nat
  uc_end :: nat

text \<open>The chunks of a group are the positions from \<open>tg_from\<close> to below \<open>tg_to\<close>.\<close>

record ts_group =
  tg_timestamp :: val
  tg_from :: nat
  tg_to :: nat
  tg_rows :: nat
  tg_max :: val

definition parallel_union_threshold_rows :: nat where
  "parallel_union_threshold_rows = 16 * 1024"

definition parallel_union_chunk_rows :: nat where
  "parallel_union_chunk_rows = 16 * 1024"

definition small_parallel_union_chunk_rows :: nat where
  "small_parallel_union_chunk_rows = 2 * 1024"

text \<open>\<open>(start..end).step_by(n)\<close> with the end of each chunk.\<close>

function step_chunks :: "nat \<Rightarrow> nat \<Rightarrow> nat \<Rightarrow> nat \<Rightarrow> union_chunk list" where
  "step_chunks n bi st en =
     (if st < en \<and> 0 < n
      then \<lparr>uc_buffer = bi, uc_start = st, uc_end = min (st + n) en\<rparr> # step_chunks n bi (st + n) en
      else [])"
  by pat_completeness auto
termination
  by (relation "measure (\<lambda>(n, bi, st, en). en - st)") auto

declare step_chunks.simps [simp del]

definition push_union_run :: "nat \<Rightarrow> nat \<Rightarrow> nat \<Rightarrow> nat \<Rightarrow> val \<Rightarrow> val \<Rightarrow> union_chunk list \<times> ts_group list \<Rightarrow> union_chunk list \<times> ts_group list" where
  "push_union_run threads bi st en ts mx = (\<lambda>(chs, groups).
     let groups =
           (if groups \<noteq> [] \<and> tg_timestamp (last groups) = ts then groups
            else groups @ [\<lparr>tg_timestamp = ts, tg_from = length chs, tg_to = length chs, tg_rows = 0, tg_max = mx\<rparr>]);
         g = last groups;
         n = (if en - st < parallel_union_chunk_rows * threads
              then small_parallel_union_chunk_rows else parallel_union_chunk_rows);
         chs = chs @ step_chunks n bi st en in
     (chs, butlast groups @ [g\<lparr>tg_to := length chs, tg_rows := tg_rows g + (en - st), tg_max := max (tg_max g) mx\<rparr>]))"

text \<open>
  The loop over the rows of one buffer of \<open>len\<close> rows: \<open>i\<close> is the index of the next row, \<open>st\<close> the start of the
  run of equal timestamps, and \<open>cur\<close> its timestamp and largest id once it has a row.
\<close>

fun union_runs :: "nat \<Rightarrow> nat \<Rightarrow> nat \<Rightarrow> row list \<Rightarrow> nat \<Rightarrow> nat \<Rightarrow> (val \<times> val) option \<Rightarrow>
    union_chunk list \<times> ts_group list \<Rightarrow> union_chunk list \<times> ts_group list" where
  "union_runs threads bi len [] i st cur w =
     (case cur of None \<Rightarrow> w | Some (ts, mx) \<Rightarrow> push_union_run threads bi st len ts mx w)"
| "union_runs threads bi len (r # rs) i st cur w =
     (let row_max = max (r ! 0) (r ! 1) in
      case cur of
        None \<Rightarrow> union_runs threads bi len rs (Suc i) st (Some (r ! 2, row_max)) w
      | Some (ts, mx) \<Rightarrow>
          if ts \<noteq> r ! 2
          then union_runs threads bi len rs (Suc i) i (Some (r ! 2, row_max)) (push_union_run threads bi st i ts mx w)
          else union_runs threads bi len rs (Suc i) st (Some (r ! 2, max mx row_max)) w)"

fun union_work :: "nat \<Rightarrow> nat \<Rightarrow> row_buffer list \<Rightarrow> union_chunk list \<times> ts_group list \<Rightarrow> (union_chunk list \<times> ts_group list) result" where
  "union_work threads bi [] w = Ok w"
| "union_work threads bi (b # bs) w =
     (if buf_arity b \<noteq> 3 then Err AssertFailed
      else and_then (buf_iter b) (\<lambda>rs. union_work threads (Suc bi) bs (union_runs threads bi (buf_len b) rs 0 0 None w)))"

text \<open>The rows of a chunk, as the loops over \<open>chunk.start..chunk.end\<close> read them.\<close>

definition chunk_rows :: "row_buffer list \<Rightarrow> union_chunk \<Rightarrow> row list result" where
  "chunk_rows bufs ch =
     and_then (vec_get bufs (uc_buffer ch)) (\<lambda>b. map_result (buf_get_row b) [uc_start ch..<uc_end ch])"

definition group_rows :: "row_buffer list \<Rightarrow> union_chunk list \<Rightarrow> ts_group \<Rightarrow> row list result" where
  "group_rows bufs chs g =
     and_then (vec_slice chs (tg_from g) (tg_to g)) (\<lambda>cs.
     and_then (map_result (chunk_rows bufs) cs) (\<lambda>rss. Ok (concat rss)))"

text \<open>The children of the successful unions are published one by one.\<close>

fun publish_all :: "displaced_table \<Rightarrow> val list \<Rightarrow> val \<Rightarrow> displaced_table result" where
  "publish_all t [] ts = Ok t"
| "publish_all t (c # cs) ts = and_then (publish_displaced t c ts) (\<lambda>t. publish_all (t\<lparr>dt_changed := True\<rparr>) cs ts)"

text \<open>
  A group of rows of one timestamp.  A small group is inserted row by row; the unions of a large
  group run on the atomic view of the union-find, in any interleaving of its workers.
\<close>

inductive merge_group :: "row_buffer list \<Rightarrow> union_chunk list \<Rightarrow> displaced_table \<Rightarrow> ts_group \<Rightarrow> displaced_table \<Rightarrow> bool"
  for bufs chs where
  group_serial: "tg_rows g \<le> parallel_union_threshold_rows \<Longrightarrow> group_rows bufs chs g = Ok rs \<Longrightarrow>
    insert_rows t rs = Some (Ok t') \<Longrightarrow> merge_group bufs chs t g t'"
| group_parallel: "parallel_union_threshold_rows < tg_rows g \<Longrightarrow> group_rows bufs chs g = Ok rs \<Longrightarrow>
    creach (atomic_start (dt_uf t) (tg_max g) (map (\<lambda>r. (r ! 0, r ! 1)) rs)) \<sigma> \<Longrightarrow> all_returned \<sigma> \<Longrightarrow>
    publish_all (t\<lparr>dt_uf := atomic_finish (dt_uf t) \<sigma>\<rparr>) (returned_children \<sigma>) (tg_timestamp g) = Ok t' \<Longrightarrow>
    merge_group bufs chs t g t'"

inductive merge_groups :: "row_buffer list \<Rightarrow> union_chunk list \<Rightarrow> displaced_table \<Rightarrow> ts_group list \<Rightarrow> displaced_table \<Rightarrow> bool"
  for bufs chs where
  groups_done: "merge_groups bufs chs t [] t"
| groups_next: "merge_group bufs chs t g t1 \<Longrightarrow> merge_groups bufs chs t1 gs t2 \<Longrightarrow> merge_groups bufs chs t (g # gs) t2"

text \<open>The outcomes of \<open>merge\<close>.\<close>

inductive dt_merge :: "nat \<Rightarrow> displaced_table \<Rightarrow> bool \<times> displaced_table \<Rightarrow> bool" for threads where
  merge_one_thread: "threads < 2 \<Longrightarrow> merge_serial t = Some (Ok out) \<Longrightarrow> dt_merge threads t out"
| merge_few_rows: "2 \<le> threads \<Longrightarrow> sum_list (map buf_len (buffered_writes t)) \<le> parallel_union_threshold_rows \<Longrightarrow>
    merge_serial t = Some (Ok out) \<Longrightarrow> dt_merge threads t out"
| merge_in_groups: "2 \<le> threads \<Longrightarrow> parallel_union_threshold_rows < sum_list (map buf_len (buffered_writes t)) \<Longrightarrow>
    union_work threads 0 (buffered_writes t) ([], []) = Ok (chs, groups) \<Longrightarrow>
    merge_groups (buffered_writes t) chs (t\<lparr>buffered_writes := []\<rparr>) groups t' \<Longrightarrow>
    dt_merge threads t (take_change t')"

section \<open>The invariant\<close>

text \<open>The index agrees with the rows, and the rows are in the order of their timestamps.\<close>

definition index_ok :: "displaced_table \<Rightarrow> bool" where
  "index_ok t \<longleftrightarrow> distinct (map fst (displaced t)) \<and> sorted (map snd (displaced t)) \<and>
     (\<forall>c i. lookup_table t c = Some i \<longleftrightarrow> i < dt_len t \<and> fst (displaced t ! i) = c)"

text \<open>An id has a row if and only if it is not canonical.\<close>

definition dt_wf :: "displaced_table \<Rightarrow> bool" where
  "dt_wf t \<longleftrightarrow> uf_wf (dt_uf t) \<and> index_ok t \<and> (\<forall>c. c \<in> fst ` set (displaced t) \<longleftrightarrow> uf_rep (dt_uf t) c \<noteq> c)"

text \<open>\<open>ts\<close> is not before the last row.\<close>

definition not_before :: "displaced_table \<Rightarrow> val \<Rightarrow> bool" where
  "not_before t ts \<longleftrightarrow> (\<forall>(c, x) \<in> set (displaced t). x \<le> ts)"

lemma dt_wf_default: "dt_wf dt_default"
  by (simp add: dt_wf_def index_ok_def dt_default_def dt_len_def)

lemma publish_index:
  assumes "index_ok t" "c \<notin> fst ` set (displaced t)" "not_before t ts" "dt_len t \<le> u32_max"
  shows "\<exists>t'. publish_displaced t c ts = Ok t' \<and> index_ok t' \<and> displaced t' = displaced t @ [(c, ts)] \<and>
    t' = t\<lparr>displaced := displaced t', lookup_table := lookup_table t'\<rparr>"
proof -
  let ?t = "t\<lparr>displaced := displaced t @ [(c, ts)], lookup_table := (lookup_table t)(c \<mapsto> dt_len t)\<rparr>"
  have "\<not> (displaced t \<noteq> [] \<and> \<not> snd (last (displaced t)) \<le> ts)"
    using assms(3) last_in_set [of "displaced t"] by (cases "last (displaced t)") (auto simp: not_before_def)
  then have "publish_displaced t c ts = Ok ?t" using assms(4) by (simp add: publish_displaced_def)
  moreover have "index_ok ?t"
  proof -
    have "fst (displaced t ! i) \<noteq> c" if "i < dt_len t" for i using assms(2) that by (force simp: dt_len_def)
    then have "(lookup_table ?t x = Some i) = (i < dt_len ?t \<and> fst (displaced ?t ! i) = x)" for x i
      using assms(1) by (auto simp: index_ok_def dt_len_def nth_append less_Suc_eq split: if_splits)
    with assms(1-3) show ?thesis by (auto simp: index_ok_def sorted_append not_before_def)
  qed
  ultimately show ?thesis by (intro exI [of _ ?t]) simp
qed

lemma publish_all_index:
  "index_ok t \<Longrightarrow> distinct cs \<Longrightarrow> set cs \<inter> fst ` set (displaced t) = {} \<Longrightarrow> not_before t ts \<Longrightarrow>
   dt_len t + length cs \<le> Suc u32_max \<Longrightarrow>
   \<exists>t'. publish_all t cs ts = Ok t' \<and> index_ok t' \<and> displaced t' = displaced t @ map (\<lambda>c. (c, ts)) cs \<and>
     dt_uf t' = dt_uf t \<and> buffered_writes t' = buffered_writes t \<and> dt_changed t' = (dt_changed t \<or> cs \<noteq> [])"
proof (induction cs arbitrary: t)
  case (Cons c cs)
  from publish_index [of t c ts] Cons.prems obtain t1 where
    t1: "publish_displaced t c ts = Ok t1" "index_ok t1" "displaced t1 = displaced t @ [(c, ts)]"
    "t1 = t\<lparr>displaced := displaced t1, lookup_table := lookup_table t1\<rparr>" by auto
  let ?t = "t1\<lparr>dt_changed := True\<rparr>"
  have same: "dt_uf t1 = dt_uf t" "buffered_writes t1 = buffered_writes t" by (subst t1(4), simp)+
  have "index_ok ?t" "not_before ?t ts" "set cs \<inter> fst ` set (displaced ?t) = {}" "dt_len ?t + length cs \<le> Suc u32_max"
    using t1(2,3) Cons.prems by (auto simp: index_ok_def not_before_def dt_len_def)
  with Cons.IH [of ?t] Cons.prems(2) same t1(1,3) show ?case by (auto simp del: split_paired_Ex)
qed auto

section \<open>Steps that displace ids\<close>

text \<open>
  What a batch of unions of one timestamp does to a table, whether it is one row or a parallel
  group: the ids that cease to be canonical get a row with the timestamp.
\<close>

definition displaces :: "displaced_table \<Rightarrow> (val \<times> val) list \<Rightarrow> val \<Rightarrow> displaced_table \<Rightarrow> bool" where
  "displaces t ps ts t' \<longleftrightarrow>
     dt_wf t' \<and> uf_rel (dt_uf t') = eq_closure (uf_rel (dt_uf t) \<union> set ps) \<and> buffered_writes t' = buffered_writes t \<and>
     (\<exists>cs. displaced t' = displaced t @ map (\<lambda>c. (c, ts)) cs \<and> length cs \<le> length ps \<and>
        set cs = {c. uf_rep (dt_uf t) c = c \<and> uf_rep (dt_uf t') c \<noteq> c} \<and> dt_changed t' = (dt_changed t \<or> cs \<noteq> []))"

lemma publish_displaces:
  assumes wf: "dt_wf t" and nb: "not_before t ts" and u: "uf_wf u" "uf_rel u = eq_closure (uf_rel (dt_uf t) \<union> set ps)"
    and cs: "distinct cs" "set cs = {c. uf_rep (dt_uf t) c = c \<and> uf_rep u c \<noteq> c}" "length cs \<le> length ps"
    and room: "dt_len t + length ps \<le> Suc u32_max"
  shows "\<exists>t'. publish_all (t\<lparr>dt_uf := u\<rparr>) cs ts = Ok t' \<and> displaces t ps ts t'"
proof -
  let ?t = "t\<lparr>dt_uf := u\<rparr>"
  have idx: "index_ok ?t" using wf by (simp add: dt_wf_def index_ok_def dt_len_def)
  have dis: "c \<in> fst ` set (displaced t) \<longleftrightarrow> uf_rep (dt_uf t) c \<noteq> c" for c using wf by (simp add: dt_wf_def)
  have "set cs \<inter> fst ` set (displaced ?t) = {}" using cs(2) dis by auto
  from publish_all_index [OF idx cs(1) this, of ts] nb cs(3) room obtain t' where
    t': "publish_all ?t cs ts = Ok t'" "index_ok t'" "displaced t' = displaced t @ map (\<lambda>c. (c, ts)) cs"
      "dt_uf t' = u" "buffered_writes t' = buffered_writes t" "dt_changed t' = (dt_changed t \<or> cs \<noteq> [])"
    by (auto simp: not_before_def dt_len_def)
  have "c \<in> fst ` set (displaced t') \<longleftrightarrow> uf_rep u c \<noteq> c" for c
  proof -
    have "uf_rep u c \<noteq> c" if "uf_rep (dt_uf t) c \<noteq> c"
    proof -
      have "(c, uf_rep (dt_uf t) c) \<in> uf_rel u"
        unfolding u(2) by (rule eq_closure_base) (simp add: uf_rel_def)
      then have "uf_rep u c \<le> uf_rep (dt_uf t) c"
        using canonical_least [OF uf_rep_canonical] by (simp add: uf_rel_ker)
      with that uf_rep_le [of "dt_uf t" c] show ?thesis by simp
    qed
    with cs(2) dis [of c] t'(3) show ?thesis by (auto simp: image_Un image_image)
  qed
  with t' u cs show ?thesis by (auto simp: displaces_def dt_wf_def)
qed

lemma insert_impl_displaces:
  assumes wf: "dt_wf t" and r: "length r = 3" and nb: "not_before t (r ! 2)" and room: "dt_len t \<le> u32_max"
  shows "\<exists>res t'. insert_impl t r = Some (Ok (res, t')) \<and>
    displaces t [(r ! 0, r ! 1)] (r ! 2) (t'\<lparr>dt_changed := dt_changed t' \<or> res \<noteq> None\<rparr>)"
proof -
  let ?a = "r ! 0" and ?b = "r ! 1"
  have uw: "uf_wf (dt_uf t)" using wf by (simp add: dt_wf_def)
  obtain u1 where u1: "uf_find (dt_uf t) ?a = Some (Ok (uf_rep (dt_uf t) ?a, u1))" "uf_wf u1" "\<And>x. uf_rep u1 x = uf_rep (dt_uf t) x"
    by (rule uf_find_rep [OF uw, of ?a]) simp
  obtain u2 where u2: "uf_find u1 ?b = Some (Ok (uf_rep (dt_uf t) ?b, u2))" "uf_wf u2" "\<And>x. uf_rep u2 x = uf_rep (dt_uf t) x"
    by (rule uf_find_rep [OF u1(2), of ?b]) (simp add: u1(3))
  have rep2: "uf_rep u2 = uf_rep (dt_uf t)" using u2(3) by blast
  show ?thesis
  proof (cases "uf_rep (dt_uf t) ?a = uf_rep (dt_uf t) ?b")
    case True
    then have "(?a, ?b) \<in> uf_rel (dt_uf t)" by (simp add: uf_rel_def)
    then have rel: "uf_rel u2 = eq_closure (uf_rel (dt_uf t) \<union> set [(?a, ?b)])"
      using rep2 by (simp add: uf_rel_ker insert_absorb)
    have "{c. uf_rep (dt_uf t) c = c \<and> uf_rep u2 c \<noteq> c} = {}" by (auto simp: rep2)
    with publish_displaces [OF wf nb u2(2) rel, of "[]"] room
    have "displaces t [(?a, ?b)] (r ! 2) (t\<lparr>dt_uf := u2\<rparr>)" by auto
    moreover have "insert_impl t r = Some (Ok (None, t\<lparr>dt_uf := u2\<rparr>))" using r u1(1) u2(1) True by (simp add: insert_impl_def)
    ultimately show ?thesis by (intro exI [of _ None] exI [of _ "t\<lparr>dt_uf := u2\<rparr>"]) simp
  next
    case False
    let ?p = "min (uf_rep (dt_uf t) ?a) (uf_rep (dt_uf t) ?b)" and ?c = "max (uf_rep (dt_uf t) ?a) (uf_rep (dt_uf t) ?b)"
    obtain u3 where u3: "uf_union u2 ?a ?b = Some (Ok ((?p, ?c), u3))" "uf_wf u3"
      "\<And>x. uf_rep u3 x = union_rep (uf_rep (dt_uf t)) ?a ?b x"
      by (rule uf_union_rep [OF u2(2), of ?a ?b]) (simp add: rep2)
    obtain u4 where u4: "uf_find u3 ?p = Some (Ok (uf_rep u3 ?p, u4))" "uf_wf u4" "\<And>x. uf_rep u4 x = uf_rep u3 x"
      by (rule uf_find_rep [OF u3(2), of ?p]) simp
    obtain u5 where u5: "uf_find u4 ?c = Some (Ok (uf_rep u4 ?c, u5))" "uf_wf u5" "\<And>x. uf_rep u5 x = uf_rep u4 x"
      by (rule uf_find_rep [OF u4(2), of ?c]) simp
    have rep5: "uf_rep u5 = union_rep (uf_rep (dt_uf t)) ?a ?b" using u3(3) u4(3) u5(3) by auto
    have rel: "uf_rel u5 = eq_closure (uf_rel (dt_uf t) \<union> set [(?a, ?b)])"
      using rep5 by (simp add: uf_rel_ker ker_union_rep uf_rep_canonical)
    have lost: "set [?c] = {c. uf_rep (dt_uf t) c = c \<and> uf_rep u5 c \<noteq> c}"
      using False by (auto simp: rep5 union_rep_def min_def max_def split: if_splits)
    from publish_displaces [OF wf nb u5(2) rel _ lost] room obtain t' where
      t': "publish_all (t\<lparr>dt_uf := u5\<rparr>) [?c] (r ! 2) = Ok t'" "displaces t [(?a, ?b)] (r ! 2) t'" by auto
    then obtain t1 where t1: "publish_displaced (t\<lparr>dt_uf := u5\<rparr>) ?c (r ! 2) = Ok t1" "t' = t1\<lparr>dt_changed := True\<rparr>"
      by (auto elim!: and_then_OkE)
    have "insert_impl t r = Some (Ok (Some (?p, ?c), t1))"
      using r u1(1) u2(1) u3(1) u4(1) u5(1) t1(1) False by (simp add: insert_impl_def)
    with t'(2) t1(2) show ?thesis by (intro exI [of _ "Some (?p, ?c)"] exI [of _ t1]) simp
  qed
qed

inductive displaced_run :: "displaced_table \<Rightarrow> ((val \<times> val) list \<times> val) list \<Rightarrow> displaced_table \<Rightarrow> bool" where
  run_done: "displaced_run t [] t"
| run_step: "displaces t ps ts t1 \<Longrightarrow> displaced_run t1 steps t2 \<Longrightarrow> displaced_run t ((ps, ts) # steps) t2"

lemma displaced_run_append:
  "displaced_run t xs t1 \<Longrightarrow> displaced_run t1 ys t2 \<Longrightarrow> displaced_run t (xs @ ys) t2"
  by (induction rule: displaced_run.induct) (auto intro: run_step)

abbreviation row_step :: "row \<Rightarrow> (val \<times> val) list \<times> val" where
  "row_step r \<equiv> ([(r ! 0, r ! 1)], r ! 2)"

lemma displaces_next:
  assumes "displaces t ps ts t'" "not_before t ts" "ts \<le> ts'"
  shows "dt_wf t'" "not_before t' ts'" "dt_len t' \<le> dt_len t + length ps"
  using assms by (fastforce simp: displaces_def not_before_def dt_len_def)+

lemma insert_rows_run:
  "dt_wf t \<Longrightarrow> \<forall>r \<in> set rs. length r = 3 \<Longrightarrow> sorted (map (\<lambda>r. r ! 2) rs) \<Longrightarrow> \<forall>r \<in> set rs. not_before t (r ! 2) \<Longrightarrow>
   dt_len t + length rs \<le> Suc u32_max \<Longrightarrow>
   \<exists>t'. insert_rows t rs = Some (Ok t') \<and> displaced_run t (map row_step rs) t'"
proof (induction rs arbitrary: t)
  case Nil
  then show ?case by (auto intro: run_done)
next
  case (Cons r rs)
  from insert_impl_displaces [of t r] Cons.prems obtain res t1 where
    t1: "insert_impl t r = Some (Ok (res, t1))" "displaces t [(r ! 0, r ! 1)] (r ! 2) (t1\<lparr>dt_changed := dt_changed t1 \<or> res \<noteq> None\<rparr>)"
    by auto
  let ?t = "t1\<lparr>dt_changed := dt_changed t1 \<or> res \<noteq> None\<rparr>"
  have "not_before t (r ! 2)" using Cons.prems by simp
  note nx = displaces_next [OF t1(2) this]
  have "\<forall>q \<in> set rs. not_before ?t (q ! 2)" using Cons.prems(3) nx(2) by simp
  moreover have "dt_len ?t + length rs \<le> Suc u32_max" using nx(3) [of "r ! 2"] Cons.prems(5) by simp
  ultimately obtain t' where "insert_rows ?t rs = Some (Ok t')" "displaced_run ?t (map row_step rs) t'"
    using Cons.IH [of ?t] nx(1) [of "r ! 2"] Cons.prems by auto
  with t1 show ?case by (auto intro: run_step)
qed

section \<open>What a run records\<close>

text \<open>The pairs of the steps whose timestamp satisfies \<open>P\<close>, and what follows from them.\<close>

definition step_pairs :: "((val \<times> val) list \<times> val) list \<Rightarrow> (val \<Rightarrow> bool) \<Rightarrow> (val \<times> val) set" where
  "step_pairs steps P = (\<Union>(ps, ts) \<in> set steps. if P ts then set ps else {})"

definition least_in :: "(val \<times> val) set \<Rightarrow> val \<Rightarrow> bool" where
  "least_in R c \<longleftrightarrow> (\<forall>x. (c, x) \<in> R \<longrightarrow> c \<le> x)"

lemma least_in_rep: "uf_rep u c = c \<longleftrightarrow> least_in (uf_rel u) c"
proof
  show "least_in (uf_rel u) c" if "uf_rep u c = c"
    using that uf_rep_le [of u] by (auto simp: least_in_def uf_rel_def)
  have "(c, uf_rep u c) \<in> uf_rel u" by (simp add: uf_rel_def)
  then show "uf_rep u c = c" if "least_in (uf_rel u) c"
    using that uf_rep_le [of u c] by (fastforce simp: least_in_def)
qed

lemma least_in_mono: "R \<subseteq> S \<Longrightarrow> least_in S c \<Longrightarrow> least_in R c"
  by (auto simp: least_in_def)

text \<open>
  The table after a run: its rows are those before and new ones for exactly the ids that were
  canonical and are not any more; each id is recorded at the first time at which the unions up to
  then make it non-canonical.
\<close>

definition records :: "displaced_table \<Rightarrow> (val \<Rightarrow> (val \<times> val) set) \<Rightarrow> (val \<Rightarrow> (val \<times> val) set) \<Rightarrow> (val \<times> val) set \<Rightarrow> displaced_table \<Rightarrow> bool" where
  "records t before until every t' \<longleftrightarrow>
     dt_wf t' \<and> uf_rel (dt_uf t') = eq_closure (uf_rel (dt_uf t) \<union> every) \<and>
     (\<exists>new. displaced t' = displaced t @ new \<and> dt_changed t' = (dt_changed t \<or> new \<noteq> []) \<and>
        fst ` set new = {c. uf_rep (dt_uf t) c = c \<and> uf_rep (dt_uf t') c \<noteq> c} \<and>
        (\<forall>(c, ts) \<in> set new. least_in (eq_closure (uf_rel (dt_uf t) \<union> before ts)) c \<and>
           \<not> least_in (eq_closure (uf_rel (dt_uf t) \<union> until ts)) c))"

lemma step_pairs_Cons: "step_pairs ((ps, ts) # steps) P = (if P ts then set ps else {}) \<union> step_pairs steps P"
  by (simp add: step_pairs_def)

lemma run_records:
  "displaced_run t steps t' \<Longrightarrow> dt_wf t \<Longrightarrow> sorted (map snd steps) \<Longrightarrow>
   records t (\<lambda>ts. step_pairs steps (\<lambda>x. x < ts)) (\<lambda>ts. step_pairs steps (\<lambda>x. x \<le> ts)) (step_pairs steps (\<lambda>_. True)) t'
   \<and> buffered_writes t' = buffered_writes t"
proof (induction rule: displaced_run.induct)
  case (run_done t)
  then show ?case by (simp add: records_def step_pairs_def uf_rel_ker)
next
  case (run_step t ps ts t1 steps t2)
  let ?E = "\<lambda>X. eq_closure (uf_rel (dt_uf t) \<union> X)"
  let ?all = "(ps, ts) # steps"
  from run_step.hyps(1) obtain cs where d: "dt_wf t1" "uf_rel (dt_uf t1) = ?E (set ps)" "buffered_writes t1 = buffered_writes t"
    "displaced t1 = displaced t @ map (\<lambda>c. (c, ts)) cs"
    "set cs = {c. uf_rep (dt_uf t) c = c \<and> uf_rep (dt_uf t1) c \<noteq> c}" "dt_changed t1 = (dt_changed t \<or> cs \<noteq> [])"
    by (auto simp: displaces_def)
  from run_step.IH [OF d(1)] run_step.prems obtain new where
    n: "dt_wf t2" "uf_rel (dt_uf t2) = eq_closure (uf_rel (dt_uf t1) \<union> step_pairs steps (\<lambda>_. True))"
      "buffered_writes t2 = buffered_writes t1" "displaced t2 = displaced t1 @ new" "dt_changed t2 = (dt_changed t1 \<or> new \<noteq> [])"
      "fst ` set new = {c. uf_rep (dt_uf t1) c = c \<and> uf_rep (dt_uf t2) c \<noteq> c}"
      "\<forall>(c, x) \<in> set new. least_in (eq_closure (uf_rel (dt_uf t1) \<union> step_pairs steps (\<lambda>y. y < x))) c \<and>
         \<not> least_in (eq_closure (uf_rel (dt_uf t1) \<union> step_pairs steps (\<lambda>y. y \<le> x))) c"
    unfolding records_def by auto
  have n7: "least_in (eq_closure (uf_rel (dt_uf t1) \<union> step_pairs steps (\<lambda>y. y < x))) c \<and>
      \<not> least_in (eq_closure (uf_rel (dt_uf t1) \<union> step_pairs steps (\<lambda>y. y \<le> x))) c" if "(c, x) \<in> set new" for c x
    using n(7) that by blast
  have later: "ts \<le> y" if "(qs, y) \<in> set steps" for qs y using run_step.prems(2) that by force
  have absorb: "eq_closure (uf_rel (dt_uf t1) \<union> X) = ?E (set ps \<union> X)" for X
    by (simp add: d(2) eq_closure_absorb Un_assoc)
  have mono: "uf_rel (dt_uf t) \<subseteq> uf_rel (dt_uf t1)" "uf_rel (dt_uf t1) \<subseteq> uf_rel (dt_uf t2)"
    unfolding d(2) n(2) by (auto intro: eq_closure_base)
  let ?new = "map (\<lambda>c. (c, ts)) cs @ new"
  have lost: "fst ` set ?new = {c. uf_rep (dt_uf t) c = c \<and> uf_rep (dt_uf t2) c \<noteq> c}"
    using d(5) n(6) least_in_mono [OF mono(1)] least_in_mono [OF mono(2)]
    by (auto simp: image_Un image_image least_in_rep)
  have first: "least_in (?E (step_pairs ?all (\<lambda>y. y < x))) c \<and> \<not> least_in (?E (step_pairs ?all (\<lambda>y. y \<le> x))) c"
    if "(c, x) \<in> set ?new" for c x
  proof (cases "(c, x) \<in> set new")
    case True
    have "ts \<le> x"
    proof (rule ccontr)
      assume "\<not> ts \<le> x"
      then have "step_pairs steps (\<lambda>y. y \<le> x) = {}" using later by (fastforce simp: step_pairs_def)
      with n7 [OF True] have "\<not> least_in (uf_rel (dt_uf t1)) c" by (simp add: uf_rel_ker)
      moreover have "uf_rep (dt_uf t1) c = c" using n(6) True by force
      ultimately show False by (simp add: least_in_rep)
    qed
    then have up: "step_pairs ?all (\<lambda>y. y \<le> x) = set ps \<union> step_pairs steps (\<lambda>y. y \<le> x)" by (simp add: step_pairs_Cons)
    have "?E (step_pairs ?all (\<lambda>y. y < x)) \<subseteq> ?E (set ps \<union> step_pairs steps (\<lambda>y. y < x))"
      by (intro eq_closure_mono) (auto simp: step_pairs_Cons)
    with n7 [OF True] up absorb show ?thesis by (auto intro: least_in_mono)
  next
    case False
    with that have c: "c \<in> set cs" "x = ts" by auto
    have "step_pairs steps (\<lambda>y. y < ts) = {}" using later by (fastforce simp: step_pairs_def)
    then have "?E (step_pairs ?all (\<lambda>y. y < ts)) = uf_rel (dt_uf t)" by (simp add: step_pairs_Cons uf_rel_ker)
    moreover have "uf_rel (dt_uf t1) \<subseteq> ?E (step_pairs ?all (\<lambda>y. y \<le> ts))"
      unfolding d(2) by (intro eq_closure_mono) (auto simp: step_pairs_Cons)
    ultimately show ?thesis using c d(5) least_in_mono by (auto simp: least_in_rep)
  qed
  have "records t (\<lambda>ts. step_pairs ?all (\<lambda>x. x < ts)) (\<lambda>ts. step_pairs ?all (\<lambda>x. x \<le> ts)) (step_pairs ?all (\<lambda>_. True)) t2"
    unfolding records_def
  proof (intro conjI exI [of _ ?new])
    show "uf_rel (dt_uf t2) = ?E (step_pairs ?all (\<lambda>_. True))" by (simp add: n(2) absorb step_pairs_Cons)
    show "\<forall>(c, ts) \<in> set ?new. least_in (?E (step_pairs ?all (\<lambda>x. x < ts))) c \<and> \<not> least_in (?E (step_pairs ?all (\<lambda>x. x \<le> ts))) c"
      using first by blast
  qed (use n d lost in auto)
  with n(3) d(3) show ?case by simp
qed

end
