(* ===== verification/DisplacedMerge.thy ===== *)
theory DisplacedMerge
  imports DisplacedTable
begin

text \<open>
  Merging the staged writes of a displaced table.  The work list of a parallel merge covers the
  staged rows, group by group and in their order; every outcome of a merge, serial or parallel and
  for any interleaving of the workers, records the same ids at the same times.
\<close>

section \<open>Chunks and groups\<close>

lemma map_result_eq_Ok: "map_result f xs = Ok ys \<longleftrightarrow> list_all2 (\<lambda>x y. f x = Ok y) xs ys"
  by (induction xs arbitrary: ys) (auto simp: and_then_eq_Ok_iff list_all2_Cons1)

lemma map_result_append:
  "map_result f xs = Ok ys \<Longrightarrow> map_result f zs = Ok ws \<Longrightarrow> map_result f (xs @ zs) = Ok (ys @ ws)"
  by (simp add: map_result_eq_Ok list_all2_appendI)

lemma chunk_rows_slice:
  assumes "bi < length bufs" "buf_wf (bufs ! bi)" "en \<le> length (buf_rows (bufs ! bi))"
  shows "chunk_rows bufs \<lparr>uc_buffer = bi, uc_start = st, uc_end = en\<rparr> = Ok (take (en - st) (drop st (buf_rows (bufs ! bi))))"
proof -
  let ?rs = "buf_rows (bufs ! bi)"
  have "map_result (buf_get_row (bufs ! bi)) [st..<en] = Ok (map ((!) ?rs) [st..<en])"
    using assms by (intro map_result_Ok) (simp add: get_row_holds [OF assms(2) [unfolded buf_wf_def]])
  moreover have "map ((!) ?rs) [st..<en] = take (en - st) (drop st ?rs)"
    using assms(3) by (intro nth_equalityI) auto
  ultimately show ?thesis using assms(1) by (simp add: chunk_rows_def)
qed

lemma step_chunks_rows:
  assumes "bi < length bufs" "buf_wf (bufs ! bi)" "en \<le> length (buf_rows (bufs ! bi))" "0 < n"
  shows "\<exists>rss. map_result (chunk_rows bufs) (step_chunks n bi st en) = Ok rss \<and>
    concat rss = take (en - st) (drop st (buf_rows (bufs ! bi)))"
  using assms
proof (induction n bi st en rule: step_chunks.induct)
  case (1 n bi st en)
  let ?rs = "buf_rows (bufs ! bi)"
  show ?case
  proof (cases "st < en")
    case True
    let ?ch = "\<lparr>uc_buffer = bi, uc_start = st, uc_end = min (st + n) en\<rparr>"
    from 1 True obtain rss where rss: "map_result (chunk_rows bufs) (step_chunks n bi (st + n) en) = Ok rss"
      "concat rss = take (en - (st + n)) (drop (st + n) ?rs)" by auto
    have ch: "chunk_rows bufs ?ch = Ok (take (min (st + n) en - st) (drop st ?rs))"
      using 1(2-4) by (intro chunk_rows_slice) auto
    have "take (min (st + n) en - st) (drop st ?rs) @ take (en - (st + n)) (drop (st + n) ?rs) = take (en - st) (drop st ?rs)"
    proof (cases "st + n \<le> en")
      case le: True
      then have "take (en - st) (drop st ?rs) = take (n + (en - (st + n))) (drop st ?rs)" by simp
      also have "\<dots> = take n (drop st ?rs) @ take (en - (st + n)) (drop n (drop st ?rs))" by (rule take_add)
      finally show ?thesis using le by (simp add: add.commute)
    qed simp
    with rss ch 1(5) True show ?thesis
      by (intro exI [of _ "take (min (st + n) en - st) (drop st ?rs) # rss"]) (simp add: step_chunks.simps [of n bi st en])
  qed (simp add: step_chunks.simps)
qed

text \<open>A group with the rows it stands for.\<close>

definition group_ok :: "row_buffer list \<Rightarrow> union_chunk list \<Rightarrow> ts_group \<Rightarrow> row list \<Rightarrow> bool" where
  "group_ok bufs chs g rs \<longleftrightarrow>
     tg_from g \<le> tg_to g \<and> tg_to g \<le> length chs \<and> group_rows bufs chs g = Ok rs \<and> tg_rows g = length rs \<and>
     (\<forall>r \<in> set rs. r ! 2 = tg_timestamp g \<and> max (r ! 0) (r ! 1) \<le> tg_max g)"

definition work_ok :: "row_buffer list \<Rightarrow> union_chunk list \<times> ts_group list \<Rightarrow> row list list \<Rightarrow> bool" where
  "work_ok bufs w rss \<longleftrightarrow> (case w of (chs, groups) \<Rightarrow>
     list_all2 (group_ok bufs chs) groups rss \<and> (\<forall>rs \<in> set rss. rs \<noteq> []) \<and> (groups \<noteq> [] \<longrightarrow> tg_to (last groups) = length chs))"

lemma group_rows_extend:
  assumes "tg_from g \<le> tg_to g" "tg_to g \<le> length chs"
  shows "group_rows bufs (chs @ extra) g = group_rows bufs chs g"
  using assms by (simp add: group_rows_def)

lemma group_ok_extend: "group_ok bufs chs g rs \<Longrightarrow> group_ok bufs (chs @ extra) g rs"
  by (auto simp: group_ok_def group_rows_extend)

lemma group_grows:
  assumes g: "group_ok bufs chs g rs" "tg_to g = length chs"
    and new: "map_result (chunk_rows bufs) extra = Ok rss" "\<forall>r \<in> set (concat rss). r ! 2 = tg_timestamp g \<and> max (r ! 0) (r ! 1) \<le> mx"
  shows "group_ok bufs (chs @ extra)
    (g\<lparr>tg_to := length (chs @ extra), tg_rows := tg_rows g + length (concat rss), tg_max := max (tg_max g) mx\<rparr>) (rs @ concat rss)"
proof -
  from g obtain old where old: "map_result (chunk_rows bufs) (take (tg_to g - tg_from g) (drop (tg_from g) chs)) = Ok old" "concat old = rs"
    by (auto simp: group_ok_def group_rows_def elim!: and_then_OkE)
  have "take (length (chs @ extra) - tg_from g) (drop (tg_from g) (chs @ extra)) = drop (tg_from g) chs @ extra"
    using g by (simp add: group_ok_def)
  moreover have "map_result (chunk_rows bufs) (drop (tg_from g) chs @ extra) = Ok (old @ rss)"
    using old(1) g(2) new(1) by (simp add: map_result_append)
  ultimately have "group_rows bufs (chs @ extra) (g\<lparr>tg_to := length (chs @ extra), tg_rows := tg_rows g + length (concat rss), tg_max := max (tg_max g) mx\<rparr>) = Ok (rs @ concat rss)"
    using g old(2) by (simp add: group_rows_def group_ok_def)
  with g new(2) show ?thesis by (auto simp: group_ok_def le_max_iff_disj)
qed

lemma push_run_ok:
  assumes w: "work_ok bufs w rss" and b: "bi < length bufs" "buf_wf (bufs ! bi)"
    and run: "st < en" "en \<le> length (buf_rows (bufs ! bi))"
    and rs: "rs = take (en - st) (drop st (buf_rows (bufs ! bi)))"
    and same: "\<forall>r \<in> set rs. r ! 2 = ts \<and> max (r ! 0) (r ! 1) \<le> mx"
  shows "\<exists>rss'. work_ok bufs (push_union_run threads bi st en ts mx w) rss' \<and> concat rss' = concat rss @ rs"
proof -
  obtain chs groups where w': "w = (chs, groups)" by (cases w)
  define n where "n = (if en - st < parallel_union_chunk_rows * threads then small_parallel_union_chunk_rows else parallel_union_chunk_rows)"
  define extra where "extra = step_chunks n bi st en"
  have "0 < n" by (simp add: n_def small_parallel_union_chunk_rows_def parallel_union_chunk_rows_def)
  from step_chunks_rows [OF b run(2) this, of st] obtain new where
    new: "map_result (chunk_rows bufs) extra = Ok new" "concat new = rs" unfolding extra_def rs by blast
  have len: "length (concat new) = en - st" using new(2) rs run by simp
  define g0 where "g0 = \<lparr>tg_timestamp = ts, tg_from = length chs, tg_to = length chs, tg_rows = 0, tg_max = mx\<rparr>"
  define fresh where "fresh \<longleftrightarrow> \<not> (groups \<noteq> [] \<and> tg_timestamp (last groups) = ts)"
  define gs where "gs = (if fresh then groups @ [g0] else groups)"
  define rss1 where "rss1 = (if fresh then rss @ [[]] else rss)"
  have g0: "group_ok bufs chs g0 []" by (simp add: g0_def group_ok_def group_rows_def)
  have l2: "list_all2 (group_ok bufs chs) groups rss" using w w' by (simp add: work_ok_def)
  have l3: "list_all2 (group_ok bufs chs) gs rss1"
    using l2 g0 by (auto simp: gs_def rss1_def list_all2_appendI)
  have gs: "gs \<noteq> []" "tg_timestamp (last gs) = ts" "tg_to (last gs) = length chs"
    using w w' by (auto simp: gs_def fresh_def g0_def work_ok_def)
  have ne: "rss1 \<noteq> []" using l3 gs(1) by auto
  have last: "group_ok bufs chs (last gs) (last rss1)" and init: "list_all2 (group_ok bufs chs) (butlast gs) (butlast rss1)"
    using l3 gs(1) ne list_all2_append [of "butlast gs" "butlast rss1" "group_ok bufs chs" "[last gs]" "[last rss1]"] list_all2_lengthD [OF l3]
    by auto
  let ?g = "(last gs)\<lparr>tg_to := length (chs @ extra), tg_rows := tg_rows (last gs) + (en - st), tg_max := max (tg_max (last gs)) mx\<rparr>"
  have "group_ok bufs (chs @ extra) ?g (last rss1 @ rs)"
    using group_grows [OF last gs(3) new(1), of mx] new(2) len same gs(2) by simp
  moreover have "list_all2 (group_ok bufs (chs @ extra)) (butlast gs) (butlast rss1)"
    using init by (rule list_all2_mono) (rule group_ok_extend)
  moreover have "\<forall>q \<in> set (butlast rss1 @ [last rss1 @ rs]). q \<noteq> []"
    using w w' run rs by (auto simp: work_ok_def rss1_def butlast_append dest: in_set_butlastD split: if_splits)
  ultimately have "work_ok bufs (chs @ extra, butlast gs @ [?g]) (butlast rss1 @ [last rss1 @ rs])"
    by (simp add: work_ok_def list_all2_appendI)
  moreover have "push_union_run threads bi st en ts mx w = (chs @ extra, butlast gs @ [?g])"
    unfolding push_union_run_def w' gs_def fresh_def g0_def extra_def n_def Let_def by simp
  moreover have "concat (butlast rss1 @ [last rss1 @ rs]) = concat rss @ rs"
  proof -
    have "concat (butlast rss1 @ [last rss1]) = concat rss1" using ne by simp
    then show ?thesis by (auto simp: rss1_def split: if_splits)
  qed
  ultimately show ?thesis by metis
qed

lemma union_runs_ok:
  assumes "bi < length bufs" "buf_wf (bufs ! bi)" "rs = drop i (buf_rows (bufs ! bi))" "i \<le> length (buf_rows (bufs ! bi))"
    "st \<le> i" "work_ok bufs w rss"
    "case cur of None \<Rightarrow> st = i | Some (ts, mx) \<Rightarrow> st < i \<and> (\<forall>r \<in> set (take (i - st) (drop st (buf_rows (bufs ! bi)))). r ! 2 = ts \<and> max (r ! 0) (r ! 1) \<le> mx)"
    "len = length (buf_rows (bufs ! bi))"
  shows "\<exists>rss'. work_ok bufs (union_runs threads bi len rs i st cur w) rss' \<and> concat rss' = concat rss @ drop st (buf_rows (bufs ! bi))"
  using assms
proof (induction threads bi len rs i st cur w arbitrary: rss rule: union_runs.induct)
  case (1 threads bi len i st cur w)
  let ?all = "buf_rows (bufs ! bi)"
  have i: "i = length ?all" using 1(3,4) by simp
  show ?case
  proof (cases cur)
    case None
    with 1 i show ?thesis by auto
  next
    case (Some p)
    obtain ts mx where p: "p = (ts, mx)" by (cases p)
    with push_run_ok [OF 1(6,1,2), of st i "take (i - st) (drop st ?all)" ts mx threads] 1 Some i show ?thesis by auto
  qed
next
  case (2 threads bi len r rs i st cur w)
  let ?all = "buf_rows (bufs ! bi)"
  have il: "i < length ?all" using 2(6,7) by (metis drop_all list.distinct(1) not_less)
  have r: "r = ?all ! i" "rs = drop (Suc i) ?all" using 2(6) il by (metis Cons_nth_drop_Suc list.inject)+
  have snoc: "take (Suc i - st) (drop st ?all) = take (i - st) (drop st ?all) @ [r]" if "st \<le> i"
    using that il r(1) by (simp add: Suc_diff_le take_Suc_conv_app_nth)
  show ?case
  proof (cases cur)
    case None
    then have "st = i" using 2(10) by simp
    with 2(1) [OF refl None 2(4,5) r(2) _ _ 2(9) _ 2(11)] il snoc r None show ?thesis by auto
  next
    case (Some p)
    obtain ts mx where p: "p = (ts, mx)" by (cases p)
    have run: "st < i" "\<forall>q \<in> set (take (i - st) (drop st ?all)). q ! 2 = ts \<and> max (q ! 0) (q ! 1) \<le> mx" using 2(10) Some p by simp_all
    show ?thesis
    proof (cases "ts = r ! 2")
      case True
      have "\<forall>q \<in> set (take (Suc i - st) (drop st ?all)). q ! 2 = r ! 2 \<and> max (q ! 0) (q ! 1) \<le> max mx (max (r ! 0) (r ! 1))"
        using run(2) True snoc [OF 2(8)] by (auto simp: le_max_iff_disj)
      with 2(3) [OF refl Some p [symmetric] _ 2(4,5) r(2) _ _ 2(9) _ 2(11)] True il 2(8) Some p show ?thesis by (auto simp: Let_def)
    next
      case False
      from push_run_ok [OF 2(9,4,5) run(1) _ refl run(2), of threads] il obtain rss1 where
        w1: "work_ok bufs (push_union_run threads bi st i ts mx w) rss1" "concat rss1 = concat rss @ take (i - st) (drop st ?all)" by auto
      have one: "take (Suc i - i) (drop i ?all) = [r]" using snoc il r(1) by (simp add: take_Suc_conv_app_nth)
      have "drop st ?all = take (i - st) (drop st ?all) @ drop i ?all" using 2(8) by (metis append_take_drop_id drop_drop le_add_diff_inverse2)
      with 2(2) [OF refl Some p [symmetric] False 2(4,5) r(2) _ _ w1(1) _ 2(11)] w1(2) one il False Some p show ?thesis by (auto simp: Let_def)
    qed
  qed
qed

lemma union_work_ok:
  assumes "\<forall>b \<in> set bufs. buf_wf b \<and> n_columns b = 3" "bs = drop bi bufs" "bi \<le> length bufs" "work_ok bufs w rss"
  shows "\<exists>w' rss'. union_work threads bi bs w = Ok w' \<and> work_ok bufs w' rss' \<and> concat rss' = concat rss @ concat (map buf_rows bs)"
  using assms(2-4)
proof (induction threads bi bs w arbitrary: rss rule: union_work.induct)
  case (2 threads bi b bs w)
  have bl: "bi < length bufs" using 2(2,3) by (metis drop_all list.distinct(1) not_less)
  have b: "b = bufs ! bi" "bs = drop (Suc bi) bufs" using 2(2) bl by (metis Cons_nth_drop_Suc list.inject)+
  have wf: "buf_wf b" "n_columns b = 3" using assms(1) b(1) bl by simp_all
  from union_runs_ok [OF bl _ _ _ _ 2(4), of "buf_rows b" 0 0 None "buf_len b" threads] wf(1) b(1) obtain rss1 where
    r1: "work_ok bufs (union_runs threads bi (buf_len b) (buf_rows b) 0 0 None w) rss1" "concat rss1 = concat rss @ buf_rows b"
    by (auto simp: buf_len_def buf_wf_def holds_def)
  from 2(1) [OF _ buf_iter_rows [OF wf(1)] b(2) _ r1(1)] wf(2) bl obtain w' rss' where
    "union_work threads (Suc bi) bs (union_runs threads bi (buf_len b) (buf_rows b) 0 0 None w) = Ok w'"
    "work_ok bufs w' rss'" "concat rss' = concat rss1 @ concat (map buf_rows bs)"
    by (auto simp: buf_arity_def)
  with r1(2) wf show ?case by (auto simp: buf_arity_def buf_iter_rows)
qed auto

section \<open>Outcomes of a merge\<close>

abbreviation row_pair :: "row \<Rightarrow> val \<times> val" where
  "row_pair r \<equiv> (r ! 0, r ! 1)"

definition row_pairs :: "row list \<Rightarrow> (val \<Rightarrow> bool) \<Rightarrow> (val \<times> val) set" where
  "row_pairs rs P = row_pair ` {r \<in> set rs. P (r ! 2)}"

lemma row_pairs_append: "row_pairs (xs @ ys) P = row_pairs xs P \<union> row_pairs ys P"
  by (auto simp: row_pairs_def)

lemma step_pairs_append: "step_pairs (xs @ ys) P = step_pairs xs P \<union> step_pairs ys P"
  by (simp add: step_pairs_def)

lemma step_pairs_rows: "step_pairs (map row_step rs) P = row_pairs rs P"
  by (auto simp: step_pairs_def row_pairs_def split: if_splits)

text \<open>The operations of a parallel phase are as many as the requests.\<close>

lemma creach_ops: "creach \<sigma>\<^sub>0 \<sigma> \<Longrightarrow> length (ops \<sigma>) = length (ops \<sigma>\<^sub>0)"
proof (induction rule: creach.induct)
  case (creach_step \<sigma> \<tau>)
  from creach_step.hyps(2) have "length (ops \<tau>) = length (ops \<sigma>)"
    by cases (simp_all add: set_op_def store_cell_def)
  with creach_step.IH show ?case by simp
qed simp

lemma returned_children_length: "length (returned_children \<sigma>) \<le> length (ops \<sigma>)"
proof -
  have "length (concat (map linked_child xs)) \<le> length xs" for xs
  proof (induction xs)
    case (Cons x xs)
    have "length (linked_child x) \<le> 1" by (auto simp: linked_child_def split: pc.split)
    with Cons show ?case by simp
  qed simp
  then show ?thesis by (simp add: returned_children_def)
qed

lemma parallel_group_displaces:
  assumes wf: "dt_wf t" and g: "group_ok bufs chs g rs" and nb: "not_before t (tg_timestamp g)"
    and room: "dt_len t + length rs \<le> Suc u32_max"
    and run: "creach (atomic_start (dt_uf t) (tg_max g) (map row_pair rs)) \<sigma>" "all_returned \<sigma>"
  shows "\<exists>t'. publish_all (t\<lparr>dt_uf := atomic_finish (dt_uf t) \<sigma>\<rparr>) (returned_children \<sigma>) (tg_timestamp g) = Ok t' \<and>
    displaces t (map row_pair rs) (tg_timestamp g) t'"
proof -
  have uw: "uf_wf (dt_uf t)" using wf by (simp add: dt_wf_def)
  have mx: "\<forall>(l, r) \<in> set (map row_pair rs). max l r \<le> tg_max g" using g by (auto simp: group_ok_def)
  note out = parallel_unions_outcome [OF uw mx run]
  have "length (returned_children \<sigma>) \<le> length (map row_pair rs)"
    using returned_children_length [of \<sigma>] creach_ops [OF run(1)] by (simp add: atomic_start_def start_state_def)
  with publish_displaces [OF wf nb, of "atomic_finish (dt_uf t) \<sigma>" "map row_pair rs" "returned_children \<sigma>"] out room
  show ?thesis by simp
qed

lemma merge_group_run:
  assumes "merge_group bufs chs t g t'" "dt_wf t" "group_ok bufs chs g rs" "\<forall>r \<in> set rs. length r = 3"
    "not_before t (tg_timestamp g)" "dt_len t + length rs \<le> Suc u32_max"
  shows "\<exists>steps. displaced_run t steps t' \<and> (\<forall>s \<in> set steps. snd s = tg_timestamp g) \<and>
    (\<forall>P. step_pairs steps P = row_pairs rs P) \<and> sum_list (map (length \<circ> fst) steps) = length rs"
  using assms(1)
proof cases
  case (group_serial rs')
  have rs: "rs' = rs" and ts: "\<forall>r \<in> set rs. r ! 2 = tg_timestamp g" using group_serial assms(3) by (auto simp: group_ok_def)
  then have "map (\<lambda>r. r ! 2) rs = replicate (length rs) (tg_timestamp g)" by (auto simp: list_eq_iff_nth_eq)
  then have "sorted (map (\<lambda>r. r ! 2) rs)" by simp
  with insert_rows_run [OF assms(2,4), of] ts assms(5,6) group_serial(3) rs have "displaced_run t (map row_step rs) t'" by auto
  moreover have "sum_list (map (length \<circ> fst) (map row_step rs)) = length rs" by (induction rs) simp_all
  ultimately show ?thesis using ts step_pairs_rows [of rs] by (intro exI [of _ "map row_step rs"]) auto
next
  case (group_parallel rs' \<sigma>)
  have rs: "rs' = rs" and ts: "\<forall>r \<in> set rs. r ! 2 = tg_timestamp g" using group_parallel assms(3) by (auto simp: group_ok_def)
  from parallel_group_displaces [OF assms(2,3,5,6) group_parallel(3) [unfolded rs] group_parallel(4)] group_parallel(5)
  have "displaces t (map row_pair rs) (tg_timestamp g) t'" by auto
  then have "displaced_run t [(map row_pair rs, tg_timestamp g)] t'" by (rule run_step [OF _ run_done])
  with ts show ?thesis
    by (intro exI [of _ "[(map row_pair rs, tg_timestamp g)]"]) (auto simp: step_pairs_def row_pairs_def)
qed

lemma run_next:
  "displaced_run t steps t' \<Longrightarrow> dt_wf t \<Longrightarrow> \<forall>s \<in> set steps. snd s = ts \<Longrightarrow> not_before t ts \<Longrightarrow> ts \<le> ts' \<Longrightarrow>
   dt_wf t' \<and> not_before t' ts'"
proof (induction rule: displaced_run.induct)
  case (run_done t)
  then show ?case by (fastforce simp: not_before_def)
next
  case (run_step t ps x t1 steps t2)
  then show ?case using displaces_next [OF run_step.hyps(1), of ts] by auto
qed

text \<open>An id gets at most one row, so a group adds no more rows than it has.\<close>

lemma run_length: "displaced_run t steps t' \<Longrightarrow> dt_len t' \<le> dt_len t + sum_list (map (length \<circ> fst) steps)"
proof (induction rule: displaced_run.induct)
  case (run_step t ps x t1 steps t2)
  then have "dt_len t1 \<le> dt_len t + length ps" by (auto simp: displaces_def dt_len_def)
  with run_step show ?case by simp
qed simp

lemma merge_groups_run:
  "merge_groups bufs chs t gs t' \<Longrightarrow> list_all2 (group_ok bufs chs) gs rss \<Longrightarrow> dt_wf t \<Longrightarrow>
   \<forall>r \<in> set (concat rss). length r = 3 \<and> not_before t (r ! 2) \<Longrightarrow> sorted (map (\<lambda>r. r ! 2) (concat rss)) \<Longrightarrow>
   \<forall>rs \<in> set rss. rs \<noteq> [] \<Longrightarrow> dt_len t + length (concat rss) \<le> Suc u32_max \<Longrightarrow>
   \<exists>steps. displaced_run t steps t' \<and> sorted (map snd steps) \<and> snd ` set steps \<subseteq> (\<lambda>r. r ! 2) ` set (concat rss) \<and>
     (\<forall>P. step_pairs steps P = row_pairs (concat rss) P)"
proof (induction arbitrary: rss rule: merge_groups.induct)
  case (groups_done t)
  then show ?case by (intro exI [of _ "[]"]) (auto intro: run_done simp: step_pairs_def row_pairs_def)
next
  case (groups_next t g t1 gs t2)
  from groups_next.prems(1) obtain rs rss' where rss: "rss = rs # rss'" "group_ok bufs chs g rs" "list_all2 (group_ok bufs chs) gs rss'"
    by (auto simp: list_all2_Cons1)
  have ts: "r ! 2 = tg_timestamp g" if "r \<in> set rs" for r using rss(2) that by (simp add: group_ok_def)
  have "rs \<noteq> []" using groups_next.prems(5) rss(1) by simp
  then obtain r0 where r0: "r0 \<in> set rs" by (cases rs) auto
  then have "r0 \<in> set (concat rss)" using rss(1) by simp
  then have nb: "not_before t (tg_timestamp g)" using groups_next.prems(3) ts [OF r0] by metis
  have len3: "\<forall>r \<in> set rs. length r = 3" using groups_next.prems(3) rss(1) by auto
  have room: "dt_len t + length rs \<le> Suc u32_max" using groups_next.prems(6) rss(1) by simp
  from merge_group_run [OF groups_next.hyps(1) groups_next.prems(2) rss(2) len3 nb room] obtain st where
    st: "displaced_run t st t1" "\<forall>s \<in> set st. snd s = tg_timestamp g" "\<forall>P. step_pairs st P = row_pairs rs P"
      "sum_list (map (length \<circ> fst) st) = length rs" by blast
  have later: "tg_timestamp g \<le> r ! 2" if "r \<in> set (concat rss')" for r
    using groups_next.prems(4) rss(1) that r0 ts [OF r0] by (fastforce simp: sorted_append)
  have nx: "dt_wf t1" "\<forall>r \<in> set (concat rss'). length r = 3 \<and> not_before t1 (r ! 2)"
    using run_next [OF st(1) groups_next.prems(2) st(2) nb] later groups_next.prems(3) rss(1) by auto
  have "dt_len t1 + length (concat rss') \<le> Suc u32_max"
    using run_length [OF st(1)] st(4) groups_next.prems(6) rss(1) by simp
  moreover have "sorted (map (\<lambda>r. r ! 2) (concat rss'))" "\<forall>rs \<in> set rss'. rs \<noteq> []"
    using groups_next.prems(4,5) rss(1) by (auto simp: sorted_append)
  ultimately obtain st' where st': "displaced_run t1 st' t2" "sorted (map snd st')"
    "snd ` set st' \<subseteq> (\<lambda>r. r ! 2) ` set (concat rss')" "\<forall>P. step_pairs st' P = row_pairs (concat rss') P"
    using groups_next.IH [OF rss(3) nx] by blast
  have "map snd st = replicate (length st) (tg_timestamp g)" using st(2) by (auto simp: list_eq_iff_nth_eq)
  then have "sorted (map snd (st @ st'))" using st'(2,3) st(2) later by (fastforce simp: sorted_append)
  moreover have "snd ` set (st @ st') \<subseteq> (\<lambda>r. r ! 2) ` set (concat rss)"
  proof -
    have "tg_timestamp g \<in> (\<lambda>r. r ! 2) ` set (concat rss)" using r0 ts [OF r0] rss(1) by (force intro!: image_eqI [of _ _ r0])
    then have "snd ` set st \<subseteq> (\<lambda>r. r ! 2) ` set (concat rss)" using st(2) by (metis image_subsetI)
    moreover have "snd ` set st' \<subseteq> (\<lambda>r. r ! 2) ` set (concat rss)" using st'(3) rss(1) by force
    ultimately show ?thesis by (simp add: image_Un)
  qed
  ultimately show ?case
    using displaced_run_append [OF st(1) st'(1)] st(3) st'(4) rss(1)
    by (intro exI [of _ "st @ st'"]) (auto simp: step_pairs_append row_pairs_append)
qed

text \<open>The rows staged in a table, in the order in which a merge sees them.\<close>

definition staged :: "displaced_table \<Rightarrow> row list" where
  "staged t = concat (map buf_rows (buffered_writes t))"

text \<open>
  What a merge relies on: well-formed buffers of three columns, timestamps that do not decrease,
  and room for the row ids.
\<close>

definition mergeable :: "displaced_table \<Rightarrow> bool" where
  "mergeable t \<longleftrightarrow>
     dt_wf t \<and> (\<forall>b \<in> set (buffered_writes t). buf_wf b \<and> n_columns b = 3) \<and>
     sorted (map (\<lambda>r. r ! 2) (staged t)) \<and> (\<forall>r \<in> set (staged t). not_before t (r ! 2)) \<and>
     dt_len t + length (staged t) \<le> Suc u32_max"

lemma insert_buffers_rows:
  "\<forall>b \<in> set bs. buf_wf b \<Longrightarrow> insert_rows t (concat (map buf_rows bs)) = Some (Ok t') \<Longrightarrow> insert_buffers t bs = Some (Ok t')"
proof (induction bs arbitrary: t)
  case (Cons b bs)
  have app: "insert_rows t (xs @ ys) = run_then (insert_rows t xs) (\<lambda>t. insert_rows t ys)" for t xs ys
    by (induction xs arbitrary: t) (auto simp: run_then_def split: option.splits sum.splits prod.splits)
  from Cons.prems(2) obtain t1 where "insert_rows t (buf_rows b) = Some (Ok t1)" "insert_rows t1 (concat (map buf_rows bs)) = Some (Ok t')"
    by (auto simp: app run_then_def split: option.splits sum.splits)
  with Cons show ?case by (simp add: buf_iter_rows)
qed simp

lemma staged_rows: "mergeable t \<Longrightarrow> r \<in> set (staged t) \<Longrightarrow> length r = 3"
  using buf_wf_lengths(1) by (fastforce simp: mergeable_def staged_def)

lemma merge_serial_run:
  assumes "mergeable t"
  shows "\<exists>t'. merge_serial t = Some (Ok (take_change t')) \<and> displaced_run (t\<lparr>buffered_writes := []\<rparr>) (map row_step (staged t)) t'"
proof -
  let ?t = "t\<lparr>buffered_writes := []\<rparr>"
  have "dt_wf ?t" "\<forall>r \<in> set (staged t). not_before ?t (r ! 2)" "dt_len ?t + length (staged t) \<le> Suc u32_max"
    using assms by (auto simp: mergeable_def dt_wf_def index_ok_def dt_len_def not_before_def)
  then obtain t' where t': "insert_rows ?t (staged t) = Some (Ok t')" "displaced_run ?t (map row_step (staged t)) t'"
    using insert_rows_run [of ?t "staged t"] assms staged_rows [OF assms] by (auto simp: mergeable_def)
  moreover have "insert_buffers ?t (buffered_writes t) = Some (Ok t')"
    using insert_buffers_rows [of "buffered_writes t" ?t t'] t'(1) assms by (simp add: staged_def mergeable_def)
  ultimately show ?thesis by (auto simp: merge_serial_def)
qed

lemma dt_merge_run:
  assumes "mergeable t" "dt_merge threads t out"
  shows "\<exists>steps t'. out = take_change t' \<and> displaced_run (t\<lparr>buffered_writes := []\<rparr>) steps t' \<and> sorted (map snd steps) \<and>
    (\<forall>P. step_pairs steps P = row_pairs (staged t) P)"
proof -
  let ?t = "t\<lparr>buffered_writes := []\<rparr>"
  have serial: ?thesis if merged: "merge_serial t = Some (Ok out)"
  proof -
    have "sorted (map snd (map row_step (staged t)))" using assms(1) by (simp add: mergeable_def comp_def)
    moreover obtain t' where "out = take_change t'" "displaced_run ?t (map row_step (staged t)) t'"
      using merge_serial_run [OF assms(1)] merged by auto
    ultimately show ?thesis using step_pairs_rows [of "staged t"] by blast
  qed
  from assms(2) show ?thesis
  proof cases
    case (merge_in_groups chs groups t')
    have bufs: "\<forall>b \<in> set (buffered_writes t). buf_wf b \<and> n_columns b = 3" using assms(1) by (simp add: mergeable_def)
    have "work_ok (buffered_writes t) ([], []) []" by (simp add: work_ok_def)
    from union_work_ok [OF bufs _ _ this, of "buffered_writes t" 0 threads] merge_in_groups(4) obtain rss where
      rss: "work_ok (buffered_writes t) (chs, groups) rss" "concat rss = staged t"
      by (auto simp: staged_def)
    then have ok: "list_all2 (group_ok (buffered_writes t) chs) groups rss" "\<forall>rs \<in> set rss. rs \<noteq> []" by (simp_all add: work_ok_def)
    have "dt_wf ?t" "\<forall>r \<in> set (concat rss). length r = 3 \<and> not_before ?t (r ! 2)" "sorted (map (\<lambda>r. r ! 2) (concat rss))"
      "dt_len ?t + length (concat rss) \<le> Suc u32_max"
      using assms(1) staged_rows [OF assms(1)] unfolding rss(2)
      by (auto simp: mergeable_def dt_wf_def index_ok_def dt_len_def not_before_def)
    from merge_groups_run [OF merge_in_groups(5) ok(1) this(1-3) ok(2) this(4)] obtain steps where
      "displaced_run ?t steps t'" "sorted (map snd steps)" "\<forall>P. step_pairs steps P = row_pairs (concat rss) P" by blast
    with merge_in_groups(1) rss(2) show ?thesis by auto
  qed (use serial in auto)
qed

section \<open>Properties\<close>

text \<open>
  C8: Merging the staged writes of a displaced table.  A serial merge never panics.  Every outcome
  of a merge, serial or in parallel groups (where the claim is about runs that end), for any number of threads and any interleaving of their
  unions, empties the queue, keeps the table well formed (an id has a row if and only if it is not
  canonical), and closes the equivalence under the staged pairs.  The new rows are for exactly the
  ids that ceased to be canonical, each with the first timestamp at which the unions up to it
  displace the id, and the reported change says whether there are any.
\<close>

theorem merge_records_displaced:
  assumes "mergeable t"
  shows "(\<exists>out. merge_serial t = Some (Ok out)) \<and>
    (\<forall>added t'. dt_merge threads t (added, t') \<longrightarrow>
       dt_wf t' \<and> buffered_writes t' = [] \<and> \<not> dt_changed t' \<and>
       uf_rel (dt_uf t') = eq_closure (uf_rel (dt_uf t) \<union> row_pairs (staged t) (\<lambda>_. True)) \<and>
       (\<exists>new. displaced t' = displaced t @ new \<and> added = (dt_changed t \<or> new \<noteq> []) \<and>
          fst ` set new = {c. uf_rep (dt_uf t) c = c \<and> uf_rep (dt_uf t') c \<noteq> c} \<and>
          (\<forall>(c, ts) \<in> set new.
             least_in (eq_closure (uf_rel (dt_uf t) \<union> row_pairs (staged t) (\<lambda>x. x < ts))) c \<and>
             \<not> least_in (eq_closure (uf_rel (dt_uf t) \<union> row_pairs (staged t) (\<lambda>x. x \<le> ts))) c)))"
proof (intro conjI allI impI)
  show "\<exists>out. merge_serial t = Some (Ok out)" using merge_serial_run [OF assms] by blast
next
  fix added t'
  assume "dt_merge threads t (added, t')"
  from dt_merge_run [OF assms this] obtain steps t1 where r: "(added, t') = take_change t1"
    "displaced_run (t\<lparr>buffered_writes := []\<rparr>) steps t1" "sorted (map snd steps)" "\<forall>P. step_pairs steps P = row_pairs (staged t) P" by blast
  have wf: "dt_wf (t\<lparr>buffered_writes := []\<rparr>)" using assms by (auto simp: mergeable_def dt_wf_def index_ok_def dt_len_def)
  have t': "added = dt_changed t1" "t' = t1\<lparr>dt_changed := False\<rparr>" using r(1) by (simp_all add: take_change_def)
  note rec = run_records [OF r(2) wf r(3)]
  have "dt_wf t'" using rec t'(2) by (simp add: records_def dt_wf_def index_ok_def dt_len_def)
  with rec t' show "dt_wf t'" "buffered_writes t' = []" "\<not> dt_changed t'"
    "uf_rel (dt_uf t') = eq_closure (uf_rel (dt_uf t) \<union> row_pairs (staged t) (\<lambda>_. True))"
    by (simp_all add: records_def r(4))
  have same: "dt_uf t' = dt_uf t1" "displaced t' = displaced t1" using t'(2) by simp_all
  from rec show "\<exists>new. displaced t' = displaced t @ new \<and> added = (dt_changed t \<or> new \<noteq> []) \<and>
      fst ` set new = {c. uf_rep (dt_uf t) c = c \<and> uf_rep (dt_uf t') c \<noteq> c} \<and>
      (\<forall>(c, ts) \<in> set new.
         least_in (eq_closure (uf_rel (dt_uf t) \<union> row_pairs (staged t) (\<lambda>x. x < ts))) c \<and>
         \<not> least_in (eq_closure (uf_rel (dt_uf t) \<union> row_pairs (staged t) (\<lambda>x. x \<le> ts))) c)"
    unfolding records_def same t'(1) r(4) [rule_format] by simp
qed

definition sample_staged :: displaced_table where
  "sample_staged = dt_default\<lparr>buffered_writes := [\<lparr>n_columns = 3, total_rows = 2, buf_data = [2, 1, 0, 1, 2, 4]\<rparr>]\<rparr>"

lemma sample_staged_rows: "staged sample_staged = [[2, 1, 0], [1, 2, 4]]" "mergeable sample_staged"
  by (auto simp: mergeable_def sample_staged_def staged_def dt_default_def dt_wf_def index_ok_def dt_len_def not_before_def
      buf_wf_def holds_def buf_rows_def slice_chunks.simps u32_max_def)

theorem merge_records_displaced_witness:
  "\<exists>out. merge_serial sample_staged = Some (Ok out) \<and> dt_merge 1 sample_staged out \<and> dt_wf (snd out) \<and> (1, 2) \<in> uf_rel (dt_uf (snd out))"
proof -
  have base: "(1, 2) \<in> eq_closure (uf_rel (dt_uf sample_staged) \<union> row_pairs (staged sample_staged) (\<lambda>_. True))"
    by (rule eq_closure_base) (force simp: sample_staged_rows row_pairs_def)
  note m = merge_records_displaced [OF sample_staged_rows(2), of 1]
  then obtain added t' where out: "merge_serial sample_staged = Some (Ok (added, t'))" by auto
  then have merged: "dt_merge 1 sample_staged (added, t')" by (rule merge_one_thread [rotated]) simp
  with m base have "dt_wf t'" "(1, 2) \<in> uf_rel (dt_uf t')" by blast+
  with out merged show ?thesis by auto
qed

end
