(* ===== verification/TableSpec.thy ===== *)
theory TableSpec
  imports Constraints "HOL-Library.Multiset"
begin

text \<open>
  The provided methods of the table trait in \<open>egglog/core-relations/src/table_spec.rs\<close>: refinement by
  several constraints, live rows, existence of a match, and the split of constraints into fast and
  slow ones.  The methods a table implements (\<open>all\<close>, \<open>refine_one\<close>, \<open>fast_subset\<close>) are their
  arguments, and the locale \<open>table_view\<close> states what every table promises about them.
\<close>

section \<open>Model\<close>

type_synonym refiner = "subset \<Rightarrow> constrnt \<Rightarrow> subset comp"

definition tbl_refine_live :: "refiner \<Rightarrow> subset \<Rightarrow> subset comp" where
  "tbl_refine_live refine_one s = refine_one s (CLtConst 0 stale)"

fun tbl_refine :: "refiner \<Rightarrow> subset \<Rightarrow> constrnt list \<Rightarrow> subset comp" where
  "tbl_refine refine_one s [] = Some (Ok s)"
| "tbl_refine refine_one s (c # cs) = run_then (refine_one s c) (\<lambda>s. tbl_refine refine_one s cs)"

definition tbl_refine_ref :: "refiner \<Rightarrow> subset \<Rightarrow> constrnt list \<Rightarrow> bool \<Rightarrow> subset comp" where
  "tbl_refine_ref refine_one s cs check_live =
     run_then (if check_live then tbl_refine_live refine_one s else Some (Ok s)) (\<lambda>owned.
       if cs = [] then Some (Ok owned) else tbl_refine refine_one owned cs)"

definition tbl_contains_match :: "refiner \<Rightarrow> subset \<Rightarrow> constrnt list \<Rightarrow> bool comp" where
  "tbl_contains_match refine_one s cs = run_then (tbl_refine_ref refine_one s cs True) (\<lambda>s. Some (Ok (subset_size s \<noteq> 0)))"

text \<open>The loop of \<open>split_fast_slow\<close> with its three accumulators.\<close>

fun split_loop :: "search \<Rightarrow> (constrnt \<Rightarrow> subset option result) \<Rightarrow> constrnt list \<Rightarrow> subset \<Rightarrow> constrnt list \<Rightarrow> constrnt list \<Rightarrow>
    (subset \<times> constrnt list \<times> constrnt list) comp" where
  "split_loop bs fast_subset [] s fast slow = Some (Ok (s, fast, slow))"
| "split_loop bs fast_subset (c # cs) s fast slow =
     run_then (Some (fast_subset c)) (\<lambda>r.
       case r of
         Some sub \<Rightarrow> run_then (intersect bs s sub) (\<lambda>s. split_loop bs fast_subset cs s (fast @ [c]) slow)
       | None \<Rightarrow> split_loop bs fast_subset cs s fast (slow @ [c]))"

definition split_fast_slow :: "search \<Rightarrow> subset result \<Rightarrow> (constrnt \<Rightarrow> subset option result) \<Rightarrow> constrnt list \<Rightarrow>
    (subset \<times> constrnt list \<times> constrnt list) comp" where
  "split_fast_slow bs all fast_subset cs = run_then (Some all) (\<lambda>s. split_loop bs fast_subset cs s [] [])"

text \<open>The bounds that a scan compares with the length of its table.\<close>

lemma bounds_within:
  assumes "subset_wf s" "\<forall>i \<in> set (rows s). i < n" "rows s \<noteq> []"
  shows "\<exists>lo hi. bounds s = Ok (Some (lo, hi)) \<and> hi \<le> n"
proof (cases s)
  case (Dense r)
  with assms(3) have "range_end r - 1 \<in> set (rows s)" by auto
  with assms(2) Dense show ?thesis by (fastforce simp: bounds_def)
next
  case (Sparse v)
  then have "v \<noteq> []" "last v < n" "last v < u32_max" using assms last_in_set [of v] by auto
  with Sparse show ?thesis by (simp add: bounds_def slice_bounds_def from_usize_def)
qed

section \<open>What a table promises\<close>

text \<open>
  A table may keep rows that are not live; refinement drops them, and a fast subset is exact on
  the live ones.
\<close>

locale table_view =
  fixes good :: "'t \<Rightarrow> bool" and size_of :: "'t \<Rightarrow> nat" and width :: "'t \<Rightarrow> nat" and live :: "'t \<Rightarrow> nat \<Rightarrow> bool" and row_at :: "'t \<Rightarrow> nat \<Rightarrow> row"
    and all_rows :: "'t \<Rightarrow> subset result" and refine_one :: "'t \<Rightarrow> refiner" and fast_subset :: "'t \<Rightarrow> constrnt \<Rightarrow> subset option result"
  assumes width_pos: "good t \<Longrightarrow> 0 < width t"
    and all_ok: "good t \<Longrightarrow> \<exists>s. all_rows t = Ok s \<and> subset_wf s \<and> rows s = [0..<size_of t]"
    and refine_one_ok: "good t \<Longrightarrow> subset_wf s \<Longrightarrow> \<forall>i \<in> set (rows s). i < size_of t \<Longrightarrow> on_columns (width t) c \<Longrightarrow>
      \<exists>s'. refine_one t s c = Some (Ok s') \<and> subset_wf s' \<and> rows s' = filter (\<lambda>i. live t i \<and> satisfies (row_at t i) c) (rows s)"
    and fast_subset_ok: "good t \<Longrightarrow> on_columns (width t) c \<Longrightarrow> \<exists>r. fast_subset t c = Ok r \<and>
      (\<forall>s. r = Some s \<longrightarrow> subset_wf s \<and> distinct (rows s) \<and> (\<forall>i \<in> set (rows s). i < size_of t) \<and>
        filter (live t) (rows s) = filter (\<lambda>i. live t i \<and> satisfies (row_at t i) c) [0..<size_of t])"
begin

lemma refine_ok:
  assumes "good t"
  shows "\<forall>c \<in> set cs. on_columns (width t) c \<Longrightarrow> subset_wf s \<Longrightarrow> \<forall>i \<in> set (rows s). i < size_of t \<Longrightarrow>
    \<exists>s'. tbl_refine (refine_one t) s cs = Some (Ok s') \<and> subset_wf s' \<and>
      rows s' = filter (\<lambda>i. (cs \<noteq> [] \<longrightarrow> live t i) \<and> (\<forall>c \<in> set cs. satisfies (row_at t i) c)) (rows s)"
proof (induction cs arbitrary: s)
  case (Cons c cs)
  from refine_one_ok [OF assms Cons.prems(2,3), of c] Cons.prems(1) obtain s1 where
    s1: "refine_one t s c = Some (Ok s1)" "subset_wf s1" "rows s1 = filter (\<lambda>i. live t i \<and> satisfies (row_at t i) c) (rows s)" by auto
  with Cons.IH [of s1] Cons.prems obtain s' where
    "tbl_refine (refine_one t) s1 cs = Some (Ok s')" "subset_wf s'"
    "rows s' = filter (\<lambda>i. (cs \<noteq> [] \<longrightarrow> live t i) \<and> (\<forall>c \<in> set cs. satisfies (row_at t i) c)) (rows s1)" by auto
  with s1 show ?case by (auto intro!: filter_cong)
qed simp

lemma refine_ref_ok:
  assumes "good t" "\<forall>c \<in> set cs. on_columns (width t) c" "subset_wf s" "\<forall>i \<in> set (rows s). i < size_of t"
  shows "\<exists>s'. tbl_refine_ref (refine_one t) s cs check = Some (Ok s') \<and> subset_wf s' \<and>
    rows s' = filter (\<lambda>i. (check \<longrightarrow> live t i \<and> row_at t i ! 0 < stale) \<and> (cs \<noteq> [] \<longrightarrow> live t i) \<and> (\<forall>c \<in> set cs. satisfies (row_at t i) c)) (rows s)"
proof -
  have col: "on_columns (width t) (CLtConst 0 stale)" using width_pos [OF assms(1)] by (simp add: on_columns_def)
  obtain s1 where s1: "(if check then tbl_refine_live (refine_one t) s else Some (Ok s)) = Some (Ok s1)" "subset_wf s1"
    "rows s1 = filter (\<lambda>i. check \<longrightarrow> live t i \<and> row_at t i ! 0 < stale) (rows s)"
    using refine_one_ok [OF assms(1,3,4) col] assms(3) by (cases check) (auto simp: tbl_refine_live_def satisfies_def)
  from refine_ok [OF assms(1,2) s1(2)] s1(3) assms(4) obtain s' where
    s': "tbl_refine (refine_one t) s1 cs = Some (Ok s')" "subset_wf s'"
    "rows s' = filter (\<lambda>i. (cs \<noteq> [] \<longrightarrow> live t i) \<and> (\<forall>c \<in> set cs. satisfies (row_at t i) c)) (rows s1)" by auto
  have "tbl_refine_ref (refine_one t) s cs check = Some (Ok s')" using s1(1) s'(1) by (cases cs) (simp_all add: tbl_refine_ref_def)
  with s'(2,3) s1(3) show ?thesis by (auto intro!: filter_cong)
qed

lemma contains_match_ok:
  assumes "good t" "\<forall>c \<in> set cs. on_columns (width t) c" "subset_wf s" "\<forall>i \<in> set (rows s). i < size_of t"
  shows "tbl_contains_match (refine_one t) s cs =
    Some (Ok (\<exists>i \<in> set (rows s). live t i \<and> row_at t i ! 0 < stale \<and> (\<forall>c \<in> set cs. satisfies (row_at t i) c)))"
proof -
  obtain s' where s': "tbl_refine_ref (refine_one t) s cs True = Some (Ok s')" "subset_wf s'"
    "rows s' = filter (\<lambda>i. (live t i \<and> row_at t i ! 0 < stale) \<and> (cs \<noteq> [] \<longrightarrow> live t i) \<and> (\<forall>c \<in> set cs. satisfies (row_at t i) c)) (rows s)"
    using refine_ref_ok [OF assms, of True] by auto
  have "subset_size s' = length (rows s')" by (cases s') (auto simp: subset_size_def range_size_def)
  then have "subset_size s' \<noteq> 0 \<longleftrightarrow> set (rows s') \<noteq> {}" by simp
  with s' show ?thesis by (auto simp: tbl_contains_match_def filter_empty_conv)
qed

lemma split_loop_ok:
  assumes "good t" "slice_search bs"
  shows "\<forall>c \<in> set cs. on_columns (width t) c \<Longrightarrow> subset_wf s \<Longrightarrow> distinct (rows s) \<Longrightarrow> \<forall>i \<in> set (rows s). i < size_of t \<Longrightarrow>
    filter (live t) (rows s) = filter (\<lambda>i. live t i \<and> (\<forall>c \<in> set fast. satisfies (row_at t i) c)) [0..<size_of t] \<Longrightarrow>
    \<exists>s' fast' slow'. split_loop bs (fast_subset t) cs s fast slow = Some (Ok (s', fast', slow')) \<and> subset_wf s' \<and> (\<forall>i \<in> set (rows s'). i < size_of t) \<and>
      filter (live t) (rows s') = filter (\<lambda>i. live t i \<and> (\<forall>c \<in> set fast'. satisfies (row_at t i) c)) [0..<size_of t] \<and>
      mset fast' + mset slow' = mset fast + mset slow + mset cs"
proof (induction cs arbitrary: s fast slow)
  case (Cons c cs)
  obtain r where r: "fast_subset t c = Ok r" "\<And>s. r = Some s \<Longrightarrow> subset_wf s \<and> distinct (rows s) \<and> (\<forall>i \<in> set (rows s). i < size_of t) \<and>
      filter (live t) (rows s) = filter (\<lambda>i. live t i \<and> satisfies (row_at t i) c) [0..<size_of t]"
    using fast_subset_ok [OF assms(1)] Cons.prems(1) by (metis list.set_intros(1))
  show ?case
  proof (cases r)
    case None
    with Cons.IH [OF _ Cons.prems(2-5), of "slow @ [c]"] Cons.prems(1) r(1) show ?thesis by (auto simp: ac_simps)
  next
    case (Some sub)
    have sub: "subset_wf sub" "distinct (rows sub)" "filter (live t) (rows sub) = filter (\<lambda>i. live t i \<and> satisfies (row_at t i) c) [0..<size_of t]"
      using r(2) [OF Some] by blast+
    obtain s1 where s1: "intersect bs s sub = Some (Ok s1)" "subset_wf s1" "set (rows s1) = set (rows s) \<inter> set (rows sub)" "distinct (rows s1)"
      using slice_search.intersect_ok [OF assms(2) Cons.prems(2) sub(1)] sub(2) Cons.prems(3) by blast
    have "filter (live t) (rows s1) = filter (\<lambda>i. live t i \<and> (\<forall>c \<in> set (fast @ [c]). satisfies (row_at t i) c)) [0..<size_of t]"
    proof (rule sorted_distinct_set_unique)
      have "set (filter (live t) (rows s1)) = set (filter (live t) (rows s)) \<inter> set (filter (live t) (rows sub))" using s1(3) by auto
      then show "set (filter (live t) (rows s1)) = set (filter (\<lambda>i. live t i \<and> (\<forall>c \<in> set (fast @ [c]). satisfies (row_at t i) c)) [0..<size_of t])"
        unfolding Cons.prems(5) sub(3) by auto
    qed (use s1(4) sorted_rows [OF s1(2)] in \<open>simp_all add: sorted_wrt_filter\<close>)
    from Cons.IH [OF _ s1(2,4) _ this, of slow] Cons.prems(1,4) r(1) Some s1(1,3) show ?thesis by (auto simp: ac_simps)
  qed
qed auto

lemma split_fast_slow_ok:
  assumes "good t" "slice_search bs" "\<forall>c \<in> set cs. on_columns (width t) c"
  shows "\<exists>s fast slow s'. split_fast_slow bs (all_rows t) (fast_subset t) cs = Some (Ok (s, fast, slow)) \<and> mset fast + mset slow = mset cs \<and>
    filter (live t) (rows s) = filter (\<lambda>i. live t i \<and> (\<forall>c \<in> set fast. satisfies (row_at t i) c)) [0..<size_of t] \<and>
    tbl_refine (refine_one t) s slow = Some (Ok s') \<and>
    filter (live t) (rows s') = filter (\<lambda>i. live t i \<and> (\<forall>c \<in> set cs. satisfies (row_at t i) c)) [0..<size_of t]"
proof -
  obtain all where all: "all_rows t = Ok all" "subset_wf all" "rows all = [0..<size_of t]" using all_ok [OF assms(1)] by blast
  from split_loop_ok [OF assms all(2), of "[]" "[]"] all(3) obtain s fast slow where
    s: "split_loop bs (fast_subset t) cs all [] [] = Some (Ok (s, fast, slow))" "subset_wf s" "\<forall>i \<in> set (rows s). i < size_of t"
    "filter (live t) (rows s) = filter (\<lambda>i. live t i \<and> (\<forall>c \<in> set fast. satisfies (row_at t i) c)) [0..<size_of t]" "mset fast + mset slow = mset cs" by auto
  have sets: "set fast \<union> set slow = set cs" using arg_cong [OF s(5), of set_mset] by simp
  then obtain s' where s': "tbl_refine (refine_one t) s slow = Some (Ok s')"
    "rows s' = filter (\<lambda>i. (slow \<noteq> [] \<longrightarrow> live t i) \<and> (\<forall>c \<in> set slow. satisfies (row_at t i) c)) (rows s)"
    using refine_ok [OF assms(1) _ s(2,3), of slow] assms(3) by auto
  have "filter (live t) (rows s') = filter (\<lambda>i. \<forall>c \<in> set slow. satisfies (row_at t i) c) (filter (live t) (rows s))"
    unfolding s'(2) by (auto intro!: filter_cong)
  also have "\<dots> = filter (\<lambda>i. live t i \<and> (\<forall>c \<in> set cs. satisfies (row_at t i) c)) [0..<size_of t]"
    unfolding s(4) filter_filter using sets by (intro filter_cong) auto
  finally show ?thesis using s s'(1) all(1) by (simp add: split_fast_slow_def)
qed

end

end
