(* ===== verification/DisplacedQuery.thy ===== *)
theory DisplacedQuery
  imports DisplacedTable TableSpec
begin

text \<open>
  Queries against the displaced table: lookups by key, rows selected by a constraint, and the fast
  subsets that \<open>fast_subset\<close> computes from the index and from the order of the timestamps.  The
  last section is about \<open>clear\<close>, which leaves the index behind.
\<close>

section \<open>Rows and constraints\<close>

abbreviation dt_row :: "displaced_table \<Rightarrow> nat \<Rightarrow> row" where
  "dt_row t i \<equiv> [fst (displaced t ! i), uf_rep (dt_uf t) (fst (displaced t ! i)), snd (displaced t ! i)]"

lemma dt_index: "dt_wf t \<Longrightarrow> lookup_table t c = Some i \<longleftrightarrow> i < dt_len t \<and> fst (displaced t ! i) = c"
  by (simp add: dt_wf_def index_ok_def)

lemma dt_expand_row: "dt_wf t \<Longrightarrow> i < dt_len t \<Longrightarrow> dt_expand t i = Some (Ok (dt_row t i))"
  by (simp add: dt_expand_def dt_len_def dt_wf_def uf_find_naive_rep split: prod.splits)

lemma dt_eval_row:
  "dt_wf t \<Longrightarrow> i < dt_len t \<Longrightarrow> on_columns 3 c \<Longrightarrow> dt_eval t c i = Some (Ok (satisfies (dt_row t i) c))"
  using eval_constraint_satisfies [of "dt_row t i" c] by (simp add: dt_eval_def dt_expand_row numeral_3_eq_3)

lemma dt_eval_all_row:
  "dt_wf t \<Longrightarrow> i < dt_len t \<Longrightarrow> \<forall>c \<in> set cs. on_columns 3 c \<Longrightarrow>
   dt_eval_all t cs i = Some (Ok (\<forall>c \<in> set cs. satisfies (dt_row t i) c))"
  by (induction cs) (auto simp: dt_eval_row)

lemma dt_visit_rows:
  "dt_wf t \<Longrightarrow> \<forall>i \<in> set is. i < dt_len t \<Longrightarrow> \<forall>c \<in> set cs. on_columns 3 c \<Longrightarrow>
   dt_visit t cs is = Some (Ok (map (\<lambda>i. (i, dt_row t i)) (filter (\<lambda>i. \<forall>c \<in> set cs. satisfies (dt_row t i) c) is)))"
  by (induction "is") (auto simp: dt_eval_all_row dt_expand_row)

lemma dt_eval_rows_ok:
  "dt_wf t \<Longrightarrow> \<forall>i \<in> set is. i < dt_len t \<Longrightarrow> on_columns 3 c \<Longrightarrow> dt_eval_rows t c is = Some (Ok ())"
  by (induction "is") (auto simp: dt_eval_row)

lemma dt_refine_rows:
  assumes "dt_wf t" "subset_wf s" "\<forall>i \<in> set (rows s). i < dt_len t" "on_columns 3 c"
  shows "\<exists>s'. dt_refine_one t s c = Some (Ok s') \<and> subset_wf s' \<and> rows s' = filter (\<lambda>i. satisfies (dt_row t i) c) (rows s)"
proof -
  obtain s' where s': "retain s (\<lambda>i. dt_eval t c i = Some (Ok True)) = Ok s'" "subset_wf s'"
    "rows s' = filter (\<lambda>i. dt_eval t c i = Some (Ok True)) (rows s)"
    using retain_filters [OF assms(2)] by blast
  have "rows s' = filter (\<lambda>i. satisfies (dt_row t i) c) (rows s)"
    unfolding s'(3) using assms by (intro filter_cong) (auto simp: dt_eval_row)
  with s'(1,2) dt_eval_rows_ok [OF assms(1,3,4)] show ?thesis by (simp add: dt_refine_one_def)
qed

section \<open>Timestamps are a sorted column\<close>

lemma walk_on_props: "i \<le> length xs \<Longrightarrow>
   i \<le> walk_on xs t i \<and> walk_on xs t i \<le> length xs \<and> (\<forall>j. i \<le> j \<longrightarrow> j < walk_on xs t i \<longrightarrow> xs ! j = t) \<and>
   (walk_on xs t i < length xs \<longrightarrow> xs ! walk_on xs t i \<noteq> t)"
proof (induction xs t i rule: walk_on.induct)
  case (1 xs t i)
  show ?case
  proof (cases "i < length xs \<and> xs ! i = t")
    case True
    with 1 have "walk_on xs t i = walk_on xs t (Suc i)" by (simp add: walk_on.simps [of xs t i])
    with True 1 show ?thesis by (auto simp: Suc_le_eq dest: le_neq_implies_less)
  next
    case False
    then have "walk_on xs t i = i" by (auto simp: walk_on.simps [of xs t i])
    with False 1 show ?thesis by auto
  qed
qed

text \<open>The entries before \<open>s\<close> are below \<open>v\<close>, those from \<open>e\<close> on are above, those between are \<open>v\<close>.\<close>

definition splits_at :: "nat list \<Rightarrow> nat \<Rightarrow> nat \<Rightarrow> nat \<Rightarrow> bool" where
  "splits_at xs v s e \<longleftrightarrow> s \<le> e \<and> e \<le> length xs \<and> (\<forall>i < length xs. (xs ! i < v \<longleftrightarrow> i < s) \<and> (v < xs ! i \<longleftrightarrow> e \<le> i))"

lemma walks_split:
  assumes "sorted xs" "i < length xs" "xs ! i = v"
  shows "splits_at xs v (walk_back xs 0 v i) (walk_on xs v i)" "walk_back xs 0 v i < walk_on xs v i"
proof -
  let ?s = "walk_back xs 0 v i" and ?e = "walk_on xs v i"
  have s: "lower_bound xs 0 v ?s" "?s \<le> i" using walk_back_lower_bound [OF assms(1) _ assms(2,3)] walk_back_props(1) [of 0 i] by auto
  have e: "i \<le> ?e" "?e \<le> length xs" "\<forall>j. i \<le> j \<longrightarrow> j < ?e \<longrightarrow> xs ! j = v" "?e < length xs \<longrightarrow> xs ! ?e \<noteq> v"
    using walk_on_props [of i xs v] assms(2) by auto
  have "i \<noteq> ?e" using assms(2,3) e(4) by auto
  with e(1) s(2) show lt: "?s < ?e" by simp
  have below: "xs ! j < v \<longleftrightarrow> j < ?s" if "j < length xs" for j
    using s(1) that by (auto simp: lower_bound_def not_less [symmetric])
  have above: "v < xs ! j \<longleftrightarrow> ?e \<le> j" if j: "j < length xs" for j
  proof (cases "?e \<le> j")
    case True
    then have "v \<le> xs ! ?e" "xs ! ?e \<le> xs ! j" "xs ! ?e \<noteq> v"
      using j e(1,4) assms(3) sorted_nth_mono [OF assms(1), of i ?e] sorted_nth_mono [OF assms(1), of ?e j] by simp_all
    with True show ?thesis by simp
  next
    case False
    then have "xs ! j \<le> v"
      using j e(3) assms sorted_nth_mono [OF assms(1), of j i] by (cases "i \<le> j") simp_all
    with False show ?thesis by simp
  qed
  show "splits_at xs v ?s ?e" using lt e(2) below above by (simp add: splits_at_def)
qed

context slice_search
begin

lemma timestamp_bounds_split:
  assumes "dt_wf t" "dt_len t \<le> u32_max"
  shows "\<exists>s e. splits_at (map snd (displaced t)) v s e \<and> timestamp_bounds bs t v = Ok (if s < e then Inr (s, e) else Inl s)"
proof -
  let ?ts = "map snd (displaced t)"
  have srt: "sorted ?ts" using assms(1) by (simp add: dt_wf_def index_ok_def)
  have len: "length ?ts \<le> u32_max" using assms(2) by (simp add: dt_len_def)
  show ?thesis
  proof (cases "bs ?ts v")
    case (Inr i)
    have i: "i < length ?ts" "?ts ! i = v" using found [OF srt Inr] by simp_all
    note w = walks_split [OF srt i]
    from w len have "walk_on ?ts v i \<le> u32_max" "walk_back ?ts 0 v i \<le> u32_max" by (simp_all add: splits_at_def)
    with Inr w show ?thesis
      by (intro exI [of _ "walk_back ?ts 0 v i"] exI [of _ "walk_on ?ts v i"]) (simp add: timestamp_bounds_def Let_def)
  next
    case (Inl i)
    have nf: "i \<le> length ?ts" "\<forall>j < i. ?ts ! j < v" "\<forall>j. i \<le> j \<longrightarrow> j < length ?ts \<longrightarrow> v < ?ts ! j"
      using not_found [OF srt Inl] by blast+
    have "(?ts ! j < v \<longleftrightarrow> j < i) \<and> (v < ?ts ! j \<longleftrightarrow> i \<le> j)" if "j < length ?ts" for j
      using nf(2) [rule_format, of j] nf(3) [rule_format, of j] that by (cases "j < i") (simp_all add: not_less)
    with nf(1) have "splits_at ?ts v i i" unfolding splits_at_def by blast
    moreover have "i \<le> u32_max" using nf(1) len by simp
    ultimately show ?thesis using Inl
      by (intro exI [of _ i]) (simp add: timestamp_bounds_def Let_def)
  qed
qed

text \<open>The fast subset holds exactly the rows that satisfy the constraint.\<close>

lemma fast_subset_rows:
  assumes wf: "dt_wf t" and len: "dt_len t \<le> u32_max" and c: "on_columns 3 c"
  shows "\<exists>r. dt_fast_subset bs t c = Ok r \<and>
    (\<forall>s. r = Some s \<longrightarrow> subset_wf s \<and> rows s = filter (\<lambda>i. satisfies (dt_row t i) c) [0..<dt_len t])"
proof -
  have dense: "subset_wf (Dense (range_new s e)) \<and> rows (Dense (range_new s e)) = filter P [0..<dt_len t]"
    if "s \<le> e" "e \<le> dt_len t" "\<And>i. i < dt_len t \<Longrightarrow> P i \<longleftrightarrow> s \<le> i \<and> i < e" for s e P
  proof -
    have all: "[0..<dt_len t] = [0..<s] @ [s..<e] @ [e..<dt_len t]"
      using that(1,2) upt_add_eq_append [of 0 s "dt_len t - s"] upt_add_eq_append [of s e "dt_len t - e"] by simp
    have "filter P [0..<dt_len t] = filter (\<lambda>i. s \<le> i \<and> i < e) [0..<dt_len t]" using that(3) by (intro filter_cong) auto
    also have "\<dots> = [s..<e]" unfolding all by (simp add: filter_empty_conv)
    finally show ?thesis using that(1,2) len by (simp add: range_new_def)
  qed
  obtain s e where se: "\<And>v. splits_at (map snd (displaced t)) v (s v) (e v)"
    "\<And>v. timestamp_bounds bs t v = Ok (if s v < e v then Inr (s v, e v) else Inl (s v))"
    using timestamp_bounds_split [OF wf len] by metis
  have b: "s v \<le> e v" "e v \<le> dt_len t" for v using se(1) by (auto simp: splits_at_def dt_len_def)
  have ts: "snd (displaced t ! i) < v \<longleftrightarrow> i < s v" "v < snd (displaced t ! i) \<longleftrightarrow> e v \<le> i"
    "snd (displaced t ! i) \<le> v \<longleftrightarrow> i < e v" "v \<le> snd (displaced t ! i) \<longleftrightarrow> s v \<le> i"
    "snd (displaced t ! i) = v \<longleftrightarrow> s v \<le> i \<and> i < e v" if "i < dt_len t" for i v
  proof -
    show below: "snd (displaced t ! i) < v \<longleftrightarrow> i < s v" and above: "v < snd (displaced t ! i) \<longleftrightarrow> e v \<le> i"
      using se(1) [of v] that by (auto simp: splits_at_def dt_len_def)
    then show "snd (displaced t ! i) \<le> v \<longleftrightarrow> i < e v" "v \<le> snd (displaced t ! i) \<longleftrightarrow> s v \<le> i"
      "snd (displaced t ! i) = v \<longleftrightarrow> s v \<le> i \<and> i < e v" by linarith+
  qed
  have key: "\<exists>r. dt_fast_subset bs t (CEqConst 0 v) = Ok (Some r) \<and> subset_wf r \<and>
      rows r = filter (\<lambda>i. satisfies (dt_row t i) (CEqConst 0 v)) [0..<dt_len t]" for v
  proof (cases "lookup_table t v")
    case None
    then have "fst (displaced t ! i) \<noteq> v" if "i < dt_len t" for i using dt_index [OF wf, of v i] that by auto
    with None dense [of 0 0 "\<lambda>i. satisfies (dt_row t i) (CEqConst 0 v)"] show ?thesis
      by (simp add: dt_fast_subset_def subset_empty_def satisfies_def)
  next
    case (Some i)
    then have i: "i < dt_len t" "fst (displaced t ! i) = v" "distinct (map fst (displaced t))"
      using wf by (auto simp: dt_wf_def index_ok_def)
    then have "fst (displaced t ! j) = v \<longleftrightarrow> j = i" if "j < dt_len t" for j
      using that nth_eq_iff_index_eq [OF i(3), of j i] by (auto simp: dt_len_def)
    then have "satisfies (dt_row t j) (CEqConst 0 v) \<longleftrightarrow> i \<le> j \<and> j < i + 1" if "j < dt_len t" for j
      using that by (auto simp: satisfies_def)
    from dense [OF _ _ this] Some i(1) len show ?thesis by (simp add: dt_fast_subset_def)
  qed
  show ?thesis
  proof (cases c)
    case (CEq l r)
    then show ?thesis by (simp add: dt_fast_subset_def)
  next
    case (CEqConst col v)
    with c have "col < 3" by (simp add: on_columns_def)
    then consider "col = 0" | "col = 1" | "col = 2" by linarith
    then show ?thesis
    proof cases
      case 1
      with key CEqConst show ?thesis by auto
    next
      case 3
      with CEqConst se(2) [of v] dense [of "s v" "e v" "\<lambda>i. satisfies (dt_row t i) c"] b [of v] ts(5) show ?thesis
        by (auto simp: dt_fast_subset_def satisfies_def)
    qed (simp add: CEqConst dt_fast_subset_def)
  next
    case (CLtConst col v)
    with se(2) [of v] b [of v] dense [of 0 "s v" "\<lambda>i. satisfies (dt_row t i) c"] ts(1) show ?thesis
      by (auto simp: dt_fast_subset_def satisfies_def)
  next
    case (CGtConst col v)
    with se(2) [of v] b [of v] len dense [of "e v" "dt_len t" "\<lambda>i. satisfies (dt_row t i) c"] ts(2) show ?thesis
      by (cases "s v = e v") (auto simp: dt_fast_subset_def satisfies_def)
  next
    case (CLeConst col v)
    with se(2) [of v] b [of v] dense [of 0 "e v" "\<lambda>i. satisfies (dt_row t i) c"] ts(3) show ?thesis
      by (cases "s v = e v") (auto simp: dt_fast_subset_def satisfies_def)
  next
    case (CGeConst col v)
    with se(2) [of v] b [of v] len dense [of "s v" "dt_len t" "\<lambda>i. satisfies (dt_row t i) c"] ts(4) show ?thesis
      by (auto simp: dt_fast_subset_def satisfies_def)
  qed
qed

end

section \<open>The displaced table keeps the promises\<close>

definition dt_good :: "displaced_table \<Rightarrow> bool" where
  "dt_good t \<longleftrightarrow> dt_wf t \<and> dt_len t \<le> u32_max"

sublocale slice_search \<subseteq> displaced_view: table_view dt_good dt_len "\<lambda>_. 3" "\<lambda>_ _. True" dt_row dt_all dt_refine_one "dt_fast_subset bs"
proof
  fix t s c
  assume good: "dt_good t"
  then have wf: "dt_wf t" "dt_len t \<le> u32_max" by (simp_all add: dt_good_def)
  show "0 < (3 :: nat)" by simp
  show "\<exists>s. dt_all t = Ok s \<and> subset_wf s \<and> rows s = [0..<dt_len t]" using wf by (simp add: dt_all_def range_new_def)
  show "\<exists>s'. dt_refine_one t s c = Some (Ok s') \<and> subset_wf s' \<and> rows s' = filter (\<lambda>i. True \<and> satisfies (dt_row t i) c) (rows s)"
    if "subset_wf s" "\<forall>i \<in> set (rows s). i < dt_len t" "on_columns 3 c"
    using dt_refine_rows [OF wf(1) that] by simp
  show "\<exists>r. dt_fast_subset bs t c = Ok r \<and> (\<forall>s. r = Some s \<longrightarrow> subset_wf s \<and> distinct (rows s) \<and> (\<forall>i \<in> set (rows s). i < dt_len t) \<and>
      filter (\<lambda>_. True) (rows s) = filter (\<lambda>i. True \<and> satisfies (dt_row t i) c) [0..<dt_len t])"
    if "on_columns 3 c" using fast_subset_rows [OF wf that] by auto
qed

context slice_search
begin

lemmas displaced_split = displaced_view.split_fast_slow_ok [OF _ slice_search_axioms, simplified]
lemmas displaced_match = displaced_view.contains_match_ok

end

section \<open>Properties\<close>

text \<open>
  Looking up an id.  In a well-formed table an id has a row if and only if it is not canonical,
  and the row holds the id, the least member of its class and the recorded timestamp.  The column of
  the canonical id is answered for every id, displaced or not, and a key of another length panics.
\<close>

theorem lookup_displaced:
  assumes "dt_wf t"
  shows "dt_get_row t [v] = (if (LEAST x. (v, x) \<in> uf_rel (dt_uf t)) = v then Some (Ok None)
      else Some (Ok (Some (THE i. i < dt_len t \<and> fst (displaced t ! i) = v,
        [v, LEAST x. (v, x) \<in> uf_rel (dt_uf t), snd (displaced t ! (THE i. i < dt_len t \<and> fst (displaced t ! i) = v))])))) \<and>
    dt_get_row_column t [v] 1 = Some (Ok (Some (LEAST x. (v, x) \<in> uf_rel (dt_uf t)))) \<and>
    (length key \<noteq> 1 \<longrightarrow> dt_get_row t key = Some (Err AssertFailed) \<and> dt_get_row_column t key col = Some (Err AssertFailed))"
proof -
  have rep: "(LEAST x. (v, x) \<in> uf_rel (dt_uf t)) = uf_rep (dt_uf t) v" by (simp add: uf_rep_Least)
  have col: "dt_get_row_column t [v] 1 = Some (Ok (Some (uf_rep (dt_uf t) v)))"
    using assms by (simp add: dt_get_row_column_def dt_wf_def uf_find_naive_rep)
  show ?thesis
  proof (cases "lookup_table t v")
    case None
    then have "v \<notin> fst ` set (displaced t)" using dt_index [OF assms, of v] by (fastforce simp: in_set_conv_nth dt_len_def)
    then have "uf_rep (dt_uf t) v = v" using assms by (simp add: dt_wf_def)
    with None rep col show ?thesis by (simp add: dt_get_row_def dt_get_row_column_def)
  next
    case (Some i)
    then have i: "i < dt_len t" "fst (displaced t ! i) = v" using dt_index [OF assms] by auto
    then have "v \<in> fst ` set (displaced t)" by (force simp: dt_len_def)
    then have "uf_rep (dt_uf t) v \<noteq> v" using assms by (simp add: dt_wf_def)
    moreover have "(THE j. j < dt_len t \<and> fst (displaced t ! j) = v) = i"
      unfolding dt_index [OF assms, symmetric] using Some by simp
    moreover have "dt_get_row t [v] = Some (Ok (Some (i, dt_row t i)))"
      using Some i dt_expand_row [OF assms i(1)] by (simp add: dt_get_row_def)
    ultimately show ?thesis using rep col i(2) by (simp add: dt_get_row_def dt_get_row_column_def)
  qed
qed

definition one_displaced :: displaced_table where
  "one_displaced = \<lparr>dt_uf = \<lparr>parents = [0, 1, 1]\<rparr>, displaced = [(2, 7)], dt_changed = False, lookup_table = [2 \<mapsto> 0], buffered_writes = []\<rparr>"

lemma one_displaced_wf: "dt_wf one_displaced" "uf_rep (dt_uf one_displaced) c = (if c = 2 then 1 else c)"
proof -
  have rep: "uf_rep (dt_uf one_displaced) c = (if c = 2 then 1 else c)" for c
    by (auto simp: one_displaced_def uf_rep_def root.simps nth_Cons split: nat.splits)
  then show "uf_rep (dt_uf one_displaced) c = (if c = 2 then 1 else c)" .
  have "uf_wf (dt_uf one_displaced)" by (auto simp: uf_wf_def one_displaced_def nth_Cons less_Suc_eq split: nat.splits)
  then show "dt_wf one_displaced" using rep
    by (auto simp: dt_wf_def index_ok_def dt_len_def) (auto simp: one_displaced_def split: if_splits)
qed

theorem lookup_displaced_witness:
  "dt_get_row one_displaced [2] = Some (Ok (Some (0, [2, 1, 7]))) \<and> dt_get_row one_displaced [1] = Some (Ok None)"
proof -
  have "(THE i. i < dt_len one_displaced \<and> fst (displaced one_displaced ! i) = 2) = 0"
    by (auto simp: dt_len_def one_displaced_def)
  with lookup_displaced [OF one_displaced_wf(1), of 2] lookup_displaced [OF one_displaced_wf(1), of 1] show ?thesis
    by (simp add: uf_rep_Least [symmetric] one_displaced_wf(2)) (simp add: one_displaced_def)
qed

text \<open>
  C20: Selecting rows by a constraint on the columns of the table.  Refining all rows keeps exactly
  the rows that satisfy the constraint; a scan reports exactly the rows of the subset that satisfy
  all constraints, with their values; and where \<open>fast_subset\<close> answers, it answers with the
  same rows as refining, without reading them.  None of them panics.
\<close>

theorem constraint_queries_agree:
  assumes "slice_search bs" "dt_wf t" "dt_len t \<le> u32_max" "on_columns 3 c"
  shows "\<exists>all kept fast. dt_all t = Ok all \<and> dt_refine_one t all c = Some (Ok kept) \<and> dt_fast_subset bs t c = Ok fast \<and>
    rows kept = filter (\<lambda>i. satisfies (dt_row t i) c) [0..<dt_len t] \<and>
    (fast = None \<or> (\<exists>s. fast = Some s \<and> subset_wf s \<and> rows s = rows kept)) \<and>
    dt_scan t all 0 (dt_len t) [c] = Some (Ok (map (\<lambda>i. (i, dt_row t i)) (rows kept), None))"
proof -
  let ?all = "Dense (range_new 0 (dt_len t))"
  have all: "dt_all t = Ok ?all" "subset_wf ?all" "rows ?all = [0..<dt_len t]"
    using assms(3) by (simp_all add: dt_all_def range_new_def)
  obtain kept where kept: "dt_refine_one t ?all c = Some (Ok kept)" "rows kept = filter (\<lambda>i. satisfies (dt_row t i) c) [0..<dt_len t]"
    using dt_refine_rows [OF assms(2) all(2) _ assms(4)] unfolding all(3) by auto
  obtain fast where fast: "dt_fast_subset bs t c = Ok fast"
    "\<And>s. fast = Some s \<Longrightarrow> subset_wf s \<and> rows s = filter (\<lambda>i. satisfies (dt_row t i) c) [0..<dt_len t]"
    using slice_search.fast_subset_rows [OF assms(1-4)] by blast
  have "dt_scan t ?all 0 (dt_len t) [c] = Some (Ok (map (\<lambda>i. (i, dt_row t i)) (rows kept), None))"
    using iter_bounded_ok [OF all(2), of 0 "dt_len t"] dt_visit_rows [OF assms(2), of "[0..<dt_len t]" "[c]"] assms(4) kept(2)
    unfolding all(3) by (simp add: dt_scan_def)
  with all(1) kept fast show ?thesis
    by (intro exI [of _ ?all] exI [of _ kept] exI [of _ fast]) (cases fast; simp)
qed

theorem constraint_queries_agree_witness:
  "\<exists>fast. dt_fast_subset std_binary_search one_displaced (CGeConst 2 7) = Ok (Some fast) \<and> rows fast = [0]"
proof -
  have "dt_len one_displaced \<le> u32_max" "on_columns 3 (CGeConst 2 7)" by (simp_all add: one_displaced_def dt_len_def u32_max_def on_columns_def)
  from constraint_queries_agree [OF slice_search_std one_displaced_wf(1) this]
  obtain fast kept where f: "dt_fast_subset std_binary_search one_displaced (CGeConst 2 7) = Ok fast"
    "rows kept = filter (\<lambda>i. satisfies (dt_row one_displaced i) (CGeConst 2 7)) [0..<dt_len one_displaced]"
    "fast = None \<or> (\<exists>s. fast = Some s \<and> subset_wf s \<and> rows s = rows kept)" by blast
  have "fast \<noteq> None" using f(1)
    by (auto simp: dt_fast_subset_def timestamp_bounds_def one_displaced_def Let_def from_usize_u32_def split: sum.splits if_splits elim!: and_then_OkE)
  moreover have "rows kept = [0]" using f(2) by (simp add: one_displaced_def dt_len_def satisfies_def)
  ultimately show ?thesis using f(1,3) by auto
qed

text \<open>
  C40: Clearing a displaced table.  \<open>clear\<close> empties the rows and resets the union-find, but it keeps
  the index and the staged writes: a lookup of a formerly displaced id indexes the empty rows and
  panics, and the next merge replays the writes staged before the clear.
\<close>

theorem clear_keeps_index:
  assumes "dt_wf t" "uf_rep (dt_uf t) v \<noteq> v"
  shows "dt_len (dt_clear t) = 0 \<and> dt_get_row (dt_clear t) [v] = Some (Err IndexOutOfBounds) \<and>
    buffered_writes (dt_clear t) = buffered_writes t"
proof -
  have "v \<in> fst ` set (displaced t)" using assms by (simp add: dt_wf_def)
  then obtain i where "i < dt_len t" "fst (displaced t ! i) = v" by (auto simp: in_set_conv_nth dt_len_def)
  then have "lookup_table t v = Some i" using dt_index [OF assms(1)] by auto
  then show ?thesis by (simp add: dt_clear_def dt_get_row_def dt_expand_def dt_len_def vec_get_def)
qed

theorem clear_keeps_index_witness:
  "dt_get_row (dt_clear one_displaced) [2] = Some (Err IndexOutOfBounds)"
  using clear_keeps_index [OF one_displaced_wf(1), of 2] by (simp add: one_displaced_wf(2))


text \<open>
  C30: Splitting the constraints of a query on the displaced table.  The split loses no constraint:
  the fast and the slow ones together are the given ones.  The subset holds exactly the rows that
  satisfy the fast constraints, whichever of duplicates the binary search finds, and refining it by the
  slow ones leaves exactly the rows that satisfy all.
\<close>

theorem split_fast_slow_exact:
  assumes "slice_search bs" "dt_good t" "\<forall>c \<in> set cs. on_columns 3 c"
  shows "\<exists>s fast slow s'. split_fast_slow bs (dt_all t) (dt_fast_subset bs t) cs = Some (Ok (s, fast, slow)) \<and> mset fast + mset slow = mset cs \<and>
    rows s = filter (\<lambda>i. \<forall>c \<in> set fast. satisfies (dt_row t i) c) [0..<dt_len t] \<and>
    tbl_refine (dt_refine_one t) s slow = Some (Ok s') \<and> rows s' = filter (\<lambda>i. \<forall>c \<in> set cs. satisfies (dt_row t i) c) [0..<dt_len t]"
  using slice_search.displaced_split [OF assms] by simp

theorem split_fast_slow_exact_witness:
  "\<exists>s fast slow s'. split_fast_slow std_binary_search (dt_all one_displaced) (dt_fast_subset std_binary_search one_displaced) [CGeConst 2 5, CEq 0 1] =
       Some (Ok (s, fast, slow)) \<and> tbl_refine (dt_refine_one one_displaced) s slow = Some (Ok s') \<and> rows s' = []"
proof -
  have "dt_good one_displaced" using one_displaced_wf(1) by (simp add: dt_good_def dt_len_def one_displaced_def u32_max_def)
  moreover have "\<forall>c \<in> set [CGeConst 2 5, CEq 0 1]. on_columns 3 c" by (simp add: on_columns_def)
  moreover have "filter (\<lambda>i. \<forall>c \<in> set [CGeConst 2 5, CEq 0 1]. satisfies (dt_row one_displaced i) c) [0..<dt_len one_displaced] = []"
    using one_displaced_wf(2) [of 2] by (simp add: satisfies_def dt_len_def) (simp add: one_displaced_def)
  ultimately show ?thesis using split_fast_slow_exact [OF slice_search_std, of one_displaced "[CGeConst 2 5, CEq 0 1]"] by metis
qed

end
