(* ===== verification/Rebuild.thy ===== *)
theory Rebuild
  imports DisplacedTable
begin

text \<open>
  The canonicalizer of \<open>egglog/core-relations/src/uf/mod.rs\<close>, which rebuilds the rows of other tables
  (\<open>rebuild_buf\<close> with its unrolled cases for one, two and three columns, \<open>rebuild_subset\<close>,
  \<open>rebuild_slice\<close>), and the buffers that stage writes to the displaced table.

  The table that \<open>rebuild_subset\<close> scans is any implementation of the table trait; the model takes the
  rows that its scan pushes, in their order.
\<close>

section \<open>Model\<close>

subsection \<open>The canonicalizer\<close>

record canonicalizer =
  can_cols :: "nat list"
  can_uf :: union_find

definition dt_rebuilder :: "displaced_table \<Rightarrow> nat list \<Rightarrow> canonicalizer option" where
  "dt_rebuilder t cols = Some \<lparr>can_cols = cols, can_uf = dt_uf t\<rparr>"

definition rebuild_val :: "canonicalizer \<Rightarrow> val \<Rightarrow> val comp" where
  "rebuild_val cn v = uf_find_naive (can_uf cn) v"

text \<open>The default method of the trait: the values in place, and whether one of them changed.\<close>

fun rebuild_slice :: "(val \<Rightarrow> val comp) \<Rightarrow> val list \<Rightarrow> (bool \<times> val list) comp" where
  "rebuild_slice f [] = Some (Ok (False, []))"
| "rebuild_slice f (v # vs) =
     run_then (f v) (\<lambda>new. run_then (rebuild_slice f vs) (\<lambda>(changed, vs). Some (Ok (new \<noteq> v \<or> changed, new # vs))))"

definition hint_col :: "canonicalizer \<Rightarrow> nat option" where
  "hint_col cn = Some 0"

text \<open>A column of a row and its canonical id.\<close>

definition canon_at :: "canonicalizer \<Rightarrow> row \<Rightarrow> nat \<Rightarrow> (val \<times> val) comp" where
  "canon_at cn r c = run_then (Some (vec_get r c)) (\<lambda>v. run_then (uf_find_naive (can_uf cn) v) (\<lambda>ca. Some (Ok (v, ca))))"

text \<open>The loop bodies: \<open>None\<close> when the row is canonical, otherwise the patch of the copied row.\<close>

definition rebuild_row1 :: "canonicalizer \<Rightarrow> nat \<Rightarrow> row \<Rightarrow> (row \<Rightarrow> row) option comp" where
  "rebuild_row1 cn c r =
     run_then (canon_at cn r c) (\<lambda>(v, ca). Some (Ok (if ca \<noteq> v then Some (\<lambda>dst. dst[c := ca]) else None)))"

definition rebuild_row2 :: "canonicalizer \<Rightarrow> nat \<Rightarrow> nat \<Rightarrow> row \<Rightarrow> (row \<Rightarrow> row) option comp" where
  "rebuild_row2 cn c1 c2 r =
     run_then (Some (vec_get r c1)) (\<lambda>v1.
     run_then (Some (vec_get r c2)) (\<lambda>v2.
     run_then (uf_find_naive (can_uf cn) v1) (\<lambda>ca1.
     run_then (uf_find_naive (can_uf cn) v2) (\<lambda>ca2.
       Some (Ok (if ca1 \<noteq> v1 \<or> ca2 \<noteq> v2 then Some (\<lambda>dst. dst[c1 := ca1, c2 := ca2]) else None))))))"

definition rebuild_row3 :: "canonicalizer \<Rightarrow> nat \<Rightarrow> nat \<Rightarrow> nat \<Rightarrow> row \<Rightarrow> (row \<Rightarrow> row) option comp" where
  "rebuild_row3 cn c1 c2 c3 r =
     run_then (Some (vec_get r c1)) (\<lambda>v1.
     run_then (Some (vec_get r c2)) (\<lambda>v2.
     run_then (Some (vec_get r c3)) (\<lambda>v3.
     run_then (uf_find_naive (can_uf cn) v1) (\<lambda>ca1.
     run_then (uf_find_naive (can_uf cn) v2) (\<lambda>ca2.
     run_then (uf_find_naive (can_uf cn) v3) (\<lambda>ca3.
       Some (Ok (if ca1 \<noteq> v1 \<or> ca2 \<noteq> v2 \<or> ca3 \<noteq> v3
                 then Some (\<lambda>dst. dst[c1 := ca1, c2 := ca2, c3 := ca3]) else None))))))))"

fun canon_columns :: "canonicalizer \<Rightarrow> row \<Rightarrow> nat list \<Rightarrow> bool \<Rightarrow> val list \<Rightarrow> (bool \<times> val list) comp" where
  "canon_columns cn r [] changed canons = Some (Ok (changed, canons))"
| "canon_columns cn r (c # cs) changed canons =
     run_then (canon_at cn r c) (\<lambda>(v, ca). canon_columns cn r cs (changed \<or> ca \<noteq> v) (canons @ [ca]))"

definition rebuild_rowN :: "canonicalizer \<Rightarrow> nat list \<Rightarrow> row \<Rightarrow> (row \<Rightarrow> row) option comp" where
  "rebuild_rowN cn cs r =
     run_then (canon_columns cn r cs False []) (\<lambda>(changed, canons).
       Some (Ok (if changed then Some (\<lambda>dst. fold (\<lambda>(c, ca) dst. dst[c := ca]) (zip cs canons) dst) else None)))"

definition rebuild_row :: "canonicalizer \<Rightarrow> row \<Rightarrow> (row \<Rightarrow> row) option comp" where
  "rebuild_row cn =
     (case can_cols cn of
        [c] \<Rightarrow> rebuild_row1 cn c
      | [c1, c2] \<Rightarrow> rebuild_row2 cn c1 c2
      | [c1, c2, c3] \<Rightarrow> rebuild_row3 cn c1 c2 c3
      | cs \<Rightarrow> rebuild_rowN cn cs)"

text \<open>\<open>get_row_unchecked\<close> reads at the offset of the row without a check.\<close>

definition row_unchecked :: "row_buffer \<Rightarrow> nat \<Rightarrow> row" where
  "row_unchecked b i = take (n_columns b) (drop (i * n_columns b) (buf_data b))"

fun rebuild_rows :: "canonicalizer \<Rightarrow> row_buffer \<Rightarrow> nat list \<Rightarrow> tagged_buffer \<Rightarrow> tagged_buffer comp" where
  "rebuild_rows cn b [] out = Some (Ok out)"
| "rebuild_rows cn b (cur # is) out =
     run_then (rebuild_row cn (row_unchecked b cur)) (\<lambda>patch.
       case patch of
         None \<Rightarrow> rebuild_rows cn b is out
       | Some p \<Rightarrow> run_then (Some (tag_add_row_with out cur (row_unchecked b cur) p)) (\<lambda>(_, out). rebuild_rows cn b is out))"

definition rebuild_buf :: "canonicalizer \<Rightarrow> row_buffer \<Rightarrow> nat \<Rightarrow> nat \<Rightarrow> tagged_buffer \<Rightarrow> tagged_buffer comp" where
  "rebuild_buf cn b st en out =
     (if en \<le> st then Some (Ok out)
      else if \<not> en \<le> buf_len b then Some (Err AssertFailed)
      else rebuild_rows cn b [st..<en] out)"

text \<open>The columns of a row in place.\<close>

fun canon_in_place :: "canonicalizer \<Rightarrow> nat list \<Rightarrow> bool \<Rightarrow> row \<Rightarrow> (bool \<times> row) comp" where
  "canon_in_place cn [] changed r = Some (Ok (changed, r))"
| "canon_in_place cn (c # cs) changed r =
     run_then (canon_at cn r c) (\<lambda>(v, ca). canon_in_place cn cs (changed \<or> ca \<noteq> v) (r[c := ca]))"

fun canon_tagged :: "canonicalizer \<Rightarrow> nat list \<Rightarrow> tagged_buffer \<Rightarrow> tagged_buffer comp" where
  "canon_tagged cn [] out = Some (Ok out)"
| "canon_tagged cn (i # is) out =
     run_then (Some (tag_get_row out i)) (\<lambda>(_, r).
     run_then (canon_in_place cn (can_cols cn) False r) (\<lambda>(changed, r').
     run_then (Some (tag_edit_row out i (\<lambda>_ _. ((), r')))) (\<lambda>(_, out).
       if changed then canon_tagged cn is out
       else run_then (Some (buf_set_stale out i)) (\<lambda>(_, out). canon_tagged cn is out))))"

definition len_u32 :: "tagged_buffer \<Rightarrow> nat result" where
  "len_u32 out = (if buf_len out \<le> u32_max then Ok (buf_len out) else Err UnwrapNone)"

text \<open>The rows a scan pushes into the buffer.\<close>

fun tag_add_all :: "(nat \<times> row) list \<Rightarrow> tagged_buffer \<Rightarrow> tagged_buffer result" where
  "tag_add_all [] out = Ok out"
| "tag_add_all ((i, r) # es) out = and_then (tag_add_row out i r) (\<lambda>(_, out). tag_add_all es out)"

definition rebuild_subset :: "canonicalizer \<Rightarrow> (nat \<times> row) list \<Rightarrow> tagged_buffer \<Rightarrow> tagged_buffer comp" where
  "rebuild_subset cn scanned out =
     run_then (Some (len_u32 out)) (\<lambda>old_len.
     run_then (Some (tag_add_all scanned out)) (\<lambda>out.
     run_then (Some (len_u32 out)) (\<lambda>new_len.
       canon_tagged cn [old_len..<new_len] out)))"

subsection \<open>Staging buffers\<close>

text \<open>A buffer holds a weak reference to the queue of its table.\<close>

record uf_buffer =
  to_insert :: row_buffer

definition dt_new_buffer :: "displaced_table \<Rightarrow> uf_buffer result" where
  "dt_new_buffer t = and_then (buf_new 3) (\<lambda>b. Ok \<lparr>to_insert = b\<rparr>)"

definition stage_insert :: "uf_buffer \<Rightarrow> row \<Rightarrow> uf_buffer result" where
  "stage_insert u r = and_then (buf_add_row (to_insert u) r) (\<lambda>(_, b). Ok (u\<lparr>to_insert := b\<rparr>))"

definition stage_remove :: "uf_buffer \<Rightarrow> val list \<Rightarrow> uf_buffer result" where
  "stage_remove u key = Err ExplicitPanic"

definition fresh_handle :: "uf_buffer \<Rightarrow> uf_buffer result" where
  "fresh_handle u = and_then (buf_new (buf_arity (to_insert u))) (\<lambda>b. Ok \<lparr>to_insert = b\<rparr>)"

text \<open>Dropping a buffer pushes its rows on the queue, unless the table is gone (\<open>None\<close>).\<close>

definition drop_buffer :: "uf_buffer \<Rightarrow> displaced_table option \<Rightarrow> displaced_table option" where
  "drop_buffer u t = map_option (\<lambda>t. t\<lparr>buffered_writes := buffered_writes t @ [to_insert u]\<rparr>) t"

section \<open>Canonical rows\<close>

definition canon_row :: "canonicalizer \<Rightarrow> row \<Rightarrow> row" where
  "canon_row cn r = map (\<lambda>i. if i \<in> set (can_cols cn) then uf_rep (can_uf cn) (r ! i) else r ! i) [0..<length r]"

lemma canon_row_length [simp]: "length (canon_row cn r) = length r"
  by (simp add: canon_row_def)

lemma canon_row_nth: "i < length r \<Longrightarrow> canon_row cn r ! i = (if i \<in> set (can_cols cn) then uf_rep (can_uf cn) (r ! i) else r ! i)"
  by (simp add: canon_row_def)

lemma canon_row_changes: "\<forall>c \<in> set (can_cols cn). c < length r \<Longrightarrow> canon_row cn r \<noteq> r \<longleftrightarrow> (\<exists>c \<in> set (can_cols cn). uf_rep (can_uf cn) (r ! c) \<noteq> r ! c)"
  by (auto simp: list_eq_iff_nth_eq canon_row_nth)

lemma canon_at_ok: "uf_wf (can_uf cn) \<Longrightarrow> c < length r \<Longrightarrow> canon_at cn r c = Some (Ok (r ! c, uf_rep (can_uf cn) (r ! c)))"
  by (simp add: canon_at_def uf_find_naive_rep)

lemma canon_at_run: "uf_wf (can_uf cn) \<Longrightarrow> canon_at cn r c = Some (and_then (vec_get r c) (\<lambda>v. Ok (v, uf_rep (can_uf cn) v)))"
  by (cases "vec_get r c") (simp_all add: canon_at_def uf_find_naive_rep)

text \<open>The unrolled cases compute what the general one does.\<close>

lemma rebuild_row_general: "uf_wf (can_uf cn) \<Longrightarrow> rebuild_row cn r = rebuild_rowN cn (can_cols cn) r"
proof -
  assume wf: "uf_wf (can_uf cn)"
  have "rebuild_row1 cn c r = rebuild_rowN cn [c] r" for c
    by (cases "vec_get r c") (auto simp: rebuild_row1_def rebuild_rowN_def canon_at_run wf)
  moreover have "rebuild_row2 cn c d r = rebuild_rowN cn [c, d] r" for c d
    by (cases "vec_get r c"; cases "vec_get r d")
      (auto simp: rebuild_row2_def rebuild_rowN_def canon_at_run wf uf_find_naive_rep vec_get_def split: if_splits)
  moreover have "rebuild_row3 cn c d e r = rebuild_rowN cn [c, d, e] r" for c d e
    by (cases "vec_get r c"; cases "vec_get r d"; cases "vec_get r e")
      (auto simp: rebuild_row3_def rebuild_rowN_def canon_at_run wf uf_find_naive_rep vec_get_def split: if_splits)
  ultimately show ?thesis by (simp add: rebuild_row_def split: list.split)
qed

lemma canon_columns_ok:
  "uf_wf (can_uf cn) \<Longrightarrow> \<forall>c \<in> set cs. c < length r \<Longrightarrow> canon_columns cn r cs changed canons =
     Some (Ok (changed \<or> (\<exists>c \<in> set cs. uf_rep (can_uf cn) (r ! c) \<noteq> r ! c), canons @ map (\<lambda>c. uf_rep (can_uf cn) (r ! c)) cs))"
  by (induction cs arbitrary: changed canons) (auto simp: canon_at_ok)

lemma fold_updates:
  "length (fold (\<lambda>(c, v) dst. dst[c := v]) (zip cs (map f cs)) dst) = length dst"
  "i < length dst \<Longrightarrow> fold (\<lambda>(c, v) dst. dst[c := v]) (zip cs (map f cs)) dst ! i = (if i \<in> set cs then f i else dst ! i)"
  by (induction cs arbitrary: dst) (auto simp: nth_list_update)

lemma rebuild_row_ok:
  assumes "uf_wf (can_uf cn)" "\<forall>c \<in> set (can_cols cn). c < length r"
  shows "\<exists>p. rebuild_row cn r = Some (Ok p) \<and> (case p of None \<Rightarrow> canon_row cn r = r | Some f \<Rightarrow> canon_row cn r \<noteq> r \<and> f r = canon_row cn r)"
proof -
  have "fold (\<lambda>(c, v) dst. dst[c := v]) (zip (can_cols cn) (map (\<lambda>c. uf_rep (can_uf cn) (r ! c)) (can_cols cn))) r = canon_row cn r"
    by (simp add: list_eq_iff_nth_eq fold_updates canon_row_nth)
  moreover have "rebuild_row cn r = Some (Ok (if canon_row cn r \<noteq> r
      then Some (fold (\<lambda>(c, v) dst. dst[c := v]) (zip (can_cols cn) (map (\<lambda>c. uf_rep (can_uf cn) (r ! c)) (can_cols cn)))) else None))"
    using assms canon_row_changes [OF assms(2)] by (auto simp: rebuild_row_general rebuild_rowN_def canon_columns_ok)
  ultimately show ?thesis by simp
qed

lemma canon_in_place_ok:
  "uf_wf (can_uf cn) \<Longrightarrow> \<forall>c \<in> set cs. c < length r \<Longrightarrow> \<exists>r'. canon_in_place cn cs changed r = Some (Ok (changed \<or> r' \<noteq> r, r')) \<and>
     length r' = length r \<and> (\<forall>i < length r. r' ! i = (if i \<in> set cs then uf_rep (can_uf cn) (r ! i) else r ! i))"
proof (induction cs arbitrary: changed r)
  case (Cons c cs)
  let ?v = "uf_rep (can_uf cn) (r ! c)"
  from Cons.IH [of "r[c := ?v]" "changed \<or> ?v \<noteq> r ! c"] Cons.prems obtain r' where
    r': "canon_in_place cn cs (changed \<or> ?v \<noteq> r ! c) (r[c := ?v]) = Some (Ok ((changed \<or> ?v \<noteq> r ! c) \<or> r' \<noteq> r[c := ?v], r'))"
    "length r' = length r" "\<forall>i < length r. r' ! i = (if i \<in> set cs then uf_rep (can_uf cn) (r[c := ?v] ! i) else r[c := ?v] ! i)" by auto
  have nth: "\<forall>i < length r. r' ! i = (if i \<in> set (c # cs) then uf_rep (can_uf cn) (r ! i) else r ! i)"
    using r'(3) by (auto simp: nth_list_update_if)
  then have "?v \<noteq> r ! c \<Longrightarrow> r' \<noteq> r" using Cons.prems by auto
  then have "(changed \<or> ?v \<noteq> r ! c) \<or> r' \<noteq> r[c := ?v] \<longleftrightarrow> changed \<or> r' \<noteq> r" by (metis list_update_id)
  with r' nth Cons.prems show ?case by (auto simp: canon_at_ok)
qed simp

lemma canon_in_place_row:
  assumes "uf_wf (can_uf cn)" "\<forall>c \<in> set (can_cols cn). c < length r"
  shows "canon_in_place cn (can_cols cn) False r = Some (Ok (canon_row cn r \<noteq> r, canon_row cn r))"
proof -
  from canon_in_place_ok [OF assms, of False] obtain r' where
    "canon_in_place cn (can_cols cn) False r = Some (Ok (r' \<noteq> r, r'))" "length r' = length r"
    "\<forall>i < length r. r' ! i = (if i \<in> set (can_cols cn) then uf_rep (can_uf cn) (r ! i) else r ! i)" by auto
  moreover from this have "r' = canon_row cn r" by (simp add: list_eq_iff_nth_eq canon_row_nth)
  ultimately show ?thesis by simp
qed

section \<open>Rebuilding rows\<close>

text \<open>The rows that need rebuilding, with their ids.\<close>

definition rebuilt :: "canonicalizer \<Rightarrow> (nat \<times> row) list \<Rightarrow> (nat \<times> row) list" where
  "rebuilt cn es = map (\<lambda>(i, r). (i, canon_row cn r)) (filter (\<lambda>(i, r). canon_row cn r \<noteq> r) es)"

lemma rebuilt_simps [simp]:
  "rebuilt cn [] = []"
  "rebuilt cn ((i, r) # es) = (if canon_row cn r \<noteq> r then (i, canon_row cn r) # rebuilt cn es else rebuilt cn es)"
  by (simp_all add: rebuilt_def)

lemma rebuilt_length: "length (rebuilt cn es) \<le> length es"
  by (simp add: rebuilt_def)

lemma row_unchecked_row: "buf_wf b \<Longrightarrow> i < buf_len b \<Longrightarrow> row_unchecked b i = buf_rows b ! i"
  using slice_concat(1) [of "buf_rows b" "n_columns b" i] by (simp add: buf_wf_def holds_def row_unchecked_def buf_len_def)

abbreviation row_entries :: "row_buffer \<Rightarrow> nat list \<Rightarrow> (nat \<times> row) list" where
  "row_entries b is \<equiv> map (\<lambda>i. (i, buf_rows b ! i)) is"

lemma rebuild_rows_ok:
  assumes "uf_wf (can_uf cn)" "buf_wf b" "\<forall>c \<in> set (can_cols cn). c < n_columns b"
  shows "\<forall>i \<in> set is. i < buf_len b \<Longrightarrow> buf_wf out \<Longrightarrow> n_columns out = n_columns b + 1 \<Longrightarrow> length (tag_rows out) + length is \<le> Suc u32_max \<Longrightarrow>
    \<exists>out'. rebuild_rows cn b is out = Some (Ok out') \<and> buf_wf out' \<and> n_columns out' = n_columns b + 1 \<and>
      tag_rows out' = tag_rows out @ rebuilt cn (row_entries b is)"
proof (induction "is" arbitrary: out)
  case (Cons i "is")
  let ?r = "buf_rows b ! i"
  have len: "length ?r = n_columns b" using assms(2) Cons.prems(1) by (simp add: buf_wf_def holds_def buf_len_def)
  have read: "row_unchecked b i = ?r" using row_unchecked_row [OF assms(2)] Cons.prems(1) by simp
  from rebuild_row_ok [OF assms(1), of ?r] assms(3) len obtain p where
    p: "rebuild_row cn ?r = Some (Ok p)" "case p of None \<Rightarrow> canon_row cn ?r = ?r | Some f \<Rightarrow> canon_row cn ?r \<noteq> ?r \<and> f ?r = canon_row cn ?r" by auto
  show ?case
  proof (cases p)
    case None
    with Cons.IH [of out] Cons.prems p read show ?thesis by simp
  next
    case (Some f)
    with p(2) have f: "canon_row cn ?r \<noteq> ?r" "f ?r = canon_row cn ?r" by simp_all
    have fit: "length (canon_row cn ?r) + 1 = n_columns out" using len Cons.prems(3) by simp
    with tagged_rows.add_content [OF Cons.prems(2), of "(i, canon_row cn ?r)"] Cons.prems(4) obtain out1 where
      out1: "tag_add_row out i (canon_row cn ?r) = Ok (length (tag_rows out), out1)" "buf_wf out1"
      "tag_rows out1 = tag_rows out @ [(i, canon_row cn ?r)]" "(\<lambda>(i :: nat, r :: row). length r + 1 = n_columns out1) = (\<lambda>(i, r). length r + 1 = n_columns out)"
      by auto
    from fun_cong [OF out1(4), of "(i, canon_row cn ?r)"] fit have cols: "n_columns out1 = n_columns b + 1" using len by simp
    with Cons.IH [of out1] Cons.prems out1 obtain out' where
      "rebuild_rows cn b is out1 = Some (Ok out')" "buf_wf out'" "n_columns out' = n_columns b + 1"
      "tag_rows out' = tag_rows out1 @ rebuilt cn (row_entries b is)" by auto
    with out1 f p(1) Some read show ?thesis by (simp add: tag_add_row_with_patch)
  qed
qed simp

lemma tag_add_all_ok:
  "buf_wf out \<Longrightarrow> \<forall>(i, r) \<in> set es. length r + 1 = n_columns out \<Longrightarrow> length (tag_rows out) + length es \<le> Suc u32_max \<Longrightarrow>
   \<exists>out'. tag_add_all es out = Ok out' \<and> buf_wf out' \<and> n_columns out' = n_columns out \<and> tag_rows out' = tag_rows out @ es"
proof (induction es arbitrary: out)
  case (Cons e es)
  obtain i r where e: "e = (i, r)" by (cases e)
  have "tag_add_row out i r = buf_add_row out (r @ [i])" by (simp add: tag_add_row_buf)
  with add_row_holds [of out "buf_rows out" "r @ [i]"] Cons.prems e obtain out1 where
    "tag_add_row out i r = Ok (length (tag_rows out), out1)" "buf_wf out1" "n_columns out1 = n_columns out" "tag_rows out1 = tag_rows out @ [(i, r)]"
    by (auto simp: holds_wf tag_rows_def)
  with Cons.IH [of out1] Cons.prems e show ?case by auto
qed simp

lemma tag_edit_row_ok:
  assumes "buf_wf out" "i < length (tag_rows out)" "length r' + 1 = n_columns out"
  shows "\<exists>out'. tag_edit_row out i (\<lambda>_ _. ((), r')) = Ok ((), out') \<and> buf_wf out' \<and> n_columns out' = n_columns out \<and>
    tag_rows out' = (tag_rows out)[i := (fst (tag_rows out ! i), r')]"
proof -
  let ?r = "buf_rows out ! i"
  have h: "holds out (buf_rows out)" "i < length (buf_rows out)" using assms by (simp_all add: buf_wf_def tag_rows_def)
  have len: "length ?r = n_columns out" using h by (simp add: holds_def)
  have tail: "drop (base_arity out) ?r = [last ?r]"
  proof -
    from len assms(3) obtain q x where q: "?r = q @ [x]" by (cases ?r rule: rev_cases) auto
    with len have "base_arity out = length q" by (simp add: base_arity_def)
    with q show ?thesis by simp
  qed
  have "(\<lambda>full. let (x, q) = ((), r') in (x, q @ drop (base_arity out) full)) ?r = ((), r' @ [last ?r])"
    using tail by (simp add: Let_def)
  moreover have "length (r' @ [last ?r]) = n_columns out" using assms(3) by simp
  ultimately obtain out' where "buf_edit_row out i (\<lambda>full. let (x, q) = ((), r') in (x, q @ drop (base_arity out) full)) = Ok ((), out')"
    "holds out' ((buf_rows out)[i := r' @ [last ?r]])" "n_columns out' = n_columns out"
    using edit_row_holds [OF h, of "\<lambda>full. let (x, q) = ((), r') in (x, q @ drop (base_arity out) full)"] by metis
  moreover obtain tg q where "tag_get_row out i = Ok (tg, q)" using tag_get_row_rows [OF assms(1), of i] assms(2) by (cases "tag_rows out ! i") simp
  ultimately show ?thesis using h(2) by (simp add: tag_edit_row_def holds_wf tag_rows_def map_update)
qed

lemma set_stale_tagged:
  assumes "buf_wf out" "i < length (tag_rows out)" "1 < n_columns out"
  shows "\<exists>x out'. buf_set_stale out i = Ok (x, out') \<and> buf_wf out' \<and> n_columns out' = n_columns out \<and>
    tag_rows out' = (tag_rows out)[i := (fst (tag_rows out ! i), (snd (tag_rows out ! i))[0 := stale])]"
proof -
  let ?r = "buf_rows out ! i"
  have h: "holds out (buf_rows out)" "i < length (buf_rows out)" using assms by (simp_all add: buf_wf_def tag_rows_def)
  then obtain out' where out': "buf_set_stale out i = Ok (is_stale (?r ! 0), out')" "holds out' ((buf_rows out)[i := ?r[0 := stale]])"
    using set_stale_holds by blast
  then have "n_columns out' = n_columns out" by (auto simp: buf_set_stale_def buf_edit_row_def elim!: and_then_OkE)
  moreover have "length ?r = n_columns out" using h by (simp add: holds_def)
  then obtain q x where "?r = q @ [x]" "q \<noteq> []" using assms(3) by (cases ?r rule: rev_cases) fastforce+
  then have "last (?r[0 := stale]) = last ?r" "butlast (?r[0 := stale]) = (butlast ?r)[0 := stale]"
    by (simp_all add: list_update_append)
  ultimately show ?thesis using out' h(2) by (auto simp: holds_wf tag_rows_def map_update)
qed

text \<open>What \<open>rebuild_subset\<close> leaves of a scanned row.\<close>

definition mark :: "canonicalizer \<Rightarrow> nat \<times> row \<Rightarrow> nat \<times> row" where
  "mark cn = (\<lambda>(i, r). (i, if canon_row cn r \<noteq> r then canon_row cn r else r[0 := stale]))"

lemma canon_tagged_ok:
  assumes "uf_wf (can_uf cn)" "\<forall>c \<in> set (can_cols cn). c + 1 < n" "1 < n"
  shows "buf_wf out \<Longrightarrow> n_columns out = n \<Longrightarrow> k \<le> length (tag_rows out) \<Longrightarrow>
    \<exists>out'. canon_tagged cn [k..<length (tag_rows out)] out = Some (Ok out') \<and> buf_wf out' \<and> n_columns out' = n \<and>
      tag_rows out' = take k (tag_rows out) @ map (mark cn) (drop k (tag_rows out))"
proof (induction "length (tag_rows out) - k" arbitrary: k out)
  case 0
  then show ?case by simp
next
  case (Suc d)
  let ?es = "tag_rows out"
  have k: "k < length ?es" using Suc(2) by simp
  obtain i r where e: "?es ! k = (i, r)" by (cases "?es ! k")
  have "r = butlast (buf_rows out ! k)" using e k by (simp add: tag_rows_def)
  then have len: "length r + 1 = n" using Suc.prems k assms(3) by (simp add: buf_wf_def holds_def tag_rows_def)
  have get: "tag_get_row out k = Ok (i, r)" using tag_get_row_rows [OF Suc.prems(1), of k] k e by simp
  have row: "canon_in_place cn (can_cols cn) False r = Some (Ok (canon_row cn r \<noteq> r, canon_row cn r))"
    using canon_in_place_row [OF assms(1), of r] assms(2) len by fastforce
  obtain out1 where out1: "tag_edit_row out k (\<lambda>_ _. ((), canon_row cn r)) = Ok ((), out1)" "buf_wf out1" "n_columns out1 = n"
    "tag_rows out1 = ?es[k := (i, canon_row cn r)]"
    using tag_edit_row_ok [OF Suc.prems(1) k, of "canon_row cn r"] len e Suc.prems(2) by auto
  have step: "\<exists>out2. buf_wf out2 \<and> n_columns out2 = n \<and> tag_rows out2 = ?es[k := mark cn (i, r)] \<and>
      canon_tagged cn [k..<length ?es] out = canon_tagged cn [Suc k..<length ?es] out2"
  proof (cases "canon_row cn r = r")
    case True
    obtain x out2 where "buf_set_stale out1 k = Ok (x, out2)" "buf_wf out2" "n_columns out2 = n"
      "tag_rows out2 = (tag_rows out1)[k := (fst (tag_rows out1 ! k), (snd (tag_rows out1 ! k))[0 := stale])]"
      using set_stale_tagged [OF out1(2), of k] k out1(3,4) assms(3) by auto
    with True get row out1 k show ?thesis by (intro exI [of _ out2]) (simp add: mark_def upt_conv_Cons)
  next
    case False
    with get row out1 k show ?thesis by (intro exI [of _ out1]) (simp add: mark_def upt_conv_Cons)
  qed
  then obtain out2 where out2: "buf_wf out2" "n_columns out2 = n" "tag_rows out2 = ?es[k := mark cn (i, r)]"
    "canon_tagged cn [k..<length ?es] out = canon_tagged cn [Suc k..<length ?es] out2" by blast
  have "length (tag_rows out2) = length ?es" "d = length ?es - Suc k" using out2(3) Suc(2) by simp_all
  with Suc.hyps(1) [of out2 "Suc k"] Suc.hyps(2) out2(1,2) k obtain out' where
    "canon_tagged cn [Suc k..<length ?es] out2 = Some (Ok out')" "buf_wf out'" "n_columns out' = n"
    "tag_rows out' = take (Suc k) (tag_rows out2) @ map (mark cn) (drop (Suc k) (tag_rows out2))" by auto
  moreover have "take (Suc k) (tag_rows out2) @ map (mark cn) (drop (Suc k) (tag_rows out2)) = take k ?es @ map (mark cn) (drop k ?es)"
    using k e by (simp add: out2(3) take_Suc_conv_app_nth Cons_nth_drop_Suc [symmetric, of k ?es])
  ultimately show ?case using out2(4) by auto
qed

lemma rebuild_subset_ok:
  assumes "uf_wf (can_uf cn)" "\<forall>c \<in> set (can_cols cn). c + 1 < n_columns out" "1 < n_columns out" "buf_wf out"
    "\<forall>(i, r) \<in> set es. length r + 1 = n_columns out" "length (tag_rows out) + length es \<le> u32_max"
  shows "\<exists>out'. rebuild_subset cn es out = Some (Ok out') \<and> buf_wf out' \<and> n_columns out' = n_columns out \<and> tag_rows out' = tag_rows out @ map (mark cn) es"
proof -
  have len: "buf_len b = length (tag_rows b)" if "buf_wf b" for b using that by (simp add: buf_wf_def holds_def buf_len_def tag_rows_def)
  obtain out1 where out1: "tag_add_all es out = Ok out1" "buf_wf out1" "n_columns out1 = n_columns out" "tag_rows out1 = tag_rows out @ es"
    using tag_add_all_ok [OF assms(4,5)] assms(6) by auto
  from canon_tagged_ok [OF assms(1-3) out1(2,3), of "length (tag_rows out)"] out1(4) obtain out' where
    "canon_tagged cn [length (tag_rows out)..<length (tag_rows out1)] out1 = Some (Ok out')" "buf_wf out'" "n_columns out' = n_columns out"
    "tag_rows out' = tag_rows out @ map (mark cn) es" by auto
  with out1 assms(6) len [OF assms(4)] len [OF out1(2)] show ?thesis by (simp add: rebuild_subset_def len_u32_def)
qed

lemma tag_non_stale_rows:
  assumes "buf_wf b" "1 < n_columns b"
  shows "tag_non_stale b = Ok (filter (\<lambda>(i, r). \<not> is_stale (r ! 0)) (tag_rows b))"
proof -
  have first: "butlast r ! 0 = r ! 0" if "r \<in> set (buf_rows b)" for r
    using buf_wf_lengths(1) [OF assms(1) that] assms(2) by (simp add: nth_butlast)
  have "filter (\<lambda>(i, r). \<not> is_stale (r ! 0)) (tag_rows b) = map (\<lambda>r. (last r, butlast r)) (filter (\<lambda>r. \<not> is_stale (r ! 0)) (buf_rows b))"
    unfolding tag_rows_def filter_map comp_def using first by (auto intro!: arg_cong [where f = "map _"] filter_cong)
  moreover have "map_result (unwrap_row (base_arity b)) (filter (\<lambda>r. \<not> is_stale (r ! 0)) (buf_rows b)) =
      Ok (map (\<lambda>r. (last r, butlast r)) (filter (\<lambda>r. \<not> is_stale (r ! 0)) (buf_rows b)))"
    using assms buf_wf_lengths [OF assms(1)] by (intro map_result_Ok) (simp add: unwrap_row_last base_arity_def)
  ultimately show ?thesis by (simp add: tag_non_stale_def buf_non_stale_def buf_iter_rows [OF assms(1)])
qed

text \<open>Marking hides exactly the canonical rows.\<close>

lemma mark_non_stale:
  assumes "\<forall>(i, r) \<in> set es. r \<noteq> [] \<and> r ! 0 < u32_max"
  shows "filter (\<lambda>(i, r). \<not> is_stale (r ! 0)) (map (mark cn) es) = rebuilt cn es"
    "filter (\<lambda>(i, r). \<not> is_stale (r ! 0)) (rebuilt cn es) = rebuilt cn es"
proof -
  have keep: "\<not> is_stale (canon_row cn r ! 0)" if "r \<noteq> []" "r ! 0 < u32_max" for r
    using that uf_rep_le [of "can_uf cn" "r ! 0"] by (simp add: is_stale_def canon_row_nth)
  then show "filter (\<lambda>(i, r). \<not> is_stale (r ! 0)) (map (mark cn) es) = rebuilt cn es"
    using assms by (induction es) (auto simp: mark_def is_stale_def stale_def split: if_splits)
  from keep show "filter (\<lambda>(i, r). \<not> is_stale (r ! 0)) (rebuilt cn es) = rebuilt cn es"
    using assms by (induction es) auto
qed

section \<open>Properties\<close>

text \<open>
  C22: Rebuilding a range of rows of a buffer and rebuilding the same rows through a scan give the
  same live rows, although one skips canonical rows and the other copies them and marks them
  stale: the ids and canonical forms of exactly the rows with a column that is not canonical,
  behind what the output held.  The unrolled cases for one to three columns are included, and
  neither path panics.
\<close>

theorem rebuild_paths_agree:
  assumes "uf_wf (can_uf cn)" "buf_wf b" "\<forall>c \<in> set (can_cols cn). c < n_columns b" "st \<le> en" "en \<le> buf_len b"
    "buf_wf out" "n_columns out = n_columns b + 1" "buf_len out + (en - st) \<le> u32_max"
    "\<forall>i \<in> {st..<en}. buf_rows b ! i ! 0 < u32_max"
  shows "\<exists>out1 out2. rebuild_buf cn b st en out = Some (Ok out1) \<and> rebuild_subset cn (row_entries b [st..<en]) out = Some (Ok out2) \<and>
    tag_rows out1 = tag_rows out @ map (\<lambda>i. (i, canon_row cn (buf_rows b ! i))) (filter (\<lambda>i. canon_row cn (buf_rows b ! i) \<noteq> buf_rows b ! i) [st..<en]) \<and>
    tag_non_stale out1 = tag_non_stale out2"
proof -
  let ?es = "row_entries b [st..<en]"
  have n: "1 < n_columns out" using buf_wf_lengths(2) [OF assms(2)] assms(7) by simp
  have len: "length (tag_rows out) = buf_len out" "length (buf_rows b) = buf_len b"
    using assms(2,6) by (simp_all add: buf_wf_def holds_def buf_len_def tag_rows_def)
  have es: "rebuilt cn ?es = map (\<lambda>i. (i, canon_row cn (buf_rows b ! i))) (filter (\<lambda>i. canon_row cn (buf_rows b ! i) \<noteq> buf_rows b ! i) [st..<en])"
    by (simp add: rebuilt_def filter_map comp_def)
  have rl: "length (buf_rows b ! i) = n_columns b" if "i < en" for i
    using that assms(2,5) len(2) buf_wf_lengths(1) [OF assms(2)] by simp
  have live: "\<forall>(i, r) \<in> set ?es. r \<noteq> [] \<and> r ! 0 < u32_max" using rl assms(9) buf_wf_lengths(2) [OF assms(2)] by fastforce
  obtain out1 where out1: "rebuild_rows cn b [st..<en] out = Some (Ok out1)" "buf_wf out1" "n_columns out1 = n_columns b + 1"
    "tag_rows out1 = tag_rows out @ rebuilt cn ?es"
    using rebuild_rows_ok [OF assms(1-3) _ assms(6,7), of "[st..<en]"] assms(5,8) len by auto
  have buf: "rebuild_buf cn b st en out = Some (Ok out1)" using out1(1) assms(4,5) by (auto simp: rebuild_buf_def)
  obtain out2 where out2: "rebuild_subset cn ?es out = Some (Ok out2)" "buf_wf out2" "n_columns out2 = n_columns out"
    "tag_rows out2 = tag_rows out @ map (mark cn) ?es"
    using rebuild_subset_ok [OF assms(1) _ n assms(6), of ?es] assms(3,7,8) len rl by auto
  have "tag_non_stale out1 = tag_non_stale out2"
    using tag_non_stale_rows [OF out1(2)] tag_non_stale_rows [OF out2(2)] out1(3) out2(3) n assms(7) mark_non_stale [OF live, of cn]
    by (simp add: out1(4) out2(4))
  with buf out1(4) out2(1) es show ?thesis by metis
qed

definition sample_canonicalizer :: canonicalizer where
  "sample_canonicalizer = \<lparr>can_cols = [0, 1], can_uf = \<lparr>parents = [0, 1, 1]\<rparr>\<rparr>"

theorem rebuild_paths_agree_witness:
  "\<exists>out1 out2. rebuild_buf sample_canonicalizer two_rows 0 2 \<lparr>n_columns = 3, total_rows = 0, buf_data = []\<rparr> = Some (Ok out1) \<and>
     rebuild_subset sample_canonicalizer [(0, [1, 2]), (1, [3, 4])] \<lparr>n_columns = 3, total_rows = 0, buf_data = []\<rparr> = Some (Ok out2) \<and>
     tag_rows out1 = [(0, [1, 1])] \<and> tag_non_stale out1 = tag_non_stale out2"
proof -
  let ?out = "\<lparr>n_columns = 3, total_rows = 0, buf_data = []\<rparr>"
  have uf: "uf_wf (can_uf sample_canonicalizer)"
    by (auto simp: uf_wf_def sample_canonicalizer_def nth_Cons less_Suc_eq split: nat.splits)
  have rep: "uf_rep (can_uf sample_canonicalizer) c = (if c = 2 then 1 else c)" for c
    by (auto simp: sample_canonicalizer_def uf_rep_def root.simps nth_Cons split: nat.splits)
  have out: "buf_wf ?out" "tag_rows ?out = []" by (simp_all add: buf_wf_def holds_def buf_rows_def slice_chunks.simps tag_rows_def)
  have small: "\<forall>c \<in> set (can_cols sample_canonicalizer). c < n_columns two_rows" "2 \<le> buf_len two_rows"
    "n_columns ?out = n_columns two_rows + 1" "buf_len ?out + (2 - 0) \<le> u32_max" "\<forall>i \<in> {0..<2}. buf_rows two_rows ! i ! 0 < u32_max"
    using two_rows_wf(2) by (auto simp: sample_canonicalizer_def two_rows_def buf_len_def u32_max_def nth_Cons split: nat.splits)
  have rows: "[0..<2] = [0, 1]" "canon_row sample_canonicalizer [1, 2] = [1, 1]" "canon_row sample_canonicalizer [3, 4] = [3, 4]"
    using rep by (simp_all add: canon_row_def rep upt_rec sample_canonicalizer_def)
  from rebuild_paths_agree [OF uf two_rows_wf(1) small(1) _ small(2) out(1) small(3-5)]
  show ?thesis by (simp add: rows [unfolded One_nat_def] two_rows_wf(2) out(2))
qed

fun stage_all :: "uf_buffer \<Rightarrow> row list \<Rightarrow> uf_buffer result" where
  "stage_all u [] = Ok u"
| "stage_all u (r # rs) = and_then (stage_insert u r) (\<lambda>u. stage_all u rs)"

lemma stage_all_rows: "and_then (stage_all u rs) (\<lambda>u. Ok (to_insert u)) = plain_rows.add_all rs (to_insert u)"
  by (induction rs arbitrary: u) (auto simp: stage_insert_def and_then_def split: sum.splits)

text \<open>
  Rows staged in a fresh buffer reach the queue of the table as they are and in their order
  when the buffer is dropped, behind what was staged before.  Once the table is gone the buffer is
  dropped without effect, and staging a removal always panics.
\<close>

theorem staged_rows_queued:
  assumes "\<forall>r \<in> set rs. length r = 3" "length rs \<le> u32_max"
  shows "\<exists>u0 u t'. dt_new_buffer t = Ok u0 \<and> stage_all u0 rs = Ok u \<and> drop_buffer u (Some t) = Some t' \<and>
    buf_wf (to_insert u) \<and> buf_rows (to_insert u) = rs \<and> n_columns (to_insert u) = 3 \<and>
    t' = t\<lparr>buffered_writes := buffered_writes t @ [to_insert u]\<rparr> \<and>
    drop_buffer u None = None \<and> stage_remove u key = Err ExplicitPanic"
proof -
  let ?b = "\<lparr>n_columns = 3, total_rows = 0, buf_data = []\<rparr>"
  have "buf_wf ?b" "buf_rows ?b = []" by (simp_all add: buf_wf_def holds_def buf_rows_def slice_chunks.simps)
  then obtain b where b: "plain_rows.add_all rs ?b = Ok b" "buf_wf b" "buf_rows b = rs" "(\<lambda>r :: row. length r = n_columns b) = (\<lambda>r. length r = n_columns ?b)"
    using plain_rows.add_all_content [of ?b rs] assms by auto
  from fun_cong [OF b(4), of "[0, 0, 0]"] have cols: "n_columns b = 3" by simp
  from b(1) stage_all_rows [of "\<lparr>to_insert = ?b\<rparr>" rs] obtain u where "stage_all \<lparr>to_insert = ?b\<rparr> rs = Ok u" "to_insert u = b"
    by (auto elim!: and_then_OkE)
  with b cols show ?thesis by (auto simp: dt_new_buffer_def buf_new_def drop_buffer_def stage_remove_def)
qed

theorem staged_rows_queued_witness:
  "\<exists>u0 u. dt_new_buffer dt_default = Ok u0 \<and> stage_all u0 [[2, 1, 0], [3, 1, 5]] = Ok u \<and> buf_rows (to_insert u) = [[2, 1, 0], [3, 1, 5]]"
  using staged_rows_queued [of "[[2, 1, 0], [3, 1, 5]]" dt_default "[]"] by (auto simp: u32_max_def)

end
