(* ===== verification/RadixSort.thy ===== *)
theory RadixSort
  imports NumericId "HOL-Library.Multiset" "HOL-Library.Word" "HOL-Library.Product_Lexorder"
begin

text \<open>
  The stable radix sort of \<open>egglog/core-relations/src/hash_index/radix_sort.rs\<close>: pairs of a 32-bit
  value and a row id, sorted by value with digits of 8 or 11 bits, with passes over digits that
  do not vary left out.  Values, masks and counters are 32-bit words.  The three additions to
  counters (\<open>count += 1\<close> twice, \<open>sum += old\<close>) are checked: one that does not fit 32 bits is the
  error \<open>ArithOverflow\<close>, so a result \<open>Ok\<close> says that no counter overflowed.
\<close>

section \<open>Model\<close>

unbundle bit_operations_syntax

type_synonym rep = "32 word"
type_synonym index_pair = "rep \<times> nat"

definition wide_radix_min_rows :: nat where
  "wide_radix_min_rows = 8192"

definition digit_bits :: "nat \<Rightarrow> rep \<Rightarrow> nat" where
  "digit_bits len varying =
     (if len < wide_radix_min_rows then 8
      else
        let byte_passes = of_bool (varying AND 0x000000ff \<noteq> 0) + of_bool (varying AND 0x0000ff00 \<noteq> 0)
              + of_bool (varying AND 0x00ff0000 \<noteq> 0) + of_bool (varying AND 0xff000000 \<noteq> 0) :: nat;
            wide_passes = of_bool (varying AND 0x000007ff \<noteq> 0) + of_bool (varying AND 0x003ff800 \<noteq> 0)
              + of_bool (varying AND 0xffc00000 \<noteq> 0) :: nat in
        if wide_passes < byte_passes then 11 else 8)"

record sort_metadata =
  varying :: rep
  in_order :: bool

text \<open>The loop keeps the metadata and the previous value.\<close>

fun scan_pairs :: "rep \<Rightarrow> index_pair list \<Rightarrow> sort_metadata \<Rightarrow> rep \<Rightarrow> sort_metadata" where
  "scan_pairs first [] md prev = md"
| "scan_pairs first ((v, _) # ps) md prev =
     scan_pairs first ps (md\<lparr>varying := varying md OR (first XOR v), in_order := in_order md \<and> prev \<le> v\<rparr>) v"

definition scan_metadata :: "index_pair list \<Rightarrow> sort_metadata result" where
  "scan_metadata ps =
     and_then (vec_get ps 0) (\<lambda>(first, _). Ok (scan_pairs first ps \<lparr>varying = 0, in_order = True\<rparr> first))"

definition digit :: "nat \<Rightarrow> rep \<Rightarrow> rep \<Rightarrow> nat" where
  "digit shift msk v = unat (drop_bit shift v AND msk)"

text \<open>Addition on \<open>u32\<close>, with the overflow check.\<close>

definition add_rep :: "rep \<Rightarrow> rep \<Rightarrow> rep result" where
  "add_rep a b = (if unat a + unat b \<le> u32_max then Ok (a + b) else Err ArithOverflow)"

fun histogram :: "nat \<Rightarrow> rep \<Rightarrow> index_pair list \<Rightarrow> rep list \<Rightarrow> rep list result" where
  "histogram shift msk [] cnt = Ok cnt"
| "histogram shift msk ((v, _) # ps) cnt =
     (let b = digit shift msk v in
      and_then (vec_get cnt b) (\<lambda>n.
      and_then (add_rep n 1) (\<lambda>n. histogram shift msk ps (cnt[b := n]))))"

text \<open>The running sums replace the counts; the last sum is computed too, and not used.\<close>

fun prefix_sums :: "rep list \<Rightarrow> rep \<Rightarrow> rep list result" where
  "prefix_sums [] acc = Ok []"
| "prefix_sums (old # cnt) acc =
     and_then (add_rep acc old) (\<lambda>acc'. and_then (prefix_sums cnt acc') (\<lambda>cnt. Ok (acc # cnt)))"

fun scatter :: "nat \<Rightarrow> rep \<Rightarrow> index_pair list \<Rightarrow> rep list \<Rightarrow> index_pair list \<Rightarrow> index_pair list result" where
  "scatter shift msk [] cnt dst = Ok dst"
| "scatter shift msk ((v, r) # ps) cnt dst =
     (let b = digit shift msk v in
      and_then (vec_get cnt b) (\<lambda>n.
      and_then (vec_set dst (unat n) (v, r)) (\<lambda>dst.
      and_then (add_rep n 1) (\<lambda>n. scatter shift msk ps (cnt[b := n]) dst))))"

definition radix_pass :: "nat \<Rightarrow> nat \<Rightarrow> rep \<Rightarrow> index_pair list \<Rightarrow> index_pair list \<Rightarrow> index_pair list result" where
  "radix_pass buckets shift msk src dst =
     and_then (histogram shift msk src (replicate buckets 0)) (\<lambda>cnt.
     and_then (prefix_sums cnt 0) (\<lambda>cnt. scatter shift msk src cnt dst))"

text \<open>The loop over the digits: the buffers swap roles after every pass.\<close>

function radix_loop :: "nat \<Rightarrow> rep \<Rightarrow> nat \<Rightarrow> nat \<Rightarrow> index_pair list \<Rightarrow> index_pair list \<Rightarrow> nat \<Rightarrow>
    (index_pair list \<times> index_pair list \<times> nat) result" where
  "radix_loop buckets vary bits shift src dst passes =
     (if shift < 32 \<and> 0 < bits then
        (let msk = of_nat (buckets - 1) in
         if drop_bit shift vary AND msk \<noteq> 0
         then and_then (radix_pass buckets shift msk src dst) (\<lambda>dst.
                radix_loop buckets vary bits (shift + bits) dst src (passes + 1))
         else radix_loop buckets vary bits (shift + bits) src dst passes)
      else Ok (src, dst, passes))"
  by pat_completeness auto
termination
  by (relation "measure (\<lambda>(buckets, vary, bits, shift, src, dst, passes). 32 - shift)") auto

declare radix_loop.simps [simp del]

text \<open>
  The contents of the two slices at the end.  After an odd number of passes the sorted pairs are in
  the scratch space and are copied to the data; the part of the scratch space behind the data is
  not touched.
\<close>

definition radix_digits :: "nat \<Rightarrow> index_pair list \<Rightarrow> index_pair list \<Rightarrow> sort_metadata \<Rightarrow> nat \<Rightarrow>
    (index_pair list \<times> index_pair list) result" where
  "radix_digits buckets ps scr md bits =
     and_then (vec_slice scr 0 (length ps)) (\<lambda>dst.
     and_then (radix_loop buckets (varying md) bits 0 ps dst 0) (\<lambda>(src, dst, passes).
       let rest = drop (length ps) scr in
       if passes mod 2 = 1 then Ok (src, src @ rest) else Ok (src, dst @ rest)))"

definition radix_sort :: "index_pair list \<Rightarrow> index_pair list \<Rightarrow> (index_pair list \<times> index_pair list) result" where
  "radix_sort ps scr =
     (if length ps < 64 then Ok (sort ps, scr)
      else and_then (scan_metadata ps) (\<lambda>md.
        if in_order md then Ok (ps, scr)
        else if \<not> length ps \<le> u32_max then Ok (sort_key fst ps, scr)
        else if digit_bits (length ps) (varying md) = 11 then radix_digits 2048 ps scr md 11
        else radix_digits 256 ps scr md 8))"

section \<open>Stable sorting\<close>

lemma filter_pairs_in_order:
  assumes "sorted_wrt R (filter P xs)" "i < j" "j < length xs" "P (xs ! i)" "P (xs ! j)"
  shows "R (xs ! i) (xs ! j)"
proof -
  have "filter P xs = filter P (take j xs) @ xs ! j # filter P (drop (Suc j) xs)"
    by (subst id_take_nth_drop [OF assms(3)]) (simp add: assms(5))
  moreover have "xs ! i \<in> set (filter P (take j xs))"
    using assms by (auto simp: in_set_conv_nth intro: exI [of _ i])
  ultimately show ?thesis using assms(1) by (simp add: sorted_wrt_append)
qed

text \<open>Sorting by a minor and then by a major key sorts by both.\<close>

lemma sort_key_major_minor:
  fixes major minor :: "'a \<Rightarrow> nat"
  assumes "\<And>x. x \<in> set xs \<Longrightarrow> minor x < m"
  shows "sort_key major (sort_key minor xs) = sort_key (\<lambda>x. major x * m + minor x) xs"
proof (rule sym, rule properties_for_sort_key)
  let ?ys = "sort_key major (sort_key minor xs)" and ?h = "\<lambda>x. major x * m + minor x"
  show "mset ?ys = mset xs" by simp
  have eq: "?h x = ?h y \<longleftrightarrow> major x = major y \<and> minor x = minor y" if "x \<in> set xs" "y \<in> set xs" for x y
    using assms [OF that(1)] assms [OF that(2)] by (metis div_mult_self3 div_less mod_mult_self3 mod_less add.commute add_0 less_nat_zero_code not_gr_zero)
  show "filter (\<lambda>x. ?h k = ?h x) ?ys = filter (\<lambda>x. ?h k = ?h x) xs" if "k \<in> set ?ys" for k
  proof -
    let ?maj = "filter (\<lambda>x. major x = major k)" and ?min = "filter (\<lambda>x. minor x = minor k)"
    have both: "filter (\<lambda>x. ?h k = ?h x) zs = ?min (?maj zs)" if "set zs \<subseteq> set xs" for zs
      using eq \<open>k \<in> set ?ys\<close> that by (auto simp: filter_filter intro!: filter_cong)
    have swap: "?min (?maj zs) = ?maj (?min zs)" for zs by (simp add: filter_filter conj_commute)
    have "?min (?maj ?ys) = ?min (?maj (sort_key minor xs))" by (simp only: sort_key_stable)
    also have "\<dots> = ?min (?maj xs)" by (simp only: swap sort_key_stable)
    finally show ?thesis using both [of ?ys] both [of xs] by simp
  qed
  show "sorted (map ?h ?ys)"
  proof (rule sorted_wrt_iff_nth_less [THEN iffD2], intro allI impI)
    fix i j assume ij: "i < j" "j < length (map ?h ?ys)"
    let ?x = "?ys ! i" and ?y = "?ys ! j"
    have mem: "?x \<in> set xs" "?y \<in> set xs" using ij nth_mem [of i ?ys] nth_mem [of j ?ys] by auto
    have "major ?x \<le> major ?y" using sorted_nth_mono [of "map major ?ys" i j] ij by simp
    moreover have "minor ?x \<le> minor ?y" if "major ?x = major ?y"
    proof -
      have "sorted_wrt (\<lambda>x y. minor x \<le> minor y) (filter (\<lambda>x. major x = major ?y) ?ys)"
        using sorted_filter [of minor "sort_key minor xs"] by (simp add: sort_key_stable flip: sorted_wrt_map)
      from filter_pairs_in_order [OF this ij(1)] ij(2) that show ?thesis by simp
    qed
    moreover have "?h ?x < ?h ?y" if "major ?x < major ?y"
    proof -
      have "?h ?x < Suc (major ?x) * m" using assms [OF mem(1)] by simp
      also have "\<dots> \<le> major ?y * m" using that by (intro mult_le_mono1) simp
      finally show ?thesis by simp
    qed
    ultimately show "map ?h ?ys ! i \<le> map ?h ?ys ! j" using ij by (cases "major ?x = major ?y") (auto intro: less_imp_le)
  qed
qed

text \<open>A stable sort by a bounded key is the concatenation of the buckets.\<close>

definition bucket :: "('a \<Rightarrow> nat) \<Rightarrow> 'a list \<Rightarrow> nat \<Rightarrow> 'a list" where
  "bucket key xs b = filter (\<lambda>x. key x = b) xs"

definition buckets_upto :: "('a \<Rightarrow> nat) \<Rightarrow> 'a list \<Rightarrow> nat \<Rightarrow> 'a list" where
  "buckets_upto key xs n = concat (map (bucket key xs) [0..<n])"

definition bucket_start :: "('a \<Rightarrow> nat) \<Rightarrow> 'a list \<Rightarrow> nat \<Rightarrow> nat" where
  "bucket_start key xs b = length (filter (\<lambda>x. key x < b) xs)"

lemma buckets_upto_Suc: "buckets_upto key xs (Suc n) = buckets_upto key xs n @ bucket key xs n"
  by (simp add: buckets_upto_def)

lemma bucket_start_Suc: "bucket_start key xs (Suc b) = bucket_start key xs b + length (bucket key xs b)"
  unfolding bucket_start_def bucket_def by (induction xs) auto

lemma buckets_upto_length: "length (buckets_upto key xs n) = bucket_start key xs n"
  by (induction n) (simp_all add: buckets_upto_Suc bucket_start_Suc, simp add: buckets_upto_def bucket_start_def)

lemma bucket_start_mono: "b \<le> c \<Longrightarrow> bucket_start key xs b \<le> bucket_start key xs c"
  by (induction rule: dec_induct) (simp_all add: bucket_start_Suc)

lemma bucket_start_total: "\<forall>x \<in> set xs. key x < n \<Longrightarrow> bucket_start key xs n = length xs"
  by (simp add: bucket_start_def)

lemma buckets_upto_nth:
  "b < n \<Longrightarrow> j < length (bucket key xs b) \<Longrightarrow> buckets_upto key xs n ! (bucket_start key xs b + j) = bucket key xs b ! j"
proof (induction n)
  case (Suc n)
  show ?case
  proof (cases "b = n")
    case True
    then show ?thesis using buckets_upto_length [of key xs n] by (simp add: buckets_upto_Suc nth_append)
  next
    case False
    with Suc have "bucket_start key xs b + j < bucket_start key xs n"
      using bucket_start_mono [of "Suc b" n key xs] by (simp add: bucket_start_Suc)
    with Suc False show ?thesis by (simp add: buckets_upto_Suc nth_append buckets_upto_length)
  qed
qed simp

lemma bucket_position:
  "i < bucket_start key xs n \<Longrightarrow> \<exists>b < n. \<exists>j < length (bucket key xs b). i = bucket_start key xs b + j"
proof (induction n)
  case (Suc n)
  show ?case
  proof (cases "i < bucket_start key xs n")
    case True
    with Suc.IH show ?thesis by (meson less_SucI)
  next
    case False
    with Suc.prems have "i - bucket_start key xs n < length (bucket key xs n)" "i = bucket_start key xs n + (i - bucket_start key xs n)"
      by (simp_all add: bucket_start_Suc)
    then show ?thesis by blast
  qed
qed (simp add: bucket_start_def)

lemma sort_key_buckets:
  assumes "\<forall>x \<in> set xs. key x < n"
  shows "sort_key key xs = buckets_upto key xs n"
proof (rule properties_for_sort_key)
  have "mset (buckets_upto key xs n) = mset (filter (\<lambda>x. key x < n) xs)" for n
  proof (induction n)
    case (Suc n)
    have "mset (filter (\<lambda>x. key x < Suc n) xs) = mset (filter (\<lambda>x. key x < n) xs) + mset (bucket key xs n)"
      unfolding bucket_def by (induction xs) auto
    with Suc show ?case by (simp add: buckets_upto_Suc)
  qed (simp add: buckets_upto_def)
  moreover have "filter (\<lambda>x. key x < n) xs = xs" using assms by simp
  ultimately show "mset (buckets_upto key xs n) = mset xs" by metis
  have one: "filter (\<lambda>x. c = key x) (buckets_upto key xs n) = (if c < n then bucket key xs c else [])" for c
  proof (induction n)
    case (Suc n)
    have "filter (\<lambda>x. c = key x) (bucket key xs n) = (if c = n then bucket key xs n else [])"
      by (auto simp: bucket_def filter_empty_conv filter_id_conv intro: filter_cong)
    with Suc show ?case by (auto simp: buckets_upto_Suc less_Suc_eq)
  qed (simp add: buckets_upto_def)
  show "filter (\<lambda>x. key k = key x) (buckets_upto key xs n) = filter (\<lambda>x. key k = key x) xs" if "k \<in> set (buckets_upto key xs n)" for k
  proof -
    have "key k < n" using that by (auto simp: buckets_upto_def bucket_def)
    then show ?thesis unfolding one by (simp add: bucket_def eq_commute)
  qed
  show "sorted (map key (buckets_upto key xs n))"
    using sorted_map_same [of key "\<lambda>_. _" xs]
    by (induction n) (auto simp: buckets_upto_Suc sorted_append buckets_upto_def bucket_def)
qed

section \<open>One pass\<close>

lemma bucket_append: "bucket key (xs @ ys) b = bucket key xs b @ bucket key ys b"
  by (simp add: bucket_def)

lemma add_rep_Ok_iff: "add_rep a b = Inr c \<longleftrightarrow> unat a + unat b \<le> u32_max \<and> unat c = unat a + unat b"
proof -
  have sum: "unat (a + b) = unat a + unat b" if "unat a + unat b \<le> u32_max"
    using that by (intro unat_add_lem [THEN iffD1]) (simp add: u32_max_def)
  have "(if P then Ok x else Err e) = Inr c \<longleftrightarrow> P \<and> x = c" for P and x :: rep and e :: panic by auto
  with sum show ?thesis unfolding add_rep_def by (metis word_unat_eq_iff)
qed

lemma add_rep_ok: "unat a + unat b \<le> u32_max \<Longrightarrow> \<exists>c. add_rep a b = Ok c \<and> unat c = unat a + unat b"
  using add_rep_Ok_iff [of a b "a + b"] by (simp add: add_rep_def)

lemma histogram_counts:
  assumes "key = (\<lambda>p. digit shift msk (fst p))"
  shows "\<forall>p \<in> set ps. key p < length cnt \<Longrightarrow> \<forall>b < length cnt. unat (cnt ! b) + length (bucket key ps b) \<le> u32_max \<Longrightarrow>
    \<exists>cnt'. histogram shift msk ps cnt = Ok cnt' \<and> length cnt' = length cnt \<and>
      (\<forall>b < length cnt. unat (cnt' ! b) = unat (cnt ! b) + length (bucket key ps b))"
proof (induction ps arbitrary: cnt)
  case (Cons p ps)
  obtain v r where p: "p = (v, r)" by (cases p)
  let ?b = "digit shift msk v"
  have b: "?b < length cnt" "key p = ?b" using Cons.prems p assms by simp_all
  have lens: "length (bucket key (p # ps) c) = of_bool (c = ?b) + length (bucket key ps c)" for c
    using b(2) by (simp add: bucket_def)
  have "unat (cnt ! ?b) + unat (1 :: rep) \<le> u32_max" using Cons.prems(2) b(1) lens [of ?b] by fastforce
  from add_rep_ok [OF this] obtain n where n: "add_rep (cnt ! ?b) 1 = Ok n" "unat n = unat (cnt ! ?b) + 1" by auto
  have "\<forall>c < length cnt. unat (cnt[?b := n] ! c) + length (bucket key ps c) = unat (cnt ! c) + length (bucket key (p # ps) c)"
    using lens n(2) by (simp add: nth_list_update_if)
  with Cons.IH [of "cnt[?b := n]"] Cons.prems p b n(1) show ?case by (simp add: Let_def)
qed (simp add: bucket_def)

lemma prefix_sums_ok:
  "unat acc + (\<Sum>n\<leftarrow>cnt. unat n) \<le> u32_max \<Longrightarrow> \<exists>st. prefix_sums cnt acc = Ok st \<and> length st = length cnt \<and>
    (\<forall>b < length cnt. unat (st ! b) = unat acc + (\<Sum>n\<leftarrow>take b cnt. unat n))"
proof (induction cnt arbitrary: acc)
  case (Cons old cnt)
  from add_rep_ok [of acc old] Cons.prems obtain s where s: "add_rep acc old = Ok s" "unat s = unat acc + unat old" by auto
  with Cons.IH [of s] Cons.prems show ?case by (fastforce simp: nth_Cons' take_Cons' add.assoc)
qed simp

lemma counts_start:
  assumes "\<forall>b < length cnt. unat (cnt ! b) = length (bucket key xs b)"
  shows "b \<le> length cnt \<Longrightarrow> (\<Sum>n\<leftarrow>take b cnt. unat n) = bucket_start key xs b"
proof (induction b)
  case (Suc b)
  with assms show ?case by (simp add: take_Suc_conv_app_nth bucket_start_Suc)
qed (simp add: bucket_start_def)

text \<open>The entries of the first buckets are in place.\<close>

definition placed :: "('a \<Rightarrow> nat) \<Rightarrow> 'a list \<Rightarrow> 'a list \<Rightarrow> nat \<Rightarrow> 'a list \<Rightarrow> bool" where
  "placed key src pre n dst \<longleftrightarrow>
     (\<forall>b < n. \<forall>j < length (bucket key pre b). dst ! (bucket_start key src b + j) = bucket key pre b ! j)"

lemma placed_next:
  assumes "placed key src pre n dst" "src = pre @ p # ps" "length dst = length src"
  shows "bucket_start key src (key p) + length (bucket key pre (key p)) < length src"
    "placed key src (pre @ [p]) n (dst[bucket_start key src (key p) + length (bucket key pre (key p)) := p])"
proof -
  let ?s = "bucket_start key src" and ?b = "key p"
  let ?pos = "?s ?b + length (bucket key pre ?b)"
  have lens: "length (bucket key src b) = length (bucket key pre b) + of_bool (b = ?b) + length (bucket key ps b)" for b
    by (simp add: assms(2) bucket_def)
  have next_start: "?s b + length (bucket key src b) = ?s (Suc b)" for b by (simp add: bucket_start_Suc)
  have "?pos < ?s (Suc ?b)" using lens [of ?b] next_start [of ?b] by simp
  moreover have "?s (Suc ?b) \<le> length src" by (simp add: bucket_start_def)
  ultimately show pos: "?pos < length src" by simp
  show "placed key src (pre @ [p]) n (dst[?pos := p])"
    unfolding placed_def
  proof (intro allI impI)
    fix b j assume b: "b < n" and j: "j < length (bucket key (pre @ [p]) b)"
    show "dst[?pos := p] ! (?s b + j) = bucket key (pre @ [p]) b ! j"
    proof (cases "b = ?b \<and> j = length (bucket key pre b)")
      case True
      with pos assms(3) show ?thesis by (simp add: bucket_append bucket_def)
    next
      case False
      with j have j': "j < length (bucket key pre b)" by (auto simp: bucket_append bucket_def split: if_splits)
      have "?s b + j < ?s (Suc b)" using j' lens [of b] next_start [of b] by simp
      moreover have "Suc b \<le> ?b \<Longrightarrow> ?s (Suc b) \<le> ?s ?b" "Suc ?b \<le> b \<Longrightarrow> ?s (Suc ?b) \<le> ?s b" by (simp_all add: bucket_start_mono)
      ultimately have "?s b + j \<noteq> ?pos" using j' \<open>?pos < ?s (Suc ?b)\<close> by (cases b ?b rule: linorder_cases) auto
      with j' b assms(1) show ?thesis by (simp add: bucket_append nth_append placed_def)
    qed
  qed
qed

lemma scatter_places:
  assumes "key = (\<lambda>p. digit shift msk (fst p))" "length src \<le> u32_max" "\<forall>p \<in> set src. key p < n"
  shows "src = pre @ ps \<Longrightarrow> length cnt = n \<Longrightarrow> \<forall>b < n. unat (cnt ! b) = bucket_start key src b + length (bucket key pre b) \<Longrightarrow>
    length dst = length src \<Longrightarrow> placed key src pre n dst \<Longrightarrow>
    \<exists>dst'. scatter shift msk ps cnt dst = Ok dst' \<and> length dst' = length src \<and> placed key src src n dst'"
proof (induction ps arbitrary: pre cnt dst)
  case (Cons p ps)
  obtain v r where p: "p = (v, r)" by (cases p)
  let ?b = "key p"
  let ?pos = "bucket_start key src ?b + length (bucket key pre ?b)"
  have b: "?b < n" "digit shift msk v = ?b" using Cons.prems(1) assms(1,3) p by simp_all
  note nx = placed_next [OF Cons.prems(5,1,4)]
  have c: "unat (cnt ! ?b) = ?pos" using Cons.prems(3) b(1) by simp
  with nx(1) assms(2) obtain k where k: "add_rep (cnt ! ?b) 1 = Ok k" "unat k = ?pos + 1"
    using add_rep_ok [of "cnt ! ?b" 1] by auto
  then have run: "scatter shift msk (p # ps) cnt dst = scatter shift msk ps (cnt[?b := k]) (dst[?pos := p])"
    using p b c Cons.prems(2,4) nx(1) by (simp add: Let_def)
  have "\<forall>c < n. unat (cnt[?b := k] ! c) = bucket_start key src c + length (bucket key (pre @ [p]) c)"
    using Cons.prems(2,3) k(2) by (auto simp: nth_list_update_if bucket_def)
  from Cons.IH [OF _ _ this _ nx(2)] Cons.prems(1,2,4) run show ?case by simp
qed (auto simp: placed_def)

lemma placed_sorted:
  assumes "placed key src src n dst" "length dst = length src" "\<forall>p \<in> set src. key p < n"
  shows "dst = sort_key key src"
proof (rule nth_equalityI)
  show "length dst = length (sort_key key src)" using assms(2) by simp
  fix i assume "i < length dst"
  then have "i < bucket_start key src n" using assms(2) bucket_start_total [OF assms(3)] by simp
  then obtain b j where "b < n" "j < length (bucket key src b)" "i = bucket_start key src b + j" using bucket_position by blast
  with assms(1) show "dst ! i = sort_key key src ! i" by (simp add: placed_def sort_key_buckets [OF assms(3)] buckets_upto_nth)
qed

text \<open>A pass sorts by the digit, keeps the order within it, and no counter overflows.\<close>

lemma radix_pass_sorts:
  assumes key: "key = (\<lambda>p. digit shift msk (fst p))" and len: "length src \<le> u32_max" "length dst = length src"
    and small: "\<forall>p \<in> set src. key p < n"
  shows "radix_pass n shift msk src dst = Ok (sort_key key src)"
proof -
  have "length (bucket key src b) \<le> u32_max" for b
    unfolding bucket_def by (rule order_trans [OF length_filter_le len(1)])
  then obtain cnt where cnt: "histogram shift msk src (replicate n 0) = Ok cnt" "length cnt = n"
    "\<forall>b < n. unat (cnt ! b) = length (bucket key src b)"
    using histogram_counts [OF key, of src "replicate n 0"] small by auto
  note starts = counts_start [of cnt key src, unfolded cnt(2), OF cnt(3)]
  from starts [of n] cnt(2) len(1) bucket_start_total [OF small] prefix_sums_ok [of 0 cnt] starts
  obtain st where st: "prefix_sums cnt 0 = Ok st" "length st = n" "\<forall>b < n. unat (st ! b) = bucket_start key src b"
    by auto
  have "placed key src [] n dst" by (simp add: placed_def bucket_def)
  then obtain dst' where "scatter shift msk src st dst = Ok dst'" "length dst' = length src" "placed key src src n dst'"
    using scatter_places [OF key len(1) small, of "[]" src st dst] st len(2) by (auto simp: bucket_def)
  with placed_sorted [of key src n dst'] small cnt(1) st(1) show ?thesis by (simp add: radix_pass_def)
qed

text \<open>
  The bound on the length is needed: the counts of more than \<open>u32_max\<close> pairs cannot be summed, so
  a pass over them never returns.
\<close>

lemma histogram_total:
  "histogram shift msk ps cnt = Ok cnt' \<Longrightarrow> (\<Sum>n\<leftarrow>cnt'. unat n) = (\<Sum>n\<leftarrow>cnt. unat n) + length ps"
proof (induction shift msk ps cnt rule: histogram.induct)
  case (2 shift msk v r ps cnt)
  let ?b = "digit shift msk v"
  from "2.prems" obtain n where n: "?b < length cnt" "add_rep (cnt ! ?b) 1 = Ok n" "histogram shift msk ps (cnt[?b := n]) = Ok cnt'"
    by (auto simp: Let_def vec_get_eq_Ok_iff elim!: and_then_OkE)
  have un: "unat n = unat (cnt ! ?b) + 1" using n(2) by (simp add: add_rep_Ok_iff)
  have split: "cnt = take ?b cnt @ cnt ! ?b # drop (Suc ?b) cnt" using n(1) by (rule id_take_nth_drop)
  have "(\<Sum>m\<leftarrow>cnt[?b := n]. unat m) = (\<Sum>m\<leftarrow>cnt. unat m) + 1"
    using un by (subst (2) split) (simp add: upd_conv_take_nth_drop [OF n(1)])
  with "2.IH" [OF refl _ n(2,3)] n(1) show ?case by simp
qed simp

lemma prefix_sums_bound: "prefix_sums cnt acc = Ok st \<Longrightarrow> cnt \<noteq> [] \<Longrightarrow> unat acc + (\<Sum>n\<leftarrow>cnt. unat n) \<le> u32_max"
proof (induction cnt arbitrary: acc st)
  case (Cons old cnt)
  then obtain s st' where "unat acc + unat old \<le> u32_max" "unat s = unat acc + unat old" "prefix_sums cnt s = Ok st'"
    by (auto simp: add_rep_Ok_iff elim!: and_then_OkE)
  with Cons.IH [of s st'] show ?case by (cases cnt) auto
qed simp

lemma radix_pass_overflow:
  assumes "u32_max < length src"
  shows "radix_pass n shift msk src dst \<noteq> Ok dst'"
proof
  assume "radix_pass n shift msk src dst = Ok dst'"
  then obtain cnt st where run: "histogram shift msk src (replicate n 0) = Ok cnt" "prefix_sums cnt 0 = Ok st"
    by (auto simp: radix_pass_def elim!: and_then_OkE)
  from histogram_total [OF run(1)] have total: "(\<Sum>n\<leftarrow>cnt. unat n) = length src" by (simp add: map_replicate_const sum_list_replicate)
  with assms have "cnt \<noteq> []" by auto
  with prefix_sums_bound [OF run(2)] total assms show False by simp
qed

section \<open>Digits\<close>

lemma digit_div_mod:
  assumes "msk = mask b"
  shows "digit s msk v = unat v div 2 ^ s mod 2 ^ b"
proof -
  have "take_bit 32 (unat v) = unat v" using unsigned_less [of v, where ?'a = nat] by (simp add: take_bit_nat_eq_self)
  then have "digit s msk v = take_bit b (drop_bit s (unat v))"
    by (simp add: assms digit_def unsigned_drop_bit_eq unsigned_take_bit_eq flip: take_bit_eq_mask)
  then show ?thesis by (simp add: drop_bit_eq_div take_bit_eq_mod)
qed

lemma digit_combine: "unat v div 2 ^ s mod 2 ^ b * 2 ^ s + unat v mod 2 ^ s = unat (v :: rep) mod 2 ^ (s + b)"
  unfolding power_add mod_mult2_eq by (simp add: mult.commute)

lemma of_nat_mask: "(of_nat (2 ^ b - 1) :: rep) = mask b"
  by (simp add: mask_eq_exp_minus_1 of_nat_diff)

text \<open>Where the varying bits have no digit, all values have the same one.\<close>

lemma scan_varying:
  "bit (varying (scan_pairs first ps md prev)) n \<longleftrightarrow> bit (varying md) n \<or> (\<exists>p \<in> set ps. bit (first XOR fst p) n)"
  by (induction first ps md prev rule: scan_pairs.induct) (auto simp: bit_or_iff)

lemma scan_in_order:
  "in_order (scan_pairs first ps md prev) \<longleftrightarrow> in_order md \<and> sorted (map fst ps) \<and> (\<forall>p \<in> set ps. prev \<le> fst p)"
proof (induction first ps md prev rule: scan_pairs.induct)
  case (2 first v r ps md prev)
  then show ?case by (auto intro: order_trans)
qed simp

lemma digit_constant:
  assumes "drop_bit s (varying md) AND mask b = 0" "p \<in> set ps" "md = scan_pairs first ps \<lparr>varying = 0, in_order = True\<rparr> first"
  shows "digit s (mask b) (fst p) = digit s (mask b) first"
proof -
  have "bit (drop_bit s (fst p) AND mask b) n = bit (drop_bit s first AND mask b) n" for n
  proof (cases "n < b \<and> bit (varying md) (s + n)")
    case True
    then have "bit (drop_bit s (varying md) AND mask b) n"
      using bit_imp_le_length [of "varying md" "s + n"] by (simp add: bit_and_iff bit_drop_bit_eq bit_mask_iff)
    with assms(1) show ?thesis by simp
  next
    case False
    then have "n < b \<Longrightarrow> \<not> bit (first XOR fst p) (s + n)" using scan_varying [of first ps] assms(2,3) by auto
    then show ?thesis using bit_imp_le_length by (auto simp: bit_and_iff bit_drop_bit_eq bit_mask_iff bit_xor_iff)
  qed
  then have "drop_bit s (fst p) AND mask b = drop_bit s first AND mask b" by (rule bit_eqI)
  then show ?thesis by (simp add: digit_def)
qed

section \<open>All passes\<close>

lemma sort_key_constant: "\<forall>x \<in> set xs. f x = c \<Longrightarrow> sort_key f xs = xs"
  by (rule properties_for_sort_key) (auto simp: list_all_iff intro!: sorted_iff_nth_mono [THEN iffD2])

abbreviation low_bits :: "nat \<Rightarrow> index_pair \<Rightarrow> nat" where
  "low_bits s p \<equiv> unat (fst p) mod 2 ^ s"

lemma radix_loop_sorts:
  assumes len: "length ps \<le> u32_max" and bits: "0 < bits"
    and md: "md = scan_pairs first ps \<lparr>varying = 0, in_order = True\<rparr> first"
  shows "length dst = length ps \<Longrightarrow> src = sort_key (low_bits shift) ps \<Longrightarrow>
    \<exists>dst' passes'. radix_loop (2 ^ bits) (varying md) bits shift src dst passes = Ok (sort_key (\<lambda>p. unat (fst p)) ps, dst', passes') \<and>
      length dst' = length ps"
proof (induction "32 - shift" arbitrary: shift src dst passes rule: less_induct)
  case less
  let ?key = "\<lambda>p :: index_pair. digit shift (mask bits) (fst p)"
  have src: "set src = set ps" "length src = length ps" using less.prems(2) by simp_all
  show ?case
  proof (cases "shift < 32")
    case False
    then have "low_bits shift = (\<lambda>p. unat (fst p))"
    proof (intro ext)
      fix p :: index_pair
      have "(2 :: nat) ^ 32 \<le> 2 ^ shift" using False by (intro power_increasing) auto
      then show "low_bits shift p = unat (fst p)" using unsigned_less [of "fst p", where ?'a = nat] by simp
    qed
    with False less.prems show ?thesis by (simp add: radix_loop.simps)
  next
    case True
    have sorted_next: "sort_key ?key src = sort_key (low_bits (shift + bits)) ps"
      unfolding less.prems(2) digit_div_mod [OF refl]
      by (subst sort_key_major_minor [where m = "2 ^ shift"]) (simp_all add: digit_combine)
    note loop = radix_loop.simps [of "2 ^ bits" "varying md" bits shift src dst passes, unfolded of_nat_mask Let_def]
    show ?thesis
    proof (cases "drop_bit shift (varying md) AND mask bits = 0")
      case zero: True
      have "sort_key ?key src = src" using digit_constant [OF zero _ md] src(1) by (intro sort_key_constant) auto
      with sorted_next less.hyps [of "shift + bits" dst src passes] less.prems True bits zero loop show ?thesis by simp
    next
      case nonzero: False
      have "\<forall>p \<in> set src. ?key p < 2 ^ bits" by (simp add: digit_div_mod [OF refl])
      from radix_pass_sorts [OF refl _ _ this, of dst] less.prems(1) src(2) len
      have pass: "radix_pass (2 ^ bits) shift (mask bits) src dst = Ok (sort_key ?key src)" by simp
      from less.hyps [of "shift + bits" src "sort_key ?key src" "passes + 1"] True bits src(2) sorted_next pass nonzero loop
      show ?thesis by simp
    qed
  qed
qed

lemma radix_digits_sorts:
  assumes "length ps \<le> u32_max" "length ps \<le> length scr" "0 < bits" "scan_metadata ps = Ok md"
  shows "\<exists>scr'. radix_digits (2 ^ bits) ps scr md bits = Ok (sort_key fst ps, scr') \<and> length scr' = length scr"
proof -
  obtain first where md: "md = scan_pairs first ps \<lparr>varying = 0, in_order = True\<rparr> first"
    using assms(4) by (auto simp: scan_metadata_def elim!: and_then_OkE)
  have start: "ps = sort_key (low_bits 0) ps" by (rule sym, rule sort_key_constant [of _ _ 0]) simp
  have same: "sort_key (\<lambda>p. unat (fst p)) ps = sort_key fst ps"
  proof (rule properties_for_sort_key)
    show "filter (\<lambda>p. unat (fst k) = unat (fst p)) (sort_key fst ps) = filter (\<lambda>p. unat (fst k) = unat (fst p)) ps" for k :: index_pair
      using sort_key_stable [of fst "fst k" ps] by (simp add: eq_commute word_unat_eq_iff)
    have "sorted (map fst (sort_key fst ps))" by simp
    then show "sorted (map (\<lambda>p. unat (fst p)) (sort_key fst ps))" by (simp only: sorted_wrt_map word_le_nat_alt)
  qed simp
  from radix_loop_sorts [OF assms(1,3) md, of "take (length ps) scr" ps 0 0] start assms(2) same obtain dst passes where
    "radix_loop (2 ^ bits) (varying md) bits 0 ps (take (length ps) scr) 0 = Ok (sort_key fst ps, dst, passes)" "length dst = length ps"
    by auto
  with assms(2) show ?thesis by (simp add: radix_digits_def Let_def)
qed

text \<open>In the order of row ids, sorting the pairs sorts stably by value.\<close>

lemma sort_pairs:
  assumes "sorted (map snd (ps :: index_pair list))"
  shows "sort ps = sort_key fst ps"
proof (rule properties_for_sort)
  show "sorted (sort_key fst ps)"
    unfolding sorted_wrt_iff_nth_less
  proof (intro allI impI)
    fix i j assume ij: "i < j" "j < length (sort_key fst ps)"
    let ?x = "sort_key fst ps ! i" and ?y = "sort_key fst ps ! j"
    have "fst ?x \<le> fst ?y" using sorted_nth_mono [of "map fst (sort_key fst ps)" i j] ij by simp
    moreover have "snd ?x \<le> snd ?y" if "fst ?x = fst ?y"
    proof -
      have "sorted_wrt (\<lambda>p q. snd p \<le> snd q) (filter (\<lambda>p. fst p = fst ?y) (sort_key fst ps))"
        using sorted_filter [OF assms] by (simp add: sort_key_stable flip: sorted_wrt_map)
      from filter_pairs_in_order [OF this ij(1)] ij(2) that show ?thesis by simp
    qed
    ultimately show "?x \<le> ?y" by (auto simp: less_eq_prod_def order_less_le)
  qed
qed simp

lemma radix_sorts:
  assumes "sorted (map snd ps)" "length ps \<le> length scr"
  shows "\<exists>scr'. radix_sort ps scr = Ok (sort_key fst ps, scr') \<and> length scr' = length scr"
proof (cases "length ps < 64")
  case True
  with assms(1) show ?thesis by (simp add: radix_sort_def sort_pairs)
next
  case False
  then obtain p qs where "ps = p # qs" by (cases ps) auto
  then obtain md where md: "scan_metadata ps = Ok md" by (cases p) (simp add: scan_metadata_def)
  have sorted_already: "sort_key fst ps = ps" if "in_order md"
    using md that by (auto simp: scan_metadata_def scan_in_order sorted_sort_id sort_key_id_if_sorted elim!: and_then_OkE)
  from radix_digits_sorts [OF _ assms(2) _ md, of 11] radix_digits_sorts [OF _ assms(2) _ md, of 8] False md sorted_already
  show ?thesis by (auto simp: radix_sort_def)
qed

section \<open>Properties\<close>

text \<open>
  C9: The radix sort is a stable sort by value.  Given pairs in the order of their row ids and a
  scratch space at least as long, every path (the comparison sort of short inputs, the early return
  on sorted input, digits of 8 and of 11 bits with constant digits left out) leaves in the data the
  pairs sorted by value, in the order of their row ids within a value.  The result is \<open>Ok\<close>, so
  no access is outside a slice and none of the checked additions to a 32-bit counter overflows;
  \<open>radix_pass_overflow\<close> shows that a pass over more than \<open>u32_max\<close> pairs, which the guard on the
  length sends to the comparison sort, would.
\<close>

theorem radix_sort_stable:
  assumes "sorted (map snd ps)" "length ps \<le> length scr"
  shows "\<exists>scr'. radix_sort ps scr = Ok (sort_key fst ps, scr') \<and> length scr' = length scr"
  using radix_sorts [OF assms] .

theorem radix_sort_stable_witness:
  "\<exists>scr'. radix_sort [(7, 0), (3, 1), (7, 2), (3, 5)] (replicate 4 (0, 0)) = Ok ([(3, 1), (3, 5), (7, 0), (7, 2)], scr')"
  using radix_sort_stable [of "[(7, 0), (3, 1), (7, 2), (3, 5)]" "replicate 4 (0, 0)"] by auto

end
