(* ===== verification/MergeFunction.thy ===== *)
theory MergeFunction
  imports RowBuffer
begin

text \<open>
  Merge functions of \<open>egglog/egglog-bridge/src/lib.rs\<close>: what a function of the e-graph does when two rows
  with one key meet.  A merge function is checked, resolved against the e-graph and turned into the
  callback that the keyed table runs on every conflict; \<open>fill_deps\<close> names the tables that the callback may
  read and write.

  The operations of the execution state that a callback uses are the record \<open>state_ops\<close>, over a state of
  any type; what resolution reads from the e-graph is the record \<open>bridge_env\<close>.
\<close>

section \<open>Model\<close>

subsection \<open>The layout of a table\<close>

record schema_math =
  sm_subsume :: bool
  sm_n_keys :: nat
  sm_func_cols :: nat
  sm_n_identity_vals :: "nat option"

definition n_vals :: "schema_math \<Rightarrow> nat" where
  "n_vals sm = sm_func_cols sm - sm_n_keys sm"

definition table_columns :: "schema_math \<Rightarrow> nat" where
  "table_columns sm = sm_func_cols sm + 1 + (if sm_subsume sm then 1 else 0)"

definition val_col :: "schema_math \<Rightarrow> nat \<Rightarrow> nat" where
  "val_col sm i = sm_n_keys sm + i"

definition ret_val_col :: "schema_math \<Rightarrow> nat" where
  "ret_val_col sm = sm_n_keys sm"

definition ts_col :: "schema_math \<Rightarrow> nat" where
  "ts_col sm = sm_func_cols sm"

definition subsume_col :: "schema_math \<Rightarrow> nat result" where
  "subsume_col sm = (if sm_subsume sm then Ok (sm_func_cols sm + 1) else Err AssertFailed)"

record row_vals =
  rv_timestamp :: val
  rv_subsume :: "val option"
  rv_ret_val :: "val option"

definition resize_row :: "row \<Rightarrow> nat \<Rightarrow> val \<Rightarrow> row" where
  "resize_row r n v = take n r @ replicate (n - length r) v"

definition write_table_row :: "schema_math \<Rightarrow> row \<Rightarrow> row_vals \<Rightarrow> row result" where
  "write_table_row sm r rv =
     (let r = resize_row r (table_columns sm) (rv_timestamp rv) in
      and_then (vec_set r (ts_col sm) (rv_timestamp rv)) (\<lambda>r.
      and_then (case rv_ret_val rv of None \<Rightarrow> Ok r | Some v \<Rightarrow> vec_set r (ret_val_col sm) v) (\<lambda>r.
        case rv_subsume rv of
          Some s \<Rightarrow> and_then (subsume_col sm) (\<lambda>c. vec_set r c s)
        | None \<Rightarrow> if sm_subsume sm then Err AssertFailed else Ok r)))"

definition SUBSUMED :: val where
  "SUBSUMED = 1"

definition NOT_SUBSUMED :: val where
  "NOT_SUBSUMED = 0"

definition combine_subsumed :: "val \<Rightarrow> val \<Rightarrow> val" where
  "combine_subsumed v w = max v w"

subsection \<open>Merge functions and their dependencies\<close>

datatype merge_fn =
    MAssertEq
  | MUnionId
  | MPrimitive nat "merge_fn list"
  | MFunction nat "merge_fn list"
  | MOld
  | MNew
  | MOldCol nat
  | MNewCol nat
  | MLetVar nat
  | MConst val
  | MColumns "merge_fn list"
  | MLookup nat "merge_fn list"
  | MBlock "merge_action list" merge_fn
and merge_action =
    MSet nat "merge_fn list"
  | MLet nat merge_fn
  | MUnion merge_fn merge_fn

record bridge_env =
  be_name :: "nat \<Rightarrow> string"
  be_table :: "nat \<Rightarrow> nat"
  be_schema_len :: "nat \<Rightarrow> nat"
  be_uf_table :: nat
  be_new_panic :: "string \<Rightarrow> nat"
  be_external_write_table :: "nat \<Rightarrow> nat option"
  be_set_if_empty_table :: "nat \<Rightarrow> nat \<Rightarrow> nat option"

text \<open>\<open>IndexSet::insert\<close>.\<close>

definition index_insert :: "'a \<Rightarrow> 'a list \<Rightarrow> 'a list" where
  "index_insert x xs = (if x \<in> set xs then xs else xs @ [x])"

text \<open>The dependencies are the tables read and the tables written.\<close>

type_synonym deps = "nat list \<times> nat list"

definition read_dep :: "nat \<Rightarrow> deps \<Rightarrow> deps" where
  "read_dep tb = (\<lambda>(rs, ws). (index_insert tb rs, ws))"

definition write_dep :: "nat \<Rightarrow> deps \<Rightarrow> deps" where
  "write_dep tb = (\<lambda>(rs, ws). (rs, index_insert tb ws))"

primrec fill_deps :: "bridge_env \<Rightarrow> merge_fn \<Rightarrow> deps \<Rightarrow> deps"
  and fill_deps_action :: "bridge_env \<Rightarrow> merge_action \<Rightarrow> deps \<Rightarrow> deps"
  and fill_deps_list :: "bridge_env \<Rightarrow> merge_fn list \<Rightarrow> deps \<Rightarrow> deps"
  and fill_deps_actions :: "bridge_env \<Rightarrow> merge_action list \<Rightarrow> deps \<Rightarrow> deps"
where
  "fill_deps eg (MPrimitive p args) d =
     (let d = fill_deps_list eg args d;
          d = write_dep (be_uf_table eg) d;
          d = (case be_external_write_table eg p of Some tb \<Rightarrow> write_dep tb d | None \<Rightarrow> d) in
      case be_set_if_empty_table eg p (length args) of Some tb \<Rightarrow> write_dep tb (read_dep tb d) | None \<Rightarrow> d)"
| "fill_deps eg (MFunction f args) d = fill_deps_list eg args (write_dep (be_table eg f) (read_dep (be_table eg f) d))"
| "fill_deps eg MUnionId d = write_dep (be_uf_table eg) d"
| "fill_deps eg (MColumns cols) d = fill_deps_list eg cols d"
| "fill_deps eg (MLookup f args) d = fill_deps_list eg args (write_dep (be_table eg f) (read_dep (be_table eg f) d))"
| "fill_deps eg (MBlock actions res) d = fill_deps eg res (fill_deps_actions eg actions d)"
| "fill_deps eg MAssertEq d = d"
| "fill_deps eg MOld d = d"
| "fill_deps eg MNew d = d"
| "fill_deps eg (MOldCol i) d = d"
| "fill_deps eg (MNewCol i) d = d"
| "fill_deps eg (MLetVar i) d = d"
| "fill_deps eg (MConst v) d = d"
| "fill_deps_action eg (MSet f args) d = fill_deps_list eg args (write_dep (be_table eg f) d)"
| "fill_deps_action eg (MLet slot v) d = fill_deps eg v d"
| "fill_deps_action eg (MUnion a b) d = write_dep (be_uf_table eg) (fill_deps eg b (fill_deps eg a d))"
| "fill_deps_list eg [] d = d"
| "fill_deps_list eg (f # fs) d = fill_deps_list eg fs (fill_deps eg f d)"
| "fill_deps_actions eg [] d = d"
| "fill_deps_actions eg (a # as) d = fill_deps_actions eg as (fill_deps_action eg a d)"

text \<open>\<open>check_value_col_indices\<close> panics on a column that is not a value column.\<close>

primrec check_cols :: "nat \<Rightarrow> merge_fn \<Rightarrow> unit result"
  and check_cols_action :: "nat \<Rightarrow> merge_action \<Rightarrow> unit result"
  and check_cols_list :: "nat \<Rightarrow> merge_fn list \<Rightarrow> unit result"
  and check_cols_actions :: "nat \<Rightarrow> merge_action list \<Rightarrow> unit result"
where
  "check_cols n (MOldCol i) = (if i < n then Ok () else Err AssertFailed)"
| "check_cols n (MNewCol i) = (if i < n then Ok () else Err AssertFailed)"
| "check_cols n (MPrimitive p args) = check_cols_list n args"
| "check_cols n (MFunction f args) = check_cols_list n args"
| "check_cols n (MColumns args) = check_cols_list n args"
| "check_cols n (MLookup f args) = check_cols_list n args"
| "check_cols n (MBlock actions res) = and_then (check_cols_actions n actions) (\<lambda>_. check_cols n res)"
| "check_cols n MAssertEq = Ok ()"
| "check_cols n MOld = Ok ()"
| "check_cols n MNew = Ok ()"
| "check_cols n MUnionId = Ok ()"
| "check_cols n (MLetVar i) = Ok ()"
| "check_cols n (MConst v) = Ok ()"
| "check_cols_action n (MSet f args) = check_cols_list n args"
| "check_cols_action n (MLet slot v) = check_cols n v"
| "check_cols_action n (MUnion a b) = and_then (check_cols n a) (\<lambda>_. check_cols n b)"
| "check_cols_list n [] = Ok ()"
| "check_cols_list n (f # fs) = and_then (check_cols n f) (\<lambda>_. check_cols_list n fs)"
| "check_cols_actions n [] = Ok ()"
| "check_cols_actions n (a # as) = and_then (check_cols_action n a) (\<lambda>_. check_cols_actions n as)"

subsection \<open>Resolution\<close>

datatype merge_expr =
    RConst val
  | ROld
  | RNew
  | ROldCol nat
  | RNewCol nat
  | RLetVar nat
  | RAssertEq nat
  | RUnionId nat
  | RPrimitive nat "merge_expr list" nat
  | RFunction nat "merge_expr list" nat
  | RLookup nat "merge_expr list"

datatype resolved_action =
    RSet nat "merge_expr list"
  | RLet nat merge_expr
  | RUnion merge_expr merge_expr nat

text \<open>The messages of the panics; the id of a panic depends on its message only.\<close>

primrec resolve :: "string \<Rightarrow> bridge_env \<Rightarrow> merge_fn \<Rightarrow> merge_expr result"
  and resolve_list :: "string \<Rightarrow> bridge_env \<Rightarrow> merge_fn list \<Rightarrow> merge_expr list result"
where
  "resolve nm eg (MConst v) = Ok (RConst v)"
| "resolve nm eg MOld = Ok ROld"
| "resolve nm eg MNew = Ok RNew"
| "resolve nm eg (MOldCol i) = Ok (ROldCol i)"
| "resolve nm eg (MNewCol i) = Ok (RNewCol i)"
| "resolve nm eg (MLetVar i) = Ok (RLetVar i)"
| "resolve nm eg (MColumns cols) = Err ExplicitPanic"
| "resolve nm eg MAssertEq = Ok (RAssertEq (be_new_panic eg (''Illegal merge attempted for function '' @ nm)))"
| "resolve nm eg MUnionId = Ok (RUnionId (be_uf_table eg))"
| "resolve nm eg (MPrimitive p args) =
     and_then (resolve_list nm eg args) (\<lambda>args.
       Ok (RPrimitive p args (be_new_panic eg (''Merge function for '' @ nm @ '' primitive call failed''))))"
| "resolve nm eg (MFunction f args) =
     (if be_schema_len eg f \<noteq> length args + 1 then Err AssertFailed
      else and_then (resolve_list nm eg args) (\<lambda>args.
        Ok (RFunction (be_table eg f) args (be_new_panic eg (''Lookup on '' @ be_name eg f @ '' failed in the merge function for '' @ nm)))))"
| "resolve nm eg (MLookup f args) = and_then (resolve_list nm eg args) (\<lambda>args. Ok (RLookup (be_table eg f) args))"
| "resolve nm eg (MBlock actions res) = Err ExplicitPanic"
| "resolve_list nm eg [] = Ok []"
| "resolve_list nm eg (f # fs) = and_then (resolve nm eg f) (\<lambda>e. and_then (resolve_list nm eg fs) (\<lambda>es. Ok (e # es)))"

fun resolve_action :: "string \<Rightarrow> bridge_env \<Rightarrow> merge_action \<Rightarrow> resolved_action result" where
  "resolve_action nm eg (MSet f args) = and_then (resolve_list nm eg args) (\<lambda>args. Ok (RSet (be_table eg f) args))"
| "resolve_action nm eg (MLet slot v) = and_then (resolve nm eg v) (\<lambda>v. Ok (RLet slot v))"
| "resolve_action nm eg (MUnion a b) =
     and_then (resolve nm eg a) (\<lambda>a. and_then (resolve nm eg b) (\<lambda>b. Ok (RUnion a b (be_uf_table eg))))"

fun resolve_actions :: "string \<Rightarrow> bridge_env \<Rightarrow> merge_action list \<Rightarrow> resolved_action list result" where
  "resolve_actions nm eg [] = Ok []"
| "resolve_actions nm eg (a # as) =
     and_then (resolve_action nm eg a) (\<lambda>r. and_then (resolve_actions nm eg as) (\<lambda>rs. Ok (r # rs)))"

definition columns_of :: "merge_fn \<Rightarrow> merge_fn list" where
  "columns_of f = (case f of MColumns cols \<Rightarrow> cols | other \<Rightarrow> [other])"

text \<open>The first half of \<open>to_callback\<close>: the actions and the expressions of the columns.\<close>

definition compile_merge :: "schema_math \<Rightarrow> string \<Rightarrow> bridge_env \<Rightarrow> merge_fn \<Rightarrow> (resolved_action list \<times> merge_expr list) result" where
  "compile_merge sm nm eg f =
     (let (actions, cols) = (case f of MBlock actions res \<Rightarrow> (actions, columns_of res) | other \<Rightarrow> ([], columns_of other)) in
      and_then (resolve_actions nm eg actions) (\<lambda>ras.
      and_then (resolve_list nm eg cols) (\<lambda>res.
        if length res \<noteq> n_vals sm then Err AssertFailed else Ok (ras, res))))"

subsection \<open>Running a merge\<close>

record 'st state_ops =
  op_call :: "nat \<Rightarrow> val list \<Rightarrow> 'st \<Rightarrow> val option \<times> 'st"
  op_stage :: "nat \<Rightarrow> row \<Rightarrow> 'st \<Rightarrow> 'st"
  op_insert :: "nat \<Rightarrow> row \<Rightarrow> 'st \<Rightarrow> 'st"
  op_lookup :: "nat \<Rightarrow> val list \<Rightarrow> 'st \<Rightarrow> val option \<times> 'st"
  op_lookup_multi :: "nat \<Rightarrow> val list \<Rightarrow> 'st \<Rightarrow> val option \<times> 'st"

record conflict =
  c_cur :: row
  c_new :: row
  c_keys :: nat
  c_ts :: val

text \<open>Calling a panic function, which returns nothing.\<close>

definition call_panic :: "'st state_ops \<Rightarrow> nat \<Rightarrow> 'st \<Rightarrow> 'st result" where
  "call_panic ops p st = (let (res, st) = op_call ops p [] st in if res \<noteq> None then Err AssertFailed else Ok st)"

primrec run_expr :: "'st state_ops \<Rightarrow> conflict \<Rightarrow> nat \<Rightarrow> val list \<Rightarrow> merge_expr \<Rightarrow> 'st \<Rightarrow> (val \<times> 'st) result"
  and run_exprs :: "'st state_ops \<Rightarrow> conflict \<Rightarrow> nat \<Rightarrow> val list \<Rightarrow> merge_expr list \<Rightarrow> 'st \<Rightarrow> (val list \<times> 'st) result"
where
  "run_expr ops c col env (RConst v) st = Ok (v, st)"
| "run_expr ops c col env ROld st = and_then (vec_get (c_cur c) (c_keys c + col)) (\<lambda>v. Ok (v, st))"
| "run_expr ops c col env RNew st = and_then (vec_get (c_new c) (c_keys c + col)) (\<lambda>v. Ok (v, st))"
| "run_expr ops c col env (ROldCol i) st = and_then (vec_get (c_cur c) (c_keys c + i)) (\<lambda>v. Ok (v, st))"
| "run_expr ops c col env (RNewCol i) st = and_then (vec_get (c_new c) (c_keys c + i)) (\<lambda>v. Ok (v, st))"
| "run_expr ops c col env (RLetVar slot) st = and_then (vec_get env slot) (\<lambda>v. Ok (v, st))"
| "run_expr ops c col env (RAssertEq p) st =
     and_then (vec_get (c_cur c) (c_keys c + col)) (\<lambda>cur.
     and_then (vec_get (c_new c) (c_keys c + col)) (\<lambda>new.
       if cur \<noteq> new then and_then (call_panic ops p st) (\<lambda>st. Ok (cur, st)) else Ok (cur, st)))"
| "run_expr ops c col env (RUnionId uf) st =
     and_then (vec_get (c_cur c) (c_keys c + col)) (\<lambda>cur.
     and_then (vec_get (c_new c) (c_keys c + col)) (\<lambda>new.
       if cur \<noteq> new then Ok (min cur new, op_stage ops uf [cur, new, c_ts c] st) else Ok (cur, st)))"
| "run_expr ops c col env (RPrimitive p args panic) st =
     and_then (run_exprs ops c col env args st) (\<lambda>(vs, st).
       let (res, st) = op_call ops p vs st in
       case res of
         Some v \<Rightarrow> Ok (v, st)
       | None \<Rightarrow> and_then (call_panic ops panic st) (\<lambda>st. and_then (vec_get (c_cur c) (c_keys c + col)) (\<lambda>v. Ok (v, st))))"
| "run_expr ops c col env (RFunction f args panic) st =
     and_then (run_exprs ops c col env args st) (\<lambda>(vs, st).
       let (res, st) = op_lookup ops f vs st in
       case res of
         Some v \<Rightarrow> Ok (v, st)
       | None \<Rightarrow> and_then (call_panic ops panic st) (\<lambda>st. and_then (vec_get (c_cur c) (c_keys c + col)) (\<lambda>v. Ok (v, st))))"
| "run_expr ops c col env (RLookup f args) st =
     and_then (run_exprs ops c col env args st) (\<lambda>(vs, st).
       let (res, st) = op_lookup_multi ops f vs st in
       and_then (vec_get (c_cur c) (c_keys c + col)) (\<lambda>cur. Ok ((case res of Some v \<Rightarrow> v | None \<Rightarrow> cur), st)))"
| "run_exprs ops c col env [] st = Ok ([], st)"
| "run_exprs ops c col env (e # es) st =
     and_then (run_expr ops c col env e st) (\<lambda>(v, st).
     and_then (run_exprs ops c col env es st) (\<lambda>(vs, st). Ok (v # vs, st)))"

definition run_result :: "'st state_ops \<Rightarrow> conflict \<Rightarrow> nat \<Rightarrow> val list \<Rightarrow> merge_expr \<Rightarrow> 'st \<Rightarrow> (val \<times> 'st) result" where
  "run_result ops c col env e st =
     (case e of
        RFunction f args panic \<Rightarrow>
          and_then (vec_get (c_cur c) (c_keys c + col)) (\<lambda>cur.
          and_then (vec_get (c_new c) (c_keys c + col)) (\<lambda>new.
            if cur = new then Ok (cur, st) else run_expr ops c col env e st))
      | _ \<Rightarrow> run_expr ops c col env e st)"

fun run_action :: "'st state_ops \<Rightarrow> conflict \<Rightarrow> resolved_action \<Rightarrow> val list \<Rightarrow> 'st \<Rightarrow> (val list \<times> 'st) result" where
  "run_action ops c (RSet tb args) env st =
     and_then (run_exprs ops c 0 env args st) (\<lambda>(r, st). Ok (env, op_insert ops tb r st))"
| "run_action ops c (RLet slot e) env st = and_then (run_expr ops c 0 env e st) (\<lambda>(v, st). Ok (env @ [v], st))"
| "run_action ops c (RUnion a b uf) env st =
     and_then (run_expr ops c 0 env a st) (\<lambda>(av, st).
     and_then (run_expr ops c 0 env b st) (\<lambda>(bv, st).
       Ok (env, if av \<noteq> bv then op_stage ops uf [av, bv, c_ts c] st else st)))"

fun run_actions :: "'st state_ops \<Rightarrow> conflict \<Rightarrow> resolved_action list \<Rightarrow> val list \<Rightarrow> 'st \<Rightarrow> (val list \<times> 'st) result" where
  "run_actions ops c [] env st = Ok (env, st)"
| "run_actions ops c (a # as) env st = and_then (run_action ops c a env st) (\<lambda>(env, st). run_actions ops c as env st)"

text \<open>The loop over the value columns; \<open>i\<close> is the next column.\<close>

fun merge_cols :: "'st state_ops \<Rightarrow> schema_math \<Rightarrow> conflict \<Rightarrow> bool \<Rightarrow> val list \<Rightarrow> nat \<Rightarrow> merge_expr list \<Rightarrow> bool \<Rightarrow> 'st \<Rightarrow>
    (val list \<times> bool \<times> 'st) result" where
  "merge_cols ops sm c same env i [] changed st = Ok ([], changed, st)"
| "merge_cols ops sm c same env i (e # es) changed st =
     and_then (if same then and_then (vec_get (c_cur c) (val_col sm i)) (\<lambda>v. Ok (v, st))
               else run_result ops c i env e st) (\<lambda>(v, st).
     and_then (vec_get (c_cur c) (val_col sm i)) (\<lambda>cur.
     and_then (merge_cols ops sm c same env (Suc i) es (changed \<or> cur \<noteq> v) st) (\<lambda>(vs, changed, st).
       Ok (v # vs, changed, st))))"

fun write_vals :: "schema_math \<Rightarrow> nat \<Rightarrow> val list \<Rightarrow> row \<Rightarrow> row result" where
  "write_vals sm i [] r = Ok r"
| "write_vals sm i (v # vs) r = and_then (vec_set r (val_col sm i) v) (write_vals sm (Suc i) vs)"

text \<open>
  The callback, in its four parts: whether there is nothing to resolve, the merged values with the
  effects, the new row, and all together: whether the row changes, the new row, and the state.
\<close>

definition no_conflict :: "schema_math \<Rightarrow> resolved_action list \<Rightarrow> row \<Rightarrow> row \<Rightarrow> bool result" where
  "no_conflict sm actions cur new =
     (let width = (case sm_n_identity_vals sm of Some k \<Rightarrow> Some k | None \<Rightarrow> if actions \<noteq> [] then Some (n_vals sm) else None);
          lo = sm_n_keys sm in
      case width of
        None \<Rightarrow> Ok False
      | Some k \<Rightarrow> and_then (vec_slice cur lo (lo + k)) (\<lambda>a. and_then (vec_slice new lo (lo + k)) (\<lambda>b. Ok (a = b))))"

definition merge_values :: "'st state_ops \<Rightarrow> schema_math \<Rightarrow> resolved_action list \<Rightarrow> merge_expr list \<Rightarrow> conflict \<Rightarrow> bool \<Rightarrow> 'st \<Rightarrow>
    (val list \<times> bool \<times> 'st) result" where
  "merge_values ops sm actions cols c same st =
     and_then (if same then Ok ([], st) else run_actions ops c actions [] st) (\<lambda>(env, st). merge_cols ops sm c same env 0 cols False st)"

definition merge_row :: "schema_math \<Rightarrow> conflict \<Rightarrow> val list \<Rightarrow> bool \<Rightarrow> (bool \<times> row) result" where
  "merge_row sm c vals changed =
     and_then (if sm_subsume sm
               then and_then (subsume_col sm) (\<lambda>k. and_then (vec_get (c_cur c) k) (\<lambda>x. and_then (vec_get (c_new c) k) (\<lambda>y.
                      let out = combine_subsumed x y in Ok (Some out, changed \<or> x \<noteq> out))))
               else Ok (None, changed)) (\<lambda>(subsume, changed).
       if changed
       then and_then (write_vals sm 0 vals (c_new c)) (\<lambda>out.
            and_then (write_table_row sm out \<lparr>rv_timestamp = c_ts c, rv_subsume = subsume, rv_ret_val = None\<rparr>) (\<lambda>out. Ok (True, out)))
       else Ok (False, []))"

definition merge_callback :: "'st state_ops \<Rightarrow> schema_math \<Rightarrow> resolved_action list \<Rightarrow> merge_expr list \<Rightarrow> 'st \<Rightarrow> row \<Rightarrow> row \<Rightarrow>
    (bool \<times> row \<times> 'st) result" where
  "merge_callback ops sm actions cols st cur new =
     and_then (no_conflict sm actions cur new) (\<lambda>same.
     and_then (vec_get new (ts_col sm)) (\<lambda>ts.
       let c = \<lparr>c_cur = cur, c_new = new, c_keys = sm_n_keys sm, c_ts = ts\<rparr> in
     and_then (merge_values ops sm actions cols c same st) (\<lambda>(vals, changed, st).
     and_then (merge_row sm c vals changed) (\<lambda>(changed, out). Ok (changed, out, st)))))"

section \<open>A merge does not panic\<close>

text \<open>A panic function records its message and returns nothing.\<close>

definition quiet :: "'st state_ops \<Rightarrow> nat \<Rightarrow> bool" where
  "quiet ops p \<longleftrightarrow> (\<forall>st. fst (op_call ops p [] st) = None)"

text \<open>An expression over \<open>n\<close> value columns and \<open>m\<close> bound slots.\<close>

primrec expr_ok :: "'st state_ops \<Rightarrow> nat \<Rightarrow> nat \<Rightarrow> merge_expr \<Rightarrow> bool" where
  "expr_ok ops n m (RConst v) = True"
| "expr_ok ops n m ROld = True"
| "expr_ok ops n m RNew = True"
| "expr_ok ops n m (ROldCol i) = (i < n)"
| "expr_ok ops n m (RNewCol i) = (i < n)"
| "expr_ok ops n m (RLetVar slot) = (slot < m)"
| "expr_ok ops n m (RAssertEq p) = quiet ops p"
| "expr_ok ops n m (RUnionId uf) = True"
| "expr_ok ops n m (RPrimitive p args panic) = (list_all id (map (expr_ok ops n m) args) \<and> quiet ops panic)"
| "expr_ok ops n m (RFunction f args panic) = (list_all id (map (expr_ok ops n m) args) \<and> quiet ops panic)"
| "expr_ok ops n m (RLookup f args) = list_all id (map (expr_ok ops n m) args)"

fun actions_ok :: "'st state_ops \<Rightarrow> nat \<Rightarrow> nat \<Rightarrow> resolved_action list \<Rightarrow> nat option" where
  "actions_ok ops n m [] = Some m"
| "actions_ok ops n m (RSet tb args # as) = (if list_all (expr_ok ops n m) args then actions_ok ops n m as else None)"
| "actions_ok ops n m (RLet slot e # as) = (if expr_ok ops n m e then actions_ok ops n (Suc m) as else None)"
| "actions_ok ops n m (RUnion a b uf # as) = (if expr_ok ops n m a \<and> expr_ok ops n m b then actions_ok ops n m as else None)"

definition rows_fit :: "conflict \<Rightarrow> nat \<Rightarrow> bool" where
  "rows_fit c n \<longleftrightarrow> c_keys c + n \<le> length (c_cur c) \<and> c_keys c + n \<le> length (c_new c)"

lemma list_all_id_map: "list_all id (map P xs) \<longleftrightarrow> (\<forall>x \<in> set xs. P x)"
  by (simp add: list_all_iff)

lemma run_exprs_lift:
  "(\<And>e st. e \<in> set es \<Longrightarrow> \<exists>v st'. run_expr ops c col env e st = Ok (v, st')) \<Longrightarrow> \<exists>vs st'. run_exprs ops c col env es st = Ok (vs, st')"
proof (induction es arbitrary: st)
  case (Cons e es)
  obtain v st1 where 1: "run_expr ops c col env e st = Ok (v, st1)" using Cons.prems [of e st] by auto
  obtain vs st2 where "run_exprs ops c col env es st1 = Ok (vs, st2)" using Cons.IH [of st1] Cons.prems by auto
  with 1 show ?case by simp
qed simp

lemma call_panic_ok: "quiet ops p \<Longrightarrow> call_panic ops p st = Ok (snd (op_call ops p [] st))"
  by (cases "op_call ops p [] st") (auto simp: quiet_def call_panic_def dest: spec [of _ st])

lemma run_expr_ok:
  "expr_ok ops n m e \<Longrightarrow> rows_fit c n \<Longrightarrow> col < n \<Longrightarrow> m \<le> length env \<Longrightarrow> \<exists>v st'. run_expr ops c col env e st = Ok (v, st')"
proof (induction e arbitrary: st)
  case (RPrimitive p args panic)
  then have args: "\<exists>v st'. run_expr ops c col env e st = Ok (v, st')" if "e \<in> set args" for e st
    using that by (auto simp: list_all_id_map)
  obtain vs st1 where "run_exprs ops c col env args st = Ok (vs, st1)" using run_exprs_lift [of args, OF args] by blast
  with RPrimitive.prems show ?case by (auto simp: call_panic_ok rows_fit_def split: prod.split option.split)
next
  case (RFunction f args panic)
  then have args: "\<exists>v st'. run_expr ops c col env e st = Ok (v, st')" if "e \<in> set args" for e st
    using that by (auto simp: list_all_id_map)
  obtain vs st1 where "run_exprs ops c col env args st = Ok (vs, st1)" using run_exprs_lift [of args, OF args] by blast
  with RFunction.prems show ?case by (auto simp: call_panic_ok rows_fit_def split: prod.split option.split)
next
  case (RLookup f args)
  then have args: "\<exists>v st'. run_expr ops c col env e st = Ok (v, st')" if "e \<in> set args" for e st
    using that by (auto simp: list_all_id_map)
  obtain vs st1 where "run_exprs ops c col env args st = Ok (vs, st1)" using run_exprs_lift [of args, OF args] by blast
  with RLookup.prems show ?case by (auto simp: rows_fit_def split: prod.split option.split)
qed (auto simp: call_panic_ok rows_fit_def)

lemma run_result_ok:
  "expr_ok ops n m e \<Longrightarrow> rows_fit c n \<Longrightarrow> col < n \<Longrightarrow> m \<le> length env \<Longrightarrow> \<exists>v st'. run_result ops c col env e st = Ok (v, st')"
  using run_expr_ok [of ops n m e c col env st] by (cases e) (auto simp: run_result_def rows_fit_def)

lemma run_actions_ok:
  "actions_ok ops n m as = Some m' \<Longrightarrow> rows_fit c n \<Longrightarrow> 0 < n \<Longrightarrow> m \<le> length env \<Longrightarrow>
   \<exists>env' st'. run_actions ops c as env st = Ok (env', st') \<and> m' \<le> length env'"
proof (induction ops n m as arbitrary: env st rule: actions_ok.induct)
  case (2 ops n m tb args as)
  then have args: "\<exists>v st'. run_expr ops c 0 env e st = Ok (v, st')" if "e \<in> set args" for e st
    using that run_expr_ok [of ops n m e c 0 env] by (auto simp: list_all_iff split: if_splits)
  obtain vs st1 where "run_exprs ops c 0 env args st = Ok (vs, st1)" using run_exprs_lift [of args, OF args] by blast
  with 2 show ?case by (auto split: if_splits)
next
  case (3 ops n m slot e as)
  then have e: "expr_ok ops n m e" by (auto split: if_splits)
  from run_expr_ok [OF this 3(3,4,5)] obtain v st1 where 1: "run_expr ops c 0 env e st = Ok (v, st1)" by blast
  from 3(1) [OF e, of "env @ [v]" st1] 3(2-5) e 1 show ?case by auto
next
  case (4 ops n m a b uf as)
  then have e: "expr_ok ops n m a \<and> expr_ok ops n m b" by (auto split: if_splits)
  from run_expr_ok [of ops n m a, OF _ 4(3,4,5)] e obtain v st1 where 1: "run_expr ops c 0 env a st = Ok (v, st1)" by blast
  from run_expr_ok [of ops n m b, OF _ 4(3,4,5)] e obtain w st2 where 2: "run_expr ops c 0 env b st1 = Ok (w, st2)" by blast
  from 4 e 1 2 show ?case by auto
qed simp

lemma merge_cols_ok:
  "list_all (expr_ok ops n m) es \<Longrightarrow> rows_fit c n \<Longrightarrow> i + length es = n \<Longrightarrow> m \<le> length env \<or> same \<Longrightarrow> c_keys c = sm_n_keys sm \<Longrightarrow>
   \<exists>vs changed' st'. merge_cols ops sm c same env i es changed st = Ok (vs, changed', st') \<and> length vs = length es"
proof (induction es arbitrary: i changed st)
  case (Cons e es)
  have col: "vec_get (c_cur c) (val_col sm i) = Ok (c_cur c ! val_col sm i)" using Cons.prems(2,3,5) by (simp add: rows_fit_def val_col_def)
  have "\<exists>v st1. (if same then and_then (vec_get (c_cur c) (val_col sm i)) (\<lambda>v. Ok (v, st)) else run_result ops c i env e st) = Ok (v, st1)"
    using col run_result_ok [of ops n m e c i env st] Cons.prems by auto
  then obtain v st1 where 1: "(if same then and_then (vec_get (c_cur c) (val_col sm i)) (\<lambda>v. Ok (v, st)) else run_result ops c i env e st) = Ok (v, st1)" by blast
  from Cons.IH [of "Suc i" "changed \<or> c_cur c ! val_col sm i \<noteq> v" st1] Cons.prems obtain vs changed' st' where
    "merge_cols ops sm c same env (Suc i) es (changed \<or> c_cur c ! val_col sm i \<noteq> v) st1 = Ok (vs, changed', st')" "length vs = length es" by auto
  with 1 col show ?case by simp
qed simp

lemma write_vals_ok:
  "val_col sm (i + length vs) \<le> length r \<Longrightarrow> \<exists>r'. write_vals sm i vs r = Ok r' \<and> length r' = length r \<and>
    (\<forall>j < length r. r' ! j = (if val_col sm i \<le> j \<and> j < val_col sm (i + length vs) then vs ! (j - val_col sm i) else r ! j))"
proof (induction vs arbitrary: i r)
  case (Cons v vs)
  have "val_col sm i < length r" using Cons.prems by (simp add: val_col_def)
  moreover from Cons.IH [of "Suc i" "r[val_col sm i := v]"] Cons.prems obtain r' where
    "write_vals sm (Suc i) vs (r[val_col sm i := v]) = Ok r'" "length r' = length r"
    "\<forall>j < length r. r' ! j = (if val_col sm (Suc i) \<le> j \<and> j < val_col sm (Suc i + length vs) then vs ! (j - val_col sm (Suc i)) else r[val_col sm i := v] ! j)"
    by auto
  ultimately show ?case
    by (intro exI [of _ r']) (auto simp: val_col_def nth_list_update nth_Cons' not_le Suc_le_eq)
qed (simp add: val_col_def)

text \<open>What the declaration of a function guarantees about its table and its merge.\<close>

definition schema_ok :: "schema_math \<Rightarrow> bool" where
  "schema_ok sm \<longleftrightarrow> 0 < sm_n_keys sm \<and> sm_n_keys sm < sm_func_cols sm \<and> (\<forall>k. sm_n_identity_vals sm = Some k \<longrightarrow> k \<le> n_vals sm)"

definition merge_wf :: "'st state_ops \<Rightarrow> schema_math \<Rightarrow> resolved_action list \<Rightarrow> merge_expr list \<Rightarrow> bool" where
  "merge_wf ops sm actions cols \<longleftrightarrow> schema_ok sm \<and> length cols = n_vals sm \<and>
     (\<exists>m. actions_ok ops (n_vals sm) 0 actions = Some m \<and> list_all (expr_ok ops (n_vals sm) m) cols)"

lemma write_table_row_ok:
  assumes "length r = table_columns sm" "s = None \<longleftrightarrow> \<not> sm_subsume sm"
  shows "\<exists>r'. write_table_row sm r \<lparr>rv_timestamp = ts, rv_subsume = s, rv_ret_val = None\<rparr> = Ok r' \<and> length r' = table_columns sm \<and>
    (\<forall>j < sm_func_cols sm. r' ! j = r ! j) \<and> r' ! ts_col sm = ts"
  using assms by (cases s) (auto simp: write_table_row_def resize_row_def table_columns_def ts_col_def subsume_col_def Let_def nth_list_update)

lemma no_conflict_ok:
  assumes "schema_ok sm" "length cur = table_columns sm" "length new = table_columns sm"
  shows "\<exists>same. no_conflict sm actions cur new = Ok same"
proof -
  have "sm_n_keys sm + n_vals sm \<le> table_columns sm" using assms(1) by (auto simp: schema_ok_def n_vals_def table_columns_def)
  with assms show ?thesis by (auto simp: no_conflict_def Let_def schema_ok_def split: option.splits)
qed

lemma merge_values_ok:
  assumes wf: "merge_wf ops sm actions cols" and c: "rows_fit c (n_vals sm)" "c_keys c = sm_n_keys sm"
  shows "\<exists>vals changed st'. merge_values ops sm actions cols c same st = Ok (vals, changed, st') \<and> length vals = n_vals sm"
proof -
  obtain m where m: "actions_ok ops (n_vals sm) 0 actions = Some m" "list_all (expr_ok ops (n_vals sm) m) cols" "length cols = n_vals sm" "0 < n_vals sm"
    using wf by (auto simp: merge_wf_def schema_ok_def n_vals_def)
  obtain env st1 where 1: "(if same then Ok ([], st) else run_actions ops c actions [] st) = Ok (env, st1)" "m \<le> length env \<or> same"
  proof (cases same)
    case False
    with run_actions_ok [OF m(1) c(1) m(4), of "[]" st] that show thesis by auto
  qed (use that in simp)
  from merge_cols_ok [OF m(2) c(1) _ 1(2) c(2), of 0 False st1] m(3) 1(1) show ?thesis by (auto simp: merge_values_def)
qed

lemma merge_row_ok:
  assumes sm: "schema_ok sm" and rows: "length (c_cur c) = table_columns sm" "length (c_new c) = table_columns sm" and vals: "length vals = n_vals sm"
  shows "\<exists>merged out. merge_row sm c vals changed = Ok (merged, out) \<and>
    (merged \<longrightarrow> length out = table_columns sm \<and> take (sm_n_keys sm) out = take (sm_n_keys sm) (c_new c) \<and>
       (\<forall>i < n_vals sm. out ! val_col sm i = vals ! i) \<and> out ! ts_col sm = c_ts c)"
proof -
  let ?lo = "sm_n_keys sm"
  have cols: "?lo + n_vals sm = sm_func_cols sm" "sm_func_cols sm < table_columns sm" "0 < ?lo"
    using sm by (auto simp: schema_ok_def n_vals_def table_columns_def)
  obtain s ch where 1: "(if sm_subsume sm
      then and_then (subsume_col sm) (\<lambda>k. and_then (vec_get (c_cur c) k) (\<lambda>x. and_then (vec_get (c_new c) k) (\<lambda>y.
             let out = combine_subsumed x y in Ok (Some out, changed \<or> x \<noteq> out))))
      else Ok (None, changed)) = (Ok (s, ch) :: (val option \<times> bool) result)" "s = None \<longleftrightarrow> \<not> sm_subsume sm"
    using rows that by (cases "sm_subsume sm") (auto simp: subsume_col_def table_columns_def Let_def)
  show ?thesis
  proof (cases ch)
    case True
    have "val_col sm (0 + length vals) \<le> length (c_new c)" using vals cols rows(2) by (simp add: val_col_def)
    from write_vals_ok [OF this] obtain r where r: "write_vals sm 0 vals (c_new c) = Ok r" "length r = table_columns sm"
      "\<forall>j < length (c_new c). r ! j = (if val_col sm 0 \<le> j \<and> j < val_col sm (0 + length vals) then vals ! (j - val_col sm 0) else c_new c ! j)"
      using rows(2) by auto
    from write_table_row_ok [OF r(2) 1(2), of "c_ts c"] obtain out where
      out: "write_table_row sm r \<lparr>rv_timestamp = c_ts c, rv_subsume = s, rv_ret_val = None\<rparr> = Ok out" "length out = table_columns sm"
      "\<forall>j < sm_func_cols sm. out ! j = r ! j" "out ! ts_col sm = c_ts c" by blast
    have "take ?lo out = take ?lo (c_new c)"
      using out(2,3) r(3) rows(2) cols by (intro nth_equalityI) (auto simp: val_col_def)
    moreover have "\<forall>i < n_vals sm. out ! val_col sm i = vals ! i"
      using out(3) r(3) rows(2) cols vals by (simp add: val_col_def)
    ultimately show ?thesis using True 1(1) r(1) out by (intro exI [of _ True] exI [of _ out]) (simp add: merge_row_def)
  next
    case False
    then show ?thesis using 1(1) by (intro exI [of _ False] exI [of _ "[]"]) (simp add: merge_row_def)
  qed
qed

lemma merge_callback_ok:
  assumes wf: "merge_wf ops sm actions cols" and rows: "length cur = table_columns sm" "length new = table_columns sm"
  shows "\<exists>merged out st'. merge_callback ops sm actions cols st cur new = Ok (merged, out, st') \<and>
    (merged \<longrightarrow> length out = table_columns sm \<and> take (sm_n_keys sm) out = take (sm_n_keys sm) new \<and> out ! ts_col sm = new ! ts_col sm)"
proof -
  let ?c = "\<lparr>c_cur = cur, c_new = new, c_keys = sm_n_keys sm, c_ts = new ! ts_col sm\<rparr>"
  have sm: "schema_ok sm" using wf by (simp add: merge_wf_def)
  obtain same where 1: "no_conflict sm actions cur new = Ok same" using no_conflict_ok [OF sm rows] by blast
  have fit: "rows_fit ?c (n_vals sm)" "ts_col sm < length new"
    using sm rows by (auto simp: rows_fit_def schema_ok_def n_vals_def table_columns_def ts_col_def)
  from merge_values_ok [OF wf fit(1), of same st] obtain vals ch st' where
    2: "merge_values ops sm actions cols ?c same st = Ok (vals, ch, st')" "length vals = n_vals sm" by auto
  from merge_row_ok [OF sm, of ?c vals ch] rows 2(2) obtain merged out where
    "merge_row sm ?c vals ch = Ok (merged, out)" "merged \<longrightarrow> length out = table_columns sm \<and>
      take (sm_n_keys sm) out = take (sm_n_keys sm) new \<and> out ! ts_col sm = new ! ts_col sm" by auto
  with 1 2(1) fit(2) show ?thesis by (simp add: merge_callback_def)
qed

end
