(* ===== verification/MergeSafety.thy ===== *)
theory MergeSafety
  imports MergeFunction
begin

text \<open>
  What compiling a merge function guarantees: the compiled merge does not panic, and all its effects are
  on tables that \<open>fill_deps\<close> names.
\<close>

section \<open>Compiled merges are well formed\<close>

text \<open>The \<open>let\<close> slots that an expression reads are bound; slots are numbered in block order.\<close>

primrec scoped :: "nat \<Rightarrow> merge_fn \<Rightarrow> bool" and scoped_action :: "nat \<Rightarrow> merge_action \<Rightarrow> bool" where
  "scoped m (MLetVar slot) = (slot < m)"
| "scoped m (MPrimitive p args) = list_all id (map (scoped m) args)"
| "scoped m (MFunction f args) = list_all id (map (scoped m) args)"
| "scoped m (MLookup f args) = list_all id (map (scoped m) args)"
| "scoped m (MColumns args) = list_all id (map (scoped m) args)"
| "scoped m (MBlock actions res) = True"
| "scoped m MAssertEq = True"
| "scoped m MUnionId = True"
| "scoped m MOld = True"
| "scoped m MNew = True"
| "scoped m (MOldCol i) = True"
| "scoped m (MNewCol i) = True"
| "scoped m (MConst v) = True"
| "scoped_action m (MSet f args) = list_all id (map (scoped m) args)"
| "scoped_action m (MLet slot v) = scoped m v"
| "scoped_action m (MUnion a b) = (scoped m a \<and> scoped m b)"

fun binds :: "merge_action list \<Rightarrow> nat" where
  "binds [] = 0"
| "binds (MLet slot v # as) = Suc (binds as)"
| "binds (a # as) = binds as"

fun scoped_actions :: "nat \<Rightarrow> merge_action list \<Rightarrow> bool" where
  "scoped_actions m [] = True"
| "scoped_actions m (MLet slot v # as) = (slot = m \<and> scoped m v \<and> scoped_actions (Suc m) as)"
| "scoped_actions m (a # as) = (scoped_action m a \<and> scoped_actions m as)"

definition scoped_merge :: "merge_fn \<Rightarrow> bool" where
  "scoped_merge f = (case f of MBlock actions res \<Rightarrow> scoped_actions 0 actions \<and> scoped (binds actions) res | other \<Rightarrow> scoped 0 other)"

lemma check_cols_list_ok: "check_cols_list n fs = Ok () \<longleftrightarrow> (\<forall>f \<in> set fs. check_cols n f = Ok ())"
  by (induction fs) (auto simp: and_then_eq_Ok_iff)

lemma resolve_list_ok: "resolve_list nm eg fs = Ok es \<longleftrightarrow> list_all2 (\<lambda>f e. resolve nm eg f = Ok e) fs es"
  by (induction fs arbitrary: es) (auto simp: and_then_eq_Ok_iff list_all2_Cons1)

lemma list_all2_each: "list_all2 R xs ys \<Longrightarrow> y \<in> set ys \<Longrightarrow> \<exists>x \<in> set xs. R x y"
  by (metis in_set_conv_nth list_all2_conv_all_nth)

lemma resolve_expr_ok:
  assumes quiet: "\<And>msg. quiet ops (be_new_panic eg msg)"
  shows "resolve nm eg f = Ok e \<Longrightarrow> check_cols n f = Ok () \<Longrightarrow> scoped m f \<Longrightarrow> expr_ok ops n m e" and "a = (a :: merge_action)"
proof (induction f and a arbitrary: e rule: merge_fn.induct merge_action.induct)
  case (MPrimitive p args)
  then obtain es where es: "resolve_list nm eg args = Ok es" "e = RPrimitive p es (be_new_panic eg (''Merge function for '' @ nm @ '' primitive call failed''))"
    by (auto simp: and_then_eq_Ok_iff)
  have "expr_ok ops n m x" if "x \<in> set es" for x
    using list_all2_each [OF es(1) [unfolded resolve_list_ok] that] MPrimitive by (auto simp: check_cols_list_ok list_all_id_map)
  with es(2) quiet show ?case by (simp add: list_all_id_map)
next
  case (MFunction f args)
  then obtain es where es: "resolve_list nm eg args = Ok es"
    "e = RFunction (be_table eg f) es (be_new_panic eg (''Lookup on '' @ be_name eg f @ '' failed in the merge function for '' @ nm))"
    by (auto simp: and_then_eq_Ok_iff split: if_splits)
  have "expr_ok ops n m x" if "x \<in> set es" for x
    using list_all2_each [OF es(1) [unfolded resolve_list_ok] that] MFunction by (auto simp: check_cols_list_ok list_all_id_map)
  with es(2) quiet show ?case by (simp add: list_all_id_map)
next
  case (MLookup f args)
  then obtain es where es: "resolve_list nm eg args = Ok es" "e = RLookup (be_table eg f) es" by (auto simp: and_then_eq_Ok_iff)
  have "expr_ok ops n m x" if "x \<in> set es" for x
    using list_all2_each [OF es(1) [unfolded resolve_list_ok] that] MLookup by (auto simp: check_cols_list_ok list_all_id_map)
  with es(2) show ?case by (simp add: list_all_id_map)
qed (use quiet in \<open>auto split: if_splits\<close>)

lemma resolve_list_exprs_ok:
  assumes "\<And>msg. quiet ops (be_new_panic eg msg)" "resolve_list nm eg fs = Ok es" "\<forall>f \<in> set fs. check_cols n f = Ok () \<and> scoped m f"
  shows "list_all (expr_ok ops n m) es"
  unfolding list_all_iff
proof
  fix e assume "e \<in> set es"
  from list_all2_each [OF assms(2) [unfolded resolve_list_ok] this] assms(1,3) resolve_expr_ok(1) show "expr_ok ops n m e" by blast
qed

lemma resolve_actions_ok:
  assumes quiet: "\<And>msg. quiet ops (be_new_panic eg msg)"
  shows "resolve_actions nm eg as = Ok rs \<Longrightarrow> check_cols_actions n as = Ok () \<Longrightarrow> scoped_actions m as \<Longrightarrow> actions_ok ops n m rs = Some (m + binds as)"
proof (induction as arbitrary: m rs)
  case (Cons a as)
  then obtain r rs' where r: "resolve_action nm eg a = Ok r" "resolve_actions nm eg as = Ok rs'" "rs = r # rs'"
    and c: "check_cols_action n a = Ok ()" "check_cols_actions n as = Ok ()" by (auto simp: and_then_eq_Ok_iff)
  show ?case
  proof (cases a)
    case (MSet f args)
    with r obtain es where es: "resolve_list nm eg args = Ok es" "r = RSet (be_table eg f) es" by (auto simp: and_then_eq_Ok_iff)
    from resolve_list_exprs_ok [OF quiet es(1), of n m] c Cons.prems(3) MSet have "list_all (expr_ok ops n m) es"
      by (auto simp: check_cols_list_ok list_all_id_map)
    with Cons.IH [OF r(2) c(2), of m] Cons.prems(3) MSet es(2) r(3) show ?thesis by simp
  next
    case (MLet slot v)
    with r obtain e where e: "resolve nm eg v = Ok e" "r = RLet slot e" by (auto simp: and_then_eq_Ok_iff)
    from resolve_expr_ok(1) [OF quiet e(1), of n m] c Cons.prems(3) MLet have "expr_ok ops n m e" by auto
    with Cons.IH [OF r(2) c(2), of "Suc m"] Cons.prems(3) MLet e(2) r(3) show ?thesis by simp
  next
    case (MUnion x y)
    with r obtain e e' where e: "resolve nm eg x = Ok e" "resolve nm eg y = Ok e'" "r = RUnion e e' (be_uf_table eg)" by (auto simp: and_then_eq_Ok_iff)
    have "check_cols n x = Ok ()" "check_cols n y = Ok ()" using c(1) MUnion by (auto simp: and_then_eq_Ok_iff)
    with resolve_expr_ok(1) [OF quiet e(1), of n m] resolve_expr_ok(1) [OF quiet e(2), of n m] Cons.prems(3) MUnion
    have "expr_ok ops n m e" "expr_ok ops n m e'" by auto
    with Cons.IH [OF r(2) c(2), of m] Cons.prems(3) MUnion e(3) r(3) show ?thesis by simp
  qed
qed simp

lemma compile_merge_wf:
  assumes quiet: "\<And>msg. quiet ops (be_new_panic eg msg)" and sm: "schema_ok sm"
    and f: "check_cols (n_vals sm) f = Ok ()" "scoped_merge f" and c: "compile_merge sm nm eg f = Ok (actions, cols)"
  shows "merge_wf ops sm actions cols"
proof -
  obtain as fs where af: "(case f of MBlock actions res \<Rightarrow> (actions, columns_of res) | other \<Rightarrow> ([], columns_of other)) = (as, fs)" by force
  have r: "resolve_actions nm eg as = Ok actions" "resolve_list nm eg fs = Ok cols" "length cols = n_vals sm"
    using c unfolding compile_merge_def af by (auto simp: and_then_eq_Ok_iff split: if_splits)
  have cols: "\<forall>g \<in> set (columns_of g'). check_cols n g = Ok () \<and> scoped m g" if "check_cols n g' = Ok ()" "scoped m g'" for g' n m
    using that by (cases g') (auto simp: columns_of_def check_cols_list_ok list_all_id_map)
  have "check_cols_actions (n_vals sm) as = Ok () \<and> scoped_actions 0 as \<and> (\<forall>g \<in> set fs. check_cols (n_vals sm) g = Ok () \<and> scoped (binds as) g)"
  proof (cases "\<exists>actions res. f = MBlock actions res")
    case True
    then obtain acts res where "f = MBlock acts res" by blast
    with af f cols [of "n_vals sm" res "binds acts"] show ?thesis by (auto simp: scoped_merge_def and_then_eq_Ok_iff)
  next
    case False
    then have "as = []" "fs = columns_of f" "scoped 0 f" using af f(2) by (cases f; simp add: scoped_merge_def)+
    with cols [of "n_vals sm" f 0] f(1) show ?thesis by auto
  qed
  with resolve_actions_ok [OF quiet r(1), of "n_vals sm" 0] resolve_list_exprs_ok [OF quiet r(2)] r(3) sm show ?thesis
    by (auto simp: merge_wf_def)
qed

section \<open>Effects stay within the declared tables\<close>

abbreviation writes :: "deps \<Rightarrow> nat set" where
  "writes d \<equiv> set (snd d)"

lemma writes_dep [simp]: "writes (write_dep tb d) = insert tb (writes d)" "writes (read_dep tb d) = writes d"
  by (auto simp: write_dep_def read_dep_def index_insert_def split: prod.splits)

lemma fill_deps_list_mono:
  "(\<And>f d. f \<in> set fs \<Longrightarrow> writes d \<subseteq> writes (fill_deps eg f d)) \<Longrightarrow> writes d \<subseteq> writes (fill_deps_list eg fs d)"
proof (induction fs arbitrary: d)
  case (Cons f fs)
  have "writes d \<subseteq> writes (fill_deps eg f d)" using Cons.prems by simp
  moreover have "writes (fill_deps eg f d) \<subseteq> writes (fill_deps_list eg fs (fill_deps eg f d))" using Cons by simp
  ultimately show ?case by simp
qed simp

lemma fill_deps_actions_mono:
  "(\<And>a d. a \<in> set as \<Longrightarrow> writes d \<subseteq> writes (fill_deps_action eg a d)) \<Longrightarrow> writes d \<subseteq> writes (fill_deps_actions eg as d)"
proof (induction as arbitrary: d)
  case (Cons a as)
  have "writes d \<subseteq> writes (fill_deps_action eg a d)" using Cons.prems by simp
  moreover have "writes (fill_deps_action eg a d) \<subseteq> writes (fill_deps_actions eg as (fill_deps_action eg a d))" using Cons by simp
  ultimately show ?case by simp
qed simp

lemma fill_deps_mono:
  shows "writes d \<subseteq> writes (fill_deps eg f d)" and "writes d \<subseteq> writes (fill_deps_action eg a d)"
proof (induction f and a arbitrary: d and d rule: merge_fn.induct merge_action.induct)
  case (MPrimitive p args)
  have "writes d \<subseteq> writes (fill_deps_list eg args d)" using MPrimitive by (rule fill_deps_list_mono)
  then show ?case by (auto simp: Let_def split: option.split)
next
  case (MFunction f args)
  have "writes (write_dep (be_table eg f) (read_dep (be_table eg f) d)) \<subseteq> writes (fill_deps eg (MFunction f args) d)"
    unfolding fill_deps.simps using MFunction by (rule fill_deps_list_mono)
  then show ?case by simp
next
  case (MLookup f args)
  have "writes (write_dep (be_table eg f) (read_dep (be_table eg f) d)) \<subseteq> writes (fill_deps eg (MLookup f args) d)"
    unfolding fill_deps.simps using MLookup by (rule fill_deps_list_mono)
  then show ?case by simp
next
  case (MColumns args)
  then show ?case unfolding fill_deps.simps by (rule fill_deps_list_mono)
next
  case (MBlock actions res)
  have "writes d \<subseteq> writes (fill_deps_actions eg actions d)" using MBlock(1) by (rule fill_deps_actions_mono)
  with MBlock(2) show ?case unfolding fill_deps.simps by blast
next
  case (MSet f args)
  have "writes (write_dep (be_table eg f) d) \<subseteq> writes (fill_deps_action eg (MSet f args) d)"
    unfolding fill_deps_action.simps using MSet by (rule fill_deps_list_mono)
  then show ?case by simp
next
  case (MUnion x y)
  from MUnion(1) [of d] MUnion(2) [of "fill_deps eg x d"] show ?case by auto
qed auto

lemma fill_deps_all_mono: "writes d \<subseteq> writes (fill_deps_list eg fs d)" "writes d \<subseteq> writes (fill_deps_actions eg as d)"
  by (rule fill_deps_list_mono, rule fill_deps_mono) (rule fill_deps_actions_mono, rule fill_deps_mono)

lemma fill_deps_list_each:
  "writes (fill_deps_list eg fs d) \<subseteq> W \<Longrightarrow> f \<in> set fs \<Longrightarrow> \<exists>d'. writes (fill_deps eg f d') \<subseteq> W"
proof (induction fs arbitrary: d)
  case (Cons g fs)
  have "writes (fill_deps eg g d) \<subseteq> writes (fill_deps_list eg fs (fill_deps eg g d))" by (rule fill_deps_list_mono) (rule fill_deps_mono)
  then have "f = g \<Longrightarrow> writes (fill_deps eg f d) \<subseteq> W" using Cons.prems(1) by auto
  with Cons.IH [of "fill_deps eg g d"] Cons.prems show ?case by (cases "f = g") (blast, simp)
qed simp

text \<open>The tables that a primitive may write.\<close>

definition prim_tables :: "bridge_env \<Rightarrow> nat \<Rightarrow> nat \<Rightarrow> nat set" where
  "prim_tables eg p n = insert (be_uf_table eg) (set_option (be_external_write_table eg p) \<union> set_option (be_set_if_empty_table eg p n))"

text \<open>
  A property \<open>P\<close> of the state that survives every operation on the tables \<open>W\<close>, every primitive that
  writes only such tables, and every panic.
\<close>

definition survives :: "'st state_ops \<Rightarrow> bridge_env \<Rightarrow> nat set \<Rightarrow> ('st \<Rightarrow> bool) \<Rightarrow> bool" where
  "survives ops eg W P \<longleftrightarrow>
     (\<forall>tb r st. tb \<in> W \<longrightarrow> P st \<longrightarrow> P (op_stage ops tb r st) \<and> P (op_insert ops tb r st) \<and>
        P (snd (op_lookup ops tb r st)) \<and> P (snd (op_lookup_multi ops tb r st))) \<and>
     (\<forall>p args st. prim_tables eg p (length args) \<subseteq> W \<longrightarrow> P st \<longrightarrow> P (snd (op_call ops p args st))) \<and>
     (\<forall>msg st. P st \<longrightarrow> P (snd (op_call ops (be_new_panic eg msg) [] st)))"

lemma run_exprs_keeps:
  fixes P :: "'st \<Rightarrow> bool"
  shows "(\<And>e st v st'. e \<in> set es \<Longrightarrow> P st \<Longrightarrow> run_expr ops c col env e st = Ok (v, st') \<Longrightarrow> P st') \<Longrightarrow> P st \<Longrightarrow>
   run_exprs ops c col env es st = Ok (vs, st') \<Longrightarrow> P st' \<and> length vs = length es"
proof (induction es arbitrary: st vs)
  case (Cons e es)
  then obtain v st1 vs1 where 1: "run_expr ops c col env e st = Ok (v, st1)" "run_exprs ops c col env es st1 = Ok (vs1, st')" "vs = v # vs1"
    by (auto simp: and_then_eq_Ok_iff)
  have "P st1" using Cons.prems(1,2) 1(1) by (meson list.set_intros(1))
  from Cons.IH [OF _ this 1(2)] Cons.prems(1) 1(3) show ?case by (metis length_Cons list.set_intros(2))
qed simp

lemma call_panic_keeps: "survives ops eg W P \<Longrightarrow> P st \<Longrightarrow> call_panic ops (be_new_panic eg msg) st = Ok st' \<Longrightarrow> P st'"
  unfolding survives_def by (cases "op_call ops (be_new_panic eg msg) [] st") (auto simp: call_panic_def split: if_splits; metis snd_conv)

lemma args_keep:
  assumes "writes (fill_deps_list eg args d) \<subseteq> W" "resolve_list nm eg args = Ok es" "e \<in> set es"
    "\<And>f e d st v st'. f \<in> set args \<Longrightarrow> resolve nm eg f = Ok e \<Longrightarrow> writes (fill_deps eg f d) \<subseteq> W \<Longrightarrow> P st \<Longrightarrow>
      run_expr ops c col env e st = Ok (v, st') \<Longrightarrow> P st'"
  shows "P st \<Longrightarrow> run_expr ops c col env e st = Ok (v, st') \<Longrightarrow> P st'"
proof -
  from list_all2_each [OF assms(2) [unfolded resolve_list_ok] assms(3)] obtain f where f: "f \<in> set args" "resolve nm eg f = Ok e" by blast
  from fill_deps_list_each [OF assms(1) f(1)] obtain d' where "writes (fill_deps eg f d') \<subseteq> W" by blast
  from assms(4) [OF f this] show "P st \<Longrightarrow> run_expr ops c col env e st = Ok (v, st') \<Longrightarrow> P st'" by blast
qed

lemma run_expr_keeps:
  assumes s: "survives ops eg W P"
  shows "resolve nm eg f = Ok e \<Longrightarrow> writes (fill_deps eg f d) \<subseteq> W \<Longrightarrow> P st \<Longrightarrow> run_expr ops c col env e st = Ok (v, st') \<Longrightarrow> P st'"
    and "a = (a :: merge_action)"
proof (induction f and a arbitrary: e d st v st' rule: merge_fn.induct merge_action.induct)
  case (MPrimitive p args)
  have W: "prim_tables eg p (length args) \<subseteq> W" "writes (fill_deps_list eg args d) \<subseteq> W"
    using MPrimitive(3) by (auto simp: Let_def prim_tables_def split: option.splits)
  from MPrimitive(2) obtain es msg where e: "resolve_list nm eg args = Ok es" "e = RPrimitive p es (be_new_panic eg msg)" by (auto simp: and_then_eq_Ok_iff)
  from MPrimitive(5) obtain vs st1 where r: "run_exprs ops c col env es st = Ok (vs, st1)" by (auto simp: e(2) and_then_eq_Ok_iff)
  have k: "P st1 \<and> length vs = length es"
    by (rule run_exprs_keeps [where P = P, OF _ MPrimitive(4) r]) (rule args_keep [where P = P, OF W(2) e(1) _ MPrimitive(1)])
  moreover have "length es = length args" using e(1) by (metis list_all2_lengthD resolve_list_ok)
  ultimately have "P (snd (op_call ops p vs st1))" using s W(1) by (simp add: survives_def)
  with MPrimitive(5) r call_panic_keeps [OF s] show ?case
    by (auto simp: e(2) and_then_eq_Ok_iff split: prod.splits option.splits)
next
  case (MFunction f args)
  have W: "be_table eg f \<in> W" "writes (fill_deps_list eg args (write_dep (be_table eg f) (read_dep (be_table eg f) d))) \<subseteq> W"
    using MFunction(3) fill_deps_all_mono(1) [of "write_dep (be_table eg f) (read_dep (be_table eg f) d)" eg args] by auto
  from MFunction(2) obtain es msg where e: "resolve_list nm eg args = Ok es" "e = RFunction (be_table eg f) es (be_new_panic eg msg)"
    by (auto simp: and_then_eq_Ok_iff split: if_splits)
  from MFunction(5) obtain vs st1 where r: "run_exprs ops c col env es st = Ok (vs, st1)" by (auto simp: e(2) and_then_eq_Ok_iff)
  have "P st1 \<and> length vs = length es"
    by (rule run_exprs_keeps [where P = P, OF _ MFunction(4) r]) (rule args_keep [where P = P, OF W(2) e(1) _ MFunction(1)])
  then have "P (snd (op_lookup ops (be_table eg f) vs st1))" using s W(1) by (simp add: survives_def)
  with MFunction(5) r call_panic_keeps [OF s] show ?case
    by (auto simp: e(2) and_then_eq_Ok_iff split: prod.splits option.splits)
next
  case (MLookup f args)
  have W: "be_table eg f \<in> W" "writes (fill_deps_list eg args (write_dep (be_table eg f) (read_dep (be_table eg f) d))) \<subseteq> W"
    using MLookup(3) fill_deps_all_mono(1) [of "write_dep (be_table eg f) (read_dep (be_table eg f) d)" eg args] by auto
  from MLookup(2) obtain es where e: "resolve_list nm eg args = Ok es" "e = RLookup (be_table eg f) es" by (auto simp: and_then_eq_Ok_iff)
  from MLookup(5) obtain vs st1 where r: "run_exprs ops c col env es st = Ok (vs, st1)" by (auto simp: e(2) and_then_eq_Ok_iff)
  have "P st1 \<and> length vs = length es"
    by (rule run_exprs_keeps [where P = P, OF _ MLookup(4) r]) (rule args_keep [where P = P, OF W(2) e(1) _ MLookup(1)])
  then have "P (snd (op_lookup_multi ops (be_table eg f) vs st1))" using s W(1) by (simp add: survives_def)
  with MLookup(5) r show ?case by (auto simp: e(2) and_then_eq_Ok_iff split: prod.splits)
next
  case MAssertEq
  with call_panic_keeps [OF s] show ?case by (auto simp: and_then_eq_Ok_iff split: if_splits)
next
  case MUnionId
  with s show ?case by (auto simp: and_then_eq_Ok_iff survives_def split: if_splits)
qed (auto simp: and_then_eq_Ok_iff)

lemma run_result_cases: "run_result ops c col env e st = Ok (v, st') \<Longrightarrow> st' = st \<or> run_expr ops c col env e st = Ok (v, st')"
  by (cases e) (auto simp: run_result_def and_then_eq_Ok_iff simp del: run_expr.simps split: if_splits)

lemma run_result_keeps:
  assumes "survives ops eg W P" "resolve nm eg f = Ok e" "writes (fill_deps eg f d) \<subseteq> W" "P st" "run_result ops c col env e st = Ok (v, st')"
  shows "P st'"
  using assms(4) run_result_cases [OF assms(5)] run_expr_keeps(1) [OF assms(1-4)] by blast

lemma run_actions_keeps:
  assumes s: "survives ops eg W P"
  shows "resolve_actions nm eg as = Ok rs \<Longrightarrow> writes (fill_deps_actions eg as d) \<subseteq> W \<Longrightarrow> P st \<Longrightarrow>
    run_actions ops c rs env st = Ok (env', st') \<Longrightarrow> P st'"
proof (induction as arbitrary: d rs env st)
  case (Cons a as)
  from Cons.prems(1) obtain r rs' where r: "resolve_action nm eg a = Ok r" "resolve_actions nm eg as = Ok rs'" "rs = r # rs'"
    by (auto simp: and_then_eq_Ok_iff)
  from Cons.prems(4) obtain env1 st1 where run: "run_action ops c r env st = Ok (env1, st1)" "run_actions ops c rs' env1 st1 = Ok (env', st')"
    by (auto simp: r(3) and_then_eq_Ok_iff)
  have W: "writes (fill_deps_action eg a d) \<subseteq> W" "writes (fill_deps_actions eg as (fill_deps_action eg a d)) \<subseteq> W"
    using Cons.prems(2) fill_deps_all_mono(2) [of "fill_deps_action eg a d" eg as] by auto
  have "P st1"
  proof (cases a)
    case (MSet f args)
    have dW: "be_table eg f \<in> W" "writes (fill_deps_list eg args (write_dep (be_table eg f) d)) \<subseteq> W"
      using W(1) MSet fill_deps_all_mono(1) [of "write_dep (be_table eg f) d" eg args] by auto
    from r(1) MSet obtain es where e: "resolve_list nm eg args = Ok es" "r = RSet (be_table eg f) es" by (auto simp: and_then_eq_Ok_iff)
    from run(1) obtain vs st2 where x: "run_exprs ops c 0 env es st = Ok (vs, st2)" "st1 = op_insert ops (be_table eg f) vs st2"
      by (auto simp: e(2) and_then_eq_Ok_iff)
    have "P st2 \<and> length vs = length es"
      by (rule run_exprs_keeps [where P = P, OF _ Cons.prems(3) x(1)]) (rule args_keep [where P = P, OF dW(2) e(1)], assumption, rule run_expr_keeps(1) [OF s])
    with s dW(1) x(2) show ?thesis by (simp add: survives_def)
  next
    case (MLet slot v)
    with r(1) obtain e where e: "resolve nm eg v = Ok e" "r = RLet slot e" by (auto simp: and_then_eq_Ok_iff)
    with run(1) obtain w where "run_expr ops c 0 env e st = Ok (w, st1)" by (auto simp: and_then_eq_Ok_iff)
    with run_expr_keeps(1) [OF s e(1) _ Cons.prems(3)] W(1) MLet show ?thesis by auto
  next
    case (MUnion x y)
    with r(1) obtain e e' where e: "resolve nm eg x = Ok e" "resolve nm eg y = Ok e'" "r = RUnion e e' (be_uf_table eg)" by (auto simp: and_then_eq_Ok_iff)
    from run(1) obtain v w st2 st3 where u: "run_expr ops c 0 env e st = Ok (v, st2)" "run_expr ops c 0 env e' st2 = Ok (w, st3)"
      "st1 = (if v \<noteq> w then op_stage ops (be_uf_table eg) [v, w, c_ts c] st3 else st3)" by (auto simp: e(3) and_then_eq_Ok_iff)
    have dW: "be_uf_table eg \<in> W" "writes (fill_deps eg y (fill_deps eg x d)) \<subseteq> W" "writes (fill_deps eg x d) \<subseteq> W"
      using W(1) MUnion fill_deps_mono(1) [of "fill_deps eg x d" eg y] by auto
    from run_expr_keeps(1) [OF s e(1) dW(3) Cons.prems(3) u(1)] have "P st2" .
    from run_expr_keeps(1) [OF s e(2) dW(2) this u(2)] s dW(1) u(3) show ?thesis by (simp add: survives_def)
  qed
  from Cons.IH [OF r(2) W(2) this run(2)] show ?case .
qed simp

lemma merge_cols_keeps:
  assumes s: "survives ops eg W P"
  shows "list_all2 (\<lambda>f e. resolve nm eg f = Ok e) fs es \<Longrightarrow> \<forall>f \<in> set fs. \<exists>d. writes (fill_deps eg f d) \<subseteq> W \<Longrightarrow> P st \<Longrightarrow>
    merge_cols ops sm c same env i es changed st = Ok (vs, changed', st') \<Longrightarrow> P st'"
proof (induction fs es arbitrary: i changed st vs rule: list_all2_induct)
  case (Cons f fs e es)
  from Cons.prems(3) obtain v st1 ch vs1 where
    1: "(if same then and_then (vec_get (c_cur c) (val_col sm i)) (\<lambda>v. Ok (v, st)) else run_result ops c i env e st) = Ok (v, st1)"
    "merge_cols ops sm c same env (Suc i) es ch st1 = Ok (vs1, changed', st')"
    by (auto simp: and_then_eq_Ok_iff)
  have "P st1"
  proof (cases same)
    case False
    from Cons.prems(1) obtain d where "writes (fill_deps eg f d) \<subseteq> W" by auto
    from run_result_keeps [OF s Cons.hyps(1) this Cons.prems(2)] 1(1) False show ?thesis by simp
  qed (use 1(1) Cons.prems(2) in \<open>auto simp: and_then_eq_Ok_iff\<close>)
  from Cons.IH [OF _ this 1(2)] Cons.prems(1) show ?case by simp
qed simp

lemma columns_of_deps: "fill_deps_list eg (columns_of g) d = fill_deps eg g d"
  by (cases g) (simp_all add: columns_of_def)

text \<open>
  C12: Declared effects.  The tables that \<open>fill_deps\<close> lists as written are all that a compiled merge
  touches: every property of the state that survives operations on those tables, primitives that write
  only them, and panics, survives a run of the merge, so a merge never stages into or looks up and inserts
  in a table that was not declared.
\<close>

theorem merge_effects_declared:
  assumes s: "survives ops eg (writes (fill_deps eg f d)) P" and c: "compile_merge sm nm eg f = Ok (actions, cols)"
    and st: "P st" and run: "merge_callback ops sm actions cols st cur new = Ok (merged, out, st')"
  shows "P st'"
proof -
  let ?W = "writes (fill_deps eg f d)"
  obtain as fs where af: "(case f of MBlock actions res \<Rightarrow> (actions, columns_of res) | other \<Rightarrow> ([], columns_of other)) = (as, fs)" by force
  have r: "resolve_actions nm eg as = Ok actions" "resolve_list nm eg fs = Ok cols"
    using c unfolding compile_merge_def af by (auto simp: and_then_eq_Ok_iff split: if_splits)
  obtain d1 d2 where W: "writes (fill_deps_actions eg as d1) \<subseteq> ?W" "writes (fill_deps_list eg fs d2) \<subseteq> ?W"
  proof (cases "\<exists>acts res. f = MBlock acts res")
    case True
    then obtain acts res where "f = MBlock acts res" by blast
    with af that [of d "fill_deps_actions eg acts d"] fill_deps_mono(1) [of "fill_deps_actions eg acts d" eg res] columns_of_deps [of eg res]
    show thesis by auto
  next
    case False
    then have "as = []" "fs = columns_of f" using af by (cases f; simp)+
    with that [of d d] columns_of_deps [of eg f d] fill_deps_mono(1) [of d eg f] show thesis by simp
  qed
  from run obtain c same vals ch where "merge_values ops sm actions cols c same st = Ok (vals, ch, st')"
    unfolding merge_callback_def Let_def by (auto simp: and_then_eq_Ok_iff)
  then obtain env st1 where x: "(if same then Ok ([], st) else run_actions ops c actions [] st) = Ok (env, st1)"
    "merge_cols ops sm c same env 0 cols False st1 = Ok (vals, ch, st')"
    by (auto simp: merge_values_def and_then_eq_Ok_iff)
  have "P st1" using x(1) st run_actions_keeps [OF s r(1) W(1) st] by (cases same) auto
  from merge_cols_keeps [OF s r(2) [unfolded resolve_list_ok] _ this x(2)] fill_deps_list_each [OF W(2)] show ?thesis by blast
qed

theorem merge_effects_declared_witness:
  "\<exists>(ops :: (nat \<times> row) list state_ops) eg out st'. merge_callback ops \<lparr>sm_subsume = False, sm_n_keys = 1, sm_func_cols = 2, sm_n_identity_vals = None\<rparr> [] [RUnionId 7] [] [6, 5, 0] [6, 3, 4] =
     Ok (True, out, st') \<and> st' = [(7, [5, 3, 4])] \<and> writes (fill_deps eg MUnionId ([], [])) = {7} \<and> (\<forall>(tb, r) \<in> set st'. tb = 7)"
proof -
  let ?ops = "\<lparr>op_call = \<lambda>p args st. (None, st), op_stage = \<lambda>tb r st. st @ [(tb, r)], op_insert = \<lambda>tb r st. st @ [(tb, r)],
    op_lookup = \<lambda>tb key st. (None, st), op_lookup_multi = \<lambda>tb key st. (None, st)\<rparr> :: (nat \<times> row) list state_ops"
  let ?eg = "\<lparr>be_name = \<lambda>_. ''f'', be_table = \<lambda>f. f, be_schema_len = \<lambda>_. 2, be_uf_table = 7, be_new_panic = \<lambda>_. 0,
    be_external_write_table = \<lambda>_. None, be_set_if_empty_table = \<lambda>_ _. None\<rparr>"
  let ?sm = "\<lparr>sm_subsume = False, sm_n_keys = 1, sm_func_cols = 2, sm_n_identity_vals = None\<rparr>"
  let ?P = "\<lambda>st :: (nat \<times> row) list. \<forall>(tb, r) \<in> set st. tb = 7"
  have w: "writes (fill_deps ?eg MUnionId ([], [])) = {7}" by simp
  have surv: "survives ?ops ?eg (writes (fill_deps ?eg MUnionId ([], []))) ?P" unfolding w by (simp add: survives_def)
  have comp: "compile_merge ?sm ''f'' ?eg MUnionId = Ok ([], [RUnionId 7])" by (simp add: compile_merge_def columns_of_def n_vals_def)
  have run: "merge_callback ?ops ?sm [] [RUnionId 7] [] [6, 5, 0] [6, 3, 4] = Ok (True, [6, 3, 4], [(7, [5, 3, 4])])"
    by (simp add: merge_callback_def no_conflict_def ts_col_def merge_values_def merge_row_def run_result_def val_col_def
        write_table_row_def resize_row_def table_columns_def Let_def)
  have "?P []" by simp
  from merge_effects_declared [where P = ?P, OF surv comp this run] have "?P [(7, [5, 3, 4])]" .
  with run w show ?thesis by blast
qed

end
