(* ===== verification/SortedTable.thy ===== *)
theory SortedTable
  imports TableSpec "HOL-Library.Word"
begin

text \<open>
  The keyed table of \<open>egglog/core-relations/src/table/mod.rs\<close>, the main table of the database: rows in a
  flat buffer, sorted by one column, with stale rows marked in place; a sharded hash table from keys to
  rows; the start of every run of equal sort values; and staged insertions and removals that a merge
  applies.  The theory models the table as one thread runs it.

  Code that is not part of the repository is in the environment \<open>table_env\<close>: the hash function, the
  lookup of a raw hash table, and the merge function of the table with the state it runs on.
\<close>

section \<open>Hashes\<close>

unbundle bit_operations_syntax

type_synonym full_hash = "64 word"
type_synonym compact_hash = "32 word"

text \<open>The low 25 bits and the top seven bits of the full hash, on a 64-bit target.\<close>

definition compact_from_full :: "full_hash \<Rightarrow> compact_hash" where
  "compact_from_full full =
     (let low = full AND mask 25; h2 = drop_bit 57 full AND mask 7 in
      ucast (low OR push_bit 25 h2))"

definition hash_as_value :: "compact_hash \<Rightarrow> val" where
  "hash_as_value h = unat h"

definition hash_from_value :: "val \<Rightarrow> compact_hash" where
  "hash_from_value v = of_nat v"

definition hash_probe :: "compact_hash \<Rightarrow> full_hash" where
  "hash_probe h = (let low = ucast h :: full_hash; h2 = drop_bit 25 low in low OR push_bit 57 h2)"

definition shard_id :: "nat \<Rightarrow> full_hash \<Rightarrow> nat" where
  "shard_id log2 h =
     (if log2 = 0 then 0 else unat (drop_bit ((64 - (log2 + 7)) mod 64) h AND (push_bit log2 1 - 1)))"

text \<open>The number of shards is the next power of two; the argument of \<open>default_log2\<close> is the number of threads.\<close>

function shard_log2 :: "nat \<Rightarrow> nat" where
  "shard_log2 n = (if n \<le> 1 then 0 else Suc (shard_log2 ((n + 1) div 2)))"
  by pat_completeness auto
termination
  by (relation "measure id") auto

declare shard_log2.simps [simp del]

lemma shard_log2_le: "n \<le> 2 ^ m \<Longrightarrow> shard_log2 n \<le> m"
proof (induction n arbitrary: m rule: shard_log2.induct)
  case (1 n)
  show ?case
  proof (cases "n \<le> 1")
    case False
    then obtain m' where "m = Suc m'" using "1.prems" by (cases m) auto
    with False 1 have "shard_log2 ((n + 1) div 2) \<le> m'" by (intro "1.IH") auto
    with False \<open>m = Suc m'\<close> show ?thesis by (subst shard_log2.simps) simp
  qed (subst shard_log2.simps, simp)
qed

lemma shard_log2_covers: "n \<le> 2 ^ shard_log2 n"
proof (induction n rule: shard_log2.induct)
  case (1 n)
  show ?case
  proof (cases "n \<le> 1")
    case False
    with 1 have "(n + 1) div 2 \<le> 2 ^ shard_log2 ((n + 1) div 2)" by simp
    with False show ?thesis by (subst shard_log2.simps) simp
  next
    case True
    have "(1 :: nat) \<le> 2 ^ shard_log2 n" by simp
    with True show ?thesis by (rule le_trans)
  qed
qed

definition default_log2 :: "nat \<Rightarrow> nat" where
  "default_log2 threads = shard_log2 (if threads = 1 then 1 else threads * 2)"

section \<open>Model\<close>

subsection \<open>Entries, buffers and rows\<close>

record table_entry =
  te_hash :: compact_hash
  te_row :: nat

record 'e table_env =
  env_hash :: "val list \<Rightarrow> full_hash"
  env_find :: "full_hash \<Rightarrow> (table_entry \<Rightarrow> bool) \<Rightarrow> table_entry list \<Rightarrow> nat option"
  env_merge :: "'e \<Rightarrow> row \<Rightarrow> row \<Rightarrow> (bool \<times> row \<times> 'e) result"

definition key_hash :: "'e table_env \<Rightarrow> nat \<Rightarrow> val list \<Rightarrow> nat \<times> compact_hash" where
  "key_hash env log2 key = (let full = env_hash env key in (shard_id log2 full, compact_from_full full))"

definition shard_hash :: "'e table_env \<Rightarrow> nat \<Rightarrow> row \<Rightarrow> nat \<Rightarrow> (nat \<times> compact_hash) result" where
  "shard_hash env log2 r n_keys = and_then (vec_slice r 0 n_keys) (\<lambda>key. Ok (key_hash env log2 key))"

record hashed_buffer =
  hb_arity :: nat
  hb_values :: "val list"

definition hb_new :: "nat \<Rightarrow> hashed_buffer" where
  "hb_new n = \<lparr>hb_arity = n, hb_values = []\<rparr>"

definition hb_add_row :: "hashed_buffer \<Rightarrow> compact_hash \<Rightarrow> row \<Rightarrow> hashed_buffer result" where
  "hb_add_row b h r =
     (if length r \<noteq> hb_arity b then Err AssertFailed
      else Ok (b\<lparr>hb_values := (hb_values b @ r) @ [hash_as_value h]\<rparr>))"

definition hb_len :: "hashed_buffer \<Rightarrow> nat" where
  "hb_len b = length (hb_values b) div (hb_arity b + 1)"

text \<open>\<open>chunks_exact\<close> leaves out an incomplete chunk at the end.\<close>

definition hb_rows :: "hashed_buffer \<Rightarrow> (compact_hash \<times> row) list" where
  "hb_rows b =
     map (\<lambda>tagged. (hash_from_value (tagged ! hb_arity b), take (hb_arity b) tagged))
       (slice_chunks (hb_arity b + 1) (take (hb_len b * (hb_arity b + 1)) (hb_values b)))"

record known_removal =
  kr_hash :: compact_hash
  kr_row :: nat

record rows_data =
  rd_data :: row_buffer
  rd_stale :: nat

definition rd_new :: "row_buffer \<Rightarrow> rows_data" where
  "rd_new b = \<lparr>rd_data = b, rd_stale = 0\<rparr>"

definition rd_clear :: "rows_data \<Rightarrow> rows_data" where
  "rd_clear rd = rd\<lparr>rd_data := buf_clear (rd_data rd), rd_stale := 0\<rparr>"

definition rd_next_row :: "rows_data \<Rightarrow> nat result" where
  "rd_next_row rd = from_usize_u32 (buf_len (rd_data rd))"

definition rd_set_stale :: "rows_data \<Rightarrow> nat \<Rightarrow> rows_data result" where
  "rd_set_stale rd i =
     and_then (buf_set_stale (rd_data rd) i) (\<lambda>(was_stale, b).
       Ok (rd\<lparr>rd_data := b, rd_stale := (if was_stale then rd_stale rd else rd_stale rd + 1)\<rparr>))"

definition rd_get_row :: "rows_data \<Rightarrow> nat \<Rightarrow> row option result" where
  "rd_get_row rd i =
     and_then (buf_get_row (rd_data rd) i) (\<lambda>r.
     and_then (vec_get r 0) (\<lambda>v. Ok (if is_stale v then None else Some r)))"

definition rd_add_row :: "rows_data \<Rightarrow> row \<Rightarrow> (nat \<times> rows_data) result" where
  "rd_add_row rd r =
     and_then (vec_get r 0) (\<lambda>v.
     and_then (buf_add_row (rd_data rd) r) (\<lambda>(i, b).
       Ok (i, rd\<lparr>rd_data := b, rd_stale := (if is_stale v then rd_stale rd + 1 else rd_stale rd)\<rparr>)))"

text \<open>The calls of \<open>remap\<close> are returned.\<close>

definition rd_remove_stale :: "rows_data \<Rightarrow> (rows_data \<times> (row \<times> nat \<times> nat) list) result" where
  "rd_remove_stale rd =
     and_then (buf_remove_stale (rd_data rd)) (\<lambda>(b, calls). Ok (rd\<lparr>rd_data := b, rd_stale := 0\<rparr>, calls))"

subsection \<open>The table\<close>

record pending_state =
  ps_rows :: "hashed_buffer list list"
  ps_removals :: "hashed_buffer list list"
  ps_known :: "known_removal list list list"
  ps_total_removals :: nat
  ps_total_rows :: nat

definition ps_new :: "nat \<Rightarrow> pending_state" where
  "ps_new log2 =
     \<lparr>ps_rows = replicate (2 ^ log2) [], ps_removals = replicate (2 ^ log2) [], ps_known = replicate (2 ^ log2) [],
      ps_total_removals = 0, ps_total_rows = 0\<rparr>"

definition empty_queues :: "'a list list \<Rightarrow> 'a list list" where
  "empty_queues = map (\<lambda>_. [])"

definition ps_clear :: "pending_state \<Rightarrow> pending_state" where
  "ps_clear ps =
     \<lparr>ps_rows = empty_queues (ps_rows ps), ps_removals = empty_queues (ps_removals ps), ps_known = empty_queues (ps_known ps),
      ps_total_removals = 0, ps_total_rows = 0\<rparr>"

text \<open>The queue of a shard; the dense map panics on an absent one.\<close>

definition shard_queue :: "'a list \<Rightarrow> nat \<Rightarrow> 'a result" where
  "shard_queue qs k = ok_or (get_opt qs k) UnwrapNone"

record sorted_table =
  sw_generation :: nat
  sw_data :: rows_data
  sw_log2 :: nat
  sw_shards :: "table_entry list list"
  sw_keys :: nat
  sw_columns :: nat
  sw_sort_by :: nat
  sw_offsets :: "(val \<times> nat) list"
  sw_pending :: pending_state

definition sw_new :: "nat \<Rightarrow> nat \<Rightarrow> nat \<Rightarrow> nat \<Rightarrow> sorted_table result" where
  "sw_new threads n_keys n_cols sort_by =
     (let log2 = default_log2 threads in
     and_then (buf_new n_cols) (\<lambda>b.
       Ok \<lparr>sw_generation = 0, sw_data = rd_new b, sw_log2 = log2, sw_shards = replicate (2 ^ log2) [],
          sw_keys = n_keys, sw_columns = n_cols, sw_sort_by = sort_by, sw_offsets = [], sw_pending = ps_new log2\<rparr>))"

definition sw_clear :: "sorted_table \<Rightarrow> sorted_table" where
  "sw_clear t =
     (let t = t\<lparr>sw_pending := ps_clear (sw_pending t)\<rparr> in
      if buf_len (rd_data (sw_data t)) = 0 then t
      else t\<lparr>sw_offsets := [], sw_data := rd_clear (sw_data t), sw_shards := map (\<lambda>_. []) (sw_shards t),
             sw_generation := sw_generation t + 1\<rparr>)"

definition sw_version :: "sorted_table \<Rightarrow> (nat \<times> nat) result" where
  "sw_version t = and_then (rd_next_row (sw_data t)) (\<lambda>n. Ok (sw_generation t, n))"

definition sw_updates_since :: "sorted_table \<Rightarrow> nat \<Rightarrow> subset result" where
  "sw_updates_since t off =
     and_then (from_usize_u32 off) (\<lambda>s. and_then (rd_next_row (sw_data t)) (\<lambda>e. Ok (Dense (range_new s e))))"

definition sw_all :: "sorted_table \<Rightarrow> subset result" where
  "sw_all t = and_then (rd_next_row (sw_data t)) (\<lambda>e. Ok (Dense (range_new 0 e)))"

definition sw_has_stale_rows :: "sorted_table \<Rightarrow> bool" where
  "sw_has_stale_rows t \<longleftrightarrow> rd_stale (sw_data t) > 0"

definition sw_len :: "sorted_table \<Rightarrow> nat" where
  "sw_len t = buf_len (rd_data (sw_data t)) - rd_stale (sw_data t)"

subsection \<open>Mutation buffers\<close>

record table_buffer =
  tb_rows :: "hashed_buffer dense_id_map"
  tb_removals :: "hashed_buffer dense_id_map"
  tb_known :: "known_removal list dense_id_map"
  tb_columns :: nat
  tb_keys :: nat
  tb_log2 :: nat

definition tb_new :: "nat \<Rightarrow> nat \<Rightarrow> nat \<Rightarrow> table_buffer result" where
  "tb_new n_cols n_keys log2 =
     and_then (dim_with_capacity u32_max (2 ^ log2)) (\<lambda>pending.
     and_then (dim_with_capacity u32_max (2 ^ log2)) (\<lambda>removals.
     and_then (dim_with_capacity u32_max (2 ^ log2)) (\<lambda>known.
       Ok \<lparr>tb_rows = pending, tb_removals = removals, tb_known = known, tb_columns = n_cols, tb_keys = n_keys, tb_log2 = log2\<rparr>)))"

definition expect_u32 :: "nat \<Rightarrow> nat result" where
  "expect_u32 n = (if n \<le> u32_max then Ok n else Err UnwrapNone)"

definition sw_new_buffer :: "sorted_table \<Rightarrow> table_buffer result" where
  "sw_new_buffer t =
     and_then (expect_u32 (sw_keys t)) (\<lambda>n_keys. and_then (expect_u32 (sw_columns t)) (\<lambda>n_cols. tb_new n_cols n_keys (sw_log2 t)))"

definition tb_fresh_handle :: "table_buffer \<Rightarrow> table_buffer result" where
  "tb_fresh_handle tb = tb_new (tb_columns tb) (tb_keys tb) (tb_log2 tb)"

text \<open>Looking up or creating the buffer of a shard and adding to it in place.\<close>

definition shard_add :: "'a dense_id_map \<Rightarrow> nat \<Rightarrow> 'a \<Rightarrow> ('a \<Rightarrow> 'a result) \<Rightarrow> 'a dense_id_map result" where
  "shard_add d k fresh f =
     and_then (dim_get_or_insert d k fresh) (\<lambda>(b, d).
     and_then (f b) (\<lambda>b. Ok (d\<lparr>map_data := (map_data d)[k := Some b]\<rparr>)))"

definition tb_stage_insert :: "'e table_env \<Rightarrow> table_buffer \<Rightarrow> row \<Rightarrow> table_buffer result" where
  "tb_stage_insert env tb r =
     and_then (shard_hash env (tb_log2 tb) r (tb_keys tb)) (\<lambda>(k, h).
     and_then (shard_add (tb_rows tb) k (hb_new (tb_columns tb)) (\<lambda>b. hb_add_row b h r)) (\<lambda>d. Ok (tb\<lparr>tb_rows := d\<rparr>)))"

definition tb_stage_remove :: "'e table_env \<Rightarrow> table_buffer \<Rightarrow> val list \<Rightarrow> table_buffer result" where
  "tb_stage_remove env tb key =
     and_then (shard_hash env (tb_log2 tb) key (tb_keys tb)) (\<lambda>(k, h).
     and_then (shard_add (tb_removals tb) k (hb_new (tb_keys tb)) (\<lambda>b. hb_add_row b h key)) (\<lambda>d. Ok (tb\<lparr>tb_removals := d\<rparr>)))"

definition tb_stage_remove_row :: "'e table_env \<Rightarrow> table_buffer \<Rightarrow> nat \<Rightarrow> val list \<Rightarrow> table_buffer result" where
  "tb_stage_remove_row env tb i key =
     and_then (shard_hash env (tb_log2 tb) key (tb_keys tb)) (\<lambda>(k, h).
     and_then (shard_add (tb_known tb) k [] (\<lambda>b. Ok (b @ [\<lparr>kr_hash = h, kr_row = i\<rparr>]))) (\<lambda>d. Ok (tb\<lparr>tb_known := d\<rparr>)))"

text \<open>The loops of \<open>drop\<close>: the buffer of shard \<open>k\<close> goes to the end of the queue of that shard.\<close>

fun flush_buffers :: "'a option list \<Rightarrow> nat \<Rightarrow> 'a list list \<Rightarrow> 'a list list result" where
  "flush_buffers [] k qs = Ok qs"
| "flush_buffers (None # bs) k qs = flush_buffers bs (Suc k) qs"
| "flush_buffers (Some b # bs) k qs =
     and_then (shard_queue qs k) (\<lambda>q. flush_buffers bs (Suc k) (qs[k := q @ [b]]))"

definition buffered :: "('a \<Rightarrow> nat) \<Rightarrow> 'a option list \<Rightarrow> nat" where
  "buffered len bs = sum_list (map (\<lambda>b. case b of None \<Rightarrow> 0 | Some b \<Rightarrow> len b) bs)"

definition tb_drop :: "table_buffer \<Rightarrow> pending_state \<Rightarrow> pending_state result" where
  "tb_drop tb ps =
     and_then (flush_buffers (map_data (tb_rows tb)) 0 (ps_rows ps)) (\<lambda>pending.
     and_then (flush_buffers (map_data (tb_removals tb)) 0 (ps_removals ps)) (\<lambda>removals.
     and_then (flush_buffers (map_data (tb_known tb)) 0 (ps_known ps)) (\<lambda>known.
       Ok \<lparr>ps_rows = pending, ps_removals = removals, ps_known = known,
          ps_total_removals = ps_total_removals ps + (buffered hb_len (map_data (tb_removals tb)) + buffered length (map_data (tb_known tb))),
          ps_total_rows = ps_total_rows ps + buffered hb_len (map_data (tb_rows tb))\<rparr>)))"

subsection \<open>Lookups\<close>

text \<open>
  The test of a lookup reads the row of an entry with the same compact hash and unwraps it.  Which of
  these entries are probed is up to the hash table; the model panics if the test panics on one of them.
\<close>

definition probe_check :: "rows_data \<Rightarrow> nat \<Rightarrow> compact_hash \<Rightarrow> table_entry list \<Rightarrow> unit result" where
  "probe_check rd n_keys h es =
     and_then (map_result (\<lambda>e. and_then (rd_get_row rd (te_row e)) (\<lambda>r. and_then (ok_or r UnwrapNone) (\<lambda>r. vec_slice r 0 n_keys)))
       (filter (\<lambda>e. te_hash e = h) es)) (\<lambda>_. Ok ())"

definition key_eq :: "rows_data \<Rightarrow> nat \<Rightarrow> compact_hash \<Rightarrow> val list \<Rightarrow> table_entry \<Rightarrow> bool" where
  "key_eq rd n_keys h key e \<longleftrightarrow> te_hash e = h \<and>
     (case rd_get_row rd (te_row e) of Inr (Some r) \<Rightarrow> take n_keys r = key | _ \<Rightarrow> False)"

definition sw_get_entry :: "'e table_env \<Rightarrow> sorted_table \<Rightarrow> val list \<Rightarrow> nat option result" where
  "sw_get_entry env t key =
     and_then (shard_hash env (sw_log2 t) key (sw_keys t)) (\<lambda>(k, h).
     and_then (vec_get (sw_shards t) k) (\<lambda>es.
     and_then (probe_check (sw_data t) (sw_keys t) h es) (\<lambda>_.
       case env_find env (hash_probe h) (key_eq (sw_data t) (sw_keys t) h key) es of
         None \<Rightarrow> Ok None
       | Some i \<Rightarrow> and_then (vec_get es i) (\<lambda>e. Ok (Some (te_row e))))))"

definition sw_get_row :: "'e table_env \<Rightarrow> sorted_table \<Rightarrow> val list \<Rightarrow> (nat \<times> row) option result" where
  "sw_get_row env t key =
     and_then (sw_get_entry env t key) (\<lambda>found.
       case found of
         None \<Rightarrow> Ok None
       | Some i \<Rightarrow> and_then (rd_get_row (sw_data t) i) (\<lambda>r. and_then (ok_or r UnwrapNone) (\<lambda>r. Ok (Some (i, r)))))"

definition sw_get_row_column :: "'e table_env \<Rightarrow> sorted_table \<Rightarrow> val list \<Rightarrow> nat \<Rightarrow> val option result" where
  "sw_get_row_column env t key col =
     and_then (sw_get_entry env t key) (\<lambda>found.
       case found of
         None \<Rightarrow> Ok None
       | Some i \<Rightarrow> and_then (rd_get_row (sw_data t) i) (\<lambda>r. and_then (ok_or r UnwrapNone) (\<lambda>r.
           and_then (vec_get r col) (\<lambda>v. Ok (Some v)))))"

subsection \<open>Removing\<close>

definition remove_nth :: "nat \<Rightarrow> 'a list \<Rightarrow> 'a list" where
  "remove_nth i xs = take i xs @ drop (Suc i) xs"

definition erase_entry :: "'e table_env \<Rightarrow> compact_hash \<Rightarrow> (table_entry \<Rightarrow> bool) \<Rightarrow> table_entry list \<times> rows_data \<times> bool \<Rightarrow>
    (table_entry list \<times> rows_data \<times> bool) result" where
  "erase_entry env h p = (\<lambda>(es, rd, changed).
     case env_find env (hash_probe h) p es of
       None \<Rightarrow> Ok (es, rd, changed)
     | Some i \<Rightarrow> and_then (vec_get es i) (\<lambda>e. and_then (rd_set_stale rd (te_row e)) (\<lambda>rd. Ok (remove_nth i es, rd, True))))"

fun delete_keys :: "'e table_env \<Rightarrow> nat \<Rightarrow> (compact_hash \<times> row) list \<Rightarrow> table_entry list \<times> rows_data \<times> bool \<Rightarrow>
    (table_entry list \<times> rows_data \<times> bool) result" where
  "delete_keys env n_keys [] s = Ok s"
| "delete_keys env n_keys ((h, key) # ks) s =
     and_then (probe_check (fst (snd s)) n_keys h (fst s)) (\<lambda>_.
     and_then (erase_entry env h (key_eq (fst (snd s)) n_keys h key) s) (\<lambda>s. delete_keys env n_keys ks s))"

fun delete_known :: "'e table_env \<Rightarrow> known_removal list \<Rightarrow> table_entry list \<times> rows_data \<times> bool \<Rightarrow>
    (table_entry list \<times> rows_data \<times> bool) result" where
  "delete_known env [] s = Ok s"
| "delete_known env (kr # krs) s =
     and_then (erase_entry env (kr_hash kr) (\<lambda>e. te_hash e = kr_hash kr \<and> te_row e = kr_row kr) s) (\<lambda>s. delete_known env krs s)"

text \<open>The loop over the shards; \<open>k\<close> is the number of the next one.\<close>

fun delete_shards :: "'e table_env \<Rightarrow> nat \<Rightarrow> pending_state \<Rightarrow> nat \<Rightarrow> table_entry list list \<Rightarrow> rows_data \<Rightarrow> bool \<Rightarrow>
    (table_entry list list \<times> rows_data \<times> bool) result" where
  "delete_shards env n_keys ps k [] rd changed = Ok ([], rd, changed)"
| "delete_shards env n_keys ps k (es # shards) rd changed =
     and_then (shard_queue (ps_removals ps) k) (\<lambda>bufs.
     and_then (delete_keys env n_keys (concat (map hb_rows bufs)) (es, rd, changed)) (\<lambda>s.
     and_then (shard_queue (ps_known ps) k) (\<lambda>kbufs.
     and_then (delete_known env (concat kbufs) s) (\<lambda>(es, rd, changed).
     and_then (delete_shards env n_keys ps (Suc k) shards rd changed) (\<lambda>(shards, rd, changed).
       Ok (es # shards, rd, changed))))))"

definition serial_delete :: "'e table_env \<Rightarrow> sorted_table \<Rightarrow> (bool \<times> sorted_table) result" where
  "serial_delete env t =
     and_then (delete_shards env (sw_keys t) (sw_pending t) 0 (sw_shards t) (sw_data t) False) (\<lambda>(shards, rd, changed).
       Ok (changed, t\<lparr>sw_shards := shards, sw_data := rd,
         sw_pending := (sw_pending t)\<lparr>ps_removals := empty_queues (ps_removals (sw_pending t)), ps_known := empty_queues (ps_known (sw_pending t))\<rparr>\<rparr>))"

definition do_delete :: "'e table_env \<Rightarrow> sorted_table \<Rightarrow> (bool \<times> sorted_table) result" where
  "do_delete env t = serial_delete env (t\<lparr>sw_pending := (sw_pending t)\<lparr>ps_total_removals := 0\<rparr>\<rparr>)"

subsection \<open>Inserting\<close>

definition update_sort_offsets :: "nat \<Rightarrow> row \<Rightarrow> nat \<Rightarrow> (val \<times> nat) list \<Rightarrow> (val \<times> nat) list result" where
  "update_sort_offsets sort_by r i offs =
     and_then (vec_get r sort_by) (\<lambda>v.
       if offs = [] then Ok (offs @ [(v, i)])
       else let largest = fst (last offs) in
            if \<not> largest \<le> v then Err AssertFailed
            else if largest < v then Ok (offs @ [(v, i)]) else Ok offs)"

record 'e insert_state =
  is_entries :: "table_entry list"
  is_data :: rows_data
  is_offsets :: "(val \<times> nat) list"
  is_ext :: 'e
  is_changed :: bool

definition add_sorted :: "nat \<Rightarrow> row \<Rightarrow> 'e insert_state \<Rightarrow> (nat \<times> 'e insert_state) result" where
  "add_sorted sort_by r s =
     and_then (rd_add_row (is_data s) r) (\<lambda>(i, rd).
     and_then (update_sort_offsets sort_by r i (is_offsets s)) (\<lambda>offs. Ok (i, s\<lparr>is_data := rd, is_offsets := offs\<rparr>)))"

text \<open>The test of an insertion does not unwrap, but it reads the row of every entry it probes.\<close>

definition bounds_check :: "rows_data \<Rightarrow> compact_hash \<Rightarrow> table_entry list \<Rightarrow> unit result" where
  "bounds_check rd h es = and_then (map_result (\<lambda>e. rd_get_row rd (te_row e)) (filter (\<lambda>e. te_hash e = h) es)) (\<lambda>_. Ok ())"

definition insert_row :: "'e table_env \<Rightarrow> nat \<Rightarrow> nat \<Rightarrow> compact_hash \<Rightarrow> row \<Rightarrow> 'e insert_state \<Rightarrow> 'e insert_state result" where
  "insert_row env n_keys sort_by h q s =
     (if q \<noteq> [] \<and> is_stale (q ! 0) then Ok s
      else and_then (vec_slice q 0 n_keys) (\<lambda>key.
        and_then (bounds_check (is_data s) h (is_entries s)) (\<lambda>_.
          case env_find env (hash_probe h) (key_eq (is_data s) n_keys h key) (is_entries s) of
            Some i \<Rightarrow>
              and_then (vec_get (is_entries s) i) (\<lambda>e.
              and_then (rd_get_row (is_data s) (te_row e)) (\<lambda>cur.
              and_then (ok_or cur UnwrapNone) (\<lambda>cur.
              and_then (env_merge env (is_ext s) cur q) (\<lambda>(merged, out, x).
                let s = s\<lparr>is_ext := x\<rparr> in
                if merged
                then and_then (add_sorted sort_by out s) (\<lambda>(new, s).
                     and_then (rd_set_stale (is_data s) (te_row e)) (\<lambda>rd.
                       Ok (s\<lparr>is_data := rd, is_entries := (is_entries s)[i := e\<lparr>te_row := new\<rparr>], is_changed := True\<rparr>)))
                else Ok s))))
          | None \<Rightarrow>
              and_then (add_sorted sort_by q s) (\<lambda>(new, s).
                Ok (s\<lparr>is_entries := is_entries s @ [\<lparr>te_hash = h, te_row = new\<rparr>], is_changed := True\<rparr>)))))"

fun insert_batch :: "'e table_env \<Rightarrow> nat \<Rightarrow> nat \<Rightarrow> (compact_hash \<times> row) list \<Rightarrow> 'e insert_state \<Rightarrow> 'e insert_state result" where
  "insert_batch env n_keys sort_by [] s = Ok s"
| "insert_batch env n_keys sort_by ((h, q) # rs) s =
     and_then (insert_row env n_keys sort_by h q s) (\<lambda>s. insert_batch env n_keys sort_by rs s)"

text \<open>The loop over the queues of pending rows.\<close>

fun insert_shards :: "'e table_env \<Rightarrow> nat \<Rightarrow> hashed_buffer list list \<Rightarrow> sorted_table \<Rightarrow> 'e \<Rightarrow> bool \<Rightarrow> (bool \<times> sorted_table \<times> 'e) result" where
  "insert_shards env k [] t x changed = Ok (changed, t, x)"
| "insert_shards env k (bufs # queues) t x changed =
     and_then (vec_get (sw_shards t) k) (\<lambda>es.
     and_then (insert_batch env (sw_keys t) (sw_sort_by t) (concat (map hb_rows bufs))
        \<lparr>is_entries = es, is_data = sw_data t, is_offsets = sw_offsets t, is_ext = x, is_changed = changed\<rparr>) (\<lambda>s.
       insert_shards env (Suc k) queues
         (t\<lparr>sw_shards := (sw_shards t)[k := is_entries s], sw_data := is_data s, sw_offsets := is_offsets s\<rparr>)
         (is_ext s) (is_changed s)))"

definition serial_insert :: "'e table_env \<Rightarrow> sorted_table \<Rightarrow> 'e \<Rightarrow> (bool \<times> sorted_table \<times> 'e) result" where
  "serial_insert env t x =
     (let queues = ps_rows (sw_pending t);
          t = t\<lparr>sw_pending := (sw_pending t)\<lparr>ps_rows := empty_queues queues\<rparr>\<rparr> in
      insert_shards env 0 queues t x False)"

definition do_insert :: "'e table_env \<Rightarrow> sorted_table \<Rightarrow> 'e \<Rightarrow> (bool \<times> sorted_table \<times> 'e) result" where
  "do_insert env t x = serial_insert env (t\<lparr>sw_pending := (sw_pending t)\<lparr>ps_total_rows := 0\<rparr>\<rparr>) x"

subsection \<open>Compacting and merging\<close>

definition remap_entry :: "'e table_env \<Rightarrow> nat \<Rightarrow> nat \<Rightarrow> nat \<Rightarrow> row \<times> nat \<times> nat \<Rightarrow> table_entry list list \<times> (val \<times> nat) list \<Rightarrow>
    (table_entry list list \<times> (val \<times> nat) list) result" where
  "remap_entry env log2 n_keys sort_by = (\<lambda>(r, old, new) (shards, offs).
     and_then (shard_hash env log2 r n_keys) (\<lambda>(k, h).
     and_then (vec_get shards k) (\<lambda>es.
     and_then (ok_or (env_find env (hash_probe h) (\<lambda>e. te_hash e = h \<and> te_row e = old) es) UnwrapNone) (\<lambda>i.
     and_then (vec_get es i) (\<lambda>e.
     and_then (vec_get r sort_by) (\<lambda>v.
       Ok (shards[k := es[i := e\<lparr>te_row := new\<rparr>]],
           if offs = [] \<or> fst (last offs) < v then offs @ [(v, new)] else offs)))))))"

fun remap_all :: "'e table_env \<Rightarrow> nat \<Rightarrow> nat \<Rightarrow> nat \<Rightarrow> (row \<times> nat \<times> nat) list \<Rightarrow> table_entry list list \<times> (val \<times> nat) list \<Rightarrow>
    (table_entry list list \<times> (val \<times> nat) list) result" where
  "remap_all env log2 n_keys sort_by [] s = Ok s"
| "remap_all env log2 n_keys sort_by (c # cs) s =
     and_then (remap_entry env log2 n_keys sort_by c s) (\<lambda>s. remap_all env log2 n_keys sort_by cs s)"

text \<open>\<open>remap\<close> touches only the entries and the offsets, so its calls may follow the compaction.\<close>

definition sw_rehash :: "'e table_env \<Rightarrow> sorted_table \<Rightarrow> sorted_table result" where
  "sw_rehash env t =
     and_then (rd_remove_stale (sw_data t)) (\<lambda>(rd, calls).
     and_then (remap_all env (sw_log2 t) (sw_keys t) (sw_sort_by t) calls (sw_shards t, [])) (\<lambda>(shards, offs).
       Ok (t\<lparr>sw_generation := sw_generation t + 1, sw_data := rd, sw_shards := shards, sw_offsets := offs\<rparr>)))"

definition maybe_rehash :: "'e table_env \<Rightarrow> sorted_table \<Rightarrow> sorted_table result" where
  "maybe_rehash env t =
     (if rd_stale (sw_data t) \<le> max 16 (buf_len (rd_data (sw_data t)) div 2) then Ok t else sw_rehash env t)"

definition sw_merge :: "'e table_env \<Rightarrow> sorted_table \<Rightarrow> 'e \<Rightarrow> (bool \<times> sorted_table \<times> 'e) result" where
  "sw_merge env t x =
     and_then (do_delete env t) (\<lambda>(_, t).
     and_then (do_insert env t x) (\<lambda>(added, t, x).
     and_then (maybe_rehash env t) (\<lambda>t. Ok (added, t, x))))"

end
