(* ===== verification/SortedInv.thy ===== *)
theory SortedInv
  imports SortedTable
begin

text \<open>
  The invariant of the keyed table.  Its rows are read as a partial map from row ids to live rows; the
  hash table indexes exactly these rows, shard by shard, keys are unique, and the offsets name the
  start of every run of equal sort values.  Each primitive step of the table is an update of that map.
\<close>

section \<open>Live rows\<close>

definition live_at :: "row list \<Rightarrow> nat \<rightharpoonup> row" where
  "live_at rs i = (if i < length rs \<and> \<not> is_stale (rs ! i ! 0) then Some (rs ! i) else None)"

definition rd_rows :: "rows_data \<Rightarrow> row list" where
  "rd_rows rd = buf_rows (rd_data rd)"

definition rd_wf :: "nat \<Rightarrow> rows_data \<Rightarrow> bool" where
  "rd_wf n rd \<longleftrightarrow> buf_wf (rd_data rd) \<and> n_columns (rd_data rd) = n \<and>
     rd_stale rd = length (filter (\<lambda>r. is_stale (r ! 0)) (rd_rows rd))"

abbreviation rd_live :: "rows_data \<Rightarrow> nat \<rightharpoonup> row" where
  "rd_live rd \<equiv> live_at (rd_rows rd)"

lemma is_stale_stale [simp]: "is_stale stale"
  by (simp add: is_stale_def stale_def)

lemma live_at_Some: "live_at rs i = Some r \<longleftrightarrow> i < length rs \<and> rs ! i = r \<and> \<not> is_stale (r ! 0)"
  by (auto simp: live_at_def)

lemma live_at_append: "\<not> is_stale (r ! 0) \<Longrightarrow> live_at (rs @ [r]) = (live_at rs)(length rs \<mapsto> r)"
  by (rule ext) (auto simp: live_at_def nth_append less_Suc_eq)

lemma live_at_stale:
  assumes "i < length rs" "0 < length (rs ! i)"
  shows "live_at (rs[i := (rs ! i)[0 := stale]]) = (live_at rs)(i := None)"
  using assms by (auto simp: live_at_def nth_list_update_if)

lemma rd_rows_wf: "rd_wf n rd \<Longrightarrow> holds (rd_data rd) (rd_rows rd)"
  by (simp add: rd_wf_def rd_rows_def buf_wf_def)

lemma rd_row_length: "rd_wf n rd \<Longrightarrow> i < length (rd_rows rd) \<Longrightarrow> length (rd_rows rd ! i) = n"
  using rd_rows_wf [of n rd] by (simp add: holds_def rd_wf_def)

lemma rd_wf_pos: "rd_wf n rd \<Longrightarrow> 0 < n"
  using rd_rows_wf [of n rd] by (simp add: holds_def rd_wf_def)

lemma rd_len: "rd_wf n rd \<Longrightarrow> buf_len (rd_data rd) = length (rd_rows rd)"
  using rd_rows_wf [of n rd] by (simp add: holds_def buf_len_def)

lemma rd_live_length: "rd_wf n rd \<Longrightarrow> rd_live rd i = Some r \<Longrightarrow> length r = n \<and> i < length (rd_rows rd)"
  using rd_row_length by (fastforce simp: live_at_Some)

lemma rd_get_row_ok:
  assumes "rd_wf n rd"
  shows "rd_get_row rd i = (if i < length (rd_rows rd) then Ok (rd_live rd i) else Err IndexOutOfBounds)"
proof (cases "i < length (rd_rows rd)")
  case True
  with rd_row_length [OF assms True] rd_wf_pos [OF assms] show ?thesis
    by (simp add: rd_get_row_def get_row_holds [OF rd_rows_wf [OF assms]] live_at_def)
qed (simp add: rd_get_row_def get_row_holds [OF rd_rows_wf [OF assms]])

lemma rd_get_live: "rd_wf n rd \<Longrightarrow> rd_live rd i = Some r \<Longrightarrow> rd_get_row rd i = Ok (Some r)"
  using rd_live_length by (simp add: rd_get_row_ok)

lemma rd_add_row_ok:
  assumes "rd_wf n rd" "length r = n" "\<not> is_stale (r ! 0)" "length (rd_rows rd) \<le> u32_max"
  shows "\<exists>rd'. rd_add_row rd r = Ok (length (rd_rows rd), rd') \<and> rd_wf n rd' \<and> rd_rows rd' = rd_rows rd @ [r]"
proof -
  have n: "0 < n" "n_columns (rd_data rd) = n" using assms(1) rd_wf_pos by (auto simp: rd_wf_def)
  obtain b where "buf_add_row (rd_data rd) r = Ok (length (rd_rows rd), b)" "holds b (rd_rows rd @ [r])" "n_columns b = n"
    using add_row_holds [OF rd_rows_wf [OF assms(1)], of r] assms(2,4) n by auto
  with assms n show ?thesis by (auto simp: rd_add_row_def rd_wf_def rd_rows_def holds_wf)
qed

lemma filter_update_one:
  "i < length xs \<Longrightarrow> \<not> P (xs ! i) \<Longrightarrow> P x \<Longrightarrow> length (filter P (xs[i := x])) = Suc (length (filter P xs))"
  by (induction xs arbitrary: i) (auto split: nat.splits)

lemma rd_set_stale_ok:
  assumes "rd_wf n rd" "rd_live rd i = Some r"
  shows "\<exists>rd'. rd_set_stale rd i = Ok rd' \<and> rd_wf n rd' \<and> length (rd_rows rd') = length (rd_rows rd) \<and>
    rd_live rd' = (rd_live rd)(i := None)"
proof -
  have i: "i < length (rd_rows rd)" "rd_rows rd ! i = r" "\<not> is_stale (r ! 0)" using assms(2) by (auto simp: live_at_Some)
  have r: "length r = n" "0 < n" using rd_row_length [OF assms(1) i(1)] i(2) rd_wf_pos [OF assms(1)] by auto
  obtain b where b: "buf_set_stale (rd_data rd) i = Ok (False, b)" "holds b ((rd_rows rd)[i := r[0 := stale]])"
    using set_stale_holds [OF rd_rows_wf [OF assms(1)] i(1)] i by auto
  have "r[0 := stale] \<in> set ((rd_rows rd)[i := r[0 := stale]])" using i(1) by (rule set_update_memI)
  with b(2) have "length (r[0 := stale]) = n_columns b" unfolding holds_def by blast
  then have "n_columns b = n" using r by simp
  moreover have "length (filter (\<lambda>r. is_stale (r ! 0)) ((rd_rows rd)[i := r[0 := stale]])) = Suc (rd_stale rd)"
    using filter_update_one [of i "rd_rows rd" "\<lambda>r. is_stale (r ! 0)" "r[0 := stale]"] i r assms(1) by (simp add: rd_wf_def)
  ultimately show ?thesis using b i r live_at_stale [of i "rd_rows rd"]
    by (auto simp: rd_set_stale_def rd_wf_def rd_rows_def holds_wf)
qed

lemma rd_remove_stale_ok:
  assumes "rd_wf n rd" "length (rd_rows rd) \<le> u32_max"
  shows "\<exists>rd'. rd_remove_stale rd = Ok (rd', remapped 0 0 (rd_rows rd)) \<and> rd_wf n rd' \<and>
    rd_rows rd' = filter (\<lambda>r. \<not> is_stale (r ! 0)) (rd_rows rd)"
proof -
  have hd: "hd r = r ! 0" if "r \<in> set (rd_rows rd)" for r
  proof (rule hd_conv_nth)
    show "r \<noteq> []" using that rd_rows_wf [OF assms(1)] by (auto simp: holds_def)
  qed
  have f: "filter (\<lambda>r. \<not> is_stale (hd r)) (rd_rows rd) = filter (\<lambda>r. \<not> is_stale (r ! 0)) (rd_rows rd)"
    using hd by (intro filter_cong) auto
  from remove_stale_holds [OF rd_rows_wf [OF assms(1)] assms(2)] assms(1) f show ?thesis
    by (auto simp: rd_remove_stale_def rd_wf_def rd_rows_def holds_wf)
qed

section \<open>Keys\<close>

text \<open>\<open>denotes n L m\<close>: the live rows \<open>L\<close> have unique keys and are the rows of \<open>m\<close>.\<close>

definition denotes :: "nat \<Rightarrow> (nat \<rightharpoonup> row) \<Rightarrow> (val list \<rightharpoonup> row) \<Rightarrow> bool" where
  "denotes n L m \<longleftrightarrow>
     (\<forall>key r. m key = Some r \<longleftrightarrow> (\<exists>i. L i = Some r \<and> take n r = key)) \<and>
     (\<forall>i j r s. L i = Some r \<longrightarrow> L j = Some s \<longrightarrow> take n r = take n s \<longrightarrow> i = j)"

lemma denotes_lookup: "denotes n L m \<Longrightarrow> L i = Some r \<Longrightarrow> m (take n r) = Some r"
  by (auto simp: denotes_def)

lemma denotes_row: "denotes n L m \<Longrightarrow> m key = Some r \<Longrightarrow> \<exists>i. L i = Some r \<and> take n r = key"
  by (auto simp: denotes_def)

lemma denotes_unique: "denotes n L m \<Longrightarrow> L i = Some r \<Longrightarrow> L j = Some s \<Longrightarrow> take n r = take n s \<Longrightarrow> i = j"
  unfolding denotes_def by blast

lemma denotes_None: "denotes n L m \<Longrightarrow> m key = None \<longleftrightarrow> (\<forall>i r. L i = Some r \<longrightarrow> take n r \<noteq> key)"
  unfolding denotes_def by (metis option.distinct(1) option.exhaust)

lemma denotes_fun: "denotes n L m \<Longrightarrow> denotes n L m' \<Longrightarrow> m = m'"
proof (rule ext)
  fix key assume "denotes n L m" "denotes n L m'"
  then have "m key = Some r \<longleftrightarrow> m' key = Some r" for r by (auto simp: denotes_def)
  then show "m key = m' key" by (metis option.exhaust)
qed

lemma denotes_del:
  assumes "denotes n L m" "L i = Some r"
  shows "denotes n (L(i := None)) (m(take n r := None))"
  unfolding denotes_def
proof (intro conjI allI)
  fix key s
  have "m key = Some s \<longleftrightarrow> (\<exists>j. L j = Some s \<and> take n s = key)" using assms(1) by (auto simp: denotes_def)
  moreover have "j = i \<longleftrightarrow> take n s = take n r" if "L j = Some s" for j
    using denotes_unique [OF assms(1) that assms(2)] that assms(2) by auto
  ultimately show "(m(take n r := None)) key = Some s \<longleftrightarrow> (\<exists>j. (L(i := None)) j = Some s \<and> take n s = key)"
    by (auto split: if_splits)
qed (use denotes_unique [OF assms(1)] in \<open>auto split: if_splits\<close>)

lemma denotes_add:
  assumes "denotes n L m" "L i = None" "m (take n r) = None"
  shows "denotes n (L(i \<mapsto> r)) (m(take n r \<mapsto> r))"
proof -
  have fresh: "take n s \<noteq> take n r" if "L j = Some s" for j s
    using denotes_None [OF assms(1)] assms(3) that by blast
  have map: "m key = Some s \<longleftrightarrow> (\<exists>j. L j = Some s \<and> take n s = key)" for key s using assms(1) by (auto simp: denotes_def)
  show ?thesis unfolding denotes_def
  proof (intro conjI allI)
    fix key s
    show "(m(take n r \<mapsto> r)) key = Some s \<longleftrightarrow> (\<exists>j. (L(i \<mapsto> r)) j = Some s \<and> take n s = key)"
    proof (cases "key = take n r")
      case True
      with fresh show ?thesis by (auto split: if_splits)
    next
      case False
      with assms(2) have "(\<exists>j. (L(i \<mapsto> r)) j = Some s \<and> take n s = key) \<longleftrightarrow> (\<exists>j. L j = Some s \<and> take n s = key)"
        by (metis fun_upd_apply option.inject option.distinct(1))
      with False map [of key s] show ?thesis by simp
    qed
  next
    fix j k s s'
    show "(L(i \<mapsto> r)) j = Some s \<longrightarrow> (L(i \<mapsto> r)) k = Some s' \<longrightarrow> take n s = take n s' \<longrightarrow> j = k"
      using fresh [of j s] fresh [of k s'] denotes_unique [OF assms(1), of j s k s'] by auto
  qed
qed

text \<open>The contents of a list of rows.\<close>

definition contents :: "nat \<Rightarrow> row list \<Rightarrow> val list \<rightharpoonup> row" where
  "contents n rs = map_of (map (\<lambda>r. (take n r, r)) (filter (\<lambda>r. \<not> is_stale (r ! 0)) rs))"

definition unique_keys :: "nat \<Rightarrow> row list \<Rightarrow> bool" where
  "unique_keys n rs \<longleftrightarrow> distinct (map (take n) (filter (\<lambda>r. \<not> is_stale (r ! 0)) rs))"

lemma distinct_map_filter:
  "distinct (map f (filter P xs)) \<longleftrightarrow>
   (\<forall>i j. i < length xs \<longrightarrow> j < length xs \<longrightarrow> P (xs ! i) \<longrightarrow> P (xs ! j) \<longrightarrow> f (xs ! i) = f (xs ! j) \<longrightarrow> i = j)"
proof (induction xs rule: rev_induct)
  case (snoc x xs)
  have "distinct (map f (filter P (xs @ [x]))) \<longleftrightarrow>
      distinct (map f (filter P xs)) \<and> (P x \<longrightarrow> (\<forall>i < length xs. P (xs ! i) \<longrightarrow> f (xs ! i) \<noteq> f x))"
  proof -
    have "f x \<in> f ` set (filter P xs) \<longleftrightarrow> (\<exists>y \<in> set xs. P y \<and> f y = f x)" by (simp add: image_iff) metis
    also have "\<dots> \<longleftrightarrow> (\<exists>i < length xs. P (xs ! i) \<and> f (xs ! i) = f x)" by (metis in_set_conv_nth)
    finally have "f x \<in> f ` set (filter P xs) \<longleftrightarrow> (\<exists>i < length xs. P (xs ! i) \<and> f (xs ! i) = f x)" .
    then show ?thesis by auto
  qed
  also have "\<dots> \<longleftrightarrow> (\<forall>i j. i < length (xs @ [x]) \<longrightarrow> j < length (xs @ [x]) \<longrightarrow> P ((xs @ [x]) ! i) \<longrightarrow> P ((xs @ [x]) ! j) \<longrightarrow>
      f ((xs @ [x]) ! i) = f ((xs @ [x]) ! j) \<longrightarrow> i = j)"
    unfolding snoc.IH by (auto simp: nth_append less_Suc_eq)
  finally show ?case .
qed simp

lemma unique_keys_denotes: "unique_keys n rs \<longleftrightarrow> denotes n (live_at rs) (contents n rs)"
proof
  assume u: "unique_keys n rs"
  have "contents n rs key = Some r \<longleftrightarrow> (\<exists>i. live_at rs i = Some r \<and> take n r = key)" for key r
    using u unfolding contents_def unique_keys_def
    by (subst map_of_eq_Some_iff) (auto simp: comp_def live_at_Some in_set_conv_nth image_iff)
  moreover have "\<forall>i j r s. live_at rs i = Some r \<longrightarrow> live_at rs j = Some s \<longrightarrow> take n r = take n s \<longrightarrow> i = j"
    using u unfolding unique_keys_def distinct_map_filter by (auto simp: live_at_Some)
  ultimately show "denotes n (live_at rs) (contents n rs)" by (simp add: denotes_def)
next
  assume "denotes n (live_at rs) (contents n rs)"
  then show "unique_keys n rs" unfolding unique_keys_def distinct_map_filter
    by (auto simp: denotes_def live_at_Some)
qed

lemma denotes_contents: "denotes n (live_at rs) m \<longleftrightarrow> unique_keys n rs \<and> m = contents n rs"
proof
  assume d: "denotes n (live_at rs) m"
  then have "unique_keys n rs" unfolding unique_keys_def distinct_map_filter by (auto simp: denotes_def live_at_Some)
  with d show "unique_keys n rs \<and> m = contents n rs" using unique_keys_denotes denotes_fun by blast
qed (use unique_keys_denotes in blast)

section \<open>The hash table\<close>

text \<open>
  \<open>shard_ok H k es L\<close>: the entries of shard \<open>k\<close> are the live rows of that shard with their hashes, once
  each.  \<open>H\<close> gives the shard and the compact hash of a row.
\<close>

definition shard_ok :: "(row \<Rightarrow> nat \<times> compact_hash) \<Rightarrow> nat \<Rightarrow> table_entry list \<Rightarrow> (nat \<rightharpoonup> row) \<Rightarrow> bool" where
  "shard_ok H k es L \<longleftrightarrow> distinct (map te_row es) \<and>
     (\<forall>i h. \<lparr>te_hash = h, te_row = i\<rparr> \<in> set es \<longleftrightarrow> (\<exists>r. L i = Some r \<and> H r = (k, h)))"

lemma entry_eta: "\<lparr>te_hash = te_hash e, te_row = te_row e\<rparr> = (e :: table_entry)"
  by simp

lemma shard_ok_row: "shard_ok H k es L \<Longrightarrow> e \<in> set es \<Longrightarrow> \<exists>r. L (te_row e) = Some r \<and> H r = (k, te_hash e)"
  unfolding shard_ok_def by (metis entry_eta)

lemma shard_ok_entry: "shard_ok H k es L \<Longrightarrow> L i = Some r \<Longrightarrow> H r = (k, h) \<Longrightarrow> \<lparr>te_hash = h, te_row = i\<rparr> \<in> set es"
  unfolding shard_ok_def by blast

lemma shard_ok_other:
  assumes "shard_ok H k es L" "\<And>i r. (L i = Some r \<and> fst (H r) = k) \<longleftrightarrow> (L' i = Some r \<and> fst (H r) = k)"
  shows "shard_ok H k es L'"
  using assms unfolding shard_ok_def by (metis fst_conv)

lemma remove_nth_set: "distinct xs \<Longrightarrow> i < length xs \<Longrightarrow> set (remove_nth i xs) = set xs - {xs ! i}"
proof -
  assume d: "distinct xs" "i < length xs"
  from id_take_nth_drop [OF d(2)] have "xs = take i xs @ xs ! i # drop (Suc i) xs" .
  with d(1) show ?thesis unfolding remove_nth_def by (metis Diff_insert_absorb Un_insert_right distinct_append
      distinct.simps(2) list.simps(15) not_distinct_conv_prefix set_append Diff_empty in_set_conv_decomp Un_iff disjoint_insert(1))
qed

lemma remove_nth_map: "map f (remove_nth i xs) = remove_nth i (map f xs)"
  by (simp add: remove_nth_def take_map drop_map)

lemma remove_nth_distinct: "distinct xs \<Longrightarrow> distinct (remove_nth i xs)"
  by (simp add: remove_nth_def set_take_disj_set_drop_if_distinct)

lemma shard_ok_distinct: "shard_ok H k es L \<Longrightarrow> distinct es"
  by (simp add: shard_ok_def distinct_map)

lemma shard_del:
  assumes "shard_ok H k es L" "p < length es"
  shows "shard_ok H k (remove_nth p es) (L(te_row (es ! p) := None))"
  unfolding shard_ok_def
proof (intro conjI allI)
  show "distinct (map te_row (remove_nth p es))" using assms(1) by (simp add: remove_nth_map remove_nth_distinct shard_ok_def)
  fix i h
  have "inj_on te_row (set es)" using assms(1) by (simp add: shard_ok_def distinct_map)
  then have "i = te_row (es ! p) \<longleftrightarrow> \<lparr>te_hash = h, te_row = i\<rparr> = es ! p" if "\<lparr>te_hash = h, te_row = i\<rparr> \<in> set es"
    using that assms(2) by (metis inj_on_eq_iff nth_mem table_entry.select_convs(2))
  then show "\<lparr>te_hash = h, te_row = i\<rparr> \<in> set (remove_nth p es) \<longleftrightarrow>
      (\<exists>r. (L(te_row (es ! p) := None)) i = Some r \<and> H r = (k, h))"
    using assms by (auto simp: remove_nth_set [OF shard_ok_distinct [OF assms(1)] assms(2)] shard_ok_def)
qed

lemma shard_add_entry:
  assumes "shard_ok H k es L" "L i = None" "H r = (k, h)"
  shows "shard_ok H k (es @ [\<lparr>te_hash = h, te_row = i\<rparr>]) (L(i \<mapsto> r))"
proof -
  have "i \<notin> te_row ` set es" using shard_ok_row [OF assms(1)] assms(2) by force
  moreover have "\<lparr>te_hash = g, te_row = i\<rparr> \<notin> set es" for g using calculation by force
  ultimately show ?thesis using assms by (auto simp: shard_ok_def)
qed

lemma shard_move:
  assumes "shard_ok H k es L" "p < length es" "te_row (es ! p) = i" "L i = Some r" "H r' = H r" "L j = None \<or> j = i"
  shows "shard_ok H k (es[p := (es ! p)\<lparr>te_row := j\<rparr>]) (L(i := None, j \<mapsto> r'))"
proof -
  obtain h where e: "es ! p = \<lparr>te_hash = h, te_row = i\<rparr>" using assms(3) by (metis entry_eta)
  have Hr: "H r = (k, h)" using shard_ok_row [OF assms(1), of "es ! p"] nth_mem [OF assms(2)] assms(4) e by simp
  have j: "j \<notin> te_row ` (set es - {es ! p})"
  proof
    assume "j \<in> te_row ` (set es - {es ! p})"
    then obtain e' where e': "e' \<in> set es" "te_row e' = j" "e' \<noteq> es ! p" by auto
    have "L j \<noteq> None" using shard_ok_row [OF assms(1) e'(1)] e'(2) by auto
    with assms(6) have "te_row e' = te_row (es ! p)" using e'(2) assms(3) by simp
    then show False using assms(1,2) e'(1,3) unfolding shard_ok_def distinct_map by (metis inj_on_eq_iff nth_mem)
  qed
  have d: "distinct es" using shard_ok_distinct [OF assms(1)] .
  have set: "set (es[p := x]) = insert x (set es - {es ! p})" for x
    using set_update_distinct [OF d assms(2)] .
  have "distinct (map te_row (es[p := (es ! p)\<lparr>te_row := j\<rparr>]))"
  proof -
    have "distinct ((map te_row es)[p := j])"
    proof (rule distinct_list_update)
      show "distinct (map te_row es)" using assms(1) by (simp add: shard_ok_def)
      have "set (map te_row es) - {map te_row es ! p} = te_row ` (set es - {es ! p})"
        using assms(1,2) by (auto simp: shard_ok_def distinct_map inj_on_def)
      then show "j \<notin> set (map te_row es) - {map te_row es ! p}" using j by simp
    qed
    then show ?thesis by (simp add: map_update)
  qed
  moreover have "\<lparr>te_hash = g, te_row = a\<rparr> \<in> set (es[p := (es ! p)\<lparr>te_row := j\<rparr>]) \<longleftrightarrow>
      (\<exists>r. (L(i := None, j \<mapsto> r')) a = Some r \<and> H r = (k, g))" for a g
  proof (cases "a = j")
    case True
    then have "\<lparr>te_hash = g, te_row = a\<rparr> \<notin> set es - {es ! p}" using j by force
    with True e Hr assms(5) show ?thesis by (auto simp: set)
  next
    case False
    have "\<lparr>te_hash = g, te_row = i\<rparr> \<notin> set es - {es ! p}"
      using assms(1,2,3) unfolding shard_ok_def distinct_map
      by (metis DiffE inj_on_eq_iff insertI1 nth_mem table_entry.select_convs(2))
    with False e assms(1) show ?thesis by (auto simp: set shard_ok_def)
  qed
  ultimately show ?thesis by (simp add: shard_ok_def)
qed

section \<open>Sort offsets\<close>

text \<open>The offset that covers row \<open>i\<close> has the value \<open>v\<close>.\<close>

definition covers :: "(val \<times> nat) list \<Rightarrow> nat \<Rightarrow> val \<Rightarrow> bool" where
  "covers offs i v \<longleftrightarrow> (\<exists>s. (v, s) \<in> set offs \<and> s \<le> i \<and> (\<forall>w s'. (w, s') \<in> set offs \<longrightarrow> v < w \<longrightarrow> i < s'))"

definition offs_ok :: "nat \<Rightarrow> (val \<times> nat) list \<Rightarrow> nat \<Rightarrow> (nat \<rightharpoonup> row) \<Rightarrow> bool" where
  "offs_ok sort_by offs n L \<longleftrightarrow> sorted_wrt (\<lambda>x y. fst x < fst y \<and> snd x < snd y) offs \<and> (\<forall>x \<in> set offs. snd x < n) \<and>
     (\<forall>i r. L i = Some r \<longrightarrow> i < n \<and> covers offs i (r ! sort_by))"

definition push_sort :: "val \<Rightarrow> nat \<Rightarrow> (val \<times> nat) list \<Rightarrow> (val \<times> nat) list" where
  "push_sort v i offs = (if offs = [] \<or> fst (last offs) < v then offs @ [(v, i)] else offs)"

definition reaches :: "(val \<times> nat) list \<Rightarrow> val \<Rightarrow> bool" where
  "reaches offs v \<longleftrightarrow> (offs = [] \<or> fst (last offs) \<le> v)"

lemma update_sort_offsets_ok:
  "sort_by < length r \<Longrightarrow> reaches offs (r ! sort_by) \<Longrightarrow> update_sort_offsets sort_by r i offs = Ok (push_sort (r ! sort_by) i offs)"
  by (auto simp: update_sort_offsets_def push_sort_def reaches_def Let_def)

lemma reaches_push: "reaches offs v \<Longrightarrow> v \<le> w \<Longrightarrow> reaches (push_sort v i offs) w"
  by (auto simp: reaches_def push_sort_def)

lemma offs_subset: "offs_ok sort_by offs n L \<Longrightarrow> (\<And>i r. L' i = Some r \<Longrightarrow> L i = Some r) \<Longrightarrow> offs_ok sort_by offs n L'"
  by (auto simp: offs_ok_def)

lemma last_offset_largest:
  fixes offs :: "(val \<times> nat) list"
  assumes "sorted_wrt (\<lambda>x y. fst x < fst y \<and> snd x < snd y) offs" "(w, s) \<in> set offs"
  shows "w \<le> fst (last offs)"
proof -
  obtain ys z where o: "offs = ys @ [z]" using assms(2) by (cases offs rule: rev_cases) auto
  with assms show ?thesis by (fastforce simp: sorted_wrt_append)
qed

lemma offs_push:
  assumes "offs_ok sort_by offs n L" "reaches offs (r ! sort_by)"
  shows "offs_ok sort_by (push_sort (r ! sort_by) n offs) (Suc n) (L(n \<mapsto> r))"
proof -
  let ?v = "r ! sort_by"
  have srt: "sorted_wrt (\<lambda>x y. fst x < fst y \<and> snd x < snd y) offs" and lim: "\<And>w s. (w, s) \<in> set offs \<Longrightarrow> s < n"
    using assms(1) by (auto simp: offs_ok_def)
  have top: "w \<le> ?v" if "(w, s) \<in> set offs" for w s
    using last_offset_largest [OF srt that] assms(2) that by (auto simp: reaches_def)
  show ?thesis
  proof (cases "offs = [] \<or> fst (last offs) < ?v")
    case True
    then have less: "w < ?v" if "(w, s) \<in> set offs" for w s using last_offset_largest [OF srt that] that by auto
    have "covers (offs @ [(?v, n)]) n ?v" using top lim by (fastforce simp: covers_def)
    moreover have "covers (offs @ [(?v, n)]) i v" if "covers offs i v" "i < n" for i v
      using that by (auto simp: covers_def)
    ultimately show ?thesis using True assms(1) less lim srt
      by (fastforce simp: offs_ok_def push_sort_def sorted_wrt_append)
  next
    case False
    with assms(2) have last: "offs \<noteq> []" "fst (last offs) = ?v" by (auto simp: reaches_def)
    then have mem: "(?v, snd (last offs)) \<in> set offs" by (metis last_in_set prod.collapse)
    have "covers offs n ?v" unfolding covers_def using mem lim [OF mem] top by (intro exI [of _ "snd (last offs)"]) force
    with False assms(1) show ?thesis by (auto simp: offs_ok_def push_sort_def less_Suc_eq)
  qed
qed

lemma offs_sorted_rows:
  assumes "offs_ok sort_by offs n L" "L i = Some r" "L j = Some s" "i < j"
  shows "r ! sort_by \<le> s ! sort_by"
proof (rule ccontr)
  assume "\<not> r ! sort_by \<le> s ! sort_by"
  then have less: "s ! sort_by < r ! sort_by" by simp
  have "covers offs i (r ! sort_by)" "covers offs j (s ! sort_by)" using assms(1-3) by (auto simp: offs_ok_def)
  then obtain a where "(r ! sort_by, a) \<in> set offs" "a \<le> i" "j < a" using less by (auto simp: covers_def)
  with assms(4) show False by simp
qed

section \<open>Lookups in a shard\<close>

text \<open>
  What the raw hash table and the merge function promise.  The merge function sees two live rows with
  one key and does not panic; when it changes the row, it returns a live row with that key and the sort
  value of the incoming row.
\<close>

locale keyed_env =
  fixes env :: "'e table_env"
  assumes find_sound: "env_find env h p es = Some i \<Longrightarrow> i < length es \<and> p (es ! i)"
    and find_complete: "env_find env h p es = None \<Longrightarrow> e \<in> set es \<Longrightarrow> hash_probe (te_hash e) = h \<Longrightarrow> \<not> p e"

locale merging_env = keyed_env +
  fixes n_keys n_cols sort_by :: nat
  assumes merge_ok: "length cur = n_cols \<Longrightarrow> length new = n_cols \<Longrightarrow> take n_keys cur = take n_keys new \<Longrightarrow>
      \<not> is_stale (cur ! 0) \<Longrightarrow> \<not> is_stale (new ! 0) \<Longrightarrow>
      \<exists>merged out x'. env_merge env x cur new = Ok (merged, out, x') \<and> (merged \<longrightarrow>
        length out = n_cols \<and> take n_keys out = take n_keys new \<and> \<not> is_stale (out ! 0) \<and> out ! sort_by = new ! sort_by)"

lemma map_result_ok: "(\<And>x. x \<in> set xs \<Longrightarrow> \<exists>y. f x = Ok y) \<Longrightarrow> \<exists>ys. map_result f xs = Ok ys"
proof (induction xs)
  case (Cons x xs)
  then obtain y ys where "f x = Ok y" "map_result f xs = Ok ys" by fastforce
  then show ?case by simp
qed simp

text \<open>\<open>indexed n nk K k es rd\<close>: the entries of shard \<open>k\<close> index the rows, whose keys \<open>K\<close> hashes.\<close>

definition indexed :: "nat \<Rightarrow> nat \<Rightarrow> (val list \<Rightarrow> nat \<times> compact_hash) \<Rightarrow> nat \<Rightarrow> table_entry list \<Rightarrow> rows_data \<Rightarrow> bool" where
  "indexed n nk K k es rd \<longleftrightarrow> rd_wf n rd \<and> nk \<le> n \<and> shard_ok (\<lambda>r. K (take nk r)) k es (rd_live rd)"

lemma indexed_entry:
  assumes "indexed n nk K k es rd" "e \<in> set es"
  shows "\<exists>r. rd_live rd (te_row e) = Some r \<and> rd_get_row rd (te_row e) = Ok (Some r) \<and> length r = n \<and> K (take nk r) = (k, te_hash e)"
proof -
  from assms shard_ok_row obtain r where r: "rd_live rd (te_row e) = Some r" "K (take nk r) = (k, te_hash e)"
    unfolding indexed_def by fast
  with assms(1) rd_get_live [of n rd "te_row e" r] rd_live_length [of n rd "te_row e" r] show ?thesis by (simp add: indexed_def)
qed

lemma indexed_key_eq:
  assumes "indexed n nk K k es rd" "e \<in> set es" "rd_live rd (te_row e) = Some r"
  shows "key_eq rd nk h key e \<longleftrightarrow> te_hash e = h \<and> take nk r = key"
  using indexed_entry [OF assms(1,2)] assms(3) by (auto simp: key_eq_def)

lemma indexed_checks:
  assumes "indexed n nk K k es rd"
  shows "probe_check rd nk h es = Ok ()" "bounds_check rd h es = Ok ()"
proof -
  have "nk \<le> n" using assms by (simp add: indexed_def)
  have "\<exists>ys. map_result (\<lambda>e. and_then (rd_get_row rd (te_row e)) (\<lambda>r. and_then (ok_or r UnwrapNone) (\<lambda>r. vec_slice r 0 nk)))
      (filter (\<lambda>e. te_hash e = h) es) = Ok ys"
  proof (rule map_result_ok)
    fix e assume "e \<in> set (filter (\<lambda>e. te_hash e = h) es)"
    with indexed_entry [OF assms, of e] obtain r where "rd_get_row rd (te_row e) = Ok (Some r)" "length r = n" by auto
    with \<open>nk \<le> n\<close> show "\<exists>y. and_then (rd_get_row rd (te_row e)) (\<lambda>r. and_then (ok_or r UnwrapNone) (\<lambda>r. vec_slice r 0 nk)) = Ok y" by simp
  qed
  then show "probe_check rd nk h es = Ok ()" by (auto simp: probe_check_def)
  have "\<exists>ys. map_result (\<lambda>e. rd_get_row rd (te_row e)) (filter (\<lambda>e. te_hash e = h) es) = Ok ys"
    using indexed_entry [OF assms] by (intro map_result_ok) auto
  then show "bounds_check rd h es = Ok ()" by (auto simp: bounds_check_def)
qed

context keyed_env
begin

lemma find_key_Some:
  assumes "indexed n nk K k es rd" "env_find env (hash_probe h) (key_eq rd nk h key) es = Some p"
  shows "p < length es" "\<exists>r. rd_live rd (te_row (es ! p)) = Some r \<and> take nk r = key \<and> te_hash (es ! p) = h"
proof -
  from find_sound [OF assms(2)] have p: "p < length es" "key_eq rd nk h key (es ! p)" by auto
  show "p < length es" by (rule p(1))
  obtain r where "rd_live rd (te_row (es ! p)) = Some r" using indexed_entry [OF assms(1) nth_mem [OF p(1)]] by blast
  with indexed_key_eq [OF assms(1) nth_mem [OF p(1)]] p(2)
  show "\<exists>r. rd_live rd (te_row (es ! p)) = Some r \<and> take nk r = key \<and> te_hash (es ! p) = h" by blast
qed

lemma find_key_None:
  assumes "indexed n nk K k es rd" "env_find env (hash_probe h) (key_eq rd nk h key) es = None" "K key = (k, h)" "rd_live rd i = Some r"
  shows "take nk r \<noteq> key"
proof
  assume key: "take nk r = key"
  have e: "\<lparr>te_hash = h, te_row = i\<rparr> \<in> set es" using assms(1,3,4) key shard_ok_entry unfolding indexed_def by fastforce
  from indexed_key_eq [OF assms(1) this] key assms(4) have "key_eq rd nk h key \<lparr>te_hash = h, te_row = i\<rparr>" by simp
  with find_complete [OF assms(2) e] show False by simp
qed

lemma find_known_Some:
  assumes "env_find env (hash_probe h) (\<lambda>e. te_hash e = h \<and> te_row e = i) es = Some p"
  shows "p < length es" "es ! p = \<lparr>te_hash = h, te_row = i\<rparr>"
  using find_sound [OF assms] by (auto simp: entry_eta [symmetric])

lemma find_known_None:
  assumes "env_find env (hash_probe h) (\<lambda>e. te_hash e = h \<and> te_row e = i) es = None"
  shows "\<lparr>te_hash = h, te_row = i\<rparr> \<notin> set es"
  using find_complete [OF assms] by fastforce

end

section \<open>The invariant of the table\<close>

abbreviation sw_rows :: "sorted_table \<Rightarrow> row list" where
  "sw_rows t \<equiv> rd_rows (sw_data t)"

abbreviation sw_live :: "sorted_table \<Rightarrow> nat \<rightharpoonup> row" where
  "sw_live t \<equiv> live_at (sw_rows t)"

definition sw_contents :: "sorted_table \<Rightarrow> val list \<rightharpoonup> row" where
  "sw_contents t = contents (sw_keys t) (sw_rows t)"

definition sw_wf :: "'e table_env \<Rightarrow> sorted_table \<Rightarrow> bool" where
  "sw_wf env t \<longleftrightarrow> sw_sort_by t < sw_columns t \<and> length (sw_rows t) \<le> u32_max \<and>
     length (sw_shards t) = 2 ^ sw_log2 t \<and> sw_log2 t \<le> 57 \<and>
     rd_wf (sw_columns t) (sw_data t) \<and> sw_keys t \<le> sw_columns t \<and>
     (\<forall>k < 2 ^ sw_log2 t. indexed (sw_columns t) (sw_keys t) (key_hash env (sw_log2 t)) k (sw_shards t ! k) (sw_data t)) \<and>
     unique_keys (sw_keys t) (sw_rows t) \<and> offs_ok (sw_sort_by t) (sw_offsets t) (length (sw_rows t)) (sw_live t)"

text \<open>The staged operations are in the queues of their shards, with their hashes.\<close>

definition staged_ok :: "(val list \<Rightarrow> nat \<times> compact_hash) \<Rightarrow> nat \<Rightarrow> nat \<Rightarrow> nat \<Rightarrow> hashed_buffer list list \<Rightarrow> bool" where
  "staged_ok K nk arity shards queues \<longleftrightarrow> length queues = shards \<and>
     (\<forall>k < shards. \<forall>(h, r) \<in> set (concat (map hb_rows (queues ! k))). length r = arity \<and> K (take nk r) = (k, h))"

definition pending_ok :: "'e table_env \<Rightarrow> sorted_table \<Rightarrow> bool" where
  "pending_ok env t \<longleftrightarrow>
     staged_ok (key_hash env (sw_log2 t)) (sw_keys t) (sw_columns t) (2 ^ sw_log2 t) (ps_rows (sw_pending t)) \<and>
     staged_ok (key_hash env (sw_log2 t)) (sw_keys t) (sw_keys t) (2 ^ sw_log2 t) (ps_removals (sw_pending t)) \<and>
     length (ps_known (sw_pending t)) = 2 ^ sw_log2 t"

lemma shard_id_bound:
  assumes "log2 < 64"
  shows "shard_id log2 h < 2 ^ log2"
proof -
  have "unat (x AND mask log2 :: 64 word) < 2 ^ log2" for x
    by (simp add: unsigned_take_bit_eq flip: take_bit_eq_mask)
  then show ?thesis by (simp add: shard_id_def mask_eq_exp_minus_1)
qed

section \<open>A small table\<close>

text \<open>A search that probes the entries in their order, and a table of one row with two staged rows.\<close>

definition first_hit :: "full_hash \<Rightarrow> (table_entry \<Rightarrow> bool) \<Rightarrow> table_entry list \<Rightarrow> nat option" where
  "first_hit h p es = find (\<lambda>i. hash_probe (te_hash (es ! i)) = h \<and> p (es ! i)) [0..<length es]"

interpretation first_hit_env: keyed_env "\<lparr>env_hash = hash, env_find = first_hit, env_merge = merge\<rparr>" for hash merge
proof
  fix h p es i
  assume "env_find \<lparr>env_hash = hash, env_find = first_hit, env_merge = merge\<rparr> h p es = Some i"
  then show "i < length es \<and> p (es ! i)" by (auto simp: first_hit_def find_Some_iff)
next
  fix h p es and e :: table_entry
  assume "env_find \<lparr>env_hash = hash, env_find = first_hit, env_merge = merge\<rparr> h p es = None" "e \<in> set es" "hash_probe (te_hash e) = h"
  then show "\<not> p e" by (fastforce simp: first_hit_def find_None_iff in_set_conv_nth)
qed

definition sample_keyed :: sorted_table where
  "sample_keyed =
     \<lparr>sw_generation = 0, sw_data = rd_new \<lparr>n_columns = 3, total_rows = 1, buf_data = [6, 5, 0]\<rparr>, sw_log2 = 0,
      sw_shards = [[\<lparr>te_hash = 0, te_row = 0\<rparr>]], sw_keys = 1, sw_columns = 3, sw_sort_by = 2, sw_offsets = [(0, 0)],
      sw_pending = \<lparr>ps_rows = [[\<lparr>hb_arity = 3, hb_values = [6, 3, 4, 0, 2, 7, 4, 0]\<rparr>]], ps_removals = [[]], ps_known = [[]],
        ps_total_removals = 0, ps_total_rows = 2\<rparr>\<rparr>"

lemma sample_rows: "sw_rows sample_keyed = [[6, 5, 0]]" "rd_wf 3 (sw_data sample_keyed)"
proof -
  let ?b = "\<lparr>n_columns = 3, total_rows = 1, buf_data = [6, 5, 0]\<rparr>"
  have "holds ?b [[6, 5, 0]]" by (simp add: holds_def)
  then have "buf_rows ?b = [[6, 5, 0]]" by (rule holds_rows)
  with \<open>holds ?b [[6, 5, 0]]\<close> show "sw_rows sample_keyed = [[6, 5, 0]]" "rd_wf 3 (sw_data sample_keyed)"
    by (simp_all add: sample_keyed_def rd_rows_def rd_new_def rd_wf_def buf_wf_def is_stale_def stale_def u32_max_def)
qed

lemma sample_staged: "hb_rows \<lparr>hb_arity = 3, hb_values = [6, 3, 4, 0, 2, 7, 4, 0]\<rparr> = [(0, [6, 3, 4]), (0, [2, 7, 4])]"
  using slice_chunks_concat [of 4 "[[6, 3, 4, 0], [2, 7, 4, 0]] :: row list"] by (simp add: hb_rows_def hb_len_def hash_from_value_def)

lemma sample_wf:
  assumes "\<And>key. env_hash env key = 0"
  shows "sw_wf env sample_keyed" "pending_ok env sample_keyed" "sw_contents sample_keyed = [[6] \<mapsto> [6, 5, 0]]"
proof -
  have K: "key_hash env 0 key = (0, 0)" for key using assms by (simp add: key_hash_def shard_id_def compact_from_full_def Let_def)
  have live: "sw_live sample_keyed = [0 \<mapsto> [6, 5, 0]]"
    by (rule ext) (simp add: live_at_def sample_rows is_stale_def stale_def u32_max_def)
  have "indexed 3 1 (key_hash env 0) 0 [\<lparr>te_hash = 0, te_row = 0\<rparr>] (sw_data sample_keyed)"
    using sample_rows(2) live by (auto simp: indexed_def shard_ok_def K)
  moreover have "offs_ok 2 [(0, 0)] 1 (sw_live sample_keyed)" unfolding live by (simp add: offs_ok_def covers_def)
  ultimately show "sw_wf env sample_keyed" using sample_rows
    by (simp add: sw_wf_def sample_keyed_def unique_keys_def u32_max_def)
  show "pending_ok env sample_keyed" by (simp add: pending_ok_def staged_ok_def sample_keyed_def sample_staged K)
  show "sw_contents sample_keyed = [[6] \<mapsto> [6, 5, 0]]"
    unfolding sw_contents_def sample_rows by (simp add: contents_def sample_keyed_def is_stale_def stale_def u32_max_def)
qed

text \<open>An environment in which all keys have one hash and the old row always wins.\<close>

definition one_hash_env :: "row list table_env" where
  "one_hash_env = \<lparr>env_hash = \<lambda>_. 0, env_find = first_hit, env_merge = \<lambda>x cur new. Ok (False, [], x)\<rparr>"

lemma one_hash_keyed: "keyed_env one_hash_env"
  unfolding one_hash_env_def by (rule first_hit_env.keyed_env_axioms)

lemma one_hash_wf: "sw_wf one_hash_env sample_keyed" "pending_ok one_hash_env sample_keyed" "sw_contents sample_keyed = [[6] \<mapsto> [6, 5, 0]]"
proof -
  have "\<And>key. env_hash one_hash_env key = 0" by (simp add: one_hash_env_def)
  note sample_wf [OF this]
  then show "sw_wf one_hash_env sample_keyed" "pending_ok one_hash_env sample_keyed" "sw_contents sample_keyed = [[6] \<mapsto> [6, 5, 0]]" by blast+
qed

end
