(* ===== verification/SortedRemove.thy ===== *)
theory SortedRemove
  imports SortedInv
begin

text \<open>
  The removals of a merge of the keyed table: by key and by row id, shard by shard.  They leave every row
  in its place and restrict the live rows to those that no removal names.
\<close>

section \<open>Removals\<close>

definition prune :: "(nat \<Rightarrow> row \<Rightarrow> bool) \<Rightarrow> (nat \<rightharpoonup> row) \<Rightarrow> (nat \<rightharpoonup> row)" where
  "prune P L i = (case L i of None \<Rightarrow> None | Some r \<Rightarrow> if P i r then None else Some r)"

lemma prune_Some [simp]: "prune P L i = Some r \<longleftrightarrow> L i = Some r \<and> \<not> P i r"
  by (auto simp: prune_def split: option.splits)

lemma map_eqI: "(\<And>i r. L i = Some r \<longleftrightarrow> L' i = Some r) \<Longrightarrow> L = L'"
  by (rule ext) (metis option.exhaust)

lemma prune_prune: "prune P (prune Q L) = prune (\<lambda>i r. Q i r \<or> P i r) L"
  by (rule map_eqI) auto

lemma prune_cong: "(\<And>i r. L i = Some r \<Longrightarrow> P i r \<longleftrightarrow> Q i r) \<Longrightarrow> prune P L = prune Q L"
  by (rule map_eqI) auto

lemma prune_none: "(\<And>i r. L i = Some r \<Longrightarrow> \<not> P i r) \<Longrightarrow> prune P L = L"
  by (rule map_eqI) auto

lemma prune_one: "(\<And>j r. L j = Some r \<Longrightarrow> P j r \<longleftrightarrow> j = i) \<Longrightarrow> prune P L = L(i := None)"
  by (rule map_eqI) auto

definition keys_differ :: "nat \<Rightarrow> (nat \<rightharpoonup> row) \<Rightarrow> bool" where
  "keys_differ nk L \<longleftrightarrow> (\<forall>i j r s. L i = Some r \<longrightarrow> L j = Some s \<longrightarrow> take nk r = take nk s \<longrightarrow> i = j)"

lemma keys_differ_prune: "keys_differ nk L \<Longrightarrow> keys_differ nk (prune P L)"
  by (auto simp: keys_differ_def)

text \<open>What a removal keeps: the rows stay in place, and those that satisfy \<open>P\<close> are no longer live.\<close>

definition removes :: "nat \<Rightarrow> nat \<Rightarrow> (val list \<Rightarrow> nat \<times> compact_hash) \<Rightarrow> nat \<Rightarrow> (nat \<Rightarrow> row \<Rightarrow> bool) \<Rightarrow> rows_data \<Rightarrow>
    table_entry list \<Rightarrow> rows_data \<Rightarrow> bool" where
  "removes n nk K k P rd es' rd' \<longleftrightarrow> indexed n nk K k es' rd' \<and> length (rd_rows rd') = length (rd_rows rd) \<and>
     rd_live rd' = prune P (rd_live rd)"

context keyed_env
begin

lemma erase_found:
  assumes "indexed n nk K k es rd" "env_find env (hash_probe h) p es = Some i"
    "\<And>j r. rd_live rd j = Some r \<Longrightarrow> P j r \<longleftrightarrow> j = te_row (es ! i)"
  shows "\<exists>es' rd' changed'. erase_entry env h p (es, rd, changed) = Ok (es', rd', changed') \<and> removes n nk K k P rd es' rd'"
proof -
  have i: "i < length es" using find_sound [OF assms(2)] by simp
  obtain r where r: "rd_live rd (te_row (es ! i)) = Some r" using indexed_entry [OF assms(1) nth_mem [OF i]] by blast
  have wf: "rd_wf n rd" "nk \<le> n" "shard_ok (\<lambda>r. K (take nk r)) k es (rd_live rd)" using assms(1) by (auto simp: indexed_def)
  obtain rd' where "rd_set_stale rd (te_row (es ! i)) = Ok rd'" "rd_wf n rd'" "length (rd_rows rd') = length (rd_rows rd)"
    "rd_live rd' = (rd_live rd)(te_row (es ! i) := None)"
    using rd_set_stale_ok [OF wf(1) r] by blast
  with i wf shard_del [OF wf(3) i] prune_one [of "rd_live rd" P, OF assms(3)] assms(2) show ?thesis
    by (auto simp: erase_entry_def removes_def indexed_def)
qed

lemma erase_absent:
  assumes "indexed n nk K k es rd" "env_find env (hash_probe h) p es = None" "\<And>j r. rd_live rd j = Some r \<Longrightarrow> \<not> P j r"
  shows "\<exists>es' rd' changed'. erase_entry env h p (es, rd, changed) = Ok (es', rd', changed') \<and> removes n nk K k P rd es' rd'"
  using assms(1,2) prune_none [of "rd_live rd" P, OF assms(3)] by (auto simp: erase_entry_def removes_def)

lemma erase_key:
  assumes "indexed n nk K k es rd" "keys_differ nk (rd_live rd)" "K key = (k, h)"
  shows "\<exists>es' rd' changed'. erase_entry env h (key_eq rd nk h key) (es, rd, changed) = Ok (es', rd', changed') \<and> removes n nk K k (\<lambda>i r. take nk r = key) rd es' rd'"
proof (cases "env_find env (hash_probe h) (key_eq rd nk h key) es")
  case None
  show ?thesis by (rule erase_absent [OF assms(1) None]) (rule find_key_None [OF assms(1) None assms(3)])
next
  case (Some i)
  from find_key_Some(2) [OF assms(1) Some] obtain r where "rd_live rd (te_row (es ! i)) = Some r" "take nk r = key" by blast
  with assms(2) show ?thesis by (intro erase_found [OF assms(1) Some]) (auto simp: keys_differ_def)
qed

lemma erase_known:
  assumes "indexed n nk K k es rd"
  shows "\<exists>es' rd' changed'. erase_entry env h (\<lambda>e. te_hash e = h \<and> te_row e = i) (es, rd, changed) = Ok (es', rd', changed') \<and>
    removes n nk K k (\<lambda>j r. j = i \<and> K (take nk r) = (k, h)) rd es' rd'"
proof (cases "env_find env (hash_probe h) (\<lambda>e. te_hash e = h \<and> te_row e = i) es")
  case None
  from find_known_None [OF None] assms show ?thesis
    by (intro erase_absent [OF assms None]) (auto simp: indexed_def dest: shard_ok_entry)
next
  case (Some p)
  from find_known_Some [OF Some] indexed_entry [OF assms nth_mem [OF find_known_Some(1) [OF Some]]] show ?thesis
    by (intro erase_found [OF assms Some]) auto
qed

lemma delete_keys_ok:
  "indexed n nk K k es rd \<Longrightarrow> keys_differ nk (rd_live rd) \<Longrightarrow> \<forall>(h, key) \<in> set ks. K key = (k, h) \<Longrightarrow>
   \<exists>es' rd' changed'. delete_keys env nk ks (es, rd, changed) = Ok (es', rd', changed') \<and> removes n nk K k (\<lambda>i r. take nk r \<in> snd ` set ks) rd es' rd'"
proof (induction ks arbitrary: es rd changed)
  case Nil
  then show ?case by (simp add: removes_def prune_none)
next
  case (Cons x ks)
  obtain h key where x: "x = (h, key)" by force
  with Cons.prems(3) have K: "K key = (k, h)" by simp
  from erase_key [OF Cons.prems(1,2) K] obtain es1 rd1 ch1 where
    s1: "erase_entry env h (key_eq rd nk h key) (es, rd, changed) = Ok (es1, rd1, ch1)" "indexed n nk K k es1 rd1"
    "length (rd_rows rd1) = length (rd_rows rd)" "rd_live rd1 = prune (\<lambda>i r. take nk r = key) (rd_live rd)"
    unfolding removes_def by blast
  from Cons.IH [OF s1(2), of ch1] Cons.prems(2,3) s1(4) obtain es' rd' changed' where
    s': "delete_keys env nk ks (es1, rd1, ch1) = Ok (es', rd', changed')" "removes n nk K k (\<lambda>i r. take nk r \<in> snd ` set ks) rd1 es' rd'"
    unfolding s1(4) using keys_differ_prune by fastforce
  have "removes n nk K k (\<lambda>i r. take nk r \<in> snd ` set (x # ks)) rd es' rd'"
    using s'(2) s1(3,4) by (auto simp: removes_def prune_prune x)
  with s'(1) s1(1) indexed_checks [OF Cons.prems(1)] x show ?case by auto
qed

lemma delete_known_ok:
  "indexed n nk K k es rd \<Longrightarrow>
   \<exists>es' rd' changed'. delete_known env krs (es, rd, changed) = Ok (es', rd', changed') \<and>
     removes n nk K k (\<lambda>i r. \<exists>kr \<in> set krs. kr_row kr = i \<and> K (take nk r) = (k, kr_hash kr)) rd es' rd'"
proof (induction krs arbitrary: es rd changed)
  case Nil
  then show ?case by (simp add: removes_def prune_none)
next
  case (Cons kr krs)
  from erase_known [OF Cons.prems, of "kr_hash kr" "kr_row kr"] obtain es1 rd1 ch1 where
    s1: "erase_entry env (kr_hash kr) (\<lambda>e. te_hash e = kr_hash kr \<and> te_row e = kr_row kr) (es, rd, changed) = Ok (es1, rd1, ch1)"
    "indexed n nk K k es1 rd1" "length (rd_rows rd1) = length (rd_rows rd)"
    "rd_live rd1 = prune (\<lambda>j r. j = kr_row kr \<and> K (take nk r) = (k, kr_hash kr)) (rd_live rd)"
    unfolding removes_def by blast
  from Cons.IH [OF s1(2), of ch1] obtain es' rd' changed' where
    s': "delete_known env krs (es1, rd1, ch1) = Ok (es', rd', changed')"
    "removes n nk K k (\<lambda>i r. \<exists>kr \<in> set krs. kr_row kr = i \<and> K (take nk r) = (k, kr_hash kr)) rd1 es' rd'" by blast
  have "removes n nk K k (\<lambda>i r. \<exists>kr' \<in> set (kr # krs). kr_row kr' = i \<and> K (take nk r) = (k, kr_hash kr')) rd es' rd'"
    using s'(2) s1(3,4) unfolding removes_def by (auto simp: prune_prune intro!: prune_cong)
  with s'(1) s1(1) show ?case by auto
qed

end

text \<open>The live rows that the staged removals name, by key or by row id.\<close>

definition removed :: "(val list \<Rightarrow> nat \<times> compact_hash) \<Rightarrow> nat \<Rightarrow> pending_state \<Rightarrow> nat \<Rightarrow> row \<Rightarrow> bool" where
  "removed K nk ps i r =
     (let (k, h) = K (take nk r) in
      take nk r \<in> snd ` set (concat (map hb_rows (ps_removals ps ! k))) \<or>
      (\<exists>kr \<in> set (concat (ps_known ps ! k)). kr_row kr = i \<and> kr_hash kr = h))"

lemma indexed_prune:
  assumes "indexed n nk K k es rd" "rd_wf n rd'" "rd_live rd' = prune P (rd_live rd)"
    "\<And>i r. rd_live rd i = Some r \<Longrightarrow> fst (K (take nk r)) = k \<Longrightarrow> \<not> P i r"
  shows "indexed n nk K k es rd'"
  using assms shard_ok_other [of "\<lambda>r. K (take nk r)" k es "rd_live rd" "rd_live rd'"] by (auto simp: indexed_def)

context keyed_env
begin

lemma delete_shards_ok:
  "rd_wf n rd \<Longrightarrow> keys_differ nk (rd_live rd) \<Longrightarrow> \<forall>j < length shards. indexed n nk K (k + j) (shards ! j) rd \<Longrightarrow>
   k + length shards = m \<Longrightarrow> staged_ok K nk nk m (ps_removals ps) \<Longrightarrow> length (ps_known ps) = m \<Longrightarrow>
   \<exists>shards' rd' changed'. delete_shards env nk ps k shards rd changed = Ok (shards', rd', changed') \<and>
     length shards' = length shards \<and> rd_wf n rd' \<and> length (rd_rows rd') = length (rd_rows rd) \<and>
     rd_live rd' = prune (\<lambda>i r. k \<le> fst (K (take nk r)) \<and> fst (K (take nk r)) < m \<and> removed K nk ps i r) (rd_live rd) \<and>
     (\<forall>j < length shards. indexed n nk K (k + j) (shards' ! j) rd')"
proof (induction shards arbitrary: k rd changed)
  case Nil
  then show ?case by (simp add: prune_none)
next
  case (Cons es shards)
  have k: "k < m" using Cons.prems(4) by simp
  let ?q = "ps_removals ps ! k" and ?kq = "ps_known ps ! k"
  have queues: "shard_queue (ps_removals ps) k = Ok ?q" "shard_queue (ps_known ps) k = Ok ?kq"
    using k Cons.prems(5,6) by (auto simp: shard_queue_def staged_ok_def get_opt_def)
  have ix: "indexed n nk K k es rd" using Cons.prems(3) by force
  have hashed: "\<forall>(h, key) \<in> set (concat (map hb_rows ?q)). K key = (k, h)"
    using Cons.prems(5) k by (fastforce simp: staged_ok_def)
  from delete_keys_ok [OF ix Cons.prems(2) this, of changed] obtain es1 rd1 ch1 where
    s1: "delete_keys env nk (concat (map hb_rows ?q)) (es, rd, changed) = Ok (es1, rd1, ch1)" "indexed n nk K k es1 rd1"
    "length (rd_rows rd1) = length (rd_rows rd)" "rd_live rd1 = prune (\<lambda>i r. take nk r \<in> snd ` set (concat (map hb_rows ?q))) (rd_live rd)"
    unfolding removes_def by blast
  from delete_known_ok [OF s1(2), of "concat ?kq" ch1] obtain es2 rd2 ch2 where
    s2: "delete_known env (concat ?kq) (es1, rd1, ch1) = Ok (es2, rd2, ch2)" "indexed n nk K k es2 rd2"
    "length (rd_rows rd2) = length (rd_rows rd1)"
    "rd_live rd2 = prune (\<lambda>i r. \<exists>kr \<in> set (concat ?kq). kr_row kr = i \<and> K (take nk r) = (k, kr_hash kr)) (rd_live rd1)"
    unfolding removes_def by blast
  have live2: "rd_live rd2 = prune (\<lambda>i r. fst (K (take nk r)) = k \<and> removed K nk ps i r) (rd_live rd)"
    unfolding s2(4) s1(4) prune_prune
  proof (rule prune_cong)
    fix i r
    show "take nk r \<in> snd ` set (concat (map hb_rows ?q)) \<or> (\<exists>kr \<in> set (concat ?kq). kr_row kr = i \<and> K (take nk r) = (k, kr_hash kr)) \<longleftrightarrow>
        fst (K (take nk r)) = k \<and> removed K nk ps i r"
    proof (cases "fst (K (take nk r)) = k")
      case True
      then obtain h where "K (take nk r) = (k, h)" by (metis prod.collapse)
      then show ?thesis unfolding removed_def by (simp only: Let_def prod.case prod.inject fst_conv) blast
    next
      case False
      with hashed have "take nk r \<notin> snd ` set (concat (map hb_rows ?q))" by force
      with False show ?thesis by auto
    qed
  qed
  have rest: "\<forall>j < length shards. indexed n nk K (Suc k + j) (shards ! j) rd2"
  proof (intro allI impI)
    fix j assume j: "j < length shards"
    with Cons.prems(3) have "indexed n nk K (k + Suc j) ((es # shards) ! Suc j) rd" by (metis Suc_less_eq length_Cons)
    then have "indexed n nk K (Suc k + j) (shards ! j) rd" by simp
    moreover have "rd_wf n rd2" using s2(2) by (simp add: indexed_def)
    ultimately show "indexed n nk K (Suc k + j) (shards ! j) rd2" by (rule indexed_prune [OF _ _ live2]) auto
  qed
  have "keys_differ nk (rd_live rd2)" unfolding live2 using Cons.prems(2) by (rule keys_differ_prune)
  from Cons.IH [OF _ this rest _ Cons.prems(5,6), of ch2] s2(2) Cons.prems(4) obtain shards' rd' ch' where
    s3: "delete_shards env nk ps (Suc k) shards rd2 ch2 = Ok (shards', rd', ch')" "length shards' = length shards" "rd_wf n rd'"
    "length (rd_rows rd') = length (rd_rows rd2)"
    "rd_live rd' = prune (\<lambda>i r. Suc k \<le> fst (K (take nk r)) \<and> fst (K (take nk r)) < m \<and> removed K nk ps i r) (rd_live rd2)"
    "\<forall>j < length shards. indexed n nk K (Suc k + j) (shards' ! j) rd'"
    by (auto simp: indexed_def)
  have "indexed n nk K k es2 rd'" using indexed_prune [OF s2(2) s3(3,5)] by simp
  with s3(6) have "\<forall>j < length (es # shards). indexed n nk K (k + j) ((es2 # shards') ! j) rd'"
    by (auto simp: less_Suc_eq_0_disj)
  moreover have "rd_live rd' = prune (\<lambda>i r. k \<le> fst (K (take nk r)) \<and> fst (K (take nk r)) < m \<and> removed K nk ps i r) (rd_live rd)"
    unfolding s3(5) live2 prune_prune using k by (intro prune_cong) auto
  moreover have "delete_shards env nk ps k (es # shards) rd changed = Ok (es2 # shards', rd', ch')"
    using queues s1(1) s2(1) s3(1) by simp
  ultimately show ?case using s1(3) s2(3) s3(2,3,4) by auto
qed

end

end
