(* ===== verification/SortedInsert.thy ===== *)
theory SortedInsert
  imports SortedRemove
begin

text \<open>
  The insertions of a merge of the keyed table, against a specification on the contents: a new key is
  added, and a known key gets the row that the merge function makes.
\<close>

section \<open>Specification\<close>

definition abs_insert :: "'e table_env \<Rightarrow> nat \<Rightarrow> row \<Rightarrow> (val list \<rightharpoonup> row) \<times> 'e \<times> bool \<Rightarrow> (val list \<rightharpoonup> row) \<times> 'e \<times> bool" where
  "abs_insert env nk q = (\<lambda>(m, x, changed).
     if is_stale (q ! 0) then (m, x, changed)
     else case m (take nk q) of
       None \<Rightarrow> (m(take nk q \<mapsto> q), x, True)
     | Some cur \<Rightarrow>
         (case env_merge env x cur q of
            Inl _ \<Rightarrow> (m, x, changed)
          | Inr (merged, out, x) \<Rightarrow> if merged then (m(take nk q \<mapsto> out), x, True) else (m, x, changed)))"

text \<open>Rows arrive in the order of their sort values, after those of the table.\<close>

definition arrivals :: "nat \<Rightarrow> row list \<Rightarrow> val list" where
  "arrivals sort_by qs = map (\<lambda>q. q ! sort_by) (filter (\<lambda>q. \<not> is_stale (q ! 0)) qs)"

definition in_order :: "nat \<Rightarrow> (val \<times> nat) list \<Rightarrow> row list \<Rightarrow> bool" where
  "in_order sort_by offs qs \<longleftrightarrow> sorted (arrivals sort_by qs) \<and> (\<forall>v \<in> set (arrivals sort_by qs). reaches offs v)"

section \<open>One insertion\<close>

text \<open>\<open>refines n nk K sort_by rd offs m\<close>: rows and offsets that stand for the contents \<open>m\<close>.\<close>

definition refines :: "nat \<Rightarrow> nat \<Rightarrow> nat \<Rightarrow> rows_data \<Rightarrow> (val \<times> nat) list \<Rightarrow> (val list \<rightharpoonup> row) \<Rightarrow> bool" where
  "refines n nk sort_by rd offs m \<longleftrightarrow> rd_wf n rd \<and> nk \<le> n \<and> sort_by < n \<and> denotes nk (rd_live rd) m \<and>
     offs_ok sort_by offs (length (rd_rows rd)) (rd_live rd)"

lemma live_at_end [simp]: "live_at rs (length rs) = None"
  by (simp add: live_at_def)

lemma add_sorted_ok:
  assumes "refines n nk sort_by (is_data s) (is_offsets s) m" "length r = n" "\<not> is_stale (r ! 0)"
    "length (rd_rows (is_data s)) \<le> u32_max" "reaches (is_offsets s) (r ! sort_by)"
  shows "\<exists>rd. add_sorted sort_by r s = Ok (length (rd_rows (is_data s)),
      s\<lparr>is_data := rd, is_offsets := push_sort (r ! sort_by) (length (rd_rows (is_data s))) (is_offsets s)\<rparr>) \<and>
    rd_wf n rd \<and> length (rd_rows rd) = Suc (length (rd_rows (is_data s))) \<and>
    rd_live rd = (rd_live (is_data s))(length (rd_rows (is_data s)) \<mapsto> r)"
proof -
  have wf: "rd_wf n (is_data s)" "sort_by < n" using assms(1) by (auto simp: refines_def)
  from rd_add_row_ok [OF wf(1) assms(2-4)] obtain rd where
    "rd_add_row (is_data s) r = Ok (length (rd_rows (is_data s)), rd)" "rd_wf n rd" "rd_rows rd = rd_rows (is_data s) @ [r]" by blast
  with update_sort_offsets_ok [OF _ assms(5)] wf(2) assms(2) live_at_append [OF assms(3)] show ?thesis
    by (intro exI [of _ rd]) (simp add: add_sorted_def)
qed

text \<open>Rows are added at the end, and the rows before them keep their place or go stale.\<close>

definition appends_only :: "row list \<Rightarrow> row list \<Rightarrow> bool" where
  "appends_only rs rs' \<longleftrightarrow> length rs \<le> length rs' \<and> (\<forall>i r. i < length rs \<longrightarrow> live_at rs' i = Some r \<longrightarrow> live_at rs i = Some r)"

lemma appends_only_refl [simp]: "appends_only rs rs"
  by (simp add: appends_only_def)

lemma appends_only_trans: "appends_only rs rs' \<Longrightarrow> appends_only rs' rs'' \<Longrightarrow> appends_only rs rs''"
  unfolding appends_only_def by (meson less_le_trans order_trans)

text \<open>The effect of an insertion on the rows: shard \<open>k\<close> is the only one that changes.\<close>

definition frames :: "nat \<Rightarrow> (val list \<Rightarrow> nat \<times> compact_hash) \<Rightarrow> nat \<Rightarrow> rows_data \<Rightarrow> rows_data \<Rightarrow> bool" where
  "frames nk K k rd rd' \<longleftrightarrow> appends_only (rd_rows rd) (rd_rows rd') \<and> (\<forall>i r. fst (K (take nk r)) \<noteq> k \<longrightarrow> (rd_live rd i = Some r \<longleftrightarrow> rd_live rd' i = Some r))"

lemma frames_refl: "frames nk K k rd rd"
  by (simp add: frames_def)

lemma frames_trans: "frames nk K k rd rd' \<Longrightarrow> frames nk K k rd' rd'' \<Longrightarrow> frames nk K k rd rd''"
  using appends_only_trans by (auto simp: frames_def)

lemma indexed_frame:
  assumes "indexed n nk K j es rd" "frames nk K k rd rd'" "j \<noteq> k" "rd_wf n rd'"
  shows "indexed n nk K j es rd'"
proof -
  have "(rd_live rd i = Some r \<and> fst (K (take nk r)) = j) \<longleftrightarrow> (rd_live rd' i = Some r \<and> fst (K (take nk r)) = j)" for i r
    using assms(2,3) unfolding frames_def by blast
  then show ?thesis using assms(1,4) shard_ok_other [of "\<lambda>r. K (take nk r)" j es "rd_live rd" "rd_live rd'"] by (auto simp: indexed_def)
qed

context merging_env
begin

lemma insert_new:
  assumes r: "refines n_cols n_keys sort_by (is_data s) (is_offsets s) m" and ix: "indexed n_cols n_keys K k (is_entries s) (is_data s)"
    and q: "length q = n_cols" "\<not> is_stale (q ! 0)" "K (take n_keys q) = (k, h)"
    and room: "length (rd_rows (is_data s)) \<le> u32_max" and reach: "reaches (is_offsets s) (q ! sort_by)"
    and none: "env_find env (hash_probe h) (key_eq (is_data s) n_keys h (take n_keys q)) (is_entries s) = None"
  shows "m (take n_keys q) = None \<and> (\<exists>s'. insert_row env n_keys sort_by h q s = Ok s' \<and>
    refines n_cols n_keys sort_by (is_data s') (is_offsets s') (m(take n_keys q \<mapsto> q)) \<and>
    indexed n_cols n_keys K k (is_entries s') (is_data s') \<and> frames n_keys K k (is_data s) (is_data s') \<and>
    length (rd_rows (is_data s')) \<le> Suc (length (rd_rows (is_data s))) \<and>
    is_offsets s' = push_sort (q ! sort_by) (length (rd_rows (is_data s))) (is_offsets s) \<and> is_ext s' = is_ext s \<and> is_changed s')"
proof -
  let ?N = "length (rd_rows (is_data s))"
  from add_sorted_ok [OF r q(1,2) room reach] obtain rd where
    a: "add_sorted sort_by q s = Ok (?N, s\<lparr>is_data := rd, is_offsets := push_sort (q ! sort_by) ?N (is_offsets s)\<rparr>)"
    "rd_wf n_cols rd" "length (rd_rows rd) = Suc ?N" "rd_live rd = (rd_live (is_data s))(?N \<mapsto> q)" by blast
  have wf: "n_keys \<le> n_cols" "sort_by < n_cols" "denotes n_keys (rd_live (is_data s)) m"
    "offs_ok sort_by (is_offsets s) ?N (rd_live (is_data s))" using r by (auto simp: refines_def)
  have m: "m (take n_keys q) = None" using find_key_None [OF ix none q(3)] denotes_None [OF wf(3)] by blast
  have "insert_row env n_keys sort_by h q s = Ok (s\<lparr>is_data := rd, is_offsets := push_sort (q ! sort_by) ?N (is_offsets s),
      is_entries := is_entries s @ [\<lparr>te_hash = h, te_row = ?N\<rparr>], is_changed := True\<rparr>)"
    using none a(1) q(1,2) wf(1) indexed_checks(2) [OF ix] by (simp add: insert_row_def)
  moreover have "denotes n_keys (rd_live rd) (m(take n_keys q \<mapsto> q))" unfolding a(4) using denotes_add [OF wf(3) _ m] by simp
  moreover have "offs_ok sort_by (push_sort (q ! sort_by) ?N (is_offsets s)) (length (rd_rows rd)) (rd_live rd)"
    unfolding a(3,4) by (rule offs_push [OF wf(4) reach])
  moreover have "indexed n_cols n_keys K k (is_entries s @ [\<lparr>te_hash = h, te_row = ?N\<rparr>]) rd"
    using ix a(2) shard_add_entry [of "\<lambda>r. K (take n_keys r)" k "is_entries s" "rd_live (is_data s)" ?N q h] q(3)
    by (simp add: indexed_def a(4))
  moreover have "frames n_keys K k (is_data s) rd" using q(3) by (auto simp: frames_def appends_only_def a(3,4) split: if_splits)
  ultimately show ?thesis using m a(2,3) wf(1,2) by (auto simp: refines_def)
qed

lemma insert_known:
  assumes r: "refines n_cols n_keys sort_by (is_data s) (is_offsets s) m" and ix: "indexed n_cols n_keys K k (is_entries s) (is_data s)"
    and q: "length q = n_cols" "\<not> is_stale (q ! 0)" "K (take n_keys q) = (k, h)"
    and room: "length (rd_rows (is_data s)) \<le> u32_max" and reach: "reaches (is_offsets s) (q ! sort_by)"
    and found: "env_find env (hash_probe h) (key_eq (is_data s) n_keys h (take n_keys q)) (is_entries s) = Some p"
  shows "\<exists>cur merged out x s'. m (take n_keys q) = Some cur \<and> env_merge env (is_ext s) cur q = Ok (merged, out, x) \<and>
    insert_row env n_keys sort_by h q s = Ok s' \<and>
    refines n_cols n_keys sort_by (is_data s') (is_offsets s') (if merged then m(take n_keys q \<mapsto> out) else m) \<and>
    indexed n_cols n_keys K k (is_entries s') (is_data s') \<and> frames n_keys K k (is_data s) (is_data s') \<and>
    length (rd_rows (is_data s')) \<le> Suc (length (rd_rows (is_data s))) \<and>
    is_offsets s' = (if merged then push_sort (q ! sort_by) (length (rd_rows (is_data s))) (is_offsets s) else is_offsets s) \<and>
    is_ext s' = x \<and> is_changed s' = (merged \<or> is_changed s)"
proof -
  let ?N = "length (rd_rows (is_data s))" and ?i = "te_row (is_entries s ! p)" and ?key = "take n_keys q"
  have wf: "rd_wf n_cols (is_data s)" "n_keys \<le> n_cols" "sort_by < n_cols" "denotes n_keys (rd_live (is_data s)) m"
    "offs_ok sort_by (is_offsets s) ?N (rd_live (is_data s))" using r by (auto simp: refines_def)
  have p: "p < length (is_entries s)" by (rule find_key_Some(1) [OF ix found])
  obtain cur where cur: "rd_live (is_data s) ?i = Some cur" "take n_keys cur = ?key" "te_hash (is_entries s ! p) = h"
    using find_key_Some(2) [OF ix found] by blast
  have i: "?i < ?N" "length cur = n_cols" "\<not> is_stale (cur ! 0)" "rd_get_row (is_data s) ?i = Ok (Some cur)"
    using rd_live_length [OF wf(1) cur(1)] rd_get_live [OF wf(1) cur(1)] cur(1) by (auto simp: live_at_Some)
  have m: "m ?key = Some cur" using denotes_lookup [OF wf(4) cur(1)] cur(2) by simp
  from merge_ok [of cur q "is_ext s"] i(2,3) q(1,2) cur(2) obtain merged out x where mg: "env_merge env (is_ext s) cur q = Ok (merged, out, x)"
    "merged \<longrightarrow> length out = n_cols \<and> take n_keys out = ?key \<and> \<not> is_stale (out ! 0) \<and> out ! sort_by = q ! sort_by" by auto
  note step = insert_row_def q(1,2) found indexed_checks(2) [OF ix] p i(4) mg(1) wf(2)
  show ?thesis
  proof (cases merged)
    case False
    have "insert_row env n_keys sort_by h q s = Ok (s\<lparr>is_ext := x\<rparr>)" using False by (simp add: step)
    with False m mg(1) r ix frames_refl show ?thesis by (intro exI [of _ cur] exI [of _ merged] exI [of _ out] exI [of _ x] exI [of _ "s\<lparr>is_ext := x\<rparr>"]) simp
  next
    case True
    with mg(2) have
      out: "length out = n_cols" "take n_keys out = ?key" "\<not> is_stale (out ! 0)" "out ! sort_by = q ! sort_by" by auto
    let ?s = "s\<lparr>is_ext := x\<rparr>" and ?offs = "push_sort (q ! sort_by) ?N (is_offsets s)"
    have "reaches (is_offsets ?s) (out ! sort_by)" using reach out(4) by simp
    with add_sorted_ok [of n_cols n_keys sort_by ?s m out] r out room obtain rd1 where
      a: "add_sorted sort_by out ?s = Ok (?N, ?s\<lparr>is_data := rd1, is_offsets := ?offs\<rparr>)"
      "rd_wf n_cols rd1" "length (rd_rows rd1) = Suc ?N" "rd_live rd1 = (rd_live (is_data s))(?N \<mapsto> out)" by auto
    have "rd_live rd1 ?i = Some cur" using a(4) i(1) cur(1) by simp
    from rd_set_stale_ok [OF a(2) this] obtain rd2 where
      b: "rd_set_stale rd1 ?i = Ok rd2" "rd_wf n_cols rd2" "length (rd_rows rd2) = Suc ?N" "rd_live rd2 = (rd_live rd1)(?i := None)"
      using a(3) by auto
    have L: "rd_live rd2 = (rd_live (is_data s))(?i := None, ?N \<mapsto> out)"
      unfolding b(4) a(4) using i(1) by (simp add: fun_upd_twist)
    let ?e = "(is_entries s)[p := (is_entries s ! p)\<lparr>te_row := ?N\<rparr>]"
    let ?s' = "s\<lparr>is_ext := x, is_data := rd2, is_offsets := ?offs, is_entries := ?e, is_changed := True\<rparr>"
    have "insert_row env n_keys sort_by h q s = Ok ?s'"
      using True a(1) b(1) by (simp add: step)
    moreover have "denotes n_keys (rd_live rd2) (m(?key \<mapsto> out))"
      using denotes_add [OF denotes_del [OF wf(4) cur(1)], of ?N out] out(2) cur(2) i(1) unfolding L by simp
    moreover have "offs_ok sort_by ?offs (length (rd_rows rd2)) (rd_live rd2)"
    proof (rule offs_subset)
      show "offs_ok sort_by ?offs (length (rd_rows rd2)) (rd_live rd1)"
        unfolding b(3) a(4) using offs_push [OF wf(5), of out] reach out(4) by simp
    qed (simp add: b(4) split: if_splits)
    moreover have "indexed n_cols n_keys K k ?e rd2"
      using ix b(2) shard_move [of "\<lambda>r. K (take n_keys r)" k "is_entries s" "rd_live (is_data s)" p ?i cur out ?N] p cur(1,2) out(2)
      by (simp add: indexed_def L)
    moreover have "frames n_keys K k (is_data s) rd2" using q(3) out(2) cur(1,2) by (auto simp: frames_def appends_only_def b(3) L split: if_splits)
    ultimately show ?thesis using True m mg(1) b(2,3) wf(2,3)
      by (intro exI [of _ cur] exI [of _ merged] exI [of _ out] exI [of _ x] exI [of _ ?s']) (simp add: refines_def)
  qed
qed

end

section \<open>All insertions\<close>

text \<open>A step of the specification, with what it may do to the offsets.\<close>

lemma in_order_step:
  assumes "in_order sort_by offs (q # qs)" "offs' = offs \<or> \<not> is_stale (q ! 0) \<and> offs' = push_sort (q ! sort_by) i offs"
  shows "in_order sort_by offs' qs"
  using assms by (cases "is_stale (q ! 0)") (auto simp: in_order_def arrivals_def intro!: reaches_push)

lemma in_order_reaches: "in_order sort_by offs (q # qs) \<Longrightarrow> \<not> is_stale (q ! 0) \<Longrightarrow> reaches offs (q ! sort_by)"
  by (simp add: in_order_def arrivals_def)

context merging_env
begin

lemma insert_row_ok:
  assumes r: "refines n_cols n_keys sort_by (is_data s) (is_offsets s) m" and ix: "indexed n_cols n_keys K k (is_entries s) (is_data s)"
    and q: "length q = n_cols" "K (take n_keys q) = (k, h)" and room: "length (rd_rows (is_data s)) \<le> u32_max"
    and order: "in_order sort_by (is_offsets s) (q # qs)"
  shows "\<exists>m' s'. insert_row env n_keys sort_by h q s = Ok s' \<and>
    abs_insert env n_keys q (m, is_ext s, is_changed s) = (m', is_ext s', is_changed s') \<and>
    refines n_cols n_keys sort_by (is_data s') (is_offsets s') m' \<and> indexed n_cols n_keys K k (is_entries s') (is_data s') \<and>
    frames n_keys K k (is_data s) (is_data s') \<and> length (rd_rows (is_data s')) \<le> Suc (length (rd_rows (is_data s))) \<and>
    in_order sort_by (is_offsets s') qs"
proof (cases "is_stale (q ! 0)")
  case True
  have "q \<noteq> []" using q(1) r rd_wf_pos by (force simp: refines_def)
  with True in_order_step [OF order, of "is_offsets s"] r ix frames_refl show ?thesis
    by (intro exI [of _ m] exI [of _ s]) (simp add: insert_row_def abs_insert_def)
next
  case False
  note reach = in_order_reaches [OF order False]
  show ?thesis
  proof (cases "env_find env (hash_probe h) (key_eq (is_data s) n_keys h (take n_keys q)) (is_entries s)")
    case None
    from insert_new [OF r ix q(1) False q(2) room reach None] obtain s' where *:
      "m (take n_keys q) = None" "insert_row env n_keys sort_by h q s = Ok s'"
      "refines n_cols n_keys sort_by (is_data s') (is_offsets s') (m(take n_keys q \<mapsto> q))"
      "indexed n_cols n_keys K k (is_entries s') (is_data s')" "frames n_keys K k (is_data s) (is_data s')"
      "length (rd_rows (is_data s')) \<le> Suc (length (rd_rows (is_data s)))"
      "is_offsets s' = push_sort (q ! sort_by) (length (rd_rows (is_data s))) (is_offsets s)" "is_ext s' = is_ext s" "is_changed s'" by blast
    have "in_order sort_by (is_offsets s') qs" using in_order_step [OF order, of "is_offsets s'"] False *(7) by blast
    with False * show ?thesis
      by (intro exI [of _ "m(take n_keys q \<mapsto> q)"] exI [of _ s']) (simp add: abs_insert_def)
  next
    case (Some p)
    from insert_known [OF r ix q(1) False q(2) room reach Some] obtain cur merged out x s' where
      *: "m (take n_keys q) = Some cur" "env_merge env (is_ext s) cur q = Ok (merged, out, x)" "insert_row env n_keys sort_by h q s = Ok s'"
      "refines n_cols n_keys sort_by (is_data s') (is_offsets s') (if merged then m(take n_keys q \<mapsto> out) else m)"
      "indexed n_cols n_keys K k (is_entries s') (is_data s')" "frames n_keys K k (is_data s) (is_data s')"
      "length (rd_rows (is_data s')) \<le> Suc (length (rd_rows (is_data s)))"
      "is_offsets s' = (if merged then push_sort (q ! sort_by) (length (rd_rows (is_data s))) (is_offsets s) else is_offsets s)"
      "is_ext s' = x" "is_changed s' = (merged \<or> is_changed s)" by blast
    have "in_order sort_by (is_offsets s') qs" using in_order_step [OF order, of "is_offsets s'"] False *(8) by (cases merged) auto
    with False * show ?thesis
      by (intro exI [of _ "if merged then m(take n_keys q \<mapsto> out) else m"] exI [of _ s']) (simp add: abs_insert_def)
  qed
qed

lemma insert_batch_ok:
  "refines n_cols n_keys sort_by (is_data s) (is_offsets s) m \<Longrightarrow> indexed n_cols n_keys K k (is_entries s) (is_data s) \<Longrightarrow>
   \<forall>(h, q) \<in> set rs. length q = n_cols \<and> K (take n_keys q) = (k, h) \<Longrightarrow> length (rd_rows (is_data s)) + length rs \<le> Suc u32_max \<Longrightarrow>
   in_order sort_by (is_offsets s) (map snd rs @ qs) \<Longrightarrow>
   \<exists>m' s'. insert_batch env n_keys sort_by rs s = Ok s' \<and>
    fold (abs_insert env n_keys) (map snd rs) (m, is_ext s, is_changed s) = (m', is_ext s', is_changed s') \<and>
    refines n_cols n_keys sort_by (is_data s') (is_offsets s') m' \<and> indexed n_cols n_keys K k (is_entries s') (is_data s') \<and>
    frames n_keys K k (is_data s) (is_data s') \<and> length (rd_rows (is_data s')) \<le> length (rd_rows (is_data s)) + length rs \<and>
    in_order sort_by (is_offsets s') qs"
proof (induction rs arbitrary: s m)
  case (Cons x rs)
  obtain h q where x: "x = (h, q)" by force
  with Cons.prems have q: "length q = n_cols" "K (take n_keys q) = (k, h)" "length (rd_rows (is_data s)) \<le> u32_max"
    "in_order sort_by (is_offsets s) (q # map snd rs @ qs)" by auto
  from insert_row_ok [OF Cons.prems(1,2) q] obtain m1 s1 where
    1: "insert_row env n_keys sort_by h q s = Ok s1" "abs_insert env n_keys q (m, is_ext s, is_changed s) = (m1, is_ext s1, is_changed s1)"
    "refines n_cols n_keys sort_by (is_data s1) (is_offsets s1) m1" "indexed n_cols n_keys K k (is_entries s1) (is_data s1)"
    "frames n_keys K k (is_data s) (is_data s1)" "length (rd_rows (is_data s1)) \<le> Suc (length (rd_rows (is_data s)))"
    "in_order sort_by (is_offsets s1) (map snd rs @ qs)" by blast
  from Cons.IH [OF 1(3,4) _ _ 1(7)] Cons.prems(3,4) 1(6) obtain m' s' where
    2: "insert_batch env n_keys sort_by rs s1 = Ok s'"
    "fold (abs_insert env n_keys) (map snd rs) (m1, is_ext s1, is_changed s1) = (m', is_ext s', is_changed s')"
    "refines n_cols n_keys sort_by (is_data s') (is_offsets s') m'" "indexed n_cols n_keys K k (is_entries s') (is_data s')"
    "frames n_keys K k (is_data s1) (is_data s')" "length (rd_rows (is_data s')) \<le> length (rd_rows (is_data s1)) + length rs"
    "in_order sort_by (is_offsets s') qs" by auto
  from 1(1,2,6) 2 frames_trans [OF 1(5) 2(5)] show ?case
    by (intro exI [of _ m'] exI [of _ s']) (simp add: x)
qed (simp add: frames_refl)

end

definition staged_rows :: "hashed_buffer list list \<Rightarrow> row list" where
  "staged_rows queues = concat (map (\<lambda>bufs. map snd (concat (map hb_rows bufs))) queues)"

lemma staged_rows_simps [simp]:
  "staged_rows [] = []"
  "staged_rows (bufs # queues) = map snd (concat (map hb_rows bufs)) @ staged_rows queues"
  by (simp_all add: staged_rows_def)

text \<open>A table between the steps of a merge.\<close>

definition mid_merge :: "nat \<Rightarrow> nat \<Rightarrow> nat \<Rightarrow> (val list \<Rightarrow> nat \<times> compact_hash) \<Rightarrow> sorted_table \<Rightarrow> (val list \<rightharpoonup> row) \<Rightarrow> bool" where
  "mid_merge n nk sort_by K t m \<longleftrightarrow> sw_keys t = nk \<and> sw_sort_by t = sort_by \<and> refines n nk sort_by (sw_data t) (sw_offsets t) m \<and>
     (\<forall>j < length (sw_shards t). indexed n nk K j (sw_shards t ! j) (sw_data t))"

definition merge_frame :: "sorted_table \<Rightarrow> sorted_table \<Rightarrow> bool" where
  "merge_frame t t' \<longleftrightarrow> length (sw_shards t') = length (sw_shards t) \<and> appends_only (sw_rows t) (sw_rows t') \<and>
     t' = t\<lparr>sw_shards := sw_shards t', sw_data := sw_data t', sw_offsets := sw_offsets t'\<rparr>"

context merging_env
begin

lemma insert_shards_ok:
  "mid_merge n_cols n_keys sort_by K t m \<Longrightarrow> k + length queues = length (sw_shards t) \<Longrightarrow>
   \<forall>j < length queues. \<forall>(h, q) \<in> set (concat (map hb_rows (queues ! j))). length q = n_cols \<and> K (take n_keys q) = (k + j, h) \<Longrightarrow>
   in_order sort_by (sw_offsets t) (staged_rows queues) \<Longrightarrow> length (sw_rows t) + length (staged_rows queues) \<le> Suc u32_max \<Longrightarrow>
   \<exists>m' t' x' changed'. insert_shards env k queues t x changed = Ok (changed', t', x') \<and>
     fold (abs_insert env n_keys) (staged_rows queues) (m, x, changed) = (m', x', changed') \<and>
     mid_merge n_cols n_keys sort_by K t' m' \<and> merge_frame t t' \<and> length (sw_rows t') \<le> length (sw_rows t) + length (staged_rows queues)"
proof (induction queues arbitrary: k t m x changed)
  case Nil
  then show ?case by (auto simp: merge_frame_def)
next
  case (Cons bufs queues)
  let ?rs = "concat (map hb_rows bufs)"
  have k: "k < length (sw_shards t)" using Cons.prems(2) by simp
  have t: "sw_keys t = n_keys" "sw_sort_by t = sort_by" "refines n_cols n_keys sort_by (sw_data t) (sw_offsets t) m"
    "\<And>j. j < length (sw_shards t) \<Longrightarrow> indexed n_cols n_keys K j (sw_shards t ! j) (sw_data t)"
    using Cons.prems(1) by (auto simp: mid_merge_def)
  let ?s = "\<lparr>is_entries = sw_shards t ! k, is_data = sw_data t, is_offsets = sw_offsets t, is_ext = x, is_changed = changed\<rparr>"
  have hashed: "\<forall>(h, q) \<in> set ?rs. length q = n_cols \<and> K (take n_keys q) = (k, h)" using Cons.prems(3) by fastforce
  from insert_batch_ok [of ?s m K k ?rs "staged_rows queues"] t(3) t(4) [OF k] hashed Cons.prems(4,5) obtain m1 s1 where
    1: "insert_batch env n_keys sort_by ?rs ?s = Ok s1" "fold (abs_insert env n_keys) (map snd ?rs) (m, x, changed) = (m1, is_ext s1, is_changed s1)"
    "refines n_cols n_keys sort_by (is_data s1) (is_offsets s1) m1" "indexed n_cols n_keys K k (is_entries s1) (is_data s1)"
    "frames n_keys K k (sw_data t) (is_data s1)" "length (rd_rows (is_data s1)) \<le> length (sw_rows t) + length ?rs"
    "in_order sort_by (is_offsets s1) (staged_rows queues)" by auto
  let ?t = "t\<lparr>sw_shards := (sw_shards t)[k := is_entries s1], sw_data := is_data s1, sw_offsets := is_offsets s1\<rparr>"
  have "indexed n_cols n_keys K j (sw_shards ?t ! j) (sw_data ?t)" if j: "j < length (sw_shards ?t)" for j
  proof (cases "j = k")
    case False
    with indexed_frame [OF t(4) 1(5) False] 1(3) j show ?thesis by (simp add: refines_def)
  qed (use 1(4) k in simp)
  then have mid: "mid_merge n_cols n_keys sort_by K ?t m1" using t 1(3) by (simp add: mid_merge_def)
  have later: "\<forall>j < length queues. \<forall>(h, q) \<in> set (concat (map hb_rows (queues ! j))). length q = n_cols \<and> K (take n_keys q) = (Suc k + j, h)"
  proof (intro allI impI)
    fix j assume "j < length queues"
    with spec [OF Cons.prems(3), of "Suc j"]
    show "\<forall>(h, q) \<in> set (concat (map hb_rows (queues ! j))). length q = n_cols \<and> K (take n_keys q) = (Suc k + j, h)" by simp
  qed
  have ahead: "Suc k + length queues = length (sw_shards ?t)" "in_order sort_by (sw_offsets ?t) (staged_rows queues)"
    "length (sw_rows ?t) + length (staged_rows queues) \<le> Suc u32_max"
    using Cons.prems(2,5) 1(6,7) by simp_all
  from Cons.IH [OF mid ahead(1) later ahead(2,3), of "is_ext s1" "is_changed s1"] obtain m' t' x' ch' where
    2: "insert_shards env (Suc k) queues ?t (is_ext s1) (is_changed s1) = Ok (ch', t', x')"
    "fold (abs_insert env n_keys) (staged_rows queues) (m1, is_ext s1, is_changed s1) = (m', x', ch')"
    "mid_merge n_cols n_keys sort_by K t' m'" "merge_frame ?t t'" "length (sw_rows t') \<le> length (rd_rows (is_data s1)) + length (staged_rows queues)"
    by (auto simp del: insert_shards.simps)
  have "merge_frame t t'" using 2(4) 1(5) appends_only_trans [of "sw_rows t" "rd_rows (is_data s1)" "sw_rows t'"] by (simp add: merge_frame_def frames_def)
  moreover have "insert_shards env k (bufs # queues) t x changed = Ok (ch', t', x')" using 1(1) 2(1) k t(1,2) by simp
  moreover have "fold (abs_insert env n_keys) (staged_rows (bufs # queues)) (m, x, changed) = (m', x', ch')"
    unfolding staged_rows_simps fold_append comp_apply 1(2) by (rule 2(2))
  moreover have "length (sw_rows t') \<le> length (sw_rows t) + length (staged_rows (bufs # queues))" using 1(6) 2(5) by simp
  ultimately show ?case using 2(3) by blast
qed

end

end
