(* ===== verification/SortedMerge.thy ===== *)
theory SortedMerge
  imports SortedInsert
begin

text \<open>
  Compacting the keyed table and merging its staged operations: the removals restrict the contents, the
  insertions are a fold of \<open>abs_insert\<close> over them, and compacting keeps them.
\<close>

section \<open>Compacting\<close>

text \<open>The live rows when the rows \<open>kept\<close> have their new ids, and the rows \<open>rest\<close> still start at \<open>d\<close>.\<close>

definition mid_live :: "row list \<Rightarrow> nat \<Rightarrow> row list \<Rightarrow> nat \<rightharpoonup> row" where
  "mid_live kept d rest i = (if i < length kept then Some (kept ! i) else if i < d then None else live_at rest (i - d))"

lemma mid_start: "mid_live [] 0 rs = live_at rs"
  by (rule ext) (simp add: mid_live_def)

lemma mid_end: "\<forall>r \<in> set kept. \<not> is_stale (r ! 0) \<Longrightarrow> mid_live kept d [] = live_at kept"
  by (rule ext) (simp add: mid_live_def live_at_def)

lemma mid_stale: "is_stale (r ! 0) \<Longrightarrow> length kept \<le> d \<Longrightarrow> mid_live kept d (r # rest) = mid_live kept (Suc d) rest"
  by (rule ext) (auto simp: mid_live_def live_at_def nth_Cons' less_Suc_eq Suc_diff_le)

lemma mid_keep:
  assumes "\<not> is_stale (r ! 0)" "length kept \<le> d"
  shows "mid_live (kept @ [r]) (Suc d) rest = (mid_live kept d (r # rest))(d := None, length kept \<mapsto> r)"
  using assms by (intro ext) (auto simp: mid_live_def live_at_def nth_append nth_Cons' less_Suc_eq Suc_diff_le)

context keyed_env
begin

lemma remap_entry_ok:
  assumes L: "L = mid_live kept d (r # rest)" and d: "length kept \<le> d" and r: "\<not> is_stale (r ! 0)" "nk \<le> length r" "sort_by < length r"
    and shards: "\<forall>j < length shards. shard_ok (\<lambda>r. key_hash env log2 (take nk r)) j (shards ! j) L" "length shards = 2 ^ log2" "log2 < 64"
  shows "\<exists>shards'. remap_entry env log2 nk sort_by (r, d, length kept) (shards, offs) = Ok (shards', push_sort (r ! sort_by) (length kept) offs) \<and>
    length shards' = length shards \<and>
    (\<forall>j < length shards. shard_ok (\<lambda>r. key_hash env log2 (take nk r)) j (shards' ! j) (mid_live (kept @ [r]) (Suc d) rest))"
proof -
  let ?H = "\<lambda>r. key_hash env log2 (take nk r)"
  obtain k h where H: "?H r = (k, h)" by force
  then have k: "k < length shards" using shard_id_bound [OF shards(3)] shards(2) by (auto simp: key_hash_def Let_def)
  have Ld: "L d = Some r" "L (length kept) = None \<or> length kept = d" using d r(1) by (auto simp: L mid_live_def live_at_def)
  have ok: "shard_ok ?H k (shards ! k) L" using shards(1) k by blast
  have "\<lparr>te_hash = h, te_row = d\<rparr> \<in> set (shards ! k)" using shard_ok_entry [OF ok Ld(1)] H by simp
  then obtain p where p: "env_find env (hash_probe h) (\<lambda>e. te_hash e = h \<and> te_row e = d) (shards ! k) = Some p"
    using find_known_None [of h d "shards ! k"] by (meson option.exhaust)
  note e = find_known_Some [OF p]
  let ?es = "(shards ! k)[p := (shards ! k ! p)\<lparr>te_row := length kept\<rparr>]"
  have new: "mid_live (kept @ [r]) (Suc d) rest = L(d := None, length kept \<mapsto> r)" unfolding L by (rule mid_keep [OF r(1) d])
  have "shard_ok ?H j (shards[k := ?es] ! j) (L(d := None, length kept \<mapsto> r))" if j: "j < length shards" for j
  proof (cases "j = k")
    case True
    with shard_move [OF ok e(1) _ Ld(1) _ Ld(2), of r] e(2) k show ?thesis by simp
  next
    case False
    have "shard_ok ?H j (shards ! j) (L(d := None, length kept \<mapsto> r))"
      by (rule shard_ok_other [OF shards(1) [rule_format, OF j]]) (use False H Ld in \<open>auto split: if_splits\<close>)
    with False show ?thesis by simp
  qed
  moreover have "remap_entry env log2 nk sort_by (r, d, length kept) (shards, offs) =
      Ok (shards[k := ?es], push_sort (r ! sort_by) (length kept) offs)"
    using r(2,3) H k p e(1) by (simp add: remap_entry_def shard_hash_def push_sort_def)
  ultimately show ?thesis using new by simp
qed

lemma remap_all_ok:
  "\<forall>r \<in> set rest. length r = n \<Longrightarrow> nk \<le> n \<Longrightarrow> sort_by < n \<Longrightarrow> length kept \<le> d \<Longrightarrow> \<forall>r \<in> set kept. \<not> is_stale (r ! 0) \<Longrightarrow>
   \<forall>j < length shards. shard_ok (\<lambda>r. key_hash env log2 (take nk r)) j (shards ! j) (mid_live kept d rest) \<Longrightarrow>
   length shards = 2 ^ log2 \<Longrightarrow> log2 < 64 \<Longrightarrow> offs_ok sort_by offs (length kept) (live_at kept) \<Longrightarrow> in_order sort_by offs rest \<Longrightarrow>
   \<exists>shards' offs'. remap_all env log2 nk sort_by (remapped d (length kept) rest) (shards, offs) = Ok (shards', offs') \<and>
     length shards' = length shards \<and>
     (\<forall>j < length shards. shard_ok (\<lambda>r. key_hash env log2 (take nk r)) j (shards' ! j) (live_at (kept @ filter (\<lambda>r. \<not> is_stale (r ! 0)) rest))) \<and>
     offs_ok sort_by offs' (length (kept @ filter (\<lambda>r. \<not> is_stale (r ! 0)) rest)) (live_at (kept @ filter (\<lambda>r. \<not> is_stale (r ! 0)) rest))"
proof (induction rest arbitrary: kept d shards offs)
  case Nil
  then show ?case by (simp add: mid_end)
next
  case (Cons r rest)
  have hd: "hd r = r ! 0" using Cons.prems(1,3) by (intro hd_conv_nth) auto
  show ?case
  proof (cases "is_stale (r ! 0)")
    case True
    have "in_order sort_by offs rest" using in_order_step [OF Cons.prems(10)] by blast
    with Cons.IH [of kept "Suc d" shards offs] Cons.prems mid_stale [OF True Cons.prems(4)] True hd show ?thesis by simp
  next
    case False
    have "nk \<le> length r" "sort_by < length r" using Cons.prems(1-3) by auto
    from remap_entry_ok [OF refl Cons.prems(4) False this Cons.prems(6-8), of offs] obtain shards1 where
      s1: "remap_entry env log2 nk sort_by (r, d, length kept) (shards, offs) = Ok (shards1, push_sort (r ! sort_by) (length kept) offs)"
      "length shards1 = length shards"
      "\<forall>j < length shards. shard_ok (\<lambda>r. key_hash env log2 (take nk r)) j (shards1 ! j) (mid_live (kept @ [r]) (Suc d) rest)" by blast
    have o: "offs_ok sort_by (push_sort (r ! sort_by) (length kept) offs) (length (kept @ [r])) (live_at (kept @ [r]))"
      using offs_push [OF Cons.prems(9) in_order_reaches [OF Cons.prems(10) False]] live_at_append [OF False, of kept] by simp
    have ord: "in_order sort_by (push_sort (r ! sort_by) (length kept) offs) rest" using in_order_step [OF Cons.prems(10)] False by blast
    have "\<forall>r \<in> set rest. length r = n" "length (kept @ [r]) \<le> Suc d" "\<forall>r \<in> set (kept @ [r]). \<not> is_stale (r ! 0)"
      using Cons.prems(1,4,5) False by auto
    from Cons.IH [OF this(1) Cons.prems(2,3) this(2,3) _ _ Cons.prems(8) o ord, of shards1] s1(2,3) Cons.prems(7) obtain shards' offs' where
      "remap_all env log2 nk sort_by (remapped (Suc d) (length (kept @ [r])) rest) (shards1, push_sort (r ! sort_by) (length kept) offs) = Ok (shards', offs')"
      "length shards' = length shards"
      "\<forall>j < length shards. shard_ok (\<lambda>r. key_hash env log2 (take nk r)) j (shards' ! j) (live_at ((kept @ [r]) @ filter (\<lambda>r. \<not> is_stale (r ! 0)) rest))"
      "offs_ok sort_by offs' (length ((kept @ [r]) @ filter (\<lambda>r. \<not> is_stale (r ! 0)) rest)) (live_at ((kept @ [r]) @ filter (\<lambda>r. \<not> is_stale (r ! 0)) rest))"
      by auto
    with s1(1) False hd show ?thesis by (intro exI [of _ shards'] exI [of _ offs']) simp
  qed
qed

end

lemma offs_in_order:
  assumes "offs_ok sort_by offs (length rs) (live_at rs)"
  shows "in_order sort_by [] rs"
proof -
  have "sorted_wrt (\<lambda>r s. \<not> is_stale (r ! 0) \<longrightarrow> \<not> is_stale (s ! 0) \<longrightarrow> r ! sort_by \<le> s ! sort_by) rs"
    unfolding sorted_wrt_iff_nth_less using offs_sorted_rows [OF assms] by (auto simp: live_at_Some)
  then have "sorted_wrt (\<lambda>r s. \<not> is_stale (r ! 0) \<longrightarrow> \<not> is_stale (s ! 0) \<longrightarrow> r ! sort_by \<le> s ! sort_by) (filter (\<lambda>r. \<not> is_stale (r ! 0)) rs)"
    by (rule sorted_wrt_filter)
  then have "sorted_wrt (\<lambda>r s. r ! sort_by \<le> s ! sort_by) (filter (\<lambda>r. \<not> is_stale (r ! 0)) rs)"
    by (rule sorted_wrt_mono_rel [rotated]) auto
  then show ?thesis by (simp add: in_order_def arrivals_def reaches_def sorted_map)
qed

definition same_layout :: "sorted_table \<Rightarrow> sorted_table \<Rightarrow> bool" where
  "same_layout t t' \<longleftrightarrow> sw_log2 t' = sw_log2 t \<and> sw_keys t' = sw_keys t \<and> sw_columns t' = sw_columns t \<and> sw_sort_by t' = sw_sort_by t"

context keyed_env
begin

lemma sw_rehash_ok:
  assumes "sw_wf env t"
  shows "\<exists>t'. sw_rehash env t = Ok t' \<and> sw_wf env t' \<and> sw_contents t' = sw_contents t \<and> sw_generation t' = sw_generation t + 1 \<and>
    sw_rows t' = filter (\<lambda>r. \<not> is_stale (r ! 0)) (sw_rows t) \<and> sw_pending t' = sw_pending t \<and> same_layout t t'"
proof -
  let ?live = "filter (\<lambda>r. \<not> is_stale (r ! 0)) (sw_rows t)"
  have wf: "rd_wf (sw_columns t) (sw_data t)" "sw_keys t \<le> sw_columns t" "sw_sort_by t < sw_columns t"
    "length (sw_shards t) = 2 ^ sw_log2 t" "sw_log2 t < 64"
    "offs_ok (sw_sort_by t) (sw_offsets t) (length (sw_rows t)) (sw_live t)" using assms by (auto simp: sw_wf_def)
  have ix: "\<forall>j < length (sw_shards t). shard_ok (\<lambda>r. key_hash env (sw_log2 t) (take (sw_keys t) r)) j (sw_shards t ! j) (mid_live [] 0 (sw_rows t))"
    using assms by (simp add: sw_wf_def indexed_def mid_start)
  obtain rd where rd: "rd_remove_stale (sw_data t) = Ok (rd, remapped 0 0 (sw_rows t))" "rd_wf (sw_columns t) rd" "rd_rows rd = ?live"
    using rd_remove_stale_ok [OF wf(1)] assms by (auto simp: sw_wf_def)
  have len: "\<forall>r \<in> set (sw_rows t). length r = sw_columns t" using rd_row_length [OF wf(1)] by (auto simp: in_set_conv_nth)
  have "offs_ok (sw_sort_by t) [] (length ([] :: row list)) (live_at [])" by (simp add: offs_ok_def live_at_def)
  from remap_all_ok [OF len wf(2,3) _ _ ix wf(4,5) this offs_in_order [OF wf(6)]] obtain shards offs where
    r: "remap_all env (sw_log2 t) (sw_keys t) (sw_sort_by t) (remapped 0 0 (sw_rows t)) (sw_shards t, []) = Ok (shards, offs)"
    "length shards = length (sw_shards t)"
    "\<forall>j < length (sw_shards t). shard_ok (\<lambda>r. key_hash env (sw_log2 t) (take (sw_keys t) r)) j (shards ! j) (live_at ?live)"
    "offs_ok (sw_sort_by t) offs (length ?live) (live_at ?live)" by auto
  let ?t = "t\<lparr>sw_generation := sw_generation t + 1, sw_data := rd, sw_shards := shards, sw_offsets := offs\<rparr>"
  have "length ?live \<le> u32_max" by (rule order.trans [OF length_filter_le]) (use assms in \<open>simp add: sw_wf_def\<close>)
  then have "sw_wf env ?t" using assms rd(2,3) r(2-4) wf(4) by (simp add: sw_wf_def indexed_def unique_keys_def)
  moreover have "sw_rehash env t = Ok ?t" using rd(1) r(1) by (simp add: sw_rehash_def)
  ultimately show ?thesis using rd(3) by (intro exI [of _ ?t]) (simp add: sw_contents_def contents_def same_layout_def)
qed

lemma maybe_rehash_ok:
  assumes "sw_wf env t"
  shows "\<exists>t'. maybe_rehash env t = Ok t' \<and> sw_wf env t' \<and> sw_contents t' = sw_contents t \<and> sw_pending t' = sw_pending t \<and> same_layout t t' \<and>
    (t' = t \<or> sw_generation t' = sw_generation t + 1)"
  using assms sw_rehash_ok [OF assms] by (auto simp: maybe_rehash_def same_layout_def)

section \<open>Merging\<close>

lemma denotes_table: "sw_wf env t \<Longrightarrow> denotes (sw_keys t) (sw_live t) (sw_contents t)"
  unfolding sw_contents_def using unique_keys_denotes by (auto simp: sw_wf_def)

end

text \<open>The keys that the staged removals name, directly or by a live row of the right hash.\<close>

definition removed_keys :: "'e table_env \<Rightarrow> sorted_table \<Rightarrow> val list set" where
  "removed_keys env t =
     set (staged_rows (ps_removals (sw_pending t))) \<union>
     {take (sw_keys t) r |r. \<exists>i k h. sw_live t i = Some r \<and> key_hash env (sw_log2 t) (take (sw_keys t) r) = (k, h) \<and>
        \<lparr>kr_hash = h, kr_row = i\<rparr> \<in> set (concat (ps_known (sw_pending t) ! k))}"

definition merge_spec :: "'e table_env \<Rightarrow> sorted_table \<Rightarrow> 'e \<Rightarrow> (val list \<rightharpoonup> row) \<times> 'e \<times> bool" where
  "merge_spec env t x =
     fold (abs_insert env (sw_keys t)) (staged_rows (ps_rows (sw_pending t))) (sw_contents t |` (- removed_keys env t), x, False)"

lemma key_hash_bound: "log2 < 64 \<Longrightarrow> fst (key_hash env log2 key) < 2 ^ log2"
  using shard_id_bound by (simp add: key_hash_def Let_def)

lemma staged_rows_set: "set (staged_rows queues) = (\<Union>q \<in> set queues. snd ` set (concat (map hb_rows q)))"
  by (simp add: staged_rows_def)

lemma staged_in_shard:
  assumes "staged_ok K nk nk m queues" "K key = (k, h)" "k < m" "length key = nk"
  shows "key \<in> snd ` set (concat (map hb_rows (queues ! k))) \<longleftrightarrow> key \<in> set (staged_rows queues)"
proof
  have len: "length queues = m" using assms(1) by (simp add: staged_ok_def)
  then have "queues ! k \<in> set queues" using assms(3) by simp
  then show "key \<in> snd ` set (concat (map hb_rows (queues ! k))) \<Longrightarrow> key \<in> set (staged_rows queues)"
    unfolding staged_rows_set by blast
  assume "key \<in> set (staged_rows queues)"
  then obtain q where q: "q \<in> set queues" "key \<in> snd ` set (concat (map hb_rows q))" unfolding staged_rows_set by blast
  then obtain j h' where j: "j < m" "queues ! j = q" "(h', key) \<in> set (concat (map hb_rows q))" using len by (force simp: in_set_conv_nth)
  with assms(1) have "K (take nk key) = (j, h')" unfolding staged_ok_def by fast
  with assms(2,4) j(2) q(2) show "key \<in> snd ` set (concat (map hb_rows (queues ! k)))" by simp
qed

context keyed_env
begin

lemma do_delete_ok:
  assumes wf: "sw_wf env t" and pend: "pending_ok env t"
  shows "\<exists>changed t'. do_delete env t = Ok (changed, t') \<and> sw_wf env t' \<and> sw_contents t' = sw_contents t |` (- removed_keys env t) \<and>
    length (sw_rows t') = length (sw_rows t) \<and> appends_only (sw_rows t) (sw_rows t') \<and>
    t' = t\<lparr>sw_shards := sw_shards t', sw_data := sw_data t', sw_pending := (sw_pending t)\<lparr>ps_total_removals := 0,
      ps_removals := empty_queues (ps_removals (sw_pending t)), ps_known := empty_queues (ps_known (sw_pending t))\<rparr>\<rparr>"
proof -
  let ?K = "key_hash env (sw_log2 t)" and ?nk = "sw_keys t" and ?ps = "(sw_pending t)\<lparr>ps_total_removals := 0\<rparr>"
  let ?P = "\<lambda>i r. 0 \<le> fst (?K (take ?nk r)) \<and> fst (?K (take ?nk r)) < 2 ^ sw_log2 t \<and> removed ?K ?nk ?ps i r"
  have w: "rd_wf (sw_columns t) (sw_data t)" "length (sw_shards t) = 2 ^ sw_log2 t" "sw_log2 t < 64"
    "offs_ok (sw_sort_by t) (sw_offsets t) (length (sw_rows t)) (sw_live t)" "?nk \<le> sw_columns t" using wf by (auto simp: sw_wf_def)
  note d = denotes_table [OF wf]
  have differ: "keys_differ ?nk (sw_live t)" using denotes_unique [OF d] by (auto simp: keys_differ_def)
  have ix: "\<forall>j < length (sw_shards t). indexed (sw_columns t) ?nk ?K (0 + j) (sw_shards t ! j) (sw_data t)"
    using wf by (simp add: sw_wf_def)
  have p: "staged_ok ?K ?nk ?nk (2 ^ sw_log2 t) (ps_removals ?ps)" "length (ps_known ?ps) = 2 ^ sw_log2 t"
    using pend by (auto simp: pending_ok_def)
  have m: "0 + length (sw_shards t) = 2 ^ sw_log2 t" using w(2) by simp
  from delete_shards_ok [OF w(1) differ ix m p] obtain shards' rd' changed' where
    1: "delete_shards env ?nk ?ps 0 (sw_shards t) (sw_data t) False = Ok (shards', rd', changed')" "length shards' = length (sw_shards t)"
    "rd_wf (sw_columns t) rd'" "length (rd_rows rd') = length (sw_rows t)" "rd_live rd' = prune ?P (sw_live t)"
    "\<forall>j < length (sw_shards t). indexed (sw_columns t) ?nk ?K (0 + j) (shards' ! j) rd'" by blast
  let ?t = "t\<lparr>sw_shards := shards', sw_data := rd', sw_pending := ?ps\<lparr>ps_removals := empty_queues (ps_removals ?ps), ps_known := empty_queues (ps_known ?ps)\<rparr>\<rparr>"
  have removed: "?P i r \<longleftrightarrow> take ?nk r \<in> removed_keys env t" if i: "sw_live t i = Some r" for i r
  proof -
    obtain k h where K: "?K (take ?nk r) = (k, h)" by force
    then have k: "k < 2 ^ sw_log2 t" using key_hash_bound [OF w(3), of env "take ?nk r"] by simp
    have "length (take ?nk r) = ?nk" using rd_live_length [OF w(1) i] w(5) by simp
    note staged = staged_in_shard [OF p(1) K k this]
    have one: "(\<exists>kr \<in> set (concat (ps_known ?ps ! k)). kr_row kr = i \<and> kr_hash kr = h) \<longleftrightarrow> \<lparr>kr_hash = h, kr_row = i\<rparr> \<in> set (concat (ps_known ?ps ! k))"
      by (metis known_removal.surjective old.unit.exhaust known_removal.select_convs)
    have same: "j = i \<and> s = r" if "sw_live t j = Some s" "take ?nk s = take ?nk r" for j s
      using denotes_unique [OF d that(1) i that(2)] that(1) i by simp
    have "(\<exists>s j k h. take ?nk r = take ?nk s \<and> sw_live t j = Some s \<and> ?K (take ?nk s) = (k, h) \<and> \<lparr>kr_hash = h, kr_row = j\<rparr> \<in> set (concat (ps_known ?ps ! k))) \<longleftrightarrow>
        \<lparr>kr_hash = h, kr_row = i\<rparr> \<in> set (concat (ps_known ?ps ! k))"
    proof
      assume "\<exists>s j k h. take ?nk r = take ?nk s \<and> sw_live t j = Some s \<and> ?K (take ?nk s) = (k, h) \<and> \<lparr>kr_hash = h, kr_row = j\<rparr> \<in> set (concat (ps_known ?ps ! k))"
      then obtain s j k' h' where s: "take ?nk r = take ?nk s" "sw_live t j = Some s" "?K (take ?nk s) = (k', h')"
        "\<lparr>kr_hash = h', kr_row = j\<rparr> \<in> set (concat (ps_known ?ps ! k'))" by blast
      have "j = i" "s = r" using same [OF s(2) s(1) [symmetric]] by auto
      moreover from this(2) s(3) K have "k' = k" "h' = h" by auto
      ultimately show "\<lparr>kr_hash = h, kr_row = i\<rparr> \<in> set (concat (ps_known ?ps ! k))" using s(4) by blast
    qed (use i K in blast)
    then have "take ?nk r \<in> removed_keys env t \<longleftrightarrow>
        take ?nk r \<in> set (staged_rows (ps_removals ?ps)) \<or> \<lparr>kr_hash = h, kr_row = i\<rparr> \<in> set (concat (ps_known ?ps ! k))"
      unfolding removed_keys_def Un_iff mem_Collect_eq by simp
    then show ?thesis using K k staged one by (simp add: removed_def)
  qed
  have "denotes ?nk (rd_live rd') (sw_contents t |` (- removed_keys env t))"
    unfolding denotes_def
  proof (intro conjI allI impI)
    fix key r
    show "(sw_contents t |` (- removed_keys env t)) key = Some r \<longleftrightarrow> (\<exists>i. rd_live rd' i = Some r \<and> take ?nk r = key)"
      using d removed unfolding denotes_def 1(5) prune_Some restrict_map_def by (auto split: if_splits)
  qed (use denotes_unique [OF d] in \<open>auto simp: 1(5)\<close>)
  then have u: "unique_keys ?nk (rd_rows rd')" "sw_contents ?t = sw_contents t |` (- removed_keys env t)"
    unfolding sw_contents_def using denotes_contents by auto
  have "offs_ok (sw_sort_by t) (sw_offsets t) (length (rd_rows rd')) (rd_live rd')"
    unfolding 1(4) by (rule offs_subset [OF w(4)]) (simp add: 1(5))
  then have "sw_wf env ?t" using wf 1(2-4,6) u(1) w(2) by (simp add: sw_wf_def)
  moreover have "do_delete env t = Ok (changed', ?t)" using 1(1) by (simp add: do_delete_def serial_delete_def)
  moreover have "appends_only (sw_rows t) (rd_rows rd')" unfolding appends_only_def 1(4,5) prune_Some by blast
  ultimately show ?thesis using u(2) 1(4) by (intro exI [of _ changed'] exI [of _ ?t]) simp
qed

end

lemma mid_merge_wf:
  assumes "sw_wf env t"
  shows "mid_merge (sw_columns t) (sw_keys t) (sw_sort_by t) (key_hash env (sw_log2 t)) t (sw_contents t)"
  using assms unique_keys_denotes by (auto simp: mid_merge_def refines_def sw_wf_def sw_contents_def)

lemma wf_mid_merge:
  assumes "mid_merge (sw_columns t) (sw_keys t) (sw_sort_by t) (key_hash env (sw_log2 t)) t m"
    "length (sw_shards t) = 2 ^ sw_log2 t" "sw_log2 t \<le> 57" "length (sw_rows t) \<le> u32_max"
  shows "sw_wf env t \<and> sw_contents t = m"
  using assms denotes_contents by (auto simp: mid_merge_def refines_def sw_wf_def sw_contents_def)

context merging_env
begin

lemma do_insert_ok:
  assumes wf: "sw_wf env t" and t: "sw_columns t = n_cols" "sw_keys t = n_keys" "sw_sort_by t = sort_by"
    and staged: "staged_ok (key_hash env (sw_log2 t)) n_keys n_cols (2 ^ sw_log2 t) (ps_rows (sw_pending t))"
    and order: "in_order sort_by (sw_offsets t) (staged_rows (ps_rows (sw_pending t)))"
    and room: "length (sw_rows t) + length (staged_rows (ps_rows (sw_pending t))) \<le> u32_max"
  shows "\<exists>t' x' added. do_insert env t x = Ok (added, t', x') \<and> sw_wf env t' \<and>
    fold (abs_insert env n_keys) (staged_rows (ps_rows (sw_pending t))) (sw_contents t, x, False) = (sw_contents t', x', added) \<and> appends_only (sw_rows t) (sw_rows t') \<and>
    t' = t\<lparr>sw_shards := sw_shards t', sw_data := sw_data t', sw_offsets := sw_offsets t',
      sw_pending := (sw_pending t)\<lparr>ps_total_rows := 0, ps_rows := empty_queues (ps_rows (sw_pending t))\<rparr>\<rparr>"
proof -
  let ?queues = "ps_rows (sw_pending t)" and ?K = "key_hash env (sw_log2 t)"
  let ?t = "t\<lparr>sw_pending := (sw_pending t)\<lparr>ps_total_rows := 0, ps_rows := empty_queues ?queues\<rparr>\<rparr>"
  have mid: "mid_merge n_cols n_keys sort_by ?K ?t (sw_contents t)" using mid_merge_wf [OF wf] t by (simp add: mid_merge_def)
  have len: "0 + length ?queues = length (sw_shards ?t)" using staged wf by (simp add: staged_ok_def sw_wf_def)
  have hashed: "\<forall>j < length ?queues. \<forall>(h, q) \<in> set (concat (map hb_rows (?queues ! j))). length q = n_cols \<and> ?K (take n_keys q) = (0 + j, h)"
    using staged by (simp add: staged_ok_def)
  have room': "length (sw_rows ?t) + length (staged_rows ?queues) \<le> Suc u32_max" using room by simp
  have order': "in_order sort_by (sw_offsets ?t) (staged_rows ?queues)" using order by simp
  from insert_shards_ok [OF mid len hashed order' room', of x False] obtain m' t' x' added where
    1: "insert_shards env 0 ?queues ?t x False = Ok (added, t', x')"
    "fold (abs_insert env n_keys) (staged_rows ?queues) (sw_contents t, x, False) = (m', x', added)"
    "mid_merge n_cols n_keys sort_by ?K t' m'" "merge_frame ?t t'" "length (sw_rows t') \<le> length (sw_rows t) + length (staged_rows ?queues)"
    by auto
  have grown: "appends_only (sw_rows t) (sw_rows t')" using 1(4) by (simp add: merge_frame_def)
  from 1(4) have frame: "length (sw_shards t') = length (sw_shards t)" "t' = ?t\<lparr>sw_shards := sw_shards t', sw_data := sw_data t', sw_offsets := sw_offsets t'\<rparr>"
    by (simp_all add: merge_frame_def)
  have same: "sw_columns t' = n_cols" "sw_keys t' = n_keys" "sw_sort_by t' = sort_by" "sw_log2 t' = sw_log2 t"
    by (subst frame(2), simp add: t)+
  have "length (sw_shards t') = 2 ^ sw_log2 t'" "sw_log2 t' \<le> 57" "length (sw_rows t') \<le> u32_max"
    using frame(1) same(4) wf 1(5) room by (simp_all add: sw_wf_def)
  with wf_mid_merge [of t' env m'] 1(3) same have "sw_wf env t'" "sw_contents t' = m'" by auto
  moreover have "do_insert env t x = Ok (added, t', x')" using 1(1) by (simp add: do_insert_def serial_insert_def)
  moreover have "?t\<lparr>sw_shards := a, sw_data := b, sw_offsets := c\<rparr> =
      t\<lparr>sw_shards := a, sw_data := b, sw_offsets := c, sw_pending := (sw_pending t)\<lparr>ps_total_rows := 0, ps_rows := empty_queues ?queues\<rparr>\<rparr>" for a b c
    by simp
  ultimately show ?thesis using 1(2) frame(2) grown by metis
qed

lemma sw_merge_ok:
  assumes wf: "sw_wf env t" and t: "sw_columns t = n_cols" "sw_keys t = n_keys" "sw_sort_by t = sort_by" and pend: "pending_ok env t"
    and order: "in_order sort_by (sw_offsets t) (staged_rows (ps_rows (sw_pending t)))"
    and room: "length (sw_rows t) + length (staged_rows (ps_rows (sw_pending t))) \<le> u32_max"
  shows "\<exists>t' x' added. sw_merge env t x = Ok (added, t', x') \<and> sw_wf env t' \<and> (sw_contents t', x', added) = merge_spec env t x \<and>
    sw_pending t' = ps_clear (sw_pending t) \<and> same_layout t t' \<and>
    (sw_generation t' = sw_generation t \<and> appends_only (sw_rows t) (sw_rows t') \<or> sw_generation t' = sw_generation t + 1)"
proof -
  from do_delete_ok [OF wf pend] obtain ch t1 where
    1: "do_delete env t = Ok (ch, t1)" "sw_wf env t1" "sw_contents t1 = sw_contents t |` (- removed_keys env t)"
    "length (sw_rows t1) = length (sw_rows t)" "appends_only (sw_rows t) (sw_rows t1)" "t1 = t\<lparr>sw_shards := sw_shards t1, sw_data := sw_data t1, sw_pending := (sw_pending t)\<lparr>ps_total_removals := 0,
      ps_removals := empty_queues (ps_removals (sw_pending t)), ps_known := empty_queues (ps_known (sw_pending t))\<rparr>\<rparr>" by blast
  obtain shards1 data1 where t1: "t1 = t\<lparr>sw_shards := shards1, sw_data := data1, sw_pending := (sw_pending t)\<lparr>ps_total_removals := 0,
      ps_removals := empty_queues (ps_removals (sw_pending t)), ps_known := empty_queues (ps_known (sw_pending t))\<rparr>\<rparr>" using 1(6) by blast
  from do_insert_ok [OF 1(2), of x] t pend order room 1(4) obtain t2 x' added where
    2: "do_insert env t1 x = Ok (added, t2, x')" "sw_wf env t2"
    "fold (abs_insert env n_keys) (staged_rows (ps_rows (sw_pending t))) (sw_contents t1, x, False) = (sw_contents t2, x', added)"
    "appends_only (sw_rows t1) (sw_rows t2)" "t2 = t1\<lparr>sw_shards := sw_shards t2, sw_data := sw_data t2, sw_offsets := sw_offsets t2,
      sw_pending := (sw_pending t1)\<lparr>ps_total_rows := 0, ps_rows := empty_queues (ps_rows (sw_pending t1))\<rparr>\<rparr>"
    by (auto simp: t1 pending_ok_def)
  obtain shards2 data2 offs2 where t2: "t2 = t1\<lparr>sw_shards := shards2, sw_data := data2, sw_offsets := offs2,
      sw_pending := (sw_pending t1)\<lparr>ps_total_rows := 0, ps_rows := empty_queues (ps_rows (sw_pending t1))\<rparr>\<rparr>" using 2(5) by blast
  from maybe_rehash_ok [OF 2(2)] obtain t' where
    3: "maybe_rehash env t2 = Ok t'" "sw_wf env t'" "sw_contents t' = sw_contents t2" "sw_pending t' = sw_pending t2" "same_layout t2 t'"
    "t' = t2 \<or> sw_generation t' = sw_generation t2 + 1" by blast
  have "sw_pending t' = ps_clear (sw_pending t)" using 3(4) by (simp add: t1 t2 ps_clear_def)
  moreover have "same_layout t t'" using 3(5) by (simp add: t1 t2 same_layout_def)
  moreover have "sw_generation t2 = sw_generation t" by (simp add: t1 t2)
  then have "sw_generation t' = sw_generation t \<and> appends_only (sw_rows t) (sw_rows t') \<or> sw_generation t' = sw_generation t + 1"
    using 3(6) appends_only_trans [OF 1(5) 2(4)] by auto
  ultimately show ?thesis using 1(1,3) 2(1,3) 3 t(2) by (simp add: sw_merge_def merge_spec_def)
qed

end

text \<open>
  C28: Compacting the keyed table.  \<open>rehash\<close> never panics on a well-formed table: it keeps the live rows in
  their order and nothing else, points every entry of the hash table at the new place of its row, rebuilds
  the offsets, and starts a new generation; the contents, the length and the staged operations are the
  same.
\<close>

theorem keyed_rehash_compacts:
  assumes "keyed_env env" "sw_wf env t"
  shows "\<exists>t'. sw_rehash env t = Ok t' \<and> sw_wf env t' \<and> sw_contents t' = sw_contents t \<and>
    sw_rows t' = filter (\<lambda>r. \<not> is_stale (r ! 0)) (sw_rows t) \<and> \<not> sw_has_stale_rows t' \<and> sw_len t' = sw_len t \<and>
    sw_generation t' = sw_generation t + 1 \<and> sw_pending t' = sw_pending t"
proof -
  have size: "rd_stale (sw_data u) = length (filter (\<lambda>r. is_stale (r ! 0)) (sw_rows u))" "buf_len (rd_data (sw_data u)) = length (sw_rows u)"
    if "sw_wf env u" for u
    using that rd_len [of "sw_columns u" "sw_data u"] by (simp_all add: sw_wf_def rd_wf_def)
  have split: "length (filter (\<lambda>r. is_stale (r ! 0)) rs) + length (filter (\<lambda>r. \<not> is_stale (r ! 0)) rs) = length rs" for rs :: "row list"
    by (rule sum_length_filter_compl)
  from keyed_env.sw_rehash_ok [OF assms] obtain t' where
    t': "sw_rehash env t = Ok t'" "sw_wf env t'" "sw_contents t' = sw_contents t" "sw_generation t' = sw_generation t + 1"
    "sw_rows t' = filter (\<lambda>r. \<not> is_stale (r ! 0)) (sw_rows t)" "sw_pending t' = sw_pending t" by blast
  then show ?thesis
    using size [OF assms(2)] size [OF t'(2)] split [of "sw_rows t"] by (auto simp: sw_has_stale_rows_def sw_len_def)
qed

theorem keyed_rehash_compacts_witness:
  "\<exists>t'. sw_rehash one_hash_env sample_keyed = Ok t' \<and> sw_rows t' = [[6, 5, 0]] \<and> sw_generation t' = 1"
  using keyed_rehash_compacts [OF one_hash_keyed one_hash_wf(1)] unfolding sample_rows(1)
  by (auto simp: is_stale_def stale_def u32_max_def) (simp add: sample_keyed_def)

end
