(* ===== verification/ParallelWriter.thy ===== *)
theory ParallelWriter
  imports Prelude "HOL-Library.Multiset"
begin

text \<open>
  The parallel vector writer of \<open>egglog/concurrency/src/parallel_writer.rs\<close> as a step relation.  Any
  number of workers append slices to one vector: each reserves a range with one \<open>fetch_add\<close>, grows
  the allocation under the exclusive lock if it is too small, and copies its items under a read
  guard.  Steps of different workers interleave in any order, and the items of a slice are copied one
  by one.

  The lock is taken at its contract: the exclusive lock is free of read guards.  A growing vector
  keeps the contents of its allocation, and its new capacity is any number that \<open>Vec::reserve\<close>
  allows.
\<close>

section \<open>Model\<close>

text \<open>
  Where a worker is in \<open>write_slice_raw\<close>: before the reservation; before it reads the capacity;
  waiting for the lock because the capacity was too small; before it takes the read guard; copying
  under the guard, with the number of items copied; returned.
\<close>

datatype 'a phase =
    Idle "'a list"
  | Checking nat "'a list"
  | Growing nat "'a list"
  | Ready nat "'a list"
  | Copying nat nat "'a list"
  | Returned nat "'a list"

text \<open>The allocation is the list of its cells, the ones not written yet are \<open>None\<close>; \<open>vec_len\<close> is the length the vector has.\<close>

record 'a writer =
  cells :: "'a option list"
  vec_len :: nat
  end_len :: nat
  workers :: "'a phase list"

definition writer_new :: "'a list \<Rightarrow> nat \<Rightarrow> 'a list list \<Rightarrow> 'a writer" where
  "writer_new vec spare batches =
     \<lparr>cells = map Some vec @ replicate spare None, vec_len = length vec, end_len = length vec, workers = map Idle batches\<rparr>"

definition holds_guard :: "'a phase \<Rightarrow> bool" where
  "holds_guard p = (case p of Copying _ _ _ \<Rightarrow> True | _ \<Rightarrow> False)"

inductive writer_step :: "'a writer \<Rightarrow> 'a writer \<Rightarrow> bool" where
  reserve: "i < length (workers w) \<Longrightarrow> workers w ! i = Idle xs \<Longrightarrow>
    writer_step w (w\<lparr>end_len := end_len w + length xs, workers := (workers w)[i := Checking (end_len w) xs]\<rparr>)"
| large_enough: "i < length (workers w) \<Longrightarrow> workers w ! i = Checking s xs \<Longrightarrow> s + length xs \<le> length (cells w) \<Longrightarrow>
    writer_step w (w\<lparr>workers := (workers w)[i := Ready s xs]\<rparr>)"
| too_small: "i < length (workers w) \<Longrightarrow> workers w ! i = Checking s xs \<Longrightarrow> length (cells w) < s + length xs \<Longrightarrow>
    writer_step w (w\<lparr>workers := (workers w)[i := Growing s xs]\<rparr>)"
| grow: "i < length (workers w) \<Longrightarrow> workers w ! i = Growing s xs \<Longrightarrow> \<forall>p \<in> set (workers w). \<not> holds_guard p \<Longrightarrow>
    length (cells w) < s + length xs \<Longrightarrow> new_cap = max (s + length xs) (length (cells w) * 2) \<Longrightarrow>
    vec_len w + (new_cap - vec_len w) \<le> length (cells w) + extra \<Longrightarrow>
    writer_step w (w\<lparr>cells := cells w @ replicate extra None, workers := (workers w)[i := Ready s xs]\<rparr>)"
| grown_meanwhile: "i < length (workers w) \<Longrightarrow> workers w ! i = Growing s xs \<Longrightarrow> \<forall>p \<in> set (workers w). \<not> holds_guard p \<Longrightarrow>
    s + length xs \<le> length (cells w) \<Longrightarrow>
    writer_step w (w\<lparr>workers := (workers w)[i := Ready s xs]\<rparr>)"
| guard: "i < length (workers w) \<Longrightarrow> workers w ! i = Ready s xs \<Longrightarrow>
    writer_step w (w\<lparr>workers := (workers w)[i := Copying s 0 xs]\<rparr>)"
| copy: "i < length (workers w) \<Longrightarrow> workers w ! i = Copying s k xs \<Longrightarrow> k < length xs \<Longrightarrow>
    writer_step w (w\<lparr>cells := (cells w)[s + k := Some (xs ! k)], workers := (workers w)[i := Copying s (Suc k) xs]\<rparr>)"
| release: "i < length (workers w) \<Longrightarrow> workers w ! i = Copying s k xs \<Longrightarrow> k = length xs \<Longrightarrow>
    writer_step w (w\<lparr>workers := (workers w)[i := Returned s xs]\<rparr>)"

inductive_cases writer_stepE: "writer_step w w'"

definition all_written :: "'a writer \<Rightarrow> bool" where
  "all_written w \<longleftrightarrow> (\<forall>p \<in> set (workers w). \<exists>s xs. p = Returned s xs)"

text \<open>\<open>finish\<close> sets the length of the vector; \<open>None\<close> stands for a cell that was never written.\<close>

definition writer_finish :: "'a writer \<Rightarrow> 'a option list" where
  "writer_finish w = take (end_len w) (cells w)"

section \<open>Systems that drain\<close>

text \<open>
  A system whose steps decrease a rank, keep an invariant, and are possible until it is done: every
  run from a good state can be continued to a state where it is done, and none goes on forever.
\<close>

locale draining =
  fixes step :: "'s \<Rightarrow> 's \<Rightarrow> bool" and good :: "'s \<Rightarrow> bool" and finished :: "'s \<Rightarrow> bool" and rank :: "'s \<Rightarrow> nat"
  assumes keeps: "good s \<Longrightarrow> step s t \<Longrightarrow> good t"
    and decreases: "good s \<Longrightarrow> step s t \<Longrightarrow> rank t < rank s"
    and progress: "good s \<Longrightarrow> \<not> finished s \<Longrightarrow> \<exists>t. step s t"
begin

lemma keeps_run: "step\<^sup>*\<^sup>* s t \<Longrightarrow> good s \<Longrightarrow> good t"
  by (induction rule: rtranclp_induct) (auto intro: keeps)

lemma drains: "good s \<Longrightarrow> \<exists>t. step\<^sup>*\<^sup>* s t \<and> good t \<and> finished t"
proof (induction "rank s" arbitrary: s rule: less_induct)
  case less
  show ?case
  proof (cases "finished s")
    case False
    with progress less.prems obtain t where "step s t" by blast
    with less.hyps [of t] keeps decreases less.prems show ?thesis by (meson converse_rtranclp_into_rtranclp)
  qed (use less.prems in auto)
qed

lemma bounded_runs: "(step ^^ n) s t \<Longrightarrow> good s \<Longrightarrow> n + rank t \<le> rank s"
proof (induction n arbitrary: t)
  case (Suc n)
  then obtain u where u: "(step ^^ n) s u" "step u t" by auto
  have "good u" using u(1) Suc.prems(2) keeps_run by (meson relpowp_imp_rtranclp)
  with u Suc.IH [OF u(1)] Suc.prems(2) decreases [of u t] show ?case by simp
qed simp

end

section \<open>The layout of the reservations\<close>

fun phase_items :: "'a phase \<Rightarrow> 'a list" where
  "phase_items (Idle xs) = xs"
| "phase_items (Checking s xs) = xs"
| "phase_items (Growing s xs) = xs"
| "phase_items (Ready s xs) = xs"
| "phase_items (Copying s k xs) = xs"
| "phase_items (Returned s xs) = xs"

text \<open>Where the range of a worker starts, how many of its items are in place, and whether the allocation covers them.\<close>

fun phase_start :: "'a phase \<Rightarrow> nat option" where
  "phase_start (Idle xs) = None"
| "phase_start (Checking s xs) = Some s"
| "phase_start (Growing s xs) = Some s"
| "phase_start (Ready s xs) = Some s"
| "phase_start (Copying s k xs) = Some s"
| "phase_start (Returned s xs) = Some s"

fun phase_written :: "'a phase \<Rightarrow> nat" where
  "phase_written (Copying s k xs) = k"
| "phase_written (Returned s xs) = length xs"
| "phase_written p = 0"

fun covered :: "'a phase \<Rightarrow> bool" where
  "covered (Ready s xs) = True"
| "covered (Copying s k xs) = True"
| "covered (Returned s xs) = True"
| "covered p = False"

text \<open>The workers of \<open>order\<close> have consecutive ranges from \<open>s\<close> to \<open>e\<close>.\<close>

fun laid :: "(nat \<Rightarrow> 'a phase) \<Rightarrow> nat \<Rightarrow> nat list \<Rightarrow> nat \<Rightarrow> bool" where
  "laid ph s [] e \<longleftrightarrow> s = e"
| "laid ph s (i # is) e \<longleftrightarrow> phase_start (ph i) = Some s \<and> laid ph (s + length (phase_items (ph i))) is e"

lemma laid_append: "laid ph s (is @ js) e \<longleftrightarrow> (\<exists>m. laid ph s is m \<and> laid ph m js e)"
  by (induction "is" arbitrary: s) auto

lemma laid_le: "laid ph s is e \<Longrightarrow> s \<le> e"
  by (induction "is" arbitrary: s) fastforce+

lemma laid_cong:
  "(\<And>i. i \<in> set is \<Longrightarrow> phase_start (ph i) = phase_start (ph' i) \<and> phase_items (ph i) = phase_items (ph' i)) \<Longrightarrow>
   laid ph s is e \<longleftrightarrow> laid ph' s is e"
  by (induction "is" arbitrary: s) auto

lemma laid_range: "laid ph s is e \<Longrightarrow> i \<in> set is \<Longrightarrow> \<exists>t. phase_start (ph i) = Some t \<and> s \<le> t \<and> t + length (phase_items (ph i)) \<le> e"
proof (induction "is" arbitrary: s)
  case (Cons j js)
  show ?case
  proof (cases "i = j")
    case True
    with Cons.prems laid_le show ?thesis by fastforce
  next
    case False
    with Cons.prems Cons.IH [of "s + length (phase_items (ph j))"] show ?thesis by fastforce
  qed
qed simp

text \<open>Ranges of different workers do not overlap.\<close>

lemma laid_disjoint:
  "laid ph s is e \<Longrightarrow> i \<in> set is \<Longrightarrow> j \<in> set is \<Longrightarrow> i \<noteq> j \<Longrightarrow> phase_start (ph i) = Some si \<Longrightarrow> phase_start (ph j) = Some sj \<Longrightarrow>
   si + length (phase_items (ph i)) \<le> sj \<or> sj + length (phase_items (ph j)) \<le> si"
proof (induction "is" arbitrary: s)
  case (Cons k ks)
  consider "i = k" "j \<in> set ks" | "j = k" "i \<in> set ks" | "i \<in> set ks" "j \<in> set ks" using Cons.prems by auto
  then show ?case
  proof cases
    case 1
    with Cons.prems laid_range [of ph "s + length (phase_items (ph k))" ks e j] show ?thesis by auto
  next
    case 2
    with Cons.prems laid_range [of ph "s + length (phase_items (ph k))" ks e i] show ?thesis by auto
  next
    case 3
    with Cons show ?thesis by auto
  qed
qed simp

section \<open>The invariant\<close>

text \<open>The items of a worker that are in place, and the room for the others.\<close>

definition worker_ok :: "'a option list \<Rightarrow> 'a phase \<Rightarrow> bool" where
  "worker_ok cs p \<longleftrightarrow> (\<forall>s. phase_start p = Some s \<longrightarrow>
     (covered p \<longrightarrow> s + length (phase_items p) \<le> length cs) \<and> phase_written p \<le> length (phase_items p) \<and>
     (\<forall>k < phase_written p. cs ! (s + k) = Some (phase_items p ! k)))"

definition in_order_of :: "'a list \<Rightarrow> nat list \<Rightarrow> 'a writer \<Rightarrow> bool" where
  "in_order_of vec order w \<longleftrightarrow> distinct order \<and> set order = {i. i < length (workers w) \<and> phase_start (workers w ! i) \<noteq> None} \<and>
     laid (nth (workers w)) (length vec) order (end_len w)"

definition writer_inv :: "'a list \<Rightarrow> 'a list list \<Rightarrow> 'a writer \<Rightarrow> bool" where
  "writer_inv vec batches w \<longleftrightarrow>
     map phase_items (workers w) = batches \<and> vec_len w = length vec \<and> take (length vec) (cells w) = map Some vec \<and>
     (\<exists>order. in_order_of vec order w) \<and> (\<forall>p \<in> set (workers w). worker_ok (cells w) p)"

lemma writer_inv_new: "writer_inv vec batches (writer_new vec spare batches)"
proof -
  have "in_order_of vec [] (writer_new vec spare batches)" by (auto simp: in_order_of_def writer_new_def)
  then show ?thesis by (auto simp: writer_inv_def writer_new_def worker_ok_def comp_def)
qed

lemma written_covered: "0 < phase_written p \<Longrightarrow> covered p"
  by (cases p) auto

text \<open>A step of a worker that has a range, and changes at most cells that are not written.\<close>

lemma inv_worker_step:
  assumes inv: "writer_inv vec batches w" and i: "i < length (workers w)"
    and same: "phase_start p = phase_start (workers w ! i)" "phase_items p = phase_items (workers w ! i)" "phase_start p \<noteq> None"
    and old: "take (length vec) cs = take (length vec) (cells w)" "\<And>j. j < length (workers w) \<Longrightarrow> j \<noteq> i \<Longrightarrow> worker_ok cs (workers w ! j)"
    and new: "worker_ok cs p"
  shows "writer_inv vec batches (w\<lparr>cells := cs, workers := (workers w)[i := p]\<rparr>)"
proof -
  let ?w = "w\<lparr>cells := cs, workers := (workers w)[i := p]\<rparr>"
  from inv obtain order where o: "in_order_of vec order w" by (auto simp: writer_inv_def)
  have st: "phase_start (workers ?w ! j) = phase_start (workers w ! j)" "phase_items (workers ?w ! j) = phase_items (workers w ! j)" if "j < length (workers w)" for j
    using that i same by (auto simp: nth_list_update)
  have "set order \<subseteq> {..<length (workers w)}" using o by (auto simp: in_order_of_def)
  then have "laid (nth (workers ?w)) (length vec) order (end_len ?w)"
    using o laid_cong [of order "nth (workers ?w)" "nth (workers w)"] st by (auto simp: in_order_of_def)
  moreover have "set order = {j. j < length (workers ?w) \<and> phase_start (workers ?w ! j) \<noteq> None}" using o st by (auto simp: in_order_of_def)
  ultimately have "in_order_of vec order ?w" using o by (simp add: in_order_of_def)
  moreover have "map phase_items (workers ?w) = batches"
    using inv i same(2) by (simp add: writer_inv_def map_update) (metis list_update_id nth_map)
  moreover have "\<forall>q \<in> set (workers ?w). worker_ok cs q"
  proof
    fix q assume "q \<in> set (workers ?w)"
    then obtain j where "j < length (workers w)" "q = workers ?w ! j" by (auto simp: in_set_conv_nth)
    with old(2) new i show "worker_ok cs q" by (cases "j = i") auto
  qed
  ultimately show ?thesis using inv old(1) by (auto simp: writer_inv_def)
qed

lemma inv_worker: "writer_inv vec batches w \<Longrightarrow> i < length (workers w) \<Longrightarrow> worker_ok (cells w) (workers w ! i)"
  by (simp add: writer_inv_def)

text \<open>A step that changes only the phase of its worker.\<close>

lemma inv_phase_step:
  assumes "writer_inv vec batches w" "i < length (workers w)" "phase_start p = phase_start (workers w ! i)"
    "phase_items p = phase_items (workers w ! i)" "phase_start p \<noteq> None" "worker_ok (cells w) p"
  shows "writer_inv vec batches (w\<lparr>workers := (workers w)[i := p]\<rparr>)"
  using inv_worker_step [OF assms(1-5) refl _ assms(6)] inv_worker [OF assms(1)] by simp

lemma inv_reserve:
  assumes inv: "writer_inv vec batches w" and i: "i < length (workers w)" "workers w ! i = Idle xs"
  shows "writer_inv vec batches (w\<lparr>end_len := end_len w + length xs, workers := (workers w)[i := Checking (end_len w) xs]\<rparr>)"
proof -
  let ?w = "w\<lparr>end_len := end_len w + length xs, workers := (workers w)[i := Checking (end_len w) xs]\<rparr>"
  from inv obtain order where o: "in_order_of vec order w" by (auto simp: writer_inv_def)
  have fresh: "i \<notin> set order" using o i(2) by (auto simp: in_order_of_def)
  have "laid (nth (workers ?w)) (length vec) order (end_len w) = laid (nth (workers w)) (length vec) order (end_len w)"
    by (rule laid_cong) (metis fresh nth_list_update_neq writer.select_convs(4) writer.surjective writer.update_convs(3,4))
  then have "laid (nth (workers ?w)) (length vec) order (end_len w)" using o by (simp add: in_order_of_def)
  then have "laid (nth (workers ?w)) (length vec) (order @ [i]) (end_len ?w)" using i(1) by (auto simp: laid_append)
  moreover have "set (order @ [i]) = {j. j < length (workers ?w) \<and> phase_start (workers ?w ! j) \<noteq> None}"
    using o i by (auto simp: in_order_of_def nth_list_update split: if_splits)
  ultimately have "in_order_of vec (order @ [i]) ?w" using o fresh by (simp add: in_order_of_def)
  moreover have "map phase_items (workers ?w) = batches"
    using inv i by (simp add: writer_inv_def map_update) (metis list_update_id nth_map phase_items.simps(1))
  ultimately show ?thesis using inv i by (auto simp: writer_inv_def worker_ok_def dest!: set_update_subset_insert [THEN subsetD])
qed

lemma worker_ok_append: "worker_ok cs p \<Longrightarrow> worker_ok (cs @ more_cells) p"
  using written_covered [of p] by (fastforce simp: worker_ok_def nth_append)

text \<open>A copied item lands in the range of its worker, which no other worker and no old entry touches.\<close>

lemma inv_copy:
  assumes inv: "writer_inv vec batches w" and i: "i < length (workers w)" "workers w ! i = Copying s k xs" and k: "k < length xs"
  shows "writer_inv vec batches (w\<lparr>cells := (cells w)[s + k := Some (xs ! k)], workers := (workers w)[i := Copying s (Suc k) xs]\<rparr>)"
proof (rule inv_worker_step [OF inv i(1)])
  from inv obtain order where o: "in_order_of vec order w" by (auto simp: writer_inv_def)
  let ?cs = "(cells w)[s + k := Some (xs ! k)]"
  have room: "s + length xs \<le> length (cells w)" "\<forall>m < k. cells w ! (s + m) = Some (xs ! m)"
    using inv_worker [OF inv i(1)] i(2) by (auto simp: worker_ok_def)
  have io: "i \<in> set order" using o i by (simp add: in_order_of_def)
  then have "length vec \<le> s" using laid_range [of "nth (workers w)" "length vec" order "end_len w" i] o i(2) by (auto simp: in_order_of_def)
  then show "take (length vec) ?cs = take (length vec) (cells w)" by simp
  show "worker_ok ?cs (workers w ! j)" if j: "j < length (workers w)" "j \<noteq> i" for j
    unfolding worker_ok_def
  proof (intro allI impI)
    fix t assume t: "phase_start (workers w ! j) = Some t"
    have ok: "covered (workers w ! j) \<longrightarrow> t + length (phase_items (workers w ! j)) \<le> length (cells w)"
      "phase_written (workers w ! j) \<le> length (phase_items (workers w ! j))"
      "\<forall>m < phase_written (workers w ! j). cells w ! (t + m) = Some (phase_items (workers w ! j) ! m)"
      using inv_worker [OF inv j(1)] t by (auto simp: worker_ok_def)
    have "j \<in> set order" using o t j(1) by (simp add: in_order_of_def)
    then have "s + length xs \<le> t \<or> t + length (phase_items (workers w ! j)) \<le> s"
      using laid_disjoint [of "nth (workers w)" "length vec" order "end_len w" i j s t] o io i(2) t j(2) by (auto simp: in_order_of_def)
    with k ok(2) have "\<forall>m < phase_written (workers w ! j). t + m \<noteq> s + k" by auto
    with ok show "(covered (workers w ! j) \<longrightarrow> t + length (phase_items (workers w ! j)) \<le> length ?cs) \<and>
      phase_written (workers w ! j) \<le> length (phase_items (workers w ! j)) \<and>
      (\<forall>m < phase_written (workers w ! j). ?cs ! (t + m) = Some (phase_items (workers w ! j) ! m))" by auto
  qed
  show "worker_ok ?cs (Copying s (Suc k) xs)" using room k by (auto simp: worker_ok_def less_Suc_eq)
qed (use i(2) in simp_all)

lemma writer_step_inv:
  assumes "writer_step w w'" "writer_inv vec batches w"
  shows "writer_inv vec batches w'"
  using assms
proof cases
  case (reserve i xs)
  then show ?thesis using inv_reserve [OF assms(2)] by simp
next
  case (grow i s xs new_cap extra)
  let ?cs = "cells w @ replicate extra None"
  have "s + length xs \<le> length ?cs" using grow by auto
  then have new: "worker_ok ?cs (Ready s xs)" by (auto simp: worker_ok_def)
  have "length vec \<le> length (cells w)" using assms(2) by (auto simp: writer_inv_def dest: arg_cong [where f = length])
  then have "take (length vec) ?cs = take (length vec) (cells w)" by simp
  from inv_worker_step [OF assms(2) grow(2) _ _ _ this _ new] grow(1,3) inv_worker [OF assms(2)] worker_ok_append show ?thesis by fastforce
next
  case (copy i s k xs)
  then show ?thesis using inv_copy [OF assms(2)] by simp
next
  case (release i s k xs)
  then show ?thesis using inv_phase_step [OF assms(2), of i "Returned s xs"] inv_worker [OF assms(2), of i] by (simp add: worker_ok_def)
qed (use inv_phase_step [OF assms(2)] inv_worker [OF assms(2)] in \<open>fastforce simp: worker_ok_def\<close>)+

section \<open>Runs end\<close>

fun phase_rank :: "'a phase \<Rightarrow> nat" where
  "phase_rank (Idle xs) = length xs + 5"
| "phase_rank (Checking s xs) = length xs + 4"
| "phase_rank (Growing s xs) = length xs + 3"
| "phase_rank (Ready s xs) = length xs + 2"
| "phase_rank (Copying s k xs) = length xs - k + 1"
| "phase_rank (Returned s xs) = 0"

definition writer_rank :: "'a writer \<Rightarrow> nat" where
  "writer_rank w = sum_list (map phase_rank (workers w))"

lemma rank_update: "i < length ps \<Longrightarrow> phase_rank p < phase_rank (ps ! i) \<Longrightarrow> sum_list (map phase_rank (ps[i := p])) < sum_list (map phase_rank ps)"
proof (induction ps arbitrary: i)
  case (Cons q ps)
  then show ?case by (cases i) auto
qed simp

lemma writer_step_rank: "writer_step w w' \<Longrightarrow> writer_rank w' < writer_rank w"
  by (cases rule: writer_step.cases) (auto simp: writer_rank_def intro!: rank_update)

lemma holds_guard_iff: "holds_guard p \<longleftrightarrow> (\<exists>s k xs. p = Copying s k xs)"
  by (cases p) (auto simp: holds_guard_def)

lemma writer_progress:
  assumes "writer_inv vec batches w" "\<not> all_written w"
  shows "\<exists>w'. writer_step w w'"
proof (cases "\<exists>p \<in> set (workers w). holds_guard p")
  case True
  then obtain i s k xs where i: "i < length (workers w)" "workers w ! i = Copying s k xs"
    by (auto simp: in_set_conv_nth holds_guard_iff)
  then have "k \<le> length xs" using inv_worker [OF assms(1) i(1)] by (simp add: worker_ok_def)
  with i copy [of i w s k xs] release [of i w s k xs] show ?thesis by (cases "k = length xs") auto
next
  case False
  from assms(2) obtain i where i: "i < length (workers w)" "\<forall>s xs. workers w ! i \<noteq> Returned s xs" by (auto simp: all_written_def in_set_conv_nth)
  then have no: "\<not> holds_guard (workers w ! i)" using False by auto
  show ?thesis
  proof (cases "workers w ! i")
    case (Checking s xs)
    with i large_enough [of i w s xs] too_small [of i w s xs] show ?thesis by (cases "s + length xs \<le> length (cells w)") auto
  next
    case (Growing s xs)
    let ?cap = "max (s + length xs) (length (cells w) * 2)"
    show ?thesis
    proof (cases "s + length xs \<le> length (cells w)")
      case True
      with i Growing False grown_meanwhile [of i w s xs] show ?thesis by auto
    next
      case small: False
      with i Growing False grow [of i w s xs ?cap "vec_len w + (?cap - vec_len w)"] show ?thesis by auto
    qed
  qed (use i no reserve [of i w] guard [of i w] in \<open>auto simp: holds_guard_def\<close>)
qed

interpretation writer_run: draining writer_step "\<lambda>w. \<exists>vec batches. writer_inv vec batches w" all_written writer_rank
proof
  fix w w' :: "'a writer"
  assume inv: "\<exists>vec batches. writer_inv vec batches w"
  show "\<exists>vec batches. writer_inv vec batches w'" if "writer_step w w'" using inv that writer_step_inv by blast
  show "writer_rank w' < writer_rank w" if "writer_step w w'" using that by (rule writer_step_rank)
  show "\<exists>w'. writer_step w w'" if "\<not> all_written w" using inv that writer_progress by blast
qed

lemma writer_reach_inv: "writer_step\<^sup>*\<^sup>* w w' \<Longrightarrow> writer_inv vec batches w \<Longrightarrow> writer_inv vec batches w'"
  by (induction rule: rtranclp_induct) (auto intro: writer_step_inv)

section \<open>What is written\<close>

lemma written_slice:
  assumes "worker_ok cs (Returned s xs)"
  shows "take (length xs) (drop s cs) = map Some xs"
  using assms by (intro nth_equalityI) (auto simp: worker_ok_def)

lemma laid_contents:
  "laid ph s is e \<Longrightarrow> \<forall>i \<in> set is. worker_ok cs (ph i) \<and> (\<exists>s xs. ph i = Returned s xs) \<Longrightarrow>
   take (e - s) (drop s cs) = map Some (concat (map (\<lambda>i. phase_items (ph i)) is))"
proof (induction "is" arbitrary: s)
  case (Cons i "is")
  from Cons.prems obtain xs where xs: "ph i = Returned s xs" "worker_ok cs (Returned s xs)" by auto
  let ?m = "s + length xs"
  have "?m \<le> e" using Cons.prems(1) xs(1) laid_le by auto
  then have "take (e - s) (drop s cs) = take (length xs) (drop s cs) @ take (e - ?m) (drop ?m cs)"
    using take_add [of "length xs" "e - ?m" "drop s cs"] by (simp add: add.commute)
  with Cons xs written_slice [OF xs(2)] show ?case by simp
qed simp

lemma writer_finished:
  assumes inv: "writer_inv vec batches w" and "all_written w"
  shows "\<exists>order. mset order = mset [0..<length batches] \<and> writer_finish w = map Some (vec @ concat (map (nth batches) order))"
proof -
  from inv obtain order where o: "in_order_of vec order w" by (auto simp: writer_inv_def)
  have len: "length (workers w) = length batches" using inv by (auto simp: writer_inv_def)
  have items: "phase_items (workers w ! i) = batches ! i" if "i < length batches" for i
    using inv that len unfolding writer_inv_def by (metis nth_map)
  have ret: "\<exists>s xs. workers w ! i = Returned s xs" if "i < length batches" for i using assms(2) that len by (simp add: all_written_def)
  then have set: "set order = {..<length batches}" using o len by (fastforce simp: in_order_of_def)
  have "distinct order" using o by (simp add: in_order_of_def)
  then have "mset order = mset [0..<length batches]" using set by (simp add: set_eq_iff_mset_eq_distinct [symmetric] atLeast0LessThan del: mset_upt)
  moreover have "map (\<lambda>i. phase_items (workers w ! i)) order = map (nth batches) order"
    using inv set len by (auto simp: items)
  moreover have "take (end_len w - length vec) (drop (length vec) (cells w)) = map Some (concat (map (\<lambda>i. phase_items (workers w ! i)) order))"
    using o set ret inv_worker [OF inv] len by (intro laid_contents) (auto simp: in_order_of_def)
  moreover have "length vec \<le> end_len w" using o laid_le by (auto simp: in_order_of_def)
  then have "writer_finish w = take (length vec) (cells w) @ take (end_len w - length vec) (drop (length vec) (cells w))"
    using take_add [of "length vec" "end_len w - length vec" "cells w"] by (simp add: writer_finish_def)
  moreover have "take (length vec) (cells w) = map Some vec" using inv by (simp add: writer_inv_def)
  ultimately show ?thesis by (metis map_append)
qed

section \<open>Properties\<close>

text \<open>
  C11: Parallel appends are safe and lose nothing.  In every interleaving, a worker that copies items
  has its whole range inside the allocation.  When all workers have returned, the vector is the old
  one followed by the slices in some order, each slice in one piece and without a cell left
  unwritten, and every worker has been told where its own slice is.
\<close>

theorem parallel_appends:
  assumes "writer_step\<^sup>*\<^sup>* (writer_new vec spare batches) w"
  shows "(\<forall>i < length (workers w). \<forall>s k xs. workers w ! i = Copying s k xs \<longrightarrow> s + length xs \<le> length (cells w)) \<and>
    (all_written w \<longrightarrow>
       (\<exists>order. mset order = mset [0..<length batches] \<and> writer_finish w = map Some (vec @ concat (map (nth batches) order))) \<and>
       (\<forall>i < length batches. \<exists>s. workers w ! i = Returned s (batches ! i) \<and> take (length (batches ! i)) (drop s (cells w)) = map Some (batches ! i)))"
proof -
  have inv: "writer_inv vec batches w" using writer_reach_inv [OF assms writer_inv_new] .
  have "s + length xs \<le> length (cells w)" if "i < length (workers w)" "workers w ! i = Copying s k xs" for i s k xs
    using inv_worker [OF inv that(1)] that(2) by (simp add: worker_ok_def)
  moreover have "\<exists>s. workers w ! i = Returned s (batches ! i) \<and> take (length (batches ! i)) (drop s (cells w)) = map Some (batches ! i)"
    if fin: "all_written w" and lt: "i < length batches" for i
  proof -
    have i: "i < length (workers w)" "phase_items (workers w ! i) = batches ! i" using inv lt by (auto simp: writer_inv_def)
    obtain s xs where "workers w ! i = Returned s xs" using fin nth_mem [OF i(1)] unfolding all_written_def by blast
    with i(2) have "workers w ! i = Returned s (batches ! i)" by simp
    with written_slice [of "cells w" s "batches ! i"] inv_worker [OF inv i(1)] show ?thesis by auto
  qed
  ultimately show ?thesis using writer_finished [OF inv] by blast
qed

theorem parallel_appends_witness:
  "\<exists>w. writer_step\<^sup>*\<^sup>* (writer_new [7 :: nat] 0 [[8], [9]]) w \<and> all_written w \<and>
     (writer_finish w = map Some [7, 8, 9] \<or> writer_finish w = map Some [7, 9, 8])"
proof -
  obtain w where w: "writer_step\<^sup>*\<^sup>* (writer_new [7 :: nat] 0 [[8], [9]]) w" "all_written w"
    using writer_run.drains writer_inv_new by blast
  from parallel_appends [OF w(1)] w(2) obtain order where o: "mset order = mset [0..<length [[8 :: nat], [9]]]"
    "writer_finish w = map Some ([7] @ concat (map (nth [[8], [9]]) order))" by blast
  have "order = [0, 1] \<or> order = [1, 0]"
  proof -
    have "length order = 2" using mset_eq_length [OF o(1)] by simp
    then obtain a b where ab: "order = [a, b]" by (auto simp: length_Suc_conv numeral_2_eq_2)
    with o(1) have "{#a, b#} = {#0, 1#}" by (simp add: upt_rec)
    then show ?thesis using ab by (auto simp: add_eq_conv_ex)
  qed
  with o(2) w show ?thesis by auto
qed

text \<open>
  C24: Parallel appends end.  From every state of a run, whatever the workers have done so far, the run
  can go on to a state where all workers have returned (no worker waits forever for the lock), and
  every run takes at most as many steps as the rank of its state.
\<close>

theorem parallel_appends_end:
  assumes "writer_step\<^sup>*\<^sup>* (writer_new vec spare batches) w"
  shows "(\<exists>w'. writer_step\<^sup>*\<^sup>* w w' \<and> all_written w') \<and> (\<forall>n w'. (writer_step ^^ n) w w' \<longrightarrow> n \<le> writer_rank w)"
proof -
  have inv: "\<exists>vec batches. writer_inv vec batches w" using writer_reach_inv [OF assms writer_inv_new] by blast
  show ?thesis using writer_run.drains [OF inv] writer_run.bounded_runs [OF _ inv] by (meson add_leD1)
qed

theorem parallel_appends_end_witness:
  "\<exists>w. writer_step\<^sup>*\<^sup>* (writer_new [7 :: nat] 0 [[8], [9, 10]]) w \<and> all_written w"
  using parallel_appends_end [OF rtranclp.rtrancl_refl] by blast

end
