(* ===== verification/FlatTable.thy ===== *)
theory FlatTable
  imports TableSpec ParallelWriter
begin

text \<open>
  The append-only table of \<open>egglog/core-relations/src/flat_table.rs\<close>: buffers that submit batches of
  rows to a queue when they are dropped, a merge that appends the batches through the parallel
  writer, scans, refinement, and the isolation of live buffers by \<open>clear\<close>.

  The queue is shared by reference, so it has an identity: a buffer remembers the queue it was made
  for, and \<open>clear\<close> installs a new one, whose identity is an argument of the model.
\<close>

section \<open>Model\<close>

record flat_buffer =
  fb_rows :: "row_buffer option"
  fb_queue :: nat

record flat_table =
  ft_generation :: nat
  ft_rows :: row_buffer
  ft_queue :: nat
  ft_pending :: "row_buffer list"

definition ft_stage_insert :: "flat_buffer \<Rightarrow> row \<Rightarrow> flat_buffer result" where
  "ft_stage_insert fb r =
     and_then (ok_or (fb_rows fb) UnwrapNone) (\<lambda>b.
       if length r \<noteq> buf_arity b then Err AssertFailed
       else and_then (vec_get r 0) (\<lambda>v.
         if is_stale v then Err AssertFailed
         else and_then (buf_add_row b r) (\<lambda>(_, b). Ok (fb\<lparr>fb_rows := Some b\<rparr>))))"

definition ft_stage_remove :: "flat_buffer \<Rightarrow> val list \<Rightarrow> flat_buffer result" where
  "ft_stage_remove fb key = Err ExplicitPanic"

definition ft_fresh_handle :: "flat_buffer \<Rightarrow> flat_buffer result" where
  "ft_fresh_handle fb =
     and_then (ok_or (fb_rows fb) UnwrapNone) (\<lambda>b.
     and_then (buf_new (buf_arity b)) (\<lambda>b. Ok \<lparr>fb_rows = Some b, fb_queue = fb_queue fb\<rparr>))"

text \<open>The queue of the buffer is alive only while the table refers to it.\<close>

definition ft_drop :: "flat_buffer \<Rightarrow> flat_table \<Rightarrow> flat_table" where
  "ft_drop fb t =
     (case fb_rows fb of
        None \<Rightarrow> t
      | Some b \<Rightarrow>
          if buf_len b > 0 \<and> fb_queue fb = ft_queue t then t\<lparr>ft_pending := ft_pending t @ [b]\<rparr> else t)"

definition ft_new :: "nat \<Rightarrow> nat \<Rightarrow> flat_table result" where
  "ft_new q n = and_then (buf_new n) (\<lambda>b. Ok \<lparr>ft_generation = 0, ft_rows = b, ft_queue = q, ft_pending = []\<rparr>)"

definition ft_clone :: "nat \<Rightarrow> flat_table \<Rightarrow> flat_table" where
  "ft_clone q t = \<lparr>ft_generation = ft_generation t, ft_rows = ft_rows t, ft_queue = q, ft_pending = []\<rparr>"

definition ft_matches :: "row \<Rightarrow> constrnt \<Rightarrow> bool result" where
  "ft_matches r c =
     (case c of
        CEq a b \<Rightarrow> and_then (vec_get r a) (\<lambda>x. and_then (vec_get r b) (\<lambda>y. Ok (x = y)))
      | CEqConst col v \<Rightarrow> and_then (vec_get r col) (\<lambda>x. Ok (x = v))
      | CLtConst col v \<Rightarrow> and_then (vec_get r col) (\<lambda>x. Ok (x < v))
      | CGtConst col v \<Rightarrow> and_then (vec_get r col) (\<lambda>x. Ok (x > v))
      | CLeConst col v \<Rightarrow> and_then (vec_get r col) (\<lambda>x. Ok (x \<le> v))
      | CGeConst col v \<Rightarrow> and_then (vec_get r col) (\<lambda>x. Ok (x \<ge> v)))"

definition ft_next_row :: "flat_table \<Rightarrow> nat result" where
  "ft_next_row t = from_usize_u32 (buf_len (ft_rows t))"

definition ft_clear :: "nat \<Rightarrow> flat_table \<Rightarrow> flat_table" where
  "ft_clear q t =
     (let t = t\<lparr>ft_queue := q, ft_pending := []\<rparr> in
      if buf_len (ft_rows t) > 0
      then t\<lparr>ft_rows := buf_clear (ft_rows t), ft_generation := ft_generation t + 1\<rparr>
      else t)"

definition ft_all :: "flat_table \<Rightarrow> subset result" where
  "ft_all t = and_then (ft_next_row t) (\<lambda>e. Ok (Dense (range_new 0 e)))"

definition ft_len :: "flat_table \<Rightarrow> nat" where
  "ft_len t = buf_len (ft_rows t)"

definition ft_version :: "flat_table \<Rightarrow> nat \<times> nat" where
  "ft_version t = (ft_generation t, buf_len (ft_rows t))"

definition ft_updates_since :: "flat_table \<Rightarrow> nat \<Rightarrow> subset result" where
  "ft_updates_since t off =
     (if \<not> off \<le> buf_len (ft_rows t) then Err AssertFailed
      else and_then (from_usize_u32 off) (\<lambda>s. and_then (ft_next_row t) (\<lambda>e. Ok (Dense (range_new s e)))))"

definition ft_has_stale_rows :: "flat_table \<Rightarrow> bool" where
  "ft_has_stale_rows t = False"

fun ft_matches_all :: "row \<Rightarrow> constrnt list \<Rightarrow> bool result" where
  "ft_matches_all r [] = Ok True"
| "ft_matches_all r (c # cs) = and_then (ft_matches r c) (\<lambda>b. if b then ft_matches_all r cs else Ok False)"

text \<open>The rows a scan emits.\<close>

fun ft_visit :: "flat_table \<Rightarrow> constrnt list \<Rightarrow> nat list \<Rightarrow> (nat \<times> row) list result" where
  "ft_visit t cs [] = Ok []"
| "ft_visit t cs (i # is) =
     and_then (buf_get_row (ft_rows t) i) (\<lambda>r.
     and_then (ft_matches_all r cs) (\<lambda>b.
     and_then (ft_visit t cs is) (\<lambda>out. Ok (if b then (i, r) # out else out))))"

definition ft_scan :: "flat_table \<Rightarrow> subset \<Rightarrow> nat \<Rightarrow> nat \<Rightarrow> constrnt list \<Rightarrow> ((nat \<times> row) list \<times> nat option) result" where
  "ft_scan t s st n cs =
     and_then (bounds s) (\<lambda>b.
       case b of
         None \<Rightarrow> Ok ([], None)
       | Some (_, high) \<Rightarrow>
           if \<not> high \<le> buf_len (ft_rows t) then Err AssertFailed
           else and_then (iter_bounded s st (st + n)) (\<lambda>(vis, nxt).
                and_then (ft_visit t cs vis) (\<lambda>out. Ok (out, nxt))))"

definition ft_row_matches :: "flat_table \<Rightarrow> constrnt \<Rightarrow> nat \<Rightarrow> bool result" where
  "ft_row_matches t c i = and_then (buf_get_row (ft_rows t) i) (\<lambda>r. ft_matches r c)"

definition ft_refine_one :: "flat_table \<Rightarrow> subset \<Rightarrow> constrnt \<Rightarrow> subset comp" where
  "ft_refine_one t s c =
     Some (and_then (map_result (ft_row_matches t c) (rows s)) (\<lambda>_. retain s (\<lambda>i. ft_row_matches t c i = Ok True)))"

definition ft_get_row :: "flat_table \<Rightarrow> val list \<Rightarrow> (nat \<times> row) option result" where
  "ft_get_row t key = Err ExplicitPanic"

definition ft_new_buffer :: "flat_table \<Rightarrow> flat_buffer result" where
  "ft_new_buffer t = and_then (buf_new (buf_arity (ft_rows t))) (\<lambda>b. Ok \<lparr>fb_rows = Some b, fb_queue = ft_queue t\<rparr>)"

text \<open>
  The outcomes of \<open>merge\<close>: every interleaving of the workers that append the batches, for every spare
  capacity the vector has.  The overflow checks on \<open>usize\<close> cannot fail before the row id does.
\<close>

definition ft_final_len :: "flat_table \<Rightarrow> nat" where
  "ft_final_len t = buf_len (ft_rows t) + sum_list (map buf_len (ft_pending t))"

inductive ft_merge :: "flat_table \<Rightarrow> (bool \<times> flat_table) result \<Rightarrow> bool" where
  merge_nothing: "ft_pending t = [] \<Longrightarrow> ft_merge t (Ok (False, t))"
| merge_overflow: "ft_pending t \<noteq> [] \<Longrightarrow> from_usize_u32 (ft_final_len t) = Err e \<Longrightarrow> ft_merge t (Err e)"
| merge_wrong_arity: "from_usize_u32 (ft_final_len t) = Ok n \<Longrightarrow> b \<in> set (ft_pending t) \<Longrightarrow> buf_arity b \<noteq> buf_arity (ft_rows t) \<Longrightarrow>
    ft_merge t (Err AssertFailed)"
| merge_appends: "ft_pending t \<noteq> [] \<Longrightarrow> from_usize_u32 (ft_final_len t) = Ok n \<Longrightarrow>
    \<forall>b \<in> set (ft_pending t). buf_arity b = buf_arity (ft_rows t) \<Longrightarrow>
    writer_step\<^sup>*\<^sup>* (writer_new (buf_data (ft_rows t)) spare (map buf_data (ft_pending t))) w \<Longrightarrow> all_written w \<Longrightarrow>
    writer_finish w = map Some vals \<Longrightarrow>
    ft_merge t (Ok (sum_list (map buf_len (ft_pending t)) > 0,
      t\<lparr>ft_rows := (ft_rows t)\<lparr>buf_data := vals, total_rows := length vals div n_columns (ft_rows t)\<rparr>, ft_pending := []\<rparr>))"

section \<open>The invariant\<close>

definition live_rows :: "nat \<Rightarrow> row_buffer \<Rightarrow> bool" where
  "live_rows n b \<longleftrightarrow> buf_wf b \<and> n_columns b = n \<and> (\<forall>r \<in> set (buf_rows b). r ! 0 < stale)"

definition ft_wf :: "flat_table \<Rightarrow> bool" where
  "ft_wf t \<longleftrightarrow> live_rows (n_columns (ft_rows t)) (ft_rows t) \<and> ft_len t \<le> u32_max \<and>
     (\<forall>b \<in> set (ft_pending t). live_rows (n_columns (ft_rows t)) b \<and> buf_len b > 0)"

abbreviation ft_row :: "flat_table \<Rightarrow> nat \<Rightarrow> row" where
  "ft_row t i \<equiv> buf_rows (ft_rows t) ! i"

lemma ft_len_rows: "ft_wf t \<Longrightarrow> length (buf_rows (ft_rows t)) = ft_len t"
  by (simp add: ft_wf_def live_rows_def ft_len_def buf_len_def buf_wf_def holds_def)

lemma ft_row_read: "ft_wf t \<Longrightarrow> i < ft_len t \<Longrightarrow> buf_get_row (ft_rows t) i = Ok (ft_row t i)"
  using get_row_holds [of "ft_rows t" "buf_rows (ft_rows t)" i] ft_len_rows [of t] by (simp add: ft_wf_def live_rows_def buf_wf_def)

lemma ft_row_length: "ft_wf t \<Longrightarrow> i < ft_len t \<Longrightarrow> length (ft_row t i) = n_columns (ft_rows t)"
  using ft_len_rows [of t] by (auto simp: ft_wf_def live_rows_def intro: buf_wf_lengths)

lemma ft_matches_satisfies: "on_columns (length r) c \<Longrightarrow> ft_matches r c = Ok (satisfies r c)"
  by (cases c) (auto simp: ft_matches_def on_columns_def satisfies_def)

lemma ft_row_matches_ok:
  "ft_wf t \<Longrightarrow> i < ft_len t \<Longrightarrow> on_columns (n_columns (ft_rows t)) c \<Longrightarrow> ft_row_matches t c i = Ok (satisfies (ft_row t i) c)"
  by (simp add: ft_row_matches_def ft_row_read ft_matches_satisfies ft_row_length)

lemma ft_refine_rows:
  assumes "ft_wf t" "subset_wf s" "\<forall>i \<in> set (rows s). i < ft_len t" "on_columns (n_columns (ft_rows t)) c"
  shows "\<exists>s'. ft_refine_one t s c = Some (Ok s') \<and> subset_wf s' \<and> rows s' = filter (\<lambda>i. satisfies (ft_row t i) c) (rows s)"
proof -
  obtain s' where s': "retain s (\<lambda>i. ft_row_matches t c i = Ok True) = Ok s'" "subset_wf s'"
    "rows s' = filter (\<lambda>i. ft_row_matches t c i = Ok True) (rows s)"
    using retain_filters [OF assms(2)] by blast
  have "rows s' = filter (\<lambda>i. satisfies (ft_row t i) c) (rows s)"
    unfolding s'(3) using assms by (intro filter_cong) (auto simp: ft_row_matches_ok)
  moreover have "map_result (ft_row_matches t c) (rows s) = Ok (map (\<lambda>i. satisfies (ft_row t i) c) (rows s))"
    using assms by (intro map_result_Ok) (auto simp: ft_row_matches_ok)
  ultimately show ?thesis using s' by (simp add: ft_refine_one_def)
qed

text \<open>The flat table has no fast subsets.\<close>

interpretation flat_view: table_view ft_wf ft_len "\<lambda>t. n_columns (ft_rows t)" "\<lambda>_ _. True" ft_row ft_all ft_refine_one "\<lambda>_ _. Ok None"
proof
  fix t s c
  assume wf: "ft_wf t"
  show "0 < n_columns (ft_rows t)" using wf buf_wf_lengths(2) by (auto simp: ft_wf_def live_rows_def)
  show "\<exists>s. ft_all t = Ok s \<and> subset_wf s \<and> rows s = [0..<ft_len t]"
    using wf by (simp add: ft_all_def ft_next_row_def ft_wf_def ft_len_def range_new_def)
  show "\<exists>s'. ft_refine_one t s c = Some (Ok s') \<and> subset_wf s' \<and> rows s' = filter (\<lambda>i. True \<and> satisfies (ft_row t i) c) (rows s)"
    if "subset_wf s" "\<forall>i \<in> set (rows s). i < ft_len t" "on_columns (n_columns (ft_rows t)) c"
    using ft_refine_rows [OF wf that] by simp
qed simp_all

section \<open>Merging\<close>

lemma buf_data_rows: "buf_wf b \<Longrightarrow> buf_data b = concat (buf_rows b)"
  by (simp add: buf_wf_def holds_def)

lemma live_rows_len: "live_rows n b \<Longrightarrow> length (buf_rows b) = buf_len b"
  by (simp add: live_rows_def buf_wf_def holds_def buf_len_def)

lemma live_rows_append:
  assumes "live_rows n b" "\<forall>c \<in> set cs. live_rows n c"
  defines "new \<equiv> b\<lparr>buf_data := buf_data b @ concat (map buf_data cs), total_rows := length (buf_data b @ concat (map buf_data cs)) div n\<rparr>"
  shows "live_rows n new" "buf_rows new = buf_rows b @ concat (map buf_rows cs)"
proof -
  let ?rs = "buf_rows b @ concat (map buf_rows cs)"
  have n: "0 < n" using assms(1) buf_wf_lengths(2) by (auto simp: live_rows_def)
  have rl: "\<forall>r \<in> set ?rs. length r = n \<and> r ! 0 < stale"
    using assms(1,2) buf_wf_lengths(1) by (fastforce simp: live_rows_def)
  have "concat (map buf_data cs) = concat (concat (map buf_rows cs))"
    using assms(2) by (induction cs) (auto simp: live_rows_def buf_data_rows)
  then have vals: "buf_data b @ concat (map buf_data cs) = concat ?rs" using assms(1) by (simp add: live_rows_def buf_data_rows)
  have "length (concat ?rs) = length ?rs * n" using rl by (intro length_concat_uniform) simp
  then have "length (concat ?rs) div n = length ?rs" using n by simp
  then have "holds new ?rs" using assms(1) rl n unfolding new_def vals by (simp add: holds_def live_rows_def)
  then show rows: "buf_rows new = ?rs" and "live_rows n new" using rl assms(1) by (auto simp: holds_wf live_rows_def new_def)
qed

lemma reordered_batches:
  assumes "mset is = mset [0..<length bs]"
  shows "mset (map (nth bs) is) = mset bs" "set (map (nth bs) is) = set bs"
proof -
  have "mset (map (nth bs) is) = image_mset (nth bs) (mset [0..<length bs])" by (simp only: assms mset_map)
  also have "\<dots> = mset (map (nth bs) [0..<length bs])" by (simp only: mset_map)
  finally show m: "mset (map (nth bs) is) = mset bs" by (simp only: map_nth)
  from arg_cong [OF m, of set_mset] show "set (map (nth bs) is) = set bs" by simp
qed

lemma ft_merge_writes:
  assumes wf: "ft_wf t" and run: "writer_step\<^sup>*\<^sup>* (writer_new (buf_data (ft_rows t)) spare (map buf_data (ft_pending t))) w" "all_written w"
  shows "\<exists>order. mset order = mset (ft_pending t) \<and> set order = set (ft_pending t) \<and> writer_finish w = map Some (buf_data (ft_rows t) @ concat (map buf_data order))"
proof -
  from writer_finished [OF writer_reach_inv [OF run(1) writer_inv_new] run(2)] obtain "is" where
    i: "mset is = mset [0..<length (ft_pending t)]" "writer_finish w = map Some (buf_data (ft_rows t) @ concat (map (nth (map buf_data (ft_pending t))) is))"
    by auto
  have "set is = set [0..<length (ft_pending t)]" using arg_cong [OF i(1), of set_mset] by simp
  then have "map (nth (map buf_data (ft_pending t))) is = map buf_data (map (nth (ft_pending t)) is)" by auto
  with i reordered_batches [OF i(1)] show ?thesis by metis
qed

section \<open>Properties\<close>

text \<open>
  C26: Merging a flat table.  While the ids last, a merge returns, and no outcome is a panic.  In every
  interleaving of the appending workers the table keeps its rows where they are and gets the rows of
  all staged batches behind them, each batch in one piece and in its order; the change flag says
  whether there were any, the queue is empty, and \<open>updates_since\<close> the old version is exactly the
  range of the new rows.
\<close>

theorem flat_merge_appends:
  assumes "ft_wf t" "ft_final_len t \<le> u32_max"
  shows "(\<exists>out. ft_merge t out) \<and> (\<forall>out. ft_merge t out \<longrightarrow> (\<exists>added t' order. out = Ok (added, t') \<and>
    mset order = mset (ft_pending t) \<and> buf_rows (ft_rows t') = buf_rows (ft_rows t) @ concat (map buf_rows order) \<and>
    ft_wf t' \<and> ft_pending t' = [] \<and> (added \<longleftrightarrow> ft_pending t \<noteq> []) \<and>
    ft_updates_since t' (snd (ft_version t)) = Ok (Dense (range_new (ft_len t) (ft_len t')))))"
proof (intro conjI allI impI)
  note arity = assms(1) [unfolded ft_wf_def live_rows_def]
  show "\<exists>out. ft_merge t out"
  proof (cases "ft_pending t = []")
    case False
    obtain w where w: "writer_step\<^sup>*\<^sup>* (writer_new (buf_data (ft_rows t)) 0 (map buf_data (ft_pending t))) w" "all_written w"
      using writer_run.drains writer_inv_new by blast
    obtain vals where "writer_finish w = map Some vals" using ft_merge_writes [OF assms(1) w] by blast
    from merge_appends [OF False from_usize_u32_ok [OF assms(2)] _ w this] arity show ?thesis
      unfolding buf_arity_def by blast
  qed (auto intro: merge_nothing)
  fix out assume "ft_merge t out"
  then show "\<exists>added t' order. out = Ok (added, t') \<and> mset order = mset (ft_pending t) \<and>
    buf_rows (ft_rows t') = buf_rows (ft_rows t) @ concat (map buf_rows order) \<and> ft_wf t' \<and> ft_pending t' = [] \<and>
    (added \<longleftrightarrow> ft_pending t \<noteq> []) \<and> ft_updates_since t' (snd (ft_version t)) = Ok (Dense (range_new (ft_len t) (ft_len t')))"
  proof cases
    case merge_nothing
    with assms(1) show ?thesis by (auto simp: ft_updates_since_def ft_version_def ft_next_row_def ft_len_def ft_wf_def)
  next
    case (merge_appends n spare w vals)
    from ft_merge_writes [OF assms(1) merge_appends(5,6)] obtain order where
      o: "mset order = mset (ft_pending t)" "set order = set (ft_pending t)" "writer_finish w = map Some (buf_data (ft_rows t) @ concat (map buf_data order))" by blast
    with merge_appends(7) have vals: "vals = buf_data (ft_rows t) @ concat (map buf_data order)" by (metis inj_map_eq_map inj_Some)
    let ?b = "(ft_rows t)\<lparr>buf_data := vals, total_rows := length vals div n_columns (ft_rows t)\<rparr>"
    let ?t = "t\<lparr>ft_rows := ?b, ft_pending := []\<rparr>"
    have app: "live_rows (n_columns (ft_rows t)) ?b" "buf_rows ?b = buf_rows (ft_rows t) @ concat (map buf_rows order)"
      using live_rows_append [of "n_columns (ft_rows t)" "ft_rows t" order] assms(1) o(2) unfolding vals ft_wf_def by simp_all
    have lens: "length (buf_rows c) = buf_len c" if "c \<in> set (ft_pending t)" for c
      using assms(1) that live_rows_len by (auto simp: ft_wf_def)
    have "length (concat (map buf_rows order)) = sum_list (map buf_len order)"
      using lens o(2) by (simp add: length_concat) (metis (no_types, lifting) map_eq_conv comp_apply)
    also have "\<dots> = sum_list (map buf_len (ft_pending t))" using o(1) by (metis mset_map sum_mset_sum_list)
    finally have more_rows: "length (concat (map buf_rows order)) = sum_list (map buf_len (ft_pending t))" .
    have "ft_len ?t = length (buf_rows ?b)" using live_rows_len [OF app(1)] by (simp add: ft_len_def)
    also have "\<dots> = ft_final_len t" unfolding app(2) using more_rows ft_len_rows [OF assms(1)] by (simp add: ft_len_def ft_final_len_def)
    finally have len: "ft_len ?t = ft_final_len t" .
    have wf: "ft_wf ?t" using app(1) len assms(2) by (simp add: ft_wf_def)
    have pos: "0 < sum_list (map buf_len (ft_pending t))"
      using assms(1) merge_appends(2) by (cases "ft_pending t") (auto simp: ft_wf_def)
    have "ft_updates_since ?t (snd (ft_version t)) = Ok (Dense (range_new (ft_len t) (ft_len ?t)))"
      using len assms(1,2) by (auto simp: ft_updates_since_def ft_version_def ft_next_row_def ft_len_def ft_final_len_def ft_wf_def)
    with merge_appends(1,2) o(1) app(2) wf pos show ?thesis by (intro exI [of _ True] exI [of _ ?t] exI [of _ order]) auto
  qed (use assms(2) arity in \<open>auto simp: from_usize_u32_def buf_arity_def\<close>)
qed

definition flat_pending :: flat_table where
  "flat_pending = \<lparr>ft_generation = 0, ft_rows = two_rows, ft_queue = 0,
     ft_pending = [\<lparr>n_columns = 2, total_rows = 1, buf_data = [5, 6]\<rparr>]\<rparr>"

lemma flat_pending_wf: "ft_wf flat_pending" "ft_final_len flat_pending = 3"
  using two_rows_wf
  by (auto simp: ft_wf_def live_rows_def flat_pending_def ft_len_def ft_final_len_def buf_len_def two_rows_def buf_wf_def holds_def
      buf_rows_def slice_chunks.simps stale_def u32_max_def)

theorem flat_merge_appends_witness:
  "\<exists>t'. ft_merge flat_pending (Ok (True, t')) \<and> buf_rows (ft_rows t') = [[1, 2], [3, 4], [5, 6]]"
proof -
  have "ft_final_len flat_pending \<le> u32_max" using flat_pending_wf(2) by (simp add: u32_max_def)
  from flat_merge_appends [OF flat_pending_wf(1) this] obtain t' order where
    m: "ft_merge flat_pending (Ok (True, t'))" "mset order = mset (ft_pending flat_pending)"
    "buf_rows (ft_rows t') = buf_rows (ft_rows flat_pending) @ concat (map buf_rows order)"
    by (fastforce simp: flat_pending_def)
  from m(2) have "order = ft_pending flat_pending" by (simp add: flat_pending_def)
  moreover have "concat (map buf_rows (ft_pending flat_pending)) = [[5, 6]]" by (simp add: flat_pending_def buf_rows_def slice_chunks.simps)
  moreover have "buf_rows (ft_rows flat_pending) = [[1, 2], [3, 4]]" using two_rows_wf(2) by (simp add: flat_pending_def)
  ultimately show ?thesis using m(1,3) by auto
qed

text \<open>
  Clearing a flat table.  The table is empty and keeps no staged batch, the generation changes if
  and only if there were rows, and a buffer made before the clear has no effect when it is dropped
  later, while a buffer made after it has.
\<close>

theorem flat_clear_isolates:
  assumes "ft_wf t" "q \<noteq> ft_queue t" "fb_queue old = ft_queue t"
  shows "ft_wf (ft_clear q t) \<and> ft_len (ft_clear q t) = 0 \<and> ft_pending (ft_clear q t) = [] \<and>
    ft_version (ft_clear q t) = (if ft_len t = 0 then ft_version t else (ft_generation t + 1, 0)) \<and>
    ft_drop old (ft_clear q t) = ft_clear q t \<and>
    (\<exists>fb. ft_new_buffer (ft_clear q t) = Ok fb \<and> (\<forall>b. buf_len b > 0 \<longrightarrow> ft_pending (ft_drop (fb\<lparr>fb_rows := Some b\<rparr>) (ft_clear q t)) = [b]))"
proof -
  have wf: "buf_wf (ft_rows t)" "0 < n_columns (ft_rows t)" "\<forall>r \<in> set (buf_rows (ft_rows t)). r ! 0 < stale"
    using assms(1) buf_wf_lengths(2) by (auto simp: ft_wf_def live_rows_def)
  have empty: "buf_wf (buf_clear (ft_rows t))" "buf_rows (buf_clear (ft_rows t)) = []"
    using wf(2) by (simp_all add: buf_wf_def holds_def buf_rows_def buf_clear_def slice_chunks.simps)
  have "n_columns (buf_clear (ft_rows t)) = n_columns (ft_rows t)" "buf_len (buf_clear (ft_rows t)) = 0" by (simp_all add: buf_clear_def buf_len_def)
  with assms wf empty show ?thesis
    by (cases "fb_rows old")
      (auto simp: ft_clear_def ft_wf_def live_rows_def ft_len_def ft_version_def ft_drop_def ft_new_buffer_def buf_new_def buf_arity_def Let_def)
qed

theorem flat_clear_isolates_witness:
  "ft_drop \<lparr>fb_rows = Some two_rows, fb_queue = 0\<rparr> (ft_clear 1 flat_pending) = ft_clear 1 flat_pending \<and> ft_len (ft_clear 1 flat_pending) = 0"
  using flat_clear_isolates [OF flat_pending_wf(1), of 1 "\<lparr>fb_rows = Some two_rows, fb_queue = 0\<rparr>"] by (simp add: flat_pending_def)

section \<open>Scans\<close>

lemma ft_matches_all_ok:
  "\<forall>c \<in> set cs. on_columns (length r) c \<Longrightarrow> ft_matches_all r cs = Ok (\<forall>c \<in> set cs. satisfies r c)"
  by (induction cs) (auto simp: ft_matches_satisfies)

lemma ft_visit_ok:
  "ft_wf t \<Longrightarrow> \<forall>i \<in> set is. i < ft_len t \<Longrightarrow> \<forall>c \<in> set cs. on_columns (n_columns (ft_rows t)) c \<Longrightarrow>
   ft_visit t cs is = Ok (map (\<lambda>i. (i, ft_row t i)) (filter (\<lambda>i. \<forall>c \<in> set cs. satisfies (ft_row t i) c) is))"
  by (induction "is") (auto simp: ft_row_read ft_matches_all_ok ft_row_length)

text \<open>
  Scanning a flat table.  A scan of a subset inside the table emits exactly the rows of the
  subset that satisfy all constraints, in order, and stops; \<open>contains_match\<close> is true if and only if
  the scan emits a row.
\<close>

theorem flat_scan_exact:
  assumes "ft_wf t" "subset_wf s" "\<forall>i \<in> set (rows s). i < ft_len t" "rows s \<noteq> []" "\<forall>c \<in> set cs. on_columns (n_columns (ft_rows t)) c"
  shows "\<exists>out. ft_scan t s 0 (length (rows s)) cs = Ok (out, None) \<and>
    out = map (\<lambda>i. (i, ft_row t i)) (filter (\<lambda>i. \<forall>c \<in> set cs. satisfies (ft_row t i) c) (rows s)) \<and>
    tbl_contains_match (ft_refine_one t) s cs = Some (Ok (out \<noteq> []))"
proof -
  let ?out = "map (\<lambda>i. (i, ft_row t i)) (filter (\<lambda>i. \<forall>c \<in> set cs. satisfies (ft_row t i) c) (rows s))"
  have "\<exists>lo hi. bounds s = Ok (Some (lo, hi)) \<and> hi \<le> ft_len t" by (rule bounds_within [OF assms(2,3,4)])
  moreover have "iter_bounded s 0 (length (rows s)) = Ok (rows s, None)" using iter_bounded_ok [OF assms(2), of 0 "length (rows s)"] by simp
  ultimately have "ft_scan t s 0 (length (rows s)) cs = Ok (?out, None)"
    using ft_visit_ok [OF assms(1,3,5)] by (auto simp: ft_scan_def ft_len_def)
  moreover have "\<forall>i \<in> set (rows s). ft_row t i ! 0 < stale"
    using assms(1,3) ft_len_rows [OF assms(1)] by (auto simp: ft_wf_def live_rows_def)
  then have "tbl_contains_match (ft_refine_one t) s cs = Some (Ok (?out \<noteq> []))"
    using flat_view.contains_match_ok [OF assms(1,5,2,3)] by (auto simp: filter_empty_conv)
  ultimately show ?thesis by blast
qed

theorem flat_scan_exact_witness:
  "ft_scan flat_pending (Sparse [0, 1]) 0 2 [CGtConst 0 1] = Ok ([(1, [3, 4])], None)"
proof -
  have "subset_wf (Sparse [0, 1])" "\<forall>i \<in> set (rows (Sparse [0, 1])). i < ft_len flat_pending" "rows (Sparse [0, 1]) \<noteq> []"
    "\<forall>c \<in> set [CGtConst 0 1]. on_columns (n_columns (ft_rows flat_pending)) c"
    by (auto simp: u32_max_def ft_len_def flat_pending_def two_rows_def buf_len_def on_columns_def)
  from flat_scan_exact [OF flat_pending_wf(1) this] show ?thesis
    using two_rows_wf(2) by (simp add: satisfies_def flat_pending_def numeral_2_eq_2)
qed

end
