(* ===== verification/AddTable.thy ===== *)
theory AddTable
  imports MergeSafety SortedMerge FlatTable
begin

text \<open>
  How \<open>egglog/egglog-bridge/src/lib.rs\<close> makes the table of a new function: the checks on its
  configuration, the layout of its rows, the tables that its merge depends on, and the table itself with
  its compiled merge.  The rules that rebuild a table are not modelled.
\<close>

section \<open>Model\<close>

datatype column_ty = CId | CBase nat

datatype default_val = FreshId | FailLookup | ConstDefault val

datatype table_storage = SortedStorage | FlatStorage

datatype table_kind = FunctionTable | ConstructorTable

record read_projection =
  rp_kind :: table_kind
  rp_input :: nat
  rp_output :: nat

record function_config =
  fc_schema :: "column_ty list"
  fc_n_vals :: nat
  fc_n_identity_vals :: "nat option"
  fc_default :: default_val
  fc_merge :: merge_fn
  fc_name :: string
  fc_can_subsume :: bool

definition require :: "bool \<Rightarrow> unit result" where
  "require b = (if b then Ok () else Err AssertFailed)"

text \<open>The assertions in front of the layout.\<close>

definition check_config :: "function_config \<Rightarrow> table_storage \<Rightarrow> unit result" where
  "check_config cfg storage =
     (let columns = length (fc_schema cfg); vals = fc_n_vals cfg in
      and_then (require (fc_schema cfg \<noteq> [])) (\<lambda>_.
      and_then (require (1 \<le> vals \<and> vals \<le> columns)) (\<lambda>_.
      and_then (case fc_n_identity_vals cfg of None \<Rightarrow> Ok () | Some k \<Rightarrow> require (1 \<le> k \<and> k \<le> vals)) (\<lambda>_.
      and_then (if storage = FlatStorage
                then require (vals = 1 \<and> fc_n_identity_vals cfg = None \<and> fc_default cfg = FailLookup \<and> fc_merge cfg = MAssertEq \<and> \<not> fc_can_subsume cfg)
                else Ok ()) (\<lambda>_.
        check_cols vals (fc_merge cfg))))))"

definition rebuild_columns :: "column_ty list \<Rightarrow> nat list" where
  "rebuild_columns schema = map fst (filter (\<lambda>(i, ty). ty = CId) (zip [0..<length schema] schema))"

definition default_kind :: "default_val \<Rightarrow> table_kind" where
  "default_kind d = (case d of FreshId \<Rightarrow> ConstructorTable | _ \<Rightarrow> FunctionTable)"

definition config_keys :: "function_config \<Rightarrow> nat" where
  "config_keys cfg = length (fc_schema cfg) - fc_n_vals cfg"

definition config_projection :: "function_config \<Rightarrow> read_projection option \<Rightarrow> read_projection" where
  "config_projection cfg proj =
     (case proj of Some p \<Rightarrow> p
      | None \<Rightarrow> \<lparr>rp_kind = default_kind (fc_default cfg), rp_input = config_keys cfg, rp_output = fc_n_vals cfg\<rparr>)"

definition projection_fits :: "nat \<Rightarrow> read_projection \<Rightarrow> bool" where
  "projection_fits columns p \<longleftrightarrow>
     rp_output p > 0 \<and> rp_input p + rp_output p \<le> columns \<and> (rp_kind p \<noteq> ConstructorTable \<or> rp_output p = 1)"

definition config_math :: "function_config \<Rightarrow> schema_math" where
  "config_math cfg =
     \<lparr>sm_subsume = fc_can_subsume cfg, sm_n_keys = config_keys cfg, sm_func_cols = length (fc_schema cfg),
      sm_n_identity_vals = fc_n_identity_vals cfg\<rparr>"

datatype new_table = NewSorted sorted_table "resolved_action list" "merge_expr list" | NewFlat flat_table

record function_info =
  fi_table :: nat
  fi_schema :: "column_ty list"
  fi_math :: schema_math
  fi_default :: default_val
  fi_insertion_merge :: bool
  fi_name :: string
  fi_projection :: read_projection

text \<open>The function is registered before its merge is built, so that the merge may refer to it.\<close>

definition register_function :: "bridge_env \<Rightarrow> nat \<Rightarrow> function_info \<Rightarrow> bridge_env" where
  "register_function eg f fi =
     eg\<lparr>be_name := (be_name eg)(f := fi_name fi), be_table := (be_table eg)(f := fi_table fi),
        be_schema_len := (be_schema_len eg)(f := length (fi_schema fi))\<rparr>"

text \<open>
  \<open>f\<close> and \<open>tb\<close> are the next ids of functions and tables, and \<open>q\<close> the identity of a queue.  The result is
  the description of the function, the dependencies and the table, with the columns that rebuild.
\<close>

definition add_table :: "nat \<Rightarrow> nat \<Rightarrow> bridge_env \<Rightarrow> nat \<Rightarrow> nat \<Rightarrow> function_config \<Rightarrow> table_storage \<Rightarrow> read_projection option \<Rightarrow>
    (bridge_env \<times> function_info \<times> deps \<times> nat list \<times> new_table) result" where
  "add_table threads q eg f tb cfg storage proj =
     and_then (check_config cfg storage) (\<lambda>_.
     let p = config_projection cfg proj; sm = config_math cfg in
     and_then (require (projection_fits (length (fc_schema cfg)) p)) (\<lambda>_.
     let fi = \<lparr>fi_table = tb, fi_schema = fc_schema cfg, fi_math = sm, fi_default = fc_default cfg,
               fi_insertion_merge = (storage = SortedStorage \<and> fc_merge cfg = MUnionId), fi_name = fc_name cfg, fi_projection = p\<rparr>;
         eg = register_function eg f fi;
         deps = fill_deps eg (fc_merge cfg) ([], []) in
     and_then (require (tb \<notin> set (fst deps))) (\<lambda>_.
     and_then (case storage of
                 SortedStorage \<Rightarrow>
                   and_then (compile_merge sm (fc_name cfg) eg (fc_merge cfg)) (\<lambda>(actions, cols).
                   and_then (sw_new threads (sm_n_keys sm) (table_columns sm) (length (fc_schema cfg))) (\<lambda>t.
                     Ok (NewSorted t actions cols)))
               | FlatStorage \<Rightarrow> and_then (ft_new q (table_columns sm)) (\<lambda>t. Ok (NewFlat t))) (\<lambda>t.
       Ok (eg, fi, deps, rebuild_columns (fc_schema cfg), t)))))"

text \<open>The environment of the table: the code outside the repository and the compiled merge.\<close>

definition bridge_table_env :: "(val list \<Rightarrow> full_hash) \<Rightarrow> (full_hash \<Rightarrow> (table_entry \<Rightarrow> bool) \<Rightarrow> table_entry list \<Rightarrow> nat option) \<Rightarrow>
    'st state_ops \<Rightarrow> schema_math \<Rightarrow> resolved_action list \<Rightarrow> merge_expr list \<Rightarrow> 'st table_env" where
  "bridge_table_env hash search ops sm actions cols =
     \<lparr>env_hash = hash, env_find = search, env_merge = merge_callback ops sm actions cols\<rparr>"

section \<open>A new table is empty and well formed\<close>

lemma require_ok [simp]: "require b = Ok () \<longleftrightarrow> b"
  by (simp add: require_def)

lemma new_rows:
  assumes "0 < n"
  shows "\<exists>b. buf_new n = Ok b \<and> rd_wf n (rd_new b) \<and> rd_rows (rd_new b) = []"
proof -
  have "buf_wf \<lparr>n_columns = n, total_rows = 0, buf_data = []\<rparr> \<and> buf_rows \<lparr>n_columns = n, total_rows = 0, buf_data = []\<rparr> = []"
    using assms holds_rows [of "\<lparr>n_columns = n, total_rows = 0, buf_data = []\<rparr>" "[]"] by (simp add: buf_wf_def holds_def)
  with assms show ?thesis by (simp add: buf_new_def rd_new_def rd_wf_def rd_rows_def)
qed

lemma sw_new_ok:
  assumes "n_keys \<le> n_cols" "sort_by < n_cols" "threads \<le> 2 ^ 56"
  shows "\<exists>t. sw_new threads n_keys n_cols sort_by = Ok t \<and> sw_wf env t \<and> pending_ok env t \<and> sw_contents t = Map.empty \<and>
    sw_keys t = n_keys \<and> sw_columns t = n_cols \<and> sw_sort_by t = sort_by \<and> sw_log2 t = default_log2 threads \<and> sw_rows t = [] \<and>
    sw_offsets t = [] \<and> staged_rows (ps_rows (sw_pending t)) = []"
proof -
  have log: "default_log2 threads \<le> 57" using assms(3) by (auto simp: default_log2_def intro!: shard_log2_le)
  obtain b where b: "buf_new n_cols = Ok b" "rd_wf n_cols (rd_new b)" "rd_rows (rd_new b) = []" using new_rows [of n_cols] assms(2) by auto
  let ?t = "\<lparr>sw_generation = 0, sw_data = rd_new b, sw_log2 = default_log2 threads, sw_shards = replicate (2 ^ default_log2 threads) [],
     sw_keys = n_keys, sw_columns = n_cols, sw_sort_by = sort_by, sw_offsets = [], sw_pending = ps_new (default_log2 threads)\<rparr>"
  have "sw_wf env ?t"
    using assms b log by (auto simp: sw_wf_def indexed_def shard_ok_def live_at_def unique_keys_def offs_ok_def)
  moreover have "pending_ok env ?t" by (simp add: pending_ok_def staged_ok_def ps_new_def)
  moreover have "sw_contents ?t = Map.empty" using b(3) by (simp add: sw_contents_def contents_def)
  ultimately show ?thesis using b by (intro exI [of _ ?t]) (simp add: sw_new_def ps_new_def staged_rows_def Let_def)
qed

lemma config_layout:
  assumes "check_config cfg storage = Ok ()"
  shows "config_keys cfg < length (fc_schema cfg)" "n_vals (config_math cfg) = fc_n_vals cfg" "0 < fc_n_vals cfg"
    "sm_n_identity_vals (config_math cfg) \<noteq> Some 0" "0 < config_keys cfg \<Longrightarrow> schema_ok (config_math cfg)"
    "check_cols (n_vals (config_math cfg)) (fc_merge cfg) = Ok ()"
  using assms by (auto simp: check_config_def and_then_eq_Ok_iff config_keys_def config_math_def n_vals_def schema_ok_def Let_def split: option.splits if_splits)

end
