(* ===== verification/SortedStage.thy ===== *)
theory SortedStage
  imports SortedMerge
begin

text \<open>
  Staging: a mutation buffer collects rows, keys and row ids per shard, and its drop appends them to the
  queues of the table.
\<close>

section \<open>Hashed buffers\<close>

definition tagged_row :: "compact_hash \<times> row \<Rightarrow> val list" where
  "tagged_row = (\<lambda>(h, r). r @ [hash_as_value h])"

definition hb_holds :: "nat \<Rightarrow> hashed_buffer \<Rightarrow> (compact_hash \<times> row) list \<Rightarrow> bool" where
  "hb_holds n b rs \<longleftrightarrow> hb_arity b = n \<and> hb_values b = concat (map tagged_row rs) \<and> (\<forall>(h, r) \<in> set rs. length r = n)"

lemma hash_value_roundtrip [simp]: "hash_from_value (hash_as_value h) = h"
  by (simp add: hash_from_value_def hash_as_value_def)

lemma hb_values_length: "hb_holds n b rs \<Longrightarrow> length (hb_values b) = length rs * (n + 1)"
  using length_concat_uniform [of "map tagged_row rs" "n + 1"] by (force simp: hb_holds_def tagged_row_def)

lemma hb_len_holds: "hb_holds n b rs \<Longrightarrow> hb_len b = length rs"
  using hb_values_length [of n b rs] nonzero_mult_div_cancel_right [of "n + 1" "length rs"] by (simp add: hb_len_def hb_holds_def)

lemma hb_rows_holds:
  assumes "hb_holds n b rs"
  shows "hb_rows b = rs"
proof -
  have n: "hb_arity b = n" "\<forall>r \<in> set (map tagged_row rs). length r = n + 1" and vals: "hb_values b = concat (map tagged_row rs)"
    using assms by (auto simp: hb_holds_def tagged_row_def)
  have "take (hb_len b * (hb_arity b + 1)) (hb_values b) = concat (map tagged_row rs)"
    using hb_values_length [OF assms] hb_len_holds [OF assms] n(1) vals by simp
  then have "hb_rows b = map (\<lambda>tagged. (hash_from_value (tagged ! n), take n tagged)) (map tagged_row rs)"
    using slice_chunks_concat [OF _ n(2)] n(1) by (simp add: hb_rows_def)
  also have "\<dots> = map (\<lambda>x. x) rs"
    unfolding map_map by (rule map_cong) (use assms in \<open>auto simp: hb_holds_def tagged_row_def nth_append\<close>)
  finally show ?thesis by simp
qed

lemma hb_new_holds: "hb_holds n (hb_new n) []"
  by (simp add: hb_holds_def hb_new_def)

lemma hb_add_row_holds:
  "hb_holds n b rs \<Longrightarrow> length r = n \<Longrightarrow> \<exists>b'. hb_add_row b h r = Ok b' \<and> hb_holds n b' (rs @ [(h, r)])"
  by (auto simp: hb_holds_def hb_add_row_def tagged_row_def)

section \<open>Mutation buffers\<close>

text \<open>What a dense map of buffers holds for every shard; \<open>R b xs\<close> says that the buffer \<open>b\<close> holds \<open>xs\<close>.\<close>

definition slots_hold :: "('b \<Rightarrow> 'x list \<Rightarrow> bool) \<Rightarrow> nat \<Rightarrow> 'b dense_id_map \<Rightarrow> (nat \<Rightarrow> 'x list) \<Rightarrow> bool" where
  "slots_hold R m d f \<longleftrightarrow> length (map_data d) = m \<and>
     (\<forall>k < m. case map_data d ! k of None \<Rightarrow> f k = [] | Some b \<Rightarrow> R b (f k))"

lemma shard_add_holds:
  assumes "slots_hold R m d f" "k < m" "R fresh []" "\<And>b. R b (f k) \<Longrightarrow> \<exists>b'. g b = Ok b' \<and> R b' (f k @ [x])"
  shows "\<exists>d'. shard_add d k fresh g = Ok d' \<and> slots_hold R m d' (f(k := f k @ [x]))"
proof -
  have d: "length (map_data d) = m" "dim_reserve_space d k = d" using assms(1,2) by (auto simp: slots_hold_def dim_reserve_space_def)
  obtain b where b: "dim_get_or_insert d k fresh = Ok (b, d\<lparr>map_data := (map_data d)[k := Some b]\<rparr>)" "R b (f k)"
  proof (cases "map_data d ! k")
    case None
    with assms(1-3) have "R fresh (f k)" by (auto simp: slots_hold_def)
    with that [of fresh] None d assms(2) show ?thesis by (simp add: dim_get_or_insert_def)
  next
    case (Some b)
    with assms(1,2) have "R b (f k)" by (auto simp: slots_hold_def)
    moreover have "d\<lparr>map_data := (map_data d)[k := Some b]\<rparr> = d" using Some by (metis dense_id_map.surjective dense_id_map.update_convs(1) list_update_id)
    ultimately show ?thesis using that [of b] Some d assms(2) by (simp add: dim_get_or_insert_def)
  qed
  from assms(4) [OF b(2)] obtain b' where "g b = Ok b'" "R b' (f k @ [x])" by blast
  with b(1) assms(1,2) show ?thesis
    by (auto simp: shard_add_def slots_hold_def nth_list_update split: option.splits)
qed

text \<open>What clients stage, and what an operation puts into shard \<open>k\<close>.\<close>

datatype stage_op = StageInsert row | StageRemove "val list" | StageRemoveRow nat "val list"

definition stage :: "'e table_env \<Rightarrow> stage_op \<Rightarrow> table_buffer \<Rightarrow> table_buffer result" where
  "stage env op tb =
     (case op of StageInsert q \<Rightarrow> tb_stage_insert env tb q | StageRemove key \<Rightarrow> tb_stage_remove env tb key
      | StageRemoveRow i key \<Rightarrow> tb_stage_remove_row env tb i key)"

fun tb_stage_all :: "'e table_env \<Rightarrow> stage_op list \<Rightarrow> table_buffer \<Rightarrow> table_buffer result" where
  "tb_stage_all env [] tb = Ok tb"
| "tb_stage_all env (op # ops) tb = and_then (stage env op tb) (tb_stage_all env ops)"

definition op_fits :: "nat \<Rightarrow> nat \<Rightarrow> stage_op \<Rightarrow> bool" where
  "op_fits nk nc op = (case op of StageInsert q \<Rightarrow> length q = nc | StageRemove key \<Rightarrow> length key = nk | StageRemoveRow i key \<Rightarrow> nk \<le> length key)"

definition in_shard :: "(val list \<Rightarrow> nat \<times> compact_hash) \<Rightarrow> val list \<Rightarrow> nat \<Rightarrow> (compact_hash \<Rightarrow> 'a) \<Rightarrow> 'a list" where
  "in_shard K key k f = (if fst (K key) = k then [f (snd (K key))] else [])"

definition inserts_of :: "(val list \<Rightarrow> nat \<times> compact_hash) \<Rightarrow> nat \<Rightarrow> stage_op \<Rightarrow> nat \<Rightarrow> (compact_hash \<times> row) list" where
  "inserts_of K nk op k = (case op of StageInsert q \<Rightarrow> in_shard K (take nk q) k (\<lambda>h. (h, q)) | _ \<Rightarrow> [])"

definition removals_of :: "(val list \<Rightarrow> nat \<times> compact_hash) \<Rightarrow> nat \<Rightarrow> stage_op \<Rightarrow> nat \<Rightarrow> (compact_hash \<times> row) list" where
  "removals_of K nk op k = (case op of StageRemove key \<Rightarrow> in_shard K (take nk key) k (\<lambda>h. (h, key)) | _ \<Rightarrow> [])"

definition known_of :: "(val list \<Rightarrow> nat \<times> compact_hash) \<Rightarrow> nat \<Rightarrow> stage_op \<Rightarrow> nat \<Rightarrow> known_removal list" where
  "known_of K nk op k = (case op of StageRemoveRow i key \<Rightarrow> in_shard K (take nk key) k (\<lambda>h. \<lparr>kr_hash = h, kr_row = i\<rparr>) | _ \<Rightarrow> [])"

definition tb_holds :: "nat \<Rightarrow> nat \<Rightarrow> nat \<Rightarrow> table_buffer \<Rightarrow> (nat \<Rightarrow> (compact_hash \<times> row) list) \<Rightarrow> (nat \<Rightarrow> (compact_hash \<times> row) list) \<Rightarrow>
    (nat \<Rightarrow> known_removal list) \<Rightarrow> bool" where
  "tb_holds nk nc log2 tb fi fr fk \<longleftrightarrow> tb_keys tb = nk \<and> tb_columns tb = nc \<and> tb_log2 tb = log2 \<and>
     slots_hold (hb_holds nc) (2 ^ log2) (tb_rows tb) fi \<and> slots_hold (hb_holds nk) (2 ^ log2) (tb_removals tb) fr \<and>
     slots_hold (=) (2 ^ log2) (tb_known tb) fk"

lemma stage_ok:
  fixes env :: "'e table_env"
  assumes tb: "tb_holds nk nc log2 tb fi fr fk" and fits: "op_fits nk nc op" "nk \<le> nc" "log2 < 64"
  defines "K \<equiv> key_hash env log2"
  shows "\<exists>tb'. stage env op tb = Ok tb' \<and> tb_holds nk nc log2 tb' (\<lambda>k. fi k @ inserts_of K nk op k) (\<lambda>k. fr k @ removals_of K nk op k) (\<lambda>k. fk k @ known_of K nk op k)"
proof -
  have upd: "f(k := f k @ [x]) = (\<lambda>j. f j @ (if k = j then [x] else []))" for f :: "nat \<Rightarrow> 'x list" and k x by auto
  have K: "fst (K key) < 2 ^ log2" for key unfolding K_def by (rule key_hash_bound [OF fits(3)])
  note t = tb [unfolded tb_holds_def]
  note shards = inserts_of_def removals_of_def known_of_def in_shard_def shard_hash_def K_def [symmetric]
  show ?thesis
  proof (cases op)
    case (StageInsert q)
    obtain k h where kh: "K (take nk q) = (k, h)" by force
    have q: "length q = nc" "shard_hash env log2 q nk = Ok (k, h)" using fits StageInsert kh by (auto simp: op_fits_def shards)
    from shard_add_holds [of "hb_holds nc" "2 ^ log2" "tb_rows tb" fi k "hb_new nc" "\<lambda>b. hb_add_row b h q" "(h, q)"] t K [of "take nk q"] kh
    obtain d where "shard_add (tb_rows tb) k (hb_new nc) (\<lambda>b. hb_add_row b h q) = Ok d" "slots_hold (hb_holds nc) (2 ^ log2) d (fi(k := fi k @ [(h, q)]))"
      using hb_new_holds hb_add_row_holds q(1) by fastforce
    with StageInsert t kh q(2) show ?thesis by (simp add: stage_def tb_stage_insert_def tb_holds_def shards upd cong: if_cong)
  next
    case (StageRemove key)
    obtain k h where kh: "K key = (k, h)" by force
    have q: "length key = nk" "shard_hash env log2 key nk = Ok (k, h)" using fits StageRemove kh by (auto simp: op_fits_def shards)
    from shard_add_holds [of "hb_holds nk" "2 ^ log2" "tb_removals tb" fr k "hb_new nk" "\<lambda>b. hb_add_row b h key" "(h, key)"] t K [of key] kh
    obtain d where "shard_add (tb_removals tb) k (hb_new nk) (\<lambda>b. hb_add_row b h key) = Ok d" "slots_hold (hb_holds nk) (2 ^ log2) d (fr(k := fr k @ [(h, key)]))"
      using hb_new_holds hb_add_row_holds q(1) by fastforce
    with StageRemove t kh q show ?thesis by (simp add: stage_def tb_stage_remove_def tb_holds_def shards upd cong: if_cong)
  next
    case (StageRemoveRow i key)
    obtain k h where kh: "K (take nk key) = (k, h)" by force
    have q: "shard_hash env log2 key nk = Ok (k, h)" using fits StageRemoveRow kh by (auto simp: op_fits_def shards)
    from shard_add_holds [of "(=)" "2 ^ log2" "tb_known tb" fk k "[]" "\<lambda>b. Ok (b @ [\<lparr>kr_hash = h, kr_row = i\<rparr>])" "\<lparr>kr_hash = h, kr_row = i\<rparr>"] t K [of "take nk key"] kh
    obtain d where "shard_add (tb_known tb) k [] (\<lambda>b. Ok (b @ [\<lparr>kr_hash = h, kr_row = i\<rparr>])) = Ok d"
      "slots_hold (=) (2 ^ log2) d (fk(k := fk k @ [\<lparr>kr_hash = h, kr_row = i\<rparr>]))" by auto
    with StageRemoveRow t kh q show ?thesis by (simp add: stage_def tb_stage_remove_row_def tb_holds_def shards upd cong: if_cong)
  qed
qed

lemma tb_stage_all_ok:
  "tb_holds nk nc log2 tb fi fr fk \<Longrightarrow> \<forall>op \<in> set ops. op_fits nk nc op \<Longrightarrow> nk \<le> nc \<Longrightarrow> log2 < 64 \<Longrightarrow>
   \<exists>tb'. tb_stage_all env ops tb = Ok tb' \<and>
     tb_holds nk nc log2 tb' (\<lambda>k. fi k @ concat (map (\<lambda>op. inserts_of (key_hash env log2) nk op k) ops))
       (\<lambda>k. fr k @ concat (map (\<lambda>op. removals_of (key_hash env log2) nk op k) ops))
       (\<lambda>k. fk k @ concat (map (\<lambda>op. known_of (key_hash env log2) nk op k) ops))"
proof (induction ops arbitrary: tb fi fr fk)
  case (Cons op ops)
  from stage_ok [OF Cons.prems(1) _ Cons.prems(3,4), of op env] Cons.prems(2) obtain tb1 where
    1: "stage env op tb = Ok tb1"
    "tb_holds nk nc log2 tb1 (\<lambda>k. fi k @ inserts_of (key_hash env log2) nk op k) (\<lambda>k. fr k @ removals_of (key_hash env log2) nk op k)
      (\<lambda>k. fk k @ known_of (key_hash env log2) nk op k)" by auto
  from Cons.IH [OF 1(2) _ Cons.prems(3,4)] Cons.prems(2) 1(1) show ?case by auto
qed simp

lemma capacity_shards:
  assumes "log2 \<le> 32"
  shows "dim_with_capacity u32_max (2 ^ log2) = Ok \<lparr>map_data = replicate (2 ^ log2) None\<rparr>"
proof -
  have "(2 :: nat) ^ log2 \<le> 2 ^ 32" using assms by (rule power_increasing) simp
  then have "2 ^ log2 - 1 \<le> u32_max" by (simp add: u32_max_def)
  then show ?thesis by (simp add: dim_with_capacity_def from_usize_def dim_reserve_space_def dim_new_def del: replicate_Suc)
qed

lemma tb_new_holds:
  "log2 \<le> 32 \<Longrightarrow> \<exists>tb. tb_new nc nk log2 = Ok tb \<and> tb_holds nk nc log2 tb (\<lambda>_. []) (\<lambda>_. []) (\<lambda>_. [])"
  by (simp add: tb_new_def capacity_shards tb_holds_def slots_hold_def)

section \<open>Dropping a buffer\<close>

definition as_list :: "'a option \<Rightarrow> 'a list" where
  "as_list x = (case x of None \<Rightarrow> [] | Some b \<Rightarrow> [b])"

lemma flush_buffers_ok:
  "k + length bs = length qs \<Longrightarrow>
   \<exists>qs'. flush_buffers bs k qs = Ok qs' \<and> length qs' = length qs \<and>
     (\<forall>j < length qs. qs' ! j = qs ! j @ (if j < k then [] else as_list (bs ! (j - k))))"
proof (induction bs k qs rule: flush_buffers.induct)
  case (2 bs k qs)
  then obtain qs' where "flush_buffers bs (Suc k) qs = Ok qs'" "length qs' = length qs"
    "\<forall>j < length qs. qs' ! j = qs ! j @ (if j < Suc k then [] else as_list (bs ! (j - Suc k)))" by auto
  then show ?case by (intro exI [of _ qs']) (auto simp: as_list_def nth_Cons' less_Suc_eq not_less le_Suc_eq Suc_le_eq)
next
  case (3 b bs k qs)
  have k: "k < length qs" using 3(2) by simp
  let ?qs = "qs[k := qs ! k @ [b]]"
  from 3(1) [of "qs ! k"] 3(2) k obtain qs' where "flush_buffers bs (Suc k) ?qs = Ok qs'" "length qs' = length qs"
    "\<forall>j < length qs. qs' ! j = ?qs ! j @ (if j < Suc k then [] else as_list (bs ! (j - Suc k)))" by (auto simp: shard_queue_def get_opt_def)
  with k show ?case
    by (intro exI [of _ qs']) (auto simp: shard_queue_def get_opt_def as_list_def nth_Cons' nth_list_update less_Suc_eq not_less)
qed simp

text \<open>The rows that the queue of a shard holds.\<close>

definition queued :: "hashed_buffer list list \<Rightarrow> nat \<Rightarrow> (compact_hash \<times> row) list" where
  "queued queues k = concat (map hb_rows (queues ! k))"

lemma flush_hashed:
  assumes "slots_hold (hb_holds n) m d f" "length qs = m"
  shows "\<exists>qs'. flush_buffers (map_data d) 0 qs = Ok qs' \<and> length qs' = m \<and> (\<forall>k < m. queued qs' k = queued qs k @ f k) \<and>
    buffered hb_len (map_data d) = sum_list (map (\<lambda>k. length (f k)) [0..<m])"
proof -
  have d: "length (map_data d) = m" using assms(1) by (simp add: slots_hold_def)
  have slot: "concat (map hb_rows (as_list (map_data d ! k))) = f k" "(case map_data d ! k of None \<Rightarrow> 0 | Some b \<Rightarrow> hb_len b) = length (f k)" if "k < m" for k
    using assms(1) that by (cases "map_data d ! k"; force simp: slots_hold_def as_list_def hb_rows_holds hb_len_holds)+
  have "map (\<lambda>b. case b of None \<Rightarrow> 0 | Some b \<Rightarrow> hb_len b) (map_data d) = map (\<lambda>k. length (f k)) [0..<m]"
    using d slot(2) by (intro nth_equalityI) auto
  moreover obtain qs' where "flush_buffers (map_data d) 0 qs = Ok qs'" "length qs' = m" "\<forall>j < m. qs' ! j = qs ! j @ as_list (map_data d ! j)"
    using flush_buffers_ok [of 0 "map_data d" qs] d assms(2) by auto
  ultimately show ?thesis using slot(1) by (simp add: buffered_def queued_def)
qed

lemma flush_known:
  assumes "slots_hold (=) m d f" "length qs = m"
  shows "\<exists>qs'. flush_buffers (map_data d) 0 qs = Ok qs' \<and> length qs' = m \<and> (\<forall>k < m. concat (qs' ! k) = concat (qs ! k) @ f k) \<and>
    buffered length (map_data d) = sum_list (map (\<lambda>k. length (f k)) [0..<m])"
proof -
  have d: "length (map_data d) = m" using assms(1) by (simp add: slots_hold_def)
  have slot: "concat (as_list (map_data d ! k)) = f k" "(case map_data d ! k of None \<Rightarrow> 0 | Some b \<Rightarrow> length b) = length (f k)" if "k < m" for k
    using assms(1) that by (cases "map_data d ! k"; force simp: slots_hold_def as_list_def)+
  have "map (\<lambda>b. case b of None \<Rightarrow> 0 | Some b \<Rightarrow> length b) (map_data d) = map (\<lambda>k. length (f k)) [0..<m]"
    using d slot(2) by (intro nth_equalityI) auto
  moreover obtain qs' where "flush_buffers (map_data d) 0 qs = Ok qs'" "length qs' = m" "\<forall>j < m. qs' ! j = qs ! j @ as_list (map_data d ! j)"
    using flush_buffers_ok [of 0 "map_data d" qs] d assms(2) by auto
  ultimately show ?thesis using slot(1) by (simp add: buffered_def)
qed

section \<open>Staging operations for a table\<close>

definition is_stage_insert :: "stage_op \<Rightarrow> bool" where
  "is_stage_insert op = (case op of StageInsert _ \<Rightarrow> True | _ \<Rightarrow> False)"

lemma in_shard_total: "fst (K key) < m \<Longrightarrow> sum_list (map (\<lambda>k. length (in_shard K key k f)) [0..<m]) = 1"
  by (simp add: in_shard_def interv_sum_list_conv_sum_set_nat if_distrib [of length] sum.delta cong: if_cong)

lemma sum_lengths_concat:
  "sum_list (map (\<lambda>k. length (concat (map (\<lambda>op. g op k) ops))) ks) = sum_list (map (\<lambda>op. sum_list (map (\<lambda>k. length (g op k)) ks)) ops)"
  by (induction ops) (simp_all add: sum_list_addf)

lemma staged_totals:
  assumes "\<And>key. fst (K key) < m"
  shows "sum_list (map (\<lambda>k. length (concat (map (\<lambda>op. inserts_of K nk op k) ops))) [0..<m]) = length (filter is_stage_insert ops)"
    "sum_list (map (\<lambda>k. length (concat (map (\<lambda>op. removals_of K nk op k) ops))) [0..<m]) +
     sum_list (map (\<lambda>k. length (concat (map (\<lambda>op. known_of K nk op k) ops))) [0..<m]) = length (filter (\<lambda>op. \<not> is_stage_insert op) ops)"
  unfolding sum_lengths_concat
  by (induction ops) (auto simp: is_stage_insert_def inserts_of_def removals_of_def known_of_def in_shard_total [OF assms] split: stage_op.split)

lemma staged_ok_append:
  assumes "staged_ok K nk arity m queues" "length queues' = m" "\<forall>k < m. queued queues' k = queued queues k @ g k"
    "\<And>k h r. k < m \<Longrightarrow> (h, r) \<in> set (g k) \<Longrightarrow> length r = arity \<and> K (take nk r) = (k, h)"
  shows "staged_ok K nk arity m queues'"
  using assms unfolding staged_ok_def queued_def [symmetric] by fastforce

text \<open>
  C27: Staging for the keyed table.  Staging operations of the right width through a new mutation buffer
  and dropping it never panics; each operation goes, with the compact hash of its key, to the end of the
  queue of the shard that the full hash of the key selects, in the order of staging, and the counters of
  staged rows and removals count them.
\<close>

theorem keyed_staging:
  assumes wf: "sw_wf env t" and pend: "pending_ok env t" and small: "sw_log2 t \<le> 32" "sw_columns t \<le> u32_max"
    and fits: "\<forall>op \<in> set ops. op_fits (sw_keys t) (sw_columns t) op"
  defines "K \<equiv> key_hash env (sw_log2 t)"
  shows "\<exists>tb tb' ps. sw_new_buffer t = Ok tb \<and> tb_stage_all env ops tb = Ok tb' \<and> tb_drop tb' (sw_pending t) = Ok ps \<and>
    pending_ok env (t\<lparr>sw_pending := ps\<rparr>) \<and>
    (\<forall>k < 2 ^ sw_log2 t.
      queued (ps_rows ps) k = queued (ps_rows (sw_pending t)) k @ concat (map (\<lambda>op. inserts_of K (sw_keys t) op k) ops) \<and>
      queued (ps_removals ps) k = queued (ps_removals (sw_pending t)) k @ concat (map (\<lambda>op. removals_of K (sw_keys t) op k) ops) \<and>
      concat (ps_known ps ! k) = concat (ps_known (sw_pending t) ! k) @ concat (map (\<lambda>op. known_of K (sw_keys t) op k) ops)) \<and>
    ps_total_rows ps = ps_total_rows (sw_pending t) + length (filter is_stage_insert ops) \<and>
    ps_total_removals ps = ps_total_removals (sw_pending t) + length (filter (\<lambda>op. \<not> is_stage_insert op) ops)"
proof -
  let ?nk = "sw_keys t" and ?nc = "sw_columns t" and ?m = "2 ^ sw_log2 t" and ?ps = "sw_pending t"
  let ?fi = "\<lambda>k. concat (map (\<lambda>op. inserts_of K ?nk op k) ops)" and ?fr = "\<lambda>k. concat (map (\<lambda>op. removals_of K ?nk op k) ops)"
    and ?fk = "\<lambda>k. concat (map (\<lambda>op. known_of K ?nk op k) ops)"
  have le: "?nk \<le> ?nc" "sw_log2 t < 64" using wf by (auto simp: sw_wf_def)
  have bound: "fst (K key) < ?m" for key unfolding K_def by (rule key_hash_bound [OF le(2)])
  from tb_new_holds [OF small(1), of ?nc ?nk] obtain tb where tb: "tb_new ?nc ?nk (sw_log2 t) = Ok tb"
    "tb_holds ?nk ?nc (sw_log2 t) tb (\<lambda>_. []) (\<lambda>_. []) (\<lambda>_. [])" by blast
  then have new: "sw_new_buffer t = Ok tb" using small(2) le(1) by (simp add: sw_new_buffer_def expect_u32_def)
  from tb_stage_all_ok [OF tb(2) fits le, of env] obtain tb' where tb': "tb_stage_all env ops tb = Ok tb'"
    "tb_holds ?nk ?nc (sw_log2 t) tb' ?fi ?fr ?fk" unfolding K_def by auto
  have queues: "staged_ok K ?nk ?nc ?m (ps_rows ?ps)" "staged_ok K ?nk ?nk ?m (ps_removals ?ps)" "length (ps_known ?ps) = ?m"
    using pend by (simp_all add: pending_ok_def K_def)
  then have lens: "length (ps_rows ?ps) = ?m" "length (ps_removals ?ps) = ?m" by (simp_all add: staged_ok_def)
  note holds = tb'(2) [unfolded tb_holds_def]
  from flush_hashed [of ?nc ?m "tb_rows tb'" ?fi "ps_rows ?ps"] holds lens obtain qi where
    qi: "flush_buffers (map_data (tb_rows tb')) 0 (ps_rows ?ps) = Ok qi" "length qi = ?m" "\<forall>k < ?m. queued qi k = queued (ps_rows ?ps) k @ ?fi k"
    "buffered hb_len (map_data (tb_rows tb')) = sum_list (map (\<lambda>k. length (?fi k)) [0..<?m])" by blast
  from flush_hashed [of ?nk ?m "tb_removals tb'" ?fr "ps_removals ?ps"] holds lens obtain qr where
    qr: "flush_buffers (map_data (tb_removals tb')) 0 (ps_removals ?ps) = Ok qr" "length qr = ?m" "\<forall>k < ?m. queued qr k = queued (ps_removals ?ps) k @ ?fr k"
    "buffered hb_len (map_data (tb_removals tb')) = sum_list (map (\<lambda>k. length (?fr k)) [0..<?m])" by blast
  from flush_known [of ?m "tb_known tb'" ?fk "ps_known ?ps"] holds queues(3) obtain qk where
    qk: "flush_buffers (map_data (tb_known tb')) 0 (ps_known ?ps) = Ok qk" "length qk = ?m" "\<forall>k < ?m. concat (qk ! k) = concat (ps_known ?ps ! k) @ ?fk k"
    "buffered length (map_data (tb_known tb')) = sum_list (map (\<lambda>k. length (?fk k)) [0..<?m])" by blast
  have "staged_ok K ?nk ?nc ?m qi"
    by (rule staged_ok_append [OF queues(1) qi(2,3)])
      (use fits in \<open>force simp: inserts_of_def in_shard_def op_fits_def split: stage_op.splits if_splits\<close>)
  moreover have "staged_ok K ?nk ?nk ?m qr"
    by (rule staged_ok_append [OF queues(2) qr(2,3)])
      (use fits in \<open>force simp: removals_of_def in_shard_def op_fits_def split: stage_op.splits if_splits\<close>)
  moreover note staged_totals [of K ?m ?nk ops, OF bound]
  ultimately show ?thesis
    using new tb'(1) qi qr qk by (simp add: tb_drop_def pending_ok_def K_def)
qed

theorem keyed_staging_witness:
  "\<exists>tb tb' ps. sw_new_buffer sample_keyed = Ok tb \<and> tb_stage_all one_hash_env [StageInsert [9, 5, 4], StageRemove [6]] tb = Ok tb' \<and>
     tb_drop tb' (sw_pending sample_keyed) = Ok ps \<and> ps_total_rows ps = 3 \<and> ps_total_removals ps = 1"
proof -
  have fits: "sw_log2 sample_keyed \<le> 32" "sw_columns sample_keyed \<le> u32_max"
    "\<forall>op \<in> set [StageInsert [9, 5, 4], StageRemove [6]]. op_fits (sw_keys sample_keyed) (sw_columns sample_keyed) op"
    by (simp_all add: sample_keyed_def op_fits_def u32_max_def)
  have "ps_total_rows (sw_pending sample_keyed) = 2" "ps_total_removals (sw_pending sample_keyed) = 0" by (simp_all add: sample_keyed_def)
  with keyed_staging [OF one_hash_wf(1,2) fits] show ?thesis by (auto simp: is_stage_insert_def)
qed

section \<open>Compact hashes\<close>

lemma compact_bit: "bit (compact_from_full full) n \<longleftrightarrow> n < 32 \<and> bit full (if n < 25 then n else n + 32)"
  by (auto simp: compact_from_full_def bit_simps Let_def add.commute)

lemma probe_bit: "bit (hash_probe h) n \<longleftrightarrow> (n < 32 \<and> bit h n) \<or> (57 \<le> n \<and> n < 64 \<and> bit h (n - 32))"
  by (auto simp: hash_probe_def bit_simps Let_def dest: bit_imp_le_length)

text \<open>
  C34: Compact hashes.  Storing a compact hash in a row and reading it back is the identity, and so is
  compacting the hash that a compact hash probes with; that hash agrees with the full hash on the low 25
  bits, which choose the bucket, and on the top seven bits, the tag that the raw table stores.
\<close>

theorem compact_hash_roundtrip:
  "hash_from_value (hash_as_value h) = h \<and> compact_from_full (hash_probe h) = h \<and>
   take_bit 25 (hash_probe (compact_from_full full)) = take_bit 25 full \<and>
   drop_bit 57 (hash_probe (compact_from_full full)) = drop_bit 57 full"
proof (intro conjI)
  show "compact_from_full (hash_probe h) = h"
    by (rule bit_eqI) (auto simp: compact_bit probe_bit)
  show "take_bit 25 (hash_probe (compact_from_full full)) = take_bit 25 full"
    by (rule bit_eqI) (auto simp: compact_bit probe_bit bit_simps)
  show "drop_bit 57 (hash_probe (compact_from_full full)) = drop_bit 57 full"
    by (rule bit_eqI) (auto simp: compact_bit probe_bit bit_simps dest: bit_imp_le_length)
qed simp

end
