(* ===== verification/SortedQuery.thy ===== *)
theory SortedQuery
  imports SortedInv
begin

text \<open>
  Queries on the keyed table: scans, refinement, tests for a match, and fast subsets by binary search in
  the offsets of the sort column.  The table keeps the promises of \<open>table_view\<close>.
\<close>

section \<open>Model\<close>

fun sw_eval_constraints :: "row \<Rightarrow> constrnt list \<Rightarrow> bool result" where
  "sw_eval_constraints r [] = Ok True"
| "sw_eval_constraints r (c # cs) = and_then (eval_constraint r c) (\<lambda>b. if b then sw_eval_constraints r cs else Ok False)"

definition sw_get_if :: "sorted_table \<Rightarrow> constrnt list \<Rightarrow> nat \<Rightarrow> row option result" where
  "sw_get_if t cs i =
     and_then (rd_get_row (sw_data t) i) (\<lambda>r.
       case r of
         None \<Rightarrow> Ok None
       | Some vals \<Rightarrow> and_then (sw_eval_constraints vals cs) (\<lambda>b. Ok (if b then Some vals else None)))"

definition sw_eval :: "sorted_table \<Rightarrow> constrnt list \<Rightarrow> nat \<Rightarrow> bool result" where
  "sw_eval t cs i = and_then (sw_get_if t cs i) (\<lambda>r. Ok (r \<noteq> None))"

text \<open>The rows that a scan passes to its callback.  The unchecked reads are inside the asserted bounds.\<close>

definition sw_read :: "sorted_table \<Rightarrow> constrnt list \<Rightarrow> nat \<Rightarrow> row option result" where
  "sw_read t cs i =
     (if cs = [] then if rd_stale (sw_data t) = 0 then and_then (buf_get_row (rd_data (sw_data t)) i) (\<lambda>r. Ok (Some r))
                      else rd_get_row (sw_data t) i
      else sw_get_if t cs i)"

fun sw_visit :: "sorted_table \<Rightarrow> constrnt list \<Rightarrow> nat list \<Rightarrow> (nat \<times> row) list result" where
  "sw_visit t cs [] = Ok []"
| "sw_visit t cs (i # is) =
     and_then (sw_read t cs i) (\<lambda>r.
     and_then (sw_visit t cs is) (\<lambda>out. Ok ((case r of None \<Rightarrow> [] | Some vals \<Rightarrow> [(i, vals)]) @ out)))"

definition sw_scan :: "sorted_table \<Rightarrow> subset \<Rightarrow> (nat \<times> row) list result" where
  "sw_scan t s =
     and_then (bounds s) (\<lambda>b.
       case b of
         None \<Rightarrow> Ok []
       | Some (_, hi) \<Rightarrow> if \<not> hi \<le> buf_len (rd_data (sw_data t)) then Err AssertFailed else sw_visit t [] (rows s))"

definition sw_scan_bounded :: "sorted_table \<Rightarrow> subset \<Rightarrow> nat \<Rightarrow> nat \<Rightarrow> constrnt list \<Rightarrow> ((nat \<times> row) list \<times> nat option) result" where
  "sw_scan_bounded t s st n cs =
     and_then (bounds s) (\<lambda>b.
       case b of
         None \<Rightarrow> Ok ([], None)
       | Some (_, hi) \<Rightarrow>
           if \<not> hi \<le> buf_len (rd_data (sw_data t)) then Err AssertFailed
           else and_then (iter_bounded s st (st + n)) (\<lambda>(vis, nxt).
                and_then (sw_visit t cs vis) (\<lambda>out. Ok (out, nxt))))"

text \<open>\<open>Ok\<close>: the range of the rows with the value; \<open>Err\<close>: where they would start.\<close>

definition binary_search_sort_val :: "search \<Rightarrow> sorted_table \<Rightarrow> val \<Rightarrow> (nat + nat \<times> nat) result" where
  "binary_search_sort_val bs t v =
     (case bs (map fst (sw_offsets t)) v of
        Inr got \<Rightarrow>
          and_then (vec_get (sw_offsets t) got) (\<lambda>(_, found).
          and_then (rd_next_row (sw_data t)) (\<lambda>n.
            Ok (Inr (found, case get_opt (sw_offsets t) (got + 1) of Some (_, r) \<Rightarrow> r | None \<Rightarrow> n))))
      | Inl nxt \<Rightarrow>
          and_then (rd_next_row (sw_data t)) (\<lambda>n.
            Ok (Inl (case get_opt (sw_offsets t) nxt of Some (_, r) \<Rightarrow> r | None \<Rightarrow> n))))"

definition sw_fast_subset :: "search \<Rightarrow> sorted_table \<Rightarrow> constrnt \<Rightarrow> subset option result" where
  "sw_fast_subset bs t c =
     (case c of
        CEq _ _ \<Rightarrow> Ok None
      | CEqConst col v \<Rightarrow>
          if col = sw_sort_by t
          then and_then (binary_search_sort_val bs t v) (\<lambda>r.
            Ok (Some (case r of Inr (found, bound) \<Rightarrow> Dense (range_new found bound) | Inl _ \<Rightarrow> subset_empty)))
          else Ok None
      | CLtConst col v \<Rightarrow>
          if col = sw_sort_by t
          then and_then (binary_search_sort_val bs t v) (\<lambda>r.
            Ok (Some (case r of Inr (found, _) \<Rightarrow> Dense (range_new 0 found) | Inl nxt \<Rightarrow> Dense (range_new 0 nxt))))
          else Ok None
      | CGtConst col v \<Rightarrow>
          if col = sw_sort_by t
          then and_then (binary_search_sort_val bs t v) (\<lambda>r.
            and_then (rd_next_row (sw_data t)) (\<lambda>n.
            Ok (Some (case r of Inr (_, bound) \<Rightarrow> Dense (range_new bound n) | Inl nxt \<Rightarrow> Dense (range_new nxt n)))))
          else Ok None
      | CLeConst col v \<Rightarrow>
          if col = sw_sort_by t
          then and_then (binary_search_sort_val bs t v) (\<lambda>r.
            Ok (Some (case r of Inr (_, bound) \<Rightarrow> Dense (range_new 0 bound) | Inl nxt \<Rightarrow> Dense (range_new 0 nxt))))
          else Ok None
      | CGeConst col v \<Rightarrow>
          if col = sw_sort_by t
          then and_then (binary_search_sort_val bs t v) (\<lambda>r.
            and_then (rd_next_row (sw_data t)) (\<lambda>n.
            Ok (Some (case r of Inr (found, _) \<Rightarrow> Dense (range_new found n) | Inl nxt \<Rightarrow> Dense (range_new nxt n)))))
          else Ok None)"

definition sw_refine_one :: "sorted_table \<Rightarrow> subset \<Rightarrow> constrnt \<Rightarrow> subset comp" where
  "sw_refine_one t s c =
     Some (and_then (map_result (sw_eval t [c]) (rows s)) (\<lambda>_. retain s (\<lambda>i. sw_eval t [c] i = Ok True)))"

definition sw_refine_ref :: "sorted_table \<Rightarrow> subset \<Rightarrow> constrnt list \<Rightarrow> bool \<Rightarrow> subset result" where
  "sw_refine_ref t s cs check_live =
     and_then (map_result (sw_eval t cs) (rows s)) (\<lambda>keep.
       let vec = map fst (filter snd (zip (rows s) keep)) in
       case s of
         Dense r \<Rightarrow> if length vec = subset_size s then Ok (Dense r) else Ok (Sparse vec)
       | Sparse _ \<Rightarrow> Ok (Sparse vec))"

fun any_result :: "('a \<Rightarrow> bool result) \<Rightarrow> 'a list \<Rightarrow> bool result" where
  "any_result f [] = Ok False"
| "any_result f (x # xs) = and_then (f x) (\<lambda>b. if b then Ok True else any_result f xs)"

definition sw_contains_match :: "sorted_table \<Rightarrow> subset \<Rightarrow> constrnt list \<Rightarrow> bool result" where
  "sw_contains_match t s cs = any_result (sw_eval t cs) (rows s)"

section \<open>Reading rows\<close>

definition readable :: "sorted_table \<Rightarrow> bool" where
  "readable t \<longleftrightarrow> rd_wf (sw_columns t) (sw_data t) \<and> sw_sort_by t < sw_columns t \<and> length (sw_rows t) \<le> u32_max \<and>
     offs_ok (sw_sort_by t) (sw_offsets t) (length (sw_rows t)) (sw_live t)"

lemma sw_wf_readable: "sw_wf env t \<Longrightarrow> readable t"
  by (simp add: sw_wf_def readable_def)

abbreviation sw_alive :: "sorted_table \<Rightarrow> nat \<Rightarrow> bool" where
  "sw_alive t i \<equiv> sw_live t i \<noteq> None"

lemma sw_alive_row: "sw_alive t i \<Longrightarrow> sw_live t i = Some (sw_rows t ! i)"
  by (auto simp: live_at_def split: if_splits)

lemma sw_eval_constraints_ok:
  "\<forall>c \<in> set cs. on_columns (length r) c \<Longrightarrow> sw_eval_constraints r cs = Ok (\<forall>c \<in> set cs. satisfies r c)"
  by (induction cs) (auto simp: eval_constraint_satisfies)

lemma sw_get_if_ok:
  assumes "readable t" "i < length (sw_rows t)" "\<forall>c \<in> set cs. on_columns (sw_columns t) c"
  shows "sw_get_if t cs i = Ok (if sw_alive t i \<and> (\<forall>c \<in> set cs. satisfies (sw_rows t ! i) c) then Some (sw_rows t ! i) else None)"
proof -
  have wf: "rd_wf (sw_columns t) (sw_data t)" using assms(1) by (simp add: readable_def)
  have "length (sw_rows t ! i) = sw_columns t" using rd_row_length [OF wf assms(2)] .
  with assms(3) have e: "sw_eval_constraints (sw_rows t ! i) cs = Ok (\<forall>c \<in> set cs. satisfies (sw_rows t ! i) c)"
    by (intro sw_eval_constraints_ok) simp
  show ?thesis
  proof (cases "sw_live t i")
    case None
    then show ?thesis using rd_get_row_ok [OF wf, of i] assms(2) by (simp add: sw_get_if_def)
  next
    case (Some r)
    then have "r = sw_rows t ! i" by (simp add: live_at_Some)
    then show ?thesis using rd_get_row_ok [OF wf, of i] assms(2) Some e by (simp add: sw_get_if_def)
  qed
qed

lemma sw_eval_ok:
  assumes "readable t" "i < length (sw_rows t)" "\<forall>c \<in> set cs. on_columns (sw_columns t) c"
  shows "sw_eval t cs i = Ok (sw_alive t i \<and> (\<forall>c \<in> set cs. satisfies (sw_rows t ! i) c))"
  by (simp add: sw_eval_def sw_get_if_ok [OF assms])

lemma sw_no_stale:
  assumes "readable t" "rd_stale (sw_data t) = 0" "i < length (sw_rows t)"
  shows "sw_alive t i"
proof -
  have "filter (\<lambda>r. is_stale (r ! 0)) (sw_rows t) = []" using assms(1,2) by (simp add: readable_def rd_wf_def)
  with assms(3) show ?thesis by (auto simp: live_at_def filter_empty_conv)
qed

lemma sw_read_ok:
  assumes "readable t" "i < length (sw_rows t)" "\<forall>c \<in> set cs. on_columns (sw_columns t) c"
  shows "sw_read t cs i = Ok (if sw_alive t i \<and> (\<forall>c \<in> set cs. satisfies (sw_rows t ! i) c) then Some (sw_rows t ! i) else None)"
proof (cases "cs = []")
  case True
  have wf: "rd_wf (sw_columns t) (sw_data t)" using assms(1) by (simp add: readable_def)
  show ?thesis
  proof (cases "rd_stale (sw_data t) = 0")
    case stale: True
    have "sw_alive t i" by (rule sw_no_stale [OF assms(1) stale assms(2)])
    with True stale show ?thesis using get_row_holds [OF rd_rows_wf [OF wf], of i] assms(2) by (simp add: sw_read_def)
  next
    case False
    with True show ?thesis using rd_get_row_ok [OF wf, of i] assms(2) sw_alive_row [of t i]
      by (cases "sw_live t i") (auto simp: sw_read_def)
  qed
qed (simp add: sw_read_def sw_get_if_ok [OF assms])

lemma sw_visit_ok:
  "readable t \<Longrightarrow> \<forall>i \<in> set is. i < length (sw_rows t) \<Longrightarrow> \<forall>c \<in> set cs. on_columns (sw_columns t) c \<Longrightarrow>
   sw_visit t cs is = Ok (map (\<lambda>i. (i, sw_rows t ! i)) (filter (\<lambda>i. sw_alive t i \<and> (\<forall>c \<in> set cs. satisfies (sw_rows t ! i) c)) is))"
  by (induction "is") (simp_all add: sw_read_ok)

lemma any_result_ok: "(\<And>x. x \<in> set xs \<Longrightarrow> f x = Ok (P x)) \<Longrightarrow> any_result f xs = Ok (\<exists>x \<in> set xs. P x)"
  by (induction xs) auto

lemma filter_zip_map: "map fst (filter snd (zip xs (map P xs))) = filter P xs"
  by (induction xs) auto

lemma sw_refine_one_ok:
  assumes "readable t" "subset_wf s" "\<forall>i \<in> set (rows s). i < length (sw_rows t)" "on_columns (sw_columns t) c"
  shows "\<exists>s'. sw_refine_one t s c = Some (Ok s') \<and> subset_wf s' \<and> rows s' = filter (\<lambda>i. sw_alive t i \<and> satisfies (sw_rows t ! i) c) (rows s)"
proof -
  have e: "sw_eval t [c] i = Ok (sw_alive t i \<and> satisfies (sw_rows t ! i) c)" if "i \<in> set (rows s)" for i
    using sw_eval_ok [of t i "[c]"] that assms by simp
  obtain s' where s': "retain s (\<lambda>i. sw_eval t [c] i = Ok True) = Ok s'" "subset_wf s'" "rows s' = filter (\<lambda>i. sw_eval t [c] i = Ok True) (rows s)"
    using retain_filters [OF assms(2)] by blast
  have "rows s' = filter (\<lambda>i. sw_alive t i \<and> satisfies (sw_rows t ! i) c) (rows s)"
    unfolding s'(3) using e by (intro filter_cong) auto
  moreover have "map_result (sw_eval t [c]) (rows s) = Ok (map (\<lambda>i. sw_alive t i \<and> satisfies (sw_rows t ! i) c) (rows s))"
    using e by (intro map_result_Ok) auto
  ultimately show ?thesis using s' by (simp add: sw_refine_one_def)
qed

lemma sw_refine_ref_ok:
  assumes "readable t" "subset_wf s" "\<forall>i \<in> set (rows s). i < length (sw_rows t)" "\<forall>c \<in> set cs. on_columns (sw_columns t) c"
  shows "\<exists>s'. sw_refine_ref t s cs check_live = Ok s' \<and> subset_wf s' \<and>
    rows s' = filter (\<lambda>i. sw_alive t i \<and> (\<forall>c \<in> set cs. satisfies (sw_rows t ! i) c)) (rows s)"
proof -
  let ?P = "\<lambda>i. sw_alive t i \<and> (\<forall>c \<in> set cs. satisfies (sw_rows t ! i) c)"
  have "map_result (sw_eval t cs) (rows s) = Ok (map ?P (rows s))"
    using sw_eval_ok [OF assms(1) _ assms(4)] assms(3) by (intro map_result_Ok) auto
  then have r: "sw_refine_ref t s cs check_live =
      (case s of Dense r \<Rightarrow> if length (filter ?P (rows s)) = subset_size s then Ok (Dense r) else Ok (Sparse (filter ?P (rows s)))
       | Sparse _ \<Rightarrow> Ok (Sparse (filter ?P (rows s))))"
    unfolding sw_refine_ref_def by (simp only: and_then_simps Let_def filter_zip_map)
  have small: "\<forall>i \<in> set (rows s). i < u32_max" using assms(1,3) by (auto simp: readable_def)
  have sparse: "subset_wf (Sparse (filter ?P (rows s)))" using sorted_rows [OF assms(2)] small by (simp add: sorted_wrt_filter)
  show ?thesis
  proof (cases s)
    case (Dense d)
    have len: "length (rows s) = subset_size s" using Dense by (simp add: subset_size_def range_size_def)
    have all: "filter ?P (rows s) = rows s" if same: "length (filter ?P (rows s)) = subset_size s"
    proof (rule filter_True, rule ballI, rule ccontr)
      fix i assume "i \<in> set (rows s)" "\<not> ?P i"
      from length_filter_less [of _ _ ?P, OF this] same len show False by simp
    qed
    show ?thesis
    proof (cases "length (filter ?P (rows s)) = subset_size s")
      case True
      with r Dense all assms(2) show ?thesis by (intro exI [of _ s]) simp
    qed (use r Dense sparse in \<open>simp\<close>)
  qed (use r sparse in \<open>simp\<close>)
qed

lemma sw_contains_match_ok:
  assumes "readable t" "\<forall>i \<in> set (rows s). i < length (sw_rows t)" "\<forall>c \<in> set cs. on_columns (sw_columns t) c"
  shows "sw_contains_match t s cs = Ok (\<exists>i \<in> set (rows s). sw_alive t i \<and> (\<forall>c \<in> set cs. satisfies (sw_rows t ! i) c))"
  unfolding sw_contains_match_def using sw_eval_ok [OF assms(1) _ assms(3)] assms(2) by (intro any_result_ok) auto

section \<open>Lookups\<close>

context keyed_env
begin

lemma sw_get_entry_ok:
  assumes wf: "sw_wf env t" and key: "sw_keys t \<le> length key"
  shows "\<exists>found. sw_get_entry env t key = Ok found \<and>
    (case found of None \<Rightarrow> sw_contents t key = None
     | Some i \<Rightarrow> \<exists>r. sw_live t i = Some r \<and> sw_contents t key = Some r \<and> rd_get_row (sw_data t) i = Ok (Some r) \<and> length r = sw_columns t)"
proof -
  let ?K = "key_hash env (sw_log2 t)" and ?nk = "sw_keys t"
  obtain k h where kh: "?K (take ?nk key) = (k, h)" by force
  have w: "sw_log2 t < 64" "length (sw_shards t) = 2 ^ sw_log2 t" "rd_wf (sw_columns t) (sw_data t)" "?nk \<le> sw_columns t"
    using wf by (auto simp: sw_wf_def)
  have d: "denotes ?nk (sw_live t) (sw_contents t)" unfolding sw_contents_def using unique_keys_denotes wf by (auto simp: sw_wf_def)
  have k: "k < length (sw_shards t)"
    using shard_id_bound [OF w(1)] w(2) kh by (auto simp: key_hash_def Let_def)
  then have ix: "indexed (sw_columns t) ?nk ?K k (sw_shards t ! k) (sw_data t)" using wf w(2) by (simp add: sw_wf_def)
  show ?thesis
  proof (cases "env_find env (hash_probe h) (key_eq (sw_data t) ?nk h key) (sw_shards t ! k)")
    case None
    have "take ?nk r \<noteq> key" if "sw_live t i = Some r" for i r
    proof
      assume "take ?nk r = key"
      with key have "length key = ?nk" by auto
      with kh have "?K key = (k, h)" by simp
      from find_key_None [OF ix None this that] \<open>take ?nk r = key\<close> show False by simp
    qed
    then have "sw_contents t key = None" using denotes_None [OF d] by blast
    with None kh k key indexed_checks(1) [OF ix] show ?thesis
      by (simp add: sw_get_entry_def shard_hash_def)
  next
    case (Some p)
    from find_key_Some [OF ix Some] obtain r where r: "p < length (sw_shards t ! k)" "sw_live t (te_row (sw_shards t ! k ! p)) = Some r" "take ?nk r = key" by blast
    with denotes_lookup [OF d r(2)] Some kh k key indexed_checks(1) [OF ix] rd_get_live [OF w(3) r(2)] rd_live_length [OF w(3) r(2)] show ?thesis
      by (simp add: sw_get_entry_def shard_hash_def)
  qed
qed

end

text \<open>
  C6: Lookups in the keyed table.  A lookup never panics on a key of the right width: it returns the row
  of the contents with that key, with its row id, or nothing if there is none; the lookup of one column
  agrees; and a key with too few columns is an index out of bounds.
\<close>

theorem keyed_lookup_exact:
  assumes "keyed_env env" "sw_wf env t"
  shows "(length key < sw_keys t \<longrightarrow> sw_get_row env t key = Err IndexOutOfBounds) \<and>
    (sw_keys t \<le> length key \<longrightarrow> (\<exists>res. sw_get_row env t key = Ok res \<and> map_option snd res = sw_contents t key \<and>
      (\<forall>i r. res = Some (i, r) \<longrightarrow> sw_live t i = Some r) \<and>
      (\<forall>col < sw_columns t. sw_get_row_column env t key col = Ok (map_option (\<lambda>r. r ! col) (sw_contents t key)))))"
proof (intro conjI impI)
  assume "length key < sw_keys t"
  then show "sw_get_row env t key = Err IndexOutOfBounds"
    by (simp add: sw_get_row_def sw_get_entry_def shard_hash_def vec_slice_def)
next
  assume "sw_keys t \<le> length key"
  from keyed_env.sw_get_entry_ok [OF assms this] obtain found where f: "sw_get_entry env t key = Ok found"
    "case found of None \<Rightarrow> sw_contents t key = None
     | Some i \<Rightarrow> \<exists>r. sw_live t i = Some r \<and> sw_contents t key = Some r \<and> rd_get_row (sw_data t) i = Ok (Some r) \<and> length r = sw_columns t" by blast
  then show "\<exists>res. sw_get_row env t key = Ok res \<and> map_option snd res = sw_contents t key \<and>
      (\<forall>i r. res = Some (i, r) \<longrightarrow> sw_live t i = Some r) \<and>
      (\<forall>col < sw_columns t. sw_get_row_column env t key col = Ok (map_option (\<lambda>r. r ! col) (sw_contents t key)))"
    by (cases found) (auto simp: sw_get_row_def sw_get_row_column_def)
qed

theorem keyed_lookup_exact_witness:
  "sw_get_row_column one_hash_env sample_keyed [6] 1 = Ok (Some 5)"
  using keyed_lookup_exact [OF one_hash_keyed one_hash_wf(1), of "[6]"] unfolding one_hash_wf(3) by (auto simp: sample_keyed_def)

section \<open>Fast subsets\<close>

text \<open>Where the rows from the offset \<open>p\<close> on start, in a table of \<open>n\<close> rows.\<close>

definition start_of :: "(val \<times> nat) list \<Rightarrow> nat \<Rightarrow> nat \<Rightarrow> nat" where
  "start_of offs n p = (case get_opt offs p of Some (_, r) \<Rightarrow> r | None \<Rightarrow> n)"

lemma offset_split:
  assumes o: "offs_ok sort_by offs n L" and Q: "\<And>a b :: val. Q a \<Longrightarrow> a \<le> b \<Longrightarrow> Q b"
    and before: "\<And>j. j < p \<Longrightarrow> j < length offs \<Longrightarrow> \<not> Q (fst (offs ! j))" and after: "\<And>j. p \<le> j \<Longrightarrow> j < length offs \<Longrightarrow> Q (fst (offs ! j))"
    and r: "L i = Some r"
  shows "i < start_of offs n p \<longleftrightarrow> \<not> Q (r ! sort_by)"
proof -
  have i: "i < n" "covers offs i (r ! sort_by)" using o r by (auto simp: offs_ok_def)
  then obtain s where s: "(r ! sort_by, s) \<in> set offs" "s \<le> i" "\<forall>w s'. (w, s') \<in> set offs \<longrightarrow> r ! sort_by < w \<longrightarrow> i < s'"
    by (auto simp: covers_def)
  then obtain j where j: "j < length offs" "offs ! j = (r ! sort_by, s)" by (auto simp: in_set_conv_nth)
  have srt: "sorted_wrt (\<lambda>x y. fst x < fst y \<and> snd x < snd y) offs" using o by (simp add: offs_ok_def)
  show ?thesis
  proof (cases "Q (r ! sort_by)")
    case True
    then have pj: "p \<le> j" using before [of j] j by (metis fst_conv not_le)
    have "snd (offs ! p) \<le> s"
    proof (cases "p = j")
      case False
      with pj j(1) sorted_wrt_nth_less [OF srt, of p j] j(2) show ?thesis by simp
    qed (use j in simp)
    with s(2) pj j(1) True show ?thesis by (simp add: start_of_def get_opt_def split: prod.split) (metis leD le_trans snd_conv)
  next
    case False
    have "i < snd (offs ! p)" if "p < length offs"
    proof -
      have "r ! sort_by < fst (offs ! p)" using after [of p] that Q [of "fst (offs ! p)" "r ! sort_by"] False not_le by blast
      with s(3) that show ?thesis by (metis nth_mem prod.collapse)
    qed
    with False i(1) show ?thesis by (simp add: start_of_def get_opt_def split: prod.split) (metis snd_conv)
  qed
qed

lemma start_of_le: "offs_ok sort_by offs n L \<Longrightarrow> start_of offs n p \<le> n"
  by (auto simp: start_of_def get_opt_def offs_ok_def split: prod.splits) (metis nat_less_le nth_mem snd_conv)

lemma start_of_mono:
  assumes "offs_ok sort_by offs n L" "p \<le> q"
  shows "start_of offs n p \<le> start_of offs n q"
proof (cases "p = q \<or> length offs \<le> q")
  case True
  then show ?thesis using start_of_le [OF assms(1), of p] by (auto simp: start_of_def get_opt_def split: if_splits)
next
  case False
  with assms sorted_wrt_nth_less [of "\<lambda>x y. fst x < fst y \<and> snd x < snd y" offs p q] show ?thesis
    by (auto simp: start_of_def get_opt_def offs_ok_def split: prod.splits)
qed

lemma dense_live:
  assumes "s \<le> e" "e \<le> n" "n \<le> u32_max" "\<And>i. i < n \<Longrightarrow> alive i \<Longrightarrow> P i \<longleftrightarrow> s \<le> i \<and> i < e"
  shows "subset_wf (Dense (range_new s e)) \<and> distinct (rows (Dense (range_new s e))) \<and> (\<forall>i \<in> set (rows (Dense (range_new s e))). i < n) \<and>
    filter alive (rows (Dense (range_new s e))) = filter (\<lambda>i. alive i \<and> P i) [0..<n]"
proof -
  have all: "[0..<n] = [0..<s] @ [s..<e] @ [e..<n]"
    using assms(1,2) upt_add_eq_append [of 0 s "n - s"] upt_add_eq_append [of s e "n - e"] by simp
  have "filter (\<lambda>i. alive i \<and> P i) [0..<n] = filter (\<lambda>i. alive i \<and> s \<le> i \<and> i < e) [0..<n]"
    using assms(4) by (intro filter_cong) auto
  also have "\<dots> = filter alive [s..<e]" unfolding all by (auto simp: filter_empty_conv intro!: filter_cong)
  finally show ?thesis using assms(1-3) by (simp add: range_new_def)
qed

context slice_search
begin

lemma sort_search_ok:
  assumes t: "readable t"
  defines "S \<equiv> start_of (sw_offsets t) (length (sw_rows t))"
  obtains p where "binary_search_sort_val bs t v = Ok (Inl (S p))" "\<And>i r. sw_live t i = Some r \<Longrightarrow> i < S p \<longleftrightarrow> r ! sw_sort_by t < v"
      "\<And>i r. sw_live t i = Some r \<Longrightarrow> r ! sw_sort_by t \<noteq> v"
    | p where "binary_search_sort_val bs t v = Ok (Inr (S p, S (p + 1)))" "\<And>i r. sw_live t i = Some r \<Longrightarrow> i < S p \<longleftrightarrow> r ! sw_sort_by t < v"
      "\<And>i r. sw_live t i = Some r \<Longrightarrow> i < S (p + 1) \<longleftrightarrow> r ! sw_sort_by t \<le> v"
proof -
  let ?offs = "sw_offsets t"
  have o: "offs_ok (sw_sort_by t) ?offs (length (sw_rows t)) (sw_live t)" using t by (simp add: readable_def)
  then have srt: "sorted_wrt (\<lambda>x y. fst x < fst y \<and> snd x < snd y) ?offs" by (simp add: offs_ok_def)
  then have srt': "sorted_wrt (<) (map fst ?offs)" by (simp add: sorted_wrt_map) (rule sorted_wrt_mono_rel [OF _ srt], simp)
  then have sorted: "sorted (map fst ?offs)" by (rule strict_sorted_imp_sorted)
  have less: "fst (?offs ! i) < fst (?offs ! j)" if "i < j" "j < length ?offs" for i j using sorted_wrt_nth_less [OF srt that] by simp
  have wf: "rd_wf (sw_columns t) (sw_data t)" "length (sw_rows t) \<le> u32_max" using t by (simp_all add: readable_def)
  have n: "rd_next_row (sw_data t) = Ok (length (sw_rows t))" using rd_len [OF wf(1)] wf(2) by (simp add: rd_next_row_def)
  show thesis
  proof (cases "bs (map fst ?offs) v")
    case (Inl p)
    note nf = not_found [OF sorted Inl]
    have b: "binary_search_sort_val bs t v = Ok (Inl (S p))" using Inl n by (simp add: binary_search_sort_val_def S_def start_of_def)
    have lt: "i < S p \<longleftrightarrow> \<not> v \<le> r ! sw_sort_by t" if "sw_live t i = Some r" for i r
      unfolding S_def by (rule offset_split [OF o _ _ _ that, of "\<lambda>x. v \<le> x"]) (use nf in \<open>auto simp: not_le less_imp_le\<close>)
    have gt: "i < S p \<longleftrightarrow> \<not> v < r ! sw_sort_by t" if "sw_live t i = Some r" for i r
      unfolding S_def by (rule offset_split [OF o _ _ _ that, of "\<lambda>x. v < x"]) (use nf in \<open>auto simp: not_less less_imp_le\<close>)
    show thesis by (rule that(1) [OF b]) (use lt gt in \<open>fastforce+\<close>)
  next
    case (Inr p)
    note f = found [OF sorted Inr]
    then have p: "p < length ?offs" "fst (?offs ! p) = v" by auto
    obtain s where s: "?offs ! p = (v, s)" using p(2) by (metis prod.collapse)
    have b: "binary_search_sort_val bs t v = Ok (Inr (S p, S (p + 1)))"
      using Inr n p(1) s by (simp add: binary_search_sort_val_def S_def start_of_def get_opt_def)
    have lt: "i < S p \<longleftrightarrow> \<not> v \<le> r ! sw_sort_by t" if "sw_live t i = Some r" for i r
      unfolding S_def
    proof (rule offset_split [OF o _ _ _ that, of "\<lambda>x. v \<le> x"])
      show "v \<le> fst (?offs ! j)" if "p \<le> j" "j < length ?offs" for j
        using less [of p j] that p(2) by (cases "p = j") auto
      show "\<not> v \<le> fst (?offs ! j)" if "j < p" for j using less [OF that p(1)] p(2) by simp
    qed auto
    have gt: "i < S (p + 1) \<longleftrightarrow> \<not> v < r ! sw_sort_by t" if "sw_live t i = Some r" for i r
      unfolding S_def
    proof (rule offset_split [OF o _ _ _ that, of "\<lambda>x. v < x"])
      show "\<not> v < fst (?offs ! j)" if "j < p + 1" "j < length ?offs" for j
        using less [of j p] that p by (cases "p = j") auto
    qed (use less [of p] p in auto)
    show thesis by (rule that(2) [OF b]) (use lt gt in fastforce)+
  qed
qed

lemma sw_fast_subset_ok:
  assumes t: "readable t" and c: "on_columns (sw_columns t) c"
  shows "\<exists>r. sw_fast_subset bs t c = Ok r \<and>
    (\<forall>s. r = Some s \<longrightarrow> subset_wf s \<and> distinct (rows s) \<and> (\<forall>i \<in> set (rows s). i < length (sw_rows t)) \<and>
      filter (sw_alive t) (rows s) = filter (\<lambda>i. sw_alive t i \<and> satisfies (sw_rows t ! i) c) [0..<length (sw_rows t)])"
proof -
  let ?n = "length (sw_rows t)" and ?S = "start_of (sw_offsets t) (length (sw_rows t))"
  have o: "offs_ok (sw_sort_by t) (sw_offsets t) ?n (sw_live t)" and n: "?n \<le> u32_max" "rd_next_row (sw_data t) = Ok ?n"
    using t rd_len [of "sw_columns t" "sw_data t"] by (simp_all add: readable_def rd_next_row_def)
  note le = start_of_le [OF o] and mono = start_of_mono [OF o, of p "p + 1" for p]
  have good: "\<exists>r. Ok (Some (Dense (range_new s e))) = (Ok r :: subset option result) \<and> (\<forall>s. r = Some s \<longrightarrow> subset_wf s \<and> distinct (rows s) \<and> (\<forall>i \<in> set (rows s). i < ?n) \<and>
      filter (sw_alive t) (rows s) = filter (\<lambda>i. sw_alive t i \<and> satisfies (sw_rows t ! i) c) [0..<?n])"
    if "s \<le> e" "e \<le> ?n" "\<And>i r. sw_live t i = Some r \<Longrightarrow> satisfies r c \<longleftrightarrow> s \<le> i \<and> i < e" for s e
    using dense_live [of s e ?n "sw_alive t" "\<lambda>i. satisfies (sw_rows t ! i) c"] that n(1) sw_alive_row [of t] by auto
  have lt: "i < ?n" if "sw_live t i = Some r" for i r using that by (simp add: live_at_Some)
  show ?thesis
  proof (cases "\<exists>v. c = CEqConst (sw_sort_by t) v \<or> c = CLtConst (sw_sort_by t) v \<or> c = CGtConst (sw_sort_by t) v \<or> c = CLeConst (sw_sort_by t) v \<or> c = CGeConst (sw_sort_by t) v")
    case False
    then have "sw_fast_subset bs t c = Ok None" by (cases c) (auto simp: sw_fast_subset_def)
    then show ?thesis by simp
  next
    case True
    then obtain v where v: "c = CEqConst (sw_sort_by t) v \<or> c = CLtConst (sw_sort_by t) v \<or> c = CGtConst (sw_sort_by t) v \<or> c = CLeConst (sw_sort_by t) v \<or> c = CGeConst (sw_sort_by t) v" by blast
    show ?thesis
    proof (rule sort_search_ok [OF t, of v])
      fix p assume b: "binary_search_sort_val bs t v = Ok (Inl (?S p))"
        and p: "\<And>i r. sw_live t i = Some r \<Longrightarrow> (i < ?S p) = (r ! sw_sort_by t < v)" "\<And>i r. sw_live t i = Some r \<Longrightarrow> r ! sw_sort_by t \<noteq> v"
      have upper: "(?S p \<le> i \<and> i < ?n) = (v \<le> r ! sw_sort_by t)" if "sw_live t i = Some r" for i r
        using p(1) [OF that] lt [OF that] by linarith
      have upper': "(?S p \<le> i \<and> i < ?n) = (v < r ! sw_sort_by t)" if "sw_live t i = Some r" for i r
        using upper [OF that] p(2) [OF that] by auto
      have lower: "(i < ?S p) = (r ! sw_sort_by t \<le> v)" if "sw_live t i = Some r" for i r
        using p [OF that] by auto
      from v show ?thesis
      proof (elim disjE)
        assume "c = CEqConst (sw_sort_by t) v"
        then show ?thesis using good [of 0 0] b p(2) by (simp add: sw_fast_subset_def subset_empty_def satisfies_def)
      next
        assume "c = CLtConst (sw_sort_by t) v"
        then show ?thesis using good [of 0 "?S p"] b p(1) le by (simp add: sw_fast_subset_def satisfies_def)
      next
        assume "c = CGtConst (sw_sort_by t) v"
        then show ?thesis using good [of "?S p" ?n] b upper' le n(2) by (simp add: sw_fast_subset_def satisfies_def)
      next
        assume "c = CLeConst (sw_sort_by t) v"
        then show ?thesis using good [of 0 "?S p"] b lower le by (simp add: sw_fast_subset_def satisfies_def)
      next
        assume "c = CGeConst (sw_sort_by t) v"
        then show ?thesis using good [of "?S p" ?n] b upper le n(2) by (simp add: sw_fast_subset_def satisfies_def)
      qed
    next
      fix p assume b: "binary_search_sort_val bs t v = Ok (Inr (?S p, ?S (p + 1)))"
        and p: "\<And>i r. sw_live t i = Some r \<Longrightarrow> (i < ?S p) = (r ! sw_sort_by t < v)" "\<And>i r. sw_live t i = Some r \<Longrightarrow> (i < ?S (p + 1)) = (r ! sw_sort_by t \<le> v)"
      have upper: "(?S p \<le> i \<and> i < ?n) = (v \<le> r ! sw_sort_by t)" "(?S (p + 1) \<le> i \<and> i < ?n) = (v < r ! sw_sort_by t)"
        "(?S p \<le> i \<and> i < ?S (p + 1)) = (r ! sw_sort_by t = v)" if "sw_live t i = Some r" for i r
        using p [OF that] lt [OF that] by linarith+
      from v show ?thesis
      proof (elim disjE)
        assume "c = CEqConst (sw_sort_by t) v"
        then show ?thesis using good [of "?S p" "?S (p + 1)"] b upper(3) mono [of p] le by (simp add: sw_fast_subset_def satisfies_def)
      next
        assume "c = CLtConst (sw_sort_by t) v"
        then show ?thesis using good [of 0 "?S p"] b p(1) le by (simp add: sw_fast_subset_def satisfies_def)
      next
        assume "c = CGtConst (sw_sort_by t) v"
        then show ?thesis using good [of "?S (p + 1)" ?n] b upper(2) le n(2) by (simp add: sw_fast_subset_def satisfies_def)
      next
        assume "c = CLeConst (sw_sort_by t) v"
        then show ?thesis using good [of 0 "?S (p + 1)"] b p(2) le by (simp add: sw_fast_subset_def satisfies_def)
      next
        assume "c = CGeConst (sw_sort_by t) v"
        then show ?thesis using good [of "?S p" ?n] b upper(1) le n(2) by (simp add: sw_fast_subset_def satisfies_def)
      qed
    qed
  qed
qed

end

section \<open>The keyed table keeps the promises\<close>

sublocale slice_search \<subseteq> sorted_view: table_view readable "\<lambda>t. length (sw_rows t)" sw_columns sw_alive "\<lambda>t i. sw_rows t ! i"
    sw_all sw_refine_one "sw_fast_subset bs"
proof
  fix t s c
  assume t: "readable t"
  then have wf: "rd_wf (sw_columns t) (sw_data t)" "length (sw_rows t) \<le> u32_max" by (simp_all add: readable_def)
  show "0 < sw_columns t" using rd_wf_pos [OF wf(1)] .
  show "\<exists>s. sw_all t = Ok s \<and> subset_wf s \<and> rows s = [0..<length (sw_rows t)]"
    using rd_len [OF wf(1)] wf(2) by (simp add: sw_all_def rd_next_row_def range_new_def)
  show "\<exists>s'. sw_refine_one t s c = Some (Ok s') \<and> subset_wf s' \<and> rows s' = filter (\<lambda>i. sw_alive t i \<and> satisfies (sw_rows t ! i) c) (rows s)"
    if "subset_wf s" "\<forall>i \<in> set (rows s). i < length (sw_rows t)" "on_columns (sw_columns t) c"
    using sw_refine_one_ok [OF t that] .
  show "\<exists>r. sw_fast_subset bs t c = Ok r \<and> (\<forall>s. r = Some s \<longrightarrow> subset_wf s \<and> distinct (rows s) \<and> (\<forall>i \<in> set (rows s). i < length (sw_rows t)) \<and>
      filter (sw_alive t) (rows s) = filter (\<lambda>i. sw_alive t i \<and> satisfies (sw_rows t ! i) c) [0..<length (sw_rows t)])"
    if "on_columns (sw_columns t) c" using sw_fast_subset_ok [OF t that] .
qed

context slice_search
begin

lemmas sorted_split = sorted_view.split_fast_slow_ok

end

section \<open>Scans and splits are exact\<close>

text \<open>
  C21: Scans of the keyed table.  On a subset inside the table, a scan that may stop early, refinement
  and the search for one match select the same rows: the live rows of the subset that satisfy all
  constraints, in order; stale rows are never seen, whether or not there are constraints, and nothing
  panics.
\<close>

theorem keyed_scan_exact:
  assumes "sw_wf env t" "subset_wf s" "\<forall>i \<in> set (rows s). i < length (sw_rows t)" "rows s \<noteq> []" "\<forall>c \<in> set cs. on_columns (sw_columns t) c"
  shows "\<exists>hits s'. hits = filter (\<lambda>i. sw_alive t i \<and> (\<forall>c \<in> set cs. satisfies (sw_rows t ! i) c)) (rows s) \<and>
    sw_scan_bounded t s 0 (length (rows s)) cs = Ok (map (\<lambda>i. (i, sw_rows t ! i)) hits, None) \<and>
    (cs = [] \<longrightarrow> sw_scan t s = Ok (map (\<lambda>i. (i, sw_rows t ! i)) hits)) \<and>
    sw_refine_ref t s cs check_live = Ok s' \<and> subset_wf s' \<and> rows s' = hits \<and> sw_contains_match t s cs = Ok (hits \<noteq> [])"
proof -
  note t = sw_wf_readable [OF assms(1)]
  have len: "buf_len (rd_data (sw_data t)) = length (sw_rows t)" using t rd_len [of "sw_columns t" "sw_data t"] by (simp add: readable_def)
  obtain lo hi where b: "bounds s = Ok (Some (lo, hi))" "hi \<le> length (sw_rows t)" using bounds_within [OF assms(2-4)] by blast
  have it: "iter_bounded s 0 (length (rows s)) = Ok (rows s, None)" using iter_bounded_ok [OF assms(2), of 0 "length (rows s)"] by simp
  note visit = sw_visit_ok [OF t assms(3)]
  show ?thesis
    using b it len visit [OF assms(5)] visit [of "[]"] sw_refine_ref_ok [OF t assms(2,3,5), of check_live] sw_contains_match_ok [OF t assms(3,5)]
    by (auto simp: sw_scan_bounded_def sw_scan_def filter_empty_conv)
qed

theorem keyed_scan_exact_witness:
  "sw_contains_match sample_keyed (Dense (range_new 0 1)) [CLtConst 1 9] = Ok True"
proof -
  have s: "subset_wf (Dense (range_new 0 1))" "\<forall>i \<in> set (rows (Dense (range_new 0 1))). i < length (sw_rows sample_keyed)"
    "rows (Dense (range_new 0 1)) \<noteq> []" "\<forall>c \<in> set [CLtConst 1 9]. on_columns (sw_columns sample_keyed) c"
    unfolding sample_rows(1) by (simp_all add: range_new_def u32_max_def on_columns_def sample_keyed_def)
  have "sw_alive sample_keyed 0" by (simp add: live_at_def sample_rows(1) is_stale_def stale_def u32_max_def)
  with keyed_scan_exact [OF one_hash_wf(1) s] show ?thesis
    unfolding sample_rows(1) by (auto simp: range_new_def satisfies_def)
qed

text \<open>
  Splitting the constraints of a query on the keyed table.  Constraints on the sort column get a
  range of rows by binary search in the offsets, the others stay; the split loses none, the live rows of
  the subset are those that satisfy the fast constraints, and refining by the slow ones leaves exactly
  the live rows that satisfy all.
\<close>

theorem keyed_split_exact:
  assumes "slice_search bs" "sw_wf env t" "\<forall>c \<in> set cs. on_columns (sw_columns t) c"
  shows "\<exists>s fast slow s'. split_fast_slow bs (sw_all t) (sw_fast_subset bs t) cs = Some (Ok (s, fast, slow)) \<and> mset fast + mset slow = mset cs \<and>
    filter (sw_alive t) (rows s) = filter (\<lambda>i. sw_alive t i \<and> (\<forall>c \<in> set fast. satisfies (sw_rows t ! i) c)) [0..<length (sw_rows t)] \<and>
    tbl_refine (sw_refine_one t) s slow = Some (Ok s') \<and>
    filter (sw_alive t) (rows s') = filter (\<lambda>i. sw_alive t i \<and> (\<forall>c \<in> set cs. satisfies (sw_rows t ! i) c)) [0..<length (sw_rows t)]"
  using slice_search.sorted_split [OF assms(1) sw_wf_readable [OF assms(2)] assms(1,3)] .

theorem keyed_split_exact_witness:
  "\<exists>s fast slow. split_fast_slow std_binary_search (sw_all sample_keyed) (sw_fast_subset std_binary_search sample_keyed) [CGeConst 2 0, CEqConst 1 4] =
     Some (Ok (s, fast, slow)) \<and> mset fast + mset slow = {#CGeConst 2 0, CEqConst 1 4#}"
proof -
  have "\<forall>c \<in> set [CGeConst 2 0, CEqConst 1 4]. on_columns (sw_columns sample_keyed) c" by (simp add: on_columns_def sample_keyed_def)
  from keyed_split_exact [OF slice_search_std one_hash_wf(1) this] show ?thesis by auto
qed

end
