(* ===== verification/KeyedTable.thy ===== *)
theory KeyedTable
  imports AddTable SortedStage SortedQuery Canonical
begin

text \<open>
  The keyed tables of the e-graph: the table of \<open>core-relations\<close> with a merge function that the bridge
  compiled.  The locale \<open>bridge_table\<close> says what such a table relies on; it is a \<open>merging_env\<close>, so the
  theorems on merges hold of it.
\<close>

section \<open>Tables with compiled merges\<close>

locale bridge_table = keyed_env "bridge_table_env hash search ops sm actions cols"
  for hash search and ops :: "'st state_ops" and sm actions cols +
  assumes wf_merge: "merge_wf ops sm actions cols"

sublocale bridge_table \<subseteq> merging_env "bridge_table_env hash search ops sm actions cols" "sm_n_keys sm" "table_columns sm" "ts_col sm"
proof
  fix cur new :: row and x :: 'st
  assume rows: "length cur = table_columns sm" "length new = table_columns sm" and live: "\<not> is_stale (cur ! 0)" "\<not> is_stale (new ! 0)"
  have sm: "schema_ok sm" using wf_merge by (simp add: merge_wf_def)
  from merge_callback_ok [OF wf_merge rows, of x] obtain merged out st' where
    m: "merge_callback ops sm actions cols x cur new = Ok (merged, out, st')"
    "merged \<longrightarrow> length out = table_columns sm \<and> take (sm_n_keys sm) out = take (sm_n_keys sm) new \<and> out ! ts_col sm = new ! ts_col sm" by blast
  have first: "out ! 0 = new ! 0" if "take (sm_n_keys sm) out = take (sm_n_keys sm) new"
    using that sm nth_take [of 0 "sm_n_keys sm" out] nth_take [of 0 "sm_n_keys sm" new] by (simp add: schema_ok_def)
  show "\<exists>merged out x'. env_merge (bridge_table_env hash search ops sm actions cols) x cur new = Ok (merged, out, x') \<and> (merged \<longrightarrow>
      length out = table_columns sm \<and> take (sm_n_keys sm) out = take (sm_n_keys sm) new \<and> \<not> is_stale (out ! 0) \<and> out ! ts_col sm = new ! ts_col sm)"
    using m first live(2) by (auto simp: bridge_table_env_def)
qed

text \<open>Constructors: one id column after the keys, merged by congruence.\<close>

definition constructor_math :: "bool \<Rightarrow> nat \<Rightarrow> schema_math" where
  "constructor_math sub k = \<lparr>sm_subsume = sub, sm_n_keys = k, sm_func_cols = Suc k, sm_n_identity_vals = None\<rparr>"

lemma union_merge_wf:
  "schema_ok sm \<Longrightarrow> n_vals sm = 1 \<Longrightarrow> merge_wf ops sm [] [RUnionId uf]"
  by (simp add: merge_wf_def)

interpretation constructor_table: bridge_table hash first_hit ops "constructor_math sub (Suc k)" "[]" "[RUnionId uf]" for hash ops sub k uf
proof -
  have "keyed_env (bridge_table_env hash first_hit ops (constructor_math sub (Suc k)) [] [RUnionId uf])"
    unfolding bridge_table_env_def by (rule first_hit_env.keyed_env_axioms)
  moreover have "merge_wf ops (constructor_math sub (Suc k)) [] [RUnionId uf]"
    by (rule union_merge_wf) (simp_all add: constructor_math_def schema_ok_def n_vals_def)
  ultimately show "bridge_table hash first_hit ops (constructor_math sub (Suc k)) [] [RUnionId uf]"
    by (simp add: bridge_table_def bridge_table_axioms_def)
qed

section \<open>Congruence\<close>

text \<open>The values that the rows of a table and of a list of new rows have for a key.\<close>

definition key_values :: "nat \<Rightarrow> (val list \<rightharpoonup> row) \<Rightarrow> row list \<Rightarrow> val list \<Rightarrow> val set" where
  "key_values nk m qs key =
     {r ! nk |r. m key = Some r} \<union> {q ! nk |q. q \<in> set qs \<and> \<not> is_stale (q ! 0) \<and> take nk q = key}"

definition same_key :: "nat \<Rightarrow> (val list \<rightharpoonup> row) \<Rightarrow> row list \<Rightarrow> (val \<times> val) set" where
  "same_key nk m qs = (\<Union>key. key_values nk m qs key \<times> key_values nk m qs key)"

definition pairs_of :: "row list \<Rightarrow> (val \<times> val) set" where
  "pairs_of rs = (\<lambda>r. (r ! 0, r ! 1)) ` set rs"

lemma union_callback:
  assumes sm: "schema_ok sm" "n_vals sm = 1" "sm_n_identity_vals sm \<noteq> Some 0"
    and rows: "length cur = table_columns sm" "length new = table_columns sm"
  defines "k \<equiv> sm_n_keys sm"
  shows "\<exists>merged out. merge_callback ops sm [] [RUnionId uf] st cur new =
      Ok (merged, out, if cur ! k \<noteq> new ! k then op_stage ops uf [cur ! k, new ! k, new ! ts_col sm] st else st) \<and>
    (if merged then length out = table_columns sm \<and> out ! k = min (cur ! k) (new ! k) else cur ! k = min (cur ! k) (new ! k))"
proof -
  let ?c = "\<lparr>c_cur = cur, c_new = new, c_keys = k, c_ts = new ! ts_col sm\<rparr>"
  let ?v = "min (cur ! k) (new ! k)"
  have cols: "sm_func_cols sm = Suc k" "Suc k < table_columns sm" "ts_col sm < length new" "k < length cur" "k < length new"
    using sm(1,2) rows by (auto simp: schema_ok_def n_vals_def table_columns_def ts_col_def k_def)
  have width: "sm_n_identity_vals sm = None \<or> sm_n_identity_vals sm = Some 1"
    using sm by (cases "sm_n_identity_vals sm") (auto simp: schema_ok_def)
  have one: "take 1 (drop k xs) = [xs ! k]" if "k < length xs" for xs :: row
    using that by (metis One_nat_def hd_drop_conv_nth take_Suc take_0 drop_eq_Nil leD)
  obtain same where same: "no_conflict sm [] cur new = Ok same" "same \<longrightarrow> cur ! k = new ! k"
    using width cols one by (elim disjE) (auto simp: no_conflict_def vec_slice_def k_def [symmetric] Let_def)
  have vals: "merge_values ops sm [] [RUnionId uf] ?c same st =
      Ok ([?v], cur ! k \<noteq> ?v, if cur ! k \<noteq> new ! k then op_stage ops uf [cur ! k, new ! k, new ! ts_col sm] st else st)"
    using same(2) cols by (auto simp: merge_values_def run_result_def val_col_def k_def [symmetric])
  from merge_row_ok [OF sm(1), of ?c "[?v]" "cur ! k \<noteq> ?v"] rows sm(2) obtain merged out where
    r: "merge_row sm ?c [?v] (cur ! k \<noteq> ?v) = Ok (merged, out)"
    "merged \<longrightarrow> length out = table_columns sm \<and> out ! val_col sm 0 = ?v" by auto
  have "\<not> merged \<Longrightarrow> cur ! k = ?v"
    using r(1) by (auto simp: merge_row_def and_then_eq_Ok_iff Let_def split: if_splits)
  with r same(1) vals cols(3) show ?thesis
    by (intro exI [of _ merged] exI [of _ out]) (auto simp: merge_callback_def val_col_def k_def [symmetric])
qed


lemma key_values_Nil: "key_values nk m [] key = set_option (map_option (\<lambda>r. r ! nk) (m key))"
  by (cases "m key") (auto simp: key_values_def)

lemma key_values_stale: "is_stale (q ! 0) \<Longrightarrow> key_values nk m (q # qs) = key_values nk m qs"
  by (auto simp: key_values_def fun_eq_iff)

lemma key_values_live:
  assumes "\<not> is_stale (q ! 0)"
  shows "key_values nk m (q # qs) key =
    (if key = take nk q then insert (q ! nk) (key_values nk m qs key) else key_values nk m qs key)"
  using assms by (auto simp: key_values_def)

lemma key_values_upd:
  "key_values nk (m(k \<mapsto> r)) qs key =
   (if key = k then insert (r ! nk) (key_values nk (\<lambda>_. None) qs key) else key_values nk m qs key)"
  by (auto simp: key_values_def)

lemma key_values_split: "key_values nk m qs key = set_option (map_option (\<lambda>r. r ! nk) (m key)) \<union> key_values nk (\<lambda>_. None) qs key"
  by (cases "m key") (auto simp: key_values_def)

lemma finite_key_values: "finite (key_values nk m qs key)"
proof -
  have "{q ! nk |q. q \<in> set qs \<and> \<not> is_stale (q ! 0) \<and> take nk q = key} \<subseteq> (\<lambda>q. q ! nk) ` set qs" by auto
  then have "finite {q ! nk |q. q \<in> set qs \<and> \<not> is_stale (q ! 0) \<and> take nk q = key}" by (rule finite_subset) simp
  then show ?thesis by (cases "m key") (simp_all add: key_values_def)
qed

text \<open>
  Replacing two values of a key by the lesser one, and relating the two, changes neither the least value
  nor the equivalence.
\<close>

lemma Min_lesser: "finite V \<Longrightarrow> Min (insert (min a b) V) = Min (insert a (insert b V))" for a b :: nat
  by (cases "V = {}") (simp_all add: min.assoc)

lemma closure_lesser:
  fixes a b :: nat
  assumes same: "\<And>k'. k' \<noteq> k \<Longrightarrow> V k' = W k'" and at: "V k = insert a (insert b U)" "W k = insert (min a b) U"
  shows "eq_closure ({(a, b)} \<union> (\<Union>k. W k \<times> W k)) = eq_closure (\<Union>k. V k \<times> V k)"
proof
  let ?E = "eq_closure ({(a, b)} \<union> (\<Union>k. W k \<times> W k))"
  have sub: "W k' \<subseteq> V k'" for k' using same [of k'] at by (cases "k' = k") (auto simp: min_def)
  have ab: "(a, b) \<in> V k \<times> V k" using at by simp
  show "?E \<subseteq> eq_closure (\<Union>k. V k \<times> V k)"
  proof (rule eq_closure_mono)
    show "{(a, b)} \<union> (\<Union>k. W k \<times> W k) \<subseteq> (\<Union>k. V k \<times> V k)" using sub ab by blast
  qed
  show "eq_closure (\<Union>k. V k \<times> V k) \<subseteq> ?E"
  proof (rule eq_closure_least [OF _ equiv_eq_closure])
    have base: "(a, b) \<in> ?E" by (rule eq_closure_base) simp
    have low: "(x, min a b) \<in> ?E" if "x \<in> V k" for x
    proof -
      from that have "x = a \<or> x = b \<or> x \<in> U" unfolding at by simp
      then consider "x = a" | "x = b" | "x \<in> U" by blast
      then show ?thesis
      proof cases
        case 3
        then have "(x, min a b) \<in> W k \<times> W k" using at by simp
        then show ?thesis by (intro eq_closure_base) blast
      qed (use base in \<open>auto simp: min_def intro: eq_closure_sym\<close>)
    qed
    have "(x, y) \<in> ?E" if "x \<in> V k'" "y \<in> V k'" for k' x y
    proof (cases "k' = k")
      case True
      with low [of x] low [of y] that show ?thesis by (blast intro: eq_closure_trans eq_closure_sym)
    next
      case False
      with same that have "(x, y) \<in> W k' \<times> W k'" by simp
      then show ?thesis by (intro eq_closure_base) blast
    qed
    then show "(\<Union>k. V k \<times> V k) \<subseteq> ?E" by blast
  qed
qed

lemma congruence_fold:
  fixes ops :: "'st state_ops" and log :: "'st \<Rightarrow> row list"
  assumes sm: "schema_ok sm" "n_vals sm = 1" "sm_n_identity_vals sm \<noteq> Some 0"
    and env: "env_merge env = merge_callback ops sm [] [RUnionId uf]"
    and log: "\<And>r st. log (op_stage ops uf r st) = log st @ [r]"
  defines "k \<equiv> sm_n_keys sm"
  shows "\<forall>q \<in> set qs. length q = table_columns sm \<Longrightarrow> \<forall>key r. m key = Some r \<longrightarrow> length r = table_columns sm \<Longrightarrow>
    fold (abs_insert env k) qs (m, st, b) = (m', st', b') \<Longrightarrow>
    (\<forall>key. case m' key of None \<Rightarrow> key_values k m qs key = {} | Some r \<Rightarrow> key_values k m qs key \<noteq> {} \<and> r ! k = Min (key_values k m qs key)) \<and>
    (\<exists>new. log st' = log st @ new \<and> eq_closure (pairs_of new) = eq_closure (same_key k m qs))"
proof (induction qs arbitrary: m st b)
  case Nil
  have "same_key k m [] \<subseteq> Id" by (auto simp: same_key_def key_values_Nil)
  then have "eq_closure (same_key k m []) \<subseteq> eq_closure {}"
    by (intro eq_closure_least [OF _ equiv_eq_closure]) auto
  then have "eq_closure (same_key k m []) = eq_closure {}" using eq_closure_mono [of "{}" "same_key k m []"] by blast
  with Nil show ?case by (auto simp: key_values_Nil pairs_of_def split: option.split)
next
  case (Cons q qs)
  have q: "length q = table_columns sm" "\<forall>q \<in> set qs. length q = table_columns sm" using Cons.prems(1) by auto
  let ?key = "take k q"
  show ?case
  proof (cases "is_stale (q ! 0)")
    case True
    then have "abs_insert env k q (m, st, b) = (m, st, b)" by (simp add: abs_insert_def)
    with Cons.prems(3) have "fold (abs_insert env k) qs (m, st, b) = (m', st', b')" by simp
    from Cons.IH [OF q(2) Cons.prems(2) this] show ?thesis unfolding same_key_def key_values_stale [OF True] .
  next
    case live: False
    show ?thesis
    proof (cases "m ?key")
      case None
      with live have "abs_insert env k q (m, st, b) = (m(?key \<mapsto> q), st, True)" by (simp add: abs_insert_def)
      with Cons.prems(3) have f: "fold (abs_insert env k) qs (m(?key \<mapsto> q), st, True) = (m', st', b')" by simp
      have same: "key_values k (m(?key \<mapsto> q)) qs = key_values k m (q # qs)"
        using None by (auto simp: fun_eq_iff key_values_live [OF live] key_values_upd key_values_split [of k m qs ?key])
      have "\<forall>key r. (m(?key \<mapsto> q)) key = Some r \<longrightarrow> length r = table_columns sm" using Cons.prems(2) q(1) by auto
      from Cons.IH [OF q(2) this f] show ?thesis unfolding same_key_def same .
    next
      case (Some cur)
      with Cons.prems(2) have "length cur = table_columns sm" by blast
      from union_callback [OF sm this q(1), of ops uf st] obtain merged out where
        cb: "merge_callback ops sm [] [RUnionId uf] st cur q =
          Ok (merged, out, if cur ! k \<noteq> q ! k then op_stage ops uf [cur ! k, q ! k, q ! ts_col sm] st else st)"
        "if merged then length out = table_columns sm \<and> out ! k = min (cur ! k) (q ! k) else cur ! k = min (cur ! k) (q ! k)"
        unfolding k_def by blast
      define st1 where "st1 = (if cur ! k \<noteq> q ! k then op_stage ops uf [cur ! k, q ! k, q ! ts_col sm] st else st)"
      define m1 where "m1 = (if merged then m(?key \<mapsto> out) else m)"
      define w where "w = (if merged then out else cur)"
      have "abs_insert env k q (m, st, b) = (m1, st1, b \<or> merged)"
        using live Some cb(1) by (simp add: abs_insert_def env st1_def m1_def)
      with Cons.prems(3) have f: "fold (abs_insert env k) qs (m1, st1, b \<or> merged) = (m', st', b')" by simp
      have m1: "m1 ?key = Some w" "w ! k = min (cur ! k) (q ! k)" "\<And>key. key \<noteq> ?key \<Longrightarrow> m1 key = m key"
        "\<forall>key r. m1 key = Some r \<longrightarrow> length r = table_columns sm"
        using cb(2) Some Cons.prems(2) by (auto simp: m1_def w_def split: if_splits)
      note IH = Cons.IH [OF q(2) m1(4) f]
      let ?U = "key_values k (\<lambda>_. None) qs ?key"
      have V: "key_values k m (q # qs) ?key = insert (cur ! k) (insert (q ! k) ?U)"
        "key_values k m1 qs ?key = insert (min (cur ! k) (q ! k)) ?U"
        using Some m1(1,2) by (simp_all add: key_values_live [OF live] key_values_split [of k m qs] key_values_split [of k m1 qs] insert_commute)
      have other: "key_values k m (q # qs) key = key_values k m1 qs key" if "key \<noteq> ?key" for key
        using that m1(3) [OF that] by (simp add: key_values_live [OF live] key_values_split [of k m qs] key_values_split [of k m1 qs])
      have vals: "key_values k m1 qs key = {} \<longleftrightarrow> key_values k m (q # qs) key = {}" "Min (key_values k m1 qs key) = Min (key_values k m (q # qs) key)" for key
        using V other [of key] Min_lesser [OF finite_key_values, of "cur ! k" "q ! k" k "\<lambda>_. None" qs ?key] by (cases "key = ?key"; simp)+
      from IH obtain new where new: "log st' = log st1 @ new" "eq_closure (pairs_of new) = eq_closure (same_key k m1 qs)" by blast
      have log1: "log st1 = log st @ (if cur ! k \<noteq> q ! k then [[cur ! k, q ! k, q ! ts_col sm]] else [])" by (simp add: st1_def log)
      let ?new = "(if cur ! k \<noteq> q ! k then [[cur ! k, q ! k, q ! ts_col sm]] else []) @ new"
      have "eq_closure (pairs_of ?new) = eq_closure ({(cur ! k, q ! k)} \<union> pairs_of new)"
      proof (cases "cur ! k = q ! k")
        case True
        then have "eq_closure ({(cur ! k, q ! k)} \<union> pairs_of new) \<subseteq> eq_closure (pairs_of new)"
          by (intro eq_closure_least [OF _ equiv_eq_closure]) (auto intro: eq_closure_base)
        with True show ?thesis using eq_closure_mono [of "pairs_of new" "{(cur ! k, q ! k)} \<union> pairs_of new"] by auto
      qed (simp add: pairs_of_def insert_is_Un [symmetric])
      also have "\<dots> = eq_closure ({(cur ! k, q ! k)} \<union> same_key k m1 qs)"
        using eq_closure_absorb [of "pairs_of new" "{(cur ! k, q ! k)}"] eq_closure_absorb [of "same_key k m1 qs" "{(cur ! k, q ! k)}"] new(2)
        by (simp add: Un_commute)
      also have "\<dots> = eq_closure (same_key k m (q # qs))"
        unfolding same_key_def 
        by (rule closure_lesser [where k = ?key and V = "key_values k m (q # qs)" and W = "key_values k m1 qs", OF _ V]) (simp add: other)
      finally have closed: "eq_closure (pairs_of ?new) = eq_closure (same_key k m (q # qs))" .
      have "log st' = log st @ ?new" using new(1) log1 by simp
      with conjunct1 [OF IH, unfolded vals] closed show ?thesis by blast
    qed
  qed
qed

section \<open>Properties\<close>

text \<open>A table with the layout of a function, ready to merge.\<close>

definition has_layout :: "schema_math \<Rightarrow> sorted_table \<Rightarrow> bool" where
  "has_layout sm t \<longleftrightarrow> sw_columns t = table_columns sm \<and> sw_keys t = sm_n_keys sm \<and> sw_sort_by t = ts_col sm"

definition ready :: "'e table_env \<Rightarrow> sorted_table \<Rightarrow> bool" where
  "ready env t \<longleftrightarrow> sw_wf env t \<and> pending_ok env t \<and> in_order (sw_sort_by t) (sw_offsets t) (staged_rows (ps_rows (sw_pending t))) \<and>
     length (sw_rows t) + length (staged_rows (ps_rows (sw_pending t))) \<le> u32_max"

context bridge_table
begin

lemma merge_ready:
  assumes "has_layout sm t" "ready (bridge_table_env hash search ops sm actions cols) t"
  shows "\<exists>t' st' added. sw_merge (bridge_table_env hash search ops sm actions cols) t st = Ok (added, t', st') \<and>
    sw_wf (bridge_table_env hash search ops sm actions cols) t' \<and>
    (sw_contents t', st', added) = merge_spec (bridge_table_env hash search ops sm actions cols) t st \<and>
    sw_pending t' = ps_clear (sw_pending t) \<and> same_layout t t' \<and>
    (sw_generation t' = sw_generation t \<and> appends_only (sw_rows t) (sw_rows t') \<or> sw_generation t' = sw_generation t + 1)"
  using sw_merge_ok [of t st] assms by (simp add: has_layout_def ready_def)

end

lemma bridge_tableI:
  "keyed_env (bridge_table_env hash search ops sm actions cols) \<Longrightarrow> merge_wf ops sm actions cols \<Longrightarrow> bridge_table hash search ops sm actions cols"
  by (simp add: bridge_table_def bridge_table_axioms_def)

lemmas bridge_merge_ok = bridge_table.merge_ready [OF bridge_tableI]

text \<open>A constructor table over a state that logs the staged rows.\<close>

definition row_log :: "row list state_ops" where
  "row_log = \<lparr>op_call = \<lambda>p args st. (None, st), op_stage = \<lambda>tb r st. st @ [r], op_insert = \<lambda>tb r st. st @ [r],
     op_lookup = \<lambda>tb key st. (None, st), op_lookup_multi = \<lambda>tb key st. (None, st)\<rparr>"

definition sample_math :: schema_math where
  "sample_math = constructor_math False 1"

abbreviation sample_env :: "row list table_env" where
  "sample_env \<equiv> bridge_table_env (\<lambda>_. 0) first_hit row_log sample_math [] [RUnionId 0]"

lemma sample_layout:
  "schema_ok sample_math" "n_vals sample_math = 1" "has_layout sample_math sample_keyed"
  by (simp_all add: sample_math_def constructor_math_def schema_ok_def n_vals_def has_layout_def sample_keyed_def table_columns_def ts_col_def)

lemma sample_keyed_env: "keyed_env sample_env"
  unfolding bridge_table_env_def by (rule first_hit_env.keyed_env_axioms)

lemma sample_staged_all: "staged_rows (ps_rows (sw_pending sample_keyed)) = [[6, 3, 4], [2, 7, 4]]"
  by (simp add: sample_keyed_def sample_staged)

lemma sample_ready: "ready sample_env sample_keyed"
proof -
  have "env_hash sample_env key = 0" for key by (simp add: bridge_table_env_def)
  note wf = sample_wf [OF this]
  have "in_order 2 [(0, 0)] [[6, 3, 4], [2, 7, 4]]" by (simp add: in_order_def arrivals_def reaches_def is_stale_def stale_def u32_max_def)
  then show ?thesis using wf sample_rows(1) sample_staged_all by (simp add: ready_def u32_max_def) (simp add: sample_keyed_def)
qed

lemma sample_spec: "merge_spec sample_env sample_keyed [] = ([[6] \<mapsto> [6, 3, 4], [2] \<mapsto> [2, 7, 4]], [[5, 3, 4]], True)"
proof -
  have "removed_keys sample_env sample_keyed = {}"
    by (auto simp: removed_keys_def sample_keyed_def key_hash_def shard_id_def bridge_table_env_def Let_def)
  moreover have "merge_callback row_log sample_math [] [RUnionId 0] [] [6, 5, 0] [6, 3, 4] = Ok (True, [6, 3, 4], [[5, 3, 4]])"
    by (simp add: merge_callback_def no_conflict_def sample_math_def constructor_math_def ts_col_def merge_values_def merge_row_def run_result_def val_col_def
        row_log_def write_table_row_def resize_row_def table_columns_def Let_def)
  moreover have "sw_contents sample_keyed = [[6] \<mapsto> [6, 5, 0]]" using sample_wf(3) [of sample_env] by (simp add: bridge_table_env_def)
  moreover have "sw_keys sample_keyed = 1" by (simp add: sample_keyed_def)
  ultimately show ?thesis
    by (simp add: merge_spec_def sample_staged_all abs_insert_def is_stale_def stale_def u32_max_def bridge_table_env_def)
qed

text \<open>
  C29: A new function's table.  When the checks on the configuration pass and the merge compiles, the new
  table is empty and well formed for its environment, with the keys first, then the value columns, the
  timestamp, by which it sorts, and the subsumption flag if the function has one; the compiled merge fits
  this layout and never panics; the merge does not read the table itself; and the columns to rebuild are
  the id columns of the schema.
\<close>

theorem add_table_creates:
  assumes made: "add_table threads q eg f tb cfg SortedStorage proj = Ok (eg', fi, deps, rebuild, NewSorted t actions cols)"
    and threads: "threads \<le> 2 ^ 56" and keys: "fc_n_vals cfg < length (fc_schema cfg)"
    and scoped: "scoped_merge (fc_merge cfg)" and quiet: "\<And>msg. quiet ops (be_new_panic eg msg)"
  shows "has_layout (fi_math fi) t \<and> ready (bridge_table_env hash search ops (fi_math fi) actions cols) t \<and> sw_contents t = Map.empty \<and>
    sw_columns t = length (fc_schema cfg) + 1 + (if fc_can_subsume cfg then 1 else 0) \<and> sw_keys t + fc_n_vals cfg = length (fc_schema cfg) \<and>
    merge_wf ops (fi_math fi) actions cols \<and> fi_table fi = tb \<and> tb \<notin> set (fst deps) \<and>
    (\<forall>i. i \<in> set rebuild \<longleftrightarrow> i < length (fc_schema cfg) \<and> fc_schema cfg ! i = CId)"
proof -
  let ?sm = "config_math cfg"
  have cfg: "check_config cfg SortedStorage = Ok ()" and fi: "fi_math fi = ?sm" "fi_table fi = tb" "tb \<notin> set (fst deps)" "rebuild = rebuild_columns (fc_schema cfg)"
    and eg': "eg' = register_function eg f fi" and comp: "compile_merge ?sm (fc_name cfg) eg' (fc_merge cfg) = Ok (actions, cols)"
    and new: "sw_new threads (sm_n_keys ?sm) (table_columns ?sm) (length (fc_schema cfg)) = Ok t"
    using made by (auto simp: add_table_def and_then_eq_Ok_iff Let_def)
  note lay = config_layout [OF cfg]
  have sm: "schema_ok ?sm" using lay(5) keys by (simp add: config_keys_def)
  have quiet': "quiet ops (be_new_panic eg' msg)" for msg using quiet by (simp add: eg' register_function_def)
  have wf: "merge_wf ops ?sm actions cols" by (rule compile_merge_wf [OF quiet' sm lay(6) scoped comp])
  have le: "sm_n_keys ?sm \<le> table_columns ?sm" "length (fc_schema cfg) < table_columns ?sm"
    by (auto simp: config_math_def table_columns_def config_keys_def)
  from sw_new_ok [OF le threads, of "bridge_table_env hash search ops ?sm actions cols"] new have
    t: "sw_wf (bridge_table_env hash search ops ?sm actions cols) t" "pending_ok (bridge_table_env hash search ops ?sm actions cols) t"
    "sw_contents t = Map.empty" "sw_keys t = sm_n_keys ?sm" "sw_columns t = table_columns ?sm" "sw_sort_by t = length (fc_schema cfg)"
    "sw_rows t = []" "staged_rows (ps_rows (sw_pending t)) = []" by auto
  have "has_layout ?sm t" using t by (simp add: has_layout_def ts_col_def config_math_def)
  moreover have "ready (bridge_table_env hash search ops ?sm actions cols) t" using t by (simp add: ready_def in_order_def arrivals_def)
  moreover have "sw_columns t = length (fc_schema cfg) + 1 + (if fc_can_subsume cfg then 1 else 0)" "sw_keys t + fc_n_vals cfg = length (fc_schema cfg)"
    using t(4,5) lay(1) keys by (simp_all add: config_math_def table_columns_def config_keys_def)
  moreover have "i \<in> set rebuild \<longleftrightarrow> i < length (fc_schema cfg) \<and> fc_schema cfg ! i = CId" for i
  proof
    assume "i < length (fc_schema cfg) \<and> fc_schema cfg ! i = CId"
    then show "i \<in> set rebuild" by (force simp: fi(4) rebuild_columns_def in_set_zip image_iff)
  qed (auto simp: fi(4) rebuild_columns_def in_set_zip image_iff)
  ultimately show ?thesis using fi(1-3) wf t(3) by simp
qed

theorem add_table_creates_witness:
  "\<exists>eg eg' fi deps t. add_table 1 0 eg 3 4 \<lparr>fc_schema = [CId, CBase 0, CId], fc_n_vals = 1, fc_n_identity_vals = None, fc_default = FreshId,
       fc_merge = MUnionId, fc_name = ''Add'', fc_can_subsume = False\<rparr> SortedStorage None = Ok (eg', fi, deps, [0, 2], NewSorted t [] [RUnionId 0]) \<and>
     sw_columns t = 4 \<and> sw_keys t = 2 \<and> ready (bridge_table_env (\<lambda>_. 0) first_hit row_log (fi_math fi) [] [RUnionId 0]) t"
proof -
  let ?eg = "\<lparr>be_name = \<lambda>_. ''f'', be_table = \<lambda>f. f, be_schema_len = \<lambda>_. 2, be_uf_table = 0, be_new_panic = \<lambda>_. 0,
    be_external_write_table = \<lambda>_. None, be_set_if_empty_table = \<lambda>_ _. None\<rparr>"
  let ?cfg = "\<lparr>fc_schema = [CId, CBase 0, CId], fc_n_vals = 1, fc_n_identity_vals = None, fc_default = FreshId,
       fc_merge = MUnionId, fc_name = ''Add'', fc_can_subsume = False\<rparr>"
  from sw_new_ok [of 2 4 3 1 "bridge_table_env (\<lambda>_. 0) first_hit row_log sample_math [] []"]
  obtain t where "sw_new 1 2 4 3 = Ok t" by auto
  then have "\<exists>eg' fi deps. add_table 1 0 ?eg 3 4 ?cfg SortedStorage None = Ok (eg', fi, deps, [0, 2], NewSorted t [] [RUnionId 0])"
    by (simp add: add_table_def check_config_def require_def config_projection_def projection_fits_def config_keys_def default_kind_def
        register_function_def compile_merge_def columns_of_def config_math_def n_vals_def table_columns_def rebuild_columns_def
        write_dep_def index_insert_def upt_rec numeral_3_eq_3 numeral_2_eq_2 eval_nat_numeral)
  then obtain eg' fi deps where made: "add_table 1 0 ?eg 3 4 ?cfg SortedStorage None = Ok (eg', fi, deps, [0, 2], NewSorted t [] [RUnionId 0])" by blast
  have "quiet row_log (be_new_panic ?eg msg)" for msg by (simp add: quiet_def row_log_def)
  from add_table_creates [OF made _ _ _ this, of "\<lambda>_. 0" first_hit] made show ?thesis
    by (intro exI [of _ ?eg] exI [of _ eg'] exI [of _ fi] exI [of _ deps] exI [of _ t]) (simp add: scoped_merge_def)
qed

text \<open>
  C4: Merges of a function's table.  With a compiled merge that fits the schema, merging a well-formed
  table never panics; it applies the staged removals and then the staged rows in order, a new key being
  added and a known key getting what the merge function makes of its row; the invariants hold again, the
  queues are empty and the layout is the same.
\<close>

theorem keyed_merge_refines:
  assumes "keyed_env (bridge_table_env hash search ops sm actions cols)" "merge_wf ops sm actions cols"
    and "has_layout sm t" "ready (bridge_table_env hash search ops sm actions cols) t"
  shows "\<exists>t' st' added. sw_merge (bridge_table_env hash search ops sm actions cols) t st = Ok (added, t', st') \<and>
    (sw_contents t', st', added) = merge_spec (bridge_table_env hash search ops sm actions cols) t st \<and>
    sw_wf (bridge_table_env hash search ops sm actions cols) t' \<and> has_layout sm t' \<and> sw_pending t' = ps_clear (sw_pending t)"
  using bridge_merge_ok [OF assms, of st] assms(3) by (auto simp: has_layout_def same_layout_def)

theorem keyed_merge_refines_witness:
  "\<exists>t' added. sw_merge sample_env sample_keyed [] = Ok (added, t', [[5, 3, 4]]) \<and> added \<and> sw_contents t' [6] = Some [6, 3, 4] \<and> sw_contents t' [2] = Some [2, 7, 4]"
  using keyed_merge_refines [OF sample_keyed_env union_merge_wf [OF sample_layout(1,2)] sample_layout(3) sample_ready, of "[]"]
  by (auto simp: sample_spec)

text \<open>
  C7: Versions.  A merge that keeps the generation of the table moves no row: every live row before the
  old end of the table was live there before, so the updates since the old version are all the rows that
  the merge added.  In any case the generation does not go down.
\<close>

theorem keyed_versions:
  assumes "keyed_env (bridge_table_env hash search ops sm actions cols)" "merge_wf ops sm actions cols"
    and "has_layout sm t" "ready (bridge_table_env hash search ops sm actions cols) t"
    and "sw_version t = Ok (major, minor)" "sw_merge (bridge_table_env hash search ops sm actions cols) t st = Ok (added, t', st')"
  shows "\<exists>major' minor' s. sw_version t' = Ok (major', minor') \<and> major \<le> major' \<and>
    (major' = major \<longrightarrow> minor \<le> minor' \<and> sw_updates_since t' minor = Ok s \<and> rows s = [minor..<minor'] \<and>
       (\<forall>i < minor. \<forall>r. sw_live t' i = Some r \<longrightarrow> sw_live t i = Some r))"
proof -
  have wf: "sw_wf (bridge_table_env hash search ops sm actions cols) t" using assms(4) by (simp add: ready_def)
  from bridge_merge_ok [OF assms(1-4), of st] assms(6) have
    wf': "sw_wf (bridge_table_env hash search ops sm actions cols) t'" and
    gen: "sw_generation t' = sw_generation t \<and> appends_only (sw_rows t) (sw_rows t') \<or> sw_generation t' = sw_generation t + 1" by auto
  have next_row: "rd_next_row (sw_data u) = Ok (length (sw_rows u))" "length (sw_rows u) \<le> u32_max"
    if "sw_wf (bridge_table_env hash search ops sm actions cols) u" for u
    using that rd_len [of "sw_columns u" "sw_data u"] by (simp_all add: sw_wf_def rd_next_row_def)
  from assms(5) next_row [OF wf] have v: "major = sw_generation t" "minor = length (sw_rows t)" by (simp_all add: sw_version_def)
  have "sw_updates_since t' minor = Ok (Dense (range_new minor (length (sw_rows t'))))"
    using next_row [OF wf] next_row [OF wf'] v(2) by (simp add: sw_updates_since_def)
  with gen next_row [OF wf'] v show ?thesis
    by (auto simp: sw_version_def appends_only_def range_new_def)
qed

theorem keyed_versions_witness:
  "\<exists>added t' st' major' minor'. sw_merge sample_env sample_keyed [] = Ok (added, t', st') \<and> sw_version t' = Ok (major', minor')"
proof -
  have v: "sw_version sample_keyed = Ok (0, 1)"
    by (simp add: sw_version_def rd_next_row_def sample_keyed_def rd_new_def buf_len_def from_usize_u32_def u32_max_def)
  from bridge_merge_ok [OF sample_keyed_env union_merge_wf [OF sample_layout(1,2)] sample_layout(3) sample_ready, of "[]"]
  obtain t' st' added where m: "sw_merge sample_env sample_keyed [] = Ok (added, t', st')" by blast
  from keyed_versions [OF sample_keyed_env union_merge_wf [OF sample_layout(1,2)] sample_layout(3) sample_ready v m] m show ?thesis by blast
qed

text \<open>
  C5: Congruence.  Merging a table whose merge function unions ids leaves for every key the least id
  among the old row and the rows staged for it, and the pairs it stages for the union-find relate, up to
  equivalence, exactly the ids that had a key in common.
\<close>

theorem merge_closes_congruence:
  fixes ops :: "'st state_ops" and log :: "'st \<Rightarrow> row list" and hash search sm uf t
  defines "env \<equiv> bridge_table_env hash search ops sm [] [RUnionId uf]"
  defines "vals \<equiv> key_values (sm_n_keys sm) (sw_contents t |` (- removed_keys env t)) (staged_rows (ps_rows (sw_pending t)))"
  assumes env: "keyed_env env" and sm: "schema_ok sm" "n_vals sm = 1" "sm_n_identity_vals sm \<noteq> Some 0"
    and t: "has_layout sm t" "ready env t" and log: "\<And>r st. log (op_stage ops uf r st) = log st @ [r]"
  shows "\<exists>t' st' added new. sw_merge env t st = Ok (added, t', st') \<and>
    (\<forall>key. case sw_contents t' key of None \<Rightarrow> vals key = {} | Some r \<Rightarrow> vals key \<noteq> {} \<and> r ! ret_val_col sm = Min (vals key)) \<and>
    log st' = log st @ new \<and> eq_closure (pairs_of new) = eq_closure (\<Union>key. vals key \<times> vals key)"
proof -
  let ?qs = "staged_rows (ps_rows (sw_pending t))" and ?m = "sw_contents t |` (- removed_keys env t)"
  from bridge_merge_ok [OF env [unfolded env_def] union_merge_wf [OF sm(1,2)] t(1) t(2) [unfolded env_def], of st]
  obtain t' st' added where 1: "sw_merge env t st = Ok (added, t', st')" "(sw_contents t', st', added) = merge_spec env t st"
    unfolding env_def by blast
  have wf: "sw_wf env t" "pending_ok env t" using t(2) by (simp_all add: ready_def)
  have qs: "\<forall>q \<in> set ?qs. length q = table_columns sm"
    using wf(2) t(1) by (fastforce simp: pending_ok_def staged_ok_def staged_rows_set has_layout_def in_set_conv_nth)
  have "denotes (sw_keys t) (sw_live t) (sw_contents t)" using keyed_env.denotes_table [OF env wf(1)] .
  then have "\<forall>key r. ?m key = Some r \<longrightarrow> length r = table_columns sm"
    using rd_live_length [of "sw_columns t" "sw_data t"] wf(1) t(1)
    by (fastforce simp: denotes_def sw_wf_def has_layout_def restrict_map_def split: if_splits)
  moreover have "env_merge env = merge_callback ops sm [] [RUnionId uf]" by (simp add: env_def bridge_table_env_def)
  moreover have "fold (abs_insert env (sm_n_keys sm)) ?qs (?m, st, False) = (sw_contents t', st', added)"
    using 1(2) t(1) by (simp add: merge_spec_def has_layout_def)
  moreover note congruence_fold [OF sm, of env ops uf log ?qs ?m st False "sw_contents t'" st' added]
  ultimately have "(\<forall>key. case sw_contents t' key of None \<Rightarrow> vals key = {} | Some r \<Rightarrow> vals key \<noteq> {} \<and> r ! ret_val_col sm = Min (vals key)) \<and>
      (\<exists>new. log st' = log st @ new \<and> eq_closure (pairs_of new) = eq_closure (\<Union>key. vals key \<times> vals key))"
    using log qs unfolding vals_def same_key_def ret_val_col_def by blast
  with 1(1) show ?thesis by blast
qed

theorem merge_closes_congruence_witness:
  "\<exists>t' st' added new. sw_merge sample_env sample_keyed [] = Ok (added, t', st') \<and> st' = new \<and> (5, 3) \<in> eq_closure (pairs_of new)"
proof -
  have log: "op_stage row_log uf r st = st @ [r]" for uf r st by (simp add: row_log_def)
  let ?vals = "key_values (sm_n_keys sample_math) (sw_contents sample_keyed |` (- removed_keys sample_env sample_keyed))
    (staged_rows (ps_rows (sw_pending sample_keyed)))"
  have "removed_keys sample_env sample_keyed = {}"
    by (auto simp: removed_keys_def sample_keyed_def key_hash_def shard_id_def bridge_table_env_def Let_def)
  then have "5 \<in> ?vals [6]" "3 \<in> ?vals [6]"
    using sample_wf(3) [of sample_env]
    by (auto simp: key_values_def sample_staged_all sample_math_def constructor_math_def bridge_table_env_def is_stale_def stale_def u32_max_def intro!: exI [of _ "[6, 3, 4]"])
  then have "(5, 3) \<in> (\<Union>key. ?vals key \<times> ?vals key)" by blast
  then have "(5, 3) \<in> eq_closure (\<Union>key. ?vals key \<times> ?vals key)" by (rule eq_closure_base)
  with merge_closes_congruence [where log = "\<lambda>st. st" and st = "[]", OF sample_keyed_env sample_layout(1,2) _ sample_layout(3) sample_ready log]
  show ?thesis by (auto simp: sample_math_def constructor_math_def)
qed

end
