(* ===== verification/SubsetBuffer.thy ===== *)
theory SubsetBuffer
  imports SortedTable
begin

text \<open>
  The storage of the subsets of an index (\<open>egglog/core-relations/src/hash_index/mod.rs\<close>: \<open>SubsetBuffer\<close>,
  \<open>FreeList\<close>, \<open>BufferedVec\<close>, \<open>BufferedSubset\<close>).  All the row lists of an index live in one vector, in
  blocks whose sizes are powers of two; a block that a list has outgrown goes to the free list of its size
  and is used again.  The theory shows that the blocks never overlap, that writing one list leaves the
  others alone, and that the operations do to the lists what those of \<open>Offsets\<close> do.
\<close>

section \<open>Model\<close>

subsection \<open>The free list and the vector\<close>

type_synonym buffered_vec = "nat \<times> nat"

definition bv_default :: buffered_vec where
  "bv_default = (0, 0)"

definition bv_is_empty :: "buffered_vec \<Rightarrow> bool" where
  "bv_is_empty v \<longleftrightarrow> fst v = snd v"

definition bv_len :: "buffered_vec \<Rightarrow> nat" where
  "bv_len v = snd v - fst v"

record subset_buffer =
  sb_buf :: "nat list"
  sb_free :: "nat list list"

definition sb_default :: subset_buffer where
  "sb_default = \<lparr>sb_buf = [], sb_free = replicate 32 []\<rparr>"

text \<open>The logarithm of the next power of two, the index of a size class.\<close>

definition pow2_class :: "nat \<Rightarrow> nat" where
  "pow2_class n = shard_log2 n"

definition is_power_of_two :: "nat \<Rightarrow> bool" where
  "is_power_of_two n \<longleftrightarrow> n = 2 ^ pow2_class n"

text \<open>Popping a block off its class, and pushing one.\<close>

definition pop_block :: "nat list list \<Rightarrow> nat \<Rightarrow> (nat option \<times> nat list list) result" where
  "pop_block fl n =
     and_then (vec_get fl (pow2_class n)) (\<lambda>blocks.
       Ok (if blocks = [] then (None, fl) else (Some (last blocks), fl[pow2_class n := butlast blocks])))"

definition return_vec :: "subset_buffer \<Rightarrow> buffered_vec \<Rightarrow> subset_buffer result" where
  "return_vec sb v =
     and_then (vec_get (sb_free sb) (pow2_class (bv_len v))) (\<lambda>blocks.
       Ok (sb\<lparr>sb_free := (sb_free sb)[pow2_class (bv_len v) := blocks @ [fst v]]\<rparr>))"

definition vec_resize :: "'a list \<Rightarrow> nat \<Rightarrow> 'a \<Rightarrow> 'a list" where
  "vec_resize xs n x = take n xs @ replicate (n - length xs) x"

definition copy_within :: "'a list \<Rightarrow> nat \<Rightarrow> nat \<Rightarrow> nat \<Rightarrow> 'a list result" where
  "copy_within xs s e dest =
     and_then (vec_slice xs s e) (\<lambda>ys.
       if dest + length ys \<le> length xs then Ok (take dest xs @ ys @ drop (dest + length ys) xs) else Err IndexOutOfBounds)"

text \<open>A block for \<open>n\<close> rows: a free one, or a new one at the end of the vector.\<close>

definition take_block :: "subset_buffer \<Rightarrow> nat \<Rightarrow> (nat \<times> subset_buffer) result" where
  "take_block sb n =
     and_then (pop_block (sb_free sb) n) (\<lambda>(b, fl).
       case b of
         Some b \<Rightarrow> Ok (b, sb\<lparr>sb_free := fl\<rparr>)
       | None \<Rightarrow> and_then (from_usize u32_max (length (sb_buf sb))) (\<lambda>b.
                   Ok (b, sb\<lparr>sb_buf := vec_resize (sb_buf sb) (b + 2 ^ pow2_class n) u32_max\<rparr>)))"

text \<open>Writing rows from a position on; the position after the last one.\<close>

fun fill_at :: "nat list \<Rightarrow> nat \<Rightarrow> nat list \<Rightarrow> (nat list \<times> nat) result" where
  "fill_at buf cur [] = Ok (buf, cur)"
| "fill_at buf cur (r # rs) =
     and_then (vec_set buf cur r) (\<lambda>buf. and_then (id_inc u32_max cur) (\<lambda>cur. fill_at buf cur rs))"

definition new_vec :: "subset_buffer \<Rightarrow> nat list \<Rightarrow> (buffered_vec \<times> subset_buffer) result" where
  "new_vec sb rs =
     and_then (take_block sb (length rs)) (\<lambda>(b, sb).
     and_then (fill_at (sb_buf sb) b rs) (\<lambda>(buf, e). Ok ((b, e), sb\<lparr>sb_buf := buf\<rparr>)))"

definition push_vec :: "subset_buffer \<Rightarrow> buffered_vec \<Rightarrow> nat \<Rightarrow> (buffered_vec \<times> subset_buffer) result" where
  "push_vec sb v row =
     (if \<not> is_power_of_two (bv_len v)
      then and_then (vec_set (sb_buf sb) (snd v) row) (\<lambda>buf.
           and_then (id_inc u32_max (snd v)) (\<lambda>e. Ok ((fst v, e), sb\<lparr>sb_buf := buf\<rparr>)))
      else and_then (take_block sb (bv_len v + 1)) (\<lambda>(b, sb).
           and_then (copy_within (sb_buf sb) (fst v) (snd v) b) (\<lambda>buf.
           and_then (vec_set buf (b + bv_len v) row) (\<lambda>buf.
           and_then (from_usize u32_max (b + bv_len v + 1)) (\<lambda>e.
           and_then (return_vec (sb\<lparr>sb_buf := buf\<rparr>) v) (\<lambda>sb. Ok ((b, e), sb)))))))"

definition extend_vec :: "subset_buffer \<Rightarrow> buffered_vec \<Rightarrow> nat list \<Rightarrow> (buffered_vec \<times> subset_buffer) result" where
  "extend_vec sb v rs =
     (if rs = [] then Ok (v, sb)
      else if bv_len v + length rs \<le> 2 ^ pow2_class (bv_len v)
      then and_then (fill_at (sb_buf sb) (snd v) rs) (\<lambda>(buf, e). Ok ((fst v, e), sb\<lparr>sb_buf := buf\<rparr>))
      else and_then (take_block sb (bv_len v + length rs)) (\<lambda>(b, sb).
           and_then (copy_within (sb_buf sb) (fst v) (snd v) b) (\<lambda>buf.
           and_then (from_usize u32_max (b + bv_len v)) (\<lambda>e.
           and_then (fill_at buf e rs) (\<lambda>(buf, e).
           and_then (return_vec (sb\<lparr>sb_buf := buf\<rparr>) v) (\<lambda>sb. Ok ((b, e), sb)))))))"

definition make_ref :: "subset_buffer \<Rightarrow> buffered_vec \<Rightarrow> subset result" where
  "make_ref sb v = and_then (vec_slice (sb_buf sb) (fst v) (snd v)) (\<lambda>rs. Ok (Sparse rs))"

subsection \<open>Subsets\<close>

datatype buffered_subset = BufDense offset_range | BufSparse buffered_vec

definition bs_empty :: buffered_subset where
  "bs_empty = BufDense (range_new 0 0)"

definition bs_singleton :: "nat \<Rightarrow> buffered_subset result" where
  "bs_singleton row = and_then (id_inc u32_max row) (\<lambda>e. Ok (BufDense (range_new row e)))"

definition bs_as_ref :: "buffered_subset \<Rightarrow> subset_buffer \<Rightarrow> subset result" where
  "bs_as_ref s sb = (case s of BufDense r \<Rightarrow> Ok (Dense r) | BufSparse v \<Rightarrow> make_ref sb v)"

definition bs_add_row_sorted :: "buffered_subset \<Rightarrow> nat \<Rightarrow> subset_buffer \<Rightarrow> (buffered_subset \<times> subset_buffer) result" where
  "bs_add_row_sorted s row sb =
     (case s of
        BufDense r \<Rightarrow>
          if range_end r = range_start r
          then and_then (id_inc u32_max row) (\<lambda>e. Ok (BufDense (range_new row e), sb))
          else if range_end r = row
          then and_then (id_inc u32_max row) (\<lambda>e. Ok (BufDense (r\<lparr>range_end := e\<rparr>), sb))
          else and_then (new_vec sb [range_start r..<range_end r]) (\<lambda>(v, sb).
               and_then (push_vec sb v row) (\<lambda>(v, sb). Ok (BufSparse v, sb)))
      | BufSparse v \<Rightarrow> and_then (push_vec sb v row) (\<lambda>(v, sb). Ok (BufSparse v, sb)))"

text \<open>\<open>last.rep() - first.rep() == u32::try_from(pairs.len() - 1).unwrap()\<close>; the subtraction wraps around.\<close>

definition sub_u32 :: "nat \<Rightarrow> nat \<Rightarrow> nat" where
  "sub_u32 a b = (a + (u32_max + 1) - b) mod (u32_max + 1)"

definition rows_dense :: "nat list \<Rightarrow> bool result" where
  "rows_dense rs =
     and_then (vec_get rs 0) (\<lambda>first. and_then (vec_get rs (length rs - 1)) (\<lambda>last.
       if length rs - 1 \<le> u32_max then Ok (sub_u32 last first = length rs - 1) else Err UnwrapNone))"

definition bs_from_sorted :: "nat list \<Rightarrow> subset_buffer \<Rightarrow> (buffered_subset \<times> subset_buffer) result" where
  "bs_from_sorted rs sb =
     and_then (rows_dense rs) (\<lambda>dense.
       if dense then and_then (id_inc u32_max (last rs)) (\<lambda>e. Ok (BufDense (range_new (hd rs) e), sb))
       else and_then (new_vec sb rs) (\<lambda>(v, sb). Ok (BufSparse v, sb)))"

definition bs_merge_sorted :: "buffered_subset \<Rightarrow> nat list \<Rightarrow> subset_buffer \<Rightarrow> (buffered_subset \<times> subset_buffer) result" where
  "bs_merge_sorted s rs sb =
     and_then (rows_dense rs) (\<lambda>dense.
       case s of
         BufDense r \<Rightarrow>
           if range_start r = range_end r then bs_from_sorted rs sb
           else if range_end r = hd rs \<and> dense
           then and_then (id_inc u32_max (last rs)) (\<lambda>e. Ok (BufDense (r\<lparr>range_end := e\<rparr>), sb))
           else and_then (new_vec sb ([range_start r..<range_end r] @ rs)) (\<lambda>(v, sb). Ok (BufSparse v, sb))
       | BufSparse v \<Rightarrow> and_then (extend_vec sb v rs) (\<lambda>(v, sb). Ok (BufSparse v, sb)))"

section \<open>Size classes\<close>

lemma pow2_class_covers: "n \<le> 2 ^ pow2_class n"
  by (simp add: pow2_class_def shard_log2_covers)

lemma pow2_class_le: "n \<le> 2 ^ c \<Longrightarrow> pow2_class n \<le> c"
  by (simp add: pow2_class_def shard_log2_le)

lemma pow2_class_half: "pow2_class n = Suc c \<Longrightarrow> 2 ^ c < n"
  using pow2_class_le [of n c] by (cases "n \<le> 2 ^ c") auto

lemma pow2_class_mono: "m \<le> n \<Longrightarrow> pow2_class m \<le> pow2_class n"
  using pow2_class_covers [of n] by (intro pow2_class_le) simp

lemma pow2_class_small: "n < 2 ^ 31 \<Longrightarrow> pow2_class n < 32"
  using pow2_class_le [of n 31] by simp

text \<open>A list that does not fill its block keeps its class when it grows within it.\<close>

lemma pow2_class_within: "0 < m \<Longrightarrow> m \<le> n \<Longrightarrow> n \<le> 2 ^ pow2_class m \<Longrightarrow> pow2_class n = pow2_class m"
  using pow2_class_mono [of m n] pow2_class_le [of n "pow2_class m"] by simp

lemma pow2_class_beyond: "2 ^ pow2_class m < n \<Longrightarrow> pow2_class m < pow2_class n"
proof (rule ccontr)
  assume "2 ^ pow2_class m < n" "\<not> pow2_class m < pow2_class n"
  then have "(2 :: nat) ^ pow2_class n \<le> 2 ^ pow2_class m" by (intro power_increasing) simp_all
  with pow2_class_covers [of n] have "n \<le> 2 ^ pow2_class m" by (rule le_trans)
  with \<open>2 ^ pow2_class m < n\<close> show False by simp
qed

lemma double_pow2_class: "0 < n \<Longrightarrow> 2 ^ pow2_class n \<le> 2 * n"
  using pow2_class_half [of n "pow2_class n - 1"] by (cases "pow2_class n") auto

section \<open>Blocks\<close>

text \<open>A block has a start and a class.  The blocks of the free list and those of the live lists.\<close>

definition cells :: "nat \<times> nat \<Rightarrow> nat set" where
  "cells b = {fst b ..< fst b + 2 ^ snd b}"

definition block_of :: "buffered_vec \<Rightarrow> nat \<times> nat" where
  "block_of v = (fst v, pow2_class (bv_len v))"

definition free_blocks :: "nat list list \<Rightarrow> (nat \<times> nat) multiset" where
  "free_blocks fl = (\<Sum>c < length fl. image_mset (\<lambda>s. (s, c)) (mset (fl ! c)))"

definition rows_in :: "buffered_vec multiset \<Rightarrow> nat" where
  "rows_in live = sum_mset (image_mset bv_len live)"

text \<open>
  The blocks tile the vector.  The last condition bounds what fragmentation costs: the blocks of one class
  take at most twice the space of the \<open>M\<close> rows that the lists may have together.
\<close>

definition tiles :: "nat \<Rightarrow> nat \<Rightarrow> (nat \<times> nat) multiset \<Rightarrow> bool" where
  "tiles M n bs \<longleftrightarrow> (\<forall>b \<in># bs. cells b \<subseteq> {..<n} \<and> snd b < 32) \<and> (\<forall>i. size {#b \<in># bs. i \<in> cells b#} \<le> 1) \<and>
     n = sum_mset (image_mset (\<lambda>b. 2 ^ snd b) bs) \<and> (\<forall>c. size {#b \<in># bs. snd b = c#} * 2 ^ c \<le> 2 * M)"

definition sb_wf :: "nat \<Rightarrow> subset_buffer \<Rightarrow> buffered_vec multiset \<Rightarrow> bool" where
  "sb_wf M sb live \<longleftrightarrow> length (sb_free sb) = 32 \<and> (\<forall>v \<in># live. fst v < snd v) \<and> rows_in live \<le> M \<and>
     tiles M (length (sb_buf sb)) (free_blocks (sb_free sb) + image_mset block_of live)"

definition bv_rows :: "subset_buffer \<Rightarrow> buffered_vec \<Rightarrow> nat list" where
  "bv_rows sb v = take (bv_len v) (drop (fst v) (sb_buf sb))"

lemma cells_simps [simp]: "i \<in> cells (s, c) \<longleftrightarrow> s \<le> i \<and> i < s + 2 ^ c"
  by (auto simp: cells_def)

lemma free_blocks_update:
  assumes "c < length fl"
  shows "free_blocks (fl[c := xs]) + image_mset (\<lambda>s. (s, c)) (mset (fl ! c)) = free_blocks fl + image_mset (\<lambda>s. (s, c)) (mset xs)"
proof -
  let ?g = "\<lambda>fl c. image_mset (\<lambda>s. (s, c)) (mset (fl ! c))"
  have split: "free_blocks gl = ?g gl c + (\<Sum>d \<in> {..<length gl} - {c}. ?g gl d)" if "c < length gl" for gl
    unfolding free_blocks_def using that by (subst sum.remove [of _ c]) auto
  have "(\<Sum>d \<in> {..<length fl} - {c}. ?g (fl[c := xs]) d) = (\<Sum>d \<in> {..<length fl} - {c}. ?g fl d)"
    by (rule sum.cong) auto
  then show ?thesis using split [of fl] split [of "fl[c := xs]"] assms by (simp add: add_ac)
qed

lemma free_blocks_pop:
  assumes "c < length fl" "fl ! c \<noteq> []"
  shows "free_blocks fl = add_mset (last (fl ! c), c) (free_blocks (fl[c := butlast (fl ! c)]))"
proof -
  have "mset (fl ! c) = add_mset (last (fl ! c)) (mset (butlast (fl ! c)))"
    using assms(2) by (metis append_butlast_last_id mset_append mset.simps add_mset_add_single union_commute)
  with free_blocks_update [OF assms(1), of "butlast (fl ! c)"] show ?thesis by simp
qed

lemma free_blocks_push: "c < length fl \<Longrightarrow> free_blocks (fl[c := fl ! c @ [s]]) = add_mset (s, c) (free_blocks fl)"
  using free_blocks_update [of c fl "fl ! c @ [s]"] by simp

lemma free_blocks_class: "c < length fl \<Longrightarrow> {#b \<in># free_blocks fl. snd b = c#} = image_mset (\<lambda>s. (s, c)) (mset (fl ! c))"
proof -
  assume c: "c < length fl"
  have "{#b \<in># image_mset (\<lambda>s. (s, d)) (mset (fl ! d)). snd b = c#} = (if d = c then image_mset (\<lambda>s. (s, c)) (mset (fl ! c)) else {#})" for d
    by (auto simp: filter_mset_image_mset)
  moreover have "filter_mset P (\<Sum>d \<in> A. f d) = (\<Sum>d \<in> A. filter_mset P (f d))" if "finite A" for P :: "nat \<times> nat \<Rightarrow> bool" and f and A :: "nat set"
    using that by (induction A rule: finite_induct) auto
  ultimately show ?thesis using c by (simp add: free_blocks_def sum.delta)
qed

lemma tiles_cells: "tiles M n bs \<Longrightarrow> b \<in># bs \<Longrightarrow> cells b \<subseteq> {..<n}"
  unfolding tiles_def by blast

text \<open>Two blocks of the tiling do not meet.\<close>

lemma tiles_disjoint:
  assumes "tiles M n (add_mset b (add_mset b' bs))"
  shows "cells b \<inter> cells b' = {}"
proof (rule ccontr)
  assume "cells b \<inter> cells b' \<noteq> {}"
  then obtain i where "i \<in> cells b" "i \<in> cells b'" by blast
  then have "2 \<le> size {#b \<in># add_mset b (add_mset b' bs). i \<in> cells b#}" by simp
  with assms show False unfolding tiles_def by (metis Suc_1 not_less_eq_eq)
qed

text \<open>The vector stays small.\<close>

lemma sum_by_class:
  "\<forall>b \<in># bs. snd b < k \<Longrightarrow> sum_mset (image_mset (\<lambda>b. 2 ^ snd b) bs) = (\<Sum>c < k. size {#b \<in># bs. snd b = c#} * 2 ^ c)"
proof (induction bs)
  case (add b bs)
  have "(\<Sum>c < k. size {#x \<in># add_mset b bs. snd x = c#} * 2 ^ c) =
      (\<Sum>c < k. (if snd b = c then 2 ^ c else 0) + size {#x \<in># bs. snd x = c#} * 2 ^ c)"
    by (rule sum.cong) auto
  also have "\<dots> = 2 ^ snd b + (\<Sum>c < k. size {#x \<in># bs. snd x = c#} * 2 ^ c)"
    using add.prems by (simp add: sum.distrib)
  finally show ?case using add by simp
qed simp

lemma tiles_length: "tiles M n bs \<Longrightarrow> n \<le> 64 * M"
proof -
  assume t: "tiles M n bs"
  then have "n = (\<Sum>c < 32. size {#b \<in># bs. snd b = c#} * 2 ^ c)" unfolding tiles_def using sum_by_class [of bs 32] by blast
  also have "\<dots> \<le> (\<Sum>c < (32 :: nat). 2 * M)" by (rule sum_mono) (use t in \<open>auto simp: tiles_def\<close>)
  finally show ?thesis by simp
qed

lemma tiles_alloc:
  assumes t: "tiles M n bs" and c: "c < 32" "Suc (size {#b \<in># bs. snd b = c#}) * 2 ^ c \<le> 2 * M"
  shows "tiles M (n + 2 ^ c) (add_mset (n, c) bs)"
  unfolding tiles_def
proof (intro conjI allI)
  have low: "b \<in># bs \<Longrightarrow> cells b \<subseteq> {..<n}" for b using t unfolding tiles_def by blast
  show "\<forall>b \<in># add_mset (n, c) bs. cells b \<subseteq> {..<n + 2 ^ c} \<and> snd b < 32"
    using t c(1) low by (fastforce simp: tiles_def)
  fix i
  have "{#b \<in># bs. i \<in> cells b#} = {#}" if "n \<le> i" using low that by (fastforce simp: filter_mset_eq_conv)
  moreover have "size {#b \<in># bs. i \<in> cells b#} \<le> 1" using t unfolding tiles_def by blast
  ultimately show "size {#b \<in># add_mset (n, c) bs. i \<in> cells b#} \<le> 1"
    by (cases "n \<le> i") auto
next
  fix d
  have "size {#b \<in># bs. snd b = d#} * 2 ^ d \<le> 2 * M" using t unfolding tiles_def by blast
  then show "size {#b \<in># add_mset (n, c) bs. snd b = d#} * 2 ^ d \<le> 2 * M" using c(2) by auto
next
  show "n + 2 ^ c = sum_mset (image_mset (\<lambda>b. 2 ^ snd b) (add_mset (n, c) bs))"
    using t unfolding tiles_def by simp
qed

section \<open>Operations on lists\<close>

lemma fill_at_ok:
  "p + length rs \<le> length buf \<Longrightarrow> length buf \<le> u32_max \<Longrightarrow>
   fill_at buf p rs = Ok (take p buf @ rs @ drop (p + length rs) buf, p + length rs)"
proof (induction rs arbitrary: buf p)
  case (Cons r rs)
  then have "fill_at (buf[p := r]) (Suc p) rs = Ok (take (Suc p) (buf[p := r]) @ rs @ drop (Suc p + length rs) (buf[p := r]), Suc p + length rs)" by simp
  moreover have "take (Suc p) (buf[p := r]) = take p buf @ [r]" using Cons.prems(1) by (simp add: take_Suc_update)
  ultimately show ?case using Cons.prems by (simp add: id_inc_def from_usize_def)
qed simp

lemma splice_nth:
  "p + length rs \<le> length buf \<Longrightarrow> i < length buf \<Longrightarrow>
   (take p buf @ rs @ drop (p + length rs) buf) ! i = (if p \<le> i \<and> i < p + length rs then rs ! (i - p) else buf ! i)"
  by (auto simp: nth_append)

lemma read_other:
  assumes "p + length rs \<le> length buf" "s + n \<le> length buf" "s + n \<le> p \<or> p + length rs \<le> s"
  shows "take n (drop s (take p buf @ rs @ drop (p + length rs) buf)) = take n (drop s buf)"
  using assms splice_nth [OF assms(1)] by (intro nth_equalityI) auto

lemma read_own: "p \<le> length buf \<Longrightarrow> take (length rs) (drop p (take p buf @ rs @ drop (p + length rs) buf)) = rs"
  by simp

lemma take_block_ok:
  assumes wf: "sb_wf M sb live" and M: "64 * M \<le> u32_max" and n: "0 < n"
    and room: "rows_in {#v \<in># live. pow2_class (bv_len v) = pow2_class n#} + n \<le> M"
  shows "\<exists>b sb'. take_block sb n = Ok (b, sb') \<and> length (sb_free sb') = 32 \<and>
    tiles M (length (sb_buf sb')) (add_mset (b, pow2_class n) (free_blocks (sb_free sb') + image_mset block_of live)) \<and>
    length (sb_buf sb) \<le> length (sb_buf sb') \<and> take (length (sb_buf sb)) (sb_buf sb') = sb_buf sb"
proof -
  let ?c = "pow2_class n" and ?fl = "sb_free sb" and ?buf = "sb_buf sb"
  have fl: "length ?fl = 32" and t: "tiles M (length ?buf) (free_blocks ?fl + image_mset block_of live)" using wf by (simp_all add: sb_wf_def)
  have "n < 2 ^ 31" using room M by (simp add: u32_max_def)
  then have c: "?c < 32" by (rule pow2_class_small)
  show ?thesis
  proof (cases "?fl ! ?c = []")
    case False
    with c fl have "take_block sb n = Ok (last (?fl ! ?c), sb\<lparr>sb_free := ?fl[?c := butlast (?fl ! ?c)]\<rparr>)"
      by (simp add: take_block_def pop_block_def)
    moreover have "free_blocks ?fl = add_mset (last (?fl ! ?c), ?c) (free_blocks (?fl[?c := butlast (?fl ! ?c)]))"
      using free_blocks_pop [of ?c ?fl] False c fl by simp
    ultimately show ?thesis using t fl by simp
  next
    case True
    let ?at = "{#v \<in># live. pow2_class (bv_len v) = ?c#}"
    have bound: "length ?buf \<le> u32_max" using tiles_length [OF t] M by linarith
    have "{#b \<in># free_blocks ?fl + image_mset block_of live. snd b = ?c#} = image_mset block_of ?at"
      using free_blocks_class [of ?c ?fl] True c fl by (simp add: filter_mset_image_mset block_of_def)
    moreover have "size ?at * 2 ^ ?c \<le> 2 * rows_in ?at" if "\<forall>v \<in># live. 0 < bv_len v"
      using that unfolding rows_in_def
    proof (induction live)
      case (add v live)
      then show ?case using double_pow2_class [of "bv_len v"] by auto
    qed simp
    moreover have "\<forall>v \<in># live. 0 < bv_len v" using wf by (auto simp: sb_wf_def bv_len_def)
    moreover have "2 ^ ?c \<le> 2 * n" using double_pow2_class [OF n] .
    ultimately have "Suc (size {#b \<in># free_blocks ?fl + image_mset block_of live. snd b = ?c#}) * 2 ^ ?c \<le> 2 * M"
      using room by simp
    from tiles_alloc [OF t c this] True c fl bound show ?thesis
      by (simp add: take_block_def pop_block_def vec_resize_def from_usize_def)
  qed
qed

text \<open>What an operation that ends with the list \<open>v\<close> guarantees: its rows, and those of the other lists.\<close>

definition stored :: "nat \<Rightarrow> subset_buffer \<Rightarrow> buffered_vec multiset \<Rightarrow> subset_buffer \<Rightarrow> buffered_vec \<Rightarrow> nat list \<Rightarrow> bool" where
  "stored M sb live sb' v rs \<longleftrightarrow> sb_wf M sb' (add_mset v live) \<and> bv_rows sb' v = rs \<and> (\<forall>w \<in># live. bv_rows sb' w = bv_rows sb w)"

lemma bv_cells: "{fst v ..< fst v + bv_len v} \<subseteq> cells (block_of v)"
  using pow2_class_covers [of "bv_len v"] by (auto simp: block_of_def cells_def)

lemma bv_in_buf: "sb_wf M sb live \<Longrightarrow> v \<in># live \<Longrightarrow> fst v + bv_len v \<le> length (sb_buf sb)"
proof -
  assume "sb_wf M sb live" "v \<in># live"
  then have "tiles M (length (sb_buf sb)) (free_blocks (sb_free sb) + image_mset block_of live)" "fst v < fst v + bv_len v"
    by (auto simp: sb_wf_def bv_len_def)
  moreover have "block_of v \<in># free_blocks (sb_free sb) + image_mset block_of live" using \<open>v \<in># live\<close> by auto
  ultimately have "cells (block_of v) \<subseteq> {..<length (sb_buf sb)}" "fst v < fst v + bv_len v" using tiles_cells by blast+
  moreover have "fst v + bv_len v - 1 \<in> {fst v ..< fst v + bv_len v}" using \<open>fst v < fst v + bv_len v\<close> by auto
  ultimately have "fst v + bv_len v - 1 \<in> {..<length (sb_buf sb)}" using bv_cells [of v] by blast
  with \<open>fst v < fst v + bv_len v\<close> show ?thesis by simp
qed

lemma read_frame:
  assumes "tiles M n (add_mset b bs)" "block_of w \<in># bs" "{p..<p + length rs} \<subseteq> cells b" "0 < bv_len w" "length buf = n"
  shows "take (bv_len w) (drop (fst w) (take p buf @ rs @ drop (p + length rs) buf)) = take (bv_len w) (drop (fst w) buf)"
proof (cases "rs = []")
  case False
  from assms(2) obtain cs where "bs = add_mset (block_of w) cs" by (meson multi_member_split)
  with tiles_disjoint [of M n b "block_of w" cs] assms(1) have "cells b \<inter> cells (block_of w) = {}" by simp
  with bv_cells [of w] assms(3) have apart: "{p..<p + length rs} \<inter> {fst w..<fst w + bv_len w} = {}" by blast
  have "cells b \<subseteq> {..<n}" "cells (block_of w) \<subseteq> {..<n}" using tiles_cells [OF assms(1)] assms(2) by simp_all
  then have "{p..<p + length rs} \<subseteq> {..<n}" "{fst w..<fst w + bv_len w} \<subseteq> {..<n}" using assms(3) bv_cells [of w] by blast+
  then have "p + length rs \<le> length buf" "fst w + bv_len w \<le> length buf"
    using False assms(4,5) atLeastLessThan_subset_iff [of p "p + length rs" 0 n] atLeastLessThan_subset_iff [of "fst w" "fst w + bv_len w" 0 n]
    by (simp_all add: lessThan_atLeast0)
  moreover have "fst w + bv_len w \<le> p \<or> p + length rs \<le> fst w"
  proof (rule ccontr)
    assume "\<not> (fst w + bv_len w \<le> p \<or> p + length rs \<le> fst w)"
    then have "max p (fst w) \<in> {p..<p + length rs} \<inter> {fst w..<fst w + bv_len w}" using False assms(4) by (auto simp: max_def)
    with apart show False by blast
  qed
  ultimately show ?thesis by (rule read_other)
qed simp

lemma read_prefix: "take k ys = xs \<Longrightarrow> s + n \<le> k \<Longrightarrow> take n (drop s ys) = take n (drop s xs)"
  by (auto simp: drop_take min_def)

lemma rows_in_simps [simp]:
  "rows_in {#} = 0" "rows_in (add_mset v live) = bv_len v + rows_in live"
  by (simp_all add: rows_in_def)

lemma rows_in_filter: "rows_in (filter_mset P live) \<le> rows_in live"
  by (induction live) auto

lemma block_in_buf:
  assumes "tiles M n (add_mset (b, c) bs)" "k \<le> 2 ^ c"
  shows "b + k \<le> n"
proof -
  have "cells (b, c) \<subseteq> {..<n}" using tiles_cells [OF assms(1)] by simp
  moreover have "(0 :: nat) < 2 ^ c" by simp
  then have "b + 2 ^ c - 1 \<in> cells (b, c)" unfolding cells_simps by linarith
  ultimately have "b + 2 ^ c - 1 < n" by blast
  with assms(2) show ?thesis by (simp add: less_eq_Suc_le [symmetric] Suc_le_eq)
qed

lemma bv_rows_length: "sb_wf M sb live \<Longrightarrow> v \<in># live \<Longrightarrow> length (bv_rows sb v) = bv_len v"
  using bv_in_buf [of M sb live v] by (simp add: bv_rows_def)

lemma new_vec_ok:
  assumes wf: "sb_wf M sb live" and M: "64 * M \<le> u32_max" and rs: "rs \<noteq> []" "rows_in live + length rs \<le> M"
  shows "\<exists>v sb'. new_vec sb rs = Ok (v, sb') \<and> stored M sb live sb' v rs"
proof -
  let ?n = "length rs"
  have "rows_in {#v \<in># live. pow2_class (bv_len v) = pow2_class ?n#} + ?n \<le> M"
    using rs(2) rows_in_filter [of "\<lambda>v. pow2_class (bv_len v) = pow2_class ?n" live] by linarith
  from take_block_ok [OF wf M _ this] rs(1) obtain b sb1 where
    1: "take_block sb ?n = Ok (b, sb1)" "length (sb_free sb1) = 32"
    "tiles M (length (sb_buf sb1)) (add_mset (b, pow2_class ?n) (free_blocks (sb_free sb1) + image_mset block_of live))"
    "length (sb_buf sb) \<le> length (sb_buf sb1)" "take (length (sb_buf sb)) (sb_buf sb1) = sb_buf sb" by auto
  have fits: "b + ?n \<le> length (sb_buf sb1)" using block_in_buf [OF 1(3) pow2_class_covers] .
  have small: "length (sb_buf sb1) \<le> u32_max" using tiles_length [OF 1(3)] M by linarith
  let ?buf = "take b (sb_buf sb1) @ rs @ drop (b + ?n) (sb_buf sb1)" and ?v = "(b, b + ?n)"
  have new: "new_vec sb rs = Ok (?v, sb1\<lparr>sb_buf := ?buf\<rparr>)" using 1(1) fill_at_ok [OF fits small] by (simp add: new_vec_def)
  have len: "length ?buf = length (sb_buf sb1)" "bv_len ?v = ?n" "block_of ?v = (b, pow2_class ?n)"
    using fits by (simp_all add: bv_len_def block_of_def)
  have "sb_wf M (sb1\<lparr>sb_buf := ?buf\<rparr>) (add_mset ?v live)"
    using wf 1(2,3) len rs by (auto simp: sb_wf_def)
  moreover have "bv_rows (sb1\<lparr>sb_buf := ?buf\<rparr>) w = bv_rows sb w" if w: "w \<in># live" for w
  proof -
    have "fst w < snd w" using wf w by (simp add: sb_wf_def)
    then have "0 < bv_len w" by (simp add: bv_len_def)
    moreover have "block_of w \<in># free_blocks (sb_free sb1) + image_mset block_of live" using w by simp
    moreover have "{b..<b + ?n} \<subseteq> cells (b, pow2_class ?n)" using pow2_class_covers [of ?n] by (auto simp: cells_def)
    ultimately have "take (bv_len w) (drop (fst w) ?buf) = take (bv_len w) (drop (fst w) (sb_buf sb1))"
      using read_frame [OF 1(3)] by blast
    also have "\<dots> = take (bv_len w) (drop (fst w) (sb_buf sb))" by (rule read_prefix [OF 1(5) bv_in_buf [OF wf w]])
    finally show ?thesis by (simp add: bv_rows_def)
  qed
  moreover have "bv_rows (sb1\<lparr>sb_buf := ?buf\<rparr>) ?v = rs" using fits len(2) by (simp add: bv_rows_def)
  ultimately show ?thesis using new unfolding stored_def by blast
qed

lemma extend_vec_ok:
  assumes wf: "sb_wf M sb (add_mset v live)" and M: "64 * M \<le> u32_max" and room: "rows_in (add_mset v live) + length rs \<le> M"
  shows "\<exists>v' sb'. extend_vec sb v rs = Ok (v', sb') \<and> stored M sb live sb' v' (bv_rows sb v @ rs)"
proof (cases "rs = []")
  case True
  with wf show ?thesis by (simp add: extend_vec_def stored_def)
next
  case rs: False
  let ?l = "bv_len v" and ?n = "bv_len v + length rs" and ?buf = "sb_buf sb"
  have v: "fst v < snd v" "snd v = fst v + ?l" "0 < ?l" using wf by (auto simp: sb_wf_def bv_len_def)
  have tv: "tiles M (length ?buf) (add_mset (fst v, pow2_class ?l) (free_blocks (sb_free sb) + image_mset block_of live))"
    using wf by (simp add: sb_wf_def block_of_def)
  have in_buf: "fst v + ?l \<le> length ?buf" using bv_in_buf [OF wf, of v] by simp
  have old: "length (bv_rows sb v) = ?l" "bv_rows sb v = take ?l (drop (fst v) ?buf)" using in_buf by (simp_all add: bv_rows_def)
  have pos: "0 < bv_len w" if "w \<in># live" for w using wf that by (auto simp: sb_wf_def bv_len_def)
  show ?thesis
  proof (cases "?n \<le> 2 ^ pow2_class ?l")
    case True
    let ?buf' = "take (snd v) ?buf @ rs @ drop (snd v + length rs) ?buf" and ?v = "(fst v, fst v + ?n)"
    have fits: "snd v + length rs \<le> length ?buf" using block_in_buf [OF tv True] v(2) by simp
    have small: "length ?buf \<le> u32_max" using tiles_length [OF tv] M by linarith
    have "extend_vec sb v rs = Ok (?v, sb\<lparr>sb_buf := ?buf'\<rparr>)"
      using True rs fill_at_ok [OF fits small] v(2) by (simp add: extend_vec_def add.assoc)
    moreover have len: "length ?buf' = length ?buf" "bv_len ?v = ?n" "block_of ?v = (fst v, pow2_class ?l)"
      using fits pow2_class_within [OF v(3) _ True] by (simp_all add: bv_len_def block_of_def)
    have "sb_wf M (sb\<lparr>sb_buf := ?buf'\<rparr>) (add_mset ?v live)" using wf len tv v(3) room by (auto simp: sb_wf_def)
    moreover have "bv_rows (sb\<lparr>sb_buf := ?buf'\<rparr>) w = bv_rows sb w" if w: "w \<in># live" for w
    proof -
      have "block_of w \<in># free_blocks (sb_free sb) + image_mset block_of live" using w by simp
      moreover have "{snd v..<snd v + length rs} \<subseteq> cells (fst v, pow2_class ?l)" using True v(2) by (auto simp: cells_def)
      ultimately have "take (bv_len w) (drop (fst w) ?buf') = take (bv_len w) (drop (fst w) ?buf)"
        using read_frame [OF tv] pos [OF w] by blast
      then show ?thesis by (simp add: bv_rows_def)
    qed
    moreover have "bv_rows (sb\<lparr>sb_buf := ?buf'\<rparr>) ?v = bv_rows sb v @ rs"
    proof -
      have "drop (fst v) (take (snd v) ?buf) = bv_rows sb v" using v(2) old(2) by (simp add: drop_take)
      then have "drop (fst v) ?buf' = bv_rows sb v @ rs @ drop (snd v + length rs) ?buf" using v(1) fits by simp
      with old(1) len(2) show ?thesis by (simp add: bv_rows_def)
    qed
    ultimately show ?thesis unfolding stored_def by blast
  next
    case False
    have "pow2_class ?l < pow2_class ?n" using False by (intro pow2_class_beyond) simp
    then have "rows_in {#w \<in># add_mset v live. pow2_class (bv_len w) = pow2_class ?n#} + ?n \<le> M"
      using room rows_in_filter [of "\<lambda>w. pow2_class (bv_len w) = pow2_class ?n" live] by simp
    from take_block_ok [OF wf M _ this] v(3) obtain b sb1 where
      1: "take_block sb ?n = Ok (b, sb1)" "length (sb_free sb1) = 32"
      "tiles M (length (sb_buf sb1)) (add_mset (b, pow2_class ?n) (free_blocks (sb_free sb1) + image_mset block_of (add_mset v live)))"
      "length ?buf \<le> length (sb_buf sb1)" "take (length ?buf) (sb_buf sb1) = ?buf" by auto
    let ?b1 = "sb_buf sb1" and ?xs = "bv_rows sb v @ rs"
    have fits: "b + ?n \<le> length ?b1" using block_in_buf [OF 1(3) pow2_class_covers] .
    have small: "length ?b1 \<le> u32_max" using tiles_length [OF 1(3)] M by linarith
    have read: "take ?l (drop (fst v) ?b1) = bv_rows sb v" using read_prefix [OF 1(5) in_buf] old(2) by simp
    let ?b2 = "take b ?b1 @ bv_rows sb v @ drop (b + ?l) ?b1"
    let ?b3 = "take b ?b1 @ ?xs @ drop (b + length ?xs) ?b1" and ?v = "(b, b + ?n)"
    have copy: "copy_within ?b1 (fst v) (snd v) b = Ok ?b2"
      using read v fits in_buf 1(4) old(1) by (simp add: copy_within_def)
    have b2: "take (b + ?l) ?b2 = take b ?b1 @ bv_rows sb v" "drop (b + ?l + length rs) ?b2 = drop (b + ?n) ?b1" "length ?b2 = length ?b1"
      using fits old(1) by (simp_all add: ac_simps)
    have "b + ?l + length rs \<le> length ?b2" "length ?b2 \<le> u32_max" using b2(3) fits small by simp_all
    from fill_at_ok [OF this] have fill: "fill_at ?b2 (b + ?l) rs = Ok (?b3, b + ?n)"
      unfolding b2(1,2) using old(1) by (simp add: add.assoc)
    have c: "pow2_class ?l < length (sb_free sb1)" using tv 1(2) by (simp add: tiles_def)
    let ?fl = "(sb_free sb1)[pow2_class ?l := sb_free sb1 ! pow2_class ?l @ [fst v]]"
    have ext: "extend_vec sb v rs = Ok (?v, sb1\<lparr>sb_buf := ?b3, sb_free := ?fl\<rparr>)"
      using False rs 1(1) copy fill c fits small by (simp add: extend_vec_def return_vec_def from_usize_def)
    have len: "length ?b3 = length ?b1" "bv_len ?v = ?n" "block_of ?v = (b, pow2_class ?n)"
      using fits old(1) by (simp_all add: bv_len_def block_of_def)
    have "free_blocks ?fl = add_mset (block_of v) (free_blocks (sb_free sb1))" using free_blocks_push [OF c] by (simp add: block_of_def)
    then have "tiles M (length ?b3) (free_blocks ?fl + image_mset block_of (add_mset ?v live))"
      using 1(3) len by (simp add: add_mset_commute)
    then have "sb_wf M (sb1\<lparr>sb_buf := ?b3, sb_free := ?fl\<rparr>) (add_mset ?v live)"
      using wf 1(2) len(2) v(3) room by (auto simp: sb_wf_def)
    moreover have "bv_rows (sb1\<lparr>sb_buf := ?b3, sb_free := ?fl\<rparr>) w = bv_rows sb w" if w: "w \<in># live" for w
    proof -
      have "block_of w \<in># free_blocks (sb_free sb1) + image_mset block_of (add_mset v live)" using w by simp
      moreover have "{b..<b + length ?xs} \<subseteq> cells (b, pow2_class ?n)" using pow2_class_covers [of ?n] old(1) by (auto simp: cells_def)
      ultimately have "take (bv_len w) (drop (fst w) ?b3) = take (bv_len w) (drop (fst w) ?b1)"
        using read_frame [OF 1(3)] pos [OF w] by blast
      also have "\<dots> = take (bv_len w) (drop (fst w) ?buf)" by (rule read_prefix [OF 1(5)]) (use bv_in_buf [OF wf, of w] w in simp)
      finally show ?thesis by (simp add: bv_rows_def)
    qed
    moreover have "bv_rows (sb1\<lparr>sb_buf := ?b3, sb_free := ?fl\<rparr>) ?v = ?xs"
      using fits len(2) old(1) by (simp add: bv_rows_def)
    ultimately show ?thesis using ext unfolding stored_def by blast
  qed
qed

lemma push_vec_extend:
  assumes "0 < bv_len v" "extend_vec sb v [row] = Ok x"
  shows "push_vec sb v row = Ok x"
proof -
  have v: "snd v = fst v + bv_len v" using assms(1) by (simp add: bv_len_def)
  have pow: "is_power_of_two (bv_len v) \<longleftrightarrow> \<not> bv_len v + 1 \<le> 2 ^ pow2_class (bv_len v)"
    using pow2_class_covers [of "bv_len v"] by (auto simp: is_power_of_two_def)
  show ?thesis
  proof (cases "is_power_of_two (bv_len v)")
    case True
    with pow assms(2) show ?thesis
      by (auto simp: extend_vec_def push_vec_def and_then_eq_Ok_iff id_inc_def)
  next
    case False
    with pow assms(2) show ?thesis
      by (auto simp: extend_vec_def push_vec_def and_then_eq_Ok_iff id_inc_def)
  qed
qed

lemma push_vec_ok:
  assumes "sb_wf M sb (add_mset v live)" "64 * M \<le> u32_max" "rows_in (add_mset v live) + 1 \<le> M"
  shows "\<exists>v' sb'. push_vec sb v row = Ok (v', sb') \<and> stored M sb live sb' v' (bv_rows sb v @ [row])"
proof -
  have "0 < bv_len v" using assms(1) by (simp add: sb_wf_def bv_len_def)
  with extend_vec_ok [of M sb v live "[row]"] assms push_vec_extend [of v sb row] show ?thesis by fastforce
qed

lemma return_vec_ok:
  assumes "sb_wf M sb (add_mset v live)"
  shows "\<exists>sb'. return_vec sb v = Ok sb' \<and> sb_wf M sb' live \<and> sb_buf sb' = sb_buf sb"
proof -
  have c: "pow2_class (bv_len v) < length (sb_free sb)" using assms by (auto simp: sb_wf_def tiles_def block_of_def)
  then have "free_blocks ((sb_free sb)[pow2_class (bv_len v) := sb_free sb ! pow2_class (bv_len v) @ [fst v]]) = add_mset (block_of v) (free_blocks (sb_free sb))"
    by (simp add: free_blocks_push block_of_def)
  with assms c show ?thesis by (simp add: return_vec_def sb_wf_def)
qed

lemma sb_default_wf: "sb_wf M sb_default {#}"
proof -
  have "free_blocks (replicate 32 []) = {#}" unfolding free_blocks_def by (rule sum.neutral) (simp add: nth_replicate)
  then show ?thesis by (simp add: sb_wf_def sb_default_def tiles_def)
qed

section \<open>Operations on subsets\<close>

text \<open>The subset of a list of rows: a range if the rows are consecutive.\<close>

definition subset_of :: "nat list \<Rightarrow> subset" where
  "subset_of rs = (if rs = [hd rs..<Suc (last rs)] then Dense (range_new (hd rs) (Suc (last rs))) else Sparse rs)"

definition ascending :: "nat list \<Rightarrow> bool" where
  "ascending rs \<longleftrightarrow> sorted_wrt (<) rs \<and> (\<forall>i \<in> set rs. i < u32_max)"

lemma ascending_simps [simp]:
  "ascending []" "ascending [i] \<longleftrightarrow> i < u32_max"
  "ascending (rs @ ss) \<longleftrightarrow> ascending rs \<and> ascending ss \<and> (\<forall>i \<in> set rs. \<forall>j \<in> set ss. i < j)"
  by (auto simp: ascending_def sorted_wrt_append)

lemma ascending_bounds:
  assumes "ascending rs" "rs \<noteq> []"
  shows "set rs \<subseteq> {hd rs..last rs}" "hd rs \<le> last rs" "last rs < u32_max"
proof -
  have s: "sorted rs" using assms(1) by (simp add: ascending_def strict_sorted_imp_sorted)
  then show "set rs \<subseteq> {hd rs..last rs}" using assms(2)
    by (auto simp: in_set_conv_nth hd_conv_nth last_conv_nth intro!: sorted_nth_mono)
  moreover have "hd rs \<in> set rs" "last rs \<in> set rs" using assms(2) by simp_all
  ultimately show "hd rs \<le> last rs" "last rs < u32_max" using assms(1) by (fastforce simp: ascending_def)+
qed

text \<open>Rows are consecutive when the distance of the ends is that of the positions.\<close>

lemma consecutive_iff:
  assumes "ascending rs" "rs \<noteq> []"
  shows "rs = [hd rs..<Suc (last rs)] \<longleftrightarrow> last rs - hd rs = length rs - 1"
proof
  assume "rs = [hd rs..<Suc (last rs)]"
  from arg_cong [OF this, of length] show "last rs - hd rs = length rs - 1" by simp
next
  assume len: "last rs - hd rs = length rs - 1"
  note b = ascending_bounds [OF assms]
  have d: "distinct rs" "sorted rs" using assms(1) by (simp_all add: ascending_def strict_sorted_iff)
  have "0 < length rs" using assms(2) by simp
  then have "length rs = Suc (last rs) - hd rs" using len b(2) by linarith
  then have "card (set rs) = card {hd rs..last rs}" using d(1) by (simp add: distinct_card)
  then have eq: "set rs = {hd rs..last rs}" using b(1) by (intro card_subset_eq) simp_all
  show "rs = [hd rs..<Suc (last rs)]"
    by (rule sorted_distinct_set_unique [OF d(2,1)]) (simp_all add: eq atLeastLessThanSuc_atLeastAtMost del: upt_Suc)
qed

lemma rows_dense_ok:
  assumes "ascending rs" "rs \<noteq> []"
  shows "rows_dense rs = Ok (rs = [hd rs..<Suc (last rs)])"
proof -
  note b = ascending_bounds [OF assms]
  have "card (set rs) \<le> card {hd rs..last rs}" using b(1) by (intro card_mono) auto
  then have "length rs \<le> Suc (last rs) - hd rs" using assms(1) by (simp add: ascending_def strict_sorted_iff distinct_card)
  then have len: "length rs - 1 \<le> u32_max" using b by linarith
  have "sub_u32 (last rs) (hd rs) = last rs - hd rs"
  proof -
    have "last rs + (u32_max + 1) - hd rs = (last rs - hd rs) + (u32_max + 1)" using b(2) by simp
    moreover have "last rs - hd rs < u32_max + 1" using b(3) by simp
    ultimately show ?thesis unfolding sub_u32_def by (metis mod_add_self2 mod_less)
  qed
  with len show ?thesis unfolding consecutive_iff [OF assms] using assms(2)
    by (simp add: rows_dense_def hd_conv_nth last_conv_nth)
qed

lemma subset_of_rows:
  assumes "ascending rs" "rs \<noteq> []"
  shows "rows (subset_of rs) = rs" "subset_wf (subset_of rs)"
  using ascending_bounds [OF assms] assms
  by (auto simp: subset_of_def range_new_def ascending_def strict_sorted_imp_sorted Suc_le_eq simp del: upt_Suc)

text \<open>Growing a subset row by row, as the subsets of \<open>Offsets\<close> do, keeps this form.\<close>

lemma add_row_subset_of:
  assumes "ascending (rs @ [row])"
  shows "add_row_sorted (if rs = [] then subset_empty else subset_of rs) row = Ok (subset_of (rs @ [row]))"
proof (cases "rs = []")
  case True
  with assms show ?thesis by (simp add: subset_of_def subset_empty_def add_row_sorted_def range_new_def id_inc_def from_usize_def)
next
  case False
  have asc: "ascending rs" "row < u32_max" "\<forall>i \<in> set rs. i < row" using assms by simp_all
  note b = ascending_bounds [OF asc(1) False]
  have low: "last rs < row" using False asc(3) by simp
  have "rs @ [row] = [hd rs..<Suc row] \<longleftrightarrow> rs = [hd rs..<row]" using b(2) low by simp
  also have "\<dots> \<longleftrightarrow> rs = [hd rs..<Suc (last rs)] \<and> row = Suc (last rs)"
  proof
    assume rs: "rs = [hd rs..<row]"
    have "hd rs < row" using b(2) low by simp
    have "last rs = last [hd rs..<row]" using rs by metis
    also have "\<dots> = row - 1" using \<open>hd rs < row\<close> by (simp add: last_conv_nth)
    finally have "row = Suc (last rs)" using \<open>hd rs < row\<close> by simp
    with rs show "rs = [hd rs..<Suc (last rs)] \<and> row = Suc (last rs)" by simp
  qed auto
  finally have dense: "rs @ [row] = [hd rs..<Suc row] \<longleftrightarrow> rs = [hd rs..<Suc (last rs)] \<and> row = Suc (last rs)" .
  show ?thesis
  proof (cases "rs = [hd rs..<Suc (last rs)]")
    case True
    have "subset_of (rs @ [row]) = (if row = Suc (last rs) then Dense (range_new (hd rs) (Suc row)) else Sparse (rs @ [row]))"
      using False True dense by (simp add: subset_of_def del: upt_Suc)
    moreover have "add_row_sorted (Dense (range_new (hd rs) (Suc (last rs)))) row =
        (if row = Suc (last rs) then Ok (Dense (range_new (hd rs) (Suc row))) else Ok (Sparse ([hd rs..<Suc (last rs)] @ [row])))"
      using b(2,3) low asc(2) by (auto simp: add_row_sorted_def range_new_def id_inc_def from_usize_def fill_from_dense_def vec_push_def)
    ultimately show ?thesis using False True by (simp add: subset_of_def del: upt_Suc)
  next
    case sparse: False
    then have "subset_of rs = Sparse rs" "subset_of (rs @ [row]) = Sparse (rs @ [row])"
      using False dense by (simp_all add: subset_of_def del: upt_Suc)
    with False low show ?thesis by (simp add: add_row_sorted_def vec_push_def)
  qed
qed

text \<open>The lists and the rows that a subset in the buffer has.\<close>

definition bs_live :: "buffered_subset \<Rightarrow> buffered_vec multiset" where
  "bs_live s = (case s of BufDense r \<Rightarrow> {#} | BufSparse v \<Rightarrow> {#v#})"

definition bs_subset :: "subset_buffer \<Rightarrow> buffered_subset \<Rightarrow> subset" where
  "bs_subset sb s = (case s of BufDense r \<Rightarrow> Dense r | BufSparse v \<Rightarrow> Sparse (bv_rows sb v))"

lemma bs_simps [simp]:
  "bs_live (BufDense r) = {#}" "bs_live (BufSparse v) = {#v#}"
  "bs_subset sb (BufDense r) = Dense r" "bs_subset sb (BufSparse v) = Sparse (bv_rows sb v)"
  by (simp_all add: bs_live_def bs_subset_def)

text \<open>\<open>bs_stored M sb live sb' s t\<close>: \<open>s\<close> is now the subset \<open>t\<close>, and the other lists are as before.\<close>

definition bs_stored :: "nat \<Rightarrow> subset_buffer \<Rightarrow> buffered_vec multiset \<Rightarrow> subset_buffer \<Rightarrow> buffered_subset \<Rightarrow> subset \<Rightarrow> bool" where
  "bs_stored M sb live sb' s t \<longleftrightarrow> sb_wf M sb' (bs_live s + live) \<and> bs_subset sb' s = t \<and> (\<forall>w \<in># live. bv_rows sb' w = bv_rows sb w)"

lemma bs_as_ref_ok:
  assumes "sb_wf M sb (bs_live s + live)"
  shows "bs_as_ref s sb = Ok (bs_subset sb s)"
proof (cases s)
  case (BufSparse v)
  with bv_in_buf [OF assms, of v] assms have "fst v < snd v" "snd v \<le> length (sb_buf sb)" by (auto simp: sb_wf_def bv_len_def)
  with BufSparse show ?thesis by (simp add: bs_as_ref_def make_ref_def bv_rows_def bv_len_def)
qed (simp add: bs_as_ref_def)

lemma bs_sparse: "stored M sb live sb' v rs \<Longrightarrow> bs_stored M sb live sb' (BufSparse v) (Sparse rs)"
  by (simp add: stored_def bs_stored_def)

lemma bs_dense: "sb_wf M sb live \<Longrightarrow> bs_stored M sb live sb (BufDense r) (Dense r)"
  by (simp add: bs_stored_def)

lemma subset_of_cases:
  assumes "ascending rs" "rs \<noteq> []" "bs_subset sb s = subset_of rs"
  obtains (dense) "s = BufDense (range_new (hd rs) (Suc (last rs)))" "rs = [hd rs..<Suc (last rs)]"
    | (sparse) v where "s = BufSparse v" "bv_rows sb v = rs" "rs \<noteq> [hd rs..<Suc (last rs)]"
  using assms by (cases s) (auto simp: subset_of_def simp del: upt_Suc split: if_splits)

lemma bs_from_sorted_ok:
  assumes "sb_wf M sb live" "64 * M \<le> u32_max" "ascending rs" "rs \<noteq> []" "rows_in live + length rs \<le> M"
  shows "\<exists>s sb'. bs_from_sorted rs sb = Ok (s, sb') \<and> bs_stored M sb live sb' s (subset_of rs)"
proof (cases "rs = [hd rs..<Suc (last rs)]")
  case True
  with ascending_bounds [OF assms(3,4)] rows_dense_ok [OF assms(3,4)] bs_dense [OF assms(1)] show ?thesis
    by (simp add: bs_from_sorted_def subset_of_def id_inc_def from_usize_def del: upt_Suc)
next
  case False
  with new_vec_ok [OF assms(1,2,4,5)] rows_dense_ok [OF assms(3,4)] show ?thesis
    by (fastforce simp: bs_from_sorted_def subset_of_def simp del: upt_Suc intro: bs_sparse)
qed

lemma consecutive_arith:
  "a \<le> b \<Longrightarrow> c \<le> d \<Longrightarrow> b < c \<Longrightarrow> 0 < m \<Longrightarrow> 0 < n \<Longrightarrow> m \<le> b - a + 1 \<Longrightarrow> n \<le> d - c + 1 \<Longrightarrow>
   d - a = m + n - 1 \<longleftrightarrow> b - a = m - 1 \<and> c = Suc b \<and> d - c = n - 1" for a b c d m n :: nat
proof -
  assume *: "a \<le> b" "c \<le> d" "b < c" "0 < m" "0 < n" "m \<le> b - a + 1" "n \<le> d - c + 1"
  obtain x y z m' n' where "b = a + x" "d = c + y" "c = Suc (b + z)" "m = Suc m'" "n = Suc n'"
    using * le_Suc_ex [of a b] le_Suc_ex [of c d] less_imp_Suc_add [of b c] gr0_conv_Suc by metis
  with * show ?thesis by auto
qed

lemma consecutive_append:
  assumes "ascending (rs @ ss)" "rs \<noteq> []" "ss \<noteq> []"
  shows "rs @ ss = [hd (rs @ ss)..<Suc (last (rs @ ss))] \<longleftrightarrow>
    rs = [hd rs..<Suc (last rs)] \<and> hd ss = Suc (last rs) \<and> ss = [hd ss..<Suc (last ss)]"
proof -
  have a: "ascending rs" "ascending ss" "last rs < hd ss" using assms by simp_all
  note b = ascending_bounds(2) [OF a(1) assms(2)] ascending_bounds(2) [OF a(2) assms(3)]
  have ne: "rs @ ss \<noteq> []" using assms(2) by simp
  have len: "0 < length rs" "0 < length ss" using assms(2,3) by simp_all
  have "length rs \<le> last rs - hd rs + 1" "length ss \<le> last ss - hd ss + 1"
    using ascending_bounds(1) [OF a(1) assms(2)] ascending_bounds(1) [OF a(2) assms(3)] a(1,2) b
      card_mono [of "{hd rs..last rs}" "set rs"] card_mono [of "{hd ss..last ss}" "set ss"]
    by (simp_all add: ascending_def strict_sorted_iff distinct_card)
  moreover have "hd (rs @ ss) = hd rs" "last (rs @ ss) = last ss" "length (rs @ ss) = length rs + length ss" using assms(2,3) by simp_all
  ultimately show ?thesis
    unfolding consecutive_iff [OF assms(1) ne] consecutive_iff [OF a(1) assms(2)] consecutive_iff [OF a(2) assms(3)]
    using consecutive_arith [of "hd rs" "last rs" "hd ss" "last ss" "length rs" "length ss"] b a(3) len by (simp only:)
qed

text \<open>Merging a sorted run behind the rows of a subset.\<close>

lemma bs_merge_sorted_ok:
  assumes wf: "sb_wf M sb (bs_live s + live)" and M: "64 * M \<le> u32_max" and asc: "ascending (rs @ ss)" "rs \<noteq> []" "ss \<noteq> []"
    and s: "bs_subset sb s = subset_of rs" and room: "rows_in live + length (rs @ ss) \<le> M"
  shows "\<exists>s' sb'. bs_merge_sorted s ss sb = Ok (s', sb') \<and> bs_stored M sb live sb' s' (subset_of (rs @ ss))"
proof -
  have a: "ascending rs" "ascending ss" using asc(1) by simp_all
  note whole = consecutive_append [OF asc] and dense = rows_dense_ok [OF a(2) asc(3)]
  note b = ascending_bounds [OF a(1) asc(2)] ascending_bounds [OF a(2) asc(3)]
  from a(1) asc(2) s show ?thesis
  proof (cases rule: subset_of_cases)
    case dense_old: dense
    with wf have live: "sb_wf M sb live" by simp
    show ?thesis
    proof (cases "hd ss = Suc (last rs) \<and> ss = [hd ss..<Suc (last ss)]")
      case True
      then have "rs @ ss = [hd (rs @ ss)..<Suc (last (rs @ ss))]" using whole dense_old(2) by blast
      then have "subset_of (rs @ ss) = Dense (range_new (hd (rs @ ss)) (Suc (last (rs @ ss))))" unfolding subset_of_def by (rule if_P)
      then have "subset_of (rs @ ss) = Dense (range_new (hd rs) (Suc (last ss)))" using asc(2,3) by simp
      moreover have "range_new (hd rs) (Suc (last rs))\<lparr>range_end := Suc (last ss)\<rparr> = range_new (hd rs) (Suc (last ss))" by (simp add: range_new_def)
      moreover have "rows_dense ss = Ok True" using dense conjunct2 [OF True] by metis
      ultimately show ?thesis using dense_old(1) conjunct1 [OF True] b bs_dense [OF live]
        by (simp add: bs_merge_sorted_def id_inc_def from_usize_def range_new_def del: upt_Suc)
    next
      case False
      then have no: "rs @ ss \<noteq> [hd (rs @ ss)..<Suc (last (rs @ ss))]" using whole by blast
      have ne: "rs @ ss \<noteq> []" using asc(2) by simp
      from new_vec_ok [OF live M ne] room obtain v sb' where
        "new_vec sb (rs @ ss) = Ok (v, sb')" "stored M sb live sb' v (rs @ ss)" by auto
      moreover have "[hd rs..<Suc (last rs)] = rs" using dense_old(2) by simp
      ultimately show ?thesis using no dense_old(1) False dense b(2)
        by (auto simp: bs_merge_sorted_def range_new_def subset_of_def simp del: upt_Suc intro: bs_sparse)
    qed
  next
    case (sparse v)
    then have no: "rs @ ss \<noteq> [hd (rs @ ss)..<Suc (last (rs @ ss))]" using whole by blast
    have vwf: "sb_wf M sb (add_mset v live)" using wf sparse(1) by simp
    moreover have "bv_len v = length rs" using bv_rows_length [OF vwf, of v] sparse(2) by simp
    ultimately obtain v' sb' where "extend_vec sb v ss = Ok (v', sb')" "stored M sb live sb' v' (rs @ ss)"
      using extend_vec_ok [OF vwf M, of ss] room sparse(2) by auto
    with no sparse(1) dense show ?thesis by (auto simp: bs_merge_sorted_def subset_of_def simp del: upt_Suc intro: bs_sparse)
  qed
qed

text \<open>Adding one row.\<close>

lemma bs_add_row_ok:
  assumes wf: "sb_wf M sb (bs_live s + live)" and M: "64 * M \<le> u32_max" and asc: "ascending (rs @ [row])"
    and s: "if rs = [] then s = bs_empty else bs_subset sb s = subset_of rs" and room: "rows_in live + Suc (length rs) \<le> M"
  shows "\<exists>s' sb'. bs_add_row_sorted s row sb = Ok (s', sb') \<and> bs_stored M sb live sb' s' (subset_of (rs @ [row]))"
proof (cases "rs = []")
  case True
  with s have e: "s = bs_empty" by simp
  with wf have live: "sb_wf M sb live" by (simp add: bs_empty_def)
  with True e asc bs_dense [OF live] show ?thesis
    by (simp add: bs_add_row_sorted_def bs_empty_def subset_of_def range_new_def id_inc_def from_usize_def)
next
  case False
  have a: "ascending rs" "row < u32_max" "last rs < row" using asc False by simp_all
  note whole = add_row_subset_of [OF asc] and b = ascending_bounds(2) [OF a(1) False]
  from s False have "bs_subset sb s = subset_of rs" by simp
  with a(1) False show ?thesis
  proof (cases rule: subset_of_cases)
    case dense
    with wf have live: "sb_wf M sb live" by simp
    have old: "subset_of rs = Dense (range_new (hd rs) (Suc (last rs)))" using dense(2) by (simp add: subset_of_def del: upt_Suc)
    show ?thesis
    proof (cases "row = Suc (last rs)")
      case True
      then have "subset_of (rs @ [row]) = Dense ((range_new (hd rs) (Suc (last rs)))\<lparr>range_end := Suc row\<rparr>)"
        using whole False old b a(2) by (simp add: add_row_sorted_def range_new_def id_inc_def from_usize_def)
      with True dense(1) b a(2) bs_dense [OF live] show ?thesis
        by (simp add: bs_add_row_sorted_def range_new_def id_inc_def from_usize_def)
    next
      case gap: False
      then have t: "subset_of (rs @ [row]) = Sparse (rs @ [row])"
        using whole False old b a(2,3) dense(2) by (simp add: add_row_sorted_def range_new_def fill_from_dense_def vec_push_def del: upt_Suc split: if_splits)
      from new_vec_ok [OF live M False] room obtain v sb1 where
        1: "new_vec sb rs = Ok (v, sb1)" "stored M sb live sb1 v rs" by auto
      then have wf1: "sb_wf M sb1 (add_mset v live)" "bv_rows sb1 v = rs" by (simp_all add: stored_def)
      moreover have "bv_len v = length rs" using bv_rows_length [OF wf1(1), of v] wf1(2) by simp
      ultimately obtain v' sb' where 2: "push_vec sb1 v row = Ok (v', sb')" "stored M sb1 live sb' v' (rs @ [row])"
        using push_vec_ok [OF wf1(1) M, of row] room by auto
      then have "stored M sb live sb' v' (rs @ [row])" using 1(2) by (simp add: stored_def)
      moreover have "[hd rs..<Suc (last rs)] = rs" using dense(2) by simp
      ultimately show ?thesis using dense(1) gap b t 1(1) 2(1)
        by (auto simp: bs_add_row_sorted_def range_new_def simp del: upt_Suc intro: bs_sparse)
    qed
  next
    case (sparse v)
    then have old: "subset_of rs = Sparse rs" by (simp add: subset_of_def del: upt_Suc)
    have t: "subset_of (rs @ [row]) = Sparse (rs @ [row])" using whole False old a(3) by (simp add: add_row_sorted_def vec_push_def)
    have vwf: "sb_wf M sb (add_mset v live)" using wf sparse(1) by simp
    moreover have "bv_len v = length rs" using bv_rows_length [OF vwf, of v] sparse(2) by simp
    ultimately obtain v' sb' where "push_vec sb v row = Ok (v', sb')" "stored M sb live sb' v' (rs @ [row])"
      using push_vec_ok [OF vwf M, of row] room sparse(2) by auto
    with t sparse(1) show ?thesis by (auto simp: bs_add_row_sorted_def intro: bs_sparse)
  qed
qed

section \<open>Properties\<close>

lemma make_ref_rows:
  assumes "sb_wf M sb (add_mset v live)"
  shows "make_ref sb v = Ok (Sparse (bv_rows sb v))"
  using bs_as_ref_ok [of M sb "BufSparse v" live] assms by (simp add: bs_as_ref_def)

text \<open>
  C23: Subsets in a shared vector.  Adding a row to a subset whose rows live in the shared vector gives the
  subset that adding it to a subset of its own gives: a range while the rows are consecutive, the list of
  the rows after that.  The blocks of the vector still do not overlap, whether the list stayed in its
  block, moved to a free one or to a new one, every other list reads as before, and with room for \<open>M\<close>
  rows in all, \<open>64 * M\<close> at most the largest index, nothing panics.
\<close>

theorem shared_subset_refines:
  assumes "sb_wf M sb (bs_live s + live)" "64 * M \<le> u32_max" "ascending (rs @ [row])"
    "if rs = [] then s = bs_empty else bs_as_ref s sb = Ok (subset_of rs)" "rows_in live + Suc (length rs) \<le> M"
  shows "\<exists>s' sb' t. bs_add_row_sorted s row sb = Ok (s', sb') \<and>
    and_then (bs_as_ref s sb) (\<lambda>old. add_row_sorted old row) = Ok t \<and> bs_as_ref s' sb' = Ok t \<and> rows t = rs @ [row] \<and>
    sb_wf M sb' (bs_live s' + live) \<and> (\<forall>w \<in># live. make_ref sb' w = make_ref sb w)"
proof -
  note ref = bs_as_ref_ok [OF assms(1)]
  then have "if rs = [] then s = bs_empty else bs_subset sb s = subset_of rs" using assms(4) by (simp split: if_splits)
  from bs_add_row_ok [OF assms(1-3) this assms(5)] obtain s' sb' where
    1: "bs_add_row_sorted s row sb = Ok (s', sb')" "bs_stored M sb live sb' s' (subset_of (rs @ [row]))" by blast
  then have wf': "sb_wf M sb' (bs_live s' + live)" "bs_subset sb' s' = subset_of (rs @ [row])" "\<forall>w \<in># live. bv_rows sb' w = bv_rows sb w"
    by (simp_all add: bs_stored_def)
  have "make_ref sb' w = make_ref sb w" if w: "w \<in># live" for w
  proof -
    from w obtain rest where "live = add_mset w rest" by (meson multi_member_split)
    with assms(1) wf'(1) make_ref_rows [of M sb w "bs_live s + rest"] make_ref_rows [of M sb' w "bs_live s' + rest"] wf'(3) w show ?thesis by simp
  qed
  moreover have "and_then (bs_as_ref s sb) (\<lambda>old. add_row_sorted old row) = Ok (subset_of (rs @ [row]))"
    using add_row_subset_of [OF assms(3)] assms(4) ref by (auto simp: bs_empty_def subset_empty_def split: if_splits)
  ultimately show ?thesis using 1(1) wf' bs_as_ref_ok [OF wf'(1)] subset_of_rows(1) [OF assms(3)] by auto
qed

theorem shared_subset_refines_witness:
  "\<exists>s sb. bs_add_row_sorted (BufDense (range_new 3 5)) 7 sb_default = Ok (s, sb) \<and> bs_as_ref s sb = Ok (Sparse [3, 4, 7])"
proof -
  have sample: "ascending ([3, 4] @ [7])" "subset_of [3, 4] = Dense (range_new 3 5)" "bs_as_ref (BufDense (range_new 3 5)) sb_default = Ok (Dense (range_new 3 5))"
    by (simp_all add: ascending_def u32_max_def subset_of_def upt_rec range_new_def bs_as_ref_def)
  have "add_row_sorted (Dense (range_new 3 5)) 7 = Ok (Sparse [3, 4, 7])"
    by (simp add: add_row_sorted_def range_new_def fill_from_dense_def vec_push_def upt_rec)
  with shared_subset_refines [of 4 sb_default "BufDense (range_new 3 5)" "{#}" "[3, 4]" 7] sample sb_default_wf [of 4] show ?thesis
    by (auto simp: u32_max_def)
qed

end
