(* ===== verification/IndexBase.thy ===== *)
theory IndexBase
  imports SubsetBuffer SortedQuery Rebuild
begin

text \<open>
  The indexes of \<open>egglog/core-relations/src/hash_index/mod.rs\<close> over a keyed table, whatever they map to rows:
  \<open>Index\<close> with the version it is up to date with, \<open>Index::refresh\<close>, which brings it to the version of the
  table on one of three paths, and the trait \<open>IndexBase\<close> that it is written against.  The scans of the table
  go through the projections of \<open>egglog/core-relations/src/table_spec.rs\<close>.

  The trait is a record of operations.  The locale \<open>index_base\<close> has the laws of its row-at-a-time part,
  \<open>index_provider\<close> those of the two bulk operations; the lemmas about \<open>Index::refresh\<close> are proved from them.
\<close>

section \<open>Model\<close>

subsection \<open>Projections\<close>

definition project :: "nat list \<Rightarrow> (nat \<times> row) list \<Rightarrow> (nat \<times> val list) list result" where
  "project cols = map_result (\<lambda>(i, r). and_then (map_result (vec_get r) cols) (\<lambda>vs. Ok (i, vs)))"

definition sw_scan_project :: "sorted_table \<Rightarrow> subset \<Rightarrow> nat list \<Rightarrow> nat \<Rightarrow> nat \<Rightarrow> constrnt list \<Rightarrow>
    ((nat \<times> val list) list \<times> nat option) result" where
  "sw_scan_project t s cols st n cs =
     (if cols = [] then Ok ([], None)
      else and_then (sw_scan_bounded t s st n cs) (\<lambda>(es, nxt). and_then (project cols es) (\<lambda>es. Ok (es, nxt))))"

definition sw_for_each_col :: "sorted_table \<Rightarrow> subset \<Rightarrow> nat \<Rightarrow> (nat \<times> val) list result" where
  "sw_for_each_col t s col = and_then (sw_scan t s) (map_result (\<lambda>(i, r). and_then (vec_get r col) (\<lambda>v. Ok (i, v))))"

subsection \<open>The trait and the index\<close>

record ('ti, 'k) index_ops =
  ib_clear :: "'ti \<Rightarrow> 'ti result"
  ib_get_subset :: "'ti \<Rightarrow> 'k \<Rightarrow> subset option result"
  ib_merge_rows :: "tagged_buffer \<Rightarrow> 'ti \<Rightarrow> 'ti result"
  ib_merge_parallel :: "nat list \<Rightarrow> sorted_table \<Rightarrow> subset \<Rightarrow> 'ti \<Rightarrow> 'ti comp"
  ib_rebuild_full :: "nat list \<Rightarrow> sorted_table \<Rightarrow> subset \<Rightarrow> 'ti \<Rightarrow> 'ti comp"

record 'ti index =
  ix_key :: "nat list"
  ix_updated :: "nat \<times> nat"
  ix_table :: 'ti

definition index_new :: "nat list \<Rightarrow> 'ti \<Rightarrow> 'ti index" where
  "index_new key ti = \<lparr>ix_key = key, ix_updated = (0, 0), ix_table = ti\<rparr>"

definition index_get :: "('ti, 'k) index_ops \<Rightarrow> 'ti index \<Rightarrow> 'k \<Rightarrow> subset option result" where
  "index_get tr ix k = ib_get_subset tr (ix_table ix) k"

definition needs_refresh :: "'ti index \<Rightarrow> sorted_table \<Rightarrow> bool result" where
  "needs_refresh ix t = and_then (sw_version t) (\<lambda>v. Ok (v \<noteq> ix_updated ix))"

definition stale_rows :: "'ti index \<Rightarrow> nat \<times> nat \<Rightarrow> nat" where
  "stale_rows ix current = (if fst current = fst (ix_updated ix) then snd current - snd (ix_updated ix) else snd current)"

definition should_parallelize :: "nat \<Rightarrow> nat \<Rightarrow> nat \<Rightarrow> bool" where
  "should_parallelize threads n cutoff \<longleftrightarrow> cutoff < n \<and> 1 < threads"

subsection \<open>Row at a time\<close>

text \<open>The loop of \<open>refresh_serial\<close>: batches of 1024 rows through a buffer.\<close>

partial_function (option) refresh_loop :: "(tagged_buffer \<Rightarrow> 'ti \<Rightarrow> 'ti result) \<Rightarrow> sorted_table \<Rightarrow> subset \<Rightarrow> nat list \<Rightarrow> nat \<Rightarrow> tagged_buffer \<Rightarrow>
    'ti \<Rightarrow> 'ti comp" where
  "refresh_loop merge t s cols cur buf ti =
     run_then (Some (sw_scan_project t s cols cur 1024 [])) (\<lambda>(es, nxt).
     run_then (Some (tag_add_all es (buf_clear buf))) (\<lambda>buf.
     run_then (Some (merge buf ti)) (\<lambda>ti.
       case nxt of
         None \<Rightarrow> Some (Ok ti)
       | Some cur \<Rightarrow> refresh_loop merge t s cols cur buf ti)))"

definition refresh_serial :: "(tagged_buffer \<Rightarrow> 'ti \<Rightarrow> 'ti result) \<Rightarrow> sorted_table \<Rightarrow> subset \<Rightarrow> nat list \<Rightarrow> 'ti \<Rightarrow> 'ti comp" where
  "refresh_serial merge t s cols ti = run_then (Some (tag_new (length cols))) (\<lambda>buf. refresh_loop merge t s cols 0 buf ti)"

subsection \<open>Refreshing\<close>

text \<open>
  A new major version invalidates every row: the index is cleared and built from the whole table.
  Otherwise the rows since the last refresh are added.
\<close>

definition index_refresh :: "('ti, 'k) index_ops \<Rightarrow> nat \<Rightarrow> nat \<Rightarrow> sorted_table \<Rightarrow> 'ti index \<Rightarrow> 'ti index comp" where
  "index_refresh tr threads cutoff t ix =
     run_then (Some (sw_version t)) (\<lambda>(major, minor).
       if (major, minor) = ix_updated ix then Some (Ok ix)
       else
         let full = major \<noteq> fst (ix_updated ix) in
         run_then (Some (if full then and_then (ib_clear tr (ix_table ix)) (\<lambda>ti. and_then (sw_all t) (\<lambda>s. Ok (ti, s)))
                         else and_then (sw_updates_since t (snd (ix_updated ix))) (\<lambda>s. Ok (ix_table ix, s)))) (\<lambda>(ti, s).
         run_then (if should_parallelize threads (subset_size s) cutoff then ib_merge_parallel tr (ix_key ix) t s ti
                   else if full then ib_rebuild_full tr (ix_key ix) t s ti
                   else refresh_serial (ib_merge_rows tr) t s (ix_key ix) ti) (\<lambda>ti.
           Some (Ok (ix\<lparr>ix_table := ti, ix_updated := (major, minor)\<rparr>)))))"

section \<open>What a scan adds to an index\<close>

text \<open>The rows of a scan whose projections a key selects, and the number of cells scanned.\<close>

definition rows_for :: "('k \<Rightarrow> val list \<Rightarrow> bool) \<Rightarrow> (nat \<times> val list) list \<Rightarrow> 'k \<Rightarrow> nat list" where
  "rows_for mentions es k = map fst (filter (\<lambda>(i, vs). mentions k vs) es)"

definition cell_count :: "(nat \<times> val list) list \<Rightarrow> nat" where
  "cell_count es = sum_list (map (\<lambda>(i, vs). length vs) es)"

lemma rows_for_simps [simp]:
  "rows_for mentions [] k = []" "rows_for mentions ((i, vs) # es) k = (if mentions k vs then i # rows_for mentions es k else rows_for mentions es k)"
  "rows_for mentions (es @ fs) k = rows_for mentions es k @ rows_for mentions fs k"
  "cell_count [] = 0" "cell_count ((i, vs) # es) = length vs + cell_count es" "cell_count (es @ fs) = cell_count es + cell_count fs"
  by (simp_all add: rows_for_def cell_count_def)

lemma rows_for_subset: "set (rows_for mentions es k) \<subseteq> fst ` set es"
  by (auto simp: rows_for_def)

text \<open>The rows of a scan come in their order, behind the rows that the index has.\<close>

definition scan_fits :: "('k \<Rightarrow> nat list) \<Rightarrow> (nat \<times> val list) list \<Rightarrow> bool" where
  "scan_fits f es \<longleftrightarrow> ascending (map fst es) \<and> (\<forall>k. \<forall>i \<in> set (f k). \<forall>j \<in> fst ` set es. i < j)"

lemma scan_fits_append:
  "scan_fits f (es @ fs) \<Longrightarrow> scan_fits f es \<and> scan_fits (\<lambda>k. f k @ rows_for mentions es k) fs"
  using rows_for_subset [of mentions es] by (fastforce simp: scan_fits_def ball_Un)

section \<open>Scans\<close>

text \<open>The live rows among \<open>is\<close>, projected.\<close>

definition scan_of :: "sorted_table \<Rightarrow> nat list \<Rightarrow> nat list \<Rightarrow> (nat \<times> val list) list" where
  "scan_of t cols is = map (\<lambda>i. (i, map (\<lambda>c. sw_rows t ! i ! c) cols)) (filter (sw_alive t) is)"

definition scan_within :: "nat \<Rightarrow> subset \<Rightarrow> bool" where
  "scan_within n s \<longleftrightarrow> subset_wf s \<and> distinct (rows s) \<and> (\<forall>i \<in> set (rows s). i < n) \<and> (case s of Dense r \<Rightarrow> range_end r \<le> n | Sparse v \<Rightarrow> True)"

lemma scan_of_simps [simp]:
  "scan_of t cols (is @ js) = scan_of t cols is @ scan_of t cols js" "map fst (scan_of t cols is) = filter (sw_alive t) is"
  "fst ` set (scan_of t cols is) = {i \<in> set is. sw_alive t i}" "cell_count (scan_of t cols is) = length (filter (sw_alive t) is) * length cols"
  by (auto simp: scan_of_def comp_def cell_count_def image_iff sum_list_triv)

lemma scan_bounds:
  "scan_within n s \<Longrightarrow> (rows s = [] \<and> bounds s = Ok None) \<or> (\<exists>lo hi. bounds s = Ok (Some (lo, hi)) \<and> hi \<le> n)"
proof (cases "rows s = []")
  case True
  assume "scan_within n s"
  with True show ?thesis by (cases s) (auto simp: bounds_def slice_bounds_def scan_within_def)
next
  case False
  assume "scan_within n s"
  with False bounds_within [of s n] show ?thesis by (auto simp: scan_within_def)
qed

lemma project_ok:
  assumes "readable t" "\<forall>c \<in> set cols. c < sw_columns t" "\<forall>i \<in> set is. i < length (sw_rows t)"
  shows "project cols (map (\<lambda>i. (i, sw_rows t ! i)) (filter (sw_alive t) is)) = Ok (scan_of t cols is)"
proof -
  have len: "length (sw_rows t ! i) = sw_columns t" if "i < length (sw_rows t)" for i
    using rd_row_length [of "sw_columns t" "sw_data t" i] assms(1) that by (simp add: readable_def)
  have "map_result (vec_get (sw_rows t ! i)) cols = Ok (map (\<lambda>c. sw_rows t ! i ! c) cols)" if "i \<in> set is" for i
    by (rule map_result_Ok) (use assms len that in auto)
  then have "project cols (map (\<lambda>i. (i, sw_rows t ! i)) (filter (sw_alive t) is)) =
      Ok (map (\<lambda>(i, r). (i, map ((!) r) cols)) (map (\<lambda>i. (i, sw_rows t ! i)) (filter (sw_alive t) is)))"
    unfolding project_def by (intro map_result_Ok) auto
  then show ?thesis by (simp add: scan_of_def comp_def)
qed

lemma scan_project_ok:
  assumes "readable t" "cols \<noteq> []" "\<forall>c \<in> set cols. c < sw_columns t" "scan_within (length (sw_rows t)) s" "st \<le> length (rows s)"
  shows "sw_scan_project t s cols st n [] =
    Ok (scan_of t cols (take n (drop st (rows s))), if st + n < length (rows s) then Some (st + n) else None)"
proof -
  have len: "buf_len (rd_data (sw_data t)) = length (sw_rows t)" using assms(1) rd_len [of "sw_columns t" "sw_data t"] by (simp add: readable_def)
  have within: "\<forall>i \<in> set (take n (drop st (rows s))). i < length (sw_rows t)" using assms(4) by (auto simp: scan_within_def dest!: in_set_takeD in_set_dropD)
  have it: "iter_bounded s st (st + n) = Ok (take n (drop st (rows s)), if st + n < length (rows s) then Some (st + n) else None)"
    using iter_bounded_ok [of s st "st + n"] assms(4,5) by (simp add: scan_within_def)
  from scan_bounds [OF assms(4)] show ?thesis
  proof (elim disjE exE conjE)
    assume "rows s = []" "bounds s = Ok None"
    with assms(2) show ?thesis by (simp add: sw_scan_project_def sw_scan_bounded_def project_def scan_of_def)
  next
    fix lo hi assume "bounds s = Ok (Some (lo, hi))" "hi \<le> length (sw_rows t)"
    with assms(2) len it sw_visit_ok [OF assms(1) within, of "[]"] project_ok [OF assms(1,3) within] show ?thesis
      by (simp add: sw_scan_project_def sw_scan_bounded_def)
  qed
qed

lemma scan_ok:
  assumes "readable t" "scan_within (length (sw_rows t)) s"
  shows "sw_scan t s = Ok (map (\<lambda>i. (i, sw_rows t ! i)) (filter (sw_alive t) (rows s)))"
proof -
  have len: "buf_len (rd_data (sw_data t)) = length (sw_rows t)" using assms(1) rd_len [of "sw_columns t" "sw_data t"] by (simp add: readable_def)
  from scan_bounds [OF assms(2)] show ?thesis
    using sw_visit_ok [OF assms(1), of "rows s" "[]"] assms(2) len by (auto simp: sw_scan_def scan_within_def)
qed

section \<open>The interface\<close>

lemma clear_buffer: "0 < n_columns b \<Longrightarrow> buf_wf (buf_clear b) \<and> tag_rows (buf_clear b) = [] \<and> n_columns (buf_clear b) = n_columns b"
  using holds_rows [of "buf_clear b" "[]"] by (simp add: buf_wf_def holds_def buf_clear_def tag_rows_def)

text \<open>
  \<open>covers mentions t cols n f\<close>: \<open>f\<close> has, in order, all live rows before \<open>n\<close> whose projection a key selects,
  and otherwise only rows that are stale by now.
\<close>

definition cells_of :: "sorted_table \<Rightarrow> nat list \<Rightarrow> nat \<Rightarrow> val list" where
  "cells_of t cols i = map (\<lambda>c. sw_rows t ! i ! c) cols"

definition covers :: "('k \<Rightarrow> val list \<Rightarrow> bool) \<Rightarrow> sorted_table \<Rightarrow> nat list \<Rightarrow> nat \<Rightarrow> ('k \<Rightarrow> nat list) \<Rightarrow> bool" where
  "covers mentions t cols n f \<longleftrightarrow> n \<le> length (sw_rows t) \<and>
     (\<forall>k. (\<forall>i \<in> set (f k). i < n \<and> (sw_alive t i \<longrightarrow> mentions k (cells_of t cols i))) \<and>
        (\<forall>i < n. sw_alive t i \<longrightarrow> mentions k (cells_of t cols i) \<longrightarrow> i \<in> set (f k)))"

definition selected_rows :: "('k \<Rightarrow> val list \<Rightarrow> bool) \<Rightarrow> sorted_table \<Rightarrow> nat list \<Rightarrow> 'k \<Rightarrow> nat list" where
  "selected_rows mentions t cols k = filter (\<lambda>i. sw_alive t i \<and> mentions k (cells_of t cols i)) [0..<length (sw_rows t)]"

text \<open>What is known of an index between refreshes: nothing of its rows once the table has a later major version.\<close>

definition index_ok :: "('k \<Rightarrow> val list \<Rightarrow> bool) \<Rightarrow> (nat \<Rightarrow> 'ti \<Rightarrow> nat \<Rightarrow> ('k \<Rightarrow> nat list) \<Rightarrow> bool) \<Rightarrow> nat \<Rightarrow> sorted_table \<Rightarrow> 'ti index \<Rightarrow> bool" where
  "index_ok mentions keeps M t ix \<longleftrightarrow> fst (ix_updated ix) \<le> sw_generation t \<and>
     (\<exists>T f. keeps M (ix_table ix) T f \<and>
        (fst (ix_updated ix) = sw_generation t \<longrightarrow>
           T \<le> length (ix_key ix) * snd (ix_updated ix) \<and> covers mentions t (ix_key ix) (snd (ix_updated ix)) f))"

lemma rows_for_scan: "rows_for mentions (scan_of t cols is) k = filter (\<lambda>i. sw_alive t i \<and> mentions k (cells_of t cols i)) is"
  by (simp add: rows_for_def scan_of_def cells_of_def filter_map comp_def conj_commute)

lemma coversD:
  assumes "covers mentions t cols n f"
  shows "n \<le> length (sw_rows t)" "i \<in> set (f k) \<Longrightarrow> i < n" "i \<in> set (f k) \<Longrightarrow> sw_alive t i \<Longrightarrow> mentions k (cells_of t cols i)"
    "i < n \<Longrightarrow> sw_alive t i \<Longrightarrow> mentions k (cells_of t cols i) \<Longrightarrow> i \<in> set (f k)"
  using assms unfolding covers_def by blast+

lemma covers_live:
  assumes "covers mentions t cols (length (sw_rows t)) f" "ascending (f k)"
  shows "filter (sw_alive t) (f k) = selected_rows mentions t cols k"
proof -
  have "sorted_wrt (<) (filter (sw_alive t) (f k))" using assms(2) by (intro sorted_wrt_filter) (simp add: ascending_def)
  moreover have "sorted_wrt (<) (selected_rows mentions t cols k)" unfolding selected_rows_def by (intro sorted_wrt_filter) simp
  moreover have "set (filter (sw_alive t) (f k)) = set (selected_rows mentions t cols k)"
    using assms(1) by (auto simp: covers_def selected_rows_def)
  ultimately show ?thesis by (metis strict_sorted_equal)
qed

text \<open>The rows of a scan that starts where an index ends complete it.\<close>

lemma covers_extend:
  assumes "covers mentions t cols n f"
  shows "covers mentions t cols (length (sw_rows t)) (\<lambda>k. f k @ rows_for mentions (scan_of t cols [n..<length (sw_rows t)]) k)"
  unfolding covers_def rows_for_scan
proof (intro conjI allI ballI impI)
  show "length (sw_rows t) \<le> length (sw_rows t)" by simp
  fix k i assume i: "i \<in> set (f k @ filter (\<lambda>i. sw_alive t i \<and> mentions k (cells_of t cols i)) [n..<length (sw_rows t)])"
  with assms show "i < length (sw_rows t)" by (auto simp: covers_def dest: less_le_trans)
  assume "sw_alive t i"
  with i assms show "mentions k (cells_of t cols i)" by (auto simp: covers_def)
next
  fix k i assume "i < length (sw_rows t)" "sw_alive t i" "mentions k (cells_of t cols i)"
  then show "i \<in> set (f k @ filter (\<lambda>i. sw_alive t i \<and> mentions k (cells_of t cols i)) [n..<length (sw_rows t)])"
    using coversD(4) [OF assms, of i k] by (cases "i < n") auto
qed

lemma covers_scan: "covers mentions t cols (length (sw_rows t)) (rows_for mentions (scan_of t cols [0..<length (sw_rows t)]))"
  unfolding covers_def rows_for_scan by simp

lemma scan_suffix: "n \<le> len \<Longrightarrow> len \<le> u32_max \<Longrightarrow> scan_within len (Dense (range_new n len))"
  by (simp add: scan_within_def range_new_def)

lemma ascending_upt: "len \<le> u32_max \<Longrightarrow> ascending (filter P [n..<len])"
  by (auto simp: ascending_def intro!: sorted_wrt_filter)

text \<open>
  \<open>admits n\<close>: the index takes rows of \<open>n\<close> columns.  \<open>keeps M ti T f\<close>: the index maps every key to its rows \<open>f k\<close>, at most \<open>T\<close> of the room for \<open>M\<close> rows is
  taken, and its storage is in order.
\<close>

definition scannable :: "sorted_table \<Rightarrow> nat list \<Rightarrow> subset \<Rightarrow> bool" where
  "scannable t cols s \<longleftrightarrow> readable t \<and> (\<forall>r \<in> set (sw_rows t). \<forall>v \<in> set r. v \<le> u32_max) \<and>
     cols \<noteq> [] \<and> (\<forall>c \<in> set cols. c < sw_columns t) \<and> scan_within (length (sw_rows t)) s"

locale index_base =
  fixes tr :: "('ti, 'k) index_ops" and admits :: "nat \<Rightarrow> bool" and mentions :: "'k \<Rightarrow> val list \<Rightarrow> bool"
    and keeps :: "nat \<Rightarrow> 'ti \<Rightarrow> nat \<Rightarrow> ('k \<Rightarrow> nat list) \<Rightarrow> bool"
  assumes get_holds: "keeps M ti T f \<Longrightarrow> ib_get_subset tr ti k = Ok (if f k = [] then None else Some (subset_of (f k)))"
    and holds_ascending: "keeps M ti T f \<Longrightarrow> ascending (f k)"
    and clear_holds: "keeps M ti T f \<Longrightarrow> \<exists>ti'. ib_clear tr ti = Ok ti' \<and> keeps M ti' 0 (\<lambda>k. [])"
    and merge_holds: "64 * M \<le> u32_max \<Longrightarrow> buf_wf buf \<Longrightarrow> \<forall>(i, vs) \<in> set (tag_rows buf). admits (length vs) \<Longrightarrow> keeps M ti T f \<Longrightarrow> T + cell_count (tag_rows buf) \<le> M \<Longrightarrow>
      scan_fits f (tag_rows buf) \<Longrightarrow>
      \<exists>ti'. ib_merge_rows tr buf ti = Ok ti' \<and> keeps M ti' (T + cell_count (tag_rows buf)) (\<lambda>k. f k @ rows_for mentions (tag_rows buf) k)"
begin

lemma batch_holds:
  assumes M: "64 * M \<le> u32_max" and buf: "n_columns buf = length cols + 1" and es: "\<forall>(i, vs) \<in> set es. length vs = length cols" "length es \<le> u32_max"
    and ti: "keeps M ti T f" "T + cell_count es \<le> M" "scan_fits f es"
    and cols: "admits (length cols)"
  shows "\<exists>buf' ti'. tag_add_all es (buf_clear buf) = Ok buf' \<and> n_columns buf' = length cols + 1 \<and> ib_merge_rows tr buf' ti = Ok ti' \<and>
    keeps M ti' (T + cell_count es) (\<lambda>k. f k @ rows_for mentions es k)"
proof -
  have "buf_wf (buf_clear buf)" "tag_rows (buf_clear buf) = []" "n_columns (buf_clear buf) = length cols + 1"
    using clear_buffer [of buf] buf by simp_all
  with tag_add_all_ok [of "buf_clear buf" es] es obtain buf' where
    "tag_add_all es (buf_clear buf) = Ok buf'" "buf_wf buf'" "n_columns buf' = length cols + 1" "tag_rows buf' = es" by auto
  moreover have "\<forall>(i, vs) \<in> set es. admits (length vs)" using es(1) cols by auto
  ultimately show ?thesis using merge_holds [OF M, of buf' ti T f] ti by auto
qed

lemma refresh_loop_holds:
  assumes t: "readable t" "cols \<noteq> []" "\<forall>c \<in> set cols. c < sw_columns t" "scan_within (length (sw_rows t)) s" and M: "64 * M \<le> u32_max"
    and cols: "admits (length cols)"
  shows "cur \<le> length (rows s) \<Longrightarrow> n_columns buf = length cols + 1 \<Longrightarrow> keeps M ti T f \<Longrightarrow>
    T + cell_count (scan_of t cols (drop cur (rows s))) \<le> M \<Longrightarrow> scan_fits f (scan_of t cols (drop cur (rows s))) \<Longrightarrow>
    \<exists>ti'. refresh_loop (ib_merge_rows tr) t s cols cur buf ti = Some (Ok ti') \<and>
      keeps M ti' (T + cell_count (scan_of t cols (drop cur (rows s)))) (\<lambda>k. f k @ rows_for mentions (scan_of t cols (drop cur (rows s))) k)"
proof (induction "length (rows s) - cur" arbitrary: cur buf ti T f rule: less_induct)
  case less
  define now where "now = take 1024 (drop cur (rows s))"
  define rest where "rest = drop (cur + 1024) (rows s)"
  have split: "drop cur (rows s) = now @ rest" unfolding now_def rest_def by (metis append_take_drop_id drop_drop add.commute)
  note scan = scan_project_ok [OF t less.prems(1), of 1024, folded now_def]
  have es: "\<forall>(i, vs) \<in> set (scan_of t cols now). length vs = length cols" "length (scan_of t cols now) \<le> u32_max"
    by (auto simp: scan_of_def now_def u32_max_def intro!: order.trans [OF length_filter_le])
  note fits = scan_fits_append [OF less.prems(5) [unfolded split scan_of_simps(1)], of mentions]
  have "T + cell_count (scan_of t cols now) \<le> M" using less.prems(4) unfolding split by simp
  from batch_holds [OF M less.prems(2) es less.prems(3) this _ cols] fits obtain buf1 ti1 where
    1: "tag_add_all (scan_of t cols now) (buf_clear buf) = Ok buf1" "n_columns buf1 = length cols + 1" "ib_merge_rows tr buf1 ti = Ok ti1"
    "keeps M ti1 (T + cell_count (scan_of t cols now)) (\<lambda>k. f k @ rows_for mentions (scan_of t cols now) k)" by blast
  show ?case
  proof (cases "cur + 1024 < length (rows s)")
    case False
    then have "rest = []" by (simp add: rest_def)
    then have "drop cur (rows s) = now" using split by simp
    with scan 1 False show ?thesis by (subst refresh_loop.simps) simp
  next
    case True
    have "T + cell_count (scan_of t cols now) + cell_count (scan_of t cols rest) \<le> M"
      using less.prems(4) unfolding split by (simp add: algebra_simps)
    moreover have "length (rows s) - (cur + 1024) < length (rows s) - cur" using True by linarith
    ultimately obtain ti' where
      2: "refresh_loop (ib_merge_rows tr) t s cols (cur + 1024) buf1 ti1 = Some (Ok ti')"
      "keeps M ti' (T + cell_count (scan_of t cols now) + cell_count (scan_of t cols rest))
         (\<lambda>k. (f k @ rows_for mentions (scan_of t cols now) k) @ rows_for mentions (scan_of t cols rest) k)"
      using less.hyps [OF _ _ 1(2,4), of "cur + 1024", folded rest_def] True fits by auto
    have "refresh_loop (ib_merge_rows tr) t s cols cur buf ti = Some (Ok ti')"
      using scan 1 2(1) True by (subst refresh_loop.simps) simp
    with 2(2) show ?thesis unfolding split by (simp add: algebra_simps)
  qed
qed

lemma serial_holds:
  assumes "scannable t cols s" "admits (length cols)" "64 * M \<le> u32_max" "keeps M ti T f"
    and "T + cell_count (scan_of t cols (rows s)) \<le> M" "scan_fits f (scan_of t cols (rows s))"
  shows "\<exists>ti'. refresh_serial (ib_merge_rows tr) t s cols ti = Some (Ok ti') \<and>
    keeps M ti' (T + cell_count (scan_of t cols (rows s))) (\<lambda>k. f k @ rows_for mentions (scan_of t cols (rows s)) k)"
proof -
  obtain buf where "tag_new (length cols) = Ok buf" "n_columns buf = length cols + 1" by (auto simp: tag_new_def buf_new_def)
  with refresh_loop_holds [of t cols s M 0 buf ti T f] assms show ?thesis by (simp add: refresh_serial_def scannable_def)
qed

lemma lookup_exact:
  assumes "keeps M ti T f" "covers mentions t cols (length (sw_rows t)) f"
  shows "\<exists>s. ib_get_subset tr ti k = Ok s \<and>
    (case s of None \<Rightarrow> selected_rows mentions t cols k = []
     | Some s \<Rightarrow> ascending (rows s) \<and> filter (sw_alive t) (rows s) = selected_rows mentions t cols k)"
proof -
  note asc = holds_ascending [OF assms(1), of k]
  have live: "filter (sw_alive t) (f k) = selected_rows mentions t cols k" by (rule covers_live [OF assms(2) asc])
  show ?thesis
  proof (cases "f k = []")
    case True
    with get_holds [OF assms(1), of k] live show ?thesis by simp
  next
    case False
    with get_holds [OF assms(1), of k] live subset_of_rows(1) [OF asc False] asc show ?thesis by simp
  qed
qed

text \<open>An index that is up to date is exact, whatever happened to the table since its last refresh.\<close>

lemma current_index:
  assumes "readable t" "index_ok mentions keeps M t ix" "needs_refresh ix t = Ok False"
  shows "\<exists>s. index_get tr ix k = Ok s \<and>
    (case s of None \<Rightarrow> selected_rows mentions t (ix_key ix) k = []
     | Some s \<Rightarrow> ascending (rows s) \<and> filter (sw_alive t) (rows s) = selected_rows mentions t (ix_key ix) k)"
proof -
  have "sw_version t = Ok (sw_generation t, length (sw_rows t))"
    using assms(1) rd_len [of "sw_columns t" "sw_data t"] by (simp add: readable_def rd_next_row_def sw_version_def)
  then have "ix_updated ix = (sw_generation t, length (sw_rows t))" using assms(3) by (simp add: needs_refresh_def)
  with assms(2) obtain T f where "keeps M (ix_table ix) T f" "covers mentions t (ix_key ix) (length (sw_rows t)) f"
    by (auto simp: index_ok_def)
  from lookup_exact [OF this] show ?thesis by (simp add: index_get_def)
qed

end

locale index_provider = index_base tr admits mentions keeps
  for tr :: "('ti, 'k) index_ops" and admits mentions keeps +
  assumes parallel_holds: "scannable t cols s \<Longrightarrow> admits (length cols) \<Longrightarrow> 64 * M \<le> u32_max \<Longrightarrow> keeps M ti T f \<Longrightarrow>
      T + cell_count (scan_of t cols (rows s)) \<le> M \<Longrightarrow> scan_fits f (scan_of t cols (rows s)) \<Longrightarrow>
      \<exists>ti'. ib_merge_parallel tr cols t s ti = Some (Ok ti') \<and>
        keeps M ti' (T + cell_count (scan_of t cols (rows s))) (\<lambda>k. f k @ rows_for mentions (scan_of t cols (rows s)) k)"
    and rebuild_holds: "scannable t cols s \<Longrightarrow> admits (length cols) \<Longrightarrow> 64 * M \<le> u32_max \<Longrightarrow> keeps M ti T (\<lambda>k. []) \<Longrightarrow>
      T + cell_count (scan_of t cols (rows s)) \<le> M \<Longrightarrow>
      \<exists>ti'. ib_rebuild_full tr cols t s ti = Some (Ok ti') \<and>
        keeps M ti' (T + cell_count (scan_of t cols (rows s))) (rows_for mentions (scan_of t cols (rows s)))"
begin

lemma refresh_index:
  assumes t: "readable t" "\<forall>r \<in> set (sw_rows t). \<forall>v \<in> set r. v \<le> u32_max" "ix_key ix \<noteq> []" "\<forall>c \<in> set (ix_key ix). c < sw_columns t"
    and M: "64 * M \<le> u32_max" "length (ix_key ix) * length (sw_rows t) \<le> M" and ix: "index_ok mentions keeps M t ix"
    and cols: "admits (length (ix_key ix))"
  shows "\<exists>ti T f. index_refresh tr threads cutoff t ix = Some (Ok (ix\<lparr>ix_table := ti, ix_updated := (sw_generation t, length (sw_rows t))\<rparr>)) \<and>
    keeps M ti T f \<and> T \<le> length (ix_key ix) * length (sw_rows t) \<and> covers mentions t (ix_key ix) (length (sw_rows t)) f \<and>
    (fst (ix_updated ix) \<noteq> sw_generation t \<longrightarrow> f = rows_for mentions (scan_of t (ix_key ix) [0..<length (sw_rows t)]))"
proof -
  let ?n = "length (sw_rows t)" and ?key = "ix_key ix" and ?new = "\<lambda>ti. ix\<lparr>ix_table := ti, ix_updated := (sw_generation t, length (sw_rows t))\<rparr>"
  have small: "?n \<le> u32_max" and nx: "rd_next_row (sw_data t) = Ok ?n"
    using t(1) rd_len [of "sw_columns t" "sw_data t"] by (simp_all add: readable_def rd_next_row_def)
  then have v: "sw_version t = Ok (sw_generation t, ?n)" by (simp add: sw_version_def)
  have scan: "scannable t ?key (Dense (range_new n ?n))" if "n \<le> ?n" for n using t scan_suffix [OF that small] by (simp add: scannable_def)
  have rs: "rows (Dense (range_new n ?n)) = [n..<?n]" for n by (simp add: range_new_def)
  have count: "cell_count (scan_of t ?key [n..<?n]) \<le> length ?key * (?n - n)" for n
    using length_filter_le [of "sw_alive t" "[n..<?n]"] by (simp add: mult.commute)
  obtain T f where f: "keeps M (ix_table ix) T f"
    "fst (ix_updated ix) = sw_generation t \<longrightarrow> T \<le> length ?key * snd (ix_updated ix) \<and> covers mentions t ?key (snd (ix_updated ix)) f"
    using ix by (auto simp: index_ok_def)
  consider "ix_updated ix = (sw_generation t, ?n)" | "fst (ix_updated ix) \<noteq> sw_generation t"
    | "fst (ix_updated ix) = sw_generation t" "snd (ix_updated ix) \<noteq> ?n" by (metis prod.collapse)
  then show ?thesis
  proof cases
    case 1
    then have "ix = ?new (ix_table ix)" by (cases ix) simp
    moreover have "index_refresh tr threads cutoff t ix = Some (Ok ix)" using v 1 by (simp add: index_refresh_def)
    ultimately show ?thesis using f 1 by (metis fst_conv snd_conv)
  next
    case 2
    let ?s = "Dense (range_new 0 ?n)" and ?es = "scan_of t ?key [0..<length (sw_rows t)]"
    obtain ti0 where ti0: "ib_clear tr (ix_table ix) = Ok ti0" "keeps M ti0 0 (\<lambda>k. [])" using clear_holds [OF f(1)] by blast
    have room: "0 + cell_count (scan_of t ?key (rows ?s)) \<le> M" unfolding rs using order_trans [OF count [of 0]] M(2) by simp
    have fits: "scan_fits (\<lambda>k. []) (scan_of t ?key (rows ?s))" unfolding rs using ascending_upt [OF small] by (simp add: scan_fits_def)
    note par = parallel_holds [OF scan [of 0] cols M(1) ti0(2) room fits, unfolded rs]
    note full = rebuild_holds [OF scan [of 0] cols M(1) ti0(2) room, unfolded rs]
    have "\<exists>ti. (if should_parallelize threads (subset_size ?s) cutoff then ib_merge_parallel tr ?key t ?s ti0 else ib_rebuild_full tr ?key t ?s ti0) = Some (Ok ti) \<and>
        keeps M ti (cell_count ?es) (rows_for mentions ?es)"
      using par full by (cases "should_parallelize threads (subset_size ?s) cutoff") (simp_all del: scan_of_simps)
    then obtain ti where
      "(if should_parallelize threads (subset_size ?s) cutoff then ib_merge_parallel tr ?key t ?s ti0 else ib_rebuild_full tr ?key t ?s ti0) = Some (Ok ti)"
      and ti: "keeps M ti (cell_count ?es) (rows_for mentions ?es)" by blast
    moreover have "(sw_generation t, ?n) \<noteq> ix_updated ix" using 2 by (metis fst_conv)
    ultimately have "index_refresh tr threads cutoff t ix = Some (Ok (?new ti))"
      using 2 v nx ti0(1) by (auto simp: index_refresh_def sw_all_def Let_def split: if_splits)
    moreover have "cell_count ?es \<le> length ?key * ?n" using count [of 0] by (simp only: diff_zero)
    ultimately show ?thesis using ti covers_scan by blast
  next
    case 3
    let ?m = "snd (ix_updated ix)"
    let ?s = "Dense (range_new ?m ?n)" and ?es = "scan_of t ?key [snd (ix_updated ix)..<length (sw_rows t)]"
    from f(2) 3(1) have cov: "T \<le> length ?key * ?m" "covers mentions t ?key ?m f" by simp_all
    then have le: "?m \<le> ?n" by (simp add: covers_def)
    have "length ?key * ?n = length ?key * ?m + length ?key * (?n - ?m)" using le by (simp flip: add_mult_distrib2)
    with cov(1) count [of ?m] have total: "T + cell_count ?es \<le> length ?key * ?n" by linarith
    then have room: "T + cell_count (scan_of t ?key (rows ?s)) \<le> M" unfolding rs using M(2) by linarith
    have fits: "scan_fits f (scan_of t ?key (rows ?s))"
      unfolding rs scan_fits_def scan_of_simps(2,3)
    proof (intro conjI allI ballI)
      show "ascending (filter (sw_alive t) [?m..<?n])" by (rule ascending_upt [OF small])
      fix k i j assume "i \<in> set (f k)" "j \<in> {i \<in> set [?m..<?n]. sw_alive t i}"
      with coversD(2) [OF cov(2), of i k] show "i < j" by simp
    qed
    note par = parallel_holds [OF scan [OF le] cols M(1) f(1) room fits, unfolded rs]
    note ser = serial_holds [OF scan [OF le] cols M(1) f(1) room fits, unfolded rs]
    have "\<exists>ti. (if should_parallelize threads (subset_size ?s) cutoff then ib_merge_parallel tr ?key t ?s (ix_table ix)
          else refresh_serial (ib_merge_rows tr) t ?s ?key (ix_table ix)) = Some (Ok ti) \<and>
        keeps M ti (T + cell_count ?es) (\<lambda>k. f k @ rows_for mentions ?es k)"
      using par ser by (cases "should_parallelize threads (subset_size ?s) cutoff") (simp_all del: scan_of_simps)
    then obtain ti where
      "(if should_parallelize threads (subset_size ?s) cutoff then ib_merge_parallel tr ?key t ?s (ix_table ix)
          else refresh_serial (ib_merge_rows tr) t ?s ?key (ix_table ix)) = Some (Ok ti)"
      and ti: "keeps M ti (T + cell_count ?es) (\<lambda>k. f k @ rows_for mentions ?es k)" by blast
    moreover have "sw_updates_since t ?m = Ok ?s" using nx le small by (simp add: sw_updates_since_def)
    moreover have "(sw_generation t, ?n) \<noteq> ix_updated ix" using 3(2) by (metis snd_conv)
    ultimately have "index_refresh tr threads cutoff t ix = Some (Ok (?new ti))"
      using 3(1) v by (auto simp: index_refresh_def Let_def split: if_splits)
    with ti total covers_extend [OF cov(2)] 3(1) show ?thesis by blast
  qed
qed

text \<open>A refreshed index is up to date, and a lookup gives exactly the live rows that the key selects, and stale ones.\<close>

lemma refreshed_index:
  assumes "readable t" "\<forall>r \<in> set (sw_rows t). \<forall>v \<in> set r. v \<le> u32_max" "ix_key ix \<noteq> []" "\<forall>c \<in> set (ix_key ix). c < sw_columns t"
    and "64 * M \<le> u32_max" "length (ix_key ix) * length (sw_rows t) \<le> M" and "index_ok mentions keeps M t ix" "admits (length (ix_key ix))"
  shows "\<exists>ix'. index_refresh tr threads cutoff t ix = Some (Ok ix') \<and> index_ok mentions keeps M t ix' \<and> needs_refresh ix' t = Ok False \<and>
    (\<forall>k. \<exists>s. index_get tr ix' k = Ok s \<and>
       (case s of None \<Rightarrow> selected_rows mentions t (ix_key ix) k = []
        | Some s \<Rightarrow> ascending (rows s) \<and> filter (sw_alive t) (rows s) = selected_rows mentions t (ix_key ix) k))"
proof -
  from refresh_index [OF assms, of threads cutoff] obtain ti T f where
    1: "index_refresh tr threads cutoff t ix = Some (Ok (ix\<lparr>ix_table := ti, ix_updated := (sw_generation t, length (sw_rows t))\<rparr>))"
    "keeps M ti T f" "T \<le> length (ix_key ix) * length (sw_rows t)" "covers mentions t (ix_key ix) (length (sw_rows t)) f" by blast
  let ?ix = "ix\<lparr>ix_table := ti, ix_updated := (sw_generation t, length (sw_rows t))\<rparr>"
  have "sw_version t = Ok (sw_generation t, length (sw_rows t))"
    using assms(1) rd_len [of "sw_columns t" "sw_data t"] by (simp add: readable_def rd_next_row_def sw_version_def)
  then have "needs_refresh ?ix t = Ok False" by (simp add: needs_refresh_def)
  moreover have "index_ok mentions keeps M t ?ix" using 1(2-4) by (auto simp: index_ok_def)
  moreover have "\<exists>s. index_get tr ?ix k = Ok s \<and> (case s of None \<Rightarrow> selected_rows mentions t (ix_key ix) k = []
        | Some s \<Rightarrow> ascending (rows s) \<and> filter (sw_alive t) (rows s) = selected_rows mentions t (ix_key ix) k)" for k
    using lookup_exact [OF 1(2,4), of k] by (simp add: index_get_def)
  ultimately show ?thesis using 1(1) by blast
qed

text \<open>A full refresh gives the same subsets on every path.\<close>

lemma refresh_paths_agree:
  assumes "readable t" "\<forall>r \<in> set (sw_rows t). \<forall>v \<in> set r. v \<le> u32_max" "ix_key ix \<noteq> []" "\<forall>c \<in> set (ix_key ix). c < sw_columns t"
    and "64 * M \<le> u32_max" "length (ix_key ix) * length (sw_rows t) \<le> M" and "index_ok mentions keeps M t ix" "admits (length (ix_key ix))" "fst (ix_updated ix) \<noteq> sw_generation t"
  shows "\<exists>ix'. index_refresh tr threads cutoff t ix = Some (Ok ix') \<and>
    (\<forall>k. index_get tr ix' k = Ok (if selected_rows mentions t (ix_key ix) k = [] then None else Some (subset_of (selected_rows mentions t (ix_key ix) k))))"
proof -
  from refresh_index [OF assms(1-8), of threads cutoff] assms(9) obtain ti T where
    "index_refresh tr threads cutoff t ix = Some (Ok (ix\<lparr>ix_table := ti, ix_updated := (sw_generation t, length (sw_rows t))\<rparr>))"
    "keeps M ti T (rows_for mentions (scan_of t (ix_key ix) [0..<length (sw_rows t)]))" by blast
  moreover from get_holds [OF this(2)] have "ib_get_subset tr ti k = Ok (if selected_rows mentions t (ix_key ix) k = [] then None else Some (subset_of (selected_rows mentions t (ix_key ix) k)))" for k
    unfolding rows_for_scan selected_rows_def .
  ultimately show ?thesis by (simp add: index_get_def)
qed

end

end
