(* ===== verification/ColumnIndex.thy ===== *)
theory ColumnIndex
  imports IndexBase "HOL-Library.AList"
begin

text \<open>
  The index from values to rows of \<open>egglog/core-relations/src/hash_index/mod.rs\<close> (\<open>ColumnIndex\<close>).  A value
  is mapped to the rows that hold it in one of the indexed columns.  The values are spread over shards by
  their hashes; each shard has a map in insertion order and a vector for the row lists.  The hash of a
  value is a parameter.
\<close>

section \<open>Model\<close>

text \<open>The shards of an index, for keys of any type; a column index has values as keys.\<close>

record 'k index_shard =
  cs_table :: "('k \<times> buffered_subset) list"
  cs_subsets :: subset_buffer

record 'k shard_index =
  ci_log2 :: nat
  ci_shards :: "'k index_shard list"

type_synonym column_shard = "val index_shard"
type_synonym column_index = "val shard_index"

definition ci_new :: "nat \<Rightarrow> column_index" where
  "ci_new threads =
     (let log2 = default_log2 threads in
      \<lparr>ci_log2 = log2, ci_shards = replicate (2 ^ log2) \<lparr>cs_table = [], cs_subsets = sb_default\<rparr>\<rparr>)"

definition value_shard :: "('k \<Rightarrow> full_hash) \<Rightarrow> nat \<Rightarrow> 'k \<Rightarrow> nat" where
  "value_shard hash log2 v = shard_id log2 (hash v)"

definition ci_get_subset :: "('k \<Rightarrow> full_hash) \<Rightarrow> 'k shard_index \<Rightarrow> 'k \<Rightarrow> subset option result" where
  "ci_get_subset hash ci key =
     and_then (vec_get (ci_shards ci) (value_shard hash (ci_log2 ci) key)) (\<lambda>sh.
       case map_of (cs_table sh) key of
         None \<Rightarrow> Ok None
       | Some s \<Rightarrow> and_then (bs_as_ref s (cs_subsets sh)) (\<lambda>r. Ok (Some r)))"

text \<open>The lists of the drained entries go back to the free list.\<close>

fun return_entries :: "('k \<times> buffered_subset) list \<Rightarrow> subset_buffer \<Rightarrow> subset_buffer result" where
  "return_entries [] sb = Ok sb"
| "return_entries ((v, BufDense r) # es) sb = return_entries es sb"
| "return_entries ((v, BufSparse l) # es) sb = and_then (return_vec sb l) (return_entries es)"

definition ci_clear :: "'k shard_index \<Rightarrow> 'k shard_index result" where
  "ci_clear ci =
     and_then (map_result (\<lambda>sh. and_then (return_entries (cs_table sh) (cs_subsets sh)) (\<lambda>sb. Ok \<lparr>cs_table = [], cs_subsets = sb\<rparr>)) (ci_shards ci))
       (\<lambda>shards. Ok (ci\<lparr>ci_shards := shards\<rparr>))"

text \<open>An entry of a shard, made or changed in place.\<close>

definition shard_add_row :: "'k \<Rightarrow> nat \<Rightarrow> 'k index_shard \<Rightarrow> 'k index_shard result" where
  "shard_add_row key row sh =
     and_then (bs_add_row_sorted (case map_of (cs_table sh) key of None \<Rightarrow> bs_empty | Some s \<Rightarrow> s) row (cs_subsets sh)) (\<lambda>(s, sb).
       Ok \<lparr>cs_table = AList.update key s (cs_table sh), cs_subsets = sb\<rparr>)"

definition edit_shard :: "nat \<Rightarrow> ('k index_shard \<Rightarrow> 'k index_shard result) \<Rightarrow> 'k shard_index \<Rightarrow> 'k shard_index result" where
  "edit_shard k f ci =
     and_then (vec_get (ci_shards ci) k) (\<lambda>sh. and_then (f sh) (\<lambda>sh. Ok (ci\<lparr>ci_shards := (ci_shards ci)[k := sh]\<rparr>)))"

text \<open>\<open>add_row\<close>: \<open>seen\<close> are the values before the current one.\<close>

fun ci_add_keys :: "(val \<Rightarrow> full_hash) \<Rightarrow> nat \<Rightarrow> val list \<Rightarrow> val list \<Rightarrow> column_index \<Rightarrow> column_index result" where
  "ci_add_keys hash row seen [] ci = Ok ci"
| "ci_add_keys hash row seen (key # keys) ci =
     (if key \<in> set seen then ci_add_keys hash row (seen @ [key]) keys ci
      else and_then (edit_shard (value_shard hash (ci_log2 ci) key) (shard_add_row key row) ci)
             (ci_add_keys hash row (seen @ [key]) keys))"

definition ci_add_row :: "(val \<Rightarrow> full_hash) \<Rightarrow> column_index \<Rightarrow> val list \<Rightarrow> nat \<Rightarrow> column_index result" where
  "ci_add_row hash ci vals row = ci_add_keys hash row [] vals ci"

fun ci_add_rows :: "(val \<Rightarrow> full_hash) \<Rightarrow> (nat \<times> val list) list \<Rightarrow> column_index \<Rightarrow> column_index result" where
  "ci_add_rows hash [] ci = Ok ci"
| "ci_add_rows hash ((row, vals) # es) ci = and_then (ci_add_row hash ci vals row) (ci_add_rows hash es)"

definition ci_merge_rows :: "(val \<Rightarrow> full_hash) \<Rightarrow> tagged_buffer \<Rightarrow> column_index \<Rightarrow> column_index result" where
  "ci_merge_rows hash buf ci = and_then (tag_iter buf) (\<lambda>es. ci_add_rows hash es ci)"

definition ci_shard_len :: "column_index \<Rightarrow> nat \<Rightarrow> nat result" where
  "ci_shard_len ci k = and_then (vec_get (ci_shards ci) k) (\<lambda>sh. Ok (length (cs_table sh)))"

definition ci_len :: "column_index \<Rightarrow> nat" where
  "ci_len ci = sum_list (map (\<lambda>sh. length (cs_table sh)) (ci_shards ci))"

section \<open>What an index holds\<close>

text \<open>
  \<open>shard_holds M sh g\<close>: the shard has the rows \<open>g v\<close> for the value \<open>v\<close>, in the form \<open>subset_of\<close>, and its
  lists do not overlap.
\<close>

definition table_live :: "('k \<times> buffered_subset) list \<Rightarrow> buffered_vec multiset" where
  "table_live es = sum_list (map (\<lambda>(v, s). bs_live s) es)"

definition table_rows :: "('k \<times> buffered_subset) list \<Rightarrow> ('k \<Rightarrow> nat list) \<Rightarrow> nat" where
  "table_rows es g = sum_list (map (\<lambda>(v, s). length (g v)) es)"

definition shard_holds :: "nat \<Rightarrow> 'k index_shard \<Rightarrow> ('k \<Rightarrow> nat list) \<Rightarrow> bool" where
  "shard_holds M sh g \<longleftrightarrow> distinct (map fst (cs_table sh)) \<and> sb_wf M (cs_subsets sh) (table_live (cs_table sh)) \<and>
     (\<forall>v. ascending (g v)) \<and> (\<forall>v. map_of (cs_table sh) v = None \<longleftrightarrow> g v = []) \<and>
     (\<forall>v s. map_of (cs_table sh) v = Some s \<longrightarrow> bs_subset (cs_subsets sh) s = subset_of (g v))"

lemma shard_holdsD:
  assumes "shard_holds M sh g"
  shows "map_of (cs_table sh) v = None \<longleftrightarrow> g v = []" "map_of (cs_table sh) v = Some s \<Longrightarrow> bs_subset (cs_subsets sh) s = subset_of (g v)"
    "distinct (map fst (cs_table sh))" "sb_wf M (cs_subsets sh) (table_live (cs_table sh))" "ascending (g v)"
  using assms unfolding shard_holds_def by blast+

text \<open>The rows that the shard \<open>k\<close> is responsible for.\<close>

definition in_shard_of :: "('k \<Rightarrow> full_hash) \<Rightarrow> nat \<Rightarrow> nat \<Rightarrow> ('k \<Rightarrow> nat list) \<Rightarrow> 'k \<Rightarrow> nat list" where
  "in_shard_of hash log2 k f v = (if value_shard hash log2 v = k then f v else [])"

definition ci_holds :: "nat \<Rightarrow> ('k \<Rightarrow> full_hash) \<Rightarrow> 'k shard_index \<Rightarrow> nat \<Rightarrow> ('k \<Rightarrow> nat list) \<Rightarrow> bool" where
  "ci_holds M hash ci T f \<longleftrightarrow> ci_log2 ci < 64 \<and> length (ci_shards ci) = 2 ^ ci_log2 ci \<and> T \<le> M \<and>
     (\<forall>k < 2 ^ ci_log2 ci. shard_holds M (ci_shards ci ! k) (in_shard_of hash (ci_log2 ci) k f) \<and>
        table_rows (cs_table (ci_shards ci ! k)) (in_shard_of hash (ci_log2 ci) k f) \<le> T)"

lemma table_live_simps [simp]:
  "table_live [] = {#}" "table_live ((v, s) # es) = bs_live s + table_live es"
  by (simp_all add: table_live_def)

lemma table_rows_simps [simp]:
  "table_rows [] g = 0" "table_rows ((v, s) # es) g = length (g v) + table_rows es g"
  by (simp_all add: table_rows_def)

lemma table_append [simp]:
  "table_live (es @ fs) = table_live es + table_live fs" "table_rows (es @ fs) g = table_rows es g + table_rows fs g"
  by (simp_all add: table_live_def table_rows_def)

lemma table_split:
  "map_of es v = Some s \<Longrightarrow> distinct (map fst es) \<Longrightarrow>
   \<exists>es1 es2. es = es1 @ (v, s) # es2 \<and> v \<notin> fst ` set (es1 @ es2) \<and> (\<forall>s'. AList.update v s' es = es1 @ (v, s') # es2)"
proof (induction es)
  case (Cons e es)
  obtain w t where e: "e = (w, t)" by (cases e)
  show ?case
  proof (cases "w = v")
    case True
    with Cons.prems e show ?thesis by (intro exI [of _ "[]"] exI [of _ es]) auto
  next
    case False
    with Cons e obtain es1 es2 where "es = es1 @ (v, s) # es2" "v \<notin> fst ` set (es1 @ es2)" "\<forall>s'. AList.update v s' es = es1 @ (v, s') # es2" by auto
    with False e show ?thesis by (intro exI [of _ "e # es1"] exI [of _ es2]) auto
  qed
qed simp

lemma update_new: "map_of es v = None \<Longrightarrow> AList.update v s es = es @ [(v, s)]"
  by (induction es) (auto split: if_splits)

lemma value_shard_bound: "log2 < 64 \<Longrightarrow> value_shard hash log2 v < 2 ^ log2"
  by (simp add: value_shard_def shard_id_bound)

lemma in_shard_of_simps [simp]:
  "in_shard_of hash log2 (value_shard hash log2 v) f v = f v"
  "k \<noteq> value_shard hash log2 v \<Longrightarrow> in_shard_of hash log2 k f v = []"
  by (simp_all add: in_shard_of_def)

lemma ci_get_holds:
  assumes "ci_holds M hash ci T f"
  shows "ci_get_subset hash ci v = Ok (if f v = [] then None else Some (subset_of (f v)))"
proof -
  let ?k = "value_shard hash (ci_log2 ci) v"
  have k: "?k < 2 ^ ci_log2 ci" using assms by (simp add: ci_holds_def value_shard_bound)
  then have sh: "shard_holds M (ci_shards ci ! ?k) (in_shard_of hash (ci_log2 ci) ?k f)" and len: "?k < length (ci_shards ci)"
    using assms by (simp_all add: ci_holds_def)
  let ?sh = "ci_shards ci ! ?k"
  show ?thesis
  proof (cases "map_of (cs_table ?sh) v")
    case None
    with sh have "f v = []" by (force simp: shard_holds_def)
    with None len show ?thesis by (simp add: ci_get_subset_def)
  next
    case (Some s)
    with sh have s: "f v \<noteq> []" "bs_subset (cs_subsets ?sh) s = subset_of (f v)" by (force simp: shard_holds_def)+
    have "\<exists>live. table_live (cs_table ?sh) = bs_live s + live"
      using table_split [OF Some] sh by (auto simp: shard_holds_def union_lcomm)
    with sh bs_as_ref_ok [of M "cs_subsets ?sh" s] have "bs_as_ref s (cs_subsets ?sh) = Ok (subset_of (f v))"
      using s(2) by (auto simp: shard_holds_def)
    with Some len s(1) show ?thesis by (simp add: ci_get_subset_def)
  qed
qed

section \<open>Changing an entry\<close>

lemma entry_rows:
  assumes "shard_holds M sh g" "(v, s) \<in> set (cs_table sh)"
  shows "g v \<noteq> []" "bs_subset (cs_subsets sh) s = subset_of (g v)" "rows_in (bs_live s) \<le> length (g v)"
proof -
  have "map_of (cs_table sh) v = Some s" using assms by (simp add: shard_holds_def)
  with assms(1) show g: "g v \<noteq> []" "bs_subset (cs_subsets sh) s = subset_of (g v)" by (force simp: shard_holds_def)+
  show "rows_in (bs_live s) \<le> length (g v)"
  proof (cases s)
    case (BufSparse l)
    obtain es1 es2 where "cs_table sh = es1 @ (v, s) # es2" using assms(2) by (meson split_list)
    with BufSparse have "l \<in># table_live (cs_table sh)" by simp
    then have "length (bv_rows (cs_subsets sh) l) = bv_len l" by (rule bv_rows_length [OF shard_holdsD(4) [OF assms(1)]])
    moreover have "bv_rows (cs_subsets sh) l = g v" using g(2) BufSparse by (auto simp: subset_of_def split: if_splits)
    ultimately show ?thesis using BufSparse by simp
  qed simp
qed

lemma rows_in_union [simp]: "rows_in (A + B) = rows_in A + rows_in B"
  by (simp add: rows_in_def)

lemma table_live_bound:
  "shard_holds M sh g \<Longrightarrow> set es \<subseteq> set (cs_table sh) \<Longrightarrow> rows_in (table_live es) \<le> table_rows es g"
proof (induction es)
  case (Cons e es)
  obtain v s where "e = (v, s)" by (cases e)
  with Cons entry_rows(3) [of M sh g v s] show ?case by (simp add: add_mono)
qed simp

lemma table_rows_cong: "(\<And>v. v \<in> fst ` set es \<Longrightarrow> g v = h v) \<Longrightarrow> table_rows es g = table_rows es h"
  unfolding table_rows_def by (intro arg_cong [where f = sum_list] map_cong) force+

lemma live_member: "(v, BufSparse l) \<in> set es \<Longrightarrow> l \<in># table_live es"
proof -
  assume "(v, BufSparse l) \<in> set es"
  then obtain es1 es2 where "es = es1 @ (v, BufSparse l) # es2" by (meson split_list)
  then show ?thesis by simp
qed

lemma bs_subset_same: "(\<And>l. s = BufSparse l \<Longrightarrow> bv_rows sb' l = bv_rows sb l) \<Longrightarrow> bs_subset sb' s = bs_subset sb s"
  by (cases s) simp_all

text \<open>The entry of a value, and what a change of it that keeps the other lists gives.\<close>

lemma shard_entry:
  fixes v
  assumes sh: "shard_holds M sh g"
  defines "s \<equiv> (case map_of (cs_table sh) v of None \<Rightarrow> bs_empty | Some s \<Rightarrow> s)"
  shows "\<exists>live. sb_wf M (cs_subsets sh) (bs_live s + live) \<and> (if g v = [] then s = bs_empty else bs_subset (cs_subsets sh) s = subset_of (g v)) \<and>
    rows_in live + length (g v) \<le> table_rows (cs_table sh) g \<and>
    (\<forall>rs s' sb'. ascending rs \<longrightarrow> rs \<noteq> [] \<longrightarrow> bs_stored M (cs_subsets sh) live sb' s' (subset_of rs) \<longrightarrow>
       shard_holds M \<lparr>cs_table = AList.update v s' (cs_table sh), cs_subsets = sb'\<rparr> (g(v := rs)) \<and>
       table_rows (AList.update v s' (cs_table sh)) (g(v := rs)) + length (g v) = table_rows (cs_table sh) g + length rs)"
proof -
  let ?t = "cs_table sh" and ?sb = "cs_subsets sh"
  have d: "distinct (map fst ?t)" and wf: "sb_wf M ?sb (table_live ?t)" using sh by (simp_all add: shard_holds_def)
  obtain es1 es2 where
    t: "?t = es1 @ (if g v = [] then [] else [(v, s)]) @ es2" "v \<notin> fst ` set (es1 @ es2)" "\<And>s'. AList.update v s' ?t = es1 @ (v, s') # es2"
    "if g v = [] then s = bs_empty else bs_subset ?sb s = subset_of (g v)"
  proof (cases "map_of ?t v")
    case None
    then have "g v = []" "s = bs_empty" using shard_holdsD(1) [OF sh, of v] by (simp_all add: s_def)
    moreover have "v \<notin> fst ` set ?t" using None by (simp add: map_of_eq_None_iff)
    ultimately show thesis using that [of ?t "[]"] update_new [OF None] by simp
  next
    case (Some s0)
    then have "g v \<noteq> []" "s = s0" "bs_subset ?sb s = subset_of (g v)"
      using shard_holdsD(1,2) [OF sh, of v] by (simp_all add: s_def)
    moreover obtain es1 es2 where "?t = es1 @ (v, s0) # es2" "v \<notin> fst ` set (es1 @ es2)" "\<forall>s'. AList.update v s' ?t = es1 @ (v, s') # es2"
      using table_split [OF Some d] by blast
    ultimately show thesis using that [of es1 es2] by simp
  qed
  let ?live = "table_live (es1 @ es2)"
  have live: "table_live ?t = bs_live s + ?live" using t(1,4) by (simp add: bs_empty_def ac_simps split: if_splits)
  have rest: "set (es1 @ es2) \<subseteq> set ?t" unfolding t(1) by auto
  have total: "table_rows ?t g = table_rows (es1 @ es2) g + length (g v)" unfolding t(1) by simp
  have keys: "map_of ?t w = map_of (es1 @ es2) w" if "w \<noteq> v" for w unfolding t(1) using that by (simp add: map_of_append map_add_def split: option.split)
  have "shard_holds M \<lparr>cs_table = AList.update v s' ?t, cs_subsets = sb'\<rparr> (g(v := rs)) \<and>
      table_rows (AList.update v s' ?t) (g(v := rs)) + length (g v) = table_rows ?t g + length rs"
    if new: "ascending rs" "rs \<noteq> []" "bs_stored M ?sb ?live sb' s' (subset_of rs)" for rs s' sb'
  proof
    have u: "AList.update v s' ?t = es1 @ (v, s') # es2" by (rule t(3))
    have lookup: "map_of (AList.update v s' ?t) w = (if w = v then Some s' else map_of ?t w)" for w
      by (simp add: update_conv')
    have "distinct (map fst (AList.update v s' ?t))" using d by (rule distinct_update)
    moreover have "sb_wf M sb' (table_live (AList.update v s' ?t))" using new(3) unfolding u by (simp add: bs_stored_def ac_simps)
    moreover have "bs_subset sb' s' = subset_of rs" using new(3) by (simp add: bs_stored_def)
    moreover have "bs_subset sb' t0 = subset_of (g w)" if "w \<noteq> v" "map_of ?t w = Some t0" for w t0
    proof -
      have "(w, t0) \<in> set (es1 @ es2)" using that keys map_of_SomeD by fastforce
      with new(3) live_member [of w _ "es1 @ es2"] have "bs_subset sb' t0 = bs_subset ?sb t0"
        by (intro bs_subset_same) (simp add: bs_stored_def)
      with sh that(2) show ?thesis by (simp add: shard_holds_def)
    qed
    ultimately show "shard_holds M \<lparr>cs_table = AList.update v s' ?t, cs_subsets = sb'\<rparr> (g(v := rs))"
      using sh new(1,2) by (auto simp: shard_holds_def lookup)
    have "table_rows (es1 @ es2) (g(v := rs)) = table_rows (es1 @ es2) g" using t(2) by (intro table_rows_cong) auto
    then show "table_rows (AList.update v s' ?t) (g(v := rs)) + length (g v) = table_rows ?t g + length rs"
      unfolding u using total by simp
  qed
  moreover have "rows_in ?live + length (g v) \<le> table_rows ?t g" using table_live_bound [OF sh rest] total by simp
  ultimately show ?thesis using wf live t(4) by (intro exI [of _ ?live]) auto
qed

lemma shard_add_row_ok:
  assumes sh: "shard_holds M sh g" and M: "64 * M \<le> u32_max" and asc: "ascending (g v @ [row])" and room: "Suc (table_rows (cs_table sh) g) \<le> M"
  shows "\<exists>sh'. shard_add_row v row sh = Ok sh' \<and> shard_holds M sh' (g(v := g v @ [row])) \<and>
    table_rows (cs_table sh') (g(v := g v @ [row])) = Suc (table_rows (cs_table sh) g)"
proof -
  let ?s = "case map_of (cs_table sh) v of None \<Rightarrow> bs_empty | Some s \<Rightarrow> s"
  from shard_entry [OF sh, of v] obtain live where
    e: "sb_wf M (cs_subsets sh) (bs_live ?s + live)" "if g v = [] then ?s = bs_empty else bs_subset (cs_subsets sh) ?s = subset_of (g v)"
    "rows_in live + length (g v) \<le> table_rows (cs_table sh) g"
    "\<And>rs s' sb'. ascending rs \<Longrightarrow> rs \<noteq> [] \<Longrightarrow> bs_stored M (cs_subsets sh) live sb' s' (subset_of rs) \<Longrightarrow>
       shard_holds M \<lparr>cs_table = AList.update v s' (cs_table sh), cs_subsets = sb'\<rparr> (g(v := rs)) \<and>
       table_rows (AList.update v s' (cs_table sh)) (g(v := rs)) + length (g v) = table_rows (cs_table sh) g + length rs" by blast
  have "rows_in live + Suc (length (g v)) \<le> M" using e(3) room by simp
  from bs_add_row_ok [OF e(1) M asc e(2) this] obtain s' sb' where
    1: "bs_add_row_sorted ?s row (cs_subsets sh) = Ok (s', sb')" "bs_stored M (cs_subsets sh) live sb' s' (subset_of (g v @ [row]))" by blast
  from e(4) [OF asc _ 1(2)] 1(1) show ?thesis by (simp add: shard_add_row_def)
qed

section \<open>Adding rows\<close>

lemma edit_shard_ok:
  assumes ci: "ci_holds M hash ci T f" and T: "T \<le> T'" "T' \<le> M"
    and step: "\<And>sh g. shard_holds M sh g \<Longrightarrow> g v = f v \<Longrightarrow> table_rows (cs_table sh) g \<le> T \<Longrightarrow>
      \<exists>sh'. F sh = Ok sh' \<and> shard_holds M sh' (g(v := rs)) \<and> table_rows (cs_table sh') (g(v := rs)) \<le> T'"
  shows "\<exists>ci'. edit_shard (value_shard hash (ci_log2 ci) v) F ci = Ok ci' \<and> ci_holds M hash ci' T' (f(v := rs)) \<and> ci_log2 ci' = ci_log2 ci"
proof -
  let ?k = "value_shard hash (ci_log2 ci) v" and ?g = "\<lambda>k. in_shard_of hash (ci_log2 ci) k f"
  have k: "?k < 2 ^ ci_log2 ci" using ci by (simp add: ci_holds_def value_shard_bound)
  with ci have sh: "shard_holds M (ci_shards ci ! ?k) (?g ?k)" "table_rows (cs_table (ci_shards ci ! ?k)) (?g ?k) \<le> T" and len: "?k < length (ci_shards ci)"
    by (simp_all add: ci_holds_def)
  from step [OF sh(1) _ sh(2)] obtain sh' where
    1: "F (ci_shards ci ! ?k) = Ok sh'" "shard_holds M sh' ((?g ?k)(v := rs))" "table_rows (cs_table sh') ((?g ?k)(v := rs)) \<le> T'" by auto
  have upd: "in_shard_of hash (ci_log2 ci) k (f(v := rs)) = (if k = ?k then (?g k)(v := rs) else ?g k)" for k
    by (auto simp: in_shard_of_def fun_eq_iff)
  let ?ci = "ci\<lparr>ci_shards := (ci_shards ci)[?k := sh']\<rparr>"
  have "ci_holds M hash ?ci T' (f(v := rs))"
    using ci 1(2,3) T len by (fastforce simp: ci_holds_def upd nth_list_update)
  with 1(1) len show ?thesis by (intro exI [of _ ?ci]) (simp add: edit_shard_def)
qed

text \<open>\<open>after f row vs\<close>: the row is added to the rows of the values \<open>vs\<close>.\<close>

definition after :: "(val \<Rightarrow> nat list) \<Rightarrow> nat \<Rightarrow> val set \<Rightarrow> val \<Rightarrow> nat list" where
  "after f row vs v = (if v \<in> vs then f v @ [row] else f v)"

lemma ci_add_keys_ok:
  assumes M: "64 * M \<le> u32_max" and row: "row < u32_max"
  shows "ci_holds M hash ci T f \<Longrightarrow> T + length keys \<le> M \<Longrightarrow> \<forall>v \<in> set keys - set seen. \<forall>i \<in> set (f v). i < row \<Longrightarrow>
    \<exists>ci'. ci_add_keys hash row seen keys ci = Ok ci' \<and> ci_holds M hash ci' (T + length keys) (after f row (set keys - set seen)) \<and> ci_log2 ci' = ci_log2 ci"
proof (induction keys arbitrary: seen ci T f)
  case Nil
  moreover have "after f row {} = f" by (simp add: after_def fun_eq_iff)
  ultimately show ?case by simp
next
  case (Cons key keys)
  show ?case
  proof (cases "key \<in> set seen")
    case True
    have "ci_holds M hash ci (Suc T) f" using Cons.prems(1,2) by (fastforce simp: ci_holds_def)
    with Cons.IH [of ci "Suc T" f "seen @ [key]"] Cons.prems(2,3) obtain ci' where
      "ci_add_keys hash row (seen @ [key]) keys ci = Ok ci'" "ci_holds M hash ci' (Suc T + length keys) (after f row (set keys - set (seen @ [key])))"
      "ci_log2 ci' = ci_log2 ci" by auto
    moreover have "set keys - set (seen @ [key]) = set (key # keys) - set seen" using True by auto
    ultimately show ?thesis using True by simp
  next
    case False
    let ?f = "f(key := f key @ [row])"
    have "\<exists>ci'. edit_shard (value_shard hash (ci_log2 ci) key) (shard_add_row key row) ci = Ok ci' \<and> ci_holds M hash ci' (Suc T) ?f \<and> ci_log2 ci' = ci_log2 ci"
    proof (rule edit_shard_ok [OF Cons.prems(1)])
      fix sh g assume sh: "shard_holds M sh g" "g key = f key" "table_rows (cs_table sh) g \<le> T"
      have "ascending (g key @ [row])" using shard_holdsD(5) [OF sh(1), of key] sh(2) Cons.prems(3) False row by auto
      with shard_add_row_ok [OF sh(1) M this] sh(2,3) Cons.prems(2)
      show "\<exists>sh'. shard_add_row key row sh = Ok sh' \<and> shard_holds M sh' (g(key := f key @ [row])) \<and>
          table_rows (cs_table sh') (g(key := f key @ [row])) \<le> Suc T" by auto
    qed (use Cons.prems(2) in simp_all)
    then obtain ci1 where 1: "edit_shard (value_shard hash (ci_log2 ci) key) (shard_add_row key row) ci = Ok ci1"
      "ci_holds M hash ci1 (Suc T) ?f" "ci_log2 ci1 = ci_log2 ci" by blast
    have "\<forall>v \<in> set keys - set (seen @ [key]). \<forall>i \<in> set (?f v). i < row" using Cons.prems(3) by auto
    with Cons.IH [OF 1(2), of "seen @ [key]"] Cons.prems(2) obtain ci' where
      2: "ci_add_keys hash row (seen @ [key]) keys ci1 = Ok ci'"
      "ci_holds M hash ci' (Suc T + length keys) (after ?f row (set keys - set (seen @ [key])))" "ci_log2 ci' = ci_log2 ci1" by (auto simp del: fun_upd_apply)
    moreover have "after ?f row (set keys - set (seen @ [key])) = after f row (set (key # keys) - set seen)"
      using False by (auto simp: after_def fun_eq_iff)
    ultimately show ?thesis using False 1 by simp
  qed
qed

text \<open>The rows of a scan that hold a value.\<close>

abbreviation holds_value :: "val \<Rightarrow> val list \<Rightarrow> bool" where
  "holds_value \<equiv> \<lambda>v vs. v \<in> set vs"

abbreviation rows_with :: "(nat \<times> val list) list \<Rightarrow> val \<Rightarrow> nat list" where
  "rows_with \<equiv> rows_for holds_value"

lemma ci_add_rows_ok:
  assumes M: "64 * M \<le> u32_max"
  shows "ci_holds M hash ci T f \<Longrightarrow> T + cell_count es \<le> M \<Longrightarrow> scan_fits f es \<Longrightarrow>
    \<exists>ci'. ci_add_rows hash es ci = Ok ci' \<and> ci_holds M hash ci' (T + cell_count es) (\<lambda>v. f v @ rows_with es v) \<and> ci_log2 ci' = ci_log2 ci"
proof (induction es arbitrary: ci T f)
  case (Cons e es)
  obtain i vs where e: "e = (i, vs)" by (cases e)
  have i: "i < u32_max" "\<forall>v \<in> set vs - set []. \<forall>j \<in> set (f v). j < i" using Cons.prems(3) e by (auto simp: scan_fits_def ascending_def)
  from ci_add_keys_ok [OF M i(1) Cons.prems(1) _ i(2)] Cons.prems(2) e obtain ci1 where
    1: "ci_add_row hash ci vs i = Ok ci1" "ci_holds M hash ci1 (T + length vs) (after f i (set vs))" "ci_log2 ci1 = ci_log2 ci"
    by (auto simp: ci_add_row_def)
  have "scan_fits (after f i (set vs)) es" using Cons.prems(3) e by (auto simp: scan_fits_def after_def ascending_def)
  with Cons.IH [OF 1(2)] Cons.prems(2) e obtain ci' where
    2: "ci_add_rows hash es ci1 = Ok ci'" "ci_holds M hash ci' (T + length vs + cell_count es) (\<lambda>v. after f i (set vs) v @ rows_with es v)"
    "ci_log2 ci' = ci_log2 ci1" by auto
  moreover have "(\<lambda>v. after f i (set vs) v @ rows_with es v) = (\<lambda>v. f v @ rows_with (e # es) v)"
    by (auto simp: after_def e fun_eq_iff)
  ultimately show ?case using 1 e by (simp add: add.assoc)
qed simp

section \<open>Clearing\<close>

lemma return_entries_ok:
  "sb_wf M sb (table_live es) \<Longrightarrow> \<exists>sb'. return_entries es sb = Ok sb' \<and> sb_wf M sb' {#}"
proof (induction es arbitrary: sb)
  case (Cons e es)
  obtain v s where e: "e = (v, s)" by (cases e)
  show ?case
  proof (cases s)
    case (BufSparse l)
    with Cons.prems e have "sb_wf M sb (add_mset l (table_live es))" by simp
    with return_vec_ok obtain sb1 where "return_vec sb l = Ok sb1" "sb_wf M sb1 (table_live es)" by blast
    with Cons.IH BufSparse e show ?thesis by auto
  qed (use Cons e in auto)
qed auto

lemma ci_clear_ok:
  assumes "ci_holds M hash ci T f"
  shows "\<exists>ci'. ci_clear ci = Ok ci' \<and> ci_holds M hash ci' 0 (\<lambda>v. []) \<and> ci_log2 ci' = ci_log2 ci"
proof -
  let ?F = "\<lambda>sh. and_then (return_entries (cs_table sh) (cs_subsets sh)) (\<lambda>sb. Ok \<lparr>cs_table = [], cs_subsets = sb\<rparr>)"
  have each: "\<exists>sb. return_entries (cs_table sh) (cs_subsets sh) = Ok sb \<and> sb_wf M sb {#}" if sh: "sh \<in> set (ci_shards ci)" for sh
  proof -
    from sh obtain k where "k < length (ci_shards ci)" "sh = ci_shards ci ! k" by (auto simp: in_set_conv_nth)
    with assms have "sb_wf M (cs_subsets sh) (table_live (cs_table sh))" by (auto simp: ci_holds_def dest: shard_holdsD(4))
    then show ?thesis by (rule return_entries_ok)
  qed
  define G where "G = (\<lambda>sh :: 'a index_shard. \<lparr>cs_table = [], cs_subsets = projr (return_entries (cs_table sh) (cs_subsets sh))\<rparr> :: 'a index_shard)"
  have G: "?F sh = Ok (G sh)" "sb_wf M (cs_subsets (G sh)) {#}" "cs_table (G sh) = []" if "sh \<in> set (ci_shards ci)" for sh
    using each [OF that] by (auto simp: G_def)
  have "map_result ?F (ci_shards ci) = Ok (map G (ci_shards ci))" by (rule map_result_Ok) (rule G(1))
  then have "ci_clear ci = Ok (ci\<lparr>ci_shards := map G (ci_shards ci)\<rparr>)" by (simp add: ci_clear_def)
  moreover have "shard_holds M (G (ci_shards ci ! k)) (in_shard_of hash (ci_log2 ci) k (\<lambda>v. []))" "cs_table (G (ci_shards ci ! k)) = []"
    if "k < length (ci_shards ci)" for k
    using G(2,3) [OF nth_mem [OF that]] by (simp_all add: shard_holds_def in_shard_of_def)
  ultimately show ?thesis using assms by (simp add: ci_holds_def)
qed

lemma ci_new_ok:
  assumes "threads \<le> 2 ^ 56"
  shows "ci_holds M hash (ci_new threads) 0 (\<lambda>v. [])"
proof -
  have "default_log2 threads \<le> 57" using assms by (auto simp: default_log2_def intro!: shard_log2_le)
  then show ?thesis by (simp add: ci_holds_def ci_new_def Let_def shard_holds_def in_shard_of_def sb_default_wf)
qed

end
