(* ===== verification/IndexBuild.thy ===== *)
theory IndexBuild
  imports ColumnIndex RadixSort
begin

text \<open>
  The serial bulk construction of a column index, \<open>ColumnIndex::rebuild_full\<close> of
  \<open>egglog/core-relations/src/hash_index/mod.rs\<close>: the pairs of a value and a row of every indexed column are
  sorted by value, the sorted blocks are merged without duplicates, and every run of equal values becomes
  one subset.  Values are 32-bit words here, like in the radix sort.
\<close>

section \<open>Model\<close>

definition sw_collect_col_pairs :: "sorted_table \<Rightarrow> subset \<Rightarrow> nat \<Rightarrow> index_pair list result" where
  "sw_collect_col_pairs t s col =
     and_then (sw_scan t s) (map_result (\<lambda>(i, r). and_then (vec_get r col) (\<lambda>v. Ok (word_of_nat v, i))))"

text \<open>The pairs of every column in turn, and where its block ends.\<close>

fun collect_blocks :: "sorted_table \<Rightarrow> subset \<Rightarrow> nat list \<Rightarrow> index_pair list \<Rightarrow> nat list \<Rightarrow> (index_pair list \<times> nat list) result" where
  "collect_blocks t s [] pairs ends = Ok (pairs, ends)"
| "collect_blocks t s (col # cols) pairs ends =
     and_then (sw_collect_col_pairs t s col) (\<lambda>ps. collect_blocks t s cols (pairs @ ps) (ends @ [length (pairs @ ps)]))"

fun sort_blocks :: "nat list \<Rightarrow> nat list \<Rightarrow> index_pair list \<Rightarrow> index_pair list \<Rightarrow> index_pair list result" where
  "sort_blocks ends [] pairs scr = Ok pairs"
| "sort_blocks ends (b # bs) pairs scr =
     and_then (vec_get ends b) (\<lambda>lo.
     and_then (vec_get ends (b + 1)) (\<lambda>hi.
     and_then (vec_slice pairs lo hi) (\<lambda>block.
     and_then (radix_sort block scr) (\<lambda>(block, scr).
       sort_blocks ends bs (take lo pairs @ block @ drop hi pairs) scr))))"

text \<open>Merging two sorted runs behind position \<open>start\<close>, without duplicates.\<close>

definition push_pair :: "nat \<Rightarrow> index_pair \<Rightarrow> index_pair list \<Rightarrow> index_pair list" where
  "push_pair start p out = (if length out = start \<or> last out \<noteq> p then out @ [p] else out)"

fun merge2_into :: "nat \<Rightarrow> index_pair list \<Rightarrow> index_pair list \<Rightarrow> index_pair list \<Rightarrow> index_pair list" where
  "merge2_into start (a # as) (b # bs) out =
     (if a \<le> b then merge2_into start as (b # bs) (push_pair start a out)
      else merge2_into start (a # as) bs (push_pair start b out))"
| "merge2_into start as [] out = fold (push_pair start) as out"
| "merge2_into start [] bs out = fold (push_pair start) bs out"

text \<open>One round over the runs that \<open>cur\<close> delimits, from run \<open>r\<close> on.\<close>

function merge_round :: "index_pair list \<Rightarrow> nat list \<Rightarrow> nat \<Rightarrow> index_pair list \<Rightarrow> nat list \<Rightarrow> (index_pair list \<times> nat list) result" where
  "merge_round src cur r dst nxt =
     (if r < length cur - 1 then
        if r + 1 < length cur - 1 then
          and_then (vec_slice src (cur ! r) (cur ! (r + 1))) (\<lambda>a.
          and_then (vec_slice src (cur ! (r + 1)) (cur ! (r + 2))) (\<lambda>b.
            let dst = merge2_into (length dst) a b dst in
            merge_round src cur (r + 2) dst (nxt @ [length dst])))
        else
          and_then (vec_slice src (cur ! r) (cur ! (r + 1))) (\<lambda>a.
            let dst = dst @ a in merge_round src cur (r + 1) dst (nxt @ [length dst]))
      else Ok (dst, nxt))"
  by pat_completeness auto
termination
  by (relation "measure (\<lambda>(src, cur, r, dst, nxt). length cur - r)") auto

declare merge_round.simps [simp del]

lemma merge_round_runs:
  "merge_round src cur r dst nxt = Inr (dst', nxt') \<Longrightarrow> length nxt' = length nxt + (length cur - r) div 2"
proof (induction src cur r dst nxt arbitrary: dst' nxt' rule: merge_round.induct)
  case (1 src cur r dst nxt)
  consider "\<not> r < length cur - 1" | "r + 1 < length cur - 1" | "r < length cur - 1" "\<not> r + 1 < length cur - 1" by blast
  then show ?case
  proof cases
    case 1
    with "1.prems" show ?thesis by (simp add: merge_round.simps [of src cur r]) 
  next
    case 2
    with "1.prems" obtain a b where ab: "vec_slice src (cur ! r) (cur ! (r + 1)) = Inr a" "vec_slice src (cur ! (r + 1)) (cur ! (r + 2)) = Inr b"
      and rest: "merge_round src cur (r + 2) (merge2_into (length dst) a b dst) (nxt @ [length (merge2_into (length dst) a b dst)]) = Inr (dst', nxt')"
      by (subst (asm) merge_round.simps) (auto simp: and_then_eq_Ok_iff Let_def)
    have "length nxt' = length (nxt @ [length (merge2_into (length dst) a b dst)]) + (length cur - (r + 2)) div 2"
      by (rule "1.IH"(1) [OF _ 2 ab refl rest]) (use 2 in simp)
    moreover have "(length cur - r) div 2 = Suc ((length cur - (r + 2)) div 2)" using 2 by (simp add: div_add_self2 Suc_diff_Suc)
    ultimately show ?thesis by simp
  next
    case 3
    with "1.prems" obtain a where a: "vec_slice src (cur ! r) (cur ! (r + 1)) = Inr a"
      and rest: "merge_round src cur (r + 1) (dst @ a) (nxt @ [length (dst @ a)]) = Inr (dst', nxt')"
      by (subst (asm) merge_round.simps) (auto simp: and_then_eq_Ok_iff Let_def)
    have "length nxt' = length (nxt @ [length (dst @ a)]) + (length cur - (r + 1)) div 2"
      by (rule "1.IH"(2) [OF 3 a refl rest])
    moreover have "length cur - r = 2" using 3 by simp
    ultimately show ?thesis by simp
  qed
qed

text \<open>Rounds until one run is left; the two buffers swap roles.\<close>

function merge_rounds :: "index_pair list \<Rightarrow> nat list \<Rightarrow> (index_pair list \<times> nat list) result" where
  "merge_rounds src cur =
     (if 2 < length cur then and_then (merge_round src cur 0 [] [0]) (\<lambda>(dst, nxt). merge_rounds dst nxt) else Ok (src, cur))"
  by pat_completeness auto
termination
  by (relation "measure (\<lambda>(src, cur). length cur)") (auto dest!: merge_round_runs)

declare merge_rounds.simps [simp del]

definition merge_sorted_blocks_dedup :: "index_pair list \<Rightarrow> nat list \<Rightarrow> index_pair list result" where
  "merge_sorted_blocks_dedup src ends =
     and_then (merge_rounds src ends) (\<lambda>(src, cur). and_then (vec_get cur 1) (\<lambda>n. Ok (take n src)))"

text \<open>Every run of equal values becomes one subset.\<close>

definition shard_insert_run :: "val \<Rightarrow> nat list \<Rightarrow> column_shard \<Rightarrow> column_shard result" where
  "shard_insert_run key rs sh =
     and_then (bs_from_sorted rs (cs_subsets sh)) (\<lambda>(s, sb). Ok \<lparr>cs_table = AList.update key s (cs_table sh), cs_subsets = sb\<rparr>)"

function build_subsets :: "(val \<Rightarrow> full_hash) \<Rightarrow> index_pair list \<Rightarrow> column_index \<Rightarrow> column_index result" where
  "build_subsets hash [] ci = Ok ci"
| "build_subsets hash ((key, row) # ps) ci =
     and_then (edit_shard (value_shard hash (ci_log2 ci) (unat key))
         (shard_insert_run (unat key) (row # map snd (takeWhile (\<lambda>p. fst p = key) ps))) ci)
       (build_subsets hash (dropWhile (\<lambda>p. fst p = key) ps))"
  by pat_completeness auto
termination
  by (relation "measure (\<lambda>(hash, ps, ci). length ps)") (auto simp: le_imp_less_Suc length_dropWhile_le)

definition ci_rebuild_full :: "(val \<Rightarrow> full_hash) \<Rightarrow> sorted_table \<Rightarrow> subset \<Rightarrow> nat list \<Rightarrow> column_index \<Rightarrow> column_index result" where
  "ci_rebuild_full hash t s cols ci =
     and_then (collect_blocks t s cols [] [0]) (\<lambda>(pairs, ends).
     and_then (sort_blocks ends [0..<length cols] pairs (replicate (subset_size s) (0, 0))) (\<lambda>pairs.
       if length cols = 1 then build_subsets hash pairs ci
       else and_then (merge_sorted_blocks_dedup pairs ends) (\<lambda>merged. build_subsets hash merged ci)))"

section \<open>Merging the blocks\<close>

text \<open>Blocks one after the other, and where they end.\<close>

fun ends_from :: "nat \<Rightarrow> 'a list list \<Rightarrow> nat list" where
  "ends_from k [] = [k]"
| "ends_from k (b # bs) = k # ends_from (k + length b) bs"

lemma ends_from_length [simp]: "length (ends_from k bs) = Suc (length bs)"
  by (induction bs arbitrary: k) auto

lemma ends_from_nth: "r \<le> length bs \<Longrightarrow> ends_from k bs ! r = k + length (concat (take r bs))"
  by (induction bs arbitrary: k r) (auto simp: nth_Cons' take_Cons')

lemma ends_from_snoc: "ends_from k (bs @ [b]) = ends_from k bs @ [k + length (concat bs) + length b]"
  by (induction bs arbitrary: k) (auto simp: add.assoc)

lemma block_slice:
  assumes "r < length bs"
  shows "vec_slice (concat bs) (ends_from 0 bs ! r) (ends_from 0 bs ! (r + 1)) = Ok (bs ! r)"
proof -
  have "concat bs = concat (take r bs) @ bs ! r @ concat (drop (Suc r) bs)" using assms by (metis concat.simps(2) concat_append id_take_nth_drop)
  moreover have "concat (take (Suc r) bs) = concat (take r bs) @ bs ! r" using assms by (simp add: take_Suc_conv_app_nth)
  ultimately show ?thesis using assms by (simp add: ends_from_nth vec_slice_def)
qed

abbreviation ordered :: "index_pair list \<Rightarrow> bool" where
  "ordered \<equiv> sorted_wrt (<)"

lemma ordered_unique: "ordered xs \<Longrightarrow> ordered ys \<Longrightarrow> set xs = set ys \<Longrightarrow> xs = ys"
  by (simp add: strict_sorted_equal)

lemma push_pair_prefix: "push_pair (length pre) p (pre @ out) = pre @ push_pair 0 p out"
  by (cases "out = []") (auto simp: push_pair_def)

lemma fold_push_prefix: "fold (push_pair (length pre)) ps (pre @ out) = pre @ fold (push_pair 0) ps out"
  by (induction ps arbitrary: out) (simp_all add: push_pair_prefix)

lemma merge2_prefix: "start = 0 \<Longrightarrow> merge2_into (length pre) a b (pre @ out) = pre @ merge2_into start a b out"
  by (induction start a b out rule: merge2_into.induct)
    (simp_all add: fold_push_prefix push_pair_prefix del: fold.simps)

definition merge2 :: "index_pair list \<Rightarrow> index_pair list \<Rightarrow> index_pair list" where
  "merge2 a b = merge2_into 0 a b []"

lemma merge2_at: "merge2_into (length out) a b out = out @ merge2 a b"
  using merge2_prefix [of 0 out a b "[]"] by (simp add: merge2_def)

lemma push_pair_ordered:
  "ordered out \<Longrightarrow> \<forall>x \<in> set out. x \<le> p \<Longrightarrow> ordered (push_pair 0 p out) \<and> set (push_pair 0 p out) = insert p (set out)"
proof (cases "out = []")
  case False
  assume o: "ordered out" "\<forall>x \<in> set out. x \<le> p"
  show ?thesis
  proof (cases "last out = p")
    case True
    with False last_in_set [of out] show ?thesis using o by (auto simp: push_pair_def)
  next
    case neq: False
    have "p \<notin> set out"
    proof
      assume "p \<in> set out"
      then obtain q where "out = q @ [last out]" "p \<in> set q" using False neq by (metis append_butlast_last_id in_set_butlast_appendI insert_iff list.set append_Nil2 rotate1.simps(2) set_rotate1 set_ConsD)
      with o(1) have "p < last out" by (metis sorted_wrt_append list.set_intros(1))
      with o(2) False show False by (metis last_in_set leD)
    qed
    with o have "\<forall>x \<in> set out. x < p" by (metis order_le_less)
    with o(1) False neq show ?thesis by (auto simp: push_pair_def sorted_wrt_append)
  qed
qed (simp add: push_pair_def)

lemma fold_push_ordered:
  "ordered out \<Longrightarrow> ordered ps \<Longrightarrow> \<forall>x \<in> set out. \<forall>y \<in> set ps. x \<le> y \<Longrightarrow>
   ordered (fold (push_pair 0) ps out) \<and> set (fold (push_pair 0) ps out) = set out \<union> set ps"
proof (induction ps arbitrary: out)
  case (Cons p ps)
  from push_pair_ordered [of out p] Cons.prems have p: "ordered (push_pair 0 p out)" "set (push_pair 0 p out) = insert p (set out)" by auto
  moreover have "\<forall>x \<in> insert p (set out). \<forall>y \<in> set ps. x \<le> y" using Cons.prems by (auto simp: less_imp_le)
  ultimately show ?case using Cons.IH [OF p(1)] Cons.prems(2) by auto
qed simp

lemma merge2_into_ordered:
  "start = 0 \<Longrightarrow> ordered out \<Longrightarrow> ordered a \<Longrightarrow> ordered b \<Longrightarrow> \<forall>x \<in> set out. \<forall>y \<in> set a \<union> set b. x \<le> y \<Longrightarrow>
   ordered (merge2_into start a b out) \<and> set (merge2_into start a b out) = set out \<union> set a \<union> set b"
proof (induction start a b out rule: merge2_into.induct)
  case (1 start a as b bs out)
  show ?case
  proof (cases "a \<le> b")
    case True
    from push_pair_ordered [of out a] "1.prems" have p: "ordered (push_pair start a out)" "set (push_pair start a out) = insert a (set out)" by auto
    have "\<forall>x \<in> insert a (set out). \<forall>y \<in> set as \<union> set (b # bs). x \<le> y"
      using "1.prems" True by (auto intro: less_imp_le order.trans)
    with "1.IH"(1) [OF True] p "1.prems" True show ?thesis by auto
  next
    case False
    then have le: "b \<le> a" by simp
    from push_pair_ordered [of out b] "1.prems" have p: "ordered (push_pair start b out)" "set (push_pair start b out) = insert b (set out)" by auto
    have "\<forall>x \<in> insert b (set out). \<forall>y \<in> set (a # as) \<union> set bs. x \<le> y"
      using "1.prems" le by (auto intro: less_imp_le order.trans)
    with "1.IH"(2) [OF False] p "1.prems" False show ?thesis by auto
  qed
next
  case (2 start as out)
  with fold_push_ordered [of out as] show ?case by simp
next
  case (3 start v va out)
  then show ?case using fold_push_ordered [of out "v # va"] by (simp del: fold.simps)
qed

lemma merge2_ordered: "ordered a \<Longrightarrow> ordered b \<Longrightarrow> ordered (merge2 a b) \<and> set (merge2 a b) = set a \<union> set b"
  using merge2_into_ordered [of 0 "[]" a b] by (simp add: merge2_def)

fun merge_pairs :: "index_pair list list \<Rightarrow> index_pair list list" where
  "merge_pairs (a # b # bs) = merge2 a b # merge_pairs bs"
| "merge_pairs bs = bs"

lemma merge_pairs_ordered:
  "\<forall>b \<in> set bs. ordered b \<Longrightarrow> (\<forall>b \<in> set (merge_pairs bs). ordered b) \<and> set (concat (merge_pairs bs)) = set (concat bs)"
  by (induction bs rule: merge_pairs.induct) (auto simp: merge2_ordered)

lemma merge_pairs_length: "length (merge_pairs bs) = (length bs + 1) div 2"
  by (induction bs rule: merge_pairs.induct) auto

lemma merge_round_ok:
  "r \<le> length bs \<Longrightarrow> merge_round (concat bs) (ends_from 0 bs) r (concat ds) (ends_from 0 ds) =
     Ok (concat (ds @ merge_pairs (drop r bs)), ends_from 0 (ds @ merge_pairs (drop r bs)))"
proof (induction "length bs - r" arbitrary: r ds rule: less_induct)
  case less
  consider "r = length bs" | "r + 1 < length bs" | "r + 1 = length bs" using less.prems by linarith
  then show ?case
  proof cases
    case 1
    then show ?thesis by (simp add: merge_round.simps)
  next
    case 2
    let ?m = "merge2 (bs ! r) (bs ! (r + 1))"
    have "drop r bs = bs ! r # bs ! (r + 1) # drop (r + 2) bs" using 2 by (simp add: Cons_nth_drop_Suc)
    moreover have "merge_round (concat bs) (ends_from 0 bs) (r + 2) (concat (ds @ [?m])) (ends_from 0 (ds @ [?m])) =
        Ok (concat ((ds @ [?m]) @ merge_pairs (drop (r + 2) bs)), ends_from 0 ((ds @ [?m]) @ merge_pairs (drop (r + 2) bs)))"
      by (rule less.hyps) (use 2 in simp_all)
    moreover have "vec_slice (concat bs) (ends_from 0 bs ! (r + 1)) (ends_from 0 bs ! (r + 2)) = Ok (bs ! (r + 1))"
      using block_slice [of "r + 1" bs] 2 by simp
    ultimately show ?thesis using 2 block_slice [of r bs]
      by (subst merge_round.simps) (simp add: merge2_at ends_from_snoc Let_def)
  next
    case 3
    have "drop r bs = [bs ! r]" using 3 by (simp add: Cons_nth_drop_Suc [symmetric, of r bs])
    moreover have "merge_round (concat bs) (ends_from 0 bs) (r + 1) (concat (ds @ [bs ! r])) (ends_from 0 (ds @ [bs ! r])) =
        Ok (concat ((ds @ [bs ! r]) @ merge_pairs (drop (r + 1) bs)), ends_from 0 ((ds @ [bs ! r]) @ merge_pairs (drop (r + 1) bs)))"
      by (rule less.hyps) (use 3 in simp_all)
    ultimately show ?thesis using 3 block_slice [of r bs]
      by (subst merge_round.simps) (simp add: ends_from_snoc Let_def)
  qed
qed

lemma merge_rounds_ok:
  "bs \<noteq> [] \<Longrightarrow> \<forall>b \<in> set bs. ordered b \<Longrightarrow>
   \<exists>m. merge_rounds (concat bs) (ends_from 0 bs) = Ok (m, [0, length m]) \<and> ordered m \<and> set m = set (concat bs)"
proof (induction "length bs" arbitrary: bs rule: less_induct)
  case less
  show ?case
  proof (cases "length bs = 1")
    case True
    then obtain b where "bs = [b]" by (cases bs) auto
    with less.prems show ?thesis by (simp add: merge_rounds.simps)
  next
    case False
    then have two: "1 < length bs" using less.prems(1) by (cases bs) auto
    let ?ms = "merge_pairs bs"
    note ord = merge_pairs_ordered [OF less.prems(2)]
    have "merge_round (concat bs) (ends_from 0 bs) 0 [] [0] = Ok (concat ?ms, ends_from 0 ?ms)"
      using merge_round_ok [of 0 bs "[]"] by simp
    moreover have "length ?ms < length bs" "?ms \<noteq> []"
      using two merge_pairs_length [of bs] by (auto simp flip: length_greater_0_conv)
    moreover from this obtain m where
      "merge_rounds (concat ?ms) (ends_from 0 ?ms) = Ok (m, [0, length m])" "ordered m" "set m = set (concat ?ms)"
      using less.hyps [of ?ms] ord by blast
    ultimately show ?thesis using two ord by (subst merge_rounds.simps) auto
  qed
qed

lemma merge_dedup_ok:
  "bs \<noteq> [] \<Longrightarrow> \<forall>b \<in> set bs. ordered b \<Longrightarrow>
   \<exists>m. merge_sorted_blocks_dedup (concat bs) (ends_from 0 bs) = Ok m \<and> ordered m \<and> set m = set (concat bs)"
  using merge_rounds_ok [of bs] by (fastforce simp: merge_sorted_blocks_dedup_def)

section \<open>Sorting the blocks\<close>

lemma ends_from_cong: "map length bs = map length cs \<Longrightarrow> ends_from k bs = ends_from k cs"
proof (induction bs arbitrary: k cs)
  case (Cons b bs)
  then show ?case by (cases cs) auto
qed simp

lemma sort_blocks_ok:
  "\<forall>b \<in> set bs. sorted (map snd b) \<and> length b \<le> length scr \<Longrightarrow> n \<le> length bs \<Longrightarrow>
   sort_blocks (ends_from 0 bs) [n..<length bs] (concat (map (sort_key fst) (take n bs) @ drop n bs)) scr = Ok (concat (map (sort_key fst) bs))"
proof (induction "length bs - n" arbitrary: n scr rule: less_induct)
  case less
  show ?case
  proof (cases "n = length bs")
    case False
    with less.prems(2) have n: "n < length bs" by simp
    let ?cs = "map (sort_key fst) (take n bs) @ drop n bs" and ?b = "bs ! n"
    have "map length bs = map length ?cs" by (simp add: list_eq_iff_nth_eq nth_append)
    then have ends: "ends_from 0 bs = ends_from 0 ?cs" by (rule ends_from_cong)
    have nth: "n < length ?cs" "?cs ! n = ?b" using n by (simp_all add: nth_append)
    note slice = block_slice [OF nth(1), unfolded nth(2)]
    have get: "vec_get (ends_from 0 ?cs) n = Ok (ends_from 0 ?cs ! n)" "vec_get (ends_from 0 ?cs) (n + 1) = Ok (ends_from 0 ?cs ! (n + 1))"
      using n by simp_all
    have parts: "take (ends_from 0 ?cs ! n) (concat ?cs) = concat (map (sort_key fst) (take n bs))"
      "drop (ends_from 0 ?cs ! (n + 1)) (concat ?cs) = concat (drop (Suc n) bs)"
    proof -
      have cs: "?cs = map (sort_key fst) (take n bs) @ ?b # drop (Suc n) bs" using n by (simp add: Cons_nth_drop_Suc)
      have "ends_from 0 ?cs ! n = length (concat (map (sort_key fst) (take n bs)))" using n by (simp add: ends_from_nth)
      moreover have "ends_from 0 ?cs ! (n + 1) = length (concat (map (sort_key fst) (take n bs)) @ ?b)"
        using n unfolding cs by (simp add: ends_from_nth)
      ultimately show "take (ends_from 0 ?cs ! n) (concat ?cs) = concat (map (sort_key fst) (take n bs))"
        "drop (ends_from 0 ?cs ! (n + 1)) (concat ?cs) = concat (drop (Suc n) bs)" unfolding cs by simp_all
    qed
    from less.prems(1) n have "sorted (map snd ?b)" "length ?b \<le> length scr" by simp_all
    then obtain scr' where sort: "radix_sort ?b scr = Ok (sort_key fst ?b, scr')" "length scr' = length scr"
      using radix_sorts by blast
    have "sort_blocks (ends_from 0 bs) [Suc n..<length bs] (concat (map (sort_key fst) (take (Suc n) bs) @ drop (Suc n) bs)) scr' =
        Ok (concat (map (sort_key fst) bs))"
      by (rule less.hyps) (use n less.prems(1) sort(2) in simp_all)
    moreover have step: "sort_blocks E [n..<length bs] C scr = sort_blocks E [Suc n..<length bs] (take (E ! n) C @ sort_key fst ?b @ drop (E ! (n + 1)) C) scr'"
      if "vec_get E n = Ok (E ! n)" "vec_get E (n + 1) = Ok (E ! (n + 1))" "vec_slice C (E ! n) (E ! (n + 1)) = Ok ?b" for E C
      using that sort(1) n by (simp add: upt_conv_Cons del: upt_Suc)
    have "concat (map (sort_key fst) (take (Suc n) bs) @ drop (Suc n) bs) =
        concat (map (sort_key fst) (take n bs)) @ sort_key fst ?b @ concat (drop (Suc n) bs)" using n by (simp add: take_Suc_conv_app_nth)
    ultimately show ?thesis using step [OF get slice] unfolding parts ends by simp
  qed simp
qed

lemma sorted_block_ordered:
  assumes "ascending (map snd b)"
  shows "ordered (sort_key fst b)"
proof -
  have "sorted (map snd b)" "distinct b" using assms by (auto simp: ascending_def strict_sorted_iff distinct_map)
  with sort_pairs [of b] show ?thesis by (metis strict_sorted_iff sorted_sort distinct_sort)
qed

section \<open>In bulk\<close>

text \<open>The pairs of a column, in the order of the scan.\<close>

definition col_pairs :: "sorted_table \<Rightarrow> nat list \<Rightarrow> nat \<Rightarrow> index_pair list" where
  "col_pairs t is col = map (\<lambda>i. (word_of_nat (sw_rows t ! i ! col), i)) (filter (sw_alive t) is)"

lemma collect_ok:
  assumes "readable t" "col < sw_columns t" "scan_within (length (sw_rows t)) s"
  shows "sw_collect_col_pairs t s col = Ok (col_pairs t (rows s) col)"
proof -
  let ?es = "map (\<lambda>i. (i, sw_rows t ! i)) (filter (sw_alive t) (rows s))"
  have len: "length (sw_rows t ! i) = sw_columns t" if "i \<in> set (rows s)" for i
    using rd_row_length [of "sw_columns t" "sw_data t" i] assms(1,3) that by (simp add: readable_def scan_within_def)
  have "map_result (\<lambda>(i, r). and_then (vec_get r col) (\<lambda>v. Ok (word_of_nat v :: rep, i))) ?es = Ok (map (\<lambda>(i, r). (word_of_nat (r ! col), i)) ?es)"
    by (rule map_result_Ok) (use len assms(2) in auto)
  with scan_ok [OF assms(1,3)] show ?thesis by (simp add: sw_collect_col_pairs_def col_pairs_def comp_def)
qed

lemma collect_blocks_ok:
  "readable t \<Longrightarrow> \<forall>c \<in> set cols. c < sw_columns t \<Longrightarrow> scan_within (length (sw_rows t)) s \<Longrightarrow>
   collect_blocks t s cols (concat bs) (ends_from 0 bs) =
     Ok (concat (bs @ map (col_pairs t (rows s)) cols), ends_from 0 (bs @ map (col_pairs t (rows s)) cols))"
proof (induction cols arbitrary: bs)
  case (Cons col cols)
  from Cons.IH [of "bs @ [col_pairs t (rows s) col]"] Cons.prems collect_ok [of t col s] show ?case
    by (simp add: ends_from_snoc)
qed simp

lemma run_split:
  assumes "ordered ((key, row) # ps)"
  shows "filter (\<lambda>(w, i). w = key) ((key, row) # ps) = (key, row) # takeWhile (\<lambda>p. fst p = key) ps"
    "\<forall>p \<in> set (dropWhile (\<lambda>p. fst p = key) ps). key < fst p" "ordered (dropWhile (\<lambda>p. fst p = key) ps)"
proof -
  have o: "ordered ps" "\<forall>p \<in> set ps. key \<le> fst p" using assms by (auto simp: less_prod_def)
  let ?run = "takeWhile (\<lambda>p. fst p = key) ps" and ?rest = "dropWhile (\<lambda>p. fst p = key) ps"
  have split: "ps = ?run @ ?rest" by simp
  have "ordered (?run @ ?rest)" using o(1) by simp
  then show "ordered ?rest" unfolding sorted_wrt_append by blast
  show later: "\<forall>p \<in> set ?rest. key < fst p"
  proof (cases ?rest)
    case (Cons q qs)
    then have "fst q \<noteq> key" using hd_dropWhile [of "\<lambda>p. fst p = key" ps] by simp
    moreover have "q \<in> set ps" using Cons set_dropWhileD [of q "\<lambda>p. fst p = key" ps] by simp
    ultimately have q: "key < fst q" using o(2) by (simp add: order_less_le)
    have "ordered (q # qs)" using \<open>ordered ?rest\<close> Cons by simp
    then have "\<forall>p \<in> set qs. fst q \<le> fst p" by (auto simp: less_prod_def)
    with q Cons show ?thesis by (auto intro: less_le_trans)
  next
    case Nil
    then show ?thesis unfolding Nil by simp
  qed
  have "filter (\<lambda>(w, i). w = key) ps = filter (\<lambda>(w, i). w = key) ?run @ filter (\<lambda>(w, i). w = key) ?rest" by (metis filter_append split)
  also have "filter (\<lambda>(w, i). w = key) ?rest = []" using later by (auto simp: filter_empty_conv)
  also have "filter (\<lambda>(w, i). w = key) ?run = ?run" by (auto simp: filter_id_conv dest: set_takeWhileD)
  finally show "filter (\<lambda>(w, i). w = key) ((key, row) # ps) = (key, row) # ?run" by simp
qed

lemma shard_insert_run_ok:
  assumes sh: "shard_holds M sh g" and M: "64 * M \<le> u32_max" and new: "g v = []" "ascending rs" "rs \<noteq> []"
    and room: "table_rows (cs_table sh) g + length rs \<le> M"
  shows "\<exists>sh'. shard_insert_run v rs sh = Ok sh' \<and> shard_holds M sh' (g(v := rs)) \<and>
    table_rows (cs_table sh') (g(v := rs)) = table_rows (cs_table sh) g + length rs"
proof -
  from shard_entry [OF sh, of v] new(1) obtain live where
    e: "sb_wf M (cs_subsets sh) (bs_live bs_empty + live)" "rows_in live \<le> table_rows (cs_table sh) g"
    "\<And>rs s' sb'. ascending rs \<Longrightarrow> rs \<noteq> [] \<Longrightarrow> bs_stored M (cs_subsets sh) live sb' s' (subset_of rs) \<Longrightarrow>
       shard_holds M \<lparr>cs_table = AList.update v s' (cs_table sh), cs_subsets = sb'\<rparr> (g(v := rs)) \<and>
       table_rows (AList.update v s' (cs_table sh)) (g(v := rs)) = table_rows (cs_table sh) g + length rs" by auto
  have "sb_wf M (cs_subsets sh) live" using e(1) by (simp add: bs_empty_def)
  from bs_from_sorted_ok [OF this M new(2,3)] e(2) room obtain s sb' where
    1: "bs_from_sorted rs (cs_subsets sh) = Ok (s, sb')" "bs_stored M (cs_subsets sh) live sb' s (subset_of rs)" by auto
  from e(3) [OF new(2,3) 1(2)] 1(1) show ?thesis by (simp add: shard_insert_run_def)
qed

text \<open>The rows of a value in a list of pairs.\<close>

definition pairs_with :: "index_pair list \<Rightarrow> val \<Rightarrow> nat list" where
  "pairs_with ps v = map snd (filter (\<lambda>(w, i). unat w = v) ps)"

lemma pairs_with_ascending: "ordered ps \<Longrightarrow> \<forall>(w, i) \<in> set ps. i < u32_max \<Longrightarrow> ascending (pairs_with ps v)"
proof -
  assume o: "ordered ps" and i: "\<forall>(w, i) \<in> set ps. i < u32_max"
  have "ordered (filter (\<lambda>(w, i). unat w = v) ps)" using o by (rule sorted_wrt_filter)
  then have "sorted_wrt (\<lambda>p q. snd p < snd q) (filter (\<lambda>(w, i). unat w = v) ps)"
    by (rule sorted_wrt_mono_rel [rotated]) (auto simp: less_prod_def simp flip: word_unat_eq_iff)
  with i show ?thesis by (auto simp: ascending_def pairs_with_def sorted_wrt_map)
qed

lemma build_subsets_ok:
  assumes M: "64 * M \<le> u32_max"
  shows "ordered ps \<Longrightarrow> \<forall>(w, i) \<in> set ps. i < u32_max \<and> f (unat w) = [] \<Longrightarrow> ci_holds M hash ci T f \<Longrightarrow> T + length ps \<le> M \<Longrightarrow>
    \<exists>ci'. build_subsets hash ps ci = Ok ci' \<and> ci_log2 ci' = ci_log2 ci \<and> ci_holds M hash ci' (T + length ps) (\<lambda>v. f v @ pairs_with ps v)"
proof (induction hash ps ci arbitrary: T f rule: build_subsets.induct)
  case (2 hash key row ps ci)
  let ?run = "takeWhile (\<lambda>p. fst p = key) ps" and ?rest = "dropWhile (\<lambda>p. fst p = key) ps" and ?v = "unat key"
  let ?rs = "row # map snd ?run"
  have split: "(key, row) # ps = ((key, row) # ?run) @ ?rest" by simp
  note parts = run_split [OF "2.prems"(1)]
  have same: "(\<lambda>(w, i). unat w = ?v) = (\<lambda>(w :: rep, i :: nat). w = key)" by (simp add: fun_eq_iff flip: word_unat_eq_iff)
  have rs: "?rs = pairs_with ((key, row) # ps) ?v" unfolding pairs_with_def same parts(1) by simp
  have asc: "ascending ?rs" unfolding rs by (rule pairs_with_ascending [OF "2.prems"(1)]) (use "2.prems"(2) in auto)
  have total: "length ((key, row) # ps) = length ?rs + length ?rest" by (subst split) (simp only: length_append length_Cons length_map)
  have fv: "f ?v = []" using "2.prems"(2) by simp
  have "\<exists>ci1. edit_shard (value_shard hash (ci_log2 ci) ?v) (shard_insert_run ?v ?rs) ci = Ok ci1 \<and>
      ci_holds M hash ci1 (T + length ?rs) (f(?v := ?rs)) \<and> ci_log2 ci1 = ci_log2 ci"
  proof (rule edit_shard_ok [OF "2.prems"(3)])
    fix sh g assume sh: "shard_holds M sh g" "g ?v = f ?v" "table_rows (cs_table sh) g \<le> T"
    with shard_insert_run_ok [OF sh(1) M _ asc] fv total "2.prems"(4)
    show "\<exists>sh'. shard_insert_run ?v ?rs sh = Ok sh' \<and> shard_holds M sh' (g(?v := ?rs)) \<and> table_rows (cs_table sh') (g(?v := ?rs)) \<le> T + length ?rs"
      by fastforce
  qed (use total "2.prems"(4) in simp_all)
  then obtain ci1 where
    1: "edit_shard (value_shard hash (ci_log2 ci) ?v) (shard_insert_run ?v ?rs) ci = Ok ci1"
    "ci_holds M hash ci1 (T + length ?rs) (f(?v := ?rs))" "ci_log2 ci1 = ci_log2 ci" by blast
  have "\<forall>(w, i) \<in> set ?rest. i < u32_max \<and> (f(?v := ?rs)) (unat w) = []"
  proof clarify
    fix w i assume wi: "(w, i) \<in> set ?rest"
    then have "(w, i) \<in> set ps" by (rule set_dropWhileD)
    moreover have "unat w \<noteq> ?v" using parts(2) wi by (auto simp flip: word_unat_eq_iff)
    ultimately show "i < u32_max \<and> (f(?v := ?rs)) (unat w) = []" using "2.prems"(2) by auto
  qed
  from "2.IH" [OF 1(1) parts(3) this 1(2)] total "2.prems"(4) obtain ci' where
    2: "build_subsets hash ?rest ci1 = Ok ci'" "ci_log2 ci' = ci_log2 ci1"
    "ci_holds M hash ci' (T + length ?rs + length ?rest) (\<lambda>v. (f(?v := ?rs)) v @ pairs_with ?rest v)" by auto
  have "(f(?v := ?rs)) v @ pairs_with ?rest v = f v @ pairs_with ((key, row) # ps) v" for v
  proof (cases "v = ?v")
    case True
    have "pairs_with ?rest ?v = []" using parts(2) by (auto simp: pairs_with_def filter_empty_conv simp flip: word_unat_eq_iff)
    with True fv rs show ?thesis by simp
  next
    case False
    have "pairs_with ((key, row) # ?run) v = []" using False by (auto simp: pairs_with_def filter_empty_conv dest: set_takeWhileD)
    moreover have "pairs_with ((key, row) # ps) v = pairs_with ((key, row) # ?run) v @ pairs_with ?rest v"
      by (subst split) (simp only: pairs_with_def filter_append map_append)
    ultimately show ?thesis using False by simp
  qed
  then have "(\<lambda>v. (f(?v := ?rs)) v @ pairs_with ?rest v) = (\<lambda>v. f v @ pairs_with ((key, row) # ps) v)" by blast
  with 1 2 total show ?case by (simp add: add.assoc)
qed (simp add: pairs_with_def)

text \<open>The values of the table are 32-bit words.\<close>

definition word_rows :: "sorted_table \<Rightarrow> bool" where
  "word_rows t \<longleftrightarrow> (\<forall>r \<in> set (sw_rows t). \<forall>v \<in> set r. v \<le> u32_max)"

lemma unat_value: "v \<le> u32_max \<Longrightarrow> unat (word_of_nat v :: rep) = v"
  by (simp add: unsigned_of_nat u32_max_def take_bit_nat_eq_self)

lemma word_rows_nth:
  assumes "readable t" "word_rows t" "i < length (sw_rows t)" "c < sw_columns t"
  shows "sw_rows t ! i ! c \<le> u32_max"
proof -
  have "length (sw_rows t ! i) = sw_columns t" using rd_row_length [of "sw_columns t" "sw_data t" i] assms(1,3) by (simp add: readable_def)
  with assms show ?thesis unfolding word_rows_def by (metis nth_mem)
qed

lemma ci_holds_mono: "ci_holds M hash ci T f \<Longrightarrow> T \<le> T' \<Longrightarrow> T' \<le> M \<Longrightarrow> ci_holds M hash ci T' f"
  by (fastforce simp: ci_holds_def)

lemma scan_ascending: "scan_within n s \<Longrightarrow> n \<le> u32_max \<Longrightarrow> ascending (filter P (rows s))"
proof -
  assume s: "scan_within n s" "n \<le> u32_max"
  then have "sorted_wrt (<) (rows s)" using sorted_rows [of s] by (simp add: scan_within_def strict_sorted_iff)
  then have "sorted_wrt (<) (filter P (rows s))" by (rule sorted_wrt_filter)
  with s show ?thesis by (auto simp: ascending_def scan_within_def)
qed

text \<open>The merged pairs list the rows of every value.\<close>

lemma bulk_pairs:
  assumes t: "readable t" "word_rows t" "\<forall>c \<in> set cols. c < sw_columns t" "scan_within (length (sw_rows t)) s"
    and ps: "ordered ps" "set ps = (\<Union>c \<in> set cols. set (col_pairs t (rows s) c))"
  shows "pairs_with ps v = rows_with (scan_of t cols (rows s)) v" "length ps \<le> cell_count (scan_of t cols (rows s))"
    "\<forall>(w, i) \<in> set ps. i < u32_max"
proof -
  have small: "length (sw_rows t) \<le> u32_max" using t(1) by (simp add: readable_def)
  have in_ps: "(w, i) \<in> set ps \<longleftrightarrow> i \<in> set (rows s) \<and> sw_alive t i \<and> (\<exists>c \<in> set cols. w = word_of_nat (sw_rows t ! i ! c))" for w i
    unfolding ps(2) col_pairs_def by auto
  have bound: "i < length (sw_rows t)" if "i \<in> set (rows s)" for i using t(4) that by (simp add: scan_within_def)
  show i: "\<forall>(w, i) \<in> set ps. i < u32_max" using in_ps bound small by fastforce
  have val: "unat (word_of_nat (sw_rows t ! i ! c) :: rep) = sw_rows t ! i ! c" if "i \<in> set (rows s)" "c \<in> set cols" for i c
    using that t(3) bound by (intro unat_value word_rows_nth [OF t(1,2)]) auto
  have "set (pairs_with ps v) = set (rows_with (scan_of t cols (rows s)) v)"
    using in_ps val by (fastforce simp: pairs_with_def rows_for_def scan_of_def image_iff)
  moreover have "ascending (pairs_with ps v)" using pairs_with_ascending [OF ps(1) i] .
  moreover have "ascending (filter (\<lambda>i. sw_alive t i \<and> v \<in> set (map (\<lambda>c. sw_rows t ! i ! c) cols)) (rows s))"
    using scan_ascending [OF t(4) small] .
  moreover have "rows_with (scan_of t cols (rows s)) v = filter (\<lambda>i. sw_alive t i \<and> v \<in> set (map (\<lambda>c. sw_rows t ! i ! c) cols)) (rows s)"
    by (simp add: rows_for_def scan_of_def filter_map comp_def conj_commute)
  ultimately show "pairs_with ps v = rows_with (scan_of t cols (rows s)) v"
    unfolding ascending_def by (metis strict_sorted_equal)
  have "distinct ps" using ps(1) by (simp add: strict_sorted_iff)
  then have "length ps = card (set ps)" by (simp add: distinct_card)
  also have "\<dots> = card (set (concat (map (col_pairs t (rows s)) cols)))" using ps(2) by simp
  also have "\<dots> \<le> length (concat (map (col_pairs t (rows s)) cols))" by (rule card_length)
  also have "\<dots> = cell_count (scan_of t cols (rows s))"
    by (simp add: length_concat col_pairs_def comp_def sum_list_triv mult.commute)
  finally show "length ps \<le> cell_count (scan_of t cols (rows s))" .
qed

lemma rebuild_full_steps:
  assumes "collect_blocks t s cols [] [0] = Ok (p, e)"
    "sort_blocks e [0..<length cols] p (replicate (subset_size s) (0, 0)) = Ok q"
    "if length cols = 1 then ps = q else merge_sorted_blocks_dedup q e = Ok ps"
    "build_subsets hash ps ci = Ok ci'"
  shows "ci_rebuild_full hash t s cols ci = Ok ci'"
proof (cases "length cols = 1")
  case True
  with assms(3,4) show ?thesis unfolding ci_rebuild_full_def assms(1) and_then_simps(2) case_prod_conv assms(2) by simp
next
  case False
  with assms(3) have "merge_sorted_blocks_dedup q e = Ok ps" by simp
  with False show ?thesis unfolding ci_rebuild_full_def assms(1) and_then_simps(2) case_prod_conv assms(2) using assms(4) by simp
qed

lemma rebuild_full_ok:
  assumes t: "readable t" "word_rows t" "cols \<noteq> []" "\<forall>c \<in> set cols. c < sw_columns t" "scan_within (length (sw_rows t)) s"
    and M: "64 * M \<le> u32_max" and ci: "ci_holds M hash ci T (\<lambda>v. [])" and room: "T + cell_count (scan_of t cols (rows s)) \<le> M"
  shows "\<exists>ci'. ci_rebuild_full hash t s cols ci = Ok ci' \<and> ci_log2 ci' = ci_log2 ci \<and>
    ci_holds M hash ci' (T + cell_count (scan_of t cols (rows s))) (\<lambda>v. rows_with (scan_of t cols (rows s)) v)"
proof -
  let ?bs = "map (col_pairs t (rows s)) cols" and ?scr = "replicate (subset_size s) (0, 0) :: index_pair list"
  let ?ss = "map (sort_key fst) ?bs" and ?N = "cell_count (scan_of t cols (rows s))"
  have small: "length (sw_rows t) \<le> u32_max" using t(1) by (simp add: readable_def)
  have col: "ascending (map snd (col_pairs t (rows s) c))" for c
    using scan_ascending [OF t(5) small] by (simp add: col_pairs_def comp_def)
  have "length (col_pairs t (rows s) c) \<le> subset_size s" for c
    using length_filter_le [of "sw_alive t" "rows s"] by (cases s) (auto simp: col_pairs_def subset_size_def range_size_def)
  then have blocks: "\<forall>b \<in> set ?bs. sorted (map snd b) \<and> length b \<le> length ?scr"
    using col by (auto simp: ascending_def strict_sorted_imp_sorted)
  have collect: "collect_blocks t s cols [] [0] = Ok (concat ?bs, ends_from 0 ?bs)" using collect_blocks_ok [OF t(1,4,5), of "[]"] by simp
  have sort: "sort_blocks (ends_from 0 ?bs) [0..<length cols] (concat ?bs) ?scr = Ok (concat ?ss)"
    using sort_blocks_ok [OF blocks, of 0] by simp
  have ord: "\<forall>b \<in> set ?ss. ordered b" using sorted_block_ordered col by auto
  have "\<exists>ps. ordered ps \<and> set ps = set (concat ?bs) \<and>
      (if length cols = 1 then ps = concat ?ss else merge_sorted_blocks_dedup (concat ?ss) (ends_from 0 ?bs) = Ok ps)"
  proof (cases "length cols = 1")
    case True
    then obtain c where "cols = [c]" by (cases cols) auto
    with ord show ?thesis by auto
  next
    case False
    have "?ss \<noteq> []" using t(3) by simp
    from merge_dedup_ok [OF this ord] obtain m where
      "merge_sorted_blocks_dedup (concat ?ss) (ends_from 0 ?ss) = Ok m" "ordered m" "set m = set (concat ?ss)" by blast
    moreover have "ends_from 0 ?ss = ends_from 0 ?bs" by (rule ends_from_cong) simp
    moreover have "set (concat ?ss) = set (concat ?bs)" by auto
    ultimately show ?thesis using False by auto
  qed
  then obtain ps where ps: "ordered ps" "set ps = set (concat ?bs)"
    "if length cols = 1 then ps = concat ?ss else merge_sorted_blocks_dedup (concat ?ss) (ends_from 0 ?bs) = Ok ps" by blast
  have "set ps = (\<Union>c \<in> set cols. set (col_pairs t (rows s) c))" using ps(2) by simp
  note bulk = bulk_pairs [OF t(1,2,4,5) ps(1) this]
  from build_subsets_ok [OF M ps(1) _ ci] bulk(2,3) room obtain ci' where
    1: "build_subsets hash ps ci = Ok ci'" "ci_log2 ci' = ci_log2 ci" "ci_holds M hash ci' (T + length ps) (\<lambda>v. pairs_with ps v)" by auto
  from this(3) have final: "ci_holds M hash ci' (T + ?N) (\<lambda>v. rows_with (scan_of t cols (rows s)) v)"
    unfolding bulk(1) by (rule ci_holds_mono) (use bulk(2) room in simp_all)
  have built: "ci_rebuild_full hash t s cols ci = Ok ci'"
    by (rule rebuild_full_steps [OF collect sort ps(3) 1(1)])
  from built 1(2) final show ?thesis by blast
qed

end
