(* ===== verification/IndexParallel.thy ===== *)
theory IndexParallel
  imports IndexBuild
begin

text \<open>
  The parallel construction of a column index, \<open>ColumnIndex::merge_parallel\<close> of
  \<open>egglog/core-relations/src/hash_index/mod.rs\<close>.  With many workers every partition of the scan is sorted by
  value and then by shard, and every shard merges its part of the partitions in their order; with few
  workers batches of rows are split by shard into queues, and every shard sorts its queue and adds the rows.
  The tasks share nothing but the queues, so the model runs them one after the other; the moment at which a
  task pushes to a queue is a parameter.
\<close>

section \<open>Model\<close>

subsection \<open>Sorted chunks\<close>

text \<open>A value repeated across the columns of a row maps the row only once.\<close>

fun pair_keys :: "nat \<Rightarrow> val list \<Rightarrow> val list \<Rightarrow> index_pair list \<Rightarrow> index_pair list" where
  "pair_keys row seen [] ps = ps"
| "pair_keys row seen (key # keys) ps =
     pair_keys row (seen @ [key]) keys (if key \<in> set seen then ps else ps @ [(word_of_nat key, row)])"

fun pair_rows :: "(nat \<times> val list) list \<Rightarrow> index_pair list \<Rightarrow> index_pair list" where
  "pair_rows [] ps = ps"
| "pair_rows ((row, keys) # es) ps = pair_rows es (pair_keys row [] keys ps)"

definition pair_shard :: "(val \<Rightarrow> full_hash) \<Rightarrow> nat \<Rightarrow> index_pair \<Rightarrow> nat" where
  "pair_shard hash log2 p = value_shard hash log2 (unat (fst p))"

fun count_shards :: "(val \<Rightarrow> full_hash) \<Rightarrow> nat \<Rightarrow> index_pair list \<Rightarrow> nat list \<Rightarrow> nat list result" where
  "count_shards hash log2 [] cnt = Ok cnt"
| "count_shards hash log2 (p # ps) cnt =
     (let k = pair_shard hash log2 p in and_then (vec_get cnt k) (\<lambda>n. count_shards hash log2 ps (cnt[k := n + 1])))"

fun start_sums :: "nat list \<Rightarrow> nat \<Rightarrow> nat list" where
  "start_sums [] acc = []"
| "start_sums (n # cnt) acc = acc # start_sums cnt (acc + n)"

fun place_pairs :: "(val \<Rightarrow> full_hash) \<Rightarrow> nat \<Rightarrow> index_pair list \<Rightarrow> nat list \<Rightarrow> index_pair list \<Rightarrow> (index_pair list \<times> nat list) result" where
  "place_pairs hash log2 [] nxt dst = Ok (dst, nxt)"
| "place_pairs hash log2 (p # ps) nxt dst =
     (let k = pair_shard hash log2 p in
      and_then (vec_get nxt k) (\<lambda>n. and_then (vec_set dst n p) (\<lambda>dst. place_pairs hash log2 ps (nxt[k := n + 1]) dst)))"

definition sort_index_chunk :: "(val \<Rightarrow> full_hash) \<Rightarrow> nat \<Rightarrow> index_pair list \<Rightarrow> (index_pair list \<times> (nat \<times> nat) list) result" where
  "sort_index_chunk hash log2 pairs =
     (if pairs = [] then Ok ([], replicate (2 ^ log2) (0, 0))
      else and_then (radix_sort pairs (replicate (length pairs) (0, 0))) (\<lambda>(pairs, scratch).
        let pairs = remdups_adj pairs in
        and_then (count_shards hash log2 pairs (replicate (2 ^ log2) 0)) (\<lambda>counts.
        let starts = start_sums counts 0 in
        and_then (place_pairs hash log2 pairs starts scratch) (\<lambda>(scratch, nxt).
          Ok (take (length pairs) scratch, zip starts nxt)))))"

definition min_coarse_rows :: nat where
  "min_coarse_rows = 256"

definition min_coarse_threads :: nat where
  "min_coarse_threads = 8"

definition div_ceil :: "nat \<Rightarrow> nat \<Rightarrow> nat" where
  "div_ceil n d = (n + d - 1) div d"

definition coarse_partition_size :: "nat \<Rightarrow> nat \<Rightarrow> nat" where
  "coarse_partition_size scan workers = max (div_ceil scan (max workers 1)) min_coarse_rows"

definition subset_partition :: "subset \<Rightarrow> nat \<Rightarrow> nat \<Rightarrow> subset result" where
  "subset_partition s lo hi =
     (case s of
        Dense r \<Rightarrow> and_then (from_usize_u32 (range_start r + lo)) (\<lambda>b. and_then (from_usize_u32 (range_start r + hi)) (\<lambda>e. Ok (Dense (range_new b e))))
      | Sparse v \<Rightarrow> and_then (vec_slice v lo hi) (\<lambda>v. Ok (Sparse v)))"

text \<open>\<open>ColumnIndexShard::merge_sorted_pairs\<close>: the runs of equal values.\<close>

definition shard_merge_run :: "val \<Rightarrow> nat list \<Rightarrow> column_shard \<Rightarrow> column_shard result" where
  "shard_merge_run key rs sh =
     and_then (case map_of (cs_table sh) key of
         Some s \<Rightarrow> bs_merge_sorted s rs (cs_subsets sh)
       | None \<Rightarrow> bs_from_sorted rs (cs_subsets sh))
       (\<lambda>(s, sb). Ok \<lparr>cs_table = AList.update key s (cs_table sh), cs_subsets = sb\<rparr>)"

function shard_merge_pairs :: "index_pair list \<Rightarrow> column_shard \<Rightarrow> column_shard result" where
  "shard_merge_pairs [] sh = Ok sh"
| "shard_merge_pairs ((key, row) # ps) sh =
     and_then (shard_merge_run (unat key) (row # map snd (takeWhile (\<lambda>p. fst p = key) ps)) sh)
       (shard_merge_pairs (dropWhile (\<lambda>p. fst p = key) ps))"
  by pat_completeness auto
termination
  by (relation "measure (\<lambda>(ps, sh). length ps)") (auto simp: le_imp_less_Suc length_dropWhile_le)

fun merge_chunks :: "(index_pair list \<times> (nat \<times> nat) list) list \<Rightarrow> nat \<Rightarrow> column_shard \<Rightarrow> column_shard result" where
  "merge_chunks [] k sh = Ok sh"
| "merge_chunks ((pairs, ranges) # cs) k sh =
     and_then (vec_get ranges k) (\<lambda>(lo, hi). and_then (vec_slice pairs lo hi) (\<lambda>run.
       and_then (shard_merge_pairs run sh) (merge_chunks cs k)))"

text \<open>The task of one partition, and the coarse path: the partitions, then the shards.\<close>

definition coarse_chunk :: "(val \<Rightarrow> full_hash) \<Rightarrow> nat \<Rightarrow> sorted_table \<Rightarrow> subset \<Rightarrow> nat list \<Rightarrow> nat \<Rightarrow> nat \<Rightarrow>
    (index_pair list \<times> (nat \<times> nat) list) result" where
  "coarse_chunk hash log2 t s cols lo hi =
     and_then (subset_partition s lo hi) (\<lambda>part.
     and_then (sw_scan_project t part cols 0 (2 ^ 64 - 1) []) (\<lambda>(es, _). sort_index_chunk hash log2 (pair_rows es [])))"

definition merge_coarse :: "(val \<Rightarrow> full_hash) \<Rightarrow> nat \<Rightarrow> sorted_table \<Rightarrow> subset \<Rightarrow> nat list \<Rightarrow> column_index \<Rightarrow> column_index result" where
  "merge_coarse hash workers t s cols ci =
     (let size = subset_size s; part = coarse_partition_size size workers in
      and_then (map_result (\<lambda>p. coarse_chunk hash (ci_log2 ci) t s cols (p * part) (min (p * part + part) size)) [0..<div_ceil size part]) (\<lambda>chunks.
      and_then (map_result (\<lambda>(k, sh). merge_chunks chunks k sh) (enumerate 0 (ci_shards ci))) (\<lambda>shards.
        Ok (ci\<lparr>ci_shards := shards\<rparr>))))"

subsection \<open>Queues\<close>

partial_function (option) scan_batches :: "sorted_table \<Rightarrow> subset \<Rightarrow> nat list \<Rightarrow> nat \<Rightarrow> tagged_buffer list \<Rightarrow> tagged_buffer list comp" where
  "scan_batches t s cols cur bufs =
     run_then (Some (tag_new (length cols))) (\<lambda>buf.
     run_then (Some (sw_scan_project t s cols cur 1024 [])) (\<lambda>(es, nxt).
     run_then (Some (tag_add_all es buf)) (\<lambda>buf.
       case nxt of
         None \<Rightarrow> Some (Ok (bufs @ [buf]))
       | Some cur \<Rightarrow> scan_batches t s cols cur (bufs @ [buf]))))"

text \<open>\<open>split_buf\<close>: one buffer for every shard.\<close>

fun split_keys :: "(val \<Rightarrow> full_hash) \<Rightarrow> nat \<Rightarrow> nat \<Rightarrow> val list \<Rightarrow> val list \<Rightarrow> tagged_buffer list \<Rightarrow> tagged_buffer list result" where
  "split_keys hash log2 row seen [] split = Ok split"
| "split_keys hash log2 row seen (key # keys) split =
     (if key \<in> set seen then split_keys hash log2 row (seen @ [key]) keys split
      else
        let k = value_shard hash log2 key in
        and_then (vec_get split k) (\<lambda>b. and_then (tag_add_row b row [key]) (\<lambda>(_, b).
          split_keys hash log2 row (seen @ [key]) keys (split[k := b]))))"

fun split_rows :: "(val \<Rightarrow> full_hash) \<Rightarrow> nat \<Rightarrow> (nat \<times> row) list \<Rightarrow> tagged_buffer list \<Rightarrow> tagged_buffer list result" where
  "split_rows hash log2 [] split = Ok split"
| "split_rows hash log2 ((row, keys) # es) split = and_then (split_keys hash log2 row [] keys split) (split_rows hash log2 es)"

definition split_buf :: "(val \<Rightarrow> full_hash) \<Rightarrow> nat \<Rightarrow> tagged_buffer \<Rightarrow> tagged_buffer list result" where
  "split_buf hash log2 buf =
     and_then (tag_new 1) (\<lambda>fresh. and_then (tag_iter buf) (\<lambda>es. split_rows hash log2 es (replicate (2 ^ log2) fresh)))"

text \<open>
  The queue of a shard: the task \<open>j\<close> pushes its buffer, unless it is empty, at the moment \<open>moment j k\<close>.
  Before the rows are added the queue is sorted by the first row of every buffer.
\<close>

definition queue_of :: "(nat \<Rightarrow> nat \<Rightarrow> nat) \<Rightarrow> tagged_buffer list list \<Rightarrow> nat \<Rightarrow> (nat \<times> tagged_buffer) list result" where
  "queue_of moment splits k =
     and_then (map_result (\<lambda>(j, split). and_then (vec_get split k) (\<lambda>b.
         if tag_is_empty b then Ok []
         else and_then (tag_get_row b 0) (\<lambda>(first, _). Ok [(moment j k, first, b)]))) (enumerate 0 splits))
       (\<lambda>pushes. Ok (map snd (sort_key fst (concat pushes))))"

definition shard_fill_row :: "val \<Rightarrow> nat \<Rightarrow> column_shard \<Rightarrow> column_shard result" where
  "shard_fill_row key row sh =
     and_then (case map_of (cs_table sh) key of
         Some s \<Rightarrow> bs_add_row_sorted s row (cs_subsets sh)
       | None \<Rightarrow> and_then (bs_singleton row) (\<lambda>s. Ok (s, cs_subsets sh)))
       (\<lambda>(s, sb). Ok \<lparr>cs_table = AList.update key s (cs_table sh), cs_subsets = sb\<rparr>)"

fun shard_fill_rows :: "(nat \<times> row) list \<Rightarrow> column_shard \<Rightarrow> column_shard result" where
  "shard_fill_rows [] sh = Ok sh"
| "shard_fill_rows ((row, key) # es) sh = and_then (vec_get key 0) (\<lambda>v. and_then (shard_fill_row v row sh) (shard_fill_rows es))"

fun shard_drain :: "(nat \<times> tagged_buffer) list \<Rightarrow> column_shard \<Rightarrow> column_shard result" where
  "shard_drain [] sh = Ok sh"
| "shard_drain ((_, buf) # q) sh = and_then (tag_iter buf) (\<lambda>es. and_then (shard_fill_rows es sh) (shard_drain q))"

definition merge_fine :: "(val \<Rightarrow> full_hash) \<Rightarrow> (nat \<Rightarrow> nat \<Rightarrow> nat) \<Rightarrow> sorted_table \<Rightarrow> subset \<Rightarrow> nat list \<Rightarrow> column_index \<Rightarrow> column_index comp" where
  "merge_fine hash moment t s cols ci =
     run_then (scan_batches t s cols 0 []) (\<lambda>bufs.
       Some (and_then (map_result (split_buf hash (ci_log2 ci)) bufs) (\<lambda>splits.
         and_then (map_result (\<lambda>(k, sh). and_then (queue_of moment splits k) (\<lambda>q. shard_drain (sort_key fst q) sh)) (enumerate 0 (ci_shards ci)))
           (\<lambda>shards. Ok (ci\<lparr>ci_shards := shards\<rparr>)))))"

definition ci_merge_parallel :: "(val \<Rightarrow> full_hash) \<Rightarrow> nat \<Rightarrow> (nat \<Rightarrow> nat \<Rightarrow> nat) \<Rightarrow> nat list \<Rightarrow> sorted_table \<Rightarrow> subset \<Rightarrow> column_index \<Rightarrow> column_index comp" where
  "ci_merge_parallel hash workers moment cols t s ci =
     (if min_coarse_threads \<le> workers then Some (merge_coarse hash workers t s cols ci) else merge_fine hash moment t s cols ci)"

section \<open>The entries of a scan\<close>

text \<open>The values of a row without repetitions, and the pairs of a row and a value that a scan gives.\<close>

fun firsts :: "val list \<Rightarrow> val list \<Rightarrow> val list" where
  "firsts seen [] = []"
| "firsts seen (key # keys) = (if key \<in> set seen then firsts (seen @ [key]) keys else key # firsts (seen @ [key]) keys)"

definition entries_of :: "(nat \<times> val list) list \<Rightarrow> (nat \<times> val) list" where
  "entries_of es = concat (map (\<lambda>(i, vs). map (Pair i) (firsts [] vs)) es)"

lemma firsts_set: "set (firsts seen keys) = set keys - set seen"
  by (induction seen keys rule: firsts.induct) auto

lemma firsts_distinct: "distinct (firsts seen keys)"
  by (induction seen keys rule: firsts.induct) (auto simp: firsts_set)

lemma firsts_length: "length (firsts seen keys) \<le> length keys"
  by (induction seen keys rule: firsts.induct) auto

lemma distinct_filter_one: "distinct xs \<Longrightarrow> filter (\<lambda>w. w = v) xs = (if v \<in> set xs then [v] else [])"
  by (induction xs) (auto simp: filter_empty_conv)

lemma entries_simps [simp]:
  "entries_of [] = []" "entries_of ((i, vs) # es) = map (Pair i) (firsts [] vs) @ entries_of es" "entries_of (es @ fs) = entries_of es @ entries_of fs"
  by (simp_all add: entries_of_def)

lemma entries_rows: "map fst (filter (\<lambda>e. snd e = v) (entries_of es)) = rows_with es v"
proof (induction es)
  case (Cons e es)
  obtain i vs where e: "e = (i, vs)" by (cases e)
  have "filter (\<lambda>w. w = v) (firsts [] vs) = (if v \<in> set vs then [v] else [])"
    using distinct_filter_one [OF firsts_distinct [of "[]" vs], of v] by (simp add: firsts_set)
  then have "map fst (filter (\<lambda>e. snd e = v) (map (Pair i) (firsts [] vs))) = (if v \<in> set vs then [i] else [])"
    by (simp add: filter_map comp_def)
  with Cons e show ?case by simp
qed simp

lemma entries_count: "length (entries_of es) \<le> cell_count es"
proof (induction es)
  case (Cons e es)
  obtain i vs where e: "e = (i, vs)" by (cases e)
  with Cons firsts_length [of "[]" vs] show ?case by (simp add: add_mono)
qed simp

lemma pair_rows_entries: "pair_rows es ps = ps @ map (\<lambda>(i, v). (word_of_nat v, i)) (entries_of es)"
proof (induction es ps rule: pair_rows.induct)
  case (2 row keys es ps)
  have "pair_keys row seen keys qs = qs @ map (\<lambda>v. (word_of_nat v, row)) (firsts seen keys)" for seen keys qs
    by (induction row seen keys qs rule: pair_keys.induct) auto
  with 2 show ?case by (simp add: comp_def)
qed simp

text \<open>The rows of a scan come in order.\<close>

lemma entries_order:
  "sorted_wrt (<) (map fst es) \<Longrightarrow> sorted (map fst (entries_of es)) \<and> distinct (entries_of es)"
proof (induction es)
  case (Cons e es)
  obtain i vs where e: "e = (i, vs)" by (cases e)
  have in_es: "fst ` set (entries_of es) \<subseteq> fst ` set es" by (force simp: entries_of_def)
  have later: "\<forall>j \<in> fst ` set es. i < j" using Cons.prems e by auto
  have "sorted (map fst (map (Pair i) (firsts [] vs)))" by (simp add: comp_def map_replicate_const)
  moreover have "distinct (map (Pair i) (firsts [] vs))" using firsts_distinct by (simp add: distinct_map inj_on_def)
  moreover have "set (map (Pair i) (firsts [] vs)) \<inter> set (entries_of es) = {}" using in_es later by force
  moreover have "\<forall>j \<in> fst ` set (entries_of es). i \<le> j" using in_es later by (meson less_imp_le subset_iff)
  ultimately show ?case using Cons e by (fastforce simp: sorted_append)
qed simp

section \<open>Chunks\<close>

definition small_values :: "(nat \<times> val list) list \<Rightarrow> bool" where
  "small_values es \<longleftrightarrow> (\<forall>(i, vs) \<in> set es. \<forall>v \<in> set vs. v \<le> u32_max)"

abbreviation pairs_of :: "(nat \<times> val list) list \<Rightarrow> index_pair list" where
  "pairs_of es \<equiv> map (\<lambda>(i, v). (word_of_nat v, i)) (entries_of es)"

lemma entries_small: "small_values es \<Longrightarrow> (i, v) \<in> set (entries_of es) \<Longrightarrow> v \<le> u32_max"
  by (fastforce simp: entries_of_def firsts_set small_values_def)

lemma pairs_of_rows:
  assumes "small_values es"
  shows "pairs_with (pairs_of es) v = rows_with es v"
proof -
  have "filter (\<lambda>(w, i). unat w = v) (pairs_of es) = map (\<lambda>(i, v). (word_of_nat v, i)) (filter (\<lambda>(i, w). unat (word_of_nat w :: rep) = v) (entries_of es))"
    by (simp add: filter_map comp_def case_prod_unfold)
  also have "filter (\<lambda>(i, w). unat (word_of_nat w :: rep) = v) (entries_of es) = filter (\<lambda>e. snd e = v) (entries_of es)"
    using entries_small [OF assms] unat_value by (intro filter_cong) auto
  finally show ?thesis using entries_rows [of v es] by (simp add: pairs_with_def comp_def case_prod_unfold)
qed

lemma pairs_of_order:
  assumes "sorted_wrt (<) (map fst es)" "small_values es"
  shows "sorted (map snd (pairs_of es))" "distinct (pairs_of es)" "ordered (sort_key fst (pairs_of es))"
proof -
  note e = conjunct1 [OF entries_order [OF assms(1)]] conjunct2 [OF entries_order [OF assms(1)]]
  have "map snd (pairs_of es) = map fst (entries_of es)" by (simp add: case_prod_unfold comp_def)
  with e(1) show s: "sorted (map snd (pairs_of es))" by metis
  have "inj_on (\<lambda>(i, v). (word_of_nat v :: rep, i)) (set (entries_of es))"
  proof -
    have "v = w" if "(i, v) \<in> set (entries_of es)" "(i, w) \<in> set (entries_of es)" "word_of_nat v = (word_of_nat w :: rep)" for i v w
      using that unat_value [of v] unat_value [of w] entries_small [OF assms(2)] by metis
    then show ?thesis by (auto simp: inj_on_def)
  qed
  with e(2) show d: "distinct (pairs_of es)" by (simp add: distinct_map)
  have "sorted (sort (pairs_of es))" "distinct (sort (pairs_of es))" using d by simp_all
  then show "ordered (sort_key fst (pairs_of es))" unfolding sort_pairs [OF s] by (simp add: strict_sorted_iff)
qed

lemma pairs_with_sort: "pairs_with (sort_key fst ps) v = pairs_with ps v"
proof (cases "\<exists>w :: rep. unat w = v")
  case True
  then obtain w :: rep where "v = unat w" by blast
  then have "(\<lambda>(u, i). unat u = v) = (\<lambda>p :: index_pair. fst p = w)" by (auto simp: fun_eq_iff simp flip: word_unat_eq_iff)
  with sort_key_stable [of fst w ps] show ?thesis by (simp add: pairs_with_def)
qed (auto simp: pairs_with_def filter_empty_conv)

text \<open>The pass over the shards is a bucket sort.\<close>

lemma count_shards_ok:
  "\<forall>p \<in> set ps. pair_shard hash log2 p < length cnt \<Longrightarrow>
   \<exists>cnt'. count_shards hash log2 ps cnt = Ok cnt' \<and> length cnt' = length cnt \<and>
     (\<forall>b < length cnt. cnt' ! b = cnt ! b + length (bucket (pair_shard hash log2) ps b))"
proof (induction ps arbitrary: cnt)
  case (Cons p ps)
  let ?b = "pair_shard hash log2 p"
  from Cons.IH [of "cnt[?b := cnt ! ?b + 1]"] Cons.prems obtain cnt' where
    "count_shards hash log2 ps (cnt[?b := cnt ! ?b + 1]) = Ok cnt'" "length cnt' = length cnt"
    "\<forall>b < length cnt. cnt' ! b = cnt[?b := cnt ! ?b + 1] ! b + length (bucket (pair_shard hash log2) ps b)" by auto
  with Cons.prems show ?case by (auto simp: bucket_def Let_def nth_list_update)
qed (simp add: bucket_def)

lemma start_sums_length [simp]: "length (start_sums cnt acc) = length cnt"
  by (induction cnt acc rule: start_sums.induct) simp_all

lemma start_sums_nth: "b < length cnt \<Longrightarrow> start_sums cnt acc ! b = acc + sum_list (take b cnt)"
  by (induction cnt acc arbitrary: b rule: start_sums.induct) (auto simp: nth_Cons' take_Cons' split: if_splits)

lemma start_sums_starts:
  assumes "\<forall>b < length cnt. cnt ! b = length (bucket key xs b)" "b < length cnt"
  shows "start_sums cnt 0 ! b = bucket_start key xs b"
proof -
  have "b \<le> length cnt \<Longrightarrow> sum_list (take b cnt) = bucket_start key xs b" for b
  proof (induction b)
    case (Suc b)
    with assms(1) show ?case by (simp add: take_Suc_conv_app_nth bucket_start_Suc)
  qed (simp add: bucket_start_def)
  with assms(2) show ?thesis by (simp add: start_sums_nth)
qed

lemma place_pairs_ok:
  assumes "key = pair_shard hash log2" "\<forall>p \<in> set src. key p < n"
  shows "src = pre @ ps \<Longrightarrow> length nxt = n \<Longrightarrow> \<forall>b < n. nxt ! b = bucket_start key src b + length (bucket key pre b) \<Longrightarrow>
    length dst = length src \<Longrightarrow> placed key src pre n dst \<Longrightarrow>
    \<exists>dst' nxt'. place_pairs hash log2 ps nxt dst = Ok (dst', nxt') \<and> length dst' = length src \<and> placed key src src n dst' \<and>
      length nxt' = n \<and> (\<forall>b < n. nxt' ! b = bucket_start key src (Suc b))"
proof (induction ps arbitrary: pre nxt dst)
  case (Cons p ps)
  let ?b = "key p"
  let ?pos = "bucket_start key src ?b + length (bucket key pre ?b)"
  have b: "?b < n" using Cons.prems(1) assms(2) by simp
  note nx = placed_next [OF Cons.prems(5,1,4)]
  have c: "nxt ! ?b = ?pos" using Cons.prems(3) b by simp
  have run: "place_pairs hash log2 (p # ps) nxt dst = place_pairs hash log2 ps (nxt[?b := ?pos + 1]) (dst[?pos := p])"
    using b c Cons.prems(2,4) nx(1) assms(1) by (simp add: Let_def)
  have "\<forall>c < n. nxt[?b := ?pos + 1] ! c = bucket_start key src c + length (bucket key (pre @ [p]) c)"
    using Cons.prems(2,3) by (auto simp: nth_list_update_if bucket_def)
  from Cons.IH [OF _ _ this _ nx(2)] Cons.prems(1,2,4) run show ?case by simp
qed (auto simp: placed_def bucket_start_Suc)

lemma buckets_slice:
  assumes "k < n"
  shows "vec_slice (buckets_upto key xs n) (bucket_start key xs k) (bucket_start key xs (Suc k)) = Ok (bucket key xs k)"
proof -
  have le: "bucket_start key xs (Suc k) \<le> bucket_start key xs n" using assms by (intro bucket_start_mono) simp
  have "take (length (bucket key xs k)) (drop (bucket_start key xs k) (buckets_upto key xs n)) = bucket key xs k"
    by (rule nth_equalityI) (use le buckets_upto_nth [OF assms, of _ key xs] in \<open>simp_all add: buckets_upto_length bucket_start_Suc\<close>)
  with le show ?thesis by (simp add: vec_slice_def buckets_upto_length bucket_start_Suc)
qed

text \<open>\<open>chunk_of log2 hash ps c\<close>: the range of every shard in the chunk has its pairs, sorted.\<close>

definition chunk_of :: "(val \<Rightarrow> full_hash) \<Rightarrow> nat \<Rightarrow> index_pair list \<Rightarrow> index_pair list \<times> (nat \<times> nat) list \<Rightarrow> bool" where
  "chunk_of hash log2 ps c \<longleftrightarrow> length (snd c) = 2 ^ log2 \<and>
     (\<forall>k < 2 ^ log2. vec_slice (fst c) (fst (snd c ! k)) (snd (snd c ! k)) = Ok (filter (\<lambda>p. pair_shard hash log2 p = k) (sort_key fst ps)))"

lemma sort_index_chunk_ok:
  assumes "log2 < 64" "sorted (map snd ps)" "distinct ps"
  shows "\<exists>c. sort_index_chunk hash log2 ps = Ok c \<and> chunk_of hash log2 ps c"
proof (cases "ps = []")
  case True
  then show ?thesis by (simp add: sort_index_chunk_def chunk_of_def)
next
  case False
  let ?key = "pair_shard hash log2" and ?n = "2 ^ log2 :: nat" and ?qs = "sort_key fst ps"
  have small: "\<forall>p \<in> set ?qs. ?key p < ?n" by (simp add: pair_shard_def value_shard_bound [OF assms(1)])
  obtain scr where sort: "radix_sort ps (replicate (length ps) (0, 0)) = Ok (?qs, scr)" "length scr = length ps"
    using radix_sorts [OF assms(2), of "replicate (length ps) (0, 0)"] by auto
  have dedup: "remdups_adj ?qs = ?qs" using assms(3) by (intro remdups_adj_distinct) simp
  obtain cnt where cnt: "count_shards hash log2 ?qs (replicate ?n 0) = Ok cnt" "length cnt = ?n"
    "\<forall>b < ?n. cnt ! b = length (bucket ?key ?qs b)"
    using count_shards_ok [of ?qs hash log2 "replicate ?n 0"] small by auto
  then have starts: "\<forall>b < ?n. start_sums cnt 0 ! b = bucket_start ?key ?qs b" using start_sums_starts [of cnt ?key ?qs] by simp
  have "placed ?key ?qs [] ?n scr" by (simp add: placed_def bucket_def)
  moreover have "\<forall>b < ?n. start_sums cnt 0 ! b = bucket_start ?key ?qs b + length (bucket ?key [] b)" using starts by (simp add: bucket_def)
  ultimately obtain dst nxt where
    place: "place_pairs hash log2 ?qs (start_sums cnt 0) scr = Ok (dst, nxt)" "length dst = length ?qs" "placed ?key ?qs ?qs ?n dst"
    "length nxt = ?n" "\<forall>b < ?n. nxt ! b = bucket_start ?key ?qs (Suc b)"
    using place_pairs_ok [OF refl small, of "[]" ?qs "start_sums cnt 0" scr] cnt(2) sort(2) by auto
  have "dst = buckets_upto ?key ?qs ?n" using placed_sorted [OF place(3,2) small] sort_key_buckets [OF small] by simp
  then have "chunk_of hash log2 ps (dst, zip (start_sums cnt 0) nxt)"
    using cnt(2) place(4,5) starts buckets_slice [of _ ?n ?key ?qs] by (simp add: chunk_of_def bucket_def)
  moreover have "sort_index_chunk hash log2 ps = Ok (dst, zip (start_sums cnt 0) nxt)"
    using False sort(1) dedup cnt(1) place(1,2) by (simp add: sort_index_chunk_def Let_def)
  ultimately show ?thesis by blast
qed

section \<open>Shards\<close>

lemma map_result_exists:
  "(\<And>x. x \<in> set xs \<Longrightarrow> \<exists>y. f x = Ok y \<and> P x y) \<Longrightarrow> \<exists>ys. map_result f xs = Ok ys \<and> list_all2 P xs ys"
proof (induction xs)
  case (Cons x xs)
  then obtain y ys where "f x = Ok y" "P x y" "map_result f xs = Ok ys" "list_all2 P xs ys" by force
  then show ?case by auto
qed simp

text \<open>The shards are independent.\<close>

lemma each_shard_ok:
  assumes "\<And>k. k < length xs \<Longrightarrow> \<exists>y. F k (xs ! k) = Ok y \<and> P k y"
  shows "\<exists>ys. map_result (\<lambda>(k, x). F k x) (enumerate 0 xs) = Ok ys \<and> length ys = length xs \<and> (\<forall>k < length xs. P k (ys ! k))"
proof -
  have "\<exists>y. (case x of (k, x) \<Rightarrow> F k x) = Ok y \<and> P (fst x) y" if "x \<in> set (enumerate 0 xs)" for x
    using that assms [of "fst x"] by (auto simp: in_set_enumerate_eq case_prod_unfold)
  then have "\<exists>ys. map_result (\<lambda>(k, x). F k x) (enumerate 0 xs) = Ok ys \<and> list_all2 (\<lambda>x. P (fst x)) (enumerate 0 xs) ys"
    by (rule map_result_exists)
  then show ?thesis by (auto simp: list_all2_conv_all_nth nth_enumerate_eq)
qed

lemma all_shards_ok:
  assumes ci: "ci_holds M hash ci T f" and T: "T' \<le> M"
    and step: "\<And>k sh. k < 2 ^ ci_log2 ci \<Longrightarrow> shard_holds M sh (in_shard_of hash (ci_log2 ci) k f) \<Longrightarrow> table_rows (cs_table sh) (in_shard_of hash (ci_log2 ci) k f) \<le> T \<Longrightarrow>
      \<exists>sh'. F k sh = Ok sh' \<and> shard_holds M sh' (in_shard_of hash (ci_log2 ci) k f') \<and> table_rows (cs_table sh') (in_shard_of hash (ci_log2 ci) k f') \<le> T'"
  shows "\<exists>shards. map_result (\<lambda>(k, sh). F k sh) (enumerate 0 (ci_shards ci)) = Ok shards \<and> ci_holds M hash (ci\<lparr>ci_shards := shards\<rparr>) T' f'"
proof -
  have "\<exists>shards. map_result (\<lambda>(k, sh). F k sh) (enumerate 0 (ci_shards ci)) = Ok shards \<and> length shards = length (ci_shards ci) \<and>
      (\<forall>k < length (ci_shards ci). shard_holds M (shards ! k) (in_shard_of hash (ci_log2 ci) k f') \<and>
        table_rows (cs_table (shards ! k)) (in_shard_of hash (ci_log2 ci) k f') \<le> T')"
    by (rule each_shard_ok) (use step ci in \<open>simp add: ci_holds_def\<close>)
  with ci T show ?thesis by (auto simp: ci_holds_def)
qed

text \<open>Merging a run behind the rows of a value.\<close>

lemma shard_merge_run_ok:
  assumes sh: "shard_holds M sh g" and M: "64 * M \<le> u32_max" and asc: "ascending (g v @ rs)" "rs \<noteq> []"
    and room: "table_rows (cs_table sh) g + length rs \<le> M"
  shows "\<exists>sh'. shard_merge_run v rs sh = Ok sh' \<and> shard_holds M sh' (g(v := g v @ rs)) \<and>
    table_rows (cs_table sh') (g(v := g v @ rs)) = table_rows (cs_table sh) g + length rs"
proof -
  let ?sb = "cs_subsets sh" and ?s = "case map_of (cs_table sh) v of None \<Rightarrow> bs_empty | Some s \<Rightarrow> s"
  from shard_entry [OF sh, of v] obtain live where
    e: "sb_wf M ?sb (bs_live ?s + live)" "if g v = [] then ?s = bs_empty else bs_subset ?sb ?s = subset_of (g v)"
    "rows_in live + length (g v) \<le> table_rows (cs_table sh) g"
    "\<And>rs s' sb'. ascending rs \<Longrightarrow> rs \<noteq> [] \<Longrightarrow> bs_stored M ?sb live sb' s' (subset_of rs) \<Longrightarrow>
       shard_holds M \<lparr>cs_table = AList.update v s' (cs_table sh), cs_subsets = sb'\<rparr> (g(v := rs)) \<and>
       table_rows (AList.update v s' (cs_table sh)) (g(v := rs)) + length (g v) = table_rows (cs_table sh) g + length rs" by blast
  have "\<exists>s' sb'. (case map_of (cs_table sh) v of Some s \<Rightarrow> bs_merge_sorted s rs ?sb | None \<Rightarrow> bs_from_sorted rs ?sb) = Ok (s', sb') \<and>
      bs_stored M ?sb live sb' s' (subset_of (g v @ rs))"
  proof (cases "map_of (cs_table sh) v")
    case None
    then have "g v = []" using shard_holdsD(1) [OF sh, of v] by simp
    moreover have "sb_wf M ?sb live" using e(1) None by (simp add: bs_empty_def)
    ultimately show ?thesis using bs_from_sorted_ok [of M ?sb live rs] M asc e(3) room None by simp
  next
    case (Some s)
    then have "g v \<noteq> []" using shard_holdsD(1) [OF sh, of v] by auto
    then show ?thesis using bs_merge_sorted_ok [of M ?sb s live "g v" rs] M asc e(1-3) room Some by simp
  qed
  then obtain s' sb' where
    1: "(case map_of (cs_table sh) v of Some s \<Rightarrow> bs_merge_sorted s rs ?sb | None \<Rightarrow> bs_from_sorted rs ?sb) = Ok (s', sb')"
    "bs_stored M ?sb live sb' s' (subset_of (g v @ rs))" by blast
  from e(4) [OF asc(1) _ 1(2)] asc(2) 1(1) show ?thesis by (simp add: shard_merge_run_def)
qed

lemma shard_merge_pairs_ok:
  assumes M: "64 * M \<le> u32_max"
  shows "ordered ps \<Longrightarrow> \<forall>(w, i) \<in> set ps. i < u32_max \<and> (\<forall>j \<in> set (g (unat w)). j < i) \<Longrightarrow> shard_holds M sh g \<Longrightarrow>
    table_rows (cs_table sh) g + length ps \<le> M \<Longrightarrow>
    \<exists>sh'. shard_merge_pairs ps sh = Ok sh' \<and> shard_holds M sh' (\<lambda>v. g v @ pairs_with ps v) \<and>
      table_rows (cs_table sh') (\<lambda>v. g v @ pairs_with ps v) = table_rows (cs_table sh) g + length ps"
proof (induction ps sh arbitrary: g rule: shard_merge_pairs.induct)
  case (2 key row ps sh)
  let ?run = "takeWhile (\<lambda>p. fst p = key) ps" and ?rest = "dropWhile (\<lambda>p. fst p = key) ps" and ?v = "unat key"
  let ?rs = "row # map snd ?run"
  have split: "(key, row) # ps = ((key, row) # ?run) @ ?rest" by simp
  note parts = run_split [OF "2.prems"(1)]
  have same: "(\<lambda>(w, i). unat w = ?v) = (\<lambda>(w :: rep, i :: nat). w = key)" by (simp add: fun_eq_iff flip: word_unat_eq_iff)
  have rs: "?rs = pairs_with ((key, row) # ps) ?v" unfolding pairs_with_def same parts(1) by simp
  have asc: "ascending ?rs" unfolding rs by (rule pairs_with_ascending [OF "2.prems"(1)]) (use "2.prems"(2) in auto)
  have above: "\<forall>i \<in> set ?rs. \<forall>j \<in> set (g ?v). j < i"
    using "2.prems"(2) unfolding rs by (auto simp: pairs_with_def)
  have asc': "ascending (g ?v @ ?rs)"
    using asc above shard_holdsD(5) [OF "2.prems"(3), of ?v] by (auto simp: ascending_def sorted_wrt_append)
  have total: "length ((key, row) # ps) = length ?rs + length ?rest" by (subst split) (simp only: length_append length_Cons length_map)
  define g1 where "g1 = g(?v := g ?v @ ?rs)"
  have g1: "g1 ?v = g ?v @ ?rs" "\<And>w. w \<noteq> ?v \<Longrightarrow> g1 w = g w" by (simp_all add: g1_def)
  have "table_rows (cs_table sh) g + length ?rs \<le> M" using total "2.prems"(4) by linarith
  from shard_merge_run_ok [OF "2.prems"(3) M asc' _ this, folded g1_def] obtain sh1 where
    1: "shard_merge_run ?v ?rs sh = Ok sh1" "shard_holds M sh1 g1" "table_rows (cs_table sh1) g1 = table_rows (cs_table sh) g + length ?rs" by blast
  have "\<forall>(w, i) \<in> set ?rest. i < u32_max \<and> (\<forall>j \<in> set (g1 (unat w)). j < i)"
  proof clarify
    fix w i assume wi: "(w, i) \<in> set ?rest"
    then have "(w, i) \<in> set ps" by (rule set_dropWhileD)
    moreover have "unat w \<noteq> ?v" using parts(2) wi by (auto simp flip: word_unat_eq_iff)
    ultimately show "i < u32_max \<and> (\<forall>j \<in> set (g1 (unat w)). j < i)" using "2.prems"(2) g1(2) by auto
  qed
  from "2.IH" [OF 1(1) parts(3) this 1(2)] 1(3) total "2.prems"(4) obtain sh' where
    2: "shard_merge_pairs ?rest sh1 = Ok sh'" "shard_holds M sh' (\<lambda>v. g1 v @ pairs_with ?rest v)"
    "table_rows (cs_table sh') (\<lambda>v. g1 v @ pairs_with ?rest v) = table_rows (cs_table sh) g + length ?rs + length ?rest" by auto
  have "g1 v @ pairs_with ?rest v = g v @ pairs_with ((key, row) # ps) v" for v
  proof (cases "v = ?v")
    case True
    have "pairs_with ?rest ?v = []" using parts(2) by (auto simp: pairs_with_def filter_empty_conv simp flip: word_unat_eq_iff)
    with True rs g1(1) show ?thesis by simp
  next
    case False
    have "pairs_with ((key, row) # ?run) v = []" using False by (auto simp: pairs_with_def filter_empty_conv dest: set_takeWhileD)
    moreover have "pairs_with ((key, row) # ps) v = pairs_with ((key, row) # ?run) v @ pairs_with ?rest v"
      by (subst split) (simp only: pairs_with_def filter_append map_append)
    ultimately show ?thesis using False g1(2) by simp
  qed
  then have "(\<lambda>v. g1 v @ pairs_with ?rest v) = (\<lambda>v. g v @ pairs_with ((key, row) # ps) v)" by blast
  with 1(1) 2 total show ?case by simp
qed (simp add: pairs_with_def)

section \<open>The coarse path\<close>

lemma shard_part:
  "pairs_with (filter (\<lambda>p. pair_shard hash log2 p = k) ps) v = in_shard_of hash log2 k (pairs_with ps) v"
proof (cases "value_shard hash log2 v = k")
  case True
  then have "filter (\<lambda>(w, i). unat w = v) (filter (\<lambda>p. pair_shard hash log2 p = k) ps) = filter (\<lambda>(w, i). unat w = v) ps"
    by (auto simp: filter_filter pair_shard_def intro!: filter_cong)
  with True show ?thesis by (simp add: pairs_with_def in_shard_of_def)
next
  case False
  then show ?thesis by (auto simp: pairs_with_def in_shard_of_def filter_empty_conv pair_shard_def)
qed

lemma in_shard_append: "(\<lambda>v. in_shard_of hash log2 k f v @ in_shard_of hash log2 k g v) = in_shard_of hash log2 k (\<lambda>v. f v @ g v)"
  by (simp add: in_shard_of_def fun_eq_iff)

lemma chunk_merge_ok:
  assumes M: "64 * M \<le> u32_max" and es: "small_values es" "scan_fits f es"
    and sh: "shard_holds M sh (in_shard_of hash log2 k f)" "table_rows (cs_table sh) (in_shard_of hash log2 k f) + cell_count es \<le> M"
  shows "\<exists>sh'. shard_merge_pairs (filter (\<lambda>p. pair_shard hash log2 p = k) (sort_key fst (pairs_of es))) sh = Ok sh' \<and>
    shard_holds M sh' (in_shard_of hash log2 k (\<lambda>v. f v @ rows_with es v)) \<and>
    table_rows (cs_table sh') (in_shard_of hash log2 k (\<lambda>v. f v @ rows_with es v)) \<le> table_rows (cs_table sh) (in_shard_of hash log2 k f) + cell_count es"
proof -
  let ?run = "filter (\<lambda>p. pair_shard hash log2 p = k) (sort_key fst (pairs_of es))" and ?g = "in_shard_of hash log2 k f"
  have asc: "sorted_wrt (<) (map fst es)" using es(2) by (simp add: scan_fits_def ascending_def)
  have "ordered ?run" using pairs_of_order(3) [OF asc es(1)] by (rule sorted_wrt_filter)
  moreover have "\<forall>(w, i) \<in> set ?run. i < u32_max \<and> (\<forall>j \<in> set (?g (unat w)). j < i)"
  proof clarify
    fix w i assume "(w, i) \<in> set ?run"
    then have i: "i \<in> fst ` set es" by (force simp: entries_of_def)
    then have "i < u32_max" using es(2) by (auto simp: scan_fits_def ascending_def)
    moreover have "\<forall>j \<in> set (?g (unat w)). j < i" using i es(2) by (auto simp: scan_fits_def in_shard_of_def)
    ultimately show "i < u32_max \<and> (\<forall>j \<in> set (?g (unat w)). j < i)" by blast
  qed
  moreover have len: "length ?run \<le> cell_count es"
    using length_filter_le [of "\<lambda>p. pair_shard hash log2 p = k" "sort_key fst (pairs_of es)"] entries_count [of es] by simp
  moreover have "(\<lambda>v. ?g v @ pairs_with ?run v) = in_shard_of hash log2 k (\<lambda>v. f v @ rows_with es v)"
    unfolding shard_part in_shard_append pairs_with_sort pairs_of_rows [OF es(1)] ..
  ultimately show ?thesis using shard_merge_pairs_ok [OF M, of ?run ?g sh] sh by auto
qed

lemma merge_chunks_ok:
  assumes M: "64 * M \<le> u32_max" and k: "k < 2 ^ log2"
  shows "list_all2 (\<lambda>es. chunk_of hash log2 (pairs_of es)) ess cks \<Longrightarrow> \<forall>es \<in> set ess. small_values es \<Longrightarrow> scan_fits f (concat ess) \<Longrightarrow>
    shard_holds M sh (in_shard_of hash log2 k f) \<Longrightarrow> table_rows (cs_table sh) (in_shard_of hash log2 k f) + cell_count (concat ess) \<le> M \<Longrightarrow>
    \<exists>sh'. merge_chunks cks k sh = Ok sh' \<and> shard_holds M sh' (in_shard_of hash log2 k (\<lambda>v. f v @ rows_with (concat ess) v)) \<and>
      table_rows (cs_table sh') (in_shard_of hash log2 k (\<lambda>v. f v @ rows_with (concat ess) v))
        \<le> table_rows (cs_table sh) (in_shard_of hash log2 k f) + cell_count (concat ess)"
proof (induction ess arbitrary: cks sh f)
  case (Cons es ess)
  then obtain c cs where c: "cks = c # cs" "chunk_of hash log2 (pairs_of es) c" "list_all2 (\<lambda>es. chunk_of hash log2 (pairs_of es)) ess cs"
    by (auto simp: list_all2_Cons1)
  obtain ps ranges where p: "c = (ps, ranges)" by (cases c)
  let ?run = "filter (\<lambda>p. pair_shard hash log2 p = k) (sort_key fst (pairs_of es))"
  note fits = scan_fits_append [OF Cons.prems(3) [unfolded concat.simps], of holds_value]
  have run: "vec_get ranges k = Ok (ranges ! k)" "vec_slice ps (fst (ranges ! k)) (snd (ranges ! k)) = Ok ?run"
    using c(2) p k by (simp_all add: chunk_of_def)
  have "small_values es" "table_rows (cs_table sh) (in_shard_of hash log2 k f) + cell_count es \<le> M"
    using Cons.prems(2,5) by simp_all
  from chunk_merge_ok [OF M this(1) conjunct1 [OF fits] Cons.prems(4) this(2)] obtain sh1 where
    1: "shard_merge_pairs ?run sh = Ok sh1" "shard_holds M sh1 (in_shard_of hash log2 k (\<lambda>v. f v @ rows_with es v))"
    "table_rows (cs_table sh1) (in_shard_of hash log2 k (\<lambda>v. f v @ rows_with es v)) \<le> table_rows (cs_table sh) (in_shard_of hash log2 k f) + cell_count es" by blast
  have rest: "\<forall>es \<in> set ess. small_values es"
    "table_rows (cs_table sh1) (in_shard_of hash log2 k (\<lambda>v. f v @ rows_with es v)) + cell_count (concat ess) \<le> M"
    using Cons.prems(2,5) 1(3) by simp_all
  from Cons.IH [OF c(3) rest(1) conjunct2 [OF fits] 1(2) rest(2)] obtain sh' where
    2: "merge_chunks cs k sh1 = Ok sh'" "shard_holds M sh' (in_shard_of hash log2 k (\<lambda>v. (f v @ rows_with es v) @ rows_with (concat ess) v))"
    "table_rows (cs_table sh') (in_shard_of hash log2 k (\<lambda>v. (f v @ rows_with es v) @ rows_with (concat ess) v))
      \<le> table_rows (cs_table sh1) (in_shard_of hash log2 k (\<lambda>v. f v @ rows_with es v)) + cell_count (concat ess)" by blast
  have "merge_chunks cks k sh = Ok sh'" using c(1) p run 1(1) 2(1) by (simp add: case_prod_unfold)
  with 2(2,3) 1(3) show ?case by simp
qed simp

text \<open>The partitions of a subset.\<close>

lemma partition_ok:
  assumes s: "scan_within n s" "n \<le> u32_max" and lo: "lo \<le> hi" "hi \<le> subset_size s"
  shows "\<exists>part. subset_partition s lo hi = Ok part \<and> scan_within n part \<and> rows part = take (hi - lo) (drop lo (rows s))"
proof (cases s)
  case (Dense r)
  let ?a = "range_start r"
  have r: "?a + hi \<le> range_end r" "range_end r \<le> n" using assms Dense by (auto simp: scan_within_def subset_size_def range_size_def)
  have "take (hi - lo) [?a + lo..<range_end r] = [?a + lo..<?a + lo + (hi - lo)]" using r(1) lo(1) by (intro take_upt) simp
  then have "rows (Dense (range_new (?a + lo) (?a + hi))) = take (hi - lo) (drop lo (rows s))"
    using Dense lo(1) by (simp add: range_new_def)
  moreover have "subset_partition s lo hi = Ok (Dense (range_new (?a + lo) (?a + hi)))"
    using Dense r lo s(2) by (simp add: subset_partition_def)
  moreover have "scan_within n (Dense (range_new (?a + lo) (?a + hi)))"
    using r lo s(2) by (simp add: scan_within_def range_new_def)
  ultimately show ?thesis by blast
next
  case (Sparse v)
  have "sorted (take (hi - lo) (drop lo v))" if "sorted v" using that by (simp add: sorted_wrt_take sorted_wrt_drop)
  then have "scan_within n (Sparse (take (hi - lo) (drop lo v)))"
    using s(1) Sparse by (auto simp: scan_within_def dest!: in_set_takeD in_set_dropD)
  with Sparse lo show ?thesis by (simp add: subset_partition_def subset_size_def)
qed

lemma subset_size_rows: "subset_wf s \<Longrightarrow> subset_size s = length (rows s)"
  by (cases s) (simp_all add: subset_size_def range_size_def)

lemma concat_blocks: "concat (map (\<lambda>p. take d (drop (p * d) xs)) [0..<m]) = take (m * d) xs"
proof (induction m)
  case (Suc m)
  have "take (Suc m * d) xs = take (m * d) xs @ take d (drop (m * d) xs)" by (simp add: add.commute [of d] take_add)
  with Suc show ?case by simp
qed simp

lemma div_ceil_covers: "0 < d \<Longrightarrow> n \<le> div_ceil n d * d"
  using div_mult_mod_eq [of "n + d - 1" d] mod_less_divisor [of d "n + d - 1"] unfolding div_ceil_def by linarith

lemma div_ceil_within: "0 < d \<Longrightarrow> p < div_ceil n d \<Longrightarrow> p * d < n"
proof -
  assume d: "0 < d" and "p < div_ceil n d"
  then have "Suc p * d \<le> div_ceil n d * d" by (intro mult_le_mono1) simp
  also have "\<dots> \<le> n + d - 1" by (simp add: div_ceil_def)
  finally show ?thesis using d by simp
qed

lemma scan_small_values:
  assumes "scannable t cols s" "\<forall>i \<in> set is. i < length (sw_rows t)"
  shows "small_values (scan_of t cols is)"
proof -
  have "sw_rows t ! i ! c \<le> u32_max" if "i \<in> set is" "c \<in> set cols" for i c
    by (rule word_rows_nth) (use assms that in \<open>auto simp: scannable_def word_rows_def\<close>)
  then show ?thesis by (auto simp: small_values_def scan_of_def)
qed

lemma scan_of_concat: "scan_of t cols (concat (map f ps)) = concat (map (\<lambda>p. scan_of t cols (f p)) ps)"
  by (induction ps) (simp_all add: scan_of_def)

lemma coarse_chunk_ok:
  assumes t: "scannable t cols s" and log2: "log2 < 64" and lo: "lo \<le> hi" "hi \<le> subset_size s"
  shows "\<exists>c. coarse_chunk hash log2 t s cols lo hi = Ok c \<and> chunk_of hash log2 (pairs_of (scan_of t cols (take (hi - lo) (drop lo (rows s))))) c"
proof -
  have n: "readable t" "cols \<noteq> []" "\<forall>c \<in> set cols. c < sw_columns t" "scan_within (length (sw_rows t)) s" "length (sw_rows t) \<le> u32_max"
    using t by (simp_all add: scannable_def readable_def)
  from partition_ok [OF n(4,5) lo] obtain part where
    part: "subset_partition s lo hi = Ok part" "scan_within (length (sw_rows t)) part" "rows part = take (hi - lo) (drop lo (rows s))" by blast
  let ?es = "scan_of t cols (rows part)"
  have within: "\<forall>i \<in> set (rows part). i < length (sw_rows t)" "distinct (rows part)" using part(2) by (simp_all add: scan_within_def)
  then have "card (set (rows part)) \<le> card {..<length (sw_rows t)}" by (intro card_mono) auto
  then have "length (rows part) \<le> 2 ^ 64 - 1" using within(2) n(5) by (simp add: distinct_card u32_max_def)
  then have scan: "\<exists>nxt. sw_scan_project t part cols 0 (2 ^ 64 - 1) [] = Ok (?es, nxt)"
    using scan_project_ok [OF n(1-3) part(2), of 0 "2 ^ 64 - 1"] by simp
  have "sorted_wrt (<) (map fst ?es)" using scan_ascending [OF part(2) n(5), of "sw_alive t"] by (simp add: ascending_def)
  note order = pairs_of_order(1,2) [OF this scan_small_values [OF t within(1)]]
  from scan sort_index_chunk_ok [OF log2 order, of hash] part(1) show ?thesis
    unfolding part(3) by (auto simp: coarse_chunk_def pair_rows_entries part(3))
qed

lemma merge_coarse_ok:
  assumes t: "scannable t cols s" and M: "64 * M \<le> u32_max" and ci: "ci_holds M hash ci T f"
    and room: "T + cell_count (scan_of t cols (rows s)) \<le> M" and fits: "scan_fits f (scan_of t cols (rows s))"
  shows "\<exists>ci'. merge_coarse hash workers t s cols ci = Ok ci' \<and>
    ci_holds M hash ci' (T + cell_count (scan_of t cols (rows s))) (\<lambda>v. f v @ rows_with (scan_of t cols (rows s)) v)"
proof -
  let ?size = "subset_size s" and ?part = "coarse_partition_size (subset_size s) workers" and ?log2 = "ci_log2 ci"
  let ?block = "\<lambda>p. take ?part (drop (p * ?part) (rows s))"
  let ?ess = "map (\<lambda>p. scan_of t cols (?block p)) [0..<div_ceil ?size ?part]"
  have log2: "?log2 < 64" using ci by (simp add: ci_holds_def)
  have part: "0 < ?part" by (simp add: coarse_partition_size_def min_coarse_rows_def)
  have size: "?size = length (rows s)" using t by (intro subset_size_rows) (simp add: scannable_def scan_within_def)
  have "\<exists>c. coarse_chunk hash ?log2 t s cols (p * ?part) (min (p * ?part + ?part) ?size) = Ok c \<and> chunk_of hash ?log2 (pairs_of (scan_of t cols (?block p))) c"
    if "p \<in> set [0..<div_ceil ?size ?part]" for p
  proof -
    have p: "p * ?part < ?size" using that div_ceil_within [OF part] by simp
    have "take (min (p * ?part + ?part) ?size - p * ?part) (drop (p * ?part) (rows s)) = ?block p"
      unfolding size by (cases "p * ?part + ?part \<le> length (rows s)") (simp_all add: min_def)
    with coarse_chunk_ok [OF t log2, of "p * ?part" "min (p * ?part + ?part) ?size" hash] p show ?thesis by simp
  qed
  then have "\<exists>cks. map_result (\<lambda>p. coarse_chunk hash ?log2 t s cols (p * ?part) (min (p * ?part + ?part) ?size)) [0..<div_ceil ?size ?part] = Ok cks \<and>
      list_all2 (\<lambda>p. chunk_of hash ?log2 (pairs_of (scan_of t cols (?block p)))) [0..<div_ceil ?size ?part] cks"
    by (rule map_result_exists)
  then obtain cks where
    1: "map_result (\<lambda>p. coarse_chunk hash ?log2 t s cols (p * ?part) (min (p * ?part + ?part) ?size)) [0..<div_ceil ?size ?part] = Ok cks"
    "list_all2 (\<lambda>es. chunk_of hash ?log2 (pairs_of es)) ?ess cks" by (auto simp: list_all2_map1)
  have "concat ?ess = scan_of t cols (concat (map ?block [0..<div_ceil ?size ?part]))"
    by (rule scan_of_concat [symmetric])
  also have "concat (map ?block [0..<div_ceil ?size ?part]) = rows s"
    using div_ceil_covers [OF part, of ?size] size by (simp add: concat_blocks)
  finally have whole: "concat ?ess = scan_of t cols (rows s)" .
  have "\<forall>es \<in> set ?ess. small_values es"
    using t by (auto intro!: scan_small_values [OF t] simp: scannable_def scan_within_def dest!: in_set_takeD in_set_dropD)
  note merge = merge_chunks_ok [OF M _ 1(2) this, unfolded whole, OF _ fits]
  have "\<exists>shards. map_result (\<lambda>(k, sh). merge_chunks cks k sh) (enumerate 0 (ci_shards ci)) = Ok shards \<and>
      ci_holds M hash (ci\<lparr>ci_shards := shards\<rparr>) (T + cell_count (scan_of t cols (rows s))) (\<lambda>v. f v @ rows_with (scan_of t cols (rows s)) v)"
  proof (rule all_shards_ok [OF ci room])
    fix k sh assume k: "k < 2 ^ ?log2" "shard_holds M sh (in_shard_of hash ?log2 k f)" "table_rows (cs_table sh) (in_shard_of hash ?log2 k f) \<le> T"
    have "table_rows (cs_table sh) (in_shard_of hash ?log2 k f) + cell_count (scan_of t cols (rows s)) \<le> M" using k(3) room by linarith
    from merge [OF k(1,2) this] k(3) show "\<exists>sh'. merge_chunks cks k sh = Ok sh' \<and>
        shard_holds M sh' (in_shard_of hash ?log2 k (\<lambda>v. f v @ rows_with (scan_of t cols (rows s)) v)) \<and>
        table_rows (cs_table sh') (in_shard_of hash ?log2 k (\<lambda>v. f v @ rows_with (scan_of t cols (rows s)) v)) \<le> T + cell_count (scan_of t cols (rows s))"
      by (meson add_le_cancel_right le_trans)
  qed
  with 1(1) show ?thesis by (auto simp: merge_coarse_def Let_def)
qed

section \<open>The fine path\<close>

lemma tag_new_ok: "\<exists>b. tag_new n = Ok b \<and> buf_wf b \<and> n_columns b = n + 1 \<and> tag_rows b = []"
  using holds_rows [of "\<lparr>n_columns = n + 1, total_rows = 0, buf_data = []\<rparr>" "[]"]
  by (simp add: tag_new_def buf_new_def buf_wf_def holds_def tag_rows_def)

lemma tag_is_empty_rows: "buf_wf b \<Longrightarrow> tag_is_empty b \<longleftrightarrow> tag_rows b = []"
  by (auto simp: tag_is_empty_def buf_len_def buf_wf_def holds_def tag_rows_def)

text \<open>The batches are the scan, cut into pieces.\<close>

lemma scan_batches_ok:
  assumes t: "readable t" "cols \<noteq> []" "\<forall>c \<in> set cols. c < sw_columns t" "scan_within (length (sw_rows t)) s"
  shows "cur \<le> length (rows s) \<Longrightarrow> \<exists>bs. scan_batches t s cols cur bufs = Some (Ok (bufs @ bs)) \<and> (\<forall>b \<in> set bs. buf_wf b) \<and>
    concat (map tag_rows bs) = scan_of t cols (drop cur (rows s))"
proof (induction "length (rows s) - cur" arbitrary: cur bufs rule: less_induct)
  case less
  define now where "now = take 1024 (drop cur (rows s))"
  define rest where "rest = drop (cur + 1024) (rows s)"
  have split: "drop cur (rows s) = now @ rest" unfolding now_def rest_def by (metis append_take_drop_id drop_drop add.commute)
  note scan = scan_project_ok [OF t less.prems, of 1024, folded now_def]
  have es: "\<forall>(i, vs) \<in> set (scan_of t cols now). length vs = length cols" "length (scan_of t cols now) \<le> u32_max"
    by (auto simp: scan_of_def now_def u32_max_def intro!: order.trans [OF length_filter_le])
  obtain b0 where b0: "tag_new (length cols) = Ok b0" "buf_wf b0" "n_columns b0 = length cols + 1" "tag_rows b0 = []" using tag_new_ok by blast
  from tag_add_all_ok [of b0 "scan_of t cols now"] b0(2-4) es obtain b where
    b: "tag_add_all (scan_of t cols now) b0 = Ok b" "buf_wf b" "tag_rows b = scan_of t cols now" by auto
  show ?case
  proof (cases "cur + 1024 < length (rows s)")
    case False
    then have "rest = []" by (simp add: rest_def)
    then have "drop cur (rows s) = now" using split by simp
    with scan b b0(1) False show ?thesis by (subst scan_batches.simps) (intro exI [of _ "[b]"], simp)
  next
    case True
    then have "length (rows s) - (cur + 1024) < length (rows s) - cur" by linarith
    from less.hyps [OF this, of "bufs @ [b]", folded rest_def] True obtain bs where
      "scan_batches t s cols (cur + 1024) (bufs @ [b]) = Some (Ok ((bufs @ [b]) @ bs))" "\<forall>b \<in> set bs. buf_wf b"
      "concat (map tag_rows bs) = scan_of t cols rest" by auto
    with scan b b0(1) True show ?thesis unfolding split by (subst scan_batches.simps) (intro exI [of _ "b # bs"], simp)
  qed
qed

text \<open>The entries of a shard, as rows that a key is written to.\<close>

abbreviation shard_entries :: "('k \<Rightarrow> full_hash) \<Rightarrow> nat \<Rightarrow> nat \<Rightarrow> (nat \<times> 'k) list \<Rightarrow> (nat \<times> 'k) list" where
  "shard_entries hash log2 k qs \<equiv> filter (\<lambda>e. value_shard hash log2 (snd e) = k) qs"

definition split_holds :: "('k \<Rightarrow> row) \<Rightarrow> nat \<Rightarrow> ('k \<Rightarrow> full_hash) \<Rightarrow> nat \<Rightarrow> (nat \<times> 'k) list \<Rightarrow> tagged_buffer list \<Rightarrow> bool" where
  "split_holds enc width hash log2 qs split \<longleftrightarrow> length split = 2 ^ log2 \<and>
     (\<forall>k < 2 ^ log2. buf_wf (split ! k) \<and> n_columns (split ! k) = Suc width \<and> tag_rows (split ! k) = map (\<lambda>(i, v). (i, enc v)) (shard_entries hash log2 k qs))"

abbreviation "value_splits \<equiv> split_holds (\<lambda>v. [v]) 1"

lemma split_fresh:
  assumes "tag_new width = Ok b"
  shows "split_holds enc width hash log2 [] (replicate (2 ^ log2) b)"
  using tag_new_ok [of width] assms by (simp add: split_holds_def)

lemma split_add:
  assumes log2: "log2 < 64" and split: "split_holds enc width hash log2 qs split" and room: "length qs < u32_max" and width: "length (enc v) = width"
  shows "\<exists>b i. tag_add_row (split ! value_shard hash log2 v) row (enc v) = Ok (i, b) \<and> value_shard hash log2 v < length split \<and>
    split_holds enc width hash log2 (qs @ [(row, v)]) (split[value_shard hash log2 v := b])"
proof -
  let ?k = "value_shard hash log2 v"
  have k: "?k < 2 ^ log2" using log2 by (rule value_shard_bound)
  with split have b: "buf_wf (split ! ?k)" "n_columns (split ! ?k) = Suc width" "tag_rows (split ! ?k) = map (\<lambda>(i, v). (i, enc v)) (shard_entries hash log2 ?k qs)"
    and len: "length split = 2 ^ log2" by (simp_all add: split_holds_def)
  have "length (tag_rows (split ! ?k)) \<le> u32_max" unfolding b(3) length_map by (rule le_trans [OF length_filter_le]) (use room in simp)
  with tag_add_all_ok [of "split ! ?k" "[(row, enc v)]"] b(1,2) width
  obtain b' where b': "tag_add_all [(row, enc v)] (split ! ?k) = Ok b'" "buf_wf b'" "n_columns b' = Suc width" "tag_rows b' = tag_rows (split ! ?k) @ [(row, enc v)]"
    using room b(3) by (auto dest: le_less_trans [OF length_filter_le])
  then obtain i where "tag_add_row (split ! ?k) row (enc v) = Ok (i, b')" by (auto elim!: and_then_OkE)
  moreover have "split_holds enc width hash log2 (qs @ [(row, v)]) (split[?k := b'])"
    using split b' b(3) len k by (auto simp: split_holds_def nth_list_update)
  ultimately show ?thesis using len k by auto
qed

lemma split_keys_ok:
  assumes "log2 < 64"
  shows "value_splits hash log2 qs split \<Longrightarrow> length qs + length keys \<le> u32_max \<Longrightarrow>
    \<exists>split'. split_keys hash log2 row seen keys split = Ok split' \<and> value_splits hash log2 (qs @ map (Pair row) (firsts seen keys)) split'"
proof (induction keys arbitrary: seen qs split)
  case (Cons key keys)
  show ?case
  proof (cases "key \<in> set seen")
    case True
    with Cons.IH [OF Cons.prems(1), of "seen @ [key]"] Cons.prems(2) show ?thesis by simp
  next
    case False
    from split_add [OF assms Cons.prems(1), of key row] Cons.prems(2) obtain b i where
      b: "tag_add_row (split ! value_shard hash log2 key) row [key] = Ok (i, b)"
      "value_shard hash log2 key < length split" "value_splits hash log2 (qs @ [(row, key)]) (split[value_shard hash log2 key := b])" by auto
    with Cons.IH [OF b(3), of "seen @ [key]"] Cons.prems(2) b(1,2) False show ?thesis by (simp add: Let_def)
  qed
qed simp

lemma split_rows_ok:
  assumes "log2 < 64"
  shows "value_splits hash log2 qs split \<Longrightarrow> length qs + cell_count es \<le> u32_max \<Longrightarrow>
    \<exists>split'. split_rows hash log2 es split = Ok split' \<and> value_splits hash log2 (qs @ entries_of es) split'"
proof (induction es arbitrary: qs split)
  case (Cons e es)
  obtain i vs where e: "e = (i, vs)" by (cases e)
  from split_keys_ok [OF assms Cons.prems(1), of vs i "[]"] Cons.prems(2) e obtain split1 where
    1: "split_keys hash log2 i [] vs split = Ok split1" "value_splits hash log2 (qs @ map (Pair i) (firsts [] vs)) split1" by auto
  have "length (qs @ map (Pair i) (firsts [] vs)) + cell_count es \<le> u32_max" using Cons.prems(2) e firsts_length [of "[]" vs] by simp
  from Cons.IH [OF 1(2) this] 1(1) e show ?case by simp
qed simp

lemma split_buf_ok:
  assumes "log2 < 64" "buf_wf b" "cell_count (tag_rows b) \<le> u32_max"
  shows "\<exists>split. split_buf hash log2 b = Ok split \<and> value_splits hash log2 (entries_of (tag_rows b)) split"
proof -
  obtain b0 where b0: "tag_new 1 = Ok b0" using tag_new_ok by blast
  from split_rows_ok [OF assms(1) split_fresh [OF b0]] assms(3) b0 tag_iter_rows [OF assms(2)] show ?thesis by (simp add: split_buf_def)
qed

text \<open>Whatever order the buffers were pushed in, sorting by their first rows puts them back.\<close>

lemma sort_key_back:
  assumes "mset xs = mset ys" "sorted_wrt (\<lambda>x y. f x < f y) ys"
  shows "sort_key (f :: _ \<Rightarrow> nat) xs = ys"
proof (rule properties_for_sort_key)
  show "mset ys = mset xs" using assms(1) by simp
  have "sorted_wrt (<) (map f ys)" using assms(2) by (simp add: sorted_wrt_map)
  then show "sorted (map f ys)" by (simp add: strict_sorted_iff)
  have d: "distinct (map f ys)" using \<open>sorted_wrt (<) (map f ys)\<close> by (simp add: strict_sorted_iff)
  fix k assume k: "k \<in> set ys"
  have one: "filter (\<lambda>x. f k = f x) ys = [k]" using d k
  proof (induction ys)
    case (Cons y ys)
    show ?case
    proof (cases "k = y")
      case True
      with Cons.prems show ?thesis by (auto simp: filter_empty_conv)
    next
      case False
      with Cons have "k \<in> set ys" by simp
      then have "f k \<noteq> f y" using Cons.prems(1) by (metis distinct.simps(2) imageI list.simps(9) list.set_map)
      with Cons \<open>k \<in> set ys\<close> show ?thesis by simp
    qed
  qed simp
  have "mset (filter (\<lambda>x. f k = f x) xs) = mset (filter (\<lambda>x. f k = f x) ys)" by (simp only: mset_filter assms(1))
  then have "mset (filter (\<lambda>x. f k = f x) xs) = {#k#}" unfolding one by simp
  then show "filter (\<lambda>x. f k = f x) ys = filter (\<lambda>x. f k = f x) xs" unfolding one by (cases "filter (\<lambda>x. f k = f x) xs") auto
qed

text \<open>What the batches push to the queue of a shard.\<close>

definition queue_items :: "nat \<Rightarrow> tagged_buffer list list \<Rightarrow> (nat \<times> tagged_buffer) list" where
  "queue_items k splits = concat (map (\<lambda>sp. case tag_rows (sp ! k) of [] \<Rightarrow> [] | e # _ \<Rightarrow> [(fst e, sp ! k)]) splits)"

lemma queue_items_simps [simp]:
  "queue_items k [] = []"
  "queue_items k (sp # sps) = (case tag_rows (sp ! k) of [] \<Rightarrow> [] | e # _ \<Rightarrow> [(fst e, sp ! k)]) @ queue_items k sps"
  by (simp_all add: queue_items_def)

text \<open>The buffers for the shard are in order, and the rows of one come before the rows of the next.\<close>

definition batches_in_order :: "nat \<Rightarrow> tagged_buffer list list \<Rightarrow> bool" where
  "batches_in_order k splits \<longleftrightarrow> (\<forall>sp \<in> set splits. k < length sp \<and> buf_wf (sp ! k)) \<and>
     sorted_wrt (\<lambda>sp sp'. \<forall>x \<in> set (tag_rows (sp ! k)). \<forall>y \<in> set (tag_rows (sp' ! k)). fst x < fst y) splits"

lemma queue_pushes:
  "\<forall>sp \<in> set splits. k < length sp \<and> buf_wf (sp ! k) \<Longrightarrow>
    \<exists>pushes. map_result (\<lambda>(j, split). and_then (vec_get split k) (\<lambda>b.
        if tag_is_empty b then Ok [] else and_then (tag_get_row b 0) (\<lambda>(first, _). Ok [(moment j k, first, b)]))) (enumerate n splits) = Ok pushes \<and>
      map snd (concat pushes) = queue_items k splits"
proof (induction splits arbitrary: n)
  case (Cons sp sps)
  then have b: "buf_wf (sp ! k)" "vec_get sp k = Ok (sp ! k)" by simp_all
  from Cons.IH [of "Suc n"] Cons.prems obtain pushes where p: "map_result (\<lambda>(j, split). and_then (vec_get split k) (\<lambda>b.
        if tag_is_empty b then Ok [] else and_then (tag_get_row b 0) (\<lambda>(first, _). Ok [(moment j k, first, b)]))) (enumerate (Suc n) sps) = Ok pushes"
      "map snd (concat pushes) = queue_items k sps" by auto
  show ?case
  proof (cases "tag_rows (sp ! k)")
    case Nil
    with b tag_is_empty_rows [OF b(1)] p show ?thesis by (intro exI [of _ "[] # pushes"]) simp
  next
    case (Cons e qs)
    with b tag_is_empty_rows [OF b(1)] tag_get_row_rows [OF b(1), of 0] p show ?thesis
      by (intro exI [of _ "[(moment n k, fst e, sp ! k)] # pushes"]) (simp add: case_prod_unfold)
  qed
qed simp

lemma queue_items_ok:
  "batches_in_order k splits \<Longrightarrow> sorted_wrt (\<lambda>x y. fst x < fst y) (queue_items k splits) \<and>
    fst ` set (queue_items k splits) \<subseteq> (\<Union>sp \<in> set splits. fst ` set (tag_rows (sp ! k))) \<and>
    (\<forall>e \<in> set (queue_items k splits). buf_wf (snd e)) \<and>
    concat (map (\<lambda>e. tag_rows (snd e)) (queue_items k splits)) = concat (map (\<lambda>sp. tag_rows (sp ! k)) splits)"
proof (induction splits)
  case (Cons sp sps)
  then have IH: "sorted_wrt (\<lambda>x y. fst x < fst y) (queue_items k sps)"
    "fst ` set (queue_items k sps) \<subseteq> (\<Union>sp \<in> set sps. fst ` set (tag_rows (sp ! k)))" "\<forall>e \<in> set (queue_items k sps). buf_wf (snd e)"
    "concat (map (\<lambda>e. tag_rows (snd e)) (queue_items k sps)) = concat (map (\<lambda>sp. tag_rows (sp ! k)) sps)"
    by (simp_all add: batches_in_order_def)
  show ?case
  proof (cases "tag_rows (sp ! k)")
    case Nil
    with IH show ?thesis by auto
  next
    case e: (Cons e qs)
    have "fst e < j" if j: "j \<in> fst ` set (queue_items k sps)" for j
    proof -
      from j IH(2) obtain sp' y where "sp' \<in> set sps" "y \<in> set (tag_rows (sp' ! k))" "j = fst y" by blast
      with Cons.prems e show ?thesis by (auto simp: batches_in_order_def)
    qed
    with IH e Cons.prems show ?thesis by (auto simp: batches_in_order_def)
  qed
qed simp

lemma queue_of_ok:
  assumes "batches_in_order k splits"
  shows "\<exists>q. queue_of moment splits k = Ok q \<and> (\<forall>e \<in> set (sort_key fst q). buf_wf (snd e)) \<and>
    concat (map (\<lambda>e. tag_rows (snd e)) (sort_key fst q)) = concat (map (\<lambda>sp. tag_rows (sp ! k)) splits)"
proof -
  note items = queue_items_ok [OF assms]
  from queue_pushes [of splits k moment 0] assms obtain pushes where
    p: "map_result (\<lambda>(j, split). and_then (vec_get split k) (\<lambda>b.
        if tag_is_empty b then Ok [] else and_then (tag_get_row b 0) (\<lambda>(first, _). Ok [(moment j k, first, b)]))) (enumerate 0 splits) = Ok pushes"
      "map snd (concat pushes) = queue_items k splits" by (auto simp: batches_in_order_def)
  have "mset (map snd (sort_key fst (concat pushes))) = mset (queue_items k splits)" unfolding p(2) [symmetric] by simp
  then have sorted: "sort_key fst (map snd (sort_key fst (concat pushes))) = queue_items k splits"
    by (rule sort_key_back) (use items in blast)
  have "queue_of moment splits k = Ok (map snd (sort_key fst (concat pushes)))" using p(1) by (simp add: queue_of_def)
  then show ?thesis using items unfolding sorted [symmetric] by blast
qed

text \<open>The entries of a shard in all batches.\<close>

lemma shard_batches:
  assumes k: "k < 2 ^ log2"
  shows "list_all2 (split_holds enc width hash log2) qss splits \<Longrightarrow> sorted_wrt (\<lambda>qs qs'. \<forall>x \<in> set qs. \<forall>y \<in> set qs'. fst x < fst y) qss \<Longrightarrow>
    batches_in_order k splits \<and> (\<Union>sp \<in> set splits. fst ` set (tag_rows (sp ! k))) \<subseteq> fst ` set (concat qss) \<and>
    concat (map (\<lambda>sp. tag_rows (sp ! k)) splits) = map (\<lambda>(i, v). (i, enc v)) (shard_entries hash log2 k (concat qss))"
proof (induction qss splits rule: list_all2_induct)
  case (Cons qs qss sp sps)
  have b: "k < length sp" "buf_wf (sp ! k)" "tag_rows (sp ! k) = map (\<lambda>(i, v). (i, enc v)) (shard_entries hash log2 k qs)"
    using Cons.hyps(1) k by (simp_all add: split_holds_def)
  have rows: "fst ` set (tag_rows (sp ! k)) \<subseteq> fst ` set qs" unfolding b(3) by force
  have later: "\<forall>i \<in> fst ` set qs. \<forall>j \<in> fst ` set (concat qss). i < j" "sorted_wrt (\<lambda>qs qs'. \<forall>x \<in> set qs. \<forall>y \<in> set qs'. fst x < fst y) qss"
    using Cons.prems by auto
  note IH = Cons.IH [OF later(2)]
  have "\<forall>sp' \<in> set sps. \<forall>x \<in> set (tag_rows (sp ! k)). \<forall>y \<in> set (tag_rows (sp' ! k)). fst x < fst y"
    using rows IH later(1) by blast
  then have "batches_in_order k (sp # sps)" using IH b(1,2) by (simp add: batches_in_order_def)
  moreover have "(\<Union>sp \<in> set (sp # sps). fst ` set (tag_rows (sp ! k))) \<subseteq> fst ` set (concat (qs # qss))"
    using IH rows by (simp add: image_Un) blast
  ultimately show ?case using IH b(3) by simp
qed (simp add: batches_in_order_def)

text \<open>The pieces of an ascending scan are in order, and so are their entries.\<close>

lemma pieces_in_order:
  "sorted_wrt (<) (map fst (concat ess)) \<Longrightarrow> sorted_wrt (\<lambda>es es'. \<forall>x \<in> set es. \<forall>y \<in> set es'. fst x < fst y) ess"
  by (induction ess) (auto simp: sorted_wrt_append)

lemma entries_batches:
  shows "sorted_wrt (<) (map fst (concat ess)) \<Longrightarrow> sorted_wrt (\<lambda>qs qs'. \<forall>x \<in> set qs. \<forall>y \<in> set qs'. fst x < fst y) (map entries_of ess)"
    and "concat (map entries_of ess) = entries_of (concat ess)"
proof -
  have in_es: "\<exists>y \<in> set es. fst y = fst x" if "x \<in> set (entries_of es)" for x and es :: "(nat \<times> val list) list"
    using that by (force simp: entries_of_def)
  assume "sorted_wrt (<) (map fst (concat ess))"
  from pieces_in_order [OF this] have "sorted_wrt (\<lambda>es es'. \<forall>x \<in> set (entries_of es). \<forall>y \<in> set (entries_of es'). fst x < fst y) ess"
    by (rule sorted_wrt_mono_rel [rotated]) (metis in_es)
  then show "sorted_wrt (\<lambda>qs qs'. \<forall>x \<in> set qs. \<forall>y \<in> set qs'. fst x < fst y) (map entries_of ess)" by (simp add: sorted_wrt_map)
next
  show "concat (map entries_of ess) = entries_of (concat ess)" by (induction ess) simp_all
qed

text \<open>Adding the rows of a queue.\<close>

lemma shard_fill_row_adds: "shard_fill_row key row sh = shard_add_row key row sh"
  by (cases "map_of (cs_table sh) key"; cases "id_inc u32_max row")
    (simp_all add: shard_fill_row_def shard_add_row_def bs_singleton_def bs_add_row_sorted_def bs_empty_def range_new_def)

text \<open>Adding rows to a shard one after the other.\<close>

fun shard_add_all :: "(nat \<times> 'k) list \<Rightarrow> 'k index_shard \<Rightarrow> 'k index_shard result" where
  "shard_add_all [] sh = Ok sh"
| "shard_add_all ((row, key) # qs) sh = and_then (shard_add_row key row sh) (shard_add_all qs)"

lemma shard_fill_rows_add: "shard_fill_rows (map (\<lambda>(i, v). (i, [v])) qs) sh = shard_add_all qs sh"
  by (induction qs sh rule: shard_add_all.induct) (simp_all add: shard_fill_row_adds cong: and_then_cong)

lemma shard_add_all_ok:
  assumes M: "64 * M \<le> u32_max"
  shows "shard_holds M sh g \<Longrightarrow> \<forall>v. ascending (g v @ map fst (filter (\<lambda>e. snd e = v) qs)) \<Longrightarrow> table_rows (cs_table sh) g + length qs \<le> M \<Longrightarrow>
    \<exists>sh'. shard_add_all qs sh = Ok sh' \<and> shard_holds M sh' (\<lambda>v. g v @ map fst (filter (\<lambda>e. snd e = v) qs)) \<and>
      table_rows (cs_table sh') (\<lambda>v. g v @ map fst (filter (\<lambda>e. snd e = v) qs)) = table_rows (cs_table sh) g + length qs"
proof (induction qs arbitrary: sh g)
  case (Cons e qs)
  obtain i v where e: "e = (i, v)" by (cases e)
  define g1 where "g1 = g(v := g v @ [i])"
  have g1: "(\<lambda>w. g1 w @ map fst (filter (\<lambda>e. snd e = w) qs)) = (\<lambda>w. g w @ map fst (filter (\<lambda>e. snd e = w) (e # qs)))"
    by (auto simp: g1_def e fun_eq_iff)
  have "ascending (g v @ map fst (filter (\<lambda>e. snd e = v) (e # qs)))" using Cons.prems(2) by blast
  then have "ascending ((g v @ [i]) @ map fst (filter (\<lambda>e. snd e = v) qs))" by (simp add: e)
  then have "ascending (g v @ [i])" by (auto simp: ascending_def sorted_wrt_append)
  from shard_add_row_ok [OF Cons.prems(1) M this, folded g1_def] Cons.prems(3) obtain sh1 where
    1: "shard_add_row v i sh = Ok sh1" "shard_holds M sh1 g1" "table_rows (cs_table sh1) g1 = Suc (table_rows (cs_table sh) g)" by auto
  have "\<forall>w. ascending (g1 w @ map fst (filter (\<lambda>e. snd e = w) qs))" using Cons.prems(2) g1 by metis
  from Cons.IH [OF 1(2) this] 1(3) Cons.prems(3) obtain sh' where
    "shard_add_all qs sh1 = Ok sh'"
    "shard_holds M sh' (\<lambda>w. g1 w @ map fst (filter (\<lambda>e. snd e = w) qs))"
    "table_rows (cs_table sh') (\<lambda>w. g1 w @ map fst (filter (\<lambda>e. snd e = w) qs)) = Suc (table_rows (cs_table sh) g) + length qs" by auto
  with 1(1) e show ?case unfolding g1 by simp
qed simp

lemma shard_fill_append: "shard_fill_rows (es @ fs) sh = and_then (shard_fill_rows es sh) (shard_fill_rows fs)"
proof (induction es sh rule: shard_fill_rows.induct)
  case (2 row key es sh)
  then show ?case by (cases "vec_get key 0"; cases "shard_fill_row (projr (vec_get key 0)) row sh") simp_all
qed simp

lemma shard_drain_fills:
  "\<forall>e \<in> set q. buf_wf (snd e) \<Longrightarrow> shard_drain q sh = shard_fill_rows (concat (map (\<lambda>e. tag_rows (snd e)) q)) sh"
proof (induction q sh rule: shard_drain.induct)
  case (2 i b q sh)
  then show ?case by (cases "shard_fill_rows (tag_rows b) sh") (simp_all add: tag_iter_rows shard_fill_append)
qed simp

lemma shard_entries_rows: "map fst (filter (\<lambda>e. snd e = v) (shard_entries hash log2 k (entries_of es))) = in_shard_of hash log2 k (rows_with es) v"
proof (cases "value_shard hash log2 v = k")
  case True
  then have "filter (\<lambda>e. snd e = v) (shard_entries hash log2 k (entries_of es)) = filter (\<lambda>e. snd e = v) (entries_of es)"
    by (auto simp: filter_filter intro!: filter_cong)
  with True entries_rows [of v es] show ?thesis by (simp add: in_shard_of_def)
qed (auto simp: in_shard_of_def filter_empty_conv)

lemma rows_for_ascending: "ascending (map fst es) \<Longrightarrow> ascending (rows_for mentions es k)"
  by (auto simp: ascending_def rows_for_def sorted_wrt_map intro: sorted_wrt_filter)

lemma merge_fine_ok:
  assumes t: "scannable t cols s" and M: "64 * M \<le> u32_max" and ci: "ci_holds M hash ci T f"
    and room: "T + cell_count (scan_of t cols (rows s)) \<le> M" and fits: "scan_fits f (scan_of t cols (rows s))"
  shows "\<exists>ci'. merge_fine hash moment t s cols ci = Some (Ok ci') \<and>
    ci_holds M hash ci' (T + cell_count (scan_of t cols (rows s))) (\<lambda>v. f v @ rows_with (scan_of t cols (rows s)) v)"
proof -
  define es where "es = scan_of t cols (rows s)"
  let ?log2 = "ci_log2 ci"
  have log2: "?log2 < 64" using ci by (simp add: ci_holds_def)
  have "\<exists>bs. scan_batches t s cols 0 [] = Some (Ok ([] @ bs)) \<and> (\<forall>b \<in> set bs. buf_wf b) \<and> concat (map tag_rows bs) = scan_of t cols (drop 0 (rows s))"
    by (rule scan_batches_ok) (use t in \<open>simp_all add: scannable_def\<close>)
  then obtain bs where bs: "scan_batches t s cols 0 [] = Some (Ok bs)" "\<forall>b \<in> set bs. buf_wf b" "concat (map tag_rows bs) = es"
    by (auto simp: es_def)
  have count: "cell_count (tag_rows b) \<le> u32_max" if "b \<in> set bs" for b
  proof -
    from that obtain bs1 bs2 where "bs = bs1 @ b # bs2" by (auto simp: in_set_conv_decomp)
    then have "cell_count (tag_rows b) \<le> cell_count es" using bs(3) [symmetric] by simp
    with room M show ?thesis unfolding es_def [symmetric] by linarith
  qed
  have "\<exists>splits. map_result (split_buf hash ?log2) bs = Ok splits \<and> list_all2 (\<lambda>b. value_splits hash ?log2 (entries_of (tag_rows b))) bs splits"
    by (rule map_result_exists) (use split_buf_ok [OF log2] bs(2) count in blast)
  then obtain splits where
    splits: "map_result (split_buf hash ?log2) bs = Ok splits" "list_all2 (value_splits hash ?log2) (map entries_of (map tag_rows bs)) splits"
    by (auto simp: list_all2_map1)
  have "sorted_wrt (<) (map fst (concat (map tag_rows bs)))" using fits unfolding bs(3) es_def by (simp add: scan_fits_def ascending_def)
  note order = entries_batches(1) [OF this] entries_batches(2) [of "map tag_rows bs", unfolded bs(3)]
  have "\<exists>shards. map_result (\<lambda>(k, sh). and_then (queue_of moment splits k) (\<lambda>q. shard_drain (sort_key fst q) sh)) (enumerate 0 (ci_shards ci)) = Ok shards \<and>
      ci_holds M hash (ci\<lparr>ci_shards := shards\<rparr>) (T + cell_count es) (\<lambda>v. f v @ rows_with es v)"
  proof (rule all_shards_ok [OF ci room [folded es_def]])
    fix k sh assume k: "k < 2 ^ ?log2" "shard_holds M sh (in_shard_of hash ?log2 k f)" "table_rows (cs_table sh) (in_shard_of hash ?log2 k f) \<le> T"
    let ?qs = "shard_entries hash ?log2 k (entries_of es)" and ?g = "in_shard_of hash ?log2 k f"
    note batches = shard_batches [OF k(1) splits(2) order(1), unfolded order(2)]
    obtain q where q: "queue_of moment splits k = Ok q" "\<forall>e \<in> set (sort_key fst q). buf_wf (snd e)"
      "concat (map (\<lambda>e. tag_rows (snd e)) (sort_key fst q)) = map (\<lambda>(i, v). (i, [v])) ?qs"
      using queue_of_ok [OF conjunct1 [OF batches], of moment] batches by auto
    have "shard_drain (sort_key fst q) sh = shard_add_all ?qs sh"
      unfolding shard_drain_fills [OF q(2)] q(3) shard_fill_rows_add ..
    moreover have rows: "(\<lambda>v. ?g v @ map fst (filter (\<lambda>e. snd e = v) ?qs)) = in_shard_of hash ?log2 k (\<lambda>v. f v @ rows_with es v)"
      unfolding shard_entries_rows in_shard_append ..
    moreover have len: "length ?qs \<le> cell_count es" using length_filter_le le_trans entries_count by blast
    moreover have "\<forall>v. ascending (?g v @ map fst (filter (\<lambda>e. snd e = v) ?qs))"
    proof
      fix v
      have "ascending (rows_with es v)" using fits by (intro rows_for_ascending) (simp add: scan_fits_def es_def)
      then show "ascending (?g v @ map fst (filter (\<lambda>e. snd e = v) ?qs))"
        unfolding shard_entries_rows using shard_holdsD(5) [OF k(2), of v] fits rows_for_subset [of holds_value es v]
        by (fastforce simp: in_shard_of_def ascending_def sorted_wrt_append scan_fits_def es_def)
    qed
    ultimately show "\<exists>sh'. and_then (queue_of moment splits k) (\<lambda>q. shard_drain (sort_key fst q) sh) = Ok sh' \<and>
        shard_holds M sh' (in_shard_of hash ?log2 k (\<lambda>v. f v @ rows_with es v)) \<and>
        table_rows (cs_table sh') (in_shard_of hash ?log2 k (\<lambda>v. f v @ rows_with es v)) \<le> T + cell_count es"
      using shard_add_all_ok [OF M k(2), of ?qs] q(1) k(3) room [folded es_def] by fastforce
  qed
  with bs(1) splits(1) show ?thesis unfolding es_def by (auto simp: merge_fine_def)
qed

lemma merge_parallel_ok:
  assumes "scannable t cols s" "64 * M \<le> u32_max" "ci_holds M hash ci T f"
    and "T + cell_count (scan_of t cols (rows s)) \<le> M" "scan_fits f (scan_of t cols (rows s))"
  shows "\<exists>ci'. ci_merge_parallel hash workers moment cols t s ci = Some (Ok ci') \<and>
    ci_holds M hash ci' (T + cell_count (scan_of t cols (rows s))) (\<lambda>v. f v @ rows_with (scan_of t cols (rows s)) v)"
  using merge_coarse_ok [OF assms, of workers] merge_fine_ok [OF assms, of moment] by (simp add: ci_merge_parallel_def)

end
