(* ===== verification/TupleIndex.thy ===== *)
theory TupleIndex
  imports IndexParallel
begin

text \<open>
  \<open>TupleIndex\<close> of \<open>egglog/core-relations/src/hash_index/mod.rs\<close>, which maps the values of several columns,
  as one key, to the rows that hold them.  A shard has the keys in a row buffer and a raw hash table whose
  entries point to them; the lookup of the raw hash table and the hash function are parameters.  The theory
  shows that a shard refines a shard of \<open>ColumnIndex\<close> with rows as keys, and that every operation does to it
  what the operation there does.
\<close>

section \<open>Model\<close>

record tuple_entry =
  tp_hash :: full_hash
  tp_key :: nat
  tp_vals :: buffered_subset

record tuple_shard =
  ts_keys :: row_buffer
  ts_hash :: "tuple_entry list"
  ts_subsets :: subset_buffer

record tuple_index =
  tx_log2 :: nat
  tx_shards :: "tuple_shard list"

record tuple_env =
  tv_hash :: "val list \<Rightarrow> full_hash"
  tv_find :: "full_hash \<Rightarrow> (tuple_entry \<Rightarrow> bool) \<Rightarrow> tuple_entry list \<Rightarrow> nat option"

definition tx_new :: "nat \<Rightarrow> nat \<Rightarrow> tuple_index result" where
  "tx_new arity threads =
     (let log2 = default_log2 threads in
      and_then (buf_new arity) (\<lambda>b. Ok \<lparr>tx_log2 = log2, tx_shards = replicate (2 ^ log2) \<lparr>ts_keys = b, ts_hash = [], ts_subsets = sb_default\<rparr>\<rparr>))"

text \<open>The test of the closures: the hash, and then the key that the entry points to.\<close>

definition tuple_match :: "row_buffer \<Rightarrow> full_hash \<Rightarrow> val list \<Rightarrow> tuple_entry \<Rightarrow> bool" where
  "tuple_match keys h key e \<longleftrightarrow> tp_hash e = h \<and> buf_get_row keys (tp_key e) = Ok key"

definition tuple_find :: "tuple_env \<Rightarrow> tuple_shard \<Rightarrow> val list \<Rightarrow> nat option" where
  "tuple_find env sh key = tv_find env (tv_hash env key) (tuple_match (ts_keys sh) (tv_hash env key) key) (ts_hash sh)"

definition tx_get_subset :: "tuple_env \<Rightarrow> tuple_index \<Rightarrow> val list \<Rightarrow> subset option result" where
  "tx_get_subset env ti key =
     and_then (vec_get (tx_shards ti) (shard_id (tx_log2 ti) (tv_hash env key))) (\<lambda>sh.
       case tuple_find env sh key of
         None \<Rightarrow> Ok None
       | Some i \<Rightarrow> and_then (vec_get (ts_hash sh) i) (\<lambda>e. and_then (bs_as_ref (tp_vals e) (ts_subsets sh)) (\<lambda>r. Ok (Some r))))"

text \<open>The entry of a key, changed in place or made; a new key goes to the end of the keys.\<close>

definition tuple_shard_add :: "tuple_env \<Rightarrow> val list \<Rightarrow> nat \<Rightarrow> tuple_shard \<Rightarrow> tuple_shard result" where
  "tuple_shard_add env key row sh =
     (case tuple_find env sh key of
        Some i \<Rightarrow> and_then (vec_get (ts_hash sh) i) (\<lambda>e. and_then (bs_add_row_sorted (tp_vals e) row (ts_subsets sh)) (\<lambda>(s, sb).
          Ok (sh\<lparr>ts_hash := (ts_hash sh)[i := e\<lparr>tp_vals := s\<rparr>], ts_subsets := sb\<rparr>)))
      | None \<Rightarrow> and_then (buf_add_row (ts_keys sh) key) (\<lambda>(i, keys). and_then (bs_singleton row) (\<lambda>s.
          Ok (sh\<lparr>ts_keys := keys, ts_hash := ts_hash sh @ [\<lparr>tp_hash = tv_hash env key, tp_key = i, tp_vals = s\<rparr>]\<rparr>))))"

definition tx_add_row :: "tuple_env \<Rightarrow> val list \<Rightarrow> nat \<Rightarrow> tuple_index \<Rightarrow> tuple_index result" where
  "tx_add_row env key row ti =
     (let k = shard_id (tx_log2 ti) (tv_hash env key) in
      and_then (vec_get (tx_shards ti) k) (\<lambda>sh. and_then (tuple_shard_add env key row sh) (\<lambda>sh.
        Ok (ti\<lparr>tx_shards := (tx_shards ti)[k := sh]\<rparr>))))"

fun tx_add_rows :: "tuple_env \<Rightarrow> (nat \<times> row) list \<Rightarrow> tuple_index \<Rightarrow> tuple_index result" where
  "tx_add_rows env [] ti = Ok ti"
| "tx_add_rows env ((row, key) # es) ti = and_then (tx_add_row env key row ti) (tx_add_rows env es)"

definition tx_merge_rows :: "tuple_env \<Rightarrow> tagged_buffer \<Rightarrow> tuple_index \<Rightarrow> tuple_index result" where
  "tx_merge_rows env buf ti = and_then (tag_iter buf) (\<lambda>es. tx_add_rows env es ti)"

fun return_tuples :: "tuple_entry list \<Rightarrow> subset_buffer \<Rightarrow> subset_buffer result" where
  "return_tuples [] sb = Ok sb"
| "return_tuples (e # es) sb =
     (case tp_vals e of
        BufDense r \<Rightarrow> return_tuples es sb
      | BufSparse v \<Rightarrow> and_then (return_vec sb v) (return_tuples es))"

definition tx_clear :: "tuple_index \<Rightarrow> tuple_index result" where
  "tx_clear ti =
     and_then (map_result (\<lambda>sh. and_then (return_tuples (ts_hash sh) (ts_subsets sh)) (\<lambda>sb.
         Ok \<lparr>ts_keys = buf_clear (ts_keys sh), ts_hash = [], ts_subsets = sb\<rparr>)) (tx_shards ti))
       (\<lambda>shards. Ok (ti\<lparr>tx_shards := shards\<rparr>))"

definition tx_shard_len :: "tuple_index \<Rightarrow> nat \<Rightarrow> nat result" where
  "tx_shard_len ti k = and_then (vec_get (tx_shards ti) k) (\<lambda>sh. Ok (length (ts_hash sh)))"

definition tx_len :: "tuple_index \<Rightarrow> nat" where
  "tx_len ti = sum_list (map (\<lambda>sh. length (ts_hash sh)) (tx_shards ti))"

text \<open>The parallel path: a row goes to the buffer of the shard of its key.\<close>

fun tuple_split_rows :: "tuple_env \<Rightarrow> nat \<Rightarrow> (nat \<times> row) list \<Rightarrow> tagged_buffer list \<Rightarrow> tagged_buffer list result" where
  "tuple_split_rows env log2 [] split = Ok split"
| "tuple_split_rows env log2 ((row, key) # es) split =
     (let k = shard_id log2 (tv_hash env key) in
      and_then (vec_get split k) (\<lambda>b. and_then (tag_add_row b row key) (\<lambda>(_, b). tuple_split_rows env log2 es (split[k := b]))))"

definition tuple_split_buf :: "tuple_env \<Rightarrow> nat \<Rightarrow> nat \<Rightarrow> tagged_buffer \<Rightarrow> tagged_buffer list result" where
  "tuple_split_buf env log2 n_cols buf =
     and_then (tag_new n_cols) (\<lambda>fresh. and_then (tag_iter buf) (\<lambda>es. tuple_split_rows env log2 es (replicate (2 ^ log2) fresh)))"

fun tuple_add_all :: "tuple_env \<Rightarrow> (nat \<times> row) list \<Rightarrow> tuple_shard \<Rightarrow> tuple_shard result" where
  "tuple_add_all env [] sh = Ok sh"
| "tuple_add_all env ((row, key) # es) sh = and_then (tuple_shard_add env key row sh) (tuple_add_all env es)"

fun tuple_drain :: "tuple_env \<Rightarrow> (nat \<times> tagged_buffer) list \<Rightarrow> tuple_shard \<Rightarrow> tuple_shard result" where
  "tuple_drain env [] sh = Ok sh"
| "tuple_drain env ((_, buf) # q) sh = and_then (tag_iter buf) (\<lambda>es. and_then (tuple_add_all env es sh) (tuple_drain env q))"

definition tx_merge_parallel :: "tuple_env \<Rightarrow> (nat \<Rightarrow> nat \<Rightarrow> nat) \<Rightarrow> nat list \<Rightarrow> sorted_table \<Rightarrow> subset \<Rightarrow> tuple_index \<Rightarrow> tuple_index comp" where
  "tx_merge_parallel env moment cols t s ti =
     run_then (scan_batches t s cols 0 []) (\<lambda>bufs.
       Some (and_then (map_result (tuple_split_buf env (tx_log2 ti) (length cols)) bufs) (\<lambda>splits.
         and_then (map_result (\<lambda>(k, sh). and_then (queue_of moment splits k) (\<lambda>q. tuple_drain env (sort_key fst q) sh)) (enumerate 0 (tx_shards ti)))
           (\<lambda>shards. Ok (ti\<lparr>tx_shards := shards\<rparr>)))))"

text \<open>The default method of the trait.\<close>

definition rebuild_default :: "(tagged_buffer \<Rightarrow> 'ti \<Rightarrow> 'ti result) \<Rightarrow> nat list \<Rightarrow> sorted_table \<Rightarrow> subset \<Rightarrow> 'ti \<Rightarrow> 'ti comp" where
  "rebuild_default merge cols t s ti = run_then (Some (tag_new (length cols))) (\<lambda>buf. refresh_loop merge t s cols 0 buf ti)"

definition tuple_ops :: "tuple_env \<Rightarrow> (nat \<Rightarrow> nat \<Rightarrow> nat) \<Rightarrow> (tuple_index, val list) index_ops" where
  "tuple_ops env moment =
     \<lparr>ib_clear = tx_clear, ib_get_subset = tx_get_subset env, ib_merge_rows = tx_merge_rows env,
      ib_merge_parallel = tx_merge_parallel env moment, ib_rebuild_full = rebuild_default (tx_merge_rows env)\<rparr>"

section \<open>Shards as maps from keys to subsets\<close>

text \<open>The contract of the raw hash table.\<close>

locale tuple_finder =
  fixes env :: tuple_env
  assumes find_sound: "tv_find env h p es = Some i \<Longrightarrow> i < length es \<and> p (es ! i)"
    and find_complete: "tv_find env h p es = None \<Longrightarrow> e \<in> set es \<Longrightarrow> tp_hash e = h \<Longrightarrow> \<not> p e"

definition tuple_abs :: "tuple_shard \<Rightarrow> val list index_shard" where
  "tuple_abs sh = \<lparr>cs_table = map (\<lambda>e. (buf_rows (ts_keys sh) ! tp_key e, tp_vals e)) (ts_hash sh), cs_subsets = ts_subsets sh\<rparr>"

text \<open>Every key has one entry, which has its hash.\<close>

definition tuple_wf :: "tuple_env \<Rightarrow> nat \<Rightarrow> tuple_shard \<Rightarrow> bool" where
  "tuple_wf env arity sh \<longleftrightarrow> buf_wf (ts_keys sh) \<and> n_columns (ts_keys sh) = arity \<and> distinct (buf_rows (ts_keys sh)) \<and>
     distinct (map tp_key (ts_hash sh)) \<and> length (ts_hash sh) = length (buf_rows (ts_keys sh)) \<and>
     (\<forall>e \<in> set (ts_hash sh). tp_key e < length (buf_rows (ts_keys sh)) \<and> tp_hash e = tv_hash env (buf_rows (ts_keys sh) ! tp_key e))"

lemma tuple_abs_simps [simp]:
  "cs_subsets (tuple_abs sh) = ts_subsets sh"
  "cs_table (tuple_abs sh) = map (\<lambda>e. (buf_rows (ts_keys sh) ! tp_key e, tp_vals e)) (ts_hash sh)"
  by (simp_all add: tuple_abs_def)

lemma key_rows: "buf_wf b \<Longrightarrow> i < length (buf_rows b) \<Longrightarrow> buf_get_row b i = Ok (buf_rows b ! i)"
  using get_row_holds [of b "buf_rows b" i] by (simp add: buf_wf_def)

lemma tuple_keys_distinct:
  assumes "tuple_wf env arity sh"
  shows "distinct (map fst (cs_table (tuple_abs sh)))"
proof -
  let ?rs = "buf_rows (ts_keys sh)"
  have "inj_on ((!) ?rs) (set (map tp_key (ts_hash sh)))"
    using assms by (auto simp: tuple_wf_def inj_on_def nth_eq_iff_index_eq)
  moreover have "distinct (map tp_key (ts_hash sh))" using assms by (simp add: tuple_wf_def)
  ultimately have "distinct (map ((!) ?rs) (map tp_key (ts_hash sh)))" unfolding distinct_map [of "(!) ?rs"] by blast
  then show ?thesis by (simp only: tuple_abs_simps map_map comp_def fst_conv)
qed

lemma tuple_match_key:
  assumes "tuple_wf env arity sh" "e \<in> set (ts_hash sh)"
  shows "tuple_match (ts_keys sh) (tv_hash env key) key e \<longleftrightarrow> buf_rows (ts_keys sh) ! tp_key e = key"
  using assms key_rows [of "ts_keys sh" "tp_key e"] by (auto simp: tuple_match_def tuple_wf_def)

context tuple_finder
begin

lemma find_map_of:
  assumes wf: "tuple_wf env arity sh"
  shows "case tuple_find env sh key of
      None \<Rightarrow> map_of (cs_table (tuple_abs sh)) key = None
    | Some i \<Rightarrow> i < length (ts_hash sh) \<and> buf_rows (ts_keys sh) ! tp_key (ts_hash sh ! i) = key \<and>
        map_of (cs_table (tuple_abs sh)) key = Some (tp_vals (ts_hash sh ! i))"
proof (cases "tuple_find env sh key")
  case None
  have "buf_rows (ts_keys sh) ! tp_key e \<noteq> key" if "e \<in> set (ts_hash sh)" for e
  proof
    assume k: "buf_rows (ts_keys sh) ! tp_key e = key"
    with wf that have "tp_hash e = tv_hash env key" by (auto simp: tuple_wf_def)
    with find_complete [OF None [unfolded tuple_find_def] that] tuple_match_key [OF wf that] k show False by simp
  qed
  then have "key \<notin> fst ` set (cs_table (tuple_abs sh))" unfolding tuple_abs_simps by force
  with None show ?thesis by (simp only: option.case map_of_eq_None_iff simp_thms)
next
  case (Some i)
  from find_sound [OF Some [unfolded tuple_find_def]] have i: "i < length (ts_hash sh)" "tuple_match (ts_keys sh) (tv_hash env key) key (ts_hash sh ! i)" by auto
  then have "buf_rows (ts_keys sh) ! tp_key (ts_hash sh ! i) = key" using tuple_match_key [OF wf nth_mem] by simp
  moreover from this i(1) have "(key, tp_vals (ts_hash sh ! i)) \<in> set (cs_table (tuple_abs sh))" by (force simp: set_conv_nth)
  ultimately show ?thesis using Some i(1) tuple_keys_distinct [OF wf] by (simp add: map_of_eq_Some_iff)
qed

end

lemma update_at:
  "i < length es \<Longrightarrow> distinct (map fst es) \<Longrightarrow> fst (es ! i) = k \<Longrightarrow> AList.update k v es = es[i := (k, v)]"
proof (induction es arbitrary: i)
  case (Cons e es)
  obtain k' v' where e: "e = (k', v')" by (cases e)
  show ?case
  proof (cases i)
    case 0
    with Cons.prems e show ?thesis by simp
  next
    case (Suc j)
    with Cons.prems e have "k' \<noteq> k" by (auto dest: nth_mem)
    with Cons Suc e show ?thesis by simp
  qed
qed simp

lemma shard_add_row_cases:
  "shard_add_row key row sh =
     (case map_of (cs_table sh) key of
        Some s \<Rightarrow> and_then (bs_add_row_sorted s row (cs_subsets sh)) (\<lambda>(s, sb). Ok \<lparr>cs_table = AList.update key s (cs_table sh), cs_subsets = sb\<rparr>)
      | None \<Rightarrow> and_then (bs_singleton row) (\<lambda>s. Ok \<lparr>cs_table = cs_table sh @ [(key, s)], cs_subsets = cs_subsets sh\<rparr>))"
  by (cases "map_of (cs_table sh) key"; cases "id_inc u32_max row")
    (simp_all add: shard_add_row_def bs_singleton_def bs_add_row_sorted_def bs_empty_def range_new_def update_new)

text \<open>Every entry has a row, so there is room for the keys wherever there is room for the rows.\<close>

lemma entries_le_rows:
  "shard_holds M sh g \<Longrightarrow> set es \<subseteq> set (cs_table sh) \<Longrightarrow> length es \<le> table_rows es g"
proof (induction es)
  case (Cons e es)
  obtain v s where e: "e = (v, s)" by (cases e)
  with Cons.prems entry_rows(1) [of M sh g v s] have "1 \<le> length (g v)" by (cases "g v") simp_all
  with Cons e show ?case by simp
qed simp

lemma length_update_le: "length (AList.update k v es) \<le> Suc (length es)"
  by (induction es) auto

context tuple_finder
begin

text \<open>Adding a row to a shard does what it does to the map.\<close>

lemma tuple_shard_add_refines:
  assumes wf: "tuple_wf env arity sh" and key: "length key = arity" and room: "length (ts_hash sh) \<le> u32_max"
    and add: "shard_add_row key row (tuple_abs sh) = Ok ash"
  shows "\<exists>sh'. tuple_shard_add env key row sh = Ok sh' \<and> tuple_abs sh' = ash \<and> tuple_wf env arity sh'"
proof (cases "tuple_find env sh key")
  case (Some i)
  with find_map_of [OF wf, of key] have i: "i < length (ts_hash sh)" "buf_rows (ts_keys sh) ! tp_key (ts_hash sh ! i) = key"
    "map_of (cs_table (tuple_abs sh)) key = Some (tp_vals (ts_hash sh ! i))" by simp_all
  let ?e = "ts_hash sh ! i"
  from add obtain s sb where s: "bs_add_row_sorted (tp_vals ?e) row (ts_subsets sh) = Ok (s, sb)"
    "ash = \<lparr>cs_table = AList.update key s (cs_table (tuple_abs sh)), cs_subsets = sb\<rparr>"
    unfolding shard_add_row_cases i(3) by (auto elim!: and_then_OkE)
  let ?sh = "sh\<lparr>ts_hash := (ts_hash sh)[i := ?e\<lparr>tp_vals := s\<rparr>], ts_subsets := sb\<rparr>"
  have "AList.update key s (cs_table (tuple_abs sh)) = (cs_table (tuple_abs sh))[i := (key, s)]"
    by (rule update_at) (use i tuple_keys_distinct [OF wf] in simp_all)
  then have "tuple_abs ?sh = ash" using s(2) i(1,2) by (simp add: tuple_abs_def map_update)
  moreover have "tuple_wf env arity ?sh"
  proof -
    have "map tp_key ((ts_hash sh)[i := ?e\<lparr>tp_vals := s\<rparr>]) = map tp_key (ts_hash sh)" using i(1) by (simp add: map_update list_update_same_conv)
    moreover have "e' \<in> set ((ts_hash sh)[i := ?e\<lparr>tp_vals := s\<rparr>]) \<Longrightarrow> \<exists>e \<in> set (ts_hash sh). tp_key e' = tp_key e \<and> tp_hash e' = tp_hash e" for e'
      using i(1) by (auto dest!: subsetD [OF set_update_subset_insert])
    ultimately show ?thesis using wf unfolding tuple_wf_def by fastforce
  qed
  ultimately show ?thesis using Some i(1) s(1) by (simp add: tuple_shard_add_def)
next
  case None
  with find_map_of [OF wf, of key] have new: "map_of (cs_table (tuple_abs sh)) key = None" by simp
  from add obtain s where s: "bs_singleton row = Ok s" "ash = \<lparr>cs_table = cs_table (tuple_abs sh) @ [(key, s)], cs_subsets = ts_subsets sh\<rparr>"
    unfolding shard_add_row_cases new by (auto elim!: and_then_OkE)
  have keys: "holds (ts_keys sh) (buf_rows (ts_keys sh))" "length (buf_rows (ts_keys sh)) \<le> u32_max" "length key = n_columns (ts_keys sh)"
    using wf key room by (simp_all add: tuple_wf_def buf_wf_def)
  from add_row_holds [OF keys(1,3,2)] obtain b where
    b: "buf_add_row (ts_keys sh) key = Ok (length (buf_rows (ts_keys sh)), b)" "buf_wf b" "buf_rows b = buf_rows (ts_keys sh) @ [key]" "n_columns b = n_columns (ts_keys sh)"
    by (auto simp: holds_wf)
  let ?e = "\<lparr>tp_hash = tv_hash env key, tp_key = length (buf_rows (ts_keys sh)), tp_vals = s\<rparr>"
  let ?sh = "sh\<lparr>ts_keys := b, ts_hash := ts_hash sh @ [?e]\<rparr>"
  have old: "\<forall>e \<in> set (ts_hash sh). tp_key e < length (buf_rows (ts_keys sh))" using wf by (simp add: tuple_wf_def)
  have "key \<notin> set (buf_rows (ts_keys sh))"
  proof
    assume "key \<in> set (buf_rows (ts_keys sh))"
    then obtain j where j: "j < length (buf_rows (ts_keys sh))" "buf_rows (ts_keys sh) ! j = key" by (auto simp: in_set_conv_nth)
    have "set (map tp_key (ts_hash sh)) = {..<length (buf_rows (ts_keys sh))}"
      using wf old distinct_card [of "map tp_key (ts_hash sh)"] by (intro card_subset_eq) (auto simp: tuple_wf_def)
    with j(1) have "j \<in> tp_key ` set (ts_hash sh)" by auto
    then obtain e where "e \<in> set (ts_hash sh)" "tp_key e = j" by blast
    with j(2) new show False by (force simp: map_of_eq_None_iff)
  qed
  moreover have "length (buf_rows (ts_keys sh)) \<notin> tp_key ` set (ts_hash sh)" using old by auto
  ultimately have "tuple_wf env arity ?sh" using wf b(2-4) by (simp add: tuple_wf_def nth_append less_Suc_eq)
  moreover have "tuple_abs ?sh = ash" using s(2) b(3) old by (auto simp: tuple_abs_def nth_append)
  ultimately show ?thesis using None b(1) s(1) by (auto simp: tuple_shard_add_def)
qed

text \<open>Adding rows one after the other.\<close>

lemma tuple_add_all_refines:
  "tuple_wf env arity sh \<Longrightarrow> \<forall>(i, key) \<in> set qs. length key = arity \<Longrightarrow> length (ts_hash sh) + length qs \<le> Suc u32_max \<Longrightarrow>
    shard_add_all qs (tuple_abs sh) = Ok ash \<Longrightarrow> \<exists>sh'. tuple_add_all env qs sh = Ok sh' \<and> tuple_abs sh' = ash \<and> tuple_wf env arity sh'"
proof (induction qs arbitrary: sh)
  case (Cons q qs)
  obtain i key where q: "q = (i, key)" by (cases q)
  from Cons.prems(4) obtain ash1 where 1: "shard_add_row key i (tuple_abs sh) = Ok ash1" "shard_add_all qs ash1 = Ok ash"
    unfolding q by (auto elim: and_then_OkE)
  from Cons.prems(2,3) have "length key = arity" "length (ts_hash sh) \<le> u32_max" by (auto simp: q)
  from tuple_shard_add_refines [OF Cons.prems(1) this 1(1)] obtain sh1 where
    sh1: "tuple_shard_add env key i sh = Ok sh1" "tuple_abs sh1 = ash1" "tuple_wf env arity sh1" by blast
  have "length (cs_table ash1) \<le> Suc (length (cs_table (tuple_abs sh)))"
    using 1(1) length_update_le by (auto simp del: tuple_abs_simps simp: shard_add_row_def elim!: and_then_OkE)
  then have "length (ts_hash sh1) + length qs \<le> Suc u32_max" using Cons.prems(3) unfolding sh1(2) [symmetric] by simp
  from Cons.IH [OF sh1(3) _ this] Cons.prems(2) 1(2) sh1(1,2) q show ?case by simp
qed simp

lemma tuple_add_all_ok:
  assumes M: "64 * M \<le> u32_max" and wf: "tuple_wf env arity sh" and qs: "\<forall>(i, key) \<in> set qs. length key = arity"
    and sh: "shard_holds M (tuple_abs sh) g" and asc: "\<forall>v. ascending (g v @ map fst (filter (\<lambda>e. snd e = v) qs))"
    and room: "table_rows (cs_table (tuple_abs sh)) g + length qs \<le> M"
  shows "\<exists>sh'. tuple_add_all env qs sh = Ok sh' \<and> tuple_wf env arity sh' \<and>
    shard_holds M (tuple_abs sh') (\<lambda>v. g v @ map fst (filter (\<lambda>e. snd e = v) qs)) \<and>
    table_rows (cs_table (tuple_abs sh')) (\<lambda>v. g v @ map fst (filter (\<lambda>e. snd e = v) qs)) = table_rows (cs_table (tuple_abs sh)) g + length qs"
proof -
  from shard_add_all_ok [OF M sh asc room] obtain ash where
    1: "shard_add_all qs (tuple_abs sh) = Ok ash" "shard_holds M ash (\<lambda>v. g v @ map fst (filter (\<lambda>e. snd e = v) qs))"
    "table_rows (cs_table ash) (\<lambda>v. g v @ map fst (filter (\<lambda>e. snd e = v) qs)) = table_rows (cs_table (tuple_abs sh)) g + length qs" by blast
  have "length (ts_hash sh) \<le> table_rows (cs_table (tuple_abs sh)) g" using entries_le_rows [OF sh order_refl] by simp
  with room M have "length (ts_hash sh) + length qs \<le> Suc u32_max" by linarith
  from tuple_add_all_refines [OF wf qs this 1(1)] 1(2,3) show ?thesis by blast
qed

end

section \<open>What an index holds\<close>

definition tx_abs :: "tuple_index \<Rightarrow> val list shard_index" where
  "tx_abs ti = \<lparr>ci_log2 = tx_log2 ti, ci_shards = map tuple_abs (tx_shards ti)\<rparr>"

definition tx_holds :: "tuple_env \<Rightarrow> nat \<Rightarrow> nat \<Rightarrow> tuple_index \<Rightarrow> nat \<Rightarrow> (val list \<Rightarrow> nat list) \<Rightarrow> bool" where
  "tx_holds env arity M ti T f \<longleftrightarrow> 0 < arity \<and> ci_holds M (tv_hash env) (tx_abs ti) T f \<and> (\<forall>sh \<in> set (tx_shards ti). tuple_wf env arity sh)"

lemma tx_abs_simps [simp]: "ci_log2 (tx_abs ti) = tx_log2 ti" "ci_shards (tx_abs ti) = map tuple_abs (tx_shards ti)"
  by (simp_all add: tx_abs_def)

text \<open>Shard by shard.\<close>

definition tuple_shard_holds :: "tuple_env \<Rightarrow> nat \<Rightarrow> nat \<Rightarrow> tuple_shard \<Rightarrow> nat \<Rightarrow> (val list \<Rightarrow> nat list) \<Rightarrow> bool" where
  "tuple_shard_holds env arity M sh T g \<longleftrightarrow> tuple_wf env arity sh \<and> shard_holds M (tuple_abs sh) g \<and> table_rows (cs_table (tuple_abs sh)) g \<le> T"

lemma tx_holds_shards:
  "tx_holds env arity M ti T f \<longleftrightarrow> 0 < arity \<and> tx_log2 ti < 64 \<and> length (tx_shards ti) = 2 ^ tx_log2 ti \<and> T \<le> M \<and>
     (\<forall>k < 2 ^ tx_log2 ti. tuple_shard_holds env arity M (tx_shards ti ! k) T (in_shard_of (tv_hash env) (tx_log2 ti) k f))"
proof (cases "length (tx_shards ti) = 2 ^ tx_log2 ti")
  case True
  then have "map tuple_abs (tx_shards ti) ! k = tuple_abs (tx_shards ti ! k)" if "k < 2 ^ tx_log2 ti" for k using that by simp
  moreover have "(\<forall>sh \<in> set (tx_shards ti). tuple_wf env arity sh) \<longleftrightarrow> (\<forall>k < 2 ^ tx_log2 ti. tuple_wf env arity (tx_shards ti ! k))"
    using True by (simp add: all_set_conv_all_nth)
  ultimately show ?thesis unfolding tx_holds_def ci_holds_def tx_abs_simps tuple_shard_holds_def using True by fastforce
qed (simp add: tx_holds_def ci_holds_def)

lemma tx_holdsD:
  assumes "tx_holds env arity M ti T f"
  shows "0 < arity" "ci_holds M (tv_hash env) (tx_abs ti) T f" "tx_log2 ti < 64" "length (tx_shards ti) = 2 ^ tx_log2 ti" "T \<le> M"
    and "k < 2 ^ tx_log2 ti \<Longrightarrow> tuple_shard_holds env arity M (tx_shards ti ! k) T (in_shard_of (tv_hash env) (tx_log2 ti) k f)"
  using assms by (simp add: tx_holds_def, simp add: tx_holds_def, simp_all add: tx_holds_shards)

text \<open>Steps of the shards, all of them.\<close>

lemma tx_shards_ok:
  assumes ti: "tx_holds env arity M ti T f" and T: "T' \<le> M"
    and step: "\<And>k sh. k < 2 ^ tx_log2 ti \<Longrightarrow> tuple_shard_holds env arity M sh T (in_shard_of (tv_hash env) (tx_log2 ti) k f) \<Longrightarrow>
      \<exists>sh'. F k sh = Ok sh' \<and> tuple_shard_holds env arity M sh' T' (in_shard_of (tv_hash env) (tx_log2 ti) k f')"
  shows "\<exists>shards. map_result (\<lambda>(k, sh). F k sh) (enumerate 0 (tx_shards ti)) = Ok shards \<and> tx_holds env arity M (ti\<lparr>tx_shards := shards\<rparr>) T' f'"
proof -
  have "\<exists>shards. map_result (\<lambda>(k, sh). F k sh) (enumerate 0 (tx_shards ti)) = Ok shards \<and> length shards = length (tx_shards ti) \<and>
      (\<forall>k < length (tx_shards ti). tuple_shard_holds env arity M (shards ! k) T' (in_shard_of (tv_hash env) (tx_log2 ti) k f'))"
    by (rule each_shard_ok) (use step ti in \<open>simp add: tx_holds_shards\<close>)
  then show ?thesis using tx_holdsD [OF ti] T by (auto simp: tx_holds_shards)
qed

text \<open>And of one shard, which adds a row to one key.\<close>

lemma tx_edit_ok:
  assumes ti: "tx_holds env arity M ti T f" and T: "T \<le> T'" "T' \<le> M"
    and step: "\<And>sh g. tuple_shard_holds env arity M sh T g \<Longrightarrow> g key = f key \<Longrightarrow>
      \<exists>sh'. F sh = Ok sh' \<and> tuple_shard_holds env arity M sh' T' (g(key := rs))"
  shows "\<exists>sh'. F (tx_shards ti ! shard_id (tx_log2 ti) (tv_hash env key)) = Ok sh' \<and> shard_id (tx_log2 ti) (tv_hash env key) < length (tx_shards ti) \<and>
    tx_holds env arity M (ti\<lparr>tx_shards := (tx_shards ti)[shard_id (tx_log2 ti) (tv_hash env key) := sh']\<rparr>) T' (f(key := rs))"
proof -
  let ?k = "shard_id (tx_log2 ti) (tv_hash env key)" and ?g = "\<lambda>k. in_shard_of (tv_hash env) (tx_log2 ti) k f"
  note d = tx_holdsD [OF ti]
  have k: "?k < 2 ^ tx_log2 ti" using d(3) by (rule shard_id_bound)
  have "?g ?k key = f key" by (simp add: in_shard_of_def value_shard_def)
  from step [OF d(6) [OF k] this] obtain sh' where
    1: "F (tx_shards ti ! ?k) = Ok sh'" "tuple_shard_holds env arity M sh' T' ((?g ?k)(key := rs))" by blast
  have upd: "in_shard_of (tv_hash env) (tx_log2 ti) k (f(key := rs)) = (if k = ?k then (?g k)(key := rs) else ?g k)" for k
    by (auto simp: in_shard_of_def value_shard_def fun_eq_iff)
  have "tuple_shard_holds env arity M (tx_shards ti ! k) T' (?g k)" if "k < 2 ^ tx_log2 ti" for k
    using d(6) [OF that] T(1) by (simp add: tuple_shard_holds_def)
  then have "tx_holds env arity M (ti\<lparr>tx_shards := (tx_shards ti)[?k := sh']\<rparr>) T' (f(key := rs))"
    using d(1,3,4) k T(2) 1(2) by (simp add: tx_holds_shards upd nth_list_update)
  with 1(1) k d(4) show ?thesis by auto
qed

end
