(* ===== verification/IndexRefresh.thy ===== *)
theory IndexRefresh
  imports IndexParallel KeyedTable
begin

text \<open>
  \<open>ColumnIndex\<close> as an implementation of the trait \<open>IndexBase\<close>
  (\<open>egglog/core-relations/src/hash_index/mod.rs\<close>), which discharges the laws that \<open>Index::refresh\<close> needs, and
  the properties of an index over a keyed table: a refresh makes it exact, all paths of a refresh agree,
  and the merges of the table between two refreshes do not invalidate it.
\<close>

section \<open>Model\<close>

definition column_ops :: "(val \<Rightarrow> full_hash) \<Rightarrow> nat \<Rightarrow> (nat \<Rightarrow> nat \<Rightarrow> nat) \<Rightarrow> (column_index, val) index_ops" where
  "column_ops hash n_workers moment =
     \<lparr>ib_clear = ci_clear, ib_get_subset = ci_get_subset hash, ib_merge_rows = ci_merge_rows hash,
      ib_merge_parallel = ci_merge_parallel hash n_workers moment,
      ib_rebuild_full = \<lambda>cols t s ci. Some (ci_rebuild_full hash t s cols ci)\<rparr>"

section \<open>The laws\<close>

abbreviation column_keeps :: "(val \<Rightarrow> full_hash) \<Rightarrow> nat \<Rightarrow> column_index \<Rightarrow> nat \<Rightarrow> (val \<Rightarrow> nat list) \<Rightarrow> bool" where
  "column_keeps hash \<equiv> \<lambda>M. ci_holds M hash"

lemma ci_holds_ascending:
  assumes "ci_holds M hash ci T f"
  shows "ascending (f v)"
proof -
  let ?k = "value_shard hash (ci_log2 ci) v"
  have "shard_holds M (ci_shards ci ! ?k) (in_shard_of hash (ci_log2 ci) ?k f)"
    using assms by (simp add: ci_holds_def value_shard_bound)
  from shard_holdsD(5) [OF this, of v] show ?thesis by simp
qed

interpretation column_index: index_provider "column_ops hash n_workers moment" "\<lambda>n. True" holds_value "column_keeps hash"
  for hash n_workers moment
proof
  fix M :: nat and ci :: column_index and T f
  assume ci: "column_keeps hash M ci T f"
  show "ib_get_subset (column_ops hash n_workers moment) ci k = Ok (if f k = [] then None else Some (subset_of (f k)))" for k
    using ci_get_holds [OF ci] by (simp add: column_ops_def)
  show "ascending (f k)" for k by (rule ci_holds_ascending [OF ci])
  show "\<exists>ti'. ib_clear (column_ops hash n_workers moment) ci = Ok ti' \<and> column_keeps hash M ti' 0 (\<lambda>k. [])"
    using ci_clear_ok [OF ci] by (auto simp: column_ops_def)
next
  fix M :: nat and buf and ci :: column_index and T f
  assume "64 * M \<le> u32_max" "buf_wf buf" "column_keeps hash M ci T f" "T + cell_count (tag_rows buf) \<le> M" "scan_fits f (tag_rows buf)"
  then show "\<exists>ti'. ib_merge_rows (column_ops hash n_workers moment) buf ci = Ok ti' \<and>
      column_keeps hash M ti' (T + cell_count (tag_rows buf)) (\<lambda>k. f k @ rows_with (tag_rows buf) k)"
    using ci_add_rows_ok [of M hash ci T f "tag_rows buf"] by (auto simp: column_ops_def ci_merge_rows_def tag_iter_rows)
next
  fix t cols s and M :: nat and ci :: column_index and T f
  assume "scannable t cols s" "64 * M \<le> u32_max" "column_keeps hash M ci T f"
    "T + cell_count (scan_of t cols (rows s)) \<le> M" "scan_fits f (scan_of t cols (rows s))"
  from merge_parallel_ok [OF this, of n_workers moment]
  show "\<exists>ti'. ib_merge_parallel (column_ops hash n_workers moment) cols t s ci = Some (Ok ti') \<and>
      column_keeps hash M ti' (T + cell_count (scan_of t cols (rows s))) (\<lambda>k. f k @ rows_with (scan_of t cols (rows s)) k)"
    by (simp add: column_ops_def)
next
  fix t cols s and M :: nat and ci :: column_index and T
  assume t: "scannable t cols s" and M: "64 * M \<le> u32_max" and ci: "column_keeps hash M ci T (\<lambda>k. [])"
    and room: "T + cell_count (scan_of t cols (rows s)) \<le> M"
  have "readable t" "word_rows t" "cols \<noteq> []" "\<forall>c \<in> set cols. c < sw_columns t" "scan_within (length (sw_rows t)) s"
    using t by (simp_all add: scannable_def word_rows_def)
  from rebuild_full_ok [OF this M ci room]
  show "\<exists>ti'. ib_rebuild_full (column_ops hash n_workers moment) cols t s ci = Some (Ok ti') \<and>
      column_keeps hash M ti' (T + cell_count (scan_of t cols (rows s))) (rows_with (scan_of t cols (rows s)))"
    by (auto simp: column_ops_def)
qed

section \<open>Changes of the table\<close>

text \<open>A change of the table that only appends and removes rows keeps what the index has.\<close>

lemma covers_appends:
  assumes "covers mentions t cols n f" "appends_only (sw_rows t) (sw_rows t')"
  shows "covers mentions t' cols n f"
proof -
  have same: "sw_alive t i \<and> cells_of t' cols i = cells_of t cols i" if i: "i < n" "sw_alive t' i" for i
  proof -
    have len: "i < length (sw_rows t)" using i(1) assms(1) by (simp add: covers_def)
    obtain r where "sw_live t' i = Some r" using i(2) by auto
    with assms(2) len have "sw_live t i = Some r" by (auto simp: appends_only_def)
    with \<open>sw_live t' i = Some r\<close> show ?thesis by (auto simp: live_at_Some cells_of_def)
  qed
  with assms show ?thesis unfolding covers_def appends_only_def by (metis order_trans)
qed

lemma index_ok_appends:
  assumes "index_ok mentions keeps M t ix"
    and "sw_generation t' = sw_generation t \<and> appends_only (sw_rows t) (sw_rows t') \<or> sw_generation t < sw_generation t'"
  shows "index_ok mentions keeps M t' ix"
  using assms covers_appends unfolding index_ok_def by (metis leD le_trans less_imp_le)

section \<open>Properties\<close>

abbreviation column_index_ok :: "(val \<Rightarrow> full_hash) \<Rightarrow> nat \<Rightarrow> sorted_table \<Rightarrow> column_index index \<Rightarrow> bool" where
  "column_index_ok hash \<equiv> index_ok holds_value (column_keeps hash)"

lemma new_column_index_ok:
  assumes "threads \<le> 2 ^ 56"
  shows "column_index_ok hash M t (index_new key (ci_new threads))"
  using ci_new_ok [OF assms, of M hash] by (auto simp: index_ok_def index_new_def covers_def intro!: exI [of _ 0])

text \<open>An index on the second column of the sample table.\<close>

definition sample_index :: "column_index index" where
  "sample_index = index_new [1] (ci_new 1)"

lemma sample_index_ok: "column_index_ok hash M t sample_index" "ix_key sample_index = [1]" "ix_updated sample_index = (0, 0)"
  using new_column_index_ok [of 1 hash M t "[1]"] by (simp_all add: sample_index_def) (simp_all add: index_new_def)

lemma sample_readable: "readable sample_keyed" "\<forall>r \<in> set (sw_rows sample_keyed). \<forall>v \<in> set r. v \<le> u32_max" "length (sw_rows sample_keyed) = 1" "sw_columns sample_keyed = 3"
  using sw_wf_readable [of sample_env sample_keyed] sample_ready sample_rows(1)
  by (simp_all add: ready_def u32_max_def) (simp add: sample_keyed_def)

text \<open>
  C10: A refresh is exact.  Whatever an index of a keyed table was up to date with, and whichever of its
  three paths \<open>Index::refresh\<close> takes, after it the index needs no refresh, and a lookup gives in ascending
  order rows whose live ones are exactly the live rows that have the value in an indexed column (rows that
  have become stale since they were listed may be among them, and a caller drops them); no entry means
  that there is none.  With room for all cells of the table, 64 times which is at most the largest
  row id, nothing panics and the loops end.
\<close>

theorem index_refresh_exact:
  assumes "readable t" "\<forall>r \<in> set (sw_rows t). \<forall>v \<in> set r. v \<le> u32_max" "ix_key ix \<noteq> []" "\<forall>c \<in> set (ix_key ix). c < sw_columns t"
    and "64 * M \<le> u32_max" "length (ix_key ix) * length (sw_rows t) \<le> M" "column_index_ok hash M t ix"
  shows "\<exists>ix'. index_refresh (column_ops hash n_workers moment) threads cutoff t ix = Some (Ok ix') \<and>
    column_index_ok hash M t ix' \<and> needs_refresh ix' t = Ok False \<and>
    (\<forall>v. \<exists>s. index_get (column_ops hash n_workers moment) ix' v = Ok s \<and>
       (case s of None \<Rightarrow> selected_rows holds_value t (ix_key ix) v = []
        | Some s \<Rightarrow> ascending (rows s) \<and> filter (sw_alive t) (rows s) = selected_rows holds_value t (ix_key ix) v))"
  by (rule column_index.refreshed_index [OF assms TrueI])

theorem index_refresh_exact_witness:
  "\<exists>ix s. index_refresh (column_ops (\<lambda>v. 0) 1 (\<lambda>j k. 0)) 1 400000 sample_keyed sample_index = Some (Ok ix) \<and>
     index_get (column_ops (\<lambda>v. 0) 1 (\<lambda>j k. 0)) ix 5 = Ok (Some s) \<and> filter (sw_alive sample_keyed) (rows s) = [0]"
proof -
  have live: "selected_rows holds_value sample_keyed [1] 5 = [0]"
    using sample_rows(1) by (simp add: selected_rows_def cells_of_def live_at_def is_stale_def u32_max_def)
  note t = sample_readable
  have key: "ix_key sample_index \<noteq> []" "\<forall>c \<in> set (ix_key sample_index). c < sw_columns sample_keyed" "64 * 1 \<le> u32_max"
    "length (ix_key sample_index) * length (sw_rows sample_keyed) \<le> 1"
    using t(3,4) sample_index_ok(2) by (simp_all add: u32_max_def)
  from index_refresh_exact [OF t(1,2) key sample_index_ok(1), of "\<lambda>v. 0" 1 "\<lambda>j k. 0" 1 400000] obtain ix where
    ix: "index_refresh (column_ops (\<lambda>v. 0) 1 (\<lambda>j k. 0)) 1 400000 sample_keyed sample_index = Some (Ok ix)"
    "\<forall>v. \<exists>s. index_get (column_ops (\<lambda>v. 0) 1 (\<lambda>j k. 0)) ix v = Ok s \<and>
      (case s of None \<Rightarrow> selected_rows holds_value sample_keyed (ix_key sample_index) v = []
       | Some s \<Rightarrow> ascending (rows s) \<and> filter (sw_alive sample_keyed) (rows s) = selected_rows holds_value sample_keyed (ix_key sample_index) v)" by blast
  from ix(2) [rule_format, of 5] obtain s where
    "index_get (column_ops (\<lambda>v. 0) 1 (\<lambda>j k. 0)) ix 5 = Ok s"
    "case s of None \<Rightarrow> [0 :: nat] = []
     | Some s \<Rightarrow> ascending (rows s) \<and> filter (sw_alive sample_keyed) (rows s) = [0]" unfolding sample_index_ok(2) live by blast
  with ix(1) show ?thesis by (cases s) simp_all
qed

text \<open>
  C14: The paths of a refresh agree.  When the major version of the table is new, building the index by
  sorting the pairs of every column and merging the sorted blocks, by merging sorted chunks of the scan
  shard by shard, or by splitting batches into queues that fill up in any order gives, for every value, the
  same subset: the live rows that have the value, as a range when they are consecutive and as a list
  otherwise.
\<close>

theorem index_paths_agree:
  assumes "readable t" "\<forall>r \<in> set (sw_rows t). \<forall>v \<in> set r. v \<le> u32_max" "ix_key ix \<noteq> []" "\<forall>c \<in> set (ix_key ix). c < sw_columns t"
    and "64 * M \<le> u32_max" "length (ix_key ix) * length (sw_rows t) \<le> M" "column_index_ok hash M t ix" "fst (ix_updated ix) \<noteq> sw_generation t"
  shows "\<exists>ix1 ix2. index_refresh (column_ops hash n_workers1 moment1) threads1 cutoff1 t ix = Some (Ok ix1) \<and>
    index_refresh (column_ops hash n_workers2 moment2) threads2 cutoff2 t ix = Some (Ok ix2) \<and>
    (\<forall>v. ci_get_subset hash (ix_table ix1) v = ci_get_subset hash (ix_table ix2) v \<and>
       ci_get_subset hash (ix_table ix1) v =
         Ok (let rs = selected_rows holds_value t (ix_key ix) v in
             if rs = [] then None
             else Some (if rs = [hd rs..<Suc (last rs)] then Dense (range_new (hd rs) (Suc (last rs))) else Sparse rs)))"
proof -
  from column_index.refresh_paths_agree [OF assms(1-7) TrueI assms(8), of n_workers1 moment1 threads1 cutoff1]
    column_index.refresh_paths_agree [OF assms(1-7) TrueI assms(8), of n_workers2 moment2 threads2 cutoff2]
  show ?thesis by (auto simp: index_get_def column_ops_def Let_def subset_of_def simp del: upt_Suc)
qed

text \<open>The sample table as it is after its first rehash, say: under a major version that the index has not seen.\<close>

theorem index_paths_agree_witness:
  "\<exists>ix1 ix2. index_refresh (column_ops (\<lambda>v. 0) 1 (\<lambda>j k. 0)) 1 0 (sample_keyed\<lparr>sw_generation := 3\<rparr>) sample_index = Some (Ok ix1) \<and>
     index_refresh (column_ops (\<lambda>v. 0) 8 (\<lambda>j k. j)) 8 0 (sample_keyed\<lparr>sw_generation := 3\<rparr>) sample_index = Some (Ok ix2) \<and>
     ci_get_subset (\<lambda>v. 0) (ix_table ix1) 5 = ci_get_subset (\<lambda>v. 0) (ix_table ix2) 5"
proof -
  let ?t = "sample_keyed\<lparr>sw_generation := 3\<rparr>"
  note t = sample_readable
  have "readable ?t" using t(1) by (simp add: readable_def)
  moreover have "\<forall>r \<in> set (sw_rows ?t). \<forall>v \<in> set r. v \<le> u32_max" "ix_key sample_index \<noteq> []" "\<forall>c \<in> set (ix_key sample_index). c < sw_columns ?t" "64 * 1 \<le> u32_max"
    "length (ix_key sample_index) * length (sw_rows ?t) \<le> 1" "fst (ix_updated sample_index) \<noteq> sw_generation ?t"
    using t(2-4) sample_index_ok(2,3) by (simp_all add: u32_max_def)
  ultimately show ?thesis
    using index_paths_agree [of ?t sample_index 1 "\<lambda>v. 0" 1 "\<lambda>j k. 0" 1 0 8 "\<lambda>j k. j" 8 0] sample_index_ok(1) by blast
qed

text \<open>
  C17: Merges between refreshes.  A merge of a keyed table keeps what is known of an index: when the major
  version stays, every row that was live behind the version of the index is where it was, and the index
  lists it; when rows have moved, the major version is new and the next refresh rebuilds the index.  In
  particular the live rows of an answer of an index whose version is still that of the table after the
  merge are exactly the live rows with the value, even though the merge has made rows stale, which the
  index may still list.
\<close>

theorem index_survives_merge:
  assumes "keyed_env (bridge_table_env khash search sops sm actions cols)" "merge_wf sops sm actions cols"
    and "has_layout sm t" "ready (bridge_table_env khash search sops sm actions cols) t"
    and "sw_merge (bridge_table_env khash search sops sm actions cols) t st = Ok (added, t', st')" "column_index_ok hash M t ix"
  shows "column_index_ok hash M t' ix \<and>
    (needs_refresh ix t' = Ok False \<longrightarrow>
       (\<forall>v. \<exists>s. index_get (column_ops hash n_workers moment) ix v = Ok s \<and>
          (case s of None \<Rightarrow> selected_rows holds_value t' (ix_key ix) v = []
           | Some s \<Rightarrow> ascending (rows s) \<and> filter (sw_alive t') (rows s) = selected_rows holds_value t' (ix_key ix) v)))"
proof -
  from bridge_merge_ok [OF assms(1-4), of st] assms(5) have
    wf': "sw_wf (bridge_table_env khash search sops sm actions cols) t'" and
    gen: "sw_generation t' = sw_generation t \<and> appends_only (sw_rows t) (sw_rows t') \<or> sw_generation t < sw_generation t'" by auto
  have ok: "column_index_ok hash M t' ix" by (rule index_ok_appends [OF assms(6) gen])
  with column_index.current_index [OF sw_wf_readable [OF wf']] show ?thesis by blast
qed

theorem index_survives_merge_witness:
  "\<exists>t' st' added. sw_merge sample_env sample_keyed [] = Ok (added, t', st') \<and> column_index_ok (\<lambda>v. 0) 1 t' sample_index"
proof -
  from bridge_merge_ok [OF sample_keyed_env union_merge_wf [OF sample_layout(1,2)] sample_layout(3) sample_ready, of "[]"]
  obtain t' st' added where m: "sw_merge sample_env sample_keyed [] = Ok (added, t', st')" by blast
  from index_survives_merge [OF sample_keyed_env union_merge_wf [OF sample_layout(1,2)] sample_layout(3) sample_ready m sample_index_ok(1)] m show ?thesis by blast
qed

end
