(* ===== verification/TupleRefresh.thy ===== *)
theory TupleRefresh
  imports TupleIndex IndexRefresh
begin

text \<open>
  The operations of a tuple index do what the contract of \<open>Index::refresh\<close> needs, so an index on several
  columns is exact after a refresh, too.  The raw hash table is the only parameter; a lookup that takes the
  first entry that matches is an instance of it.
\<close>

section \<open>Lookup and clearing\<close>

lemma return_tuples_entries: "return_tuples es sb = return_entries (map (\<lambda>e. (key e, tp_vals e)) es) sb"
proof (induction es sb rule: return_tuples.induct)
  case (2 e es sb)
  then show ?case by (cases "tp_vals e") (simp_all cong: and_then_cong)
qed simp

lemma tuple_wf_empty:
  assumes "tuple_wf env arity sh" "0 < arity"
  shows "tuple_wf env arity \<lparr>ts_keys = buf_clear (ts_keys sh), ts_hash = [], ts_subsets = sb\<rparr>"
  using assms clear_buffer [of "ts_keys sh"] by (auto simp: tuple_wf_def tag_rows_def)

lemma tuple_clear_ok:
  assumes "tuple_shard_holds env arity M sh T g" "0 < arity"
  shows "\<exists>sh'. and_then (return_tuples (ts_hash sh) (ts_subsets sh)) (\<lambda>sb. Ok \<lparr>ts_keys = buf_clear (ts_keys sh), ts_hash = [], ts_subsets = sb\<rparr>) = Ok sh' \<and>
    tuple_shard_holds env arity M sh' 0 (\<lambda>k. [])"
proof -
  have "shard_holds M (tuple_abs sh) g" using assms(1) unfolding tuple_shard_holds_def by blast
  then have "sb_wf M (ts_subsets sh) (table_live (cs_table (tuple_abs sh)))" by (metis shard_holdsD(4) tuple_abs_simps(1))
  from return_entries_ok [OF this] obtain sb where sb: "return_tuples (ts_hash sh) (ts_subsets sh) = Ok sb" "sb_wf M sb {#}"
    unfolding tuple_abs_simps return_tuples_entries [symmetric] by blast
  have "tuple_wf env arity sh" using assms(1) by (simp add: tuple_shard_holds_def)
  from tuple_wf_empty [OF this assms(2), of sb] sb show ?thesis
    by (simp add: tuple_shard_holds_def shard_holds_def ascending_def)
qed

lemma tx_clear_ok:
  assumes "tx_holds env arity M ti T f"
  shows "\<exists>ti'. tx_clear ti = Ok ti' \<and> tx_holds env arity M ti' 0 (\<lambda>k. [])"
proof -
  let ?F = "\<lambda>sh. and_then (return_tuples (ts_hash sh) (ts_subsets sh)) (\<lambda>sb. Ok \<lparr>ts_keys = buf_clear (ts_keys sh), ts_hash = [], ts_subsets = sb\<rparr>)"
  have none: "in_shard_of hash log2 k (\<lambda>k. []) = (\<lambda>k. [])" for hash log2 k by (simp add: in_shard_of_def fun_eq_iff)
  have "\<exists>shards. map_result (\<lambda>(k, sh). ?F sh) (enumerate 0 (tx_shards ti)) = Ok shards \<and> tx_holds env arity M (ti\<lparr>tx_shards := shards\<rparr>) 0 (\<lambda>k. [])"
    by (rule tx_shards_ok [OF assms]) (use tuple_clear_ok tx_holdsD(1) [OF assms] in \<open>simp_all add: none\<close>)
  moreover have "map_result (\<lambda>(k, sh). G sh) (enumerate n xs) = map_result G xs" for G :: "tuple_shard \<Rightarrow> tuple_shard result" and n xs
    by (induction xs arbitrary: n) simp_all
  ultimately show ?thesis by (auto simp: tx_clear_def)
qed

context tuple_finder
begin

lemma tx_get_ok:
  assumes "tx_holds env arity M ti T f"
  shows "tx_get_subset env ti key = Ok (if f key = [] then None else Some (subset_of (f key)))"
proof -
  note d = tx_holdsD [OF assms]
  let ?k = "shard_id (tx_log2 ti) (tv_hash env key)"
  have k: "?k < 2 ^ tx_log2 ti" using d(3) by (rule shard_id_bound)
  then have wf: "tuple_wf env arity (tx_shards ti ! ?k)" using d(6) by (simp add: tuple_shard_holds_def)
  have "tx_get_subset env ti key = ci_get_subset (tv_hash env) (tx_abs ti) key"
    using find_map_of [OF wf, of key] k d(4)
    by (cases "tuple_find env (tx_shards ti ! ?k) key") (simp_all add: tx_get_subset_def ci_get_subset_def value_shard_def)
  with ci_get_holds [OF d(2), of key] show ?thesis by simp
qed

section \<open>Adding rows\<close>

lemma tuple_step:
  assumes "64 * M \<le> u32_max" "tuple_shard_holds env arity M sh T g" "\<forall>(i, key) \<in> set qs. length key = arity"
    and "\<forall>v. ascending (g v @ map fst (filter (\<lambda>e. snd e = v) qs))" "T + length qs \<le> M"
  shows "\<exists>sh'. tuple_add_all env qs sh = Ok sh' \<and> tuple_shard_holds env arity M sh' (T + length qs) (\<lambda>v. g v @ map fst (filter (\<lambda>e. snd e = v) qs))"
proof -
  have sh: "tuple_wf env arity sh" "shard_holds M (tuple_abs sh) g" "table_rows (cs_table (tuple_abs sh)) g \<le> T"
    using assms(2) unfolding tuple_shard_holds_def by blast+
  with assms(5) have "table_rows (cs_table (tuple_abs sh)) g + length qs \<le> M" by linarith
  from tuple_add_all_ok [OF assms(1) sh(1) assms(3) sh(2) assms(4) this] sh(3) show ?thesis
    unfolding tuple_shard_holds_def by (elim exE conjE) (intro exI conjI, assumption+, linarith)
qed

lemma tx_add_row_ok:
  assumes M: "64 * M \<le> u32_max" and ti: "tx_holds env arity M ti T f" and key: "length key = arity"
    and row: "row < u32_max" "\<forall>i \<in> set (f key). i < row" and T: "Suc T \<le> T'" "T' \<le> M"
  shows "\<exists>ti'. tx_add_row env key row ti = Ok ti' \<and> tx_holds env arity M ti' T' (f(key := f key @ [row]))"
proof -
  have step: "\<exists>sh'. tuple_shard_add env key row sh = Ok sh' \<and> tuple_shard_holds env arity M sh' T' (g(key := f key @ [row]))"
    if sh: "tuple_shard_holds env arity M sh T g" "g key = f key" for sh g
  proof -
    have g: "(\<lambda>v. g v @ map fst (filter (\<lambda>e. snd e = v) [(row, key)])) = g(key := f key @ [row])" using sh(2) by (auto simp: fun_eq_iff)
    have asc: "ascending (g v)" for v using sh(1) unfolding tuple_shard_holds_def by (elim conjE) (rule shard_holdsD(5))
    have "ascending (f key @ [row])" using asc [of key] sh(2) row by (auto simp: ascending_def sorted_wrt_append)
    with asc have "ascending ((g(key := f key @ [row])) v)" for v by simp
    then have "\<forall>v. ascending (g v @ map fst (filter (\<lambda>e. snd e = v) [(row, key)]))" unfolding g [symmetric] by blast
    from tuple_step [OF M sh(1) _ this] key T obtain sh' where
      "tuple_add_all env [(row, key)] sh = Ok sh'" "tuple_shard_holds env arity M sh' (Suc T) (g(key := f key @ [row]))" unfolding g by auto
    with T(1) show ?thesis by (auto simp: tuple_shard_holds_def elim: and_then_OkE)
  qed
  have "T \<le> T'" using T(1) by simp
  have "\<exists>sh'. tuple_shard_add env key row (tx_shards ti ! shard_id (tx_log2 ti) (tv_hash env key)) = Ok sh' \<and> shard_id (tx_log2 ti) (tv_hash env key) < length (tx_shards ti) \<and>
      tx_holds env arity M (ti\<lparr>tx_shards := (tx_shards ti)[shard_id (tx_log2 ti) (tv_hash env key) := sh']\<rparr>) T' (f(key := f key @ [row]))"
    by (rule tx_edit_ok [OF ti \<open>T \<le> T'\<close> T(2)]) (rule step)
  then show ?thesis by (auto simp: tx_add_row_def Let_def)
qed

lemma tx_add_rows_ok:
  assumes M: "64 * M \<le> u32_max"
  shows "tx_holds env arity M ti T f \<Longrightarrow> \<forall>(i, vs) \<in> set es. length vs = arity \<Longrightarrow> T + cell_count es \<le> M \<Longrightarrow> scan_fits f es \<Longrightarrow>
    \<exists>ti'. tx_add_rows env es ti = Ok ti' \<and> tx_holds env arity M ti' (T + cell_count es) (\<lambda>k. f k @ rows_for (=) es k)"
proof (induction es arbitrary: ti T f)
  case (Cons e es)
  obtain i vs where e: "e = (i, vs)" by (cases e)
  have vs: "length vs = arity" "0 < arity" using Cons.prems(1,2) e tx_holdsD(1) by auto
  have i: "i < u32_max" "\<forall>j \<in> set (f vs). j < i" using Cons.prems(4) e by (auto simp: scan_fits_def ascending_def)
  have T: "Suc T \<le> T + length vs" "T + length vs \<le> M" using vs Cons.prems(3) e by auto
  from tx_add_row_ok [OF M Cons.prems(1) vs(1) i T] obtain ti1 where
    1: "tx_add_row env vs i ti = Ok ti1" "tx_holds env arity M ti1 (T + length vs) (f(vs := f vs @ [i]))" by blast
  have "scan_fits (f(vs := f vs @ [i])) es" using Cons.prems(4) e by (auto simp: scan_fits_def ascending_def)
  from Cons.IH [OF 1(2) _ _ this] Cons.prems(2,3) e obtain ti' where
    2: "tx_add_rows env es ti1 = Ok ti'" "tx_holds env arity M ti' (T + length vs + cell_count es) (\<lambda>k. (f(vs := f vs @ [i])) k @ rows_for (=) es k)" by (auto simp del: fun_upd_apply)
  moreover have "(\<lambda>k. (f(vs := f vs @ [i])) k @ rows_for (=) es k) = (\<lambda>k. f k @ rows_for (=) (e # es) k)"
    by (auto simp: e fun_eq_iff)
  ultimately show ?case using 1(1) e by (simp add: add.assoc)
qed simp

end

section \<open>The parallel path\<close>

lemma tuple_split_rows_ok:
  assumes "log2 < 64"
  shows "split_holds (\<lambda>k. k) arity (tv_hash env) log2 qs split \<Longrightarrow> \<forall>(i, vs) \<in> set es. length vs = arity \<Longrightarrow> length qs + length es \<le> u32_max \<Longrightarrow>
    \<exists>split'. tuple_split_rows env log2 es split = Ok split' \<and> split_holds (\<lambda>k. k) arity (tv_hash env) log2 (qs @ es) split'"
proof (induction es arbitrary: qs split)
  case (Cons e es)
  obtain i vs where e: "e = (i, vs)" by (cases e)
  from split_add [OF assms Cons.prems(1), of vs i] Cons.prems(2,3) e obtain b j where
    b: "tag_add_row (split ! value_shard (tv_hash env) log2 vs) i vs = Ok (j, b)" "value_shard (tv_hash env) log2 vs < length split"
    "split_holds (\<lambda>k. k) arity (tv_hash env) log2 (qs @ [(i, vs)]) (split[value_shard (tv_hash env) log2 vs := b])" by auto
  with Cons.IH [OF b(3)] Cons.prems(2,3) e show ?case by (simp add: value_shard_def Let_def)
qed simp

lemma tuple_split_buf_ok:
  assumes "log2 < 64" "buf_wf b" "\<forall>(i, vs) \<in> set (tag_rows b). length vs = arity" "length (tag_rows b) \<le> u32_max"
  shows "\<exists>split. tuple_split_buf env log2 arity b = Ok split \<and> split_holds (\<lambda>k. k) arity (tv_hash env) log2 (tag_rows b) split"
proof -
  obtain b0 where b0: "tag_new arity = Ok b0" using tag_new_ok by blast
  from tuple_split_rows_ok [OF assms(1) split_fresh [OF b0], of "tag_rows b"] assms(3,4) b0 tag_iter_rows [OF assms(2)]
  show ?thesis by (simp add: tuple_split_buf_def)
qed

lemma tuple_add_append: "tuple_add_all env (es @ fs) sh = and_then (tuple_add_all env es sh) (tuple_add_all env fs)"
proof (induction env es sh rule: tuple_add_all.induct)
  case (2 env row key es sh)
  then show ?case by (cases "tuple_shard_add env key row sh") simp_all
qed simp

lemma tuple_drain_adds:
  "\<forall>e \<in> set q. buf_wf (snd e) \<Longrightarrow> tuple_drain env q sh = tuple_add_all env (concat (map (\<lambda>e. tag_rows (snd e)) q)) sh"
proof (induction env q sh rule: tuple_drain.induct)
  case (2 env i b q sh)
  then show ?case by (cases "tuple_add_all env (tag_rows b) sh") (simp_all add: tag_iter_rows tuple_add_append)
qed simp

lemma shard_tuples: "map fst (filter (\<lambda>e. snd e = v) (shard_entries hash log2 k es)) = in_shard_of hash log2 k (rows_for (=) es) v"
  by (auto simp: in_shard_of_def rows_for_def filter_filter case_prod_unfold filter_empty_conv intro!: arg_cong [where f = "map fst"] filter_cong)

context tuple_finder
begin

lemma tx_merge_parallel_ok:
  assumes t: "scannable t cols s" and M: "64 * M \<le> u32_max" and ti: "tx_holds env (length cols) M ti T f"
    and room: "T + cell_count (scan_of t cols (rows s)) \<le> M" and fits: "scan_fits f (scan_of t cols (rows s))"
  shows "\<exists>ti'. tx_merge_parallel env moment cols t s ti = Some (Ok ti') \<and>
    tx_holds env (length cols) M ti' (T + cell_count (scan_of t cols (rows s))) (\<lambda>k. f k @ rows_for (=) (scan_of t cols (rows s)) k)"
proof -
  define es where "es = scan_of t cols (rows s)"
  let ?log2 = "tx_log2 ti"
  note d = tx_holdsD [OF ti]
  have "\<exists>bs. scan_batches t s cols 0 [] = Some (Ok ([] @ bs)) \<and> (\<forall>b \<in> set bs. buf_wf b) \<and> concat (map tag_rows bs) = scan_of t cols (drop 0 (rows s))"
    by (rule scan_batches_ok) (use t in \<open>simp_all add: scannable_def\<close>)
  then obtain bs where bs: "scan_batches t s cols 0 [] = Some (Ok bs)" "\<forall>b \<in> set bs. buf_wf b" "concat (map tag_rows bs) = es"
    by (auto simp: es_def)
  have wide: "\<forall>(i, vs) \<in> set es. length vs = length cols" by (auto simp: es_def scan_of_def)
  have "1 * length es \<le> length cols * length es" using d(1) by (intro mult_le_mono1) linarith
  then have count: "length es \<le> cell_count es" by (simp add: es_def scan_of_def cell_count_def comp_def sum_list_triv mult.commute)
  have small: "length es \<le> u32_max" using count room M unfolding es_def [symmetric] by linarith
  have "\<exists>splits. map_result (tuple_split_buf env ?log2 (length cols)) bs = Ok splits \<and>
      list_all2 (\<lambda>b. split_holds (\<lambda>k. k) (length cols) (tv_hash env) ?log2 (tag_rows b)) bs splits"
  proof (rule map_result_exists)
    fix b assume b: "b \<in> set bs"
    then obtain bs1 bs2 where "bs = bs1 @ b # bs2" by (auto simp: in_set_conv_decomp)
    then have sub: "set (tag_rows b) \<subseteq> set es" "length (tag_rows b) \<le> length es" using bs(3) [symmetric] by auto
    have "\<forall>(i, vs) \<in> set (tag_rows b). length vs = length cols" using sub(1) wide by auto
    from tuple_split_buf_ok [OF d(3) _ this] b bs(2) sub(2) small
    show "\<exists>split. tuple_split_buf env ?log2 (length cols) b = Ok split \<and> split_holds (\<lambda>k. k) (length cols) (tv_hash env) ?log2 (tag_rows b) split" by simp
  qed
  then obtain splits where
    splits: "map_result (tuple_split_buf env ?log2 (length cols)) bs = Ok splits"
    "list_all2 (split_holds (\<lambda>k. k) (length cols) (tv_hash env) ?log2) (map tag_rows bs) splits" by (auto simp: list_all2_map1)
  have asc: "ascending (map fst es)" using fits by (simp add: scan_fits_def es_def)
  then have "sorted_wrt (<) (map fst (concat (map tag_rows bs)))" unfolding bs(3) by (simp add: ascending_def)
  then have order: "sorted_wrt (\<lambda>qs qs'. \<forall>x \<in> set qs. \<forall>y \<in> set qs'. fst x < fst y) (map tag_rows bs)" by (rule pieces_in_order)
  have "\<exists>shards. map_result (\<lambda>(k, sh). and_then (queue_of moment splits k) (\<lambda>q. tuple_drain env (sort_key fst q) sh)) (enumerate 0 (tx_shards ti)) = Ok shards \<and>
      tx_holds env (length cols) M (ti\<lparr>tx_shards := shards\<rparr>) (T + cell_count es) (\<lambda>k. f k @ rows_for (=) es k)"
  proof (rule tx_shards_ok [OF ti room [folded es_def]])
    fix k sh assume k: "k < 2 ^ ?log2" "tuple_shard_holds env (length cols) M sh T (in_shard_of (tv_hash env) ?log2 k f)"
    let ?qs = "shard_entries (tv_hash env) ?log2 k es" and ?g = "in_shard_of (tv_hash env) ?log2 k f"
    note batches = shard_batches [OF k(1) splits(2) order, unfolded bs(3)]
    obtain q where q: "queue_of moment splits k = Ok q" "\<forall>e \<in> set (sort_key fst q). buf_wf (snd e)"
      "concat (map (\<lambda>e. tag_rows (snd e)) (sort_key fst q)) = ?qs"
      using queue_of_ok [OF conjunct1 [OF batches], of moment] batches by auto
    have len: "length ?qs \<le> cell_count es" using length_filter_le le_trans count by blast
    have asc': "\<forall>v. ascending (?g v @ map fst (filter (\<lambda>e. snd e = v) ?qs))"
    proof
      fix v
      have "ascending (rows_for (=) es v)" by (rule rows_for_ascending [OF asc])
      moreover have "ascending (?g v)" using k(2) unfolding tuple_shard_holds_def by (elim conjE) (rule shard_holdsD(5))
      ultimately show "ascending (?g v @ map fst (filter (\<lambda>e. snd e = v) ?qs))"
        unfolding shard_tuples using fits rows_for_subset [of "(=)" es v]
        by (fastforce simp: in_shard_of_def ascending_def sorted_wrt_append scan_fits_def es_def)
    qed
    have "\<forall>(i, key) \<in> set ?qs. length key = length cols" using wide by auto
    moreover have "T + length ?qs \<le> M" using len room [folded es_def] by linarith
    ultimately obtain sh' where sh': "tuple_add_all env ?qs sh = Ok sh'"
      "tuple_shard_holds env (length cols) M sh' (T + length ?qs) (\<lambda>v. ?g v @ map fst (filter (\<lambda>e. snd e = v) ?qs))"
      using tuple_step [OF M k(2) _ asc'] by blast
    have "(\<lambda>v. ?g v @ map fst (filter (\<lambda>e. snd e = v) ?qs)) = in_shard_of (tv_hash env) ?log2 k (\<lambda>v. f v @ rows_for (=) es v)"
      unfolding shard_tuples in_shard_append ..
    with sh' len q show "\<exists>sh'. and_then (queue_of moment splits k) (\<lambda>q. tuple_drain env (sort_key fst q) sh) = Ok sh' \<and>
        tuple_shard_holds env (length cols) M sh' (T + cell_count es) (in_shard_of (tv_hash env) ?log2 k (\<lambda>v. f v @ rows_for (=) es v))"
      by (auto simp: tuple_drain_adds tuple_shard_holds_def simp del: tuple_abs_simps)
  qed
  with bs(1) splits(1) show ?thesis unfolding es_def by (auto simp: tx_merge_parallel_def)
qed

end

section \<open>The laws\<close>

sublocale tuple_finder \<subseteq> tuple_base: index_base "tuple_ops env moment" "\<lambda>n. n = arity" "(=)" "tx_holds env arity"
  for moment arity
proof
  fix M :: nat and ti T f
  assume ti: "tx_holds env arity M ti T f"
  show "ib_get_subset (tuple_ops env moment) ti k = Ok (if f k = [] then None else Some (subset_of (f k)))" for k
    using tx_get_ok [OF ti] by (simp add: tuple_ops_def)
  show "ascending (f k)" for k by (rule ci_holds_ascending [OF tx_holdsD(2) [OF ti]])
  show "\<exists>ti'. ib_clear (tuple_ops env moment) ti = Ok ti' \<and> tx_holds env arity M ti' 0 (\<lambda>k. [])"
    using tx_clear_ok [OF ti] by (simp add: tuple_ops_def)
next
  fix M :: nat and buf ti T f
  assume "64 * M \<le> u32_max" "buf_wf buf" "\<forall>(i, vs) \<in> set (tag_rows buf). length vs = arity" "tx_holds env arity M ti T f"
    "T + cell_count (tag_rows buf) \<le> M" "scan_fits f (tag_rows buf)"
  then show "\<exists>ti'. ib_merge_rows (tuple_ops env moment) buf ti = Ok ti' \<and>
      tx_holds env arity M ti' (T + cell_count (tag_rows buf)) (\<lambda>k. f k @ rows_for (=) (tag_rows buf) k)"
    using tx_add_rows_ok [of M arity ti T f "tag_rows buf"] by (simp add: tuple_ops_def tx_merge_rows_def tag_iter_rows)
qed

sublocale tuple_finder \<subseteq> tuple_provider: index_provider "tuple_ops env moment" "\<lambda>n. n = arity" "(=)" "tx_holds env arity"
  for moment arity
proof
  fix t cols s and M :: nat and ti T f
  assume "scannable t cols s" "length cols = arity" "64 * M \<le> u32_max" "tx_holds env arity M ti T f"
    "T + cell_count (scan_of t cols (rows s)) \<le> M" "scan_fits f (scan_of t cols (rows s))"
  then show "\<exists>ti'. ib_merge_parallel (tuple_ops env moment) cols t s ti = Some (Ok ti') \<and>
      tx_holds env arity M ti' (T + cell_count (scan_of t cols (rows s))) (\<lambda>k. f k @ rows_for (=) (scan_of t cols (rows s)) k)"
    using tx_merge_parallel_ok [of t cols s M ti T f moment] by (auto simp: tuple_ops_def)
next
  fix t cols s and M :: nat and ti T
  assume t: "scannable t cols s" and cols: "length cols = arity" and ti: "64 * M \<le> u32_max" "tx_holds env arity M ti T (\<lambda>k. [])"
    "T + cell_count (scan_of t cols (rows s)) \<le> M"
  have "scan_fits (\<lambda>k. []) (scan_of t cols (rows s))"
    using t scan_ascending [of "length (sw_rows t)" s "sw_alive t"] by (simp add: scannable_def readable_def scan_fits_def)
  from tuple_base.serial_holds [OF t cols ti this, of moment]
  show "\<exists>ti'. ib_rebuild_full (tuple_ops env moment) cols t s ti = Some (Ok ti') \<and>
      tx_holds env arity M ti' (T + cell_count (scan_of t cols (rows s))) (rows_for (=) (scan_of t cols (rows s)))"
    by (simp add: tuple_ops_def rebuild_default_def refresh_serial_def)
qed

context tuple_finder
begin

lemmas tuple_refreshed = tuple_provider.refreshed_index

end

text \<open>A lookup that takes the first entry that matches.\<close>

definition first_hit :: "full_hash \<Rightarrow> (tuple_entry \<Rightarrow> bool) \<Rightarrow> tuple_entry list \<Rightarrow> nat option" where
  "first_hit h p es = find (\<lambda>i. tp_hash (es ! i) = h \<and> p (es ! i)) [0..<length es]"

definition first_env :: "(val list \<Rightarrow> full_hash) \<Rightarrow> tuple_env" where
  "first_env hash = \<lparr>tv_hash = hash, tv_find = first_hit\<rparr>"

interpretation first_finder: tuple_finder "first_env hash" for hash
proof
  fix h p es i
  show "i < length es \<and> p (es ! i)" if "tv_find (first_env hash) h p es = Some i"
    using that by (auto simp: first_env_def first_hit_def find_Some_iff)
  show "\<not> p e" if "tv_find (first_env hash) h p es = None" "e \<in> set es" "tp_hash e = h" for e
    using that by (auto simp: first_env_def first_hit_def find_None_iff in_set_conv_nth)
qed

section \<open>Properties\<close>

abbreviation tuple_index_ok :: "tuple_env \<Rightarrow> nat \<Rightarrow> sorted_table \<Rightarrow> tuple_index index \<Rightarrow> bool" where
  "tuple_index_ok env M t ix \<equiv> index_ok (=) (tx_holds env (length (ix_key ix))) M t ix"

lemma tx_new_ok:
  assumes "0 < arity" "threads \<le> 2 ^ 56"
  shows "\<exists>ti. tx_new arity threads = Ok ti \<and> tx_holds env arity M ti 0 (\<lambda>k. [])"
proof -
  let ?b = "\<lparr>n_columns = arity, total_rows = 0, buf_data = []\<rparr>"
  have "default_log2 threads \<le> 57" using assms(2) by (auto simp: default_log2_def intro!: shard_log2_le)
  moreover have "buf_wf ?b" "buf_rows ?b = []" using assms(1) holds_rows [of ?b "[]"] by (simp_all add: buf_wf_def holds_def)
  ultimately show ?thesis
    using assms(1) by (simp add: tx_new_def Let_def buf_new_def tx_holds_shards tuple_shard_holds_def tuple_wf_def shard_holds_def in_shard_of_def sb_default_wf ascending_def)
qed

lemma new_tuple_index_ok:
  assumes "key \<noteq> []" "threads \<le> 2 ^ 56" "tx_new (length key) threads = Ok ti"
  shows "tuple_index_ok env M t (index_new key ti)"
  using tx_new_ok [of "length key" threads env M] assms by (auto simp: index_ok_def index_new_def covers_def intro!: exI [of _ 0])

text \<open>
  C15: A refresh of an index on several columns is exact.  After it the index needs no refresh, and a lookup
  of a tuple of values gives in ascending order rows whose live ones are exactly the live rows that have
  those values in the indexed columns, in their order (listed rows may have become stale); no entry means that there is none.  All that is
  assumed of the raw hash table is that a lookup gives an entry that matches whenever there is one.
\<close>

theorem tuple_refresh_exact:
  assumes "tuple_finder env"
    and "readable t" "\<forall>r \<in> set (sw_rows t). \<forall>v \<in> set r. v \<le> u32_max" "ix_key ix \<noteq> []" "\<forall>c \<in> set (ix_key ix). c < sw_columns t"
    and "64 * M \<le> u32_max" "length (ix_key ix) * length (sw_rows t) \<le> M" "tuple_index_ok env M t ix"
  shows "\<exists>ix'. index_refresh (tuple_ops env moment) threads cutoff t ix = Some (Ok ix') \<and>
    index_ok (=) (tx_holds env (length (ix_key ix))) M t ix' \<and> needs_refresh ix' t = Ok False \<and>
    (\<forall>key. \<exists>s. index_get (tuple_ops env moment) ix' key = Ok s \<and>
       (case s of None \<Rightarrow> selected_rows (=) t (ix_key ix) key = []
        | Some s \<Rightarrow> ascending (rows s) \<and> filter (sw_alive t) (rows s) = selected_rows (=) t (ix_key ix) key))"
  by (rule tuple_finder.tuple_refreshed [OF assms refl])

text \<open>An index on the first two columns of the sample table.\<close>

definition pair_index :: "tuple_index index" where
  "pair_index = index_new [0, 1] \<lparr>tx_log2 = 0, tx_shards = [\<lparr>ts_keys = \<lparr>n_columns = 2, total_rows = 0, buf_data = []\<rparr>, ts_hash = [], ts_subsets = sb_default\<rparr>]\<rparr>"

lemma pair_index_ok: "ix_key pair_index = [0, 1]" "tuple_index_ok env M t pair_index"
proof -
  show key: "ix_key pair_index = [0, 1]" by (simp add: pair_index_def index_new_def)
  have "tx_new (length [0, 1 :: nat]) 1 = Ok (ix_table pair_index)"
    by (simp add: tx_new_def buf_new_def pair_index_def index_new_def default_log2_def shard_log2.simps)
  from new_tuple_index_ok [OF _ _ this, of env M t] show "tuple_index_ok env M t pair_index"
    by (simp add: pair_index_def index_new_def)
qed

theorem tuple_refresh_exact_witness:
  "\<exists>ix s. index_refresh (tuple_ops (first_env (\<lambda>k. 0)) (\<lambda>j k. 0)) 8 0 sample_keyed pair_index = Some (Ok ix) \<and>
     index_get (tuple_ops (first_env (\<lambda>k. 0)) (\<lambda>j k. 0)) ix (map ((!) (sw_rows sample_keyed ! 0)) [0, 1]) = Ok (Some s) \<and> filter (sw_alive sample_keyed) (rows s) = [0]"
proof -
  let ?k = "map ((!) (sw_rows sample_keyed ! 0)) [0, 1]"
  have live: "selected_rows (=) sample_keyed [0, 1] ?k = [0]"
    using sample_rows(1) by (simp add: selected_rows_def cells_of_def live_at_def is_stale_def u32_max_def)
  note t = sample_readable
  have key: "ix_key pair_index \<noteq> []" "\<forall>c \<in> set (ix_key pair_index). c < sw_columns sample_keyed" "64 * 2 \<le> u32_max"
    "length (ix_key pair_index) * length (sw_rows sample_keyed) \<le> 2"
    using t(3,4) pair_index_ok(1) by (simp_all add: u32_max_def)
  from tuple_refresh_exact [OF first_finder.tuple_finder_axioms t(1,2) key pair_index_ok(2), of "\<lambda>k. 0" "\<lambda>j k. 0" 8 0] obtain ix where
    ix: "index_refresh (tuple_ops (first_env (\<lambda>k. 0)) (\<lambda>j k. 0)) 8 0 sample_keyed pair_index = Some (Ok ix)"
    "\<forall>key. \<exists>s. index_get (tuple_ops (first_env (\<lambda>k. 0)) (\<lambda>j k. 0)) ix key = Ok s \<and>
      (case s of None \<Rightarrow> selected_rows (=) sample_keyed (ix_key pair_index) key = []
       | Some s \<Rightarrow> ascending (rows s) \<and> filter (sw_alive sample_keyed) (rows s) = selected_rows (=) sample_keyed (ix_key pair_index) key)" by blast
  from ix(2) [rule_format, of ?k] obtain s where
    "index_get (tuple_ops (first_env (\<lambda>k. 0)) (\<lambda>j k. 0)) ix ?k = Ok s"
    "case s of None \<Rightarrow> [0 :: nat] = []
     | Some s \<Rightarrow> ascending (rows s) \<and> filter (sw_alive sample_keyed) (rows s) = [0]" unfolding pair_index_ok(1) live by blast
  with ix(1) show ?thesis by (cases s) simp_all
qed

text \<open>
  C25: A shard of a tuple index is a map from tuples to rows.  Adding a row under a key changes the entry of
  the key, found by its hash and the stored key, as adding it to the map does, and no other; a new key is
  stored once, behind the keys there are, and every entry keeps the hash of its key.
\<close>

theorem tuple_shard_refines:
  assumes "tuple_finder env" "tuple_wf env arity sh" "length key = arity" "length (ts_hash sh) \<le> u32_max" "shard_add_row key row (tuple_abs sh) = Ok ash"
  shows "\<exists>sh'. tuple_shard_add env key row sh = Ok sh' \<and> tuple_abs sh' = ash \<and> tuple_wf env arity sh' \<and>
    (tuple_find env sh' key \<noteq> None) \<and> (\<forall>k. k \<noteq> key \<longrightarrow> map_of (cs_table (tuple_abs sh')) k = map_of (cs_table (tuple_abs sh)) k)"
proof -
  from tuple_finder.tuple_shard_add_refines [OF assms] obtain sh' where
    1: "tuple_shard_add env key row sh = Ok sh'" "tuple_abs sh' = ash" "tuple_wf env arity sh'" by blast
  have look: "map_of (cs_table ash) k = map_of (cs_table (tuple_abs sh)) k" if "k \<noteq> key" for k
    using assms(5) that by (auto simp: shard_add_row_def update_conv' simp del: tuple_abs_simps elim!: and_then_OkE)
  have "map_of (cs_table ash) key \<noteq> None"
    using assms(5) by (auto simp: shard_add_row_def update_conv' simp del: tuple_abs_simps elim!: and_then_OkE)
  then have "tuple_find env sh' key \<noteq> None"
    using tuple_finder.find_map_of [OF assms(1) 1(3), of key] unfolding 1(2) by (cases "tuple_find env sh' key") simp_all
  with 1 look show ?thesis by blast
qed

theorem tuple_shard_refines_witness:
  "\<exists>sh'. tuple_shard_add (first_env (\<lambda>k. 7)) [3, 4] 9 (hd (tx_shards (ix_table pair_index))) = Ok sh' \<and>
     map_of (cs_table (tuple_abs sh')) [3, 4] = Some (BufDense (range_new 9 10))"
proof -
  let ?sh = "hd (tx_shards (ix_table pair_index))"
  have "tuple_wf (first_env (\<lambda>k. 7)) 2 ?sh"
    using holds_rows [of "\<lparr>n_columns = 2, total_rows = 0, buf_data = []\<rparr>" "[]"] by (simp add: pair_index_def index_new_def tuple_wf_def buf_wf_def holds_def)
  moreover have "shard_add_row [3, 4] 9 (tuple_abs ?sh) = Ok \<lparr>cs_table = [([3, 4], BufDense (range_new 9 10))], cs_subsets = sb_default\<rparr>"
    by (simp add: shard_add_row_cases pair_index_def index_new_def bs_singleton_def id_inc_def from_usize_def range_new_def u32_max_def)
  moreover have "length (ts_hash ?sh) \<le> u32_max" by (simp add: pair_index_def index_new_def)
  ultimately obtain sh' where "tuple_shard_add (first_env (\<lambda>k. 7)) [3, 4] 9 ?sh = Ok sh'"
    "tuple_abs sh' = \<lparr>cs_table = [([3, 4], BufDense (range_new 9 10))], cs_subsets = sb_default\<rparr>"
    using tuple_shard_refines [OF first_finder.tuple_finder_axioms, of "\<lambda>k. 7" 2 ?sh "[3, 4]" 9] by auto
  then show ?thesis by (simp del: tuple_abs_simps)
qed

end
