(* ===== verification/Spec2Isabelle.thy ===== *)
theory Spec2Isabelle
  imports ConcurrentUnionFind Offsets ProofUses ProofGaps DisplacedMerge DisplacedQuery Rebuild RadixSort KeyedTable TupleRefresh
begin

text \<open>
  A verification development for the egglog encoding workspace.

  \<^bold>\<open>The program.\<close>  The workspace holds egglog, a language for equality saturation, with an encoding
  that records proofs.  Programs are parsed, type checked and lowered (\<open>egglog/src\<close>), run as
  rules over a relational database (\<open>egglog/core-relations\<close>, reached through \<open>egglog/egglog-bridge\<close>),
  and equalities are kept in a union-find (\<open>egglog/union-find\<close>) that the database sees as a table of
  displaced ids.  Identifiers are dense numbers (\<open>egglog/numeric-id\<close>), parallel code rests on
  \<open>egglog/concurrency\<close>.  With proofs enabled, every derived equality can be turned into a proof term
  that an independent checker (\<open>egglog/src/proofs/proof_checker.rs\<close>) replays against the program.

  \<^bold>\<open>Conventions.\<close>  A panic of the source is a value: an operation returns \<open>panic + 'a\<close>, and \<open>Ok\<close>,
  \<open>Err\<close> name the two sides.  A loop that might not return is a \<open>partial_function\<close> into an option,
  so that returning is something proved.  Values and row ids are natural numbers below $2^{32}$, with the
  overflow check of \<open>NumericId::from_usize\<close> written out; the values that the radix sort takes apart and
  its counters are 32-bit words.  An addition to a 32-bit counter is checked, with a panic of its own, as
  where overflow checks are on (the \<open>dev\<close> profile); an \<open>Ok\<close> also says that it would not wrap elsewhere.  Concurrent code is a step relation over the atomic accesses of its workers.
  Library code that the source only calls is an argument with a locale for its documented contract:
  \<open>slice_search\<close> for the standard binary search, the primitives of sorts in the proof checker.

  \<^bold>\<open>Theories.\<close>

  \<^item> \<open>Prelude\<close>: results, panics, checked vector access, bounded identifiers.
  \<^item> \<open>Canonical\<close>, \<open>UnionFind\<close> (\<open>union-find/src/lib.rs\<close>): equivalence closures and canonical
    representatives; the serial union-find with path compression.  Find returns the least member and
    changes nothing visible, union adds one pair to the equivalence, the order of unions does not matter.
  \<^item> \<open>ConcurrentUnionFind\<close> (\<open>union-find/src/concurrent/uf.rs\<close>): the atomic view with its loads and
    compare-exchanges as steps.  Every reachable state links downwards; every complete run of unions, in
    any interleaving, gives the equivalence of the serial run, and each displaced id is returned once.
  \<^item> \<open>NumericId\<close> (\<open>numeric-id/src/lib.rs\<close>): dense maps, dense maps with reuse, id conversion.
  \<^item> \<open>Offsets\<close> (\<open>core-relations/src/offsets/mod.rs\<close>): subsets of rows as ranges and sorted vectors;
    galloping search, in-place intersection, retain, chunked iteration.
  \<^item> \<open>RowBuffer\<close> (\<open>core-relations/src/row_buffer/mod.rs\<close>): flat row-major buffers, removal of stale
    rows (which overflows its row counter on a buffer that uses every row id), tagged buffers.  The locale \<open>appender\<close> is the interface of code that only appends.
  \<^item> \<open>DisplacedTable\<close>, \<open>DisplacedMerge\<close>, \<open>DisplacedQuery\<close>, \<open>Rebuild\<close> (\<open>core-relations/src/uf/mod.rs\<close>):
    the table of displaced ids.  \<open>DisplacedTable\<close> has the model and the invariant (the index agrees
    with the rows, an id has a row if and only if it is not canonical); \<open>DisplacedMerge\<close> shows that serial
    and parallel merges close the equivalence and record each id at the first time it is displaced;
    \<open>DisplacedQuery\<close> that lookups, scans, refinement and fast subsets select the right rows, and that
    \<open>clear\<close> leaves a dangling index; \<open>Rebuild\<close> that both ways of rebuilding other tables produce the same
    live rows.
  \<^item> \<open>Constraints\<close>, \<open>TableSpec\<close> (\<open>core-relations/src/table_spec.rs\<close>): constraints on rows, and the
    provided methods of the table trait.  The
    locale \<open>table_view\<close> is the contract of a table; it is derived for the displaced table from the
    contract of the binary search, and for the flat table.
  \<^item> \<open>ParallelWriter\<close> (\<open>concurrency/src/parallel_writer.rs\<close>): concurrent appends to one vector.  No
    worker writes outside the allocation or into the range of another, nothing is lost, and every
    run ends.  The locale \<open>draining\<close> is the argument for termination of such systems.
  \<^item> \<open>FlatTable\<close> (\<open>core-relations/src/flat_table.rs\<close>): the append-only table, whose merges run on the
    parallel writer.
  \<^item> \<open>SortedTable\<close> (\<open>core-relations/src/table/mod.rs\<close>): the keyed table, as one thread runs it: compact
    hashes and shards, the rows with their stale marks, the offsets of the sort column, staging, removal,
    insertion with merges, compaction.  \<open>SortedInv\<close> has the invariant (every live row has exactly one
    entry, in the shard of its key; keys are unique among live rows; the offsets cover the sort values) and
    the contents as a map from keys to rows.  \<open>SortedRemove\<close>, \<open>SortedInsert\<close> and \<open>SortedMerge\<close> show that
    removals, insertions, compaction and whole merges keep it and do what a specification on the contents
    says; \<open>SortedStage\<close> that staged operations reach their shards in order; \<open>SortedQuery\<close> that lookups,
    scans and constraints select the right rows.  The locale \<open>keyed_env\<close> is the contract of the raw hash
    table, \<open>merging_env\<close> adds that of the merge function.
  \<^item> \<open>MergeFunction\<close>, \<open>MergeSafety\<close>, \<open>AddTable\<close> (\<open>egglog-bridge/src/lib.rs\<close>): merge functions from their
    declaration to the callback that a conflict runs, the tables they depend on, and the checks and the
    layout of a new function's table.  A compiled merge does not panic, and its effects stay within the
    tables it declares.
  \<^item> \<open>KeyedTable\<close>: both together.  The locale \<open>bridge_table\<close> is a keyed table whose merge is compiled by
    the bridge; it meets \<open>merging_env\<close>, so merging such a table is total and exact, and merging by
    congruence stages pairs that generate exactly the equalities of ids with a common key.
  \<^item> \<open>RadixSort\<close> (\<open>core-relations/src/hash_index/radix_sort.rs\<close>): the stable radix sort behind index
    construction, on 32-bit words with checked counters; a pass over more pairs than a counter can count
    would overflow, and the guard on the length keeps it from running.
  \<^item> \<open>SubsetBuffer\<close>, \<open>IndexBase\<close>, \<open>ColumnIndex\<close>, \<open>IndexBuild\<close>, \<open>IndexParallel\<close>, \<open>IndexRefresh\<close>
    (\<open>core-relations/src/hash_index/mod.rs\<close>): the indexes over a keyed table.  \<open>SubsetBuffer\<close> has the vector
    that all row lists of an index share, with its free list: blocks never overlap, and a list behaves like
    a subset of its own.  \<open>IndexBase\<close> has \<open>Index::refresh\<close> and the trait it is written against; the locales
    \<open>index_base\<close> and \<open>index_provider\<close> are the laws of the trait, from which a refresh is shown to be exact.
    \<open>ColumnIndex\<close> is the implementation for values, \<open>IndexBuild\<close> its serial bulk path, \<open>IndexParallel\<close> its
    two parallel paths, with the moments at which tasks push to the queues as a parameter.
    \<open>IndexRefresh\<close> discharges the laws for it, so that all paths agree, and shows that merges of the table
    do not invalidate an index.
  \<^item> \<open>TupleIndex\<close>, \<open>TupleRefresh\<close> (the same file): the implementation for tuples of values.  A shard
    refines a shard with tuples as keys, for every raw hash table that meets the locale \<open>tuple_finder\<close>; by a
    \<open>sublocale\<close> such a table gives the laws of the trait, and so a refresh is exact here, too.
  \<^item> \<open>TermDag\<close> (\<open>egglog/src/termdag.rs\<close>): hash-consed terms, reading back and structural order.
  \<^item> \<open>ProofFormat\<close>, \<open>ProofEval\<close>, \<open>ProofChecker\<close> (\<open>egglog/src/proofs/proof_format.rs\<close>,
    \<open>proof_checker.rs\<close>): resolved programs, proofs, the evaluation of expressions, actions and merge
    bodies, and the check of every justification.
  \<^item> \<open>ProofSoundness\<close>, \<open>ProofVerdict\<close>: an inductive relation of the equalities a program derives on
    trees, and the proof that in a store whose proofs meet two conditions, an accepted proof proves one of
    them.  The checker enforces neither condition: no substitution rebinds a global, and every merge
    names the function of its rows.  The locale \<open>sound_checker\<close> states
    what each justification needs from the checks of its premises.
  \<^item> \<open>ProofTermination\<close>: the checker gives a verdict that does not depend on the fuel, for stores in which
    a proof refers to earlier proofs.
  \<^item> \<open>ProofUses\<close>: the checker reads only the proofs that a proof uses, so no condition on the others is
    needed, and the two conditions become exceptions: an accepted claim is derivable unless the proof or
    one it uses rebinds a global or merges rows of another function.
  \<^item> \<open>ProofGaps\<close>: both exceptions occur: two claims that the checker accepts although the program does not
    derive them.

  \<^bold>\<open>Fuel.\<close>  The checker recurses over proof ids and takes the depth as fuel.  For a store whose proofs
  refer to smaller ids, a fuel above the id of the proof is enough, and more fuel gives the same
  verdict; the theorem on verdicts states both.

  \<^bold>\<open>Not modelled.\<close>  The parallel variants of deletion, insertion and compaction of the keyed table, its
  rebuilding, the catalog of indexes and their stable positions, query planning and the join engine are not modelled yet; they build on the
  buffers, subsets, tables and the sort that are.  The operations of the execution state that merges call
  are an argument of the model, and of the bridge only merge functions and tables are modelled; checks that
  \<open>debug_assert\<close> makes are left out.  The model of the keyed table follows one thread through deletion,
  insertion and compaction; a refresh of an index takes the number of threads and the cutoff as
  parameters, reads a keyed table, and runs the tasks of its coarse parallel path one after another, each
  filling a slot of its own; rebuilding a subset takes the scanned rows.  In the concurrent union-find only
  the assertion on entry can panic; accesses behind it are in the slice by the invariant.  The
  parser, type checker, desugaring, extraction, the sorts and the instrumentation that records proofs are
  left out, as are command line, reports, benchmarks and the experimental extensions.  Memory pools and
  thread pools do not change results.  Of the concurrent code, the resizable union-find and the
  read-optimized lock are not modelled; the lock is used at its contract.
\<close>

end
